(* ===== verification/Prelude.thy ===== *)
theory Prelude
  imports Main "HOL-Library.Word"
begin

unbundle bit_operations_syntax

text \<open>
  Shared vocabulary of the development: the Python exceptions the modelled code can raise and
  the result type that carries them, MSB-first bit fields, Python slices, and the generic list
  lemmas the components share.

  Bit arrays. The scripts hold bits in lists or numpy arrays whose entries are 0 or 1; the model
  uses \<open>bool list\<close>, \<open>True\<close> for 1.  Python integers that are masked to a register width
  (\<open>& 0xFFFF\<close>, \<open>& 0xFFFFFFFF\<close>) are words of that width; unmasked ones are \<open>int\<close>.
\<close>

named_theorems bit_field_simps \<open>evaluation of MSB-first bit fields\<close>
named_theorems perm_simps \<open>interleaver permutations\<close>

subsection \<open>Exceptions as values\<close>

datatype pyerr =
  IndexError | TypeError | ValueError | AssertionError | KeyError | AttributeError | ZeroDivisionError | UnboundLocalError

type_synonym 'a res = "pyerr + 'a"

definition bind_res :: "'a res \<Rightarrow> ('a \<Rightarrow> 'b res) \<Rightarrow> 'b res" where
  "bind_res m f = (case m of Inl e \<Rightarrow> Inl e | Inr x \<Rightarrow> f x)"

lemma bind_res_simps [simp]:
  "bind_res (Inl e) f = Inl e"
  "bind_res (Inr x) f = f x"
  by (simp_all add: bind_res_def)

text \<open>A Python \<open>assert c\<close> followed by the rest of the body.\<close>

definition assert_res :: "bool \<Rightarrow> 'a res \<Rightarrow> 'a res" where
  "assert_res c m = (if c then m else Inl AssertionError)"

lemma assert_res_simps [simp]:
  "assert_res True m = m"
  "assert_res False m = Inl AssertionError"
  by (simp_all add: assert_res_def)

subsection \<open>MSB-first bit fields\<close>

type_synonym bits = "bool list"

definition to_bits :: "nat \<Rightarrow> int \<Rightarrow> bits" where
  "to_bits n v = map (bit v) (rev [0..<n])"

fun bits_acc :: "int \<Rightarrow> bits \<Rightarrow> int" where
  "bits_acc v [] = v"
| "bits_acc v (b # bs) = bits_acc (2 * v + of_bool b) bs"

definition bits_val :: "bits \<Rightarrow> int" where
  "bits_val bs = bits_acc 0 bs"

lemma length_to_bits [simp, bit_field_simps]: "length (to_bits n v) = n"
  by (simp add: to_bits_def)

lemma to_bits_0 [simp]: "to_bits 0 v = []"
  by (simp add: to_bits_def)

lemma to_bits_Suc: "to_bits (Suc n) v = bit v n # to_bits n v"
  by (simp add: to_bits_def)

lemma nth_to_bits [bit_field_simps]: "i < n \<Longrightarrow> to_bits n v ! i = bit v (n - 1 - i)"
  by (simp add: to_bits_def rev_nth)

lemma bits_acc_append: "bits_acc v (xs @ ys) = bits_acc (bits_acc v xs) ys"
  by (induction xs arbitrary: v) simp_all

lemma bits_acc_eq: "bits_acc v bs = v * 2 ^ length bs + bits_val bs"
proof (induction bs arbitrary: v)
  case (Cons b bs)
  have "bits_acc v (b # bs) = (2 * v + of_bool b) * 2 ^ length bs + bits_val bs"
    by (simp add: Cons.IH [of "2 * v + of_bool b"])
  moreover have "bits_val (b # bs) = of_bool b * 2 ^ length bs + bits_val bs"
    using Cons.IH [of "of_bool b"] by (simp add: bits_val_def)
  ultimately show ?case by (simp add: algebra_simps)
qed (simp add: bits_val_def)

lemma bits_val_Nil [simp, bit_field_simps]: "bits_val [] = 0"
  by (simp add: bits_val_def)

lemma bits_val_Cons: "bits_val (b # bs) = of_bool b * 2 ^ length bs + bits_val bs"
  using bits_acc_eq [of "of_bool b" bs] by (simp add: bits_val_def)

lemma bits_val_append: "bits_val (xs @ ys) = bits_val xs * 2 ^ length ys + bits_val ys"
  using bits_acc_eq [of "bits_acc 0 xs" ys] by (simp add: bits_val_def bits_acc_append)

lemma bits_val_nonneg [simp]: "0 \<le> bits_val bs"
  by (induction bs) (simp_all add: bits_val_Cons)

lemma bits_val_less: "bits_val bs < 2 ^ length bs"
proof (induction bs)
  case (Cons b bs)
  moreover have "(2::int) ^ length bs \<le> 2 * 2 ^ length bs" by simp
  ultimately have "bits_val bs < 2 * 2 ^ length bs" by (rule less_le_trans)
  with Cons.IH show ?case by (cases b) (simp_all add: bits_val_Cons)
qed simp

lemma take_bit_Suc_top: "take_bit (Suc n) (v::int) = of_bool (bit v n) * 2 ^ n + take_bit n v"
  by (simp add: take_bit_Suc_from_most mult.commute)

lemma bits_val_to_bits [bit_field_simps]: "bits_val (to_bits n v) = take_bit n v"
proof (induction n)
  case (Suc n)
  then show ?case
    by (simp add: to_bits_Suc bits_val_Cons take_bit_Suc_top)
qed simp

lemma bits_val_to_bits_id: "0 \<le> v \<Longrightarrow> v < 2 ^ n \<Longrightarrow> bits_val (to_bits n v) = v"
  by (simp add: bits_val_to_bits take_bit_int_eq_self)

lemma to_bits_bits_val: "to_bits (length bs) (bits_val bs) = bs"
proof (rule nth_equalityI)
  show "length (to_bits (length bs) (bits_val bs)) = length bs" by simp
next
  fix i assume "i < length (to_bits (length bs) (bits_val bs))"
  then have i: "i < length bs" by simp
  have "bit (bits_val bs) (length bs - 1 - i) = bs ! i"
    using i
  proof (induction bs arbitrary: i)
    case (Cons b bs)
    have lt: "bits_val bs < 2 ^ length bs" by (rule bits_val_less)
    have lo: "take_bit (length bs) (bits_val (b # bs)) = bits_val bs"
      using lt by (simp add: bits_val_Cons take_bit_eq_mod)
    have hi: "bits_val (b # bs) div 2 ^ length bs = of_bool b"
      using lt by (simp add: bits_val_Cons)
    show ?case
    proof (cases i)
      case 0
      then show ?thesis using hi by (simp add: bit_iff_odd)
    next
      case (Suc j)
      with Cons.prems have j: "j < length bs" by simp
      then have "bit (bits_val (b # bs)) (length bs - 1 - j)
          = bit (take_bit (length bs) (bits_val (b # bs))) (length bs - 1 - j)"
        by (simp add: bit_take_bit_iff) (use j in linarith)
      also have "\<dots> = bs ! j" using Cons.IH [OF j] lo by simp
      finally show ?thesis using Suc by simp
    qed
  qed simp
  then show "to_bits (length bs) (bits_val bs) ! i = bs ! i"
    using i by (simp add: nth_to_bits)
qed

text \<open>A shifted field or-ed with a value below it is a sum.\<close>

lemma push_bit_or_add:
  fixes a b :: int
  assumes "0 \<le> b" "b < 2 ^ n"
  shows "push_bit n a OR b = a * 2 ^ n + b"
proof -
  have b: "take_bit n b = b" using assms by (simp add: take_bit_int_eq_self)
  have "push_bit n a OR take_bit n b = push_bit n a + take_bit n b"
    by (rule disjunctive_add_eq_or [symmetric]) (rule bit_eqI, auto simp: bit_simps)
  then show ?thesis by (simp add: b push_bit_eq_mult)
qed

lemma and_mask_mod:
  fixes v :: int
  shows "v AND (2 ^ n - 1) = v mod 2 ^ n"
  by (metis mask_eq_exp_minus_1 take_bit_eq_mask take_bit_eq_mod)

subsection \<open>Exclusive or of bit lists\<close>

definition xor_bits :: "bits \<Rightarrow> bits \<Rightarrow> bits" where
  "xor_bits xs ys = map2 (\<lambda>x y. x \<noteq> y) xs ys"

lemma length_xor_bits [simp]: "length (xor_bits xs ys) = min (length xs) (length ys)"
  by (simp add: xor_bits_def)

lemma nth_xor_bits [simp]:
  "i < length xs \<Longrightarrow> i < length ys \<Longrightarrow> xor_bits xs ys ! i = (xs ! i \<noteq> ys ! i)"
  by (simp add: xor_bits_def)

lemma xor_bits_Nil [simp]: "xor_bits [] ys = []" "xor_bits xs [] = []"
  by (simp_all add: xor_bits_def)

lemma xor_bits_Cons [simp]: "xor_bits (x # xs) (y # ys) = (x \<noteq> y) # xor_bits xs ys"
  by (simp add: xor_bits_def)

lemma xor_bits_cancel: "length xs = length ys \<Longrightarrow> xor_bits (xor_bits xs ys) ys = xs"
  by (rule nth_equalityI) auto

lemma xor_bits_append:
  "length xs = length xs' \<Longrightarrow> xor_bits (xs @ ys) (xs' @ ys') = xor_bits xs xs' @ xor_bits ys ys'"
  by (simp add: xor_bits_def)

text \<open>Number of positions in which two equally long lists differ.\<close>

definition hamming :: "'a list \<Rightarrow> 'a list \<Rightarrow> nat" where
  "hamming xs ys = length (filter (\<lambda>(x, y). x \<noteq> y) (zip xs ys))"

lemma hamming_Nil [simp]: "hamming [] ys = 0" "hamming xs [] = 0"
  by (simp_all add: hamming_def)

lemma hamming_Cons [simp]: "hamming (x # xs) (y # ys) = of_bool (x \<noteq> y) + hamming xs ys"
  by (simp add: hamming_def)

lemma hamming_self [simp]: "hamming xs xs = 0"
  by (induction xs) simp_all

lemma hamming_commute: "hamming xs ys = hamming ys xs"
proof (induction xs arbitrary: ys)
  case (Cons x xs)
  then show ?case by (cases ys) (auto simp: of_bool_def)
qed simp

lemma hamming_append:
  "length xs = length xs' \<Longrightarrow> hamming (xs @ ys) (xs' @ ys') = hamming xs xs' + hamming ys ys'"
  by (simp add: hamming_def)

lemma hamming_triangle:
  "length xs = length ys \<Longrightarrow> length ys = length zs \<Longrightarrow> hamming xs zs \<le> hamming xs ys + hamming ys zs"
  by (induction xs ys zs rule: list_induct3) (auto simp: of_bool_def)

lemma hamming_0_iff: "length xs = length ys \<Longrightarrow> hamming xs ys = 0 \<longleftrightarrow> xs = ys"
  by (induction xs ys rule: list_induct2) auto

lemma hamming_card:
  "length xs = length ys \<Longrightarrow> hamming xs ys = card {i. i < length xs \<and> xs ! i \<noteq> ys ! i}"
  by (simp add: hamming_def length_filter_conv_card) (rule arg_cong [where f = card], auto)

subsection \<open>Python slices\<close>

text \<open>\<open>xs[i:j]\<close> with Python's treatment of negative and out-of-range bounds.\<close>

definition py_bound :: "int \<Rightarrow> int \<Rightarrow> int" where
  "py_bound n i = (if i < 0 then max 0 (n + i) else min n i)"

definition py_slice :: "'a list \<Rightarrow> int \<Rightarrow> int \<Rightarrow> 'a list" where
  "py_slice xs i j =
     (let n = int (length xs); lo = nat (py_bound n i); hi = nat (py_bound n j)
      in take (hi - lo) (drop lo xs))"

lemma py_slice_nonneg:
  "0 \<le> i \<Longrightarrow> 0 \<le> k \<Longrightarrow> py_slice xs i (i + k) = take (nat k) (drop (nat i) xs)"
proof -
  assume i: "0 \<le> i" and k: "0 \<le> k"
  have hi: "nat (py_bound (int (length xs)) (i + k)) = min (length xs) (nat i + nat k)"
    using i k by (simp add: py_bound_def min_def) linarith
  have lo: "nat (py_bound (int (length xs)) i) = min (length xs) (nat i)"
    using i by (simp add: py_bound_def min_def) linarith
  show ?thesis
  proof (cases "nat i < length xs")
    case True
    then show ?thesis by (simp add: py_slice_def hi lo Let_def min_def)
  next
    case False
    then show ?thesis by (simp add: py_slice_def hi lo Let_def)
  qed
qed

lemma py_slice_empty: "0 \<le> j \<Longrightarrow> j \<le> i \<Longrightarrow> py_slice xs i j = []"
  by (simp add: py_slice_def Let_def py_bound_def)

subsection \<open>Lists updated by index\<close>

lemma fold_update_length:
  "length (fold (\<lambda>k out. out[f k := g k]) ks out) = length out"
  by (induction ks arbitrary: out) simp_all

lemma fold_update_other:
  "(\<And>k. k \<in> set ks \<Longrightarrow> f k \<noteq> j) \<Longrightarrow> fold (\<lambda>k out. out[f k := g k]) ks out ! j = out ! j"
  by (induction ks arbitrary: out) simp_all

lemma fold_update_nth:
  "inj_on f (set ks) \<Longrightarrow> k \<in> set ks \<Longrightarrow> f k < length out \<Longrightarrow>
   fold (\<lambda>k out. out[f k := g k]) ks out ! f k = g k"
proof (induction ks arbitrary: out)
  case (Cons a ks)
  show ?case
  proof (cases "k \<in> set ks")
    case True
    with Cons show ?thesis by (simp add: inj_on_def)
  next
    case False
    with Cons.prems have ka: "k = a" by simp
    have "\<And>k'. k' \<in> set ks \<Longrightarrow> f k' \<noteq> f a"
      using Cons.prems(1) False ka by (auto simp: inj_on_def)
    then have "fold (\<lambda>k out. out[f k := g k]) ks (out[f a := g a]) ! f a = out[f a := g a] ! f a"
      by (rule fold_update_other)
    then show ?thesis using Cons.prems(3) ka by simp
  qed
qed simp

lemma upt_Suc_map: "[1..<Suc n] = map Suc [0..<n]"
  by (simp add: map_Suc_upt)

lemma fold_map_fun: "fold f (map g xs) = fold (\<lambda>x. f (g x)) xs"
  by (induction xs) simp_all

end
