(* ===== verification/Scrambler.thy ===== *)
theory Scrambler
  imports Prelude
begin

unbundle bit_operations_syntax

text \<open>The cell scrambler (EN 300 392-2, 8.2.5) and its copies across the scripts.

  \<^item> \<open>scripts/decode_dl.py\<close>: \<open>scrambler_seq\<close>, \<open>make_scramb_code\<close>, \<open>make_scramb_code_dmo\<close>;
  \<^item> \<open>scripts/gen_sch_f_tv.py\<close>, \<open>scripts/gen_sch_hd_tv.py\<close>: \<open>scramble_with_init\<close>;
  \<^item> \<open>scripts/gen_sch_hu_tv.py\<close>: \<open>scramble\<close>; \<open>scripts/verify_sb1_encoder.py\<close>: \<open>scramble_bsch\<close>;
  \<^item> \<open>scripts/decode_sb.py\<close>: \<open>scrambler_seq\<close>, \<open>descramble_bsch\<close>;
  \<^item> \<open>scripts/gen_d_nwrk_broadcast.py\<close>: \<open>cell_scramble\<close>;
  \<^item> \<open>scripts/decode_bnch.py\<close>: \<open>create_scrambler_code\<close>;
  \<^item> the copies that use another register: \<open>scripts/parse_reference_decode.py\<close> and
    \<open>tb/vectors/gen_scrambler_vectors.py\<close>.

  The locale \<open>keystream\<close> is the interface the channel codec uses: a generator of a given length.
  Its lemmas (descrambling undoes scrambling, and neither spreads nor hides bit errors) are
  proved once and interpreted on \<open>scrambler_seq\<close> and on the two other generators.
\<close>

subsection \<open>The Fibonacci register of decode\_dl\<close>

definition lfsr_bit :: "32 word \<Rightarrow> 32 word" where
  "lfsr_bit lfsr =
     (drop_bit 0 lfsr XOR drop_bit 6 lfsr XOR drop_bit 9 lfsr XOR drop_bit 10 lfsr XOR
      drop_bit 16 lfsr XOR drop_bit 20 lfsr XOR drop_bit 21 lfsr XOR drop_bit 22 lfsr XOR
      drop_bit 24 lfsr XOR drop_bit 25 lfsr XOR drop_bit 27 lfsr XOR drop_bit 28 lfsr XOR
      drop_bit 30 lfsr XOR drop_bit 31 lfsr) AND 1"

definition lfsr_next :: "32 word \<Rightarrow> 32 word \<Rightarrow> 32 word" where
  "lfsr_next lfsr b = drop_bit 1 lfsr OR push_bit 31 b"

fun scrambler_loop :: "nat \<Rightarrow> 32 word \<Rightarrow> bits" where
  "scrambler_loop 0 lfsr = []"
| "scrambler_loop (Suc n) lfsr =
     (let b = lfsr_bit lfsr in (b = 1) # scrambler_loop n (lfsr_next lfsr b))"

definition scrambler_seq :: "int \<Rightarrow> nat \<Rightarrow> bits" where
  "scrambler_seq init n =
     (let lfsr = word_of_int init :: 32 word;
          lfsr = (if lfsr = 0 then 0xFFFFFFFF else lfsr)
      in scrambler_loop n lfsr)"

definition make_scramb_code :: "int \<Rightarrow> int \<Rightarrow> int \<Rightarrow> int" where
  "make_scramb_code mcc mnc cc =
     push_bit 22 (mcc AND 0x3FF) OR push_bit 8 (mnc AND 0x3FFF) OR push_bit 2 (cc AND 0x3F) OR 3"

definition make_scramb_code_dmo :: "int \<Rightarrow> int \<Rightarrow> int" where
  "make_scramb_code_dmo mnc src_address =
     push_bit 26 (mnc AND 0x3F) OR push_bit 2 (src_address AND 0xFFFFFF) OR 3"

text \<open>The caller's idiom \<open>(bits ^ scrambler_seq(init, n)) & 1\<close>.\<close>

definition descramble_hard :: "bits \<Rightarrow> int \<Rightarrow> nat \<Rightarrow> bits" where
  "descramble_hard bs init n = xor_bits bs (scrambler_seq init n)"

subsection \<open>The encoders' copies\<close>

definition scr_taps :: "nat list" where
  "scr_taps = [0, 6, 9, 10, 16, 20, 21, 22, 24, 25, 27, 28, 30, 31]"

definition tap_feedback :: "32 word \<Rightarrow> 32 word" where
  "tap_feedback lfsr = foldl (\<lambda>fb tap. fb XOR (drop_bit tap lfsr AND 1)) 0 scr_taps"

fun scramble_taps :: "32 word \<Rightarrow> bits \<Rightarrow> bits" where
  "scramble_taps lfsr [] = []"
| "scramble_taps lfsr (b # bs) =
     (let fb = tap_feedback lfsr
      in (b \<noteq> (fb = 1)) # scramble_taps (push_bit 31 fb OR drop_bit 1 lfsr) bs)"

definition scramble_with_init :: "bits \<Rightarrow> int \<Rightarrow> bits" where
  "scramble_with_init bs init = scramble_taps (word_of_int init) bs"

definition scramble_with_init_hd :: "bits \<Rightarrow> int \<Rightarrow> bits" where
  "scramble_with_init_hd bs init = scramble_taps (word_of_int init) bs"

definition scramble_bsch :: "bits \<Rightarrow> bits" where
  "scramble_bsch bs = scramble_taps 3 bs"

definition scramble_hu :: "bits \<Rightarrow> int \<Rightarrow> bits" where
  "scramble_hu bs scramb_init = map2 (\<lambda>b s. b \<noteq> s) bs (scrambler_seq scramb_init 168)"

fun cell_scramble_loop :: "32 word \<Rightarrow> bits \<Rightarrow> bits" where
  "cell_scramble_loop lfsr [] = []"
| "cell_scramble_loop lfsr (b # bs) =
     (let fb = lfsr_bit lfsr
      in (b \<noteq> (fb = 1)) # cell_scramble_loop (drop_bit 1 lfsr OR push_bit 31 fb) bs)"

definition cell_scramble :: "bits \<Rightarrow> int \<Rightarrow> int \<Rightarrow> int \<Rightarrow> bits" where
  "cell_scramble bs mcc mnc cc =
     (let lfsr = word_of_int (push_bit 22 (mcc AND 0x3FF) OR push_bit 8 (mnc AND 0x3FFF)
                   OR push_bit 2 (cc AND 0x3F) OR 3) :: 32 word;
          lfsr = (if lfsr = 0 then 0xFFFFFFFF else lfsr)
      in cell_scramble_loop lfsr bs)"

definition create_scrambler_code :: "int \<Rightarrow> int \<Rightarrow> int \<Rightarrow> int" where
  "create_scrambler_code mcc mnc cc =
     push_bit 22 (mcc AND 0x3FF) OR push_bit 8 (mnc AND 0x3FFF) OR push_bit 2 (cc AND 0x3F) OR 3"

definition scrambler_seq_sb :: "int \<Rightarrow> nat \<Rightarrow> bits" where
  "scrambler_seq_sb init n =
     (let lfsr = word_of_int init :: 32 word
      in scrambler_loop n (if lfsr = 0 then 0xFFFFFFFF else lfsr))"

definition descramble_bsch :: "bits \<Rightarrow> bits" where
  "descramble_bsch bs = xor_bits bs (scrambler_seq_sb 3 (length bs))"

subsection \<open>Generators with another register\<close>

definition cell_bit :: "32 word \<Rightarrow> 32 word" where
  "cell_bit st =
     (drop_bit 31 st XOR drop_bit 30 st XOR drop_bit 29 st XOR drop_bit 27 st XOR
      drop_bit 25 st XOR drop_bit 0 st) AND 1"

fun cell_scrambler_loop :: "nat \<Rightarrow> 32 word \<Rightarrow> bits" where
  "cell_scrambler_loop 0 st = []"
| "cell_scrambler_loop (Suc n) st =
     (let b = cell_bit st in (b = 1) # cell_scrambler_loop n (push_bit 1 st OR b))"

definition cell_scrambler_seq :: "int \<Rightarrow> nat \<Rightarrow> bits" where
  "cell_scrambler_seq init n = cell_scrambler_loop n (word_of_int init)"

definition descramble_bits :: "bits \<Rightarrow> int \<Rightarrow> bits" where
  "descramble_bits bitstr init = xor_bits bitstr (cell_scrambler_seq init (length bitstr))"

definition galois_step :: "32 word \<Rightarrow> 32 word \<times> 32 word" where
  "galois_step state =
     (let out_bit = state AND 1; state = drop_bit 1 state
      in (if out_bit \<noteq> 0 then state XOR 0x04C11DB7 else state, out_bit))"

fun galois_scramble_loop :: "32 word \<Rightarrow> bits \<Rightarrow> bits" where
  "galois_scramble_loop state [] = []"
| "galois_scramble_loop state (b # bs) =
     (let (state', q) = galois_step state in (b \<noteq> (q = 1)) # galois_scramble_loop state' bs)"

definition galois_scramble :: "int \<Rightarrow> bits \<Rightarrow> bits" where
  "galois_scramble lfsr_init bs = galois_scramble_loop (word_of_int lfsr_init) bs"

definition galois_descramble :: "int \<Rightarrow> bits \<Rightarrow> bits" where
  "galois_descramble lfsr_init bs = galois_scramble lfsr_init bs"

definition compute_lfsr_init :: "int \<Rightarrow> int \<Rightarrow> int \<Rightarrow> int \<Rightarrow> int res" where
  "compute_lfsr_init cc mcc mnc tn =
     assert_res (0 \<le> cc \<and> cc \<le> 0x3F)
     (assert_res (0 \<le> mcc \<and> mcc \<le> 0x3FF)
     (assert_res (0 \<le> mnc \<and> mnc \<le> 0x3FFF)
     (assert_res (0 \<le> tn \<and> tn \<le> 0x3)
     (let init = cc AND 0x3F;
          init = init OR push_bit 6 (mcc AND 0x3FF);
          init = init OR push_bit 16 (mnc AND 0x3FFF);
          init = init OR push_bit 30 (tn AND 0x3)
      in Inr (init AND 0xFFFFFFFF)))))"

subsection \<open>The keystream interface\<close>

locale keystream =
  fixes ks :: "int \<Rightarrow> nat \<Rightarrow> bits"
  assumes length_ks: "length (ks init n) = n"
begin

definition mask_with :: "int \<Rightarrow> bits \<Rightarrow> bits" where
  "mask_with init bs = xor_bits bs (ks init (length bs))"

lemma mask_length: "length (mask_with init bs) = length bs"
  by (simp add: mask_with_def length_ks)

lemma mask_mask: "mask_with init (mask_with init bs) = bs"
  by (simp add: mask_with_def length_ks xor_bits_cancel)

lemma mask_xor:
  "length e = length bs \<Longrightarrow> mask_with init (xor_bits bs e) = xor_bits (mask_with init bs) e"
  unfolding mask_with_def by (rule nth_equalityI) (auto simp: length_ks)

lemma mask_inject: "mask_with init xs = mask_with init ys \<Longrightarrow> xs = ys"
  by (metis mask_mask)

lemma mask_hamming:
  assumes "length xs = length ys"
  shows "hamming (mask_with init xs) (mask_with init ys) = hamming xs ys"
proof -
  have "hamming (xor_bits xs zs) (xor_bits ys zs) = hamming xs ys" if "length zs = length xs" for zs
    using assms that
  proof (induction xs ys arbitrary: zs rule: list_induct2)
    case (Cons x xs y ys)
    then obtain z zs' where "zs = z # zs'" by (cases zs) auto
    with Cons show ?case by (cases x; cases y; cases z) simp_all
  qed simp
  then show ?thesis using assms by (simp add: mask_with_def length_ks)
qed

end

lemma length_scrambler_loop [simp]: "length (scrambler_loop n l) = n"
  by (induction n arbitrary: l) (simp_all add: Let_def)

lemma length_scrambler_seq [simp]: "length (scrambler_seq init n) = n"
  by (simp add: scrambler_seq_def Let_def)

lemma length_cell_scrambler_loop [simp]: "length (cell_scrambler_loop n l) = n"
  by (induction n arbitrary: l) (simp_all add: Let_def)

interpretation dl_ks: keystream scrambler_seq
  by unfold_locales simp

interpretation ref_ks: keystream cell_scrambler_seq
  by unfold_locales (simp add: cell_scrambler_seq_def)

lemma descramble_hard_mask: "length bs = n \<Longrightarrow> descramble_hard bs init n = dl_ks.mask_with init bs"
  by (simp add: descramble_hard_def dl_ks.mask_with_def)

lemma descramble_bits_mask: "descramble_bits bs init = ref_ks.mask_with init bs"
  by (simp add: descramble_bits_def ref_ks.mask_with_def)

subsection \<open>The copies compute the same stream\<close>

lemma tap_feedback_lfsr_bit: "tap_feedback l = lfsr_bit l"
  by (simp add: tap_feedback_def scr_taps_def lfsr_bit_def bit.conj_xor_distrib2 xor.assoc del: drop_bit_0)

lemma scramble_taps_stream:
  "scramble_taps l bs = xor_bits bs (scrambler_loop (length bs) l)"
  by (induction bs arbitrary: l)
    (simp_all add: Let_def tap_feedback_lfsr_bit lfsr_next_def or.commute)

lemma cell_scramble_loop_stream:
  "cell_scramble_loop l bs = xor_bits bs (scrambler_loop (length bs) l)"
  by (induction bs arbitrary: l) (simp_all add: Let_def lfsr_next_def)

lemma scrambler_seq_nonzero:
  "(word_of_int init :: 32 word) \<noteq> 0 \<Longrightarrow> scrambler_seq init n = scrambler_loop n (word_of_int init)"
  by (simp add: scrambler_seq_def)

lemma scrambler_seq_sb_eq: "scrambler_seq_sb init n = scrambler_seq init n"
  by (simp add: scrambler_seq_sb_def scrambler_seq_def Let_def)

lemma scramble_with_init_stream:
  "(word_of_int init :: 32 word) \<noteq> 0 \<Longrightarrow>
   scramble_with_init bs init = dl_ks.mask_with init bs"
  by (simp add: scramble_with_init_def scramble_taps_stream dl_ks.mask_with_def scrambler_seq_nonzero)

lemma scramble_with_init_hd_eq: "scramble_with_init_hd bs init = scramble_with_init bs init"
  by (simp add: scramble_with_init_hd_def scramble_with_init_def)

lemma scramble_bsch_stream: "scramble_bsch bs = dl_ks.mask_with 3 bs"
  by (simp add: scramble_bsch_def scramble_taps_stream dl_ks.mask_with_def scrambler_seq_nonzero)

lemma descramble_bsch_mask: "descramble_bsch bs = dl_ks.mask_with 3 bs"
  by (simp add: descramble_bsch_def scrambler_seq_sb_eq dl_ks.mask_with_def)

lemma scramble_hu_mask: "length bs = 168 \<Longrightarrow> scramble_hu bs init = dl_ks.mask_with init bs"
  by (simp add: scramble_hu_def dl_ks.mask_with_def xor_bits_def)

subsection \<open>The register never dies\<close>

lemma bit_lfsr_bit: "bit (lfsr_bit l) n = (n = 0 \<and> bit (lfsr_bit l) 0)"
  by (cases "n = 0") (simp_all only: lfsr_bit_def bit_and_iff bit_1_iff simp_thms)

lemma bit_lfsr_next:
  "i < 32 \<Longrightarrow> bit (lfsr_next l b) i = (if i = 31 then bit b 0 else bit l (Suc i))"
proof -
  assume i: "i < 32"
  show ?thesis
  proof (cases "i = 31")
    case True
    have "\<not> bit l 32" using bit_imp_le_length [of l 32] by auto
    with True show ?thesis by (simp add: lfsr_next_def bit_simps)
  next
    case False
    with i show ?thesis by (simp add: lfsr_next_def bit_simps)
  qed
qed

lemma lfsr_next_eq_0: "lfsr_next l (lfsr_bit l) = 0 \<Longrightarrow> l = 0"
proof -
  assume z: "lfsr_next l (lfsr_bit l) = 0"
  have hi: "\<not> bit l (Suc i)" if "i < 31" for i
    using bit_lfsr_next [of i l "lfsr_bit l"] z that by simp
  have top: "\<not> bit (lfsr_bit l) 0"
    using bit_lfsr_next [of 31 l "lfsr_bit l"] z by simp
  have b: "\<not> bit l n" if "0 < n" "n < 32" for n
    using hi [of "n - 1"] that by simp
  have "\<not> bit l 0"
    using top by (simp add: lfsr_bit_def bit_simps b)
  then show "l = 0"
    using b by (auto intro!: bit_word_eqI) (metis not_gr_zero)
qed

text \<open>State after \<open>n\<close> steps.\<close>

definition lfsr_run :: "nat \<Rightarrow> 32 word \<Rightarrow> 32 word" where
  "lfsr_run n l = ((\<lambda>l. lfsr_next l (lfsr_bit l)) ^^ n) l"

lemma lfsr_run_0 [simp]: "lfsr_run 0 l = l"
  by (simp add: lfsr_run_def)

lemma lfsr_run_Suc: "lfsr_run (Suc n) l = lfsr_run n (lfsr_next l (lfsr_bit l))"
  by (simp add: lfsr_run_def funpow_Suc_right del: funpow.simps)

lemma lfsr_run_nonzero: "l \<noteq> 0 \<Longrightarrow> lfsr_run n l \<noteq> 0"
  by (induction n arbitrary: l) (auto simp: lfsr_run_Suc dest: lfsr_next_eq_0)

lemma scrambler_loop_drop: "drop m (scrambler_loop (m + n) l) = scrambler_loop n (lfsr_run m l)"
  by (induction m arbitrary: l) (simp_all add: lfsr_run_Suc Let_def)

lemma lfsr_bit_eq_1: "(lfsr_bit l = 1) = bit (lfsr_bit l) 0"
proof
  assume "bit (lfsr_bit l) 0"
  then show "lfsr_bit l = 1"
    by (intro bit_word_eqI) (subst bit_lfsr_bit, simp add: bit_1_iff)
qed (simp add: bit_1_iff)

text \<open>An all-zero output window of length \<open>k\<close> shows in the top \<open>k\<close> bits of the register.\<close>

lemma zero_window_top:
  "scrambler_loop k l = replicate k False \<Longrightarrow> k \<le> 32 \<Longrightarrow> 32 - k \<le> i \<Longrightarrow> i < 32 \<Longrightarrow>
   \<not> bit (lfsr_run k l) i"
proof (induction k arbitrary: i)
  case (Suc k)
  have run: "lfsr_run (Suc k) l = lfsr_next (lfsr_run k l) (lfsr_bit (lfsr_run k l))"
    by (simp add: lfsr_run_def)
  have "drop k (scrambler_loop (k + 1) l) = [False]"
    using Suc.prems(1) by (simp del: scrambler_loop.simps add: replicate_append_same [symmetric])
  then have out: "\<not> bit (lfsr_bit (lfsr_run k l)) 0"
    using scrambler_loop_drop [of k 1 l] by (simp add: Let_def lfsr_bit_eq_1)
  have pre: "scrambler_loop k l = replicate k False"
  proof -
    have "take k (scrambler_loop (Suc k) l) = scrambler_loop k l" for l
      by (induction k arbitrary: l) (simp_all add: Let_def)
    with Suc.prems(1) show ?thesis by (metis length_replicate take_replicate min.absorb1 le_SucI order_refl)
  qed
  show ?case
  proof (cases "i = 31")
    case True
    then show ?thesis using out by (simp add: run bit_lfsr_next)
  next
    case False
    then have "\<not> bit (lfsr_run k l) (Suc i)"
      using Suc.IH [OF pre, of "Suc i"] Suc.prems by simp
    then show ?thesis using False Suc.prems by (simp add: run bit_lfsr_next)
  qed
qed simp

lemma no_32_zeros: "l \<noteq> 0 \<Longrightarrow> scrambler_loop 32 l \<noteq> replicate 32 False"
proof
  assume "l \<noteq> 0" and "scrambler_loop 32 l = replicate 32 False"
  then have "\<not> bit (lfsr_run 32 l) i" if "i < 32" for i
    using zero_window_top [of 32 l i] that by simp
  then have "lfsr_run 32 l = 0"
    by (intro bit_word_eqI) simp
  with lfsr_run_nonzero [OF \<open>l \<noteq> 0\<close>] show False by blast
qed

subsection \<open>Seeds\<close>

lemma make_scramb_code_eq:
  "make_scramb_code mcc mnc cc = (mcc mod 1024) * 2 ^ 22 + (mnc mod 16384) * 2 ^ 8 + (cc mod 64) * 4 + 3"
proof -
  have m: "mcc AND 0x3FF = mcc mod 1024" "mnc AND 0x3FFF = mnc mod 16384" "cc AND 0x3F = cc mod 64"
    using and_mask_mod [of mcc 10] and_mask_mod [of mnc 14] and_mask_mod [of cc 6] by simp_all
  have r: "0 \<le> mnc mod 16384" "mnc mod 16384 < 16384" "0 \<le> cc mod 64" "cc mod 64 < 64"
    by simp_all
  have c: "push_bit 2 (cc mod 64) OR 3 = (cc mod 64) * 4 + 3"
    using push_bit_or_add [of 3 2 "cc mod 64"] by simp
  have b: "push_bit 8 (mnc mod 16384) OR ((cc mod 64) * 4 + 3)
      = (mnc mod 16384) * 256 + ((cc mod 64) * 4 + 3)"
    using push_bit_or_add [of "(cc mod 64) * 4 + 3" 8 "mnc mod 16384"] r by simp
  have a: "push_bit 22 (mcc mod 1024) OR ((mnc mod 16384) * 256 + ((cc mod 64) * 4 + 3))
      = (mcc mod 1024) * 4194304 + ((mnc mod 16384) * 256 + ((cc mod 64) * 4 + 3))"
    using push_bit_or_add [of "(mnc mod 16384) * 256 + ((cc mod 64) * 4 + 3)" 22 "mcc mod 1024"] r
    by simp
  show ?thesis by (simp only: make_scramb_code_def m a b c) simp
qed

lemma make_scramb_code_range: "3 \<le> make_scramb_code mcc mnc cc \<and> make_scramb_code mcc mnc cc < 2 ^ 32"
proof -
  have "0 \<le> mcc mod 1024" "mcc mod 1024 < 1024" "0 \<le> mnc mod 16384" "mnc mod 16384 < 16384"
    "0 \<le> cc mod 64" "cc mod 64 < 64" by simp_all
  then show ?thesis unfolding make_scramb_code_eq by simp
qed

lemma word_of_seed_nonzero: "0 < v \<Longrightarrow> v < 2 ^ 32 \<Longrightarrow> (word_of_int v :: 32 word) \<noteq> 0"
  by (simp add: word_of_int_eq_0_iff zdvd_not_zless)

lemma make_scramb_code_nonzero: "(word_of_int (make_scramb_code mcc mnc cc) :: 32 word) \<noteq> 0"
  using make_scramb_code_range [of mcc mnc cc] by (intro word_of_seed_nonzero) auto

lemma create_scrambler_code_eq: "create_scrambler_code mcc mnc cc = make_scramb_code mcc mnc cc"
  by (simp add: create_scrambler_code_def make_scramb_code_def)

lemma cell_scramble_mask: "cell_scramble bs mcc mnc cc = dl_ks.mask_with (make_scramb_code mcc mnc cc) bs"
proof -
  have "push_bit 22 (mcc AND 0x3FF) OR push_bit 8 (mnc AND 0x3FFF) OR push_bit 2 (cc AND 0x3F) OR 3
      = make_scramb_code mcc mnc cc"
    by (simp add: make_scramb_code_def)
  then show ?thesis
    by (simp only: cell_scramble_def Let_def make_scramb_code_nonzero if_False
        cell_scramble_loop_stream dl_ks.mask_with_def
        scrambler_seq_nonzero [OF make_scramb_code_nonzero])
qed

subsection \<open>Properties\<close>

text \<open>For every cell identity the receiver's descrambling undoes the encoder's scrambling, for
  blocks of any length: the cell seed is never zero, so both sides run the same register.
\<close>

theorem cell_scrambling_roundtrip:
  "descramble_hard (scramble_with_init bs (make_scramb_code mcc mnc cc))
     (make_scramb_code mcc mnc cc) (length bs) = bs"
  by (simp add: scramble_with_init_stream make_scramb_code_nonzero descramble_hard_mask
      dl_ks.mask_length dl_ks.mask_mask)

text \<open>The scrambling sequence never degenerates: from every seed (zero included, which the code
  replaces by all ones) and at every offset, a window of 32 consecutive bits is not all zero.
\<close>

theorem scrambler_never_stuck:
  "drop m (scrambler_seq init (m + 32)) \<noteq> replicate 32 False"
proof -
  let ?l = "if (word_of_int init :: 32 word) = 0 then 0xFFFFFFFF else word_of_int init"
  have "scrambler_seq init (m + 32) = scrambler_loop (m + 32) ?l"
    by (simp add: scrambler_seq_def)
  moreover have "lfsr_run m ?l \<noteq> 0"
    by (rule lfsr_run_nonzero) simp
  ultimately show ?thesis
    using no_32_zeros [of "lfsr_run m ?l"] scrambler_loop_drop [of m 32 ?l] by simp
qed

text \<open>The seed word packs country code, network code and colour code without overlap: each is read
  back from its bits, the low two bits are 11 and the word fits 32 bits.
\<close>

theorem make_scramb_code_fields:
  assumes "0 \<le> mcc" "mcc < 1024" "0 \<le> mnc" "mnc < 16384" "0 \<le> cc" "cc < 64"
  shows "drop_bit 22 (make_scramb_code mcc mnc cc) = mcc
    \<and> take_bit 14 (drop_bit 8 (make_scramb_code mcc mnc cc)) = mnc
    \<and> take_bit 6 (drop_bit 2 (make_scramb_code mcc mnc cc)) = cc
    \<and> take_bit 2 (make_scramb_code mcc mnc cc) = 3
    \<and> make_scramb_code mcc mnc cc < 2 ^ 32"
proof -
  let ?c = "make_scramb_code mcc mnc cc"
  have c: "?c = ((mcc * 16384 + mnc) * 64 + cc) * 4 + 3"
    using assms by (simp add: make_scramb_code_eq)
  have d2: "?c div 4 = (mcc * 16384 + mnc) * 64 + cc" by (simp add: c)
  have d8: "?c div 256 = mcc * 16384 + mnc"
    using zdiv_zmult2_eq [of 64 ?c 4] d2 assms by simp
  have d22: "?c div 4194304 = mcc"
    using zdiv_zmult2_eq [of 16384 ?c 256] d8 assms by simp
  have r22: "drop_bit 22 ?c = mcc" using d22 by (simp add: drop_bit_eq_div)
  have r8: "take_bit 14 (drop_bit 8 ?c) = mnc"
    using d8 assms by (simp add: drop_bit_eq_div take_bit_eq_mod)
  have r2: "take_bit 6 (drop_bit 2 ?c) = cc"
    using d2 assms mod_mult_self3 [of "mcc * 16384 + mnc" 64 cc]
    by (simp add: drop_bit_eq_div take_bit_eq_mod)
  have "?c mod 4 = 3"
    unfolding c using mod_mult_self3 [of "(mcc * 16384 + mnc) * 64 + cc" 4 3] by simp
  then have "take_bit 2 ?c = 3" by (simp add: take_bit_eq_mod)
  with r22 r8 r2 show ?thesis using make_scramb_code_range [of mcc mnc cc] by blast
qed

theorem make_scramb_code_fields_witness:
  "drop_bit 22 (make_scramb_code 901 9998 49) = 901 \<and> make_scramb_code 901 9998 49 < 2 ^ 32"
  using make_scramb_code_fields [of 901 9998 49] by simp

text \<open>The scrambler copies agree: the D-NWRK-BROADCAST generator, the SCH/HD generator and the
  uplink generator produce exactly the stream of \<open>scrambler_seq\<close> for the cell's seed.
\<close>

theorem scrambler_copies_agree:
  "cell_scramble bs mcc mnc cc = descramble_hard bs (make_scramb_code mcc mnc cc) (length bs)
   \<and> scramble_with_init_hd bs (make_scramb_code mcc mnc cc) = cell_scramble bs mcc mnc cc
   \<and> create_scrambler_code mcc mnc cc = make_scramb_code mcc mnc cc
   \<and> descramble_bsch (scramble_bsch bs) = bs"
  by (simp add: cell_scramble_mask descramble_hard_mask scramble_with_init_hd_eq
      scramble_with_init_stream make_scramb_code_nonzero create_scrambler_code_eq
      scramble_bsch_stream descramble_bsch_mask dl_ks.mask_mask)

text \<open>The zero seed is handled differently on the two sides: the test-vector encoder leaves the
  block unscrambled, while the decoder substitutes the all-ones seed, so a block of at least 32
  bits encoded with seed 0 is not recovered.
\<close>

theorem zero_seed_not_recovered:
  assumes "32 \<le> length bs"
  shows "scramble_with_init bs 0 = bs
    \<and> descramble_hard (scramble_with_init bs 0) 0 (length bs) \<noteq> bs"
proof -
  have z: "scrambler_loop n 0 = replicate n False" for n
    by (induction n) (simp_all add: Let_def lfsr_bit_def lfsr_next_def)
  have id: "xor_bits xs (replicate (length xs) False) = xs" for xs
    by (rule nth_equalityI) auto
  have enc: "scramble_with_init bs 0 = bs"
    by (simp add: scramble_with_init_def scramble_taps_stream z id)
  moreover have "descramble_hard (scramble_with_init bs 0) 0 (length bs) \<noteq> bs"
  proof
    assume eq: "descramble_hard (scramble_with_init bs 0) 0 (length bs) = bs"
    let ?s = "scrambler_seq 0 (length bs)"
    have "xor_bits bs ?s = bs"
      using eq by (simp add: enc descramble_hard_def)
    then have "\<not> ?s ! i" if "i < length bs" for i
      using that by (metis length_scrambler_seq nth_xor_bits)
    then have "?s = replicate (length bs) False"
      by (intro nth_equalityI) auto
    moreover obtain k where k: "length bs = k + 32"
      using assms by (metis add.commute le_Suc_ex)
    ultimately have "drop k (scrambler_seq 0 (k + 32)) = replicate 32 False"
      by simp
    then show False using scrambler_loop_drop [of k 32 "0xFFFFFFFF"]
        no_32_zeros [OF lfsr_run_nonzero, of "0xFFFFFFFF" k] by (simp add: scrambler_seq_def)
  qed
  ultimately show ?thesis by blast
qed

theorem zero_seed_not_recovered_witness:
  "descramble_hard (scramble_with_init (replicate 124 False) 0) 0 124 \<noteq> replicate 124 False"
  using zero_seed_not_recovered [of "replicate 124 False"] by auto

text \<open>The forensic parser's descrambler is not the cell scrambler: for the BSCH seed 3 its
  sequence differs from \<open>scrambler_seq\<close> within the first 120 bits, so its layer dumps do not
  descramble what the transmitter scrambled.
\<close>

theorem reference_parser_scrambler_differs:
  "descramble_bits (scramble_bsch (replicate 120 False)) 3 \<noteq> replicate 120 False"
proof -
  have s: "\<not> scrambler_seq 3 (Suc (Suc n)) ! 1" for n
    by (simp add: scrambler_seq_def Let_def lfsr_bit_def lfsr_next_def)
  have c: "cell_scrambler_seq 3 (Suc (Suc n)) ! 1" for n
    by (simp add: cell_scrambler_seq_def Let_def cell_bit_def)
  have ne: "scrambler_seq 3 120 \<noteq> cell_scrambler_seq 3 120"
    using s [of 118] c [of 118] by auto
  show ?thesis
  proof
    assume "descramble_bits (scramble_bsch (replicate 120 False)) 3 = replicate 120 False"
    moreover have "xor_bits (xor_bits (replicate 120 False) xs) ys = replicate 120 False \<longrightarrow> xs = ys"
      if "length xs = 120" "length ys = 120" for xs ys
      using that by (auto simp: list_eq_iff_nth_eq)
    ultimately show False
      using ne by (simp add: descramble_bits_def scramble_bsch_stream dl_ks.mask_with_def
          ref_ks.length_ks)
  qed
qed

end
