(* ===== verification/Crc.thy ===== *)
theory Crc
  imports Prelude
begin

unbundle bit_operations_syntax

text \<open>
  The CRC-16 of the signalling channels in the two forms the scripts use, and the LLC's CRC-32.

  \<^item> MSB-first with polynomial 0x1021: \<open>crc16\<close> of \<open>scripts/verify_sb1_encoder.py\<close>,
    \<open>crc16_msb\<close> and \<open>append_fcs\<close> of \<open>scripts/gen_sch_hu_tv.py\<close>,
    \<open>crc16_bits\<close> and \<open>crc16_check\<close> of \<open>scripts/decode_sb.py\<close>;
  \<^item> LSB-first with polynomial 0x8408 and the residue test: \<open>crc16_check_dll\<close> of
    \<open>scripts/decode_dl.py\<close> and of \<open>scripts/decode_sb.py\<close>;
  \<^item> \<open>crc32_check_llc\<close> of \<open>scripts/decode_dl.py\<close>;
  \<^item> the augmented-message form \<open>crc16_ccitt\<close> of \<open>tb/vectors/gen_crc16_vectors.py\<close> and
    \<open>tetra_crc16\<close> of \<open>scripts/gen_d_nwrk_broadcast.py\<close>, which are other functions.

  The locale \<open>crc_register\<close> states what every LSB-first register is: a step that shifts right
  and folds in a polynomial with its top bit set.  Error detection follows in the locale.
\<close>

subsection \<open>MSB-first register\<close>

definition crc_step_msb :: "16 word \<Rightarrow> bool \<Rightarrow> 16 word" where
  "crc_step_msb crc b =
     (let fb = (b \<noteq> bit crc 15);
          crc = push_bit 1 crc
      in if fb then crc XOR 0x1021 else crc)"

definition crc16_reg :: "bits \<Rightarrow> 16 word" where
  "crc16_reg bs = foldl crc_step_msb 0xFFFF bs"

text \<open>The 16 bits appended after the data, \<open>(crc >> (15 - i)) & 1\<close> for \<open>i = 0..15\<close>.\<close>

definition word16_bits :: "16 word \<Rightarrow> bits" where
  "word16_bits crc = map (\<lambda>i. bit crc (15 - i)) [0..<16]"

definition crc16 :: "bits \<Rightarrow> bits" where
  "crc16 bs = bs @ word16_bits (crc16_reg bs XOR 0xFFFF)"

definition crc16_msb :: "bits \<Rightarrow> 16 word" where
  "crc16_msb bs =
     foldl (\<lambda>crc b. let fb = (bit crc 15 \<noteq> b); crc = push_bit 1 crc
                   in if fb then crc XOR 0x1021 else crc) 0xFFFF bs"

definition append_fcs :: "bits \<Rightarrow> bits" where
  "append_fcs info_bits =
     (let rem = crc16_msb info_bits; fcs = rem XOR 0xFFFF
      in info_bits @ map (bit fcs) (rev [0..<16]))"

definition crc16_bits :: "bits \<Rightarrow> bits" where
  "crc16_bits info_bits = word16_bits (foldl crc_step_msb 0xFFFF info_bits)"

definition crc16_check :: "bits \<Rightarrow> bool \<Rightarrow> bool" where
  "crc16_check bs invert_fcs =
     (let info_bits = take 60 bs;
          rx_fcs = take 16 (drop 60 bs);
          calc_fcs = crc16_bits info_bits;
          calc_fcs = (if invert_fcs then map Not calc_fcs else calc_fcs)
      in rx_fcs = calc_fcs)"

subsection \<open>LSB-first register with residue test\<close>

definition crc_step_dll :: "16 word \<Rightarrow> bool \<Rightarrow> 16 word" where
  "crc_step_dll crc b =
     (let feedback = (b \<noteq> bit crc 0);
          crc = drop_bit 1 crc
      in if feedback then crc XOR 0x8408 else crc)"

definition crc16_check_dll :: "bits \<Rightarrow> bool" where
  "crc16_check_dll bs = (foldl crc_step_dll 0xFFFF bs = 0xF0B8)"

definition crc16_check_dll_sb :: "bits \<Rightarrow> bool" where
  "crc16_check_dll_sb bs =
     (foldl (\<lambda>crc b. let feedback = (b \<noteq> bit crc 0); crc = drop_bit 1 crc
                    in if feedback then crc XOR 0x8408 else crc) 0xFFFF bs = (0xF0B8 :: 16 word))"

definition crc_step32 :: "32 word \<Rightarrow> bool \<Rightarrow> 32 word" where
  "crc_step32 crc b =
     (let feedback = (b \<noteq> bit crc 0);
          crc = drop_bit 1 crc
      in if feedback then crc XOR 0xEDB88320 else crc)"

definition crc32_check_llc :: "bits \<Rightarrow> bool" where
  "crc32_check_llc bs = (foldl crc_step32 0xFFFFFFFF bs = 0xDEBB20E3)"

subsection \<open>The vector generators' functions\<close>

definition crc16_ccitt :: "16 word \<Rightarrow> bits \<Rightarrow> 16 word" where
  "crc16_ccitt init data_bits =
     foldl (\<lambda>crc b. let top = bit crc 15; crc = push_bit 1 crc OR of_bool b
                   in if top then crc XOR 0x1021 else crc) init data_bits"

definition tetra_crc16_step :: "int \<Rightarrow> bool \<Rightarrow> int" where
  "tetra_crc16_step crc b =
     (let crc = crc XOR push_bit 15 (of_bool b)
      in if crc AND 0x10000 \<noteq> 0 then (push_bit 1 crc XOR 0x11021) AND 0x1FFFF
         else push_bit 1 crc AND 0x1FFFF)"

definition tetra_crc16 :: "bits \<Rightarrow> bits" where
  "tetra_crc16 bs =
     (let crc = foldl tetra_crc16_step 0xFFFF bs; crc = crc XOR 0xFFFF
      in map (\<lambda>i. bit crc (15 - i)) [0..<16])"

definition bytes_to_bits :: "nat list \<Rightarrow> bits" where
  "bytes_to_bits data = concat (map (\<lambda>b. map (bit b) (rev [0..<8])) data)"

subsection \<open>Registers that shift right\<close>

locale crc_register =
  fixes step :: "'r::len word \<Rightarrow> bool \<Rightarrow> 'r word" and poly :: "'r word"
  assumes step_eq: "step c b = (if b \<noteq> bit c 0 then drop_bit 1 c XOR poly else drop_bit 1 c)"
    and poly_top: "bit poly (LENGTH('r) - 1)"
begin

lemma step_xor: "step (c XOR d) (b \<noteq> e) = step c b XOR step d e"
  by (rule bit_word_eqI) (auto simp: step_eq bit_simps)

lemma step_0: "step 0 False = 0"
  by (simp add: step_eq)

lemma run_xor:
  "length bs = length es \<Longrightarrow>
   foldl step (c XOR d) (xor_bits bs es) = foldl step c bs XOR foldl step d es"
  by (induction bs es arbitrary: c d rule: list_induct2) (simp_all add: step_xor [simplified])

lemma run_zeros: "foldl step 0 (replicate n False) = 0"
  by (induction n) (simp_all add: step_0)

text \<open>A run of at most register length that ends in 0 has read the register's own bits.\<close>

lemma run_short_zero:
  "foldl step c w = 0 \<Longrightarrow> length w \<le> LENGTH('r) \<Longrightarrow>
   (\<forall>i < length w. w ! i = bit c i) \<and> (\<forall>i \<ge> length w. \<not> bit c i)"
proof (induction w arbitrary: c)
  case (Cons b w)
  let ?c = "step c b"
  have IH: "(\<forall>i < length w. w ! i = bit ?c i) \<and> (\<forall>i \<ge> length w. \<not> bit ?c i)"
    using Cons.IH [of ?c] Cons.prems by simp
  then have "\<not> bit ?c (LENGTH('r) - 1)" using Cons.prems(2) by simp
  moreover have "\<not> bit (drop_bit 1 c) (LENGTH('r) - 1)"
    using bit_imp_le_length [of c "LENGTH('r)"] by (auto simp: bit_simps)
  ultimately have b: "b = bit c 0" and c: "?c = drop_bit 1 c"
    using poly_top by (auto simp: step_eq bit_xor_iff split: if_splits)
  have sh: "bit (step c b) i = bit c (Suc i)" for i
    using arg_cong [OF c, of "\<lambda>w. bit w i"] by (simp add: bit_drop_bit_eq)
  have "(b # w) ! i = bit c i" if "i < length (b # w)" for i
  proof (cases i)
    case (Suc j)
    with that IH have "w ! j = bit (step c b) j" by simp
    then show ?thesis by (simp only: sh Suc nth_Cons_Suc)
  qed (simp add: b)
  moreover have "\<not> bit c i" if "length (b # w) \<le> i" for i
    using that IH by (cases i) (simp_all add: sh)
  ultimately show ?case by blast
qed (auto intro: bit_word_eqI)

lemma run_own_bits: "foldl step c (map (bit c) [0..<k]) = drop_bit k c"
proof (induction k)
  case (Suc k)
  then show ?case by (simp add: step_eq bit_simps)
qed simp

lemma residue:
  "foldl step c (map (bit (NOT c)) [0..<LENGTH('r)]) = foldl step 0 (replicate LENGTH('r) True)"
proof -
  let ?n = "LENGTH('r)"
  have "map (bit (NOT c)) [0..<?n] = xor_bits (map (bit c) [0..<?n]) (replicate ?n True)"
    by (rule nth_equalityI) (auto simp: bit_simps)
  then have "foldl step (c XOR 0) (map (bit (NOT c)) [0..<?n])
      = foldl step c (map (bit c) [0..<?n]) XOR foldl step 0 (replicate ?n True)"
    using run_xor [of "map (bit c) [0..<?n]" "replicate ?n True" c 0] by simp
  moreover have "foldl step c (map (bit c) [0..<?n]) = 0"
    by (simp add: run_own_bits drop_bit_word_beyond)
  ultimately show ?thesis by simp
qed

lemma same_end_iff:
  assumes "length xs = length ys"
  shows "foldl step c xs = foldl step c ys \<longleftrightarrow> foldl step 0 (xor_bits xs ys) = 0"
proof -
  have "foldl step (c XOR c) (xor_bits xs ys) = foldl step c xs XOR foldl step c ys"
    by (rule run_xor [OF assms])
  moreover have "x = y \<longleftrightarrow> x XOR y = 0" for x y :: "'r word"
    by (simp add: bit_eq_iff bit_simps)
  ultimately show ?thesis by simp
qed

lemma residue_iff:
  assumes "length f = LENGTH('r)"
  shows "foldl step c f = foldl step 0 (replicate LENGTH('r) True)
         \<longleftrightarrow> f = map (bit (NOT c)) [0..<LENGTH('r)]"
proof
  let ?g = "map (bit (NOT c)) [0..<LENGTH('r)]"
  assume "foldl step c f = foldl step 0 (replicate LENGTH('r) True)"
  then have "foldl step c f = foldl step c ?g" by (simp only: residue)
  then have "foldl step 0 (xor_bits f ?g) = 0"
    using same_end_iff [of f ?g c] assms by simp
  from run_short_zero [OF this] assms have "\<forall>i < LENGTH('r). \<not> xor_bits f ?g ! i"
    by simp
  then show "f = ?g" using assms by (auto intro!: nth_equalityI)
qed (simp only: residue)

text \<open>A burst no longer than the register changes the final state.\<close>

lemma burst_nonzero:
  assumes "True \<in> set w" "length w \<le> LENGTH('r)"
  shows "foldl step 0 (replicate a False @ w @ replicate z False) \<noteq> 0"
proof
  assume eq: "foldl step 0 (replicate a False @ w @ replicate z False) = 0"
  have zeros: "c = 0" if "foldl step c (replicate z False) = 0" for c
    using that
  proof (induction z arbitrary: c)
    case (Suc z)
    then have "step c False = 0" by simp
    with run_short_zero [of c "[False]"]
    have b: "\<not> bit c 0" "\<And>i. 1 \<le> i \<Longrightarrow> \<not> bit c i"
      by (simp_all add: Suc_leI)
    show ?case by (rule bit_word_eqI) (use b in \<open>metis One_nat_def Suc_leI bit_0_eq bot_apply neq0_conv bot_bool_def\<close>)
  qed simp
  have "foldl step 0 w = 0" using eq zeros by (simp add: run_zeros)
  from run_short_zero [OF this assms(2)] assms(1) show False
    by (auto simp: in_set_conv_nth)
qed

lemma burst_changes_end:
  assumes "True \<in> set w" "length w \<le> LENGTH('r)" "length bs = a + length w + z"
  shows "foldl step c (xor_bits bs (replicate a False @ w @ replicate z False)) \<noteq> foldl step c bs"
proof -
  let ?e = "replicate a False @ w @ replicate z False"
  have "xor_bits (xor_bits bs ?e) bs = ?e"
    using assms(3) by (intro nth_equalityI) auto
  then show ?thesis
    using same_end_iff [of "xor_bits bs ?e" bs c] burst_nonzero [OF assms(1,2)] assms(3) by simp
qed

end

interpretation crc16_lsb: crc_register crc_step_dll "0x8408"
  by unfold_locales (simp_all add: crc_step_dll_def)

interpretation crc32_lsb: crc_register crc_step32 "0xEDB88320"
  by unfold_locales (simp_all add: crc_step32_def)

subsection \<open>MSB-first and LSB-first registers are mirror images\<close>

lemma crc_step_mirror: "crc_step_dll (word_reverse c) b = word_reverse (crc_step_msb c b)"
proof -
  have m: "(0x8408 :: 16 word) = word_reverse 0x1021" by code_simp
  have s: "drop_bit 1 (word_reverse c) = word_reverse (push_bit 1 c)"
  proof (rule bit_word_eqI)
    fix n assume n: "n < LENGTH(16)"
    have "bit (push_bit k c) (15 - n) = (k \<le> 15 - n \<and> bit c (15 - n - k))" for k
      using n by (auto simp: bit_push_bit_iff)
    from this [of 1] show "bit (drop_bit 1 (word_reverse c)) n = bit (word_reverse (push_bit 1 c)) n"
      using n by (cases "n = 15") (auto simp: bit_drop_bit_eq bit_word_reverse_iff)
  qed
  have b0: "bit (word_reverse c) 0 = bit c 15"
    by (simp add: bit_word_reverse_iff)
  have x: "word_reverse x XOR word_reverse y = word_reverse (x XOR y)" for x y :: "16 word"
    by (rule bit_word_eqI) (auto simp: bit_simps)
  show ?thesis
    by (simp only: crc_step_dll_def crc_step_msb_def Let_def b0 s m x if_distrib [of word_reverse])
qed

lemma crc_run_mirror:
  "foldl crc_step_dll (word_reverse c) bs = word_reverse (foldl crc_step_msb c bs)"
  by (induction bs arbitrary: c) (simp_all add: crc_step_mirror)

lemma word16_bits_mirror: "word16_bits (c XOR 0xFFFF) = map (bit (NOT (word_reverse c))) [0..<16]"
proof -
  have "bit (c XOR 0xFFFF) (15 - i) = bit (NOT (word_reverse c)) i" if "i < 16" for i
  proof -
    have "bit (c XOR NOT 0) (15 - i) = bit (NOT (word_reverse c)) i"
      using that by (auto simp: bit_simps)
    moreover have "(0xFFFF :: 16 word) = NOT 0" by code_simp
    ultimately show ?thesis by (simp only:)
  qed
  then show ?thesis by (simp add: word16_bits_def)
qed

lemma crc16_residue: "foldl crc_step_dll 0 (replicate 16 True) = 0xF0B8"
  by code_simp

lemma ones_mirror: "(0xFFFF :: 16 word) = word_reverse 0xFFFF"
  by code_simp

lemma crc_dll_end: "foldl crc_step_dll 0xFFFF bs = word_reverse (crc16_reg bs)"
  using crc_run_mirror [of "0xFFFF" bs] ones_mirror by (simp add: crc16_reg_def)

lemma crc16_check_dll_append_iff:
  assumes "length f = 16"
  shows "crc16_check_dll (bs @ f) \<longleftrightarrow> f = word16_bits (crc16_reg bs XOR 0xFFFF)"
  using crc16_lsb.residue_iff [of f "foldl crc_step_dll 0xFFFF bs"] assms
  by (simp add: crc16_check_dll_def crc16_residue word16_bits_mirror crc_dll_end)

lemma crc16_accepted: "crc16_check_dll (crc16 bs)"
  by (simp add: crc16_def crc16_check_dll_append_iff word16_bits_def)

lemma crc16_msb_reg: "crc16_msb bs = crc16_reg bs"
proof -
  have "foldl (\<lambda>crc b. let fb = bit crc 15 \<noteq> b; crc = push_bit 1 crc
          in if fb then crc XOR 0x1021 else crc) c bs = foldl crc_step_msb c bs" for c
    by (induction bs arbitrary: c) (simp_all add: crc_step_msb_def Let_def)
  then show ?thesis by (simp add: crc16_msb_def crc16_reg_def)
qed

lemma append_fcs_eq: "append_fcs bs = crc16 bs"
proof -
  have "map (bit x) (rev [0..<16]) = word16_bits x" for x
    by (rule nth_equalityI) (simp_all add: word16_bits_def rev_nth)
  then show ?thesis by (simp add: append_fcs_def crc16_def crc16_msb_reg Let_def)
qed

lemma length_crc16 [simp]: "length (crc16 bs) = length bs + 16"
  by (simp add: crc16_def word16_bits_def)

lemma take_crc16 [simp]: "take (length bs) (crc16 bs) = bs"
  by (simp add: crc16_def)

lemma crc16_check_dll_sb_eq: "crc16_check_dll_sb bs = crc16_check_dll bs"
proof -
  have "foldl (\<lambda>crc b. let feedback = b \<noteq> bit crc 0; crc = drop_bit 1 crc
          in if feedback then crc XOR 0x8408 else crc) c bs = foldl crc_step_dll c bs" for c
    by (induction bs arbitrary: c) (simp_all add: crc_step_dll_def Let_def)
  then show ?thesis by (simp add: crc16_check_dll_sb_def crc16_check_dll_def)
qed

lemma crc16_check_iff:
  assumes "length bs = 76"
  shows "crc16_check bs iv \<longleftrightarrow>
    drop 60 bs = (if iv then word16_bits (crc16_reg (take 60 bs) XOR 0xFFFF)
                  else word16_bits (crc16_reg (take 60 bs)))"
proof -
  have "map Not (word16_bits c) = word16_bits (c XOR 0xFFFF)" for c
  proof -
    have "(0xFFFF :: 16 word) = NOT 0" by code_simp
    then show ?thesis by (simp only: word16_bits_def map_map) (auto simp: bit_simps)
  qed
  then show ?thesis
    using assms by (simp add: crc16_check_def crc16_bits_def crc16_reg_def Let_def)
qed

subsection \<open>Parity of the 16-bit register\<close>

definition weight16 :: "16 word \<Rightarrow> nat" where
  "weight16 c = (\<Sum>i<16. of_bool (bit c i))"

definition odd16 :: "16 word \<Rightarrow> bool" where
  "odd16 c = odd (weight16 c)"

lemma odd16_xor: "odd16 (c XOR d) = (odd16 c \<noteq> odd16 d)"
proof -
  have "odd (\<Sum>i<n. of_bool (bit (c XOR d) i) :: nat) \<longleftrightarrow>
        odd (\<Sum>i<n. of_bool (bit c i) :: nat) \<noteq> odd (\<Sum>i<n. of_bool (bit d i) :: nat)" for n
    by (induction n) (auto simp: bit_xor_iff of_bool_def)
  then show ?thesis by (simp add: odd16_def weight16_def)
qed

lemma weight16_drop: "weight16 (drop_bit 1 c) + of_bool (bit c 0) = weight16 c"
proof -
  have "(\<Sum>i<Suc 16. of_bool (bit c i) :: nat) = of_bool (bit c 0) + (\<Sum>i<16. of_bool (bit c (Suc i)))"
    by (rule sum.lessThan_Suc_shift)
  moreover have "\<not> bit c 16" using bit_imp_le_length [of c 16] by auto
  moreover have "(\<Sum>i<Suc 16. of_bool (bit c i) :: nat) = (\<Sum>i<16. of_bool (bit c i)) + of_bool (bit c 16)"
    by (rule sum.lessThan_Suc)
  ultimately show ?thesis
    unfolding weight16_def bit_drop_bit_eq comp_def plus_1_eq_Suc
    by (simp only: of_bool_eq add_0_right simp_thms add.commute)
qed

lemma odd16_drop: "odd16 (drop_bit 1 c) = (odd16 c \<noteq> bit c 0)"
proof -
  have "odd (x + of_bool b) = (odd x \<noteq> b)" for x :: nat and b
    by (cases b) simp_all
  from this [of "weight16 (drop_bit 1 c)" "bit c 0"] show ?thesis
    unfolding odd16_def weight16_drop by blast
qed

lemma odd16_step: "odd16 (crc_step_dll c b) = (odd16 c \<noteq> b)"
proof -
  have "odd16 0x8408" by code_simp
  moreover have "odd16 (drop_bit 1 c XOR 0x8408) = (odd16 (drop_bit 1 c) \<noteq> odd16 0x8408)"
    by (rule odd16_xor)
  ultimately show ?thesis
    using odd16_drop [of c] unfolding crc_step_dll_def Let_def by presburger
qed

lemma odd16_run:
  "odd16 (foldl crc_step_dll c bs) = (odd16 c \<noteq> odd (length (filter id bs)))"
  by (induction bs arbitrary: c) (auto simp: odd16_step)

subsection \<open>Properties\<close>

text \<open>C19. The CRC the encoders append and the residue test of the decoder are one code: of all
  16-bit suffixes of a message the decoder accepts exactly the one \<open>crc16\<close> (and its copy
  \<open>append_fcs\<close>) writes, although one side shifts left with 0x1021 and complements and the other
  shifts right with 0x8408 and compares with 0xF0B8.\<close>

theorem crc16_check_accepts_exactly_encoder:
  assumes "length f = 16"
  shows "(crc16_check_dll (bs @ f) \<longleftrightarrow> bs @ f = crc16 bs) \<and>
         (crc16_check_dll_sb (bs @ f) \<longleftrightarrow> bs @ f = append_fcs bs)"
  using crc16_check_dll_append_iff [OF assms]
  by (simp add: crc16_check_dll_sb_eq append_fcs_eq crc16_def)

theorem crc16_check_accepts_exactly_encoder_witness:
  "\<not> crc16_check_dll ([True, False] @ replicate 16 False)"
proof -
  have "length (replicate 16 False) = 16" by simp
  from crc16_check_accepts_exactly_encoder [OF this, of "[True, False]"]
  show ?thesis by code_simp
qed

text \<open>C20. Error detection of the signalling CRC: no accepted block stays accepted when any burst
  of at most 16 bit positions, or any odd number of single bits anywhere, is flipped.\<close>

theorem crc16_check_detects_errors:
  assumes "crc16_check_dll bs" "length e = length bs"
    and "(\<exists>a w z. e = replicate a False @ w @ replicate z False \<and> True \<in> set w \<and> length w \<le> 16)
         \<or> odd (length (filter id e))"
  shows "\<not> crc16_check_dll (xor_bits bs e)"
  using assms(3)
proof
  assume "\<exists>a w z. e = replicate a False @ w @ replicate z False \<and> True \<in> set w \<and> length w \<le> 16"
  then obtain a w z where "e = replicate a False @ w @ replicate z False"
    "True \<in> set w" "length w \<le> 16" by blast
  then show ?thesis
    using crc16_lsb.burst_changes_end [of w bs a z "0xFFFF"] assms(1,2)
    by (simp add: crc16_check_dll_def)
next
  assume odd: "odd (length (filter id e))"
  have "odd (length (filter id (xor_bits bs e))) \<longleftrightarrow>
        odd (length (filter id bs)) \<noteq> odd (length (filter id e))"
    using assms(2) [symmetric] by (induction bs e rule: list_induct2) auto
  then show ?thesis
    using odd assms(1) odd16_run [of "0xFFFF" bs] odd16_run [of "0xFFFF" "xor_bits bs e"]
    by (auto simp: crc16_check_dll_def)
qed

theorem crc16_check_detects_errors_witness:
  "\<not> crc16_check_dll (xor_bits (crc16 [True]) (True # replicate 16 False))"
  by (rule crc16_check_detects_errors) (auto simp: crc16_accepted)

text \<open>The two FCS conventions \<open>decode_sb.py\<close> tries on the 76-bit SB1 block: the inverted one
  is the residue test of \<open>decode_dl.py\<close>, and a block that passes the plain one always fails it.\<close>

theorem crc16_check_modes:
  assumes "length bs = 76"
  shows "(crc16_check bs True \<longleftrightarrow> crc16_check_dll bs) \<and>
         \<not> (crc16_check bs False \<and> crc16_check_dll bs)"
proof -
  have "length (drop 60 bs) = 16" using assms by simp
  from crc16_check_dll_append_iff [OF this, of "take 60 bs"]
  have dll: "crc16_check_dll bs \<longleftrightarrow> drop 60 bs = word16_bits (crc16_reg (take 60 bs) XOR 0xFFFF)"
    by simp
  have "word16_bits (c XOR 0xFFFF) \<noteq> word16_bits c" for c
  proof -
    have "bit (c XOR 0xFFFF) 0 = (bit c 0 \<noteq> bit (0xFFFF :: 16 word) 0)" by (rule bit_xor_iff)
    moreover have "bit (0xFFFF :: 16 word) 0" by code_simp
    moreover have "word16_bits x ! 15 = bit x 0" for x by (simp add: word16_bits_def)
    ultimately show ?thesis by metis
  qed
  then have "word16_bits c \<noteq> word16_bits (c XOR 0xFFFF)" for c by metis
  then show ?thesis using assms by (simp add: dll crc16_check_iff)
qed

theorem crc16_check_modes_witness: "crc16_check (crc16 (replicate 60 False)) True"
  using crc16_check_modes [of "crc16 (replicate 60 False)"] by (simp add: crc16_accepted)

lemma crc32_accepts_iff:
  assumes "length f = 32"
  shows "crc32_check_llc (bs @ f) \<longleftrightarrow> f = map (bit (NOT (foldl crc_step32 0xFFFFFFFF bs))) [0..<32]"
proof -
  have res: "foldl crc_step32 0 (replicate 32 True) = 0xDEBB20E3" by code_simp
  show ?thesis
    using crc32_lsb.residue_iff [of f "foldl crc_step32 0xFFFFFFFF bs"] assms
    by (simp add: crc32_check_llc_def res)
qed

text \<open>The LLC's frame check: of all 32-bit suffixes exactly the complemented register is
  accepted, and a burst of at most 32 positions is always detected.\<close>

theorem crc32_check_llc_sound:
  assumes "length f = 32"
  shows "(crc32_check_llc (bs @ f) \<longleftrightarrow>
           f = map (bit (NOT (foldl crc_step32 0xFFFFFFFF bs))) [0..<32]) \<and>
         (\<forall>a w z. crc32_check_llc (bs @ f) \<and> True \<in> set w \<and> length w \<le> 32 \<and>
            length bs + 32 = a + length w + z \<longrightarrow>
            \<not> crc32_check_llc (xor_bits (bs @ f) (replicate a False @ w @ replicate z False)))"
proof
  show "crc32_check_llc (bs @ f) \<longleftrightarrow>
      f = map (bit (NOT (foldl crc_step32 0xFFFFFFFF bs))) [0..<32]"
    by (rule crc32_accepts_iff [OF assms])
  show "\<forall>a w z. crc32_check_llc (bs @ f) \<and> True \<in> set w \<and> length w \<le> 32 \<and>
            length bs + 32 = a + length w + z \<longrightarrow>
            \<not> crc32_check_llc (xor_bits (bs @ f) (replicate a False @ w @ replicate z False))"
    using crc32_lsb.burst_changes_end [of _ "bs @ f" _ _ "0xFFFFFFFF"] assms
    by (auto simp: crc32_check_llc_def)
qed

theorem crc32_check_llc_sound_witness:
  "\<not> crc32_check_llc ([True] @ replicate 32 False)"
proof -
  have "length (replicate 32 False) = 32" by simp
  from crc32_check_llc_sound [OF this, of "[True]"]
  have "crc32_check_llc ([True] @ replicate 32 False) \<longleftrightarrow>
    replicate 32 False = map (bit (NOT (foldl crc_step32 0xFFFFFFFF [True]))) [0..<32]" by blast
  then show ?thesis by code_simp
qed

text \<open>Two generators do not produce the air interface's CRC: \<open>tetra_crc16\<close> of the D-NWRK-BROADCAST
  generator (which tests bit 16 after xoring the data bit into bit 15) and the augmented-message
  \<open>crc16_ccitt\<close> of the vector generator both differ from \<open>crc16\<close> on a two-bit message, so a
  decoder's residue test rejects what they append.\<close>

theorem generator_crcs_differ:
  "\<not> crc16_check_dll ([True, False] @ tetra_crc16 [True, False]) \<and>
   \<not> crc16_check_dll ([True, False] @ word16_bits (crc16_ccitt 0xFFFF [True, False] XOR 0xFFFF))"
  by (rule conjI; code_simp)

lemma crc16_ccitt_bytes:
  "crc16_ccitt c (bytes_to_bits (b # bs)) = crc16_ccitt (crc16_ccitt c (bytes_to_bits [b])) (bytes_to_bits bs)"
  by (simp add: crc16_ccitt_def bytes_to_bits_def)

lemma crc16_ccitt_tc1_bytes:
  "crc16_ccitt 0xFFFF (bytes_to_bits [0x31]) = 0xE1C1"
  "crc16_ccitt 0xE1C1 (bytes_to_bits [0x32]) = 0x2C3D"
  "crc16_ccitt 0x2C3D (bytes_to_bits [0x33]) = 0xD8DD"
  "crc16_ccitt 0xD8DD (bytes_to_bits [0x34]) = 0x9741"
  "crc16_ccitt 0x9741 (bytes_to_bits [0x35]) = 0xB26B"
  "crc16_ccitt 0xB26B (bytes_to_bits [0x36]) = 0xECAF"
  "crc16_ccitt 0xECAF (bytes_to_bits [0x37]) = 0x9395"
  "crc16_ccitt 0x9395 (bytes_to_bits [0x38]) = 0x26E2"
  "crc16_ccitt 0x26E2 (bytes_to_bits [0x39]) = 0xA69D"
  by (code_simp, code_simp, code_simp, code_simp, code_simp, code_simp, code_simp, code_simp, code_simp)

lemma crc_step_msb_bytes:
  "foldl crc_step_msb c (bytes_to_bits (b # bs)) =
   foldl crc_step_msb (foldl crc_step_msb c (bytes_to_bits [b])) (bytes_to_bits bs)"
  by (simp add: bytes_to_bits_def)

lemma crc_step_msb_tc1_bytes:
  "foldl crc_step_msb 0xFFFF (bytes_to_bits [0x31]) = 0xC782"
  "foldl crc_step_msb 0xC782 (bytes_to_bits [0x32]) = 0x3DBA"
  "foldl crc_step_msb 0x3DBA (bytes_to_bits [0x33]) = 0x5BCE"
  "foldl crc_step_msb 0x5BCE (bytes_to_bits [0x34]) = 0x5349"
  "foldl crc_step_msb 0x5349 (bytes_to_bits [0x35]) = 0x4560"
  "foldl crc_step_msb 0x4560 (bytes_to_bits [0x36]) = 0x2EF4"
  "foldl crc_step_msb 0x2EF4 (bytes_to_bits [0x37]) = 0x7718"
  "foldl crc_step_msb 0x7718 (bytes_to_bits [0x38]) = 0xA12B"
  "foldl crc_step_msb 0xA12B (bytes_to_bits [0x39]) = 0x29B1"
  by (code_simp, code_simp, code_simp, code_simp, code_simp, code_simp, code_simp, code_simp, code_simp)

text \<open>The self-check of the vector generator cannot pass: for its canonical input
  \<open>"123456789"\<close> the register ends in 0xA69D, while \<open>assert crc1 == 0x29B1\<close> asks for the
  check value of the other (non-augmented) form; that value is what the register of \<open>crc16\<close> gives.\<close>

theorem crc16_ccitt_tc1_fails:
  "crc16_ccitt 0xFFFF (bytes_to_bits [0x31, 0x32, 0x33, 0x34, 0x35, 0x36, 0x37, 0x38, 0x39]) = 0xA69D \<and>
   crc16_reg (bytes_to_bits [0x31, 0x32, 0x33, 0x34, 0x35, 0x36, 0x37, 0x38, 0x39]) = 0x29B1"
  unfolding crc16_reg_def
  by (simp only: crc16_ccitt_bytes [of _ _ "_ # _"] crc16_ccitt_tc1_bytes
      crc_step_msb_bytes [of _ _ "_ # _"] crc_step_msb_tc1_bytes)

end
