(* ===== verification/Interleaver.thy ===== *)
theory Interleaver
  imports Prelude
begin

text \<open>
  The block interleavers.

  \<^item> encoders: \<open>interleave_bsch\<close> (\<open>scripts/verify_sb1_encoder.py\<close>), \<open>interleave_sch_f\<close>,
    \<open>interleave_sch_hd\<close>, \<open>interleave_a13\<close> (the \<open>scripts/gen_sch_*_tv.py\<close> generators);
  \<^item> decoders: \<open>deinterleave_perm\<close> (\<open>scripts/decode_dl.py\<close>, and a copy on strings in
    \<open>scripts/parse_reference_decode.py\<close>), \<open>etsi_deinterleave_bsch\<close>, \<open>etsi_deinterleave_bnch\<close>,
    \<open>deinterleave\<close> of \<open>scripts/verify_sch_hu_decode.py\<close> and of \<open>scripts/decode_sb.py\<close>;
  \<^item> the traffic channel's pair in \<open>scripts/decode_tch_s.py\<close>;
  \<^item> the permutations of \<open>tb/vectors/gen_interleaver_vectors.py\<close> and
    \<open>scripts/gen_d_nwrk_broadcast.py\<close>.

  The locale \<open>block_interleaver\<close> is what the channel codec relies on: a pair of functions and the
  position map that relates them.
\<close>

subsection \<open>Reading and writing by index\<close>

definition gather :: "'a list \<Rightarrow> nat list \<Rightarrow> 'a list res" where
  "gather xs ks =
     (if \<forall>k\<in>set ks. k < length xs then Inr (map ((!) xs) ks) else Inl IndexError)"

subsection \<open>The multiplicative interleavers\<close>

definition deinterleave_perm :: "'a list \<Rightarrow> nat \<Rightarrow> nat \<Rightarrow> 'a list res" where
  "deinterleave_perm bits K a =
     gather bits (map (\<lambda>i. let k = 1 + (a * i) mod K in k - 1) [1..<Suc K])"

definition deinterleave_perm_ref :: "'a list \<Rightarrow> nat \<Rightarrow> nat \<Rightarrow> 'a list res" where
  "deinterleave_perm_ref bitstr K a =
     gather bitstr (map (\<lambda>i. let k = 1 + (a * i) mod K in k - 1) [1..<Suc K])"

definition etsi_deinterleave_bsch :: "'a list \<Rightarrow> 'a list res" where
  "etsi_deinterleave_bsch bits =
     (let K = 120; a = 11
      in gather bits (map (\<lambda>i. let k = 1 + (a * i) mod K in k - 1) [1..<Suc K]))"

definition etsi_deinterleave_bnch :: "'a list \<Rightarrow> 'a list res" where
  "etsi_deinterleave_bnch bits =
     (let K = 216; a = 101
      in gather bits (map (\<lambda>i. let k = 1 + (a * i) mod K in k - 1) [1..<Suc K]))"

definition deinterleave_hu :: "'a list \<Rightarrow> 'a list res" where
  "deinterleave_hu buf = gather buf (map (\<lambda>i. (13 * i) mod 168) [1..<Suc 168])"

text \<open>The loop of every encoder: \<open>out[j - 1] = bits[k - 1]\<close> for \<open>k = 1..N\<close>; reading past the end
  of a short input raises.\<close>

definition scatter_loop :: "nat \<Rightarrow> nat \<Rightarrow> bits \<Rightarrow> bits" where
  "scatter_loop N a bits =
     fold (\<lambda>k out. let j = 1 + (a * k) mod N in out[j - 1 := bits ! (k - 1)]) [1..<Suc N]
       (replicate N False)"

definition interleave_bsch :: "bits \<Rightarrow> bits res" where
  "interleave_bsch bits =
     (if length bits < 120 then Inl IndexError else Inr (scatter_loop 120 11 bits))"

definition interleave_sch_hd :: "bits \<Rightarrow> bits res" where
  "interleave_sch_hd bits =
     (if length bits < 216 then Inl IndexError else Inr (scatter_loop 216 101 bits))"

definition interleave_sch_f :: "bits \<Rightarrow> bits res" where
  "interleave_sch_f bits =
     (if length bits < 432 then Inl IndexError else Inr (scatter_loop 432 103 bits))"

definition interleave_a13 :: "bits \<Rightarrow> bits res" where
  "interleave_a13 bits =
     (if length bits < 168 then Inl IndexError
      else Inr (fold (\<lambda>i out. out[(13 * i) mod 168 := bits ! (i - 1)]) [1..<Suc 168]
                 (replicate 168 False)))"

subsection \<open>The traffic channel\<close>

definition deinterleave_block :: "'a list \<Rightarrow> nat \<Rightarrow> nat \<Rightarrow> 'a list res" where
  "deinterleave_block coded_bits K a = gather coded_bits (map (\<lambda>k. (1 + a * k) mod K) [0..<K])"

definition interleave_block :: "bits \<Rightarrow> nat \<Rightarrow> nat \<Rightarrow> bits res" where
  "interleave_block input_bits K a =
     (if length input_bits < K then Inl IndexError
      else Inr (fold (\<lambda>k out. out[(1 + a * k) mod K := input_bits ! k]) [0..<K] (replicate K False)))"

subsection \<open>The vector generators' permutations\<close>

fun step_permute_loop :: "nat \<Rightarrow> nat \<Rightarrow> 'a list \<Rightarrow> nat \<Rightarrow> nat \<Rightarrow> 'a list" where
  "step_permute_loop 0 addr buf K step = []"
| "step_permute_loop (Suc j) addr buf K step =
     buf ! addr # step_permute_loop j ((addr + step) mod K) buf K step"

definition step_permute :: "'a list \<Rightarrow> nat \<Rightarrow> nat \<Rightarrow> 'a list" where
  "step_permute data K step = step_permute_loop K 0 data K step"

definition interleave_tv :: "'a list \<Rightarrow> nat \<Rightarrow> 'a list" where
  "interleave_tv data K = step_permute data K 11"

definition deinterleave_tv :: "'a list \<Rightarrow> nat \<Rightarrow> 'a list" where
  "deinterleave_tv data K =
     (let step_rx = (if K = 432 then 275 else 59) in step_permute data K step_rx)"

definition verify_roundtrip :: "'a list \<Rightarrow> nat \<Rightarrow> bool" where
  "verify_roundtrip data K =
     (let interleaved = interleave_tv data K; deinterleaved = deinterleave_tv interleaved K
      in deinterleaved = data)"

definition interleave_dnwrk :: "'a list \<Rightarrow> nat \<Rightarrow> 'a list" where
  "interleave_dnwrk bits_in a =
     (let k = length bits_in in map (\<lambda>i. bits_in ! ((a * i) mod k)) [0..<k])"

definition deinterleave_sb :: "'a list \<Rightarrow> nat \<Rightarrow> 'a list res" where
  "deinterleave_sb bits n =
     (let rc = (if n = 120 then Some (8, 15) else if n = 240 then Some (16, 15)
                else if n = 216 then Some (24, 9) else if n = 162 then Some (18, 9)
                else if n = 28 then Some (4, 7) else None)
      in case rc of None \<Rightarrow> Inr bits
         | Some (R, C) \<Rightarrow> gather bits (map (\<lambda>k. (k mod R) * C + k div R) [0..<n]))"

subsection \<open>Multiplication by a unit modulo the block length\<close>

lemma mult_mod_inj_le:
  assumes "coprime a N" "i \<le> j" "j - i < N" "(c + a * i) mod N = (c + a * j) mod N"
  shows "i = (j::nat)"
proof -
  have "c + a * i \<le> c + a * j" using assms(2) by simp
  then have "N dvd (c + a * j) - (c + a * i)"
    using assms(4) by (metis mod_eq_dvd_iff_nat)
  then have "N dvd a * (j - i)" by (simp add: right_diff_distrib')
  then have "N dvd j - i"
    using assms(1) by (metis coprime_commute coprime_dvd_mult_right_iff)
  then show ?thesis using assms(2,3) by (metis diff_is_0_eq dvd_imp_le le_antisym not_le neq0_conv)
qed

lemma mult_mod_inj:
  assumes "coprime a N" "i < m + N" "j < m + N" "m \<le> i" "m \<le> j" "(c + a * i) mod N = (c + a * j) mod N"
  shows "i = (j::nat)"
proof (cases "i \<le> j")
  case True
  moreover have "j - i < N" using assms(3,4) True by linarith
  ultimately show ?thesis using mult_mod_inj_le [OF assms(1)] assms(6) by blast
next
  case False
  then have "j \<le> i" "i - j < N" using assms(2,5) by linarith+
  from mult_mod_inj_le [OF assms(1) this assms(6) [symmetric]] show ?thesis by (rule sym)
qed

text \<open>Position \<open>(a * (i + 1)) mod N\<close> of the 0-based index \<open>i\<close>.\<close>

definition mult_pos :: "nat \<Rightarrow> nat \<Rightarrow> nat \<Rightarrow> nat" where
  "mult_pos N a i = (a * Suc i) mod N"

lemma mult_pos_less: "0 < N \<Longrightarrow> mult_pos N a i < N"
  by (simp add: mult_pos_def)

lemma mult_pos_inj: "coprime a N \<Longrightarrow> inj_on (mult_pos N a) {..<N}"
proof (rule inj_onI)
  fix i j assume c: "coprime a N" and ij: "i \<in> {..<N}" "j \<in> {..<N}" and eq: "mult_pos N a i = mult_pos N a j"
  have "Suc i = Suc j"
    by (rule mult_mod_inj [OF c, of _ 1 _ 0]) (use ij eq in \<open>simp_all add: mult_pos_def\<close>)
  then show "i = j" by simp
qed

lemma gather_map:
  "(\<And>i. i < n \<Longrightarrow> f i < length xs) \<Longrightarrow> gather xs (map f [0..<n]) = Inr (map (\<lambda>i. xs ! f i) [0..<n])"
  by (auto simp: gather_def)

lemma scatter_loop_nth:
  assumes "coprime a N" "i < N"
  shows "scatter_loop N a xs ! mult_pos N a i = xs ! i"
proof -
  have "scatter_loop N a xs =
      fold (\<lambda>k out. out[mult_pos N a k := xs ! k]) [0..<N] (replicate N False)"
    unfolding scatter_loop_def upt_Suc_map fold_map_fun mult_pos_def by (simp add: Let_def)
  moreover have "fold (\<lambda>k out. out[mult_pos N a k := xs ! k]) [0..<N] (replicate N False) ! mult_pos N a i
      = xs ! i"
    by (rule fold_update_nth)
      (use assms mult_pos_inj [OF assms(1)] in \<open>auto simp: lessThan_atLeast0 mult_pos_less\<close>)
  ultimately show ?thesis by simp
qed

lemma length_scatter_loop [simp]: "length (scatter_loop N a xs) = N"
  unfolding scatter_loop_def Let_def by (simp add: fold_update_length)

subsection \<open>The interface of a block interleaver\<close>

locale block_interleaver =
  fixes N :: nat and ilv dil :: "bits \<Rightarrow> bits res" and pos :: "nat \<Rightarrow> nat"
  assumes pos_less: "i < N \<Longrightarrow> pos i < N"
    and pos_inj: "inj_on pos {..<N}"
    and ilv_total: "length xs = N \<Longrightarrow> \<exists>ys. ilv xs = Inr ys \<and> length ys = N \<and> (\<forall>i<N. ys ! pos i = xs ! i)"
    and dil_eq: "length ys = N \<Longrightarrow> dil ys = Inr (map (\<lambda>i. ys ! pos i) [0..<N])"
begin

lemma pos_surj: "pos ` {..<N} = {..<N}"
  by (rule card_subset_eq) (use pos_less card_image [OF pos_inj] in auto)

text \<open>Deinterleaving undoes interleaving and the other way round.\<close>

lemma dil_ilv:
  assumes "length xs = N"
  obtains ys where "ilv xs = Inr ys" "length ys = N" "dil ys = Inr xs"
proof -
  from ilv_total [OF assms] obtain ys where
    ys: "ilv xs = Inr ys" "length ys = N" "\<forall>i<N. ys ! pos i = xs ! i" by blast
  then have "map (\<lambda>i. ys ! pos i) [0..<N] = xs"
    using assms by (intro nth_equalityI) auto
  with ys show thesis by (intro that) (auto simp: dil_eq)
qed

lemma roundtrip: "length xs = N \<Longrightarrow> bind_res (ilv xs) dil = Inr xs"
  by (erule dil_ilv) simp

lemma ilv_dil:
  assumes "length ys = N"
  shows "bind_res (dil ys) ilv = Inr ys"
proof -
  let ?xs = "map (\<lambda>i. ys ! pos i) [0..<N]"
  have "length ?xs = N" by simp
  then obtain zs where zs: "ilv ?xs = Inr zs" "length zs = N" "\<forall>i<N. zs ! pos i = ?xs ! i"
    using ilv_total by blast
  have "zs = ys"
  proof (rule nth_equalityI)
    fix j assume "j < length zs"
    then have "j \<in> pos ` {..<N}" using zs(2) pos_surj by simp
    then show "zs ! j = ys ! j" using zs(3) by auto
  qed (use zs assms in simp)
  then show ?thesis using zs(1) dil_eq [OF assms] by simp
qed

lemma length_dil: "length ys = N \<Longrightarrow> dil ys = Inr xs \<Longrightarrow> length xs = N"
  by (auto simp: dil_eq)

lemma dil_xor:
  assumes "length ys = N" "length es = N" "dil ys = Inr xs" "dil es = Inr fs"
  shows "dil (xor_bits ys es) = Inr (xor_bits xs fs)"
proof -
  have "map (\<lambda>i. xor_bits ys es ! pos i) [0..<N] = xor_bits xs fs"
    using assms by (intro nth_equalityI) (auto simp: dil_eq pos_less)
  then show ?thesis using assms by (simp add: dil_eq)
qed

text \<open>Deinterleaving permutes positions, so it keeps the number of errors.\<close>

lemma dil_hamming:
  assumes "length ys = N" "length zs = N" "dil ys = Inr xs" "dil zs = Inr ws"
  shows "hamming xs ws = hamming ys zs"
proof -
  have "card {i. i < N \<and> xs ! i \<noteq> ws ! i} = card (pos ` {i. i < N \<and> xs ! i \<noteq> ws ! i})"
    by (rule card_image [symmetric]) (rule inj_on_subset [OF pos_inj], auto)
  also have "pos ` {i. i < N \<and> xs ! i \<noteq> ws ! i} = {j. j < N \<and> ys ! j \<noteq> zs ! j}"
  proof (intro equalityI subsetI)
    fix j assume "j \<in> {j. j < N \<and> ys ! j \<noteq> zs ! j}"
    moreover from this have "j \<in> pos ` {..<N}" using pos_surj by simp
    ultimately show "j \<in> pos ` {i. i < N \<and> xs ! i \<noteq> ws ! i}" using assms by (auto simp: dil_eq)
  qed (use assms pos_less in \<open>auto simp: dil_eq\<close>)
  finally show ?thesis
    using assms length_dil [OF assms(1,3)] length_dil [OF assms(2,4)] by (simp only: hamming_card)
qed

end

subsection \<open>The code's pairs\<close>

lemma deinterleave_perm_eq:
  "length xs = N \<Longrightarrow> deinterleave_perm xs N a = Inr (map (\<lambda>i. xs ! mult_pos N a i) [0..<N])"
  using gather_map [of N "mult_pos N a" xs]
  unfolding deinterleave_perm_def upt_Suc_map map_map
  by (cases "N = 0") (simp_all add: mult_pos_less, simp_all add: mult_pos_def [abs_def] comp_def)

lemma deinterleave_copies:
  "deinterleave_perm_ref xs K a = deinterleave_perm xs K a"
  "etsi_deinterleave_bsch xs = deinterleave_perm xs 120 11"
  "etsi_deinterleave_bnch xs = deinterleave_perm xs 216 101"
  "deinterleave_hu xs = deinterleave_perm xs 168 13"
  by (simp_all only: deinterleave_perm_ref_def etsi_deinterleave_bsch_def
      etsi_deinterleave_bnch_def deinterleave_hu_def deinterleave_perm_def Let_def add_diff_cancel_left')

lemma deinterleave_short:
  assumes "coprime a K" "length xs < K"
  shows "deinterleave_perm xs K a = Inl IndexError"
proof -
  have "mult_pos K a ` {..<K} = {..<K}"
    by (rule card_subset_eq)
      (use assms mult_pos_less card_image [OF mult_pos_inj [OF assms(1)]] in auto)
  with assms(2) obtain i where i: "i < K" "mult_pos K a i = length xs"
    by (metis imageE lessThan_iff)
  have "deinterleave_perm xs K a = gather xs (map (mult_pos K a) [0..<K])"
    unfolding deinterleave_perm_def upt_Suc_map map_map by (simp add: mult_pos_def [abs_def] comp_def)
  moreover have "mult_pos K a i \<in> set (map (mult_pos K a) [0..<K])" using i(1) by simp
  ultimately show ?thesis using i(2) unfolding gather_def by (metis less_irrefl)
qed

lemma mult_interleaver:
  assumes "coprime a N" "0 < N"
    and "\<And>xs. length xs = N \<Longrightarrow> ilv xs = Inr (scatter_loop N a xs)"
  shows "block_interleaver N ilv (\<lambda>bs. deinterleave_perm bs N a) (mult_pos N a)"
  by unfold_locales
    (use assms in \<open>auto simp: mult_pos_less mult_pos_inj deinterleave_perm_eq scatter_loop_nth\<close>)

lemma interleave_a13_eq: "length xs = 168 \<Longrightarrow> interleave_a13 xs = Inr (scatter_loop 168 13 xs)"
  by (simp only: interleave_a13_def scatter_loop_def Let_def add_diff_cancel_left' nat_less_le simp_thms if_False)

interpretation bsch_ilv:
  block_interleaver 120 interleave_bsch "\<lambda>bs. deinterleave_perm bs 120 11" "mult_pos 120 11"
  by (rule mult_interleaver) (code_simp, simp_all add: interleave_bsch_def)

interpretation hd_ilv:
  block_interleaver 216 interleave_sch_hd "\<lambda>bs. deinterleave_perm bs 216 101" "mult_pos 216 101"
  by (rule mult_interleaver) (code_simp, simp_all add: interleave_sch_hd_def)

interpretation f_ilv:
  block_interleaver 432 interleave_sch_f "\<lambda>bs. deinterleave_perm bs 432 103" "mult_pos 432 103"
  by (rule mult_interleaver) (code_simp, simp_all add: interleave_sch_f_def)

interpretation hu_ilv:
  block_interleaver 168 interleave_a13 "\<lambda>bs. deinterleave_perm bs 168 13" "mult_pos 168 13"
  by (rule mult_interleaver) (code_simp, simp_all add: interleave_a13_eq)

definition tch_pos :: "nat \<Rightarrow> nat" where
  "tch_pos k = (1 + 103 * k) mod 432"

lemma tch_pos_inj: "inj_on tch_pos {..<432}"
proof (rule inj_onI)
  fix i j assume ij: "i \<in> {..<432::nat}" "j \<in> {..<432}" and eq: "tch_pos i = tch_pos j"
  have c: "coprime (103::nat) 432" by code_simp
  show "i = j"
    by (rule mult_mod_inj [OF c, of _ 0 _ 1]) (use ij eq in \<open>simp_all add: tch_pos_def\<close>)
qed

interpretation tch_ilv:
  block_interleaver 432 "\<lambda>bs. interleave_block bs 432 103" "\<lambda>bs. deinterleave_block bs 432 103" tch_pos
proof
  show "tch_pos i < 432" for i by (simp add: tch_pos_def)
  show "inj_on tch_pos {..<432}" by (rule tch_pos_inj)
  show "\<exists>ys. interleave_block xs 432 103 = Inr ys \<and> length ys = 432 \<and> (\<forall>i<432. ys ! tch_pos i = xs ! i)"
    if "length xs = 432" for xs
  proof -
    let ?ys = "fold (\<lambda>k out. out[tch_pos k := xs ! k]) [0..<432] (replicate 432 False)"
    have "?ys ! tch_pos i = xs ! i" if "i < 432" for i
      by (rule fold_update_nth)
        (use tch_pos_inj that in \<open>simp_all add: lessThan_atLeast0\<close>, simp add: tch_pos_def)
    moreover have "interleave_block xs 432 103 = Inr ?ys"
      using that by (simp only: interleave_block_def tch_pos_def nat_less_le simp_thms if_False)
    moreover have "length ?ys = 432" by (simp only: fold_update_length length_replicate)
    ultimately show ?thesis by blast
  qed
  show "deinterleave_block ys 432 103 = Inr (map (\<lambda>i. ys ! tch_pos i) [0..<432])"
    if "length ys = 432" for ys
    unfolding deinterleave_block_def tch_pos_def
    by (rule gather_map) (use that in simp)
qed

subsection \<open>Step permutation\<close>

lemma step_permute_loop_eq:
  assumes "0 < K"
  shows "step_permute_loop n ((step * j) mod K) buf K step =
         map (\<lambda>i. buf ! ((step * i) mod K)) [j..<j + n]"
proof (induction n arbitrary: j)
  case (Suc n)
  have "((step * j) mod K + step) mod K = (step * Suc j) mod K"
    by (metis mod_add_left_eq mult_Suc_right add.commute)
  moreover have "[j..<j + Suc n] = j # [Suc j..<Suc j + n]" by (simp add: upt_conv_Cons)
  ultimately show ?case using Suc.IH [of "Suc j"] by simp
qed simp

lemma step_permute_eq:
  "0 < K \<Longrightarrow> step_permute data K step = map (\<lambda>i. data ! ((step * i) mod K)) [0..<K]"
  using step_permute_loop_eq [of K K step 0 data] by (simp add: step_permute_def)

lemma step_permute_inverse:
  assumes "length data = K" "0 < K" "(s * t) mod K = 1"
  shows "step_permute (step_permute data K s) K t = data"
proof -
  have "(s * ((t * i) mod K)) mod K = i" if "i < K" for i
  proof -
    have "(s * ((t * i) mod K)) mod K = ((s * t) mod K * i) mod K"
      by (simp add: mod_simps mult.assoc)
    then show ?thesis using that assms(3) by simp
  qed
  then show ?thesis using assms(1,2) by (intro nth_equalityI) (auto simp: step_permute_eq)
qed

subsection \<open>Properties\<close>

text \<open>Interleaver round trip on every channel: what the encoders' scatter loops write, the
  decoders' gather loop reads back (BSCH, SCH/HD, SCH/F, SCH/HU, and the traffic channel's pair).\<close>

theorem interleaver_roundtrip:
  "(length b = 120 \<longrightarrow> bind_res (interleave_bsch b) (\<lambda>y. deinterleave_perm y 120 11) = Inr b) \<and>
   (length b = 216 \<longrightarrow> bind_res (interleave_sch_hd b) (\<lambda>y. deinterleave_perm y 216 101) = Inr b) \<and>
   (length b = 432 \<longrightarrow> bind_res (interleave_sch_f b) (\<lambda>y. deinterleave_perm y 432 103) = Inr b) \<and>
   (length b = 168 \<longrightarrow> bind_res (interleave_a13 b) (\<lambda>y. deinterleave_perm y 168 13) = Inr b) \<and>
   (length b = 432 \<longrightarrow> bind_res (interleave_block b 432 103) (\<lambda>y. deinterleave_block y 432 103) = Inr b)"
  by (intro conjI impI)
    (rule bsch_ilv.roundtrip hd_ilv.roundtrip f_ilv.roundtrip hu_ilv.roundtrip tch_ilv.roundtrip, assumption)+

theorem interleaver_roundtrip_witness:
  "bind_res (interleave_bsch (replicate 120 True)) (\<lambda>y. deinterleave_perm y 120 11)
   = Inr (replicate 120 True)"
  using interleaver_roundtrip [of "replicate 120 True"] by simp

text \<open>The deinterleavers of the scripts are one function, and an input shorter than the block
  is an IndexError, never a wrong permutation.\<close>

theorem deinterleaver_copies_agree:
  "deinterleave_perm_ref xs K a = deinterleave_perm xs K a \<and>
   etsi_deinterleave_bsch xs = deinterleave_perm xs 120 11 \<and>
   etsi_deinterleave_bnch xs = deinterleave_perm xs 216 101 \<and>
   deinterleave_hu xs = deinterleave_perm xs 168 13 \<and>
   (coprime a K \<and> length xs < K \<longrightarrow> deinterleave_perm xs K a = Inl IndexError)"
  using deinterleave_short [of a K xs] by (simp add: deinterleave_copies)

theorem deinterleaver_copies_agree_witness:
  "deinterleave_perm [True] 5 3 = Inl IndexError"
proof -
  have "coprime (3::nat) 5 \<and> length [True] < 5" by code_simp
  then show ?thesis using deinterleaver_copies_agree [of "[True]" 5 3] by blast
qed

text \<open>The self-check of the interleaver vectors holds for every data block of its two sizes:
  the receive steps 59 and 275 are inverses of 11.\<close>

theorem verify_roundtrip_holds:
  assumes "length data = K" "K = 216 \<or> K = 432"
  shows "verify_roundtrip data K"
  using assms step_permute_inverse [of data K 11 59] step_permute_inverse [of data K 11 275]
  by (auto simp: verify_roundtrip_def interleave_tv_def deinterleave_tv_def Let_def)

theorem verify_roundtrip_holds_witness: "verify_roundtrip [0..<216] 216"
  by (rule verify_roundtrip_holds) simp_all

text \<open>Three permutations in the repository are not the air interface's: the step permutation of
  the vectors, the one of the D-NWRK-BROADCAST generator and the row/column deinterleaver of the
  loopback path, which the multiplicative deinterleaver does not undo or equal.\<close>

theorem other_interleavers_differ:
  "deinterleave_perm (interleave_tv [0..<216] 216) 216 101 \<noteq> Inr [0..<216] \<and>
   deinterleave_perm (interleave_dnwrk [0..<216] 11) 216 101 \<noteq> Inr [0..<216] \<and>
   deinterleave_sb [0..<120] 120 \<noteq> etsi_deinterleave_bsch [0..<120]"
proof -
  have a: "map (\<lambda>i. f (mult_pos 216 101 i)) [0..<216] \<noteq> [0..<216]" if "f 101 \<noteq> 0" for f :: "nat \<Rightarrow> nat"
  proof
    assume "map (\<lambda>i. f (mult_pos 216 101 i)) [0..<216] = [0..<216]"
    then have "map (\<lambda>i. f (mult_pos 216 101 i)) [0..<216] ! 0 = [0..<216] ! 0" by simp
    with that show False by (simp add: mult_pos_def)
  qed
  have "deinterleave_perm (interleave_tv [0..<216] 216) 216 101 =
      Inr (map (\<lambda>i. (\<lambda>j. (11 * j) mod 216) (mult_pos 216 101 i)) [0..<216])"
    by (auto simp: deinterleave_perm_eq interleave_tv_def step_permute_eq mult_pos_less)
  moreover have "deinterleave_perm (interleave_dnwrk [0..<216] 11) 216 101 =
      Inr (map (\<lambda>i. (\<lambda>j. (11 * j) mod 216) (mult_pos 216 101 i)) [0..<216])"
    by (auto simp: deinterleave_perm_eq interleave_dnwrk_def Let_def mult_pos_less)
  moreover have "deinterleave_sb [0..<120] 120 \<noteq> etsi_deinterleave_bsch [0..<120]"
    by code_simp
  ultimately show ?thesis using a [of "\<lambda>j. (11 * j) mod 216"] by simp
qed

end
