(* ===== verification/ConvCode.thy ===== *)
theory ConvCode
  imports Prelude
begin

unbundle bit_operations_syntax

text \<open>
  The convolutional mother code, its puncturing and its depuncturing.

  \<^item> \<open>parity5\<close>, \<open>conv_encode_r14\<close>, \<open>puncture_r23\<close> and the inline puncturer of \<open>rtl_encode_bsch\<close>
    (\<open>scripts/verify_sb1_encoder.py\<close>);
  \<^item> \<open>conv_encode_r14\<close>, \<open>puncture_r23\<close> of \<open>scripts/gen_sch_hu_tv.py\<close>;
  \<^item> \<open>_parity5\<close>, \<open>depuncture_r23\<close> of \<open>scripts/decode_dl.py\<close> and the copies in
    \<open>scripts/decode_sb.py\<close> and \<open>scripts/decode_bnch.py\<close>;
  \<^item> the rate-1/2 encoder \<open>conv_encode_k5\<close> of \<open>scripts/gen_d_nwrk_broadcast.py\<close>.

  Erasures (the value 2 in the scripts' arrays) are \<open>None\<close>.  The lemmas relate all of them to one
  recursive description of the punctured code, \<open>code_path\<close>, which the decoder's theory uses.
\<close>

subsection \<open>Parities\<close>

definition parity5 :: "nat \<Rightarrow> nat" where
  "parity5 x =
     (let x = x XOR drop_bit 4 x; x = x XOR drop_bit 2 x; x = x XOR drop_bit 1 x in x AND 1)"

definition parity5_masked :: "nat \<Rightarrow> nat" where
  "parity5_masked x =
     (let v = x AND 0x1F; v = v XOR drop_bit 4 v; v = v XOR drop_bit 2 v; v = v XOR drop_bit 1 v
      in v AND 1)"

definition parity_sb :: "nat \<Rightarrow> nat \<Rightarrow> nat" where
  "parity_sb x msk =
     (let v = x AND msk; v = v XOR drop_bit 4 v; v = v XOR drop_bit 2 v; v = v XOR drop_bit 1 v
      in v AND 1)"

subsection \<open>Encoders\<close>

text \<open>The five-bit register after shifting in a bit, \<open>((sr << 1) | b) & 0x1F\<close>.\<close>

definition shift_in :: "nat \<Rightarrow> bool \<Rightarrow> nat" where
  "shift_in sr b = (push_bit 1 sr OR of_bool b) AND 0x1F"

fun conv_encode_loop :: "nat \<Rightarrow> bits \<Rightarrow> bits" where
  "conv_encode_loop sr [] = []"
| "conv_encode_loop sr (b # bs) =
     (let sr = shift_in sr b
      in [parity5 (sr AND 0x13) = 1, parity5 (sr AND 0x1D) = 1,
          parity5 (sr AND 0x17) = 1, parity5 (sr AND 0x1B) = 1] @ conv_encode_loop sr bs)"

definition conv_encode_r14 :: "bits \<Rightarrow> bits" where
  "conv_encode_r14 bits = conv_encode_loop 0 bits"

definition etsi_gens :: "nat list" where
  "etsi_gens = [0x13, 0x1D, 0x17, 0x1B]"

fun conv_encode_hu_loop :: "nat \<Rightarrow> bits \<Rightarrow> bits" where
  "conv_encode_hu_loop state [] = []"
| "conv_encode_hu_loop state (b # bs) =
     (let sr = shift_in state b
      in map (\<lambda>G. parity5_masked (sr AND G) = 1) etsi_gens @ conv_encode_hu_loop (sr AND 0xF) bs)"

definition conv_encode_r14_hu :: "bits \<Rightarrow> bits" where
  "conv_encode_r14_hu bits = conv_encode_hu_loop 0 bits"

fun conv_k5_loop :: "bits \<Rightarrow> bits \<Rightarrow> bits" where
  "conv_k5_loop sr [] = []"
| "conv_k5_loop sr (b # bs) =
     (let g1 = (b \<noteq> sr ! 0) \<noteq> (sr ! 1 \<noteq> sr ! 3);
          g2 = (b \<noteq> sr ! 2) \<noteq> sr ! 3
      in g1 # g2 # conv_k5_loop (b # take 3 sr) bs)"

definition conv_encode_k5 :: "bits \<Rightarrow> bits" where
  "conv_encode_k5 bits_in = conv_k5_loop [False, False, False, False] bits_in"

subsection \<open>Puncturing\<close>

function puncture_r23 :: "'a list \<Rightarrow> 'a list res" where
  "puncture_r23 mother =
     (if mother = [] then Inr []
      else if length mother < 5 then Inl IndexError
      else bind_res (puncture_r23 (drop 8 mother))
             (\<lambda>rest. Inr ([mother ! 0, mother ! 1, mother ! 4] @ rest)))"
  by pat_completeness auto
termination by (relation "measure length") auto

declare puncture_r23.simps [simp del]

definition puncture_r23_hu :: "'a list \<Rightarrow> 'a list" where
  "puncture_r23_hu mother =
     map ((!) mother) (filter (\<lambda>i. i mod 8 \<in> {0, 1, 4}) [0..<length mother])"

text \<open>The RTL-style encoder writes two outputs for an even bit and one for an odd bit at a running
  index of a 120-entry array (an index past its end raises).\<close>

fun rcpc_inline_loop :: "nat \<Rightarrow> nat \<Rightarrow> nat \<Rightarrow> bits \<Rightarrow> bits \<Rightarrow> (bits \<times> nat) res" where
  "rcpc_inline_loop conv_sr bit_phase rcpc_idx rcpc_out [] = Inr (rcpc_out, rcpc_idx)"
| "rcpc_inline_loop conv_sr bit_phase rcpc_idx rcpc_out (din # ds) =
     (let conv_full = push_bit 1 (conv_sr AND 0xF) OR of_bool din;
          g1 = (parity5 (conv_full AND 0x13) = 1);
          g2 = (parity5 (conv_full AND 0x1D) = 1);
          conv_sr' = (push_bit 1 conv_sr OR of_bool din) AND 0xF
      in if bit_phase = 0 then
           if length rcpc_out \<le> rcpc_idx + 1 then Inl IndexError
           else rcpc_inline_loop conv_sr' (1 - bit_phase) (rcpc_idx + 2)
                  (rcpc_out[rcpc_idx := g1, rcpc_idx + 1 := g2]) ds
         else if length rcpc_out \<le> rcpc_idx then Inl IndexError
         else rcpc_inline_loop conv_sr' (1 - bit_phase) (rcpc_idx + 1)
                (rcpc_out[rcpc_idx := g1]) ds)"

subsection \<open>Depuncturing\<close>

definition punct_P :: "nat list" where
  "punct_P = [0, 1, 2, 5]"

definition depuncture_k :: "nat \<Rightarrow> nat" where
  "depuncture_k j = 8 * ((j - 1) div 3) + punct_P ! (j - 3 * ((j - 1) div 3))"

definition depuncture_r23 :: "'a list \<Rightarrow> nat \<Rightarrow> 'a option list res" where
  "depuncture_r23 bits mother_len =
     (if \<exists>j\<in>set [1..<Suc (length bits)]. mother_len \<le> depuncture_k j - 1 then Inl IndexError
      else Inr (fold (\<lambda>j out. out[depuncture_k j - 1 := Some (bits ! (j - 1))])
                  [1..<Suc (length bits)] (replicate mother_len None)))"

definition etsi_depuncture_r23 :: "'a list \<Rightarrow> 'a option list res" where
  "etsi_depuncture_r23 bits23 =
     (let mother_len = (length bits23 div 3) * 8
      in if \<exists>j\<in>set [1..<Suc (length bits23)]. mother_len \<le> depuncture_k j - 1 then Inl IndexError
         else Inr (fold (\<lambda>j out. out[depuncture_k j - 1 := Some (bits23 ! (j - 1))])
                     [1..<Suc (length bits23)] (replicate mother_len None)))"

definition etsi_depuncture_r23_bnch :: "'a list \<Rightarrow> 'a option list res" where
  "etsi_depuncture_r23_bnch bits23 =
     (let mother_len = (length bits23 div 3) * 8
      in if \<exists>j\<in>set [1..<Suc (length bits23)]. mother_len \<le> depuncture_k j - 1 then Inl IndexError
         else Inr (fold (\<lambda>j out. out[depuncture_k j - 1 := Some (bits23 ! (j - 1))])
                     [1..<Suc (length bits23)] (replicate mother_len None)))"

text \<open>The rate-1/3 variant of the loopback decoder, with its \<open>assert\<close>.\<close>

definition depuncture_r23_sb :: "'a list \<Rightarrow> 'a option list res" where
  "depuncture_r23_sb bits23 =
     assert_res (length bits23 mod 3 = 0)
       (Inr (concat (map (\<lambda>p. [Some (bits23 ! (3 * p)), Some (bits23 ! (3 * p + 1)), None,
                              Some (bits23 ! (3 * p + 2)), None, None])
               [0..<length bits23 div 3])))"

subsection \<open>The punctured code, stage by stage\<close>

definition g_out :: "nat \<Rightarrow> nat \<Rightarrow> bool \<Rightarrow> bool" where
  "g_out G st b = (parity5 (shift_in st b AND G) = 1)"

definition next_state :: "nat \<Rightarrow> bool \<Rightarrow> nat" where
  "next_state st b = shift_in st b AND 0xF"

fun code_path :: "nat \<Rightarrow> bool \<Rightarrow> bits \<Rightarrow> bits" where
  "code_path st ev [] = []"
| "code_path st ev (b # bs) =
     (if ev then [g_out 0x13 st b, g_out 0x1D st b] else [g_out 0x13 st b])
     @ code_path (next_state st b) (\<not> ev) bs"

lemma and_xor_nat: "(x XOR y) AND z = (x AND z) XOR (y AND (z::nat))"
  by (rule bit_eqI) (auto simp: bit_simps)

lemma bit_shift_in: "bit (shift_in st b) n \<longleftrightarrow> n < 5 \<and> (if n = 0 then b else bit st (n - 1))"
proof -
  have 1: "(0x1F::nat) = mask 5" by (simp add: mask_eq_exp_minus_1)
  have "bit (push_bit 1 st) n \<longleftrightarrow> 1 \<le> n \<and> bit st (n - 1)"
    by (simp add: bit_push_bit_iff del: push_bit_Suc)
  then show ?thesis
    unfolding shift_in_def 1 bit_and_iff bit_or_iff bit_mask_iff bit_of_bool_iff by auto
qed

lemma and_15: "(x::nat) AND 0xF = take_bit 4 x"
  by (simp add: take_bit_eq_mask mask_eq_exp_minus_1)

lemma and_31: "(x::nat) AND 0x1F = take_bit 5 x"
  by (simp add: take_bit_eq_mask mask_eq_exp_minus_1)

lemma shift_in_low: "shift_in (st AND 0xF) b = shift_in st b"
  by (rule bit_eqI) (auto simp: bit_shift_in and_15 bit_take_bit_iff)

lemma shift_in_less: "shift_in st b < 32"
  using take_bit_nat_less_exp [of 5 "push_bit 1 st OR of_bool b"]
  unfolding shift_in_def and_31 by simp

lemma next_state_less [simp]: "next_state st b < 16"
  using take_bit_nat_less_exp [of 4 "shift_in st b"] unfolding next_state_def and_15 by simp

lemma parity5_bits:
  "parity5 x = of_bool (bit x 0 \<noteq> (bit x 1 \<noteq> (bit x 2 \<noteq> (bit x 3 \<noteq>
     (bit x 4 \<noteq> (bit x 5 \<noteq> (bit x 6 \<noteq> bit x 7)))))))"
proof -
  have "x AND 1 = of_bool (bit x 0)" for x :: nat by (simp add: and_one_eq bit_0 mod2_eq_if)
  then show ?thesis
    unfolding parity5_def Let_def bit_xor_iff bit_drop_bit_eq comp_def
    by (simp only: bit_xor_iff bit_drop_bit_eq comp_def add_0_right) (simp, blast)
qed

lemma parity5_xor: "parity5 (x XOR y) = parity5 x XOR parity5 y"
proof -
  have "(x XOR y) XOR drop_bit k (x XOR y) = (x XOR drop_bit k x) XOR (y XOR drop_bit k y)"
    for k and x y :: nat
    by (rule bit_eqI) (auto simp: bit_xor_iff bit_drop_bit_eq)
  then show ?thesis unfolding parity5_def Let_def by (simp only: and_xor_nat)
qed

lemma parity5_01: "parity5 x = 0 \<or> parity5 x = 1"
proof -
  have "v AND 1 = 0 \<or> v AND 1 = 1" for v :: nat by (simp add: and_one_eq) linarith
  then show ?thesis by (simp add: parity5_def Let_def)
qed

lemma parity5_masked_eq: "x < 32 \<Longrightarrow> parity5_masked x = parity5 x"
proof -
  assume x: "x < 32"
  then have "x AND 0x1F = x" unfolding and_31 by (simp add: take_bit_nat_eq_self)
  then show ?thesis by (simp only: parity5_masked_def parity5_def Let_def)
qed

lemma shift_in_xor: "shift_in (s XOR t) (b \<noteq> c) = shift_in s b XOR shift_in t c"
  by (rule bit_eqI) (auto simp: bit_shift_in bit_xor_iff)

lemma next_state_xor: "next_state (s XOR t) (b \<noteq> c) = next_state s b XOR next_state t c"
  by (simp only: next_state_def shift_in_xor and_xor_nat)

lemma g_out_xor: "g_out G (s XOR t) (b \<noteq> c) = (g_out G s b \<noteq> g_out G t c)"
proof -
  have "parity5 (shift_in (s XOR t) (b \<noteq> c) AND G) =
      parity5 (shift_in s b AND G) XOR parity5 (shift_in t c AND G)"
    by (simp only: shift_in_xor and_xor_nat parity5_xor)
  moreover have "(p XOR q = 1) = ((p = 1) \<noteq> (q = 1))" if "p = 0 \<or> p = 1" "q = 0 \<or> q = 1" for p q :: nat
    using that by auto
  ultimately show ?thesis unfolding g_out_def using parity5_01 by metis
qed

lemma length_code_path_cong:
  "length us = length vs \<Longrightarrow> length (code_path s ev us) = length (code_path t ev vs)"
  by (induction us vs arbitrary: s t ev rule: list_induct2) auto

lemma code_path_xor:
  "length us = length vs \<Longrightarrow>
   code_path (s XOR t) ev (xor_bits us vs) = xor_bits (code_path s ev us) (code_path t ev vs)"
  by (induction us vs arbitrary: s t ev rule: list_induct2)
    (auto simp: g_out_xor [simplified] next_state_xor [simplified])


subsection \<open>Encoders and puncturing\<close>

lemma conv_encode_loop_low: "conv_encode_loop (st AND 0xF) us = conv_encode_loop st us"
  by (cases us) (simp_all only: conv_encode_loop.simps shift_in_low)

lemma conv_encode_step:
  "conv_encode_loop st (b # bs) =
   [g_out 0x13 st b, g_out 0x1D st b, g_out 0x17 st b, g_out 0x1B st b]
   @ conv_encode_loop (next_state st b) bs"
  by (simp only: conv_encode_loop.simps Let_def g_out_def next_state_def conv_encode_loop_low)

declare conv_encode_loop.simps(2) [simp del]

lemma length_conv_encode_loop [simp]: "length (conv_encode_loop st us) = 4 * length us"
  by (induction us arbitrary: st) (simp_all add: conv_encode_step)

lemma conv_encode_hu_eq: "conv_encode_hu_loop st us = conv_encode_loop st us"
proof (induction us arbitrary: st)
  case (Cons b us)
  have "shift_in st b AND G < 32" for G
  proof -
    have "shift_in st b AND G = take_bit 5 (shift_in st b AND G)"
      by (rule bit_eqI) (auto simp: bit_and_iff bit_take_bit_iff bit_shift_in)
    then show ?thesis using take_bit_nat_less_exp [of 5 "shift_in st b AND G"] by simp
  qed
  then show ?case
    by (simp add: Let_def etsi_gens_def parity5_masked_eq Cons.IH conv_encode_loop_low
        conv_encode_loop.simps(2))
qed simp

lemma puncture_conv_encode:
  "even (length us) \<Longrightarrow> puncture_r23 (conv_encode_loop st us) = Inr (code_path st True us)"
proof (induction us arbitrary: st rule: induct_list012)
  case (3 x y us)
  then show ?case by (simp only: conv_encode_step append_Cons append_Nil)
      (subst puncture_r23.simps, simp)
qed (simp_all add: puncture_r23.simps)

lemma puncture_hu_step:
  "length blk = 8 \<Longrightarrow>
   puncture_r23_hu (blk @ rest) = [blk ! 0, blk ! 1, blk ! 4] @ puncture_r23_hu rest"
proof -
  assume l: "length blk = 8"
  have "[0..<length (blk @ rest)] = [0..<8] @ map (\<lambda>i. i + 8) [0..<length rest]"
    using l upt_add_eq_append [of 0 8 "length rest"] map_add_upt [of 8 "length rest"] by (simp add: add.commute)
  moreover have "filter (\<lambda>i. i mod 8 \<in> {0, 1, 4}) [0..<8] = [0, 1, 4::nat]" by code_simp
  ultimately show ?thesis
    using l by (simp add: puncture_r23_hu_def filter_map comp_def nth_append)
qed

lemma puncture_hu_Cons:
  "puncture_r23_hu (a # b # c # d # e # f # g # h # rest) = a # b # e # puncture_r23_hu rest"
  using puncture_hu_step [of "[a, b, c, d, e, f, g, h]" rest] by simp

lemma puncture_hu_conv_encode:
  "even (length us) \<Longrightarrow> puncture_r23_hu (conv_encode_loop st us) = code_path st True us"
proof (induction us arbitrary: st rule: induct_list012)
  case (3 x y us)
  then show ?case by (simp add: conv_encode_step puncture_hu_Cons)
qed (simp_all add: puncture_r23_hu_def)

lemma length_code_path: "length (code_path st True us) = length us + (length us + 1) div 2"
  "length (code_path st False us) = length us + length us div 2"
  by (induction us arbitrary: st rule: induct_list012) simp_all

lemma nibble_bits:
  fixes st n :: nat
  assumes "st < 16" "bit st n"
  shows "n < 4"
proof -
  have "take_bit 4 st = st" using assms(1) by (simp add: take_bit_nat_eq_self)
  then show ?thesis using assms(2) by (metis bit_take_bit_iff)
qed

lemma rcpc_registers:
  assumes "st < 16"
  shows "push_bit 1 (st AND 0xF) OR of_bool d = shift_in st d"
    and "(push_bit 1 st OR of_bool d) AND 0xF = next_state st d"
proof -
  have pb: "bit (push_bit 1 t) n \<longleftrightarrow> 1 \<le> n \<and> bit t (n - 1)" for t n :: nat
    by (simp add: bit_push_bit_iff del: push_bit_Suc)
  have ob: "bit (of_bool d :: nat) n \<longleftrightarrow> d \<and> n = 0" for n
    by (auto simp: bit_of_bool_iff)
  show "push_bit 1 (st AND 0xF) OR of_bool d = shift_in st d"
  proof (rule bit_eqI)
    fix n
    show "bit (push_bit 1 (st AND 0xF) OR of_bool d) n = bit (shift_in st d) n"
      using nibble_bits [OF assms, of "n - 1"]
      unfolding bit_or_iff pb ob bit_shift_in and_15 bit_take_bit_iff by auto
  qed
  show "(push_bit 1 st OR of_bool d) AND 0xF = next_state st d"
    unfolding next_state_def and_15
    by (rule bit_eqI)
      (auto simp: bit_or_iff pb ob bit_shift_in bit_take_bit_iff simp del: push_bit_Suc One_nat_def)
qed

lemma rcpc_inline_step:
  assumes "st < 16"
  shows "rcpc_inline_loop st 0 idx out (d # ds) =
      (if length out \<le> idx + 1 then Inl IndexError
       else rcpc_inline_loop (next_state st d) 1 (idx + 2)
              (out[idx := g_out 0x13 st d, idx + 1 := g_out 0x1D st d]) ds)"
    and "rcpc_inline_loop st 1 idx out (d # ds) =
      (if length out \<le> idx then Inl IndexError
       else rcpc_inline_loop (next_state st d) 0 (idx + 1) (out[idx := g_out 0x13 st d]) ds)"
  unfolding rcpc_inline_loop.simps Let_def rcpc_registers [OF assms] g_out_def by simp_all

declare rcpc_inline_loop.simps(2) [simp del]

lemma take_update_drop:
  "i < length xs \<Longrightarrow> take (Suc i) (xs[i := x]) = take i xs @ [x]"
  by (simp add: take_Suc_conv_app_nth)

lemma rcpc_inline_eq:
  assumes "st < 16" "idx + length (code_path st ev ds) \<le> length out"
  shows "rcpc_inline_loop st (if ev then 0 else 1) idx out ds =
    Inr (take idx out @ code_path st ev ds @ drop (idx + length (code_path st ev ds)) out,
         idx + length (code_path st ev ds))"
  using assms
proof (induction ds arbitrary: st ev idx out)
  case (Cons d ds)
  show ?case
  proof (cases ev)
    case True
    let ?out = "out[idx := g_out 0x13 st d, idx + 1 := g_out 0x1D st d]"
    have "take (idx + 2) ?out = take idx out @ [g_out 0x13 st d, g_out 0x1D st d]"
      using Cons.prems True by (simp add: take_update_drop)
    then show ?thesis
      using Cons.IH [of "next_state st d" "idx + 2" False ?out] Cons.prems True
      by (simp add: rcpc_inline_step)
  next
    case False
    let ?out = "out[idx := g_out 0x13 st d]"
    have "take (idx + 1) ?out = take idx out @ [g_out 0x13 st d]"
      using Cons.prems False by (simp add: take_update_drop)
    then show ?thesis
      using Cons.IH [of "next_state st d" "idx + 1" True ?out] Cons.prems False
      by (simp add: rcpc_inline_step [simplified])
  qed
qed simp


subsection \<open>Depuncturing\<close>

fun depunct8 :: "'a list \<Rightarrow> 'a option list" where
  "depunct8 (a # b # c # xs) =
     [Some a, Some b, None, None, Some c, None, None, None] @ depunct8 xs"
| "depunct8 _ = []"

lemma length_depunct8 [simp]: "length (depunct8 xs) = 8 * (length xs div 3)"
proof (induction xs rule: depunct8.induct)
  case (1 a b c xs)
  have "(3 + length xs) div 3 = Suc (length xs div 3)" by simp
  with 1 show ?case by simp
qed simp_all

lemma nth_depunct8:
  "q < length xs div 3 \<Longrightarrow> r < 8 \<Longrightarrow>
   depunct8 xs ! (8 * q + r) =
   (if r = 0 then Some (xs ! (3 * q)) else if r = 1 then Some (xs ! (3 * q + 1))
    else if r = 4 then Some (xs ! (3 * q + 2)) else None)"
proof (induction xs arbitrary: q rule: depunct8.induct)
  case (1 a b c xs)
  show ?case
  proof (cases q)
    case 0
    have "r \<in> {0, 1, 2, 3, 4, 5, 6, 7}" using 1(3) by auto
    then show ?thesis using 0 by (auto simp: eval_nat_numeral)
  next
    case (Suc p)
    have "8 * q + r = Suc (Suc (Suc (Suc (Suc (Suc (Suc (Suc (8 * p + r))))))))"
      "3 * q = Suc (Suc (Suc (3 * p)))" using Suc by simp_all
    then show ?thesis using 1 Suc by simp
  qed
qed simp_all

definition dep_pos :: "nat \<Rightarrow> nat" where
  "dep_pos j = 8 * (j div 3) + [0, 1, 4] ! (j mod 3)"

lemma depuncture_k_pos: "depuncture_k (Suc j) - 1 = dep_pos j"
proof -
  have "Suc j - 3 * (j div 3) = Suc (j mod 3)"
    by (metis Suc_diff_le minus_mult_div_eq_mod times_div_less_eq_dividend)
  moreover have "j mod 3 = 0 \<or> j mod 3 = 1 \<or> j mod 3 = 2" by linarith
  ultimately show ?thesis unfolding depuncture_k_def dep_pos_def punct_P_def by auto
qed

lemma dep_pos_mod: "dep_pos j div 8 = j div 3" "dep_pos j mod 8 = [0, 1, 4] ! (j mod 3)"
proof -
  have "[0, 1, 4::nat] ! (j mod 3) < 8"
  proof -
    have "j mod 3 = 0 \<or> j mod 3 = 1 \<or> j mod 3 = 2" by linarith
    then show ?thesis by auto
  qed
  then show "dep_pos j div 8 = j div 3" "dep_pos j mod 8 = [0, 1, 4] ! (j mod 3)"
    by (simp_all add: dep_pos_def)
qed

lemma dep_pos_inj: "inj dep_pos"
proof (rule injI)
  fix i j assume "dep_pos i = dep_pos j"
  then have d: "i div 3 = j div 3" and "[0, 1, 4::nat] ! (i mod 3) = [0, 1, 4] ! (j mod 3)"
    by (metis dep_pos_mod)+
  moreover have "i mod 3 = 0 \<or> i mod 3 = 1 \<or> i mod 3 = 2" "j mod 3 = 0 \<or> j mod 3 = 1 \<or> j mod 3 = 2"
    by linarith+
  ultimately have "i mod 3 = j mod 3" by auto
  with d show "i = j" by (metis div_mult_mod_eq)
qed

lemma depuncture_fold:
  assumes "length xs = 3 * n"
  shows "fold (\<lambda>j out. out[dep_pos j := Some (xs ! j)]) [0..<3 * n] (replicate (8 * n) None)
         = depunct8 xs"
proof (rule nth_equalityI)
  show "length (fold (\<lambda>j out. out[dep_pos j := Some (xs ! j)]) [0..<3 * n] (replicate (8 * n) None))
      = length (depunct8 xs)"
    using assms by (simp add: fold_update_length)
next
  let ?f = "fold (\<lambda>j out. out[dep_pos j := Some (xs ! j)]) [0..<3 * n] (replicate (8 * n) None)"
  fix i assume "i < length ?f"
  then have i: "i < 8 * n" by (simp add: fold_update_length)
  define q r where "q = i div 8" and "r = i mod 8"
  have iqr: "i = 8 * q + r" "q < n" "r < 8" using i by (auto simp: q_def r_def)
  have hit: "?f ! i = Some (xs ! j)" if "dep_pos j = i" "j < 3 * n" for j
  proof -
    have "?f ! dep_pos j = Some (xs ! j)"
      by (rule fold_update_nth)
        (use that i dep_pos_inj in \<open>auto intro: inj_on_subset\<close>)
    then show ?thesis using that by simp
  qed
  have miss: "?f ! i = None" if "\<And>j. dep_pos j \<noteq> i"
    by (subst fold_update_other) (use that i in auto)
  have P: "dep_pos (3 * q) = 8 * q" "dep_pos (3 * q + 1) = 8 * q + 1" "dep_pos (3 * q + 2) = 8 * q + 4"
  proof -
    have "(3 * q + 2) div 3 = q" "(3 * q + 2) mod 3 = 2" "(3 * q + 1) div 3 = q" "(3 * q + 1) mod 3 = 1"
      by presburger+
    then show "dep_pos (3 * q) = 8 * q" "dep_pos (3 * q + 1) = 8 * q + 1" "dep_pos (3 * q + 2) = 8 * q + 4"
      by (simp_all only: dep_pos_def) simp_all
  qed
  have "?f ! i = (if r = 0 then Some (xs ! (3 * q)) else if r = 1 then Some (xs ! (3 * q + 1))
    else if r = 4 then Some (xs ! (3 * q + 2)) else None)"
  proof (cases "r \<in> {0, 1, 4}")
    case True
    then show ?thesis using hit [of "3 * q"] hit [of "3 * q + 1"] hit [of "3 * q + 2"] P iqr by auto
  next
    case False
    have "dep_pos j \<noteq> i" for j
    proof
      assume "dep_pos j = i"
      then have "r = [0, 1, 4] ! (j mod 3)" using dep_pos_mod(2) [of j] r_def by simp
      moreover have "j mod 3 = 0 \<or> j mod 3 = 1 \<or> j mod 3 = 2" by linarith
      ultimately show False using False by auto
    qed
    then show ?thesis using False miss by simp
  qed
  then show "?f ! i = depunct8 xs ! i"
    using nth_depunct8 [of q xs r] iqr assms by simp
qed

lemma dep_pos_less: "j < 3 * n \<Longrightarrow> dep_pos j < 8 * n"
proof -
  assume "j < 3 * n"
  then have "j div 3 < n" by (simp add: div_less_iff_less_mult mult.commute)
  then have "dep_pos j div 8 < n" by (simp add: dep_pos_mod)
  then show ?thesis by (simp add: div_less_iff_less_mult mult.commute)
qed

lemma depuncture_r23_eq:
  assumes "length xs = 3 * n"
  shows "depuncture_r23 xs (8 * n) = Inr (depunct8 xs)"
proof -
  have "\<not> (\<exists>j\<in>set [1..<Suc (length xs)]. 8 * n \<le> depuncture_k j - 1)"
    unfolding upt_Suc_map set_map bex_simps
    using dep_pos_less [of _ n] assms by (auto simp: depuncture_k_pos [simplified] not_le)
  then show ?thesis
    using depuncture_fold [OF assms] assms
    unfolding depuncture_r23_def upt_Suc_map fold_map_fun by (simp add: depuncture_k_pos [simplified])
qed

lemma etsi_depuncture_copies:
  "etsi_depuncture_r23 xs = depuncture_r23 xs (8 * (length xs div 3))"
  "etsi_depuncture_r23_bnch xs = depuncture_r23 xs (8 * (length xs div 3))"
  by (simp_all only: etsi_depuncture_r23_def etsi_depuncture_r23_bnch_def depuncture_r23_def Let_def mult.commute)

end
