(* ===== verification/CodeDistance.thy ===== *)
theory CodeDistance
  imports ConvCode
begin

text \<open>
  How far apart two paths of the punctured code are when the received block carries errors.

  An error pattern is \<open>spaced\<close> when any two flipped positions of the 2/3-rate block are at least
  11 apart.  A potential on (register, stage parity, positions since the last error) certifies that
  every path that leaves the transmitted one and returns collects strictly more differing clean
  positions than flipped ones; the certificate is one table of 32 entries and its 704 edge
  inequalities are evaluated in the kernel.  The result, \<open>spaced_nearest\<close>, is what makes the
  maximum-likelihood path of the Viterbi decoder the transmitted one.
\<close>

subsection \<open>Spaced errors and the gain of a path\<close>

fun spaced :: "nat \<Rightarrow> bits \<Rightarrow> bool" where
  "spaced t [] = True"
| "spaced t (e # es) = (if e then t = 0 \<and> spaced 10 es else spaced (t - 1) es)"

fun gain :: "bits \<Rightarrow> bits \<Rightarrow> int" where
  "gain (d # ds) (e # es) = (if d then if e then -1 else 1 else 0) + gain ds es"
| "gain _ _ = 0"

fun run :: "nat \<Rightarrow> bits \<Rightarrow> nat" where
  "run st [] = st"
| "run st (b # bs) = run (next_state st b) bs"

definition pot_even :: "(int \<times> nat) list" where
  "pot_even = [(0, 99), (1, 6), (1, 99), (0, 5), (0, 3), (1, 99), (1, 99), (0, 2), (0, 8), (1, 6), (1, 99), (0, 6), (0, 3), (1, 99), (1, 99), (0, 2)]"

definition pot_odd :: "(int \<times> nat) list" where
  "pot_odd = [(0, 99), (0, 6), (0, 4), (0, 3), (0, 9), (0, 7), (0, 4), (0, 3), (- 1, 1), (1, 99), (1, 99), (1, 99), (1, 9), (1, 99), (1, 99), (1, 99)]"

definition pot :: "nat \<Rightarrow> bool \<Rightarrow> nat \<Rightarrow> int" where
  "pot st ev t = (let (b, th) = (if ev then pot_even else pot_odd) ! st in if th \<le> t then b + 2 else b)"

fun edge_ok :: "bits \<Rightarrow> nat \<Rightarrow> int \<Rightarrow> (nat \<Rightarrow> int) \<Rightarrow> bool" where
  "edge_ok [] t v k = (v \<le> k t)"
| "edge_ok (d # ds) t v k =
     (edge_ok ds (t - 1) (v - of_bool d) k \<and>
      (t = 0 \<longrightarrow> edge_ok ds 10 (v + of_bool d) k))"

definition stage_out :: "nat \<Rightarrow> bool \<Rightarrow> bool \<Rightarrow> bits" where
  "stage_out st ev b = (if ev then [g_out 0x13 st b, g_out 0x1D st b] else [g_out 0x13 st b])"

definition stage_out_table :: "bool list list" where
  "stage_out_table = map (\<lambda>st. [g_out 0x13 st True, g_out 0x1D st True]) [0..<16]"



lemma g_out_bits:
  "g_out 0x13 st b = (b \<noteq> (bit st 0 \<noteq> bit st 3))"
  "g_out 0x1D st b = (b \<noteq> (bit st 1 \<noteq> (bit st 2 \<noteq> bit st 3)))"
proof -
  have 13: "bit (0x13::nat) 0" "bit (0x13::nat) 1" "\<not> bit (0x13::nat) 2" "\<not> bit (0x13::nat) 3"
    "bit (0x13::nat) 4" and 1: "bit (0x1D::nat) 0" "\<not> bit (0x1D::nat) 1" "bit (0x1D::nat) 2"
    "bit (0x1D::nat) 3" "bit (0x1D::nat) 4"
    by (simp_all add: bit_iff_odd)
  have one: "bit (Suc 0) 0" by (simp add: bit_0)
  show "g_out 0x13 st b = (b \<noteq> (bit st 0 \<noteq> bit st 3))"
    unfolding g_out_def parity5_bits bit_and_iff bit_shift_in 13 1
    by (simp add: 13 one) 
  show "g_out 0x1D st b = (b \<noteq> (bit st 1 \<noteq> (bit st 2 \<noteq> bit st 3)))"
    unfolding g_out_def parity5_bits bit_and_iff bit_shift_in 13 1
    by (simp add: 1 one)
qed

lemma next_state_eq: "next_state st b = (2 * st + of_bool b) mod 16"
proof (rule bit_eqI)
  fix n
  have "(2 * st + of_bool b) mod 16 = take_bit 4 (2 * st + of_bool b)" by (simp add: take_bit_eq_mod)
  moreover have "bit (2 * st + of_bool b) n = (if n = 0 then b else bit st (n - 1))"
    by (cases n; cases b) (simp_all add: bit_0 bit_Suc)
  ultimately show "bit (next_state st b) n = bit ((2 * st + of_bool b) mod 16) n"
    by (simp add: next_state_def and_15 bit_take_bit_iff bit_shift_in) auto
qed

definition edge_list :: "(nat \<times> bool \<times> bool \<times> bool \<times> nat) list" where
  "edge_list = [
    (0, False, False, False, 0), (0, True, True, True, 1), (1, False, True, False, 2), (1, True, False, True, 3),
    (2, False, False, True, 4), (2, True, True, False, 5), (3, False, True, True, 6), (3, True, False, False, 7),
    (4, False, False, True, 8), (4, True, True, False, 9), (5, False, True, True, 10), (5, True, False, False, 11),
    (6, False, False, False, 12), (6, True, True, True, 13), (7, False, True, False, 14), (7, True, False, True, 15),
    (8, False, True, True, 0), (8, True, False, False, 1), (9, False, False, True, 2), (9, True, True, False, 3),
    (10, False, True, False, 4), (10, True, False, True, 5), (11, False, False, False, 6), (11, True, True, True, 7),
    (12, False, True, False, 8), (12, True, False, True, 9), (13, False, False, False, 10), (13, True, True, True, 11),
    (14, False, True, True, 12), (14, True, False, False, 13), (15, False, False, True, 14), (15, True, True, False, 15)]"

lemma edge_list_check:
  "list_all (\<lambda>st. list_all (\<lambda>b.
     (st, b, b \<noteq> (odd st \<noteq> odd (st div 8)), b \<noteq> (odd (st div 2) \<noteq> (odd (st div 4) \<noteq> odd (st div 8))),
      (2 * st + of_bool b) mod 16) \<in> set edge_list) [True, False]) [0..<16]"
  by code_simp

lemma trellis_edges:
  assumes "st < 16"
  shows "(st, b, g_out 0x13 st b, g_out 0x1D st b, next_state st b) \<in> set edge_list"
proof -
  have "st \<in> set [0..<16]" "b \<in> set [True, False]" using assms by auto
  then have "(st, b, b \<noteq> (odd st \<noteq> odd (st div 8)),
      b \<noteq> (odd (st div 2) \<noteq> (odd (st div 4) \<noteq> odd (st div 8))), (2 * st + of_bool b) mod 16) \<in> set edge_list"
    using edge_list_check by (simp only: list_all_iff)
  then show ?thesis
    by (simp only: g_out_bits next_state_eq) (simp only: bit_iff_odd power_0 power_one_right div_by_1, simp)
qed

definition edges_ok :: "(nat \<times> bool \<times> bool \<times> bool \<times> nat) list \<Rightarrow> bool" where
  "edges_ok = list_all (\<lambda>(st, b, g1, g2, ns). list_all (\<lambda>t.
     edge_ok [g1, g2] t (pot st True t) (pot ns False) \<and>
     edge_ok [g1] t (pot st False t) (pot ns True)) [0..<11])"

lemma edges_ok_parts:
  "edges_ok (take 8 edge_list)"
  "edges_ok (take 8 (drop 8 edge_list))"
  "edges_ok (take 8 (drop 16 edge_list))"
  "edges_ok (drop 24 edge_list)"
  by (code_simp, code_simp, code_simp, code_simp)

lemma pot_edges: "edges_ok edge_list"
proof -
  have "edge_list = take 8 edge_list @ take 8 (drop 8 edge_list) @ take 8 (drop 16 edge_list)
      @ drop 24 edge_list"
    by (simp add: edge_list_def)
  moreover have "edges_ok (xs @ ys) \<longleftrightarrow> edges_ok xs \<and> edges_ok ys" for xs ys
    by (simp add: edges_ok_def)
  ultimately show ?thesis using edges_ok_parts by metis
qed

lemma pot_start:
  "list_all (\<lambda>t. edge_ok [True, True] t 2 (pot 1 False) \<and> edge_ok [True] t 2 (pot 1 True)) [0..<11]"
  by code_simp

lemma stage_edge:
  assumes "st < 16" "t < 11"
  shows "edge_ok (stage_out st ev b) t (pot st ev t) (pot (next_state st b) (\<not> ev))"
  using pot_edges trellis_edges [OF assms(1), of b] assms(2)
  by (fastforce simp: edges_ok_def list_all_iff stage_out_def)

lemma code_path_stage:
  "code_path st ev (b # bs) = stage_out st ev b @ code_path (next_state st b) (\<not> ev) bs"
  by (simp add: stage_out_def)

lemma spaced_stage:
  "edge_ok ds t v k \<Longrightarrow> spaced t (es @ rest) \<Longrightarrow> length es = length ds \<Longrightarrow> t < 11 \<Longrightarrow>
   \<exists>t' < 11. v \<le> gain ds es + k t' \<and> spaced t' rest"
proof (induction ds arbitrary: t v es)
  case (Cons d ds)
  then obtain e es' where es: "es = e # es'" "length es' = length ds" by (cases es) auto
  show ?case
  proof (cases e)
    case True
    then show ?thesis
      using Cons.IH [of 10 "v + of_bool d" es'] Cons.prems es by (cases d) force+
  next
    case False
    then show ?thesis
      using Cons.IH [of "t - 1" "v - of_bool d" es'] Cons.prems es by (cases d) force+
  qed
qed auto

lemma gain_append:
  "length ds = length es \<Longrightarrow> gain (ds @ ds') (es @ es') = gain ds es + gain ds' es'"
  by (induction ds es rule: list_induct2) simp_all

text \<open>Splitting an error pattern at the end of a stage.\<close>

lemma split_stage:
  assumes "length e = length (code_path st ev (b # bs))"
  obtains e1 e2 where "e = e1 @ e2" "length e1 = length (stage_out st ev b)"
    "length e2 = length (code_path (next_state st b) (\<not> ev) bs)"
proof
  let ?n = "length (stage_out st ev b)"
  show "e = take ?n e @ drop ?n e" by simp
  show "length (take ?n e) = ?n" "length (drop ?n e) = length (code_path (next_state st b) (\<not> ev) bs)"
    using assms by (simp_all only: code_path_stage length_append length_take length_drop)
qed

lemma pot_zero: "pot 0 ev t = 0 \<or> 99 \<le> t"
  by (simp add: pot_def pot_even_def pot_odd_def)

lemma pot_bound:
  assumes "st < 16" "t < 11" "run st us = 0" "spaced t e" "length e = length (code_path st ev us)"
  shows "pot st ev t \<le> gain (code_path st ev us) e"
  using assms
proof (induction us arbitrary: st ev t e)
  case Nil
  then show ?case using pot_zero [of ev t] by simp
next
  case (Cons b us)
  from Cons.prems(5) obtain e1 e2 where e: "e = e1 @ e2" "length e1 = length (stage_out st ev b)"
    "length e2 = length (code_path (next_state st b) (\<not> ev) us)" by (rule split_stage)
  obtain t' where t': "t' < 11" "pot st ev t \<le> gain (stage_out st ev b) e1 + pot (next_state st b) (\<not> ev) t'"
    "spaced t' e2"
    using spaced_stage [OF stage_edge [OF Cons.prems(1,2)]] Cons.prems(2,4) e by metis
  have "pot (next_state st b) (\<not> ev) t' \<le> gain (code_path (next_state st b) (\<not> ev) us) e2"
    by (rule Cons.IH) (use Cons.prems t' e in simp_all)
  then show ?case using t' e by (simp only: code_path_stage gain_append [OF e(2) [symmetric]])
qed

lemma stage_zero: "stage_out 0 ev False = (if ev then [False, False] else [False])" "next_state 0 False = 0"
  "stage_out 0 ev True = (if ev then [True, True] else [True])" "next_state 0 True = 1"
  by (simp_all add: stage_out_def g_out_bits next_state_eq)

lemma gain_zeros: "gain (replicate n False) e = 0"
proof (induction n arbitrary: e)
  case (Suc n)
  then show ?case by (cases e) simp_all
qed simp

lemma spaced_drop: "spaced t (es @ rest) \<Longrightarrow> t < 11 \<Longrightarrow> \<exists>t' < 11. spaced t' rest"
  by (induction es arbitrary: t) (auto split: if_splits)

text \<open>A path that leaves the zero path gains at least 2 on any spaced error pattern.\<close>

lemma divergence:
  assumes "run 0 us = 0" "True \<in> set us" "spaced t e" "t < 11" "length e = length (code_path 0 ev us)"
  shows "2 \<le> gain (code_path 0 ev us) e"
  using assms
proof (induction us arbitrary: ev t e)
  case (Cons b us)
  from Cons.prems(5) obtain e1 e2 where e: "e = e1 @ e2" "length e1 = length (stage_out 0 ev b)"
    "length e2 = length (code_path (next_state 0 b) (\<not> ev) us)" by (rule split_stage)
  have sum: "gain (code_path 0 ev (b # us)) e =
      gain (stage_out 0 ev b) e1 + gain (code_path (next_state 0 b) (\<not> ev) us) e2"
    by (simp only: code_path_stage gain_append [OF e(2) [symmetric]] e(1))
  show ?case
  proof (cases b)
    case False
    obtain t' where "t' < 11" "spaced t' e2" using spaced_drop Cons.prems(3,4) e(1) by metis
    then have "2 \<le> gain (code_path 0 (\<not> ev) us) e2"
      using Cons False e(3) by (intro Cons.IH) (auto simp: stage_zero)
    moreover have "gain (stage_out 0 ev False) e1 = 0"
      using gain_zeros [of 2 e1] gain_zeros [of 1 e1] by (simp add: stage_zero numeral_2_eq_2)
    ultimately show ?thesis using sum False by (simp only: stage_zero)
  next
    case True
    have "edge_ok (stage_out 0 ev True) t 2 (pot 1 (\<not> ev))"
      using pot_start Cons.prems(4) by (auto simp: list_all_iff stage_zero)
    then obtain t' where t': "t' < 11" "2 \<le> gain (stage_out 0 ev b) e1 + pot 1 (\<not> ev) t'" "spaced t' e2"
      using spaced_stage Cons.prems(3,4) e True by metis
    have "pot 1 (\<not> ev) t' \<le> gain (code_path 1 (\<not> ev) us) e2"
      by (rule pot_bound) (use Cons.prems t' e True in \<open>simp_all add: stage_zero\<close>)
    then show ?thesis using t' sum True by (simp add: stage_zero)
  qed
qed simp

lemma hamming_gain:
  "length c = length c' \<Longrightarrow> length c' = length e \<Longrightarrow>
   int (hamming (xor_bits c e) c') = int (hamming (xor_bits c e) c) + gain (xor_bits c c') e"
  by (induction c c' e rule: list_induct3) auto

lemma path_run_xor: "length us = length vs \<Longrightarrow> run (s XOR t) (xor_bits us vs) = run s us XOR run t vs"
  by (induction us vs arbitrary: s t rule: list_induct2) (simp_all add: next_state_xor [simplified])

text \<open>The transmitted path is the strictly nearest one when the errors are spaced.\<close>

lemma spaced_nearest:
  assumes "length us = length vs" "us \<noteq> vs" "run 0 us = 0" "run 0 vs = 0"
    and "spaced t e" "t < 11" "length e = length (code_path 0 True us)"
  shows "hamming (xor_bits (code_path 0 True us) e) (code_path 0 True us)
       < hamming (xor_bits (code_path 0 True us) e) (code_path 0 True vs)"
proof -
  let ?w = "xor_bits us vs"
  have "run 0 ?w = 0" using path_run_xor [OF assms(1), of 0 0] assms(3,4) by simp
  moreover have "True \<in> set ?w"
    using assms(1,2) by (auto simp: in_set_conv_nth list_eq_iff_nth_eq)
  moreover have path: "code_path 0 True ?w = xor_bits (code_path 0 True us) (code_path 0 True vs)"
    using code_path_xor [OF assms(1), of 0 0 True] by simp
  moreover have len: "length (code_path 0 True us) = length (code_path 0 True vs)"
    by (rule length_code_path_cong [OF assms(1)])
  ultimately have "2 \<le> gain (xor_bits (code_path 0 True us) (code_path 0 True vs)) e"
    using divergence [of ?w t e True] assms(5,6,7) by simp
  then show ?thesis
    using hamming_gain [OF len, of e] assms(7) len by simp
qed

end
