(* ===== verification/Viterbi.thy ===== *)
theory Viterbi
  imports CodeDistance
begin

unbundle bit_operations_syntax

text \<open>
  The hard-decision Viterbi decoders: \<open>viterbi_r14\<close> of \<open>scripts/decode_dl.py\<close>, and
  \<open>etsi_viterbi_decode_r14_with_erasures\<close> and \<open>viterbi_decode_r13_with_erasures\<close> of
  \<open>scripts/decode_sb.py\<close>.  An erased position (value 2) is \<open>None\<close>; the traceback tables are the
  lists of their rows, newest first.

  The locale \<open>acs_decoder\<close> is the interface between the add-compare-select stage and the rest of
  the decoder.  From the stage's law alone its lemmas prove that the traceback is a path of the
  trellis from state 0 to state 0 with minimal total cost (maximum-likelihood decoding).
\<close>

type_synonym column = "int list \<times> nat list \<times> bool list"

definition VINF :: int where
  "VINF = 10 ^ 9"

text \<open>\<open>metric += e ^ rx[m]\<close> for every generator whose received position is not erased.\<close>

fun add_branch :: "nat \<Rightarrow> nat list \<Rightarrow> bool option list \<Rightarrow> int \<Rightarrow> int" where
  "add_branch sr (G # Gs) (r # rx) metric =
     (let e = parity5_masked (sr AND G)
      in add_branch sr Gs rx
           (case r of None \<Rightarrow> metric | Some x \<Rightarrow> metric + of_bool ((e = 1) \<noteq> x)))"
| "add_branch sr _ _ metric = metric"

text \<open>The body of the two inner loops, for one old state and one input bit.\<close>

definition acs_visit ::
  "nat list \<Rightarrow> bool option list \<Rightarrow> int list \<Rightarrow> nat \<times> bool \<Rightarrow> column \<Rightarrow> column" where
  "acs_visit Gs rx pm = (\<lambda>(old_state, inp) (new_pm, tb_state, tb_input).
     if VINF \<le> pm ! old_state then (new_pm, tb_state, tb_input)
     else
       let sr = shift_in old_state inp;
           new_state = sr AND 0xF;
           metric = add_branch sr Gs rx (pm ! old_state)
       in if metric < new_pm ! new_state
          then (new_pm[new_state := metric], tb_state[new_state := old_state],
                tb_input[new_state := inp])
          else (new_pm, tb_state, tb_input))"

definition loop_pairs :: "(nat \<times> bool) list" where
  "loop_pairs = concat (map (\<lambda>old_state. map (\<lambda>inp. (old_state, inp)) [False, True]) [0..<16])"

definition acs_stage :: "nat list \<Rightarrow> bool option list \<Rightarrow> int list \<Rightarrow> column" where
  "acs_stage Gs rx pm =
     fold (acs_visit Gs rx pm) loop_pairs (replicate 16 VINF, replicate 16 0, replicate 16 False)"

definition init_pm :: "int list" where
  "init_pm = (replicate 16 VINF)[0 := 0]"

definition forward ::
  "('rx \<Rightarrow> int list \<Rightarrow> column) \<Rightarrow> 'rx list \<Rightarrow> int list \<times> (nat list \<times> bool list) list" where
  "forward stage rxs =
     foldl (\<lambda>(pm, rows) rx. let (new_pm, ts, ti) = stage rx pm in (new_pm, (ts, ti) # rows))
       (init_pm, []) rxs"

fun traceback :: "(nat list \<times> bool list) list \<Rightarrow> nat \<Rightarrow> bits \<Rightarrow> bits" where
  "traceback [] state decoded = decoded"
| "traceback ((ts, ti) # rows) state decoded = traceback rows (ts ! state) (ti ! state # decoded)"

definition rx_groups :: "nat \<Rightarrow> 'a list \<Rightarrow> 'a list list" where
  "rx_groups n coded =
     map (\<lambda>i. map (\<lambda>m. coded ! (n * i + m)) [0..<n]) [0..<length coded div n]"

definition viterbi_r14 :: "bool option list \<Rightarrow> bits" where
  "viterbi_r14 coded_bits =
     (let (pm, rows) = forward (acs_stage etsi_gens) (rx_groups 4 coded_bits)
      in traceback rows 0 [])"

definition etsi_viterbi_decode_r14_with_erasures :: "bool option list \<Rightarrow> bits" where
  "etsi_viterbi_decode_r14_with_erasures coded_bits =
     (let (pm, rows) = forward (acs_stage [0x13, 0x1D, 0x17, 0x1B]) (rx_groups 4 coded_bits)
      in traceback rows 0 [])"

definition viterbi_decode_r13_with_erasures :: "bool option list \<Rightarrow> bits" where
  "viterbi_decode_r13_with_erasures coded_bits =
     (let (pm, rows) = forward (acs_stage [0x1B, 0x19, 0x15]) (rx_groups 3 coded_bits)
      in traceback rows 0 [])"

definition viterbi_decode_r23 :: "bits \<Rightarrow> bits res" where
  "viterbi_decode_r23 coded_bits =
     bind_res (depuncture_r23_sb coded_bits) (\<lambda>depunct. Inr (viterbi_decode_r13_with_erasures depunct))"

definition etsi_viterbi_decode_r23 :: "bits \<Rightarrow> bits res" where
  "etsi_viterbi_decode_r23 coded_bits =
     bind_res (etsi_depuncture_r23 coded_bits)
       (\<lambda>m. Inr (etsi_viterbi_decode_r14_with_erasures m))"

subsection \<open>Survivors of a stage\<close>

text \<open>After a stage the metric of a state is infinite when no finite state leads to it; otherwise it
  is attained by the recorded predecessor and no visited transition is cheaper.\<close>

definition survivor ::
  "(nat \<Rightarrow> bool \<Rightarrow> int) \<Rightarrow> int list \<Rightarrow> (nat \<times> bool) set \<Rightarrow> column \<Rightarrow> nat \<Rightarrow> bool" where
  "survivor cost pm done = (\<lambda>(npm, ts, ti) ns.
     npm ! ns = VINF \<and> (\<forall>(st, b) \<in> done. pm ! st < VINF \<longrightarrow> next_state st b \<noteq> ns) \<or>
     (ts ! ns, ti ! ns) \<in> done \<and> pm ! (ts ! ns) < VINF \<and> next_state (ts ! ns) (ti ! ns) = ns \<and>
     npm ! ns = pm ! (ts ! ns) + cost (ts ! ns) (ti ! ns) \<and>
     (\<forall>(st, b) \<in> done. pm ! st < VINF \<longrightarrow> next_state st b = ns \<longrightarrow> npm ! ns \<le> pm ! st + cost st b))"

definition metrics_ok :: "int \<Rightarrow> int list \<Rightarrow> bool" where
  "metrics_ok B pm \<longleftrightarrow> length pm = 16 \<and> (\<forall>st<16. pm ! st = VINF \<or> 0 \<le> pm ! st \<and> pm ! st + B < VINF)"

definition col_lengths :: "column \<Rightarrow> bool" where
  "col_lengths = (\<lambda>(npm, ts, ti). length npm = 16 \<and> length ts = 16 \<and> length ti = 16)"

fun path_cost :: "('rx \<Rightarrow> nat \<Rightarrow> bool \<Rightarrow> int) \<Rightarrow> nat \<Rightarrow> bits \<Rightarrow> 'rx list \<Rightarrow> int" where
  "path_cost cost st (b # bs) (rx # rxs) = cost rx st b + path_cost cost (next_state st b) bs rxs"
| "path_cost cost st _ _ = 0"

locale acs_decoder =
  fixes stage :: "'rx \<Rightarrow> int list \<Rightarrow> column" and cost :: "'rx \<Rightarrow> nat \<Rightarrow> bool \<Rightarrow> int" and B :: int
  assumes cost_nonneg: "0 \<le> cost rx st b" and cost_le: "cost rx st b \<le> B"
    and stage_lengths: "col_lengths (stage rx pm)"
    and stage_survivor:
      "metrics_ok B pm \<Longrightarrow> ns < 16 \<Longrightarrow> survivor (cost rx) pm ({..<16} \<times> UNIV) (stage rx pm) ns"
begin

definition best :: "'rx list \<Rightarrow> int list \<Rightarrow> (nat list \<times> bool list) list \<Rightarrow> nat \<Rightarrow> bool" where
  "best rxs pm rows ns \<longleftrightarrow>
     pm ! ns = VINF \<and> (\<forall>us. length us = length rxs \<longrightarrow> run 0 us \<noteq> ns) \<or>
     0 \<le> pm ! ns \<and> pm ! ns \<le> B * int (length rxs) \<and>
     (let us = traceback rows ns [] in
        length us = length rxs \<and> run 0 us = ns \<and> path_cost cost 0 us rxs = pm ! ns \<and>
        (\<forall>vs. length vs = length rxs \<and> run 0 vs = ns \<longrightarrow> pm ! ns \<le> path_cost cost 0 vs rxs))"

lemma traceback_acc: "traceback rows st acc = traceback rows st [] @ acc"
proof (induction rows arbitrary: st acc)
  case (Cons r rows)
  obtain ts ti where r: "r = (ts, ti)" by (cases r)
  show ?case using Cons [of "ts ! st" "ti ! st # acc"] Cons [of "ts ! st" "[ti ! st]"] r by simp
qed simp

lemma run_append: "run st (us @ [b]) = next_state (run st us) b"
  by (induction us arbitrary: st) simp_all

lemma path_cost_append:
  "length us = length rxs \<Longrightarrow>
   path_cost cost st (us @ [b]) (rxs @ [rx]) = path_cost cost st us rxs + cost rx (run st us) b"
  by (induction us rxs arbitrary: st rule: list_induct2) simp_all

lemma forward_append:
  "forward stage (rxs @ [rx]) =
   (let (pm, rows) = forward stage rxs; (npm, ts, ti) = stage rx pm in (npm, (ts, ti) # rows))"
  by (simp add: forward_def case_prod_beta)

lemma length_forward: "length (fst (forward stage rxs)) = 16"
proof (cases rxs rule: rev_cases)
  case (snoc xs x)
  then show ?thesis
    using stage_lengths [of x "fst (forward stage xs)"]
    by (simp add: forward_append case_prod_beta Let_def col_lengths_def)
qed (simp add: forward_def init_pm_def)

lemma run_less: "st < 16 \<Longrightarrow> run st us < 16"
  by (induction us arbitrary: st) simp_all

lemma snoc_path:
  assumes "length vs = Suc n"
  obtains vs' b where "vs = vs' @ [b]" "length vs' = n"
  using assms by (cases vs rule: rev_cases) auto

lemma forward_best:
  assumes "B * int (length rxs) < VINF" "ns < 16"
  shows "best rxs (fst (forward stage rxs)) (snd (forward stage rxs)) ns"
  using assms
proof (induction rxs arbitrary: ns rule: rev_induct)
  case Nil
  then show ?case by (cases ns) (auto simp: best_def forward_def init_pm_def VINF_def)
next
  case (snoc rx rxs)
  obtain pm rows where f: "forward stage rxs = (pm, rows)" by fastforce
  obtain npm ts ti where s: "stage rx pm = (npm, ts, ti)" by (metis prod_cases3)
  have B0: "0 \<le> B" using cost_nonneg cost_le order_trans by blast
  have lt: "B * int (length rxs) + B < VINF" using snoc.prems(1) by (simp add: algebra_simps)
  have IH: "best rxs pm rows st" if "st < 16" for st
    using snoc.IH [of st] that lt B0 f by simp
  have ok: "metrics_ok B pm"
    unfolding metrics_ok_def
  proof (intro conjI allI impI)
    show "length pm = 16" using length_forward [of rxs] f by simp
    show "pm ! st = VINF \<or> 0 \<le> pm ! st \<and> pm ! st + B < VINF" if "st < 16" for st
      using IH [OF that] lt unfolding best_def by auto
  qed
  have fs: "forward stage (rxs @ [rx]) = (npm, (ts, ti) # rows)"
    by (simp add: forward_append f s)
  from stage_survivor [OF ok snoc.prems(2), of rx] s
  consider (inf) "npm ! ns = VINF" "\<forall>st<16. \<forall>b. pm ! st < VINF \<longrightarrow> next_state st b \<noteq> ns"
    | (fin) "ts ! ns < 16" "pm ! (ts ! ns) < VINF" "next_state (ts ! ns) (ti ! ns) = ns"
      "npm ! ns = pm ! (ts ! ns) + cost rx (ts ! ns) (ti ! ns)"
      "\<forall>st<16. \<forall>b. pm ! st < VINF \<longrightarrow> next_state st b = ns \<longrightarrow> npm ! ns \<le> pm ! st + cost rx st b"
    unfolding survivor_def by auto
  then show ?case
  proof cases
    case inf
    have "run 0 us \<noteq> ns" if l: "length us = length (rxs @ [rx])" for us
    proof
      assume r: "run 0 us = ns"
      from l obtain us' b where us: "us = us' @ [b]" "length us' = length rxs"
        using snoc_path [of us "length rxs"] by auto
      have st: "run 0 us' < 16" by (rule run_less) simp
      have "pm ! run 0 us' < VINF"
        using IH [OF st] us(2) lt B0 unfolding best_def by auto
      then show False using inf(2) st r us(1) run_append by metis
    qed
    then show ?thesis using inf(1) fs by (simp add: best_def)
  next
    case fin
    let ?us = "traceback rows (ts ! ns) []"
    have tb: "traceback ((ts, ti) # rows) ns [] = ?us @ [ti ! ns]"
      using traceback_acc [of rows "ts ! ns" "[ti ! ns]"] by simp
    have us: "0 \<le> pm ! (ts ! ns)" "pm ! (ts ! ns) \<le> B * int (length rxs)" "length ?us = length rxs"
      "run 0 ?us = ts ! ns" "path_cost cost 0 ?us rxs = pm ! (ts ! ns)"
      using IH [OF fin(1)] fin(2) unfolding best_def Let_def by auto
    have min: "npm ! ns \<le> path_cost cost 0 vs (rxs @ [rx])"
      if "length vs = length (rxs @ [rx])" "run 0 vs = ns" for vs
    proof -
      from that(1) obtain vs' b where vs: "vs = vs' @ [b]" "length vs' = length rxs"
        using snoc_path [of vs "length rxs"] by auto
      have st: "run 0 vs' < 16" by (rule run_less) simp
      have le: "pm ! run 0 vs' \<le> path_cost cost 0 vs' rxs" and lt': "pm ! run 0 vs' < VINF"
        using IH [OF st] vs(2) lt B0 unfolding best_def Let_def by auto
      have "npm ! ns \<le> pm ! run 0 vs' + cost rx (run 0 vs') b"
        using fin(5) st lt' that(2) vs(1) run_append by metis
      with le show ?thesis using vs by (simp add: path_cost_append)
    qed
    have "best (rxs @ [rx]) npm ((ts, ti) # rows) ns"
      unfolding best_def tb Let_def
      using us fin(3,4) min cost_nonneg [of rx "ts ! ns" "ti ! ns"] cost_le [of rx "ts ! ns" "ti ! ns"]
      by (intro disjI2 conjI) (auto simp: run_append path_cost_append algebra_simps)
    then show ?thesis by (simp add: fs)
  qed
qed

lemma run_zeros: "run 0 (replicate n False) = 0"
  by (induction n) (simp_all add: stage_zero)

text \<open>Maximum-likelihood decoding.\<close>

lemma traceback_optimal:
  assumes "B * int (length rxs) < VINF"
  defines "us \<equiv> traceback (snd (forward stage rxs)) 0 []"
  shows "length us = length rxs \<and> run 0 us = 0 \<and>
    (\<forall>vs. length vs = length rxs \<and> run 0 vs = 0 \<longrightarrow> path_cost cost 0 us rxs \<le> path_cost cost 0 vs rxs)"
proof -
  have "length (replicate (length rxs) False) = length rxs" "run 0 (replicate (length rxs) False) = 0"
    by (simp_all add: run_zeros)
  then have "\<not> (\<forall>us. length us = length rxs \<longrightarrow> run 0 us \<noteq> 0)" by blast
  then show ?thesis
    using forward_best [OF assms(1), of 0] unfolding best_def us_def Let_def by auto
qed

end

subsection \<open>The code's stage satisfies the law\<close>

definition bcost :: "nat list \<Rightarrow> bool option list \<Rightarrow> nat \<Rightarrow> bool \<Rightarrow> int" where
  "bcost Gs rx st b = add_branch (shift_in st b) Gs rx 0"

definition pos_cost :: "nat \<Rightarrow> nat \<Rightarrow> bool option \<Rightarrow> int" where
  "pos_cost sr G r = (case r of None \<Rightarrow> 0 | Some x \<Rightarrow> of_bool ((parity5_masked (sr AND G) = 1) \<noteq> x))"

lemma add_branch_Cons: "add_branch sr (G # Gs) (r # rx) m = add_branch sr Gs rx (m + pos_cost sr G r)"
  by (cases r) (simp_all add: pos_cost_def Let_def)

lemma add_branch_acc: "add_branch sr Gs rx m = m + add_branch sr Gs rx 0"
proof (induction Gs arbitrary: rx m)
  case (Cons G Gs)
  show ?case
  proof (cases rx)
    case (Cons r rx')
    have "add_branch sr Gs rx' (m + pos_cost sr G r) = m + pos_cost sr G r + add_branch sr Gs rx' 0"
      "add_branch sr Gs rx' (0 + pos_cost sr G r) = 0 + pos_cost sr G r + add_branch sr Gs rx' 0"
      by (rule Cons.IH)+
    then show ?thesis unfolding Cons add_branch_Cons by simp
  qed simp
qed simp

lemma pos_cost_bounds: "0 \<le> pos_cost sr G r" "pos_cost sr G r \<le> 1"
  by (simp_all add: pos_cost_def split: option.split)

lemma bcost_bounds: "0 \<le> bcost Gs rx st b \<and> bcost Gs rx st b \<le> int (length Gs)"
  unfolding bcost_def
proof (induction Gs arbitrary: rx)
  case (Cons G Gs)
  show ?case
  proof (cases rx)
    case (Cons r rx')
    then show ?thesis
      using Cons.IH [of rx'] pos_cost_bounds [of "shift_in st b" G r]
        add_branch_acc [of "shift_in st b" Gs rx' "pos_cost (shift_in st b) G r"]
      by (simp only: add_branch_Cons) simp
  qed simp
qed simp

lemma acs_visit_eq:
  "acs_visit Gs rx pm (st, b) (npm, ts, ti) =
   (if VINF \<le> pm ! st then (npm, ts, ti)
    else if pm ! st + bcost Gs rx st b < npm ! next_state st b
    then (npm[next_state st b := pm ! st + bcost Gs rx st b], ts[next_state st b := st],
          ti[next_state st b := b])
    else (npm, ts, ti))"
proof -
  have "add_branch (shift_in st b) Gs rx (pm ! st) = pm ! st + bcost Gs rx st b"
    unfolding bcost_def by (rule add_branch_acc)
  then show ?thesis unfolding acs_visit_def prod.case Let_def next_state_def [symmetric] by simp
qed

text \<open>The same stage for any branch cost.\<close>

definition gvisit :: "(nat \<Rightarrow> bool \<Rightarrow> int) \<Rightarrow> int list \<Rightarrow> nat \<times> bool \<Rightarrow> column \<Rightarrow> column" where
  "gvisit cost pm = (\<lambda>(st, b) (npm, ts, ti).
     if VINF \<le> pm ! st then (npm, ts, ti)
     else if pm ! st + cost st b < npm ! next_state st b
     then (npm[next_state st b := pm ! st + cost st b], ts[next_state st b := st], ti[next_state st b := b])
     else (npm, ts, ti))"

definition gstage :: "('rx \<Rightarrow> nat \<Rightarrow> bool \<Rightarrow> int) \<Rightarrow> 'rx \<Rightarrow> int list \<Rightarrow> column" where
  "gstage cost rx pm =
     fold (gvisit (cost rx) pm) loop_pairs (replicate 16 VINF, replicate 16 0, replicate 16 False)"

lemma acs_stage_gstage: "acs_stage Gs = gstage (bcost Gs)"
proof -
  have "acs_visit Gs rx pm = gvisit (bcost Gs rx) pm" for rx pm
    by (simp add: fun_eq_iff gvisit_def acs_visit_eq)
  then have "acs_stage Gs rx pm = gstage (bcost Gs) rx pm" for rx pm
    by (simp only: acs_stage_def gstage_def)
  then show ?thesis by (intro ext)
qed

lemma gvisit_lengths: "col_lengths c \<Longrightarrow> col_lengths (gvisit cost pm p c)"
  by (cases p; cases c) (auto simp: col_lengths_def gvisit_def)

lemma gvisit_survivor:
  assumes "metrics_ok B pm" "st < 16" "ns < 16" "col_lengths c" "cost st b \<le> B"
    and "survivor cost pm done c ns"
  shows "survivor cost pm (insert (st, b) done) (gvisit cost pm (st, b) c) ns"
proof -
  obtain npm ts ti where c: "c = (npm, ts, ti)" by (cases c)
  have fin: "pm ! st + cost st b < VINF" if "pm ! st < VINF"
    using that assms(1,2,5) by (fastforce simp: metrics_ok_def)
  show ?thesis
  proof (cases "VINF \<le> pm ! st \<or> next_state st b \<noteq> ns")
    case True
    then show ?thesis
      using assms(6) unfolding c gvisit_def survivor_def by (auto simp: not_less)
  next
    case False
    then have lt: "pm ! st < VINF" and ns: "next_state st b = ns" by auto
    show ?thesis
    proof (cases "pm ! st + cost st b < npm ! ns")
      case True
      have "survivor cost pm (insert (st, b) done)
          (npm[ns := pm ! st + cost st b], ts[ns := st], ti[ns := b]) ns"
        using assms(3,4,6) True lt ns fin [OF lt] unfolding c survivor_def col_lengths_def
        by (auto simp: nth_list_update)
      then show ?thesis unfolding c gvisit_def using True lt ns by simp
    next
      case F: False
      with fin [OF lt] have "npm ! ns \<noteq> VINF" by auto
      then have "survivor cost pm (insert (st, b) done) (npm, ts, ti) ns"
        using assms(6) F unfolding c survivor_def by auto
      then show ?thesis unfolding c gvisit_def using F lt ns by simp
    qed
  qed
qed

lemma gvisit_fold:
  assumes "metrics_ok B pm" "ns < 16" "\<And>st b. cost st b \<le> B" "\<And>st b. (st, b) \<in> set ps \<Longrightarrow> st < 16"
    and "col_lengths c" "survivor cost pm done c ns"
  shows "survivor cost pm (done \<union> set ps) (fold (gvisit cost pm) ps c) ns"
  using assms(4-6)
proof (induction ps arbitrary: c "done")
  case (Cons p ps)
  obtain st b where p: "p = (st, b)" by (cases p)
  have "survivor cost pm (insert p done \<union> set ps) (fold (gvisit cost pm) ps (gvisit cost pm p c)) ns"
  proof (rule Cons.IH)
    show "st' < 16" if "(st', b') \<in> set ps" for st' b' using Cons.prems(1) [of st' b'] that by simp
    show "col_lengths (gvisit cost pm p c)" by (rule gvisit_lengths [OF Cons.prems(2)])
    show "survivor cost pm (insert p done) (gvisit cost pm p c) ns"
      unfolding p using Cons.prems p assms(3)
      by (intro gvisit_survivor [OF assms(1) _ assms(2)]) auto
  qed
  then show ?case by simp
qed simp

lemma set_loop_pairs: "set loop_pairs = {..<16} \<times> UNIV"
  by (auto simp: loop_pairs_def UNIV_bool)

lemma gstage_lengths: "col_lengths (gstage cost rx pm)"
proof -
  have "col_lengths (fold (gvisit (cost rx) pm) ps c)" if "col_lengths c" for ps c
    using that by (induction ps arbitrary: c) (simp_all add: gvisit_lengths)
  then show ?thesis unfolding gstage_def by (simp add: col_lengths_def)
qed

lemma gstage_decoder:
  assumes "\<And>rx st b. 0 \<le> cost rx st b" "\<And>rx st b. cost rx st b \<le> B"
  shows "acs_decoder (gstage cost) cost B"
proof
  fix rx pm b and st ns :: nat
  show "0 \<le> cost rx st b" "cost rx st b \<le> B" by (rule assms)+
  show "col_lengths (gstage cost rx pm)" by (rule gstage_lengths)
  assume ok: "metrics_ok B pm" and ns: "ns < 16"
  have "survivor (cost rx) pm {} (replicate 16 VINF, replicate 16 0, replicate 16 False) ns"
    using ns by (simp add: survivor_def)
  then have "survivor (cost rx) pm ({} \<union> set loop_pairs) (gstage cost rx pm) ns"
    unfolding gstage_def
    by (intro gvisit_fold [OF ok ns assms(2)]) (auto simp: set_loop_pairs col_lengths_def)
  then show "survivor (cost rx) pm ({..<16} \<times> UNIV) (gstage cost rx pm) ns"
    by (simp add: set_loop_pairs)
qed

lemma acs_stage_decoder: "acs_decoder (acs_stage Gs) (bcost Gs) (int (length Gs))"
  unfolding acs_stage_gstage using bcost_bounds by (intro gstage_decoder) blast+

interpretation r14: acs_decoder "acs_stage etsi_gens" "bcost etsi_gens" "int (length etsi_gens)"
  by (rule acs_stage_decoder)

interpretation r13: acs_decoder "acs_stage [0x1B, 0x19, 0x15]" "bcost [0x1B, 0x19, 0x15]"
    "int (length [0x1B, 0x19, 0x15 :: nat])"
  by (rule acs_stage_decoder)

subsection \<open>Path costs are Hamming distances\<close>

text \<open>Received positions that are not erased and differ from the re-encoded bit.\<close>

fun mismatches :: "bits \<Rightarrow> bool option list \<Rightarrow> int" where
  "mismatches (x # xs) (r # rs) = (case r of None \<Rightarrow> 0 | Some y \<Rightarrow> of_bool (x \<noteq> y)) + mismatches xs rs"
| "mismatches _ _ = 0"

lemma rx_groups_Nil: "length xs < n \<Longrightarrow> rx_groups n xs = []"
  by (simp add: rx_groups_def)

lemma rx_groups_append:
  assumes "length g = n" "0 < n"
  shows "rx_groups n (g @ xs) = g # rx_groups n xs"
proof -
  let ?k = "length xs div n"
  have "length (g @ xs) div n = Suc ?k" using assms by (simp add: div_add_self1)
  moreover have "map (\<lambda>m. (g @ xs) ! (n * 0 + m)) [0..<n] = g"
    using assms by (intro nth_equalityI) (simp_all add: nth_append)
  moreover have "(g @ xs) ! (n * Suc i + m) = xs ! (n * i + m)" for i m
    using assms by (simp add: nth_append)
  ultimately show ?thesis
    unfolding rx_groups_def by (simp add: upt_conv_Cons map_Suc_upt [symmetric] del: upt_Suc)
qed

lemma bcost_masked:
  "bcost (G # Gs) (r # rx) st b =
   (case r of None \<Rightarrow> 0 | Some y \<Rightarrow> of_bool ((parity5_masked (shift_in st b AND G) = 1) \<noteq> y)) + bcost Gs rx st b"
  unfolding bcost_def add_branch_Cons
  by (subst add_branch_acc) (simp add: pos_cost_def)

lemma shift_in_and_less: "shift_in st b AND G < 32"
proof -
  have "shift_in st b AND G = take_bit 5 (shift_in st b AND G)"
    by (rule bit_eqI) (auto simp: bit_and_iff bit_take_bit_iff bit_shift_in)
  then show ?thesis using take_bit_nat_less_exp [of 5 "shift_in st b AND G"] by simp
qed

lemma bcost_Cons:
  "bcost (G # Gs) (r # rx) st b =
   (case r of None \<Rightarrow> 0 | Some y \<Rightarrow> of_bool (g_out G st b \<noteq> y)) + bcost Gs rx st b"
  by (simp only: bcost_masked g_out_def parity5_masked_eq [OF shift_in_and_less])

lemma bcost_Nil [simp]: "bcost [] rx st b = 0"
  by (simp add: bcost_def)

lemma bcost_mismatches:
  "length rx = length Gs \<Longrightarrow> bcost Gs rx st b = mismatches (map (\<lambda>G. g_out G st b) Gs) rx"
  by (induction rx Gs rule: list_induct2) (simp_all add: bcost_Cons)

lemma mismatches_append:
  "length xs = length rs \<Longrightarrow> mismatches (xs @ xs') (rs @ rs') = mismatches xs rs + mismatches xs' rs'"
  by (induction xs rs rule: list_induct2) simp_all

lemma path_cost_mismatches:
  "length coded = 4 * length us \<Longrightarrow>
   path_cost (bcost etsi_gens) st us (rx_groups 4 coded) = mismatches (conv_encode_loop st us) coded"
proof (induction us arbitrary: st coded)
  case (Cons b us)
  then have "4 \<le> length coded" by simp
  then obtain g rest where c: "coded = g @ rest" "length g = 4" "length rest = 4 * length us"
    using Cons.prems by (intro that [of "take 4 coded" "drop 4 coded"]) simp_all
  have g: "bcost etsi_gens g st b = mismatches [g_out 0x13 st b, g_out 0x1D st b, g_out 0x17 st b, g_out 0x1B st b] g"
    using bcost_mismatches [of g etsi_gens st b] c(2) by (simp add: etsi_gens_def)
  have "path_cost (bcost etsi_gens) st (b # us) (rx_groups 4 coded) =
      mismatches [g_out 0x13 st b, g_out 0x1D st b, g_out 0x17 st b, g_out 0x1B st b] g
      + mismatches (conv_encode_loop (next_state st b) us) rest"
    using c Cons.IH [of rest] g by (simp add: rx_groups_append)
  also have "\<dots> = mismatches (conv_encode_loop st (b # us)) coded"
    unfolding conv_encode_step c(1) by (rule mismatches_append [symmetric]) (simp add: c(2))
  finally show ?case .
qed simp

lemma rx_groups_depunct8:
  "rx_groups 4 (depunct8 (a # b # c # xs)) =
   [Some a, Some b, None, None] # [Some c, None, None, None] # rx_groups 4 (depunct8 xs)"
proof -
  have "depunct8 (a # b # c # xs) =
      [Some a, Some b, None, None] @ [Some c, None, None, None] @ depunct8 xs" by simp
  then show ?thesis by (simp add: rx_groups_append del: depunct8.simps append.simps)
qed

lemma path_cost_hamming:
  "length us = 2 * k \<Longrightarrow> length ys = 3 * k \<Longrightarrow>
   path_cost (bcost etsi_gens) st us (rx_groups 4 (depunct8 ys)) = int (hamming ys (code_path st True us))"
proof (induction k arbitrary: us ys st)
  case (Suc k)
  from Suc.prems(1) obtain u v us' where us: "us = u # v # us'" "length us' = 2 * k"
    by (cases us; cases "tl us") auto
  from Suc.prems(2) obtain a b c ys' where ys: "ys = a # b # c # ys'" "length ys' = 3 * k"
    by (cases ys; cases "tl ys"; cases "tl (tl ys)") auto
  have "bcost etsi_gens [Some a, Some b, None, None] st u = of_bool (a \<noteq> g_out 0x13 st u) + of_bool (b \<noteq> g_out 0x1D st u)"
    "bcost etsi_gens [Some c, None, None, None] st v = of_bool (c \<noteq> g_out 0x13 st v)" for st
    by (auto simp: etsi_gens_def bcost_Cons)
  then show ?case
    using Suc.IH [OF us(2) ys(2)] unfolding us(1) ys(1) rx_groups_depunct8 by simp
qed (simp add: rx_groups_Nil)

lemma length_rx_groups [simp]: "length (rx_groups n xs) = length xs div n"
  by (simp add: rx_groups_def)

lemma viterbi_r14_run: "viterbi_r14 coded = traceback (snd (forward (acs_stage etsi_gens) (rx_groups 4 coded))) 0 []"
  by (simp add: viterbi_r14_def case_prod_beta)

lemma viterbi_best:
  assumes "length coded < 10 ^ 9"
  shows "length (viterbi_r14 coded) = length coded div 4 \<and> run 0 (viterbi_r14 coded) = 0 \<and>
    (\<forall>vs. length vs = length coded div 4 \<and> run 0 vs = 0 \<longrightarrow>
       path_cost (bcost etsi_gens) 0 (viterbi_r14 coded) (rx_groups 4 coded)
       \<le> path_cost (bcost etsi_gens) 0 vs (rx_groups 4 coded))"
proof -
  have "4 * (length coded div 4) < 10 ^ 9" using assms by (metis le_less_trans times_div_less_eq_dividend)
  then have "int (length etsi_gens) * int (length (rx_groups 4 coded)) < VINF"
    by (simp add: etsi_gens_def VINF_def)
  from r14.traceback_optimal [OF this] show ?thesis unfolding viterbi_r14_run by simp
qed

text \<open>A received block whose errors are spaced decodes to the transmitted bits.\<close>

lemma viterbi_corrects:
  assumes "length us = 2 * k" "run 0 us = 0" "length e = 3 * k" "spaced t e" "t < 11" "8 * k < 10 ^ 9"
  shows "viterbi_r14 (depunct8 (xor_bits (code_path 0 True us) e)) = us"
proof (rule ccontr)
  let ?y = "xor_bits (code_path 0 True us) e" and ?v = "viterbi_r14 (depunct8 (xor_bits (code_path 0 True us) e))"
  assume neq: "?v \<noteq> us"
  have lp: "length (code_path 0 True us) = 3 * k" using assms(1) by (simp add: length_code_path)
  then have ly: "length ?y = 3 * k" using assms(3) by simp
  then have ld: "length (depunct8 ?y) = 8 * k" by simp
  then have v: "length ?v = 2 * k" "run 0 ?v = 0"
    and le: "path_cost (bcost etsi_gens) 0 ?v (rx_groups 4 (depunct8 ?y))
      \<le> path_cost (bcost etsi_gens) 0 us (rx_groups 4 (depunct8 ?y))"
    using viterbi_best [of "depunct8 ?y"] assms(1,2,6) by (auto simp: Suc_times_binomial)
  have "hamming ?y (code_path 0 True us) < hamming ?y (code_path 0 True ?v)"
    by (rule spaced_nearest) (use v neq assms lp in auto)
  moreover have "hamming ?y (code_path 0 True ?v) \<le> hamming ?y (code_path 0 True us)"
    using le path_cost_hamming [OF v(1) ly] path_cost_hamming [OF assms(1) ly] by simp
  ultimately show False by simp
qed

subsection \<open>Properties\<close>

text \<open>C2. Maximum-likelihood decoding: for every block of received mother-code bits, erasures
  included, the decoder returns a terminated input sequence (its encoder ends in state 0) whose
  encoding disagrees with the received bits in the fewest non-erased positions among all
  terminated sequences of that length; the bound keeps the metrics below the code's infinity.\<close>

theorem viterbi_r14_optimal:
  assumes "length coded < 10 ^ 9" "length coded mod 4 = 0"
  shows "length (viterbi_r14 coded) = length coded div 4 \<and> run 0 (viterbi_r14 coded) = 0 \<and>
    (\<forall>vs. length vs = length coded div 4 \<and> run 0 vs = 0 \<longrightarrow>
       mismatches (conv_encode_r14 (viterbi_r14 coded)) coded \<le> mismatches (conv_encode_r14 vs) coded)"
proof -
  have l: "length coded = 4 * length vs" if "length vs = length coded div 4" for vs :: bits
    using that assms(2) by presburger
  show ?thesis
    using viterbi_best [OF assms(1)] path_cost_mismatches [OF l]
    unfolding conv_encode_r14_def by metis
qed

theorem viterbi_r14_optimal_witness:
  "mismatches (conv_encode_r14 (viterbi_r14 [Some True, None, None, None])) [Some True, None, None, None]
   \<le> mismatches (conv_encode_r14 [False]) [Some True, None, None, None]"
proof -
  have "length [Some True, None, None, None] < 10 ^ 9" "length [Some True, None, None, None] mod 4 = 0"
    by simp_all
  from viterbi_r14_optimal [OF this] show ?thesis
    by (auto simp: stage_zero dest!: spec [where x = "[False]"])
qed

text \<open>C16. The decoder corrects spaced errors: when the flipped positions of a punctured block are
  pairwise at least 11 apart, however many they are, depuncturing and decoding return exactly the
  transmitted sequence (any terminated input of even length).\<close>

theorem viterbi_corrects_spaced_errors:
  assumes "length us = 2 * k" "run 0 us = 0" "puncture_r23 (conv_encode_r14 us) = Inr tx"
    and "length e = length tx" "spaced 0 e" "8 * k < 10 ^ 9"
  shows "\<exists>m. depuncture_r23 (xor_bits tx e) (8 * k) = Inr m \<and> viterbi_r14 m = us"
proof -
  have tx: "tx = code_path 0 True us"
    using puncture_conv_encode [of us 0] assms(1,3) by (simp add: conv_encode_r14_def)
  then have "length tx = 3 * k" using assms(1) by (simp add: length_code_path)
  then have "depuncture_r23 (xor_bits tx e) (8 * k) = Inr (depunct8 (xor_bits tx e))"
    using assms(4) by (intro depuncture_r23_eq) simp
  moreover have "viterbi_r14 (depunct8 (xor_bits tx e)) = us"
    unfolding tx using assms(4) \<open>length tx = 3 * k\<close> tx
    by (intro viterbi_corrects [OF assms(1,2) _ assms(5) _ assms(6)]) simp_all
  ultimately show ?thesis by blast
qed

theorem viterbi_corrects_spaced_errors_witness:
  "\<exists>m. depuncture_r23 (xor_bits [False, False, False] [True, False, False]) 8 = Inr m \<and>
       viterbi_r14 m = [False, False]"
proof -
  have "puncture_r23 (conv_encode_r14 [False, False]) = Inr [False, False, False]"
    using puncture_conv_encode [of "[False, False]" 0]
    by (simp add: conv_encode_r14_def g_out_bits stage_zero)
  then show ?thesis
    using viterbi_corrects_spaced_errors [of "[False, False]" 1 "[False, False, False]" "[True, False, False]"]
    by (simp add: stage_zero)
qed

text \<open>The three scripts' rate-1/4 decoders are one function, and the whole of
  \<open>etsi_viterbi_decode_r23\<close> is depuncturing followed by it.\<close>

theorem viterbi_copies_agree:
  "etsi_viterbi_decode_r14_with_erasures coded = viterbi_r14 coded \<and>
   etsi_viterbi_decode_r23 bits23 =
     bind_res (depuncture_r23 bits23 ((length bits23 div 3) * 8)) (\<lambda>m. Inr (viterbi_r14 m)) \<and>
   etsi_depuncture_r23_bnch bits23 = etsi_depuncture_r23 bits23"
proof -
  have "etsi_viterbi_decode_r14_with_erasures m = viterbi_r14 m" for m
    by (simp only: etsi_viterbi_decode_r14_with_erasures_def viterbi_r14_def etsi_gens_def)
  then show ?thesis
    by (simp add: etsi_viterbi_decode_r23_def etsi_depuncture_copies mult.commute)
qed

end
