(* ===== verification/PyData.thy ===== *)
theory PyData
  imports Prelude
begin

unbundle bit_operations_syntax

text \<open>
  The Python data the parsers build: dictionaries in insertion order, whose values are integers,
  strings, bit slices and nested dictionaries, and the MSB-first field reader \<open>extract_bits\<close>
  that \<open>scripts/decode_dl.py\<close>, \<open>scripts/decode_sb.py\<close> and \<open>scripts/decode_bnch.py\<close> define alike.
\<close>

datatype pyval = VNone | VInt int | VBool bool | VStr string | VBits bits
  | VDict "(string \<times> pyval) list" | VList "pyval list"

type_synonym dict = "(string \<times> pyval) list"

text \<open>\<open>d[k] = v\<close> keeps the position of an existing key and appends a new one.\<close>

fun dset :: "string \<Rightarrow> pyval \<Rightarrow> dict \<Rightarrow> dict" where
  "dset k v [] = [(k, v)]"
| "dset k v ((k', v') # d) = (if k' = k then (k, v) # d else (k', v') # dset k v d)"

definition dget :: "dict \<Rightarrow> string \<Rightarrow> pyval option" where
  "dget d k = map_of d k"

text \<open>\<open>d.get(k, default)\<close>; a key that maps to \<open>None\<close> gives \<open>None\<close>.\<close>

definition dget_default :: "dict \<Rightarrow> string \<Rightarrow> pyval \<Rightarrow> pyval" where
  "dget_default d k v = (case map_of d k of None \<Rightarrow> v | Some x \<Rightarrow> x)"

text \<open>\<open>d.update(e)\<close>.\<close>

definition dupdate :: "dict \<Rightarrow> dict \<Rightarrow> dict" where
  "dupdate d e = fold (\<lambda>(k, v) d. dset k v d) e d"

lemma map_of_dset: "map_of (dset k v d) = (map_of d)(k \<mapsto> v)"
  by (induction d) (auto simp: fun_eq_iff)

lemma dget_dset [simp]: "dget (dset k v d) k' = (if k' = k then Some v else dget d k')"
  by (simp add: dget_def map_of_dset)

lemma dget_Nil [simp]: "dget [] k = None"
  by (simp add: dget_def)

lemma dget_Cons [simp]: "dget ((k', v) # d) k = (if k' = k then Some v else dget d k)"
  by (simp add: dget_def)

lemma dget_dupdate: "dget (dupdate d e) k = (case dget (rev e) k of None \<Rightarrow> dget d k | Some v \<Rightarrow> Some v)"
proof (induction e arbitrary: d)
  case (Cons p e)
  obtain k' v where p: "p = (k', v)" by (cases p)
  have "dget (rev e @ [(k', v)]) k = (case dget (rev e) k of None \<Rightarrow> if k' = k then Some v else None | Some v \<Rightarrow> Some v)"
    by (simp add: dget_def map_add_def split: option.split)
  then show ?case using Cons.IH [of "dset k' v d"] unfolding p dupdate_def
    by (simp split: option.split)
qed (simp add: dupdate_def)

lemma keys_dset: "fst ` set (dset k v d) = insert k (fst ` set d)"
proof (induction d)
  case (Cons p d)
  then show ?case by (cases p) (simp add: insert_commute insert_absorb2)
qed simp

lemma distinct_dset: "distinct (map fst d) \<Longrightarrow> distinct (map fst (dset k v d))"
  by (induction d) (auto simp: keys_dset)

subsection \<open>Reading a field\<close>

fun extract_loop :: "bits \<Rightarrow> nat \<Rightarrow> nat \<Rightarrow> int \<Rightarrow> int res" where
  "extract_loop bits pos 0 val = Inr val"
| "extract_loop bits pos (Suc n) val =
     (if pos < length bits
      then extract_loop bits (Suc pos) n (push_bit 1 val OR of_bool (bits ! pos))
      else Inl IndexError)"

definition extract_bits :: "bits \<Rightarrow> nat \<Rightarrow> nat \<Rightarrow> int res" where
  "extract_bits bits start n = extract_loop bits start n 0"

lemma push_or_bit: "push_bit 1 (v::int) OR of_bool b = 2 * v + of_bool b"
  using push_bit_or_add [of "of_bool b" 1 v] by (simp add: mult.commute)

lemma extract_loop_eq:
  "extract_loop bits pos n val =
   (if n = 0 \<or> pos + n \<le> length bits then Inr (bits_acc val (take n (drop pos bits)))
    else Inl IndexError)"
proof (induction n arbitrary: pos val)
  case (Suc n)
  show ?case
  proof (cases "pos < length bits")
    case True
    then have "drop pos bits = bits ! pos # drop (Suc pos) bits" by (rule Cons_nth_drop_Suc [symmetric])
    then show ?thesis
      using True Suc.IH [of "Suc pos"] by (auto simp: push_or_bit [simplified])
  qed simp
qed simp

lemma extract_bits_eq:
  "extract_bits bits start n =
   (if n = 0 \<or> start + n \<le> length bits then Inr (bits_val (take n (drop start bits)))
    else Inl IndexError)"
  by (simp add: extract_bits_def extract_loop_eq bits_val_def)

lemma extract_bits_ok: "start + n \<le> length bits \<Longrightarrow> extract_bits bits start n = Inr (bits_val (take n (drop start bits)))"
  by (simp add: extract_bits_eq)

lemma extract_bits_bounds: "extract_bits bits start n = Inr v \<Longrightarrow> 0 \<le> v \<and> v < 2 ^ n"
proof -
  assume a: "extract_bits bits start n = Inr v"
  then have v: "v = bits_val (take n (drop start bits))" by (simp add: extract_bits_eq split: if_splits)
  have "v < 2 ^ length (take n (drop start bits))" unfolding v by (rule bits_val_less)
  also have "\<dots> \<le> 2 ^ n" by (simp add: power_increasing)
  finally show ?thesis using v by simp
qed

text \<open>A dictionary literal whose entries are evaluated in order.\<close>

fun read_fields :: "bits \<Rightarrow> (string \<times> nat \<times> nat) list \<Rightarrow> dict res" where
  "read_fields bits [] = Inr []"
| "read_fields bits ((k, start, n) # fs) =
     bind_res (extract_bits bits start n)
       (\<lambda>v. bind_res (read_fields bits fs) (\<lambda>d. Inr ((k, VInt v) # d)))"

lemma read_fields_ok:
  "(\<forall>(k, s, n) \<in> set fs. s + n \<le> length bits) \<Longrightarrow>
   read_fields bits fs = Inr (map (\<lambda>(k, s, n). (k, VInt (bits_val (take n (drop s bits))))) fs)"
  by (induction fs) (auto simp: extract_bits_ok)

lemma read_fields_short:
  "\<exists>(k, s, n) \<in> set fs. 0 < n \<and> length bits < s + n \<Longrightarrow> read_fields bits fs = Inl IndexError"
proof (induction fs)
  case (Cons f fs)
  obtain k s n where f: "f = (k, s, n)" by (cases f)
  show ?case
  proof (cases "0 < n \<and> length bits < s + n")
    case True
    then show ?thesis by (simp add: f extract_bits_eq)
  next
    case False
    then have IH: "read_fields bits fs = Inl IndexError" using Cons f by auto
    show ?thesis by (auto simp: f IH extract_bits_eq)
  qed
qed simp

subsection \<open>Names and numbers as text\<close>

fun digits_loop :: "nat \<Rightarrow> nat \<Rightarrow> string" where
  "digits_loop 0 n = []"
| "digits_loop (Suc k) n =
     (if n < 10 then [char_of (48 + n)] else digits_loop k (n div 10) @ [char_of (48 + n mod 10)])"

text \<open>\<open>str(n)\<close> of an integer; \<open>n + 1\<close> digits are always enough.\<close>

definition str_int :: "int \<Rightarrow> string" where
  "str_int v = (if v < 0 then ''-'' else []) @ digits_loop (Suc (nat \<bar>v\<bar>)) (nat \<bar>v\<bar>)"

text \<open>Upper-case hexadecimal digits, as in \<open>f"{v:04X}"\<close>: at least \<open>w\<close> of them, zero-padded.\<close>

definition hex_digit :: "int \<Rightarrow> char" where
  "hex_digit v = (if v < 10 then char_of (48 + nat v) else char_of (55 + nat v))"

fun hex_loop :: "nat \<Rightarrow> int \<Rightarrow> string" where
  "hex_loop 0 v = []"
| "hex_loop (Suc k) v = (if v < 16 then [hex_digit v] else hex_loop k (v div 16) @ [hex_digit (v mod 16)])"

definition hex_upper :: "nat \<Rightarrow> int \<Rightarrow> string" where
  "hex_upper w v =
     (let s = hex_loop (Suc (nat v)) v in replicate (w - length s) (CHR ''0'') @ s)"

text \<open>\<open>NAMES.get(k, default)\<close> of a table of names.\<close>

definition name_of :: "(int \<times> string) list \<Rightarrow> string \<Rightarrow> int \<Rightarrow> pyval" where
  "name_of names dflt k = VStr (case map_of names k of None \<Rightarrow> dflt | Some n \<Rightarrow> n)"

definition unknown_name :: "int \<Rightarrow> string" where
  "unknown_name v = ''Unknown('' @ str_int v @ '')''"

lemma name_of_simps [simp]:
  "name_of [] d k = VStr d"
  "name_of ((k', n) # ns) d k = (if k' = k then VStr n else name_of ns d k)"
  by (simp_all add: name_of_def)

end
