(* ===== verification/SyncPdu.thy ===== *)
theory SyncPdu
  imports PyData
begin

unbundle bit_operations_syntax

text \<open>
  The SYNC PDU of the BSCH: \<open>build_pdu\<close> of \<open>scripts/verify_sb1_encoder.py\<close> writes it, and
  \<open>parse_sysinfo_sb\<close> of \<open>scripts/decode_dl.py\<close> and \<open>parse_sysinfo\<close> of \<open>scripts/decode_sb.py\<close>
  read it; \<open>sync_to_air\<close> hands its time fields to the network time, and \<open>_cell_matches\<close> filters
  acquisition on its identity fields.
\<close>

record sync_cfg =
  system_code :: int
  colour_code :: int
  sharing_mode :: int
  ts_reserved_frames :: int
  u_plane :: int
  frame_18_ext :: int
  cfg_mcc :: int
  cfg_mnc :: int
  ncb :: int
  csl :: int
  late_entry :: int

definition build_pdu :: "sync_cfg \<Rightarrow> int \<Rightarrow> int \<Rightarrow> int \<Rightarrow> bits res" where
  "build_pdu cfg timeslot frame multiframe =
     (let bits =
        to_bits 4 (system_code cfg) @ to_bits 6 (colour_code cfg) @ to_bits 2 timeslot @
        to_bits 5 frame @ to_bits 6 multiframe @ to_bits 2 (sharing_mode cfg) @
        to_bits 3 (ts_reserved_frames cfg) @ to_bits 1 (u_plane cfg) @ to_bits 1 (frame_18_ext cfg) @
        to_bits 1 0 @ to_bits 10 (cfg_mcc cfg) @ to_bits 14 (cfg_mnc cfg) @ to_bits 2 (ncb cfg) @
        to_bits 2 (csl cfg) @ to_bits 1 (late_entry cfg)
      in assert_res (length bits = 60) (Inr bits))"

definition CFG :: sync_cfg where
  "CFG = \<lparr>system_code = 2, colour_code = 49, sharing_mode = 0, ts_reserved_frames = 0, u_plane = 0,
          frame_18_ext = 1, cfg_mcc = 901, cfg_mnc = 9998, ncb = 3, csl = 0, late_entry = 1\<rparr>"

definition parse_sysinfo_sb :: "bits \<Rightarrow> dict res" where
  "parse_sysinfo_sb bits60 =
     bind_res (extract_bits bits60 0 4) (\<lambda>sync_type.
       if sync_type < 8 then
         bind_res (read_fields bits60
           [(''ColourCode'', 4, 6), (''TimeSlot'', 10, 2), (''Frame'', 12, 5), (''MultiFrame'', 17, 6),
            (''SharingMode'', 23, 2), (''TSReserved'', 25, 3), (''UplaneDTX'', 28, 1),
            (''Frame18Ext'', 29, 1), (''Reserved'', 30, 1), (''MCC'', 31, 10), (''MNC'', 41, 14),
            (''NeighCellBc'', 55, 2), (''CellSvcLvl'', 57, 2), (''LateEntry'', 59, 1)])
           (\<lambda>d. Inr ([(''Mode'', VStr ''TMO''), (''SystemCode'', VInt sync_type),
                       (''Sync_PDU_type'', VInt sync_type)] @ d))
       else
         bind_res (read_fields bits60
           [(''ColourCode'', 4, 6), (''TimeSlot'', 10, 2), (''Frame'', 12, 5),
            (''AirInterfaceEnc'', 17, 2), (''MNI'', 19, 24), (''SourceAddress'', 43, 17)])
           (\<lambda>d. Inr ([(''Mode'', VStr ''DMO''), (''Sync_PDU_type'', VInt sync_type),
                       (''SystemCode'', VInt sync_type)] @ d)))"

definition parse_sysinfo :: "bits \<Rightarrow> dict option res" where
  "parse_sysinfo bits =
     (if length bits < 60 then Inr None
      else bind_res (read_fields bits
        [(''SystemCode'', 0, 4), (''ColorCode'', 4, 6), (''TimeSlot'', 10, 2), (''Frame'', 12, 5),
         (''MultiFrame'', 17, 6), (''SharingMode'', 23, 2), (''TSReservedFrames'', 25, 3),
         (''UPlaneDTX'', 28, 1), (''Frame18Extension'', 29, 1), (''Reserved'', 30, 1),
         (''MCC'', 31, 10), (''MNC'', 41, 14), (''NeighbourCellBroadcast'', 55, 2),
         (''CellServiceLevel'', 57, 2), (''LateEntryInfo'', 59, 1)]) (\<lambda>d. Inr (Some d)))"

definition sync_to_air :: "dict \<Rightarrow> pyval \<times> pyval \<times> pyval" where
  "sync_to_air sysinfo =
     (dget_default sysinfo ''TimeSlot'' (VInt 0), dget_default sysinfo ''Frame'' (VInt 0),
      dget_default sysinfo ''MultiFrame'' (VInt 0))"

text \<open>\<open>want\<close> arguments that are \<open>None\<close> do not filter; a missing field compares as \<open>None\<close>.\<close>

definition cell_matches :: "dict \<Rightarrow> int option \<Rightarrow> int option \<Rightarrow> int option \<Rightarrow> bool" where
  "cell_matches si want_mcc want_mnc want_cc =
     (if want_mcc = None \<and> want_mnc = None \<and> want_cc = None then True
      else if dget si ''Mode'' \<noteq> Some (VStr ''TMO'') then False
      else if want_mcc \<noteq> None \<and> dget si ''MCC'' \<noteq> map_option VInt want_mcc then False
      else if want_mnc \<noteq> None \<and> dget si ''MNC'' \<noteq> map_option VInt want_mnc then False
      else if want_cc \<noteq> None \<and> dget si ''ColourCode'' \<noteq> map_option VInt want_cc then False
      else True)"

subsection \<open>Reading what was written\<close>

lemma length_build_pdu: "build_pdu cfg tn fn mn = Inr bs \<Longrightarrow> length bs = 60"
  by (auto simp: build_pdu_def Let_def assert_res_def split: if_splits)

lemma build_pdu_total: "\<exists>bs. build_pdu cfg tn fn mn = Inr bs \<and> length bs = 60"
  by (simp add: build_pdu_def Let_def)

text \<open>The SYNC PDU round trip: for every configuration and slot whose fields fit their widths
  and whose system code is a TMO one, \<open>build_pdu\<close> returns 60 bits from which
  \<open>parse_sysinfo_sb\<close> recovers every field.\<close>

theorem sync_pdu_roundtrip:
  assumes "0 \<le> system_code cfg" "system_code cfg < 8" "0 \<le> colour_code cfg" "colour_code cfg < 64"
    and "0 \<le> tn" "tn < 4" "0 \<le> fn" "fn < 32" "0 \<le> mn" "mn < 64"
    and "0 \<le> cfg_mcc cfg" "cfg_mcc cfg < 1024" "0 \<le> cfg_mnc cfg" "cfg_mnc cfg < 16384"
  shows "\<exists>bs d. build_pdu cfg tn fn mn = Inr bs \<and> length bs = 60 \<and> parse_sysinfo_sb bs = Inr d \<and>
    dget d ''Mode'' = Some (VStr ''TMO'') \<and> dget d ''SystemCode'' = Some (VInt (system_code cfg)) \<and>
    dget d ''ColourCode'' = Some (VInt (colour_code cfg)) \<and>
    dget d ''MCC'' = Some (VInt (cfg_mcc cfg)) \<and> dget d ''MNC'' = Some (VInt (cfg_mnc cfg)) \<and>
    dget d ''LateEntry'' = Some (VInt (late_entry cfg mod 2)) \<and>
    sync_to_air d = (VInt tn, VInt fn, VInt mn) \<and>
    cell_matches d (Some (cfg_mcc cfg)) (Some (cfg_mnc cfg)) (Some (colour_code cfg))"
proof -
  obtain bs where bs: "build_pdu cfg tn fn mn = Inr bs" "length bs = 60"
    using build_pdu_total by blast
  let ?v = "\<lambda>s n. bits_val (take n (drop s bs))"
  have f: "?v 0 4 = system_code cfg" "?v 4 6 = colour_code cfg" "?v 10 2 = tn" "?v 12 5 = fn"
    "?v 17 6 = mn" "?v 31 10 = cfg_mcc cfg" "?v 41 14 = cfg_mnc cfg" "?v 59 1 = late_entry cfg mod 2"
    using bs assms
    by (auto simp: build_pdu_def Let_def bits_val_to_bits take_bit_eq_mod)
  have "parse_sysinfo_sb bs = Inr ([(''Mode'', VStr ''TMO''), (''SystemCode'', VInt (system_code cfg)),
     (''Sync_PDU_type'', VInt (system_code cfg)), (''ColourCode'', VInt (?v 4 6)),
     (''TimeSlot'', VInt (?v 10 2)), (''Frame'', VInt (?v 12 5)), (''MultiFrame'', VInt (?v 17 6)),
     (''SharingMode'', VInt (?v 23 2)), (''TSReserved'', VInt (?v 25 3)), (''UplaneDTX'', VInt (?v 28 1)),
     (''Frame18Ext'', VInt (?v 29 1)), (''Reserved'', VInt (?v 30 1)), (''MCC'', VInt (?v 31 10)),
     (''MNC'', VInt (?v 41 14)), (''NeighCellBc'', VInt (?v 55 2)), (''CellSvcLvl'', VInt (?v 57 2)),
     (''LateEntry'', VInt (?v 59 1))])"
    using bs(2) assms(2) f(1) by (simp add: parse_sysinfo_sb_def extract_bits_ok)
  then show ?thesis
    using bs f by (simp add: sync_to_air_def dget_default_def cell_matches_def)
qed

theorem sync_pdu_roundtrip_witness:
  "\<exists>bs d. build_pdu CFG 1 18 3 = Inr bs \<and> parse_sysinfo_sb bs = Inr d \<and>
     dget d ''MNC'' = Some (VInt 9998)"
  using sync_pdu_roundtrip [of CFG 1 18 3] by (fastforce simp: CFG_def)

text \<open>Only TMO beacons of the wanted cell pass acquisition: with any filter set, a parsed SYNC
  PDU that matches is a TMO one (its system code is below 8) and agrees on every wanted identity;
  with no filter every beacon matches.\<close>

theorem cell_matches_sound:
  assumes "parse_sysinfo_sb bs = Inr d" "cell_matches d m n c"
  shows "(m = None \<and> n = None \<and> c = None) \<or>
    ((\<exists>s. extract_bits bs 0 4 = Inr s \<and> s < 8) \<and> dget d ''Mode'' = Some (VStr ''TMO'') \<and>
     (\<forall>x. m = Some x \<longrightarrow> dget d ''MCC'' = Some (VInt x)) \<and>
     (\<forall>x. n = Some x \<longrightarrow> dget d ''MNC'' = Some (VInt x)) \<and>
     (\<forall>x. c = Some x \<longrightarrow> dget d ''ColourCode'' = Some (VInt x)))"
proof (cases "m = None \<and> n = None \<and> c = None")
  case False
  then have mode: "dget d ''Mode'' = Some (VStr ''TMO'')"
    using assms(2) by (auto simp: cell_matches_def split: if_splits)
  obtain s where s: "extract_bits bs 0 4 = Inr s"
    using assms(1) unfolding parse_sysinfo_sb_def by (cases "extract_bits bs 0 4") auto
  have "s < 8"
  proof (rule ccontr)
    assume "\<not> s < 8"
    then obtain e where "d = [(''Mode'', VStr ''DMO''), (''Sync_PDU_type'', VInt s),
                       (''SystemCode'', VInt s)] @ e"
      using assms(1) s unfolding parse_sysinfo_sb_def
      by (auto simp: bind_res_def split: sum.splits)
    with mode show False by simp
  qed
  then show ?thesis using assms(2) mode s False by (auto simp: cell_matches_def split: if_splits)
qed simp

theorem cell_matches_sound_witness:
  "\<exists>d. parse_sysinfo_sb (replicate 60 False) = Inr d \<and> dget d ''MCC'' = Some (VInt 0)"
proof -
  have p: "\<exists>d. parse_sysinfo_sb (replicate 60 False) = Inr d \<and> cell_matches d (Some 0) None None"
    by (simp add: parse_sysinfo_sb_def extract_bits_ok bits_val_def cell_matches_def eval_nat_numeral)
  then show ?thesis using cell_matches_sound [of "replicate 60 False" _ "Some 0" None None] by auto
qed

end
