(* ===== verification/Channel.thy ===== *)
theory Channel
  imports Scrambler Crc Interleaver Viterbi SyncPdu
begin

unbundle bit_operations_syntax

text \<open>
  The channel codec of the logical channels.

  \<^item> encoders: \<open>sw_encode_bsch\<close> and \<open>rtl_encode_bsch\<close> of \<open>scripts/verify_sb1_encoder.py\<close> (BSCH),
    \<open>encode_sch_hd\<close>, \<open>encode_sch_f\<close>, \<open>encode_sch_hu\<close> of the generators, and
    \<open>build_d_nwrk_type5\<close> of \<open>scripts/gen_d_nwrk_broadcast.py\<close>;
  \<^item> decoder: \<open>decode_channel\<close> of \<open>scripts/decode_dl.py\<close>, after descrambling; the BSCH path
    \<open>_try_decode_bsch\<close> of \<open>scripts/decode_bnch.py\<close> from dibits.

  The locale \<open>signalling_channel\<close> extends the interleaver's interface by the encoder's shape.  In
  it the end-to-end theorem is proved once: whatever the information bits and the seed, a block
  whose errors are at least 11 apart after deinterleaving is decoded to exactly what was sent, and
  a burst of up to 10 consecutive air bits is such a pattern.
\<close>

subsection \<open>Encoders\<close>

definition encode_sch_f :: "bits \<Rightarrow> int \<Rightarrow> bits res" where
  "encode_sch_f info_bits scramble_init =
     assert_res (length info_bits = 268) (
     let type2 = crc16 info_bits in
     assert_res (length type2 = 284) (
     let type3 = type2 @ [False, False, False, False] in
     assert_res (length type3 = 288) (
     let mother = conv_encode_r14 type3 in
     assert_res (length mother = 1152) (
     bind_res (puncture_r23 mother) (\<lambda>type4.
     assert_res (length type4 = 432) (
     bind_res (interleave_sch_f type4) (\<lambda>typeI.
     Inr (scramble_with_init typeI scramble_init))))))))"

definition encode_sch_hd :: "bits \<Rightarrow> int \<Rightarrow> bits res" where
  "encode_sch_hd info_bits scramble_init =
     assert_res (length info_bits = 124) (
     let type2 = crc16 info_bits;
         type3 = type2 @ [False, False, False, False] in
     assert_res (length type3 = 144) (
     let mother = conv_encode_r14 type3 in
     assert_res (length mother = 576) (
     bind_res (puncture_r23 mother) (\<lambda>type4.
     assert_res (length type4 = 216) (
     bind_res (interleave_sch_hd type4) (\<lambda>typeI.
     Inr (scramble_with_init_hd typeI scramble_init)))))))"

definition encode_sch_hu :: "bits \<Rightarrow> int \<Rightarrow> bits res" where
  "encode_sch_hu info_bits scramb_init =
     assert_res (length info_bits = 92) (
     let crc_bits = append_fcs info_bits;
         with_tail = crc_bits @ replicate 4 False;
         mother = conv_encode_r14_hu with_tail;
         type4 = puncture_r23_hu mother in
     assert_res (length type4 = 168) (
     bind_res (interleave_a13 type4) (\<lambda>type5_preinter.
     Inr (scramble_hu type5_preinter scramb_init))))"

text \<open>The chain of \<open>sw_encode_bsch\<close> after the PDU is built.\<close>

definition bsch_type5 :: "bits \<Rightarrow> bits res" where
  "bsch_type5 pdu =
     (let type2 = crc16 pdu;
          type3 = type2 @ [False, False, False, False] in
      assert_res (length type3 = 80) (
      let mother = conv_encode_r14 type3 in
      assert_res (length mother = 320) (
      bind_res (puncture_r23 mother) (\<lambda>type4.
      assert_res (length type4 = 120) (
      bind_res (interleave_bsch type4) (\<lambda>type4i.
      Inr (scramble_bsch type4i)))))))"

definition sw_encode_bsch :: "sync_cfg \<Rightarrow> int \<Rightarrow> int \<Rightarrow> int \<Rightarrow> bits res" where
  "sw_encode_bsch cfg timeslot frame multiframe =
     bind_res (build_pdu cfg timeslot frame multiframe) bsch_type5"

definition rtl_encode_bsch :: "sync_cfg \<Rightarrow> int \<Rightarrow> int \<Rightarrow> int \<Rightarrow> bits res" where
  "rtl_encode_bsch cfg timeslot frame multiframe =
     bind_res (build_pdu cfg timeslot frame multiframe) (\<lambda>pdu.
     let crc = foldl crc_step_msb 0xFFFF pdu;
         crc_inv = crc XOR 0xFFFF;
         type3_bits = pdu @ map (\<lambda>i. bit crc_inv (15 - i)) [0..<16] @ [False, False, False, False] in
     assert_res (length type3_bits = 80) (
     bind_res (rcpc_inline_loop 0 0 0 (replicate 120 False) (take 80 type3_bits)) (\<lambda>(rcpc_out, rcpc_idx).
     assert_res (rcpc_idx = 120) (
     bind_res (interleave_bsch rcpc_out) (\<lambda>type4i.
     Inr (scramble_bsch type4i))))))"

definition build_d_nwrk_type5 :: "bits \<Rightarrow> int \<Rightarrow> int \<Rightarrow> int \<Rightarrow> bits res" where
  "build_d_nwrk_type5 info124 cc mcc mnc =
     (let info_bits = info124;
          crc = tetra_crc16 info_bits;
          type2 = info_bits @ crc @ [False, False, False, False] in
      assert_res (length type2 = 144) (
      let type3 = conv_encode_k5 type2 in
      assert_res (length type3 = 288) (
      let type4 = interleave_dnwrk type3 11 in
      assert_res (length type4 = 288) (
      Inr (cell_scramble type4 mcc mnc cc)))))"

subsection \<open>Decoder\<close>

definition decode_channel :: "bits \<Rightarrow> nat \<Rightarrow> nat \<Rightarrow> nat \<Rightarrow> (bool \<times> bits \<times> bits) res" where
  "decode_channel type5_bits K a info_bits_len =
     bind_res (deinterleave_perm type5_bits K a) (\<lambda>type4.
     let mother_len = (length type4 div 3) * 8 in
     bind_res (depuncture_r23 type4 mother_len) (\<lambda>type3.
     let decoded = viterbi_r14 type3;
         crc_len = info_bits_len + 16;
         info_crc = take crc_len decoded;
         crc_ok = crc16_check_dll info_crc
     in Inr (crc_ok, take info_bits_len info_crc, decoded)))"

definition dibits_to_bits :: "nat list \<Rightarrow> bits" where
  "dibits_to_bits dibits = concat (map (\<lambda>d. [bit d 1, bit d 0]) dibits)"

subsection \<open>Errors on the air\<close>

definition burst :: "nat \<Rightarrow> bits \<Rightarrow> bool" where
  "burst n e \<longleftrightarrow> (\<exists>s. \<forall>i < length e. e ! i \<longrightarrow> s \<le> i \<and> i < s + n)"

definition apart :: "nat \<Rightarrow> bits \<Rightarrow> bool" where
  "apart n e \<longleftrightarrow> (\<forall>i j. i < j \<and> j < length e \<and> e ! i \<and> e ! j \<longrightarrow> n \<le> j - i)"

lemma spaced_if_apart:
  "\<forall>i < length e. e ! i \<longrightarrow> t \<le> i \<Longrightarrow> apart 11 e \<Longrightarrow> spaced t e"
proof (induction e arbitrary: t)
  case (Cons x e)
  have ap: "apart 11 e"
    using Cons.prems(2) unfolding apart_def by (metis Suc_less_eq diff_Suc_Suc length_Cons nth_Cons_Suc)
  show ?case
  proof (cases x)
    case True
    have "\<forall>i < length e. e ! i \<longrightarrow> 10 \<le> i"
    proof (intro allI impI)
      fix i assume "i < length e" "e ! i"
      then have "11 \<le> Suc i - 0"
        using Cons.prems(2) True unfolding apart_def by (metis Suc_less_eq length_Cons nth_Cons_0 nth_Cons_Suc zero_less_Suc)
      then show "10 \<le> i" by simp
    qed
    moreover have "t = 0" using Cons.prems(1) True by force
    ultimately show ?thesis using Cons.IH [of 10] ap True by simp
  next
    case False
    have "\<forall>i < length e. e ! i \<longrightarrow> t - 1 \<le> i" using Cons.prems(1) by fastforce
    then show ?thesis using Cons.IH [of "t - 1"] ap False by simp
  qed
qed simp

lemma apart_spaced: "apart 11 e \<Longrightarrow> spaced 0 e"
  by (rule spaced_if_apart) simp_all

text \<open>The interleaver's step keeps neighbours within 10 positions at least 10 air positions apart,
  also around the end of the block.\<close>

definition spreads :: "nat \<Rightarrow> nat \<Rightarrow> bool" where
  "spreads N a \<longleftrightarrow> list_all (\<lambda>d. 10 \<le> (a * d) mod N \<and> (a * d) mod N + 10 \<le> N) [1..<11]"

lemma burst_apart:
  assumes "spreads N a" "length e = N" "burst 10 e"
  shows "apart 11 (map (\<lambda>i. e ! mult_pos N a i) [0..<N])"
  unfolding apart_def
proof (intro allI impI)
  fix i j
  let ?e = "map (\<lambda>i. e ! mult_pos N a i) [0..<N]"
  assume a: "i < j \<and> j < length ?e \<and> ?e ! i \<and> ?e ! j"
  let ?p = "mult_pos N a i" and ?q = "mult_pos N a j"
  have N: "0 < N" using a by auto
  have pq: "?p < N" "?q < N" using N by (simp_all add: mult_pos_less)
  from a have e: "e ! ?p" "e ! ?q" by auto
  obtain s where s: "\<forall>i < length e. e ! i \<longrightarrow> s \<le> i \<and> i < s + 10"
    using assms(3) unfolding burst_def by blast
  have "s \<le> ?p \<and> ?p < s + 10" "s \<le> ?q \<and> ?q < s + 10" using s e pq assms(2) by blast+
  then have near: "?q < ?p + 10" "?p < ?q + 10" by linarith+
  show "11 \<le> j - i"
  proof (rule ccontr)
    assume "\<not> 11 \<le> j - i"
    then have "j - i \<in> set [1..<11]" using a by auto
    then have d: "10 \<le> (a * (j - i)) mod N" "(a * (j - i)) mod N + 10 \<le> N"
      using assms(1) unfolding spreads_def by (auto simp: list_all_iff)
    let ?d = "(a * (j - i)) mod N"
    have "Suc j = Suc i + (j - i)" using a by simp
    then have "a * Suc j = a * Suc i + a * (j - i)" by (metis distrib_left)
    then have "?q = (?p + ?d) mod N" unfolding mult_pos_def by (metis mod_add_eq)
    moreover have "(x + y) mod N = (if x + y < N then x + y else x + y - N)" if "x < N" "y < N" for x y
      using that by (simp add: le_mod_geq)
    moreover have "?d < N" using N by simp
    ultimately have "?q = (if ?p + ?d < N then ?p + ?d else ?p + ?d - N)" using pq(1) by metis
    then show False using near d pq by (simp split: if_splits)
  qed
qed

subsection \<open>The interface of a signalling channel\<close>

locale signalling_channel =
  block_interleaver N ilv "\<lambda>bs. deinterleave_perm bs N a" "mult_pos N a"
  for N a :: nat and ilv :: "bits \<Rightarrow> bits res" +
  fixes info_len :: nat and good_seed :: "int \<Rightarrow> bool" and encode :: "bits \<Rightarrow> int \<Rightarrow> bits res"
  assumes shape: "2 * N = 3 * (info_len + 20)" and even_len: "even info_len"
    and small: "N < 10 ^ 8" and spread: "spreads N a"
    and encode_eq: "length info = info_len \<Longrightarrow> good_seed init \<Longrightarrow>
      encode info init =
        bind_res (ilv (code_path 0 True (crc16 info @ [False, False, False, False])))
          (\<lambda>t. Inr (dl_ks.mask_with init t))"
begin

lemma tail_run: "run 0 (info @ [False, False, False, False]) = 0"
proof -
  have "run st [False, False, False, False] = 0" if "st < 16" for st
  proof -
    have "next_state (next_state (next_state (next_state st False) False) False) False = (16 * st) mod 16"
      by (simp add: next_state_eq mod_mult_right_eq mod_mult_left_eq)
    then show ?thesis by simp
  qed
  moreover have "run 0 info < 16" by (rule r14.run_less) simp
  moreover have "run st (xs @ ys) = run (run st xs) ys" for st xs ys
    by (induction xs arbitrary: st) simp_all
  ultimately show ?thesis by simp
qed

text \<open>Clean blocks, spaced errors and bursts are decoded to what was sent.\<close>

lemma decode_encode:
  assumes "length info = info_len" "good_seed init" "length e = N"
    and "apart 11 (map (\<lambda>i. e ! mult_pos N a i) [0..<N])"
  obtains t5 where "encode info init = Inr t5" "length t5 = N"
    "decode_channel (descramble_hard (xor_bits t5 e) init N) N a info_len =
     Inr (True, info, crc16 info @ [False, False, False, False])"
proof -
  let ?us = "crc16 info @ [False, False, False, False]"
  let ?c = "code_path 0 True ?us"
  define k where "k = (info_len + 20) div 2"
  have k: "info_len + 20 = 2 * k" "N = 3 * k" using even_len shape by (auto simp: k_def)
  have us: "length ?us = 2 * k" using assms(1) k by simp
  then have c: "length ?c = N" using k by (simp add: length_code_path)
  from dil_ilv [OF c] obtain y where y: "ilv ?c = Inr y" "length y = N"
    "deinterleave_perm y N a = Inr ?c" by blast
  let ?t5 = "dl_ks.mask_with init y"
  have enc: "encode info init = Inr ?t5" using encode_eq [OF assms(1,2)] y by simp
  have lt: "length ?t5 = N" using y by (simp add: dl_ks.mask_length)
  have descr: "descramble_hard (xor_bits ?t5 e) init N = xor_bits y e"
    using lt assms(3) y(2) by (simp add: descramble_hard_mask dl_ks.mask_xor dl_ks.mask_mask)
  let ?e = "map (\<lambda>i. e ! mult_pos N a i) [0..<N]"
  have de: "deinterleave_perm (xor_bits y e) N a = Inr (xor_bits ?c ?e)"
    by (rule dil_xor) (use y assms(3) in \<open>simp_all add: deinterleave_perm_eq\<close>)
  have "depuncture_r23 (xor_bits ?c ?e) (8 * k) = Inr (depunct8 (xor_bits ?c ?e))"
    using c k by (intro depuncture_r23_eq) simp
  moreover have "viterbi_r14 (depunct8 (xor_bits ?c ?e)) = ?us"
    by (rule viterbi_corrects [OF us tail_run _ apart_spaced [OF assms(4)]]) (use k small in simp_all)
  moreover have "length (xor_bits ?c ?e) div 3 * 8 = 8 * k"
    using c k by (simp only: length_xor_bits length_map length_upt) simp
  moreover have "take (info_len + 16) ?us = crc16 info" "take info_len (crc16 info) = info"
    using assms(1) by (simp, metis take_crc16)
  ultimately have "decode_channel (descramble_hard (xor_bits ?t5 e) init N) N a info_len =
     Inr (True, info, ?us)"
    unfolding decode_channel_def descr de bind_res_simps Let_def by (simp only: bind_res_simps crc16_accepted)
  with enc lt show thesis by (rule that)
qed

lemma decode_burst:
  assumes "length info = info_len" "good_seed init" "length e = N" "burst 10 e"
  shows "\<exists>t5. encode info init = Inr t5 \<and> length t5 = N \<and>
    decode_channel (descramble_hard (xor_bits t5 e) init N) N a info_len =
     Inr (True, info, crc16 info @ [False, False, False, False])"
  using decode_encode [OF assms(1-3) burst_apart [OF spread assms(3,4)]] by blast

lemma decode_clean:
  assumes "length info = info_len" "good_seed init"
  shows "\<exists>t5. encode info init = Inr t5 \<and> length t5 = N \<and>
    decode_channel (descramble_hard t5 init N) N a info_len =
     Inr (True, info, crc16 info @ [False, False, False, False])"
proof -
  have b: "burst 10 (replicate N False)" by (simp add: burst_def)
  have l: "length (replicate N False) = N" by simp
  from decode_burst [OF assms l b] obtain t5 where t5: "encode info init = Inr t5" "length t5 = N"
    "decode_channel (descramble_hard (xor_bits t5 (replicate N False)) init N) N a info_len =
     Inr (True, info, crc16 info @ [False, False, False, False])" by blast
  have "xor_bits t5 (replicate N False) = t5" using t5(2) by (intro nth_equalityI) simp_all
  with t5 show ?thesis by simp
qed

end

subsection \<open>The four channels\<close>

definition nonzero_seed :: "int \<Rightarrow> bool" where
  "nonzero_seed init \<longleftrightarrow> init mod 2 ^ 32 \<noteq> 0"

lemma nonzero_seed_word: "nonzero_seed init \<Longrightarrow> (word_of_int init :: 32 word) \<noteq> 0"
proof
  assume s: "nonzero_seed init" and "(word_of_int init :: 32 word) = 0"
  then have "take_bit LENGTH(32) init = 0" by (metis uint_0_eq uint_word_of_int_eq)
  then show False using s by (simp add: nonzero_seed_def take_bit_eq_mod)
qed

lemma tail_path:
  assumes "length info = n" "even n"
  shows "puncture_r23 (conv_encode_r14 (crc16 info @ [False, False, False, False])) =
      Inr (code_path 0 True (crc16 info @ [False, False, False, False]))"
    and "length (conv_encode_r14 (crc16 info @ [False, False, False, False])) = 4 * (n + 20)"
    and "length (code_path 0 True (crc16 info @ [False, False, False, False])) = n + 20 + (n + 20) div 2"
  using assms by (simp_all add: conv_encode_r14_def puncture_conv_encode length_code_path) presburger

lemma sch_f_channel: "signalling_channel 432 103 interleave_sch_f 268 nonzero_seed encode_sch_f"
proof
  show "encode_sch_f info init =
      bind_res (interleave_sch_f (code_path 0 True (crc16 info @ [False, False, False, False])))
        (\<lambda>t. Inr (dl_ks.mask_with init t))" if "length info = 268" "nonzero_seed init" for info init
    using that tail_path [OF that(1)]
    by (simp add: encode_sch_f_def Let_def scramble_with_init_stream nonzero_seed_word)
  show "spreads 432 103" by code_simp
qed simp_all

lemma sch_hd_channel: "signalling_channel 216 101 interleave_sch_hd 124 nonzero_seed encode_sch_hd"
proof
  show "encode_sch_hd info init =
      bind_res (interleave_sch_hd (code_path 0 True (crc16 info @ [False, False, False, False])))
        (\<lambda>t. Inr (dl_ks.mask_with init t))" if "length info = 124" "nonzero_seed init" for info init
    using that tail_path [OF that(1)]
    by (simp add: encode_sch_hd_def Let_def scramble_with_init_stream nonzero_seed_word
        scramble_with_init_hd_eq)
  show "spreads 216 101" by code_simp
qed simp_all

lemma sch_hu_channel: "signalling_channel 168 13 interleave_a13 92 (\<lambda>_. True) encode_sch_hu"
proof
  show "encode_sch_hu info init =
      bind_res (interleave_a13 (code_path 0 True (crc16 info @ [False, False, False, False])))
        (\<lambda>t. Inr (dl_ks.mask_with init t))" if "length info = 92" for info init
  proof -
    let ?us = "crc16 info @ [False, False, False, False]"
    have "puncture_r23_hu (conv_encode_r14_hu ?us) = code_path 0 True ?us"
      using that by (simp add: conv_encode_r14_hu_def conv_encode_hu_eq puncture_hu_conv_encode)
    moreover have len: "length (code_path 0 True ?us) = 168" using tail_path(3) [OF that] by simp
    moreover have "append_fcs info @ replicate 4 False = ?us"
      by (simp add: append_fcs_eq numeral_eq_Suc)
    moreover obtain y where "interleave_a13 (code_path 0 True ?us) = Inr y" "length y = 168"
      using hu_ilv.ilv_total [OF len] by blast
    ultimately show ?thesis
      using that unfolding encode_sch_hu_def Let_def by (simp add: scramble_hu_mask)
  qed
  show "spreads 168 13" by code_simp
qed simp_all

lemma bsch_channel:
  "signalling_channel 120 11 interleave_bsch 60 (\<lambda>init. init = 3) (\<lambda>pdu init. bsch_type5 pdu)"
proof
  show "bsch_type5 info =
      bind_res (interleave_bsch (code_path 0 True (crc16 info @ [False, False, False, False])))
        (\<lambda>t. Inr (dl_ks.mask_with init t))" if "length info = 60" "init = 3" for info init
    using that tail_path [OF that(1)]
    by (simp add: bsch_type5_def Let_def scramble_bsch_stream)
  show "spreads 120 11" by code_simp
qed simp_all

interpretation sch_f: signalling_channel 432 103 interleave_sch_f 268 nonzero_seed encode_sch_f
  by (rule sch_f_channel)

interpretation sch_hd: signalling_channel 216 101 interleave_sch_hd 124 nonzero_seed encode_sch_hd
  by (rule sch_hd_channel)

interpretation sch_hu: signalling_channel 168 13 interleave_a13 92 "\<lambda>_. True" encode_sch_hu
  by (rule sch_hu_channel)

interpretation bsch: signalling_channel 120 11 interleave_bsch 60 "\<lambda>init. init = 3" "\<lambda>pdu init. bsch_type5 pdu"
  by (rule bsch_channel)

subsection \<open>Properties\<close>

text \<open>C1. End to end on SCH/F: for every 268 information bits, every cell seed that is not zero
  modulo 2^32 and every burst of up to 10 consecutive flipped air bits, descrambling,
  deinterleaving, depuncturing, Viterbi decoding and the CRC check return \<open>crc_ok\<close> and exactly the
  information bits that \<open>encode_sch_f\<close> was given.\<close>

theorem sch_f_burst_corrected:
  assumes "length info = 268" "nonzero_seed init" "length e = 432" "burst 10 e"
  shows "\<exists>t5. encode_sch_f info init = Inr t5 \<and> length t5 = 432 \<and>
    decode_channel (descramble_hard (xor_bits t5 e) init 432) 432 103 268 =
      Inr (True, info, crc16 info @ [False, False, False, False])"
  by (rule sch_f.decode_burst [OF assms])

theorem sch_f_burst_corrected_witness:
  "\<exists>t5. encode_sch_f (replicate 268 True) 3 = Inr t5 \<and>
    decode_channel (descramble_hard (xor_bits t5 (replicate 10 True @ replicate 422 False)) 3 432) 432 103 268 =
      Inr (True, replicate 268 True, crc16 (replicate 268 True) @ [False, False, False, False])"
proof -
  have "burst 10 (replicate 10 True @ replicate 422 False)"
    by (auto simp: burst_def nth_append intro!: exI [of _ 0])
  then show ?thesis
    using sch_f_burst_corrected [of "replicate 268 True" 3 "replicate 10 True @ replicate 422 False"]
    by (auto simp: nonzero_seed_def)
qed

text \<open>The same on SCH/HD and, for any seed at all, on SCH/HU (whose encoder, like the decoder,
  replaces a zero seed).\<close>

theorem sch_hd_hu_burst_corrected:
  "(length info = 124 \<and> nonzero_seed init \<and> length e = 216 \<and> burst 10 e \<longrightarrow>
     (\<exists>t5. encode_sch_hd info init = Inr t5 \<and> length t5 = 216 \<and>
       decode_channel (descramble_hard (xor_bits t5 e) init 216) 216 101 124 =
         Inr (True, info, crc16 info @ [False, False, False, False]))) \<and>
   (length info = 92 \<and> length e = 168 \<and> burst 10 e \<longrightarrow>
     (\<exists>t5. encode_sch_hu info init = Inr t5 \<and> length t5 = 168 \<and>
       decode_channel (descramble_hard (xor_bits t5 e) init 168) 168 13 92 =
         Inr (True, info, crc16 info @ [False, False, False, False])))"
  using sch_hd.decode_burst [where info = info and init = init and e = e]
    sch_hu.decode_burst [where info = info and init = init and e = e] by simp

theorem sch_hd_hu_burst_corrected_witness:
  "\<exists>t5. encode_sch_hu (replicate 92 True) 0 = Inr t5 \<and>
     decode_channel (descramble_hard (xor_bits t5 (replicate 168 False)) 0 168) 168 13 92 =
       Inr (True, replicate 92 True, crc16 (replicate 92 True) @ [False, False, False, False])"
  using sch_hd_hu_burst_corrected [of "replicate 92 True" 0 "replicate 168 False"]
  by (auto simp: burst_def)

text \<open>End to end on the BSCH: a beacon built by \<open>sw_encode_bsch\<close> for any configuration and slot,
  hit by a burst of up to 10 air bits, decodes with a good CRC to the 60 bits of its SYNC PDU.\<close>

theorem bsch_burst_corrected:
  assumes "length e = 120" "burst 10 e"
  shows "\<exists>pdu t5. build_pdu cfg tn fn mn = Inr pdu \<and> sw_encode_bsch cfg tn fn mn = Inr t5 \<and>
    length t5 = 120 \<and>
    decode_channel (descramble_bsch (xor_bits t5 e)) 120 11 60 =
      Inr (True, pdu, crc16 pdu @ [False, False, False, False])"
proof -
  obtain pdu where pdu: "build_pdu cfg tn fn mn = Inr pdu" "length pdu = 60"
    using build_pdu_total by blast
  from bsch.decode_burst [OF pdu(2) refl assms] obtain t5 where t5: "bsch_type5 pdu = Inr t5"
    "length t5 = 120" "decode_channel (descramble_hard (xor_bits t5 e) 3 120) 120 11 60 =
      Inr (True, pdu, crc16 pdu @ [False, False, False, False])" by blast
  have "descramble_hard (xor_bits t5 e) 3 120 = descramble_bsch (xor_bits t5 e)"
    using t5(2) assms(1) by (simp add: descramble_hard_mask descramble_bsch_mask)
  then show ?thesis using pdu t5 by (simp add: sw_encode_bsch_def)
qed

theorem bsch_burst_corrected_witness:
  "\<exists>pdu t5. sw_encode_bsch CFG 1 18 3 = Inr t5 \<and>
     decode_channel (descramble_bsch (xor_bits t5 (replicate 120 False))) 120 11 60 =
       Inr (True, pdu, crc16 pdu @ [False, False, False, False])"
  using bsch_burst_corrected [of "replicate 120 False" CFG 1 18 3] by (auto simp: burst_def)

text \<open>Errors that are not bursts: on each channel any number of flipped air bits is corrected
  when, after deinterleaving, no two of them are closer than 11 positions; in particular a clean
  block and a block with one flipped bit.\<close>

theorem spaced_air_errors_corrected:
  assumes "length info = 268" "nonzero_seed init" "length e = 432"
    and "deinterleave_perm e 432 103 = Inr e4" "apart 11 e4"
  shows "\<exists>t5. encode_sch_f info init = Inr t5 \<and>
    decode_channel (descramble_hard (xor_bits t5 e) init 432) 432 103 268 =
      Inr (True, info, crc16 info @ [False, False, False, False])"
proof -
  have "e4 = map (\<lambda>i. e ! mult_pos 432 103 i) [0..<432]"
    using assms(3,4) by (simp add: deinterleave_perm_eq)
  with assms(5) have "apart 11 (map (\<lambda>i. e ! mult_pos 432 103 i) [0..<432])" by simp
  from sch_f.decode_encode [OF assms(1-3) this] show ?thesis by blast
qed

theorem spaced_air_errors_corrected_witness:
  "\<exists>t5. encode_sch_f (replicate 268 False) 7 = Inr t5 \<and>
    decode_channel (descramble_hard (xor_bits t5 (replicate 432 False)) 7 432) 432 103 268 =
      Inr (True, replicate 268 False, crc16 (replicate 268 False) @ [False, False, False, False])"
proof -
  let ?e = "map (\<lambda>i. replicate 432 False ! mult_pos 432 103 i) [0..<432]"
  have "apart 11 ?e" by (auto simp: apart_def mult_pos_less)
  moreover have "deinterleave_perm (replicate 432 False) 432 103 = Inr ?e"
    by (rule deinterleave_perm_eq) simp
  ultimately show ?thesis
    using spaced_air_errors_corrected [of "replicate 268 False" 7 "replicate 432 False" ?e]
    by (simp add: nonzero_seed_def)
qed

text \<open>C21. The RTL-style BSCH encoder (CRC register, inline puncturing with a four-bit register and a
  running index) emits the same 120 bits as the software chain, for every configuration and slot,
  and neither of them ever raises.\<close>

theorem rtl_bsch_equals_sw:
  "rtl_encode_bsch cfg tn fn mn = sw_encode_bsch cfg tn fn mn \<and>
   (\<exists>t5. sw_encode_bsch cfg tn fn mn = Inr t5 \<and> length t5 = 120)"
proof -
  obtain pdu where pdu: "build_pdu cfg tn fn mn = Inr pdu" "length pdu = 60"
    using build_pdu_total by blast
  let ?us = "crc16 pdu @ [False, False, False, False]"
  have us: "pdu @ map (\<lambda>i. bit (foldl crc_step_msb 0xFFFF pdu XOR 0xFFFF) (15 - i)) [0..<16]
      @ [False, False, False, False] = ?us"
    by (simp only: crc16_def crc16_reg_def word16_bits_def append_assoc)
  have lus: "length ?us = 80" using pdu by simp
  have len: "length (code_path 0 True ?us) = 120" using tail_path(3) [OF pdu(2)] by simp
  have "rcpc_inline_loop 0 0 0 (replicate 120 False) ?us = Inr (code_path 0 True ?us, 120)"
    using rcpc_inline_eq [of 0 0 True ?us "replicate 120 False"] len by simp
  then have "rtl_encode_bsch cfg tn fn mn = sw_encode_bsch cfg tn fn mn"
    using tail_path [OF pdu(2)] lus len pdu(1)
    unfolding rtl_encode_bsch_def sw_encode_bsch_def bsch_type5_def Let_def us pdu(1) bind_res_simps
    by simp
  moreover obtain t5 where "bsch_type5 pdu = Inr t5" "length t5 = 120"
    using bsch.decode_clean [OF pdu(2) refl] by blast
  ultimately show ?thesis using pdu by (simp add: sw_encode_bsch_def)
qed

text \<open>Wrong sizes are reported, not encoded: each generator raises AssertionError exactly when the
  information length is not its channel's.\<close>

theorem encoders_assert_length:
  assumes "nonzero_seed init"
  shows "(encode_sch_f info init = Inl AssertionError \<longleftrightarrow> length info \<noteq> 268) \<and>
    (encode_sch_hd info init = Inl AssertionError \<longleftrightarrow> length info \<noteq> 124) \<and>
    (encode_sch_hu info init = Inl AssertionError \<longleftrightarrow> length info \<noteq> 92)"
proof (intro conjI)
  show "encode_sch_f info init = Inl AssertionError \<longleftrightarrow> length info \<noteq> 268"
    using sch_f.decode_clean [of info init] assms by (fastforce simp: encode_sch_f_def assert_res_def)
  show "encode_sch_hd info init = Inl AssertionError \<longleftrightarrow> length info \<noteq> 124"
    using sch_hd.decode_clean [of info init] assms by (fastforce simp: encode_sch_hd_def assert_res_def)
  show "encode_sch_hu info init = Inl AssertionError \<longleftrightarrow> length info \<noteq> 92"
    using sch_hu.decode_clean [where info = info and init = init] by (fastforce simp: encode_sch_hu_def assert_res_def)
qed

theorem encoders_assert_length_witness: "encode_sch_f [] 1 = Inl AssertionError"
  using encoders_assert_length [of 1 "[]"] by (simp add: nonzero_seed_def)

text \<open>What the D-NWRK-BROADCAST generator builds is 288 bits, not the 432 of the SCH/F block its
  description names, for every 124-bit input and cell.\<close>

theorem d_nwrk_type5_length:
  assumes "length info = 124"
  shows "\<exists>t5. build_d_nwrk_type5 info cc mcc mnc = Inr t5 \<and> length t5 = 288"
proof -
  have "length (tetra_crc16 bs) = 16" for bs by (simp add: tetra_crc16_def Let_def)
  moreover have "length (conv_k5_loop sr bs) = 2 * length bs" for sr bs
    by (induction sr bs rule: conv_k5_loop.induct) (simp_all add: Let_def)
  moreover have "length (cell_scramble bs a b c) = length bs" for bs a b c
    by (simp add: cell_scramble_mask dl_ks.mask_length)
  ultimately show ?thesis
    using assms by (simp add: build_d_nwrk_type5_def conv_encode_k5_def interleave_dnwrk_def Let_def)
qed

theorem d_nwrk_type5_length_witness:
  "\<exists>t5. build_d_nwrk_type5 (replicate 124 False) 49 901 9998 = Inr t5 \<and> length t5 = 288"
  by (rule d_nwrk_type5_length) simp

end
