(* ===== verification/SoftViterbi.thy ===== *)
theory SoftViterbi
  imports Channel
begin

text \<open>
  The soft-decision decoders: \<open>descramble_soft\<close>, \<open>depuncture_r23_soft\<close>, \<open>_viterbi_r14_soft_numba\<close>,
  \<open>viterbi_r14_soft\<close> and \<open>decode_channel_soft\<close> of \<open>scripts/decode_dl.py\<close>, and \<open>_descramble_soft\<close>,
  \<open>etsi_deinterleave_bnch_soft\<close>, \<open>etsi_depuncture_r23_bnch_soft\<close> and \<open>etsi_viterbi_decode_r14_soft\<close> of
  \<open>scripts/decode_bnch.py\<close>.  Soft values are positive for a likely 0.

  The code's soft values are floating-point numbers; the model takes integers, for which all sums the code
  forms are exact.  The main result is that on hard values (1 for a 0, -1 for a 1, 0 for an erasure) both
  decoders, one maximising a correlation, the other minimising a cost, return exactly what the
  hard-decision decoder returns, ties included.
\<close>

definition SINF :: int where
  "SINF = 10 ^ 18"

subsection \<open>Descrambling, deinterleaving and depuncturing\<close>

text \<open>Arrays of different lengths do not multiply (NumPy would stretch an array of length one).\<close>

definition descramble_soft :: "int list \<Rightarrow> int \<Rightarrow> nat \<Rightarrow> int list res" where
  "descramble_soft soft_bits init len =
     (if length soft_bits \<noteq> len then Inl ValueError
      else Inr (map2 (\<lambda>s b. s * (1 - 2 * of_bool b)) soft_bits (scrambler_seq init len)))"

definition descramble_soft_bnch :: "int list \<Rightarrow> int \<Rightarrow> nat \<Rightarrow> int list res" where
  "descramble_soft_bnch soft_bits scrambler_init n =
     (let scr = scrambler_seq_sb scrambler_init n
      in if \<exists>i\<in>set [length soft_bits..<n]. scr ! i then Inl IndexError
         else Inr (fold (\<lambda>i out. if scr ! i then out[i := - (out ! i)] else out) [0..<n] soft_bits))"

definition depuncture_r23_soft :: "int list \<Rightarrow> nat \<Rightarrow> int list res" where
  "depuncture_r23_soft soft_bits mother_len =
     (if \<exists>j\<in>set [1..<Suc (length soft_bits)]. mother_len \<le> depuncture_k j - 1 then Inl IndexError
      else Inr (fold (\<lambda>j out. out[depuncture_k j - 1 := soft_bits ! (j - 1)])
                  [1..<Suc (length soft_bits)] (replicate mother_len 0)))"

definition etsi_deinterleave_bnch_soft :: "int list \<Rightarrow> int list res" where
  "etsi_deinterleave_bnch_soft soft_bits =
     (let K = 216; a = 101
      in gather soft_bits (map (\<lambda>i. let k = 1 + (a * i) mod K in k - 1) [1..<Suc K]))"

definition etsi_depuncture_r23_bnch_soft :: "int list \<Rightarrow> (int list \<times> bool list) res" where
  "etsi_depuncture_r23_bnch_soft soft216 =
     (let mother_len = (length soft216 div 3) * 8
      in if \<exists>j\<in>set [1..<Suc (length soft216)]. mother_len \<le> depuncture_k j - 1 then Inl IndexError
         else Inr (fold (\<lambda>j (out, is_erasure).
                      (out[depuncture_k j - 1 := soft216 ! (j - 1)], is_erasure[depuncture_k j - 1 := False]))
                     [1..<Suc (length soft216)] (replicate mother_len 0, replicate mother_len True)))"

subsection \<open>The correlation decoder of decode_dl\<close>

definition exp_sign :: "nat \<Rightarrow> bool \<Rightarrow> nat \<Rightarrow> int" where
  "exp_sign s inp g =
     (let sr = shift_in s inp; v = sr AND g; v = v XOR drop_bit 4 v; v = v XOR drop_bit 2 v;
          v = v XOR drop_bit 1 v; e = v AND 1
      in 1 - 2 * int e)"

definition dl_metric :: "nat list \<Rightarrow> int list \<Rightarrow> int \<Rightarrow> nat \<Rightarrow> bool \<Rightarrow> int" where
  "dl_metric gs r m old_state inp =
     m + r ! 0 * exp_sign old_state inp (gs ! 0) + r ! 1 * exp_sign old_state inp (gs ! 1)
       + r ! 2 * exp_sign old_state inp (gs ! 2) + r ! 3 * exp_sign old_state inp (gs ! 3)"

definition dl_visit :: "nat list \<Rightarrow> int list \<Rightarrow> int list \<Rightarrow> nat \<times> bool \<Rightarrow> column \<Rightarrow> column" where
  "dl_visit gs r pm = (\<lambda>(old_state, inp) (new_pm, tb_state, tb_input).
     if pm ! old_state \<le> - SINF then (new_pm, tb_state, tb_input)
     else
       let ns = shift_in old_state inp AND 0xF;
           metric = dl_metric gs r (pm ! old_state) old_state inp
       in if new_pm ! ns < metric
          then (new_pm[ns := metric], tb_state[ns := old_state], tb_input[ns := inp])
          else (new_pm, tb_state, tb_input))"

definition dl_stage :: "nat list \<Rightarrow> int list \<Rightarrow> int list \<Rightarrow> column" where
  "dl_stage gs r pm =
     fold (dl_visit gs r pm) loop_pairs (replicate 16 (- SINF), replicate 16 0, replicate 16 False)"

definition forward_from ::
  "int list \<Rightarrow> ('rx \<Rightarrow> int list \<Rightarrow> column) \<Rightarrow> 'rx list \<Rightarrow> int list \<times> (nat list \<times> bool list) list" where
  "forward_from init stage rxs =
     foldl (\<lambda>(pm, rows) rx. let (new_pm, ts, ti) = stage rx pm in (new_pm, (ts, ti) # rows)) (init, []) rxs"

definition viterbi_r14_soft_numba :: "int list \<Rightarrow> nat list \<Rightarrow> bits" where
  "viterbi_r14_soft_numba coded_soft gs =
     (let (pm, rows) = forward_from ((replicate 16 (- SINF))[0 := 0]) (dl_stage gs) (rx_groups 4 coded_soft)
      in traceback rows 0 [])"

definition viterbi_r14_soft :: "int list \<Rightarrow> bits" where
  "viterbi_r14_soft coded_soft = viterbi_r14_soft_numba coded_soft etsi_gens"

definition decode_channel_soft :: "int list \<Rightarrow> nat \<Rightarrow> nat \<Rightarrow> nat \<Rightarrow> (bool \<times> bits \<times> bits) res" where
  "decode_channel_soft soft_type5 K a info_bits_len =
     bind_res (gather soft_type5 (map (\<lambda>i. let k = 1 + (a * i) mod K in k - 1) [1..<Suc K])) (\<lambda>type4.
     let mother_len = (K div 3) * 8 in
     bind_res (depuncture_r23_soft type4 mother_len) (\<lambda>type3.
     let decoded = viterbi_r14_soft type3;
         crc_len = info_bits_len + 16;
         info_crc = take crc_len decoded;
         crc_ok = crc16_check_dll info_crc
     in Inr (crc_ok, take info_bits_len info_crc, decoded)))"

subsection \<open>The cost decoder of decode_bnch\<close>

text \<open>\<open>metric += 1.0 - s[m] * (1.0 - 2.0 * e)\<close> for every generator whose position is not erased.\<close>

fun add_soft_branch :: "nat \<Rightarrow> nat list \<Rightarrow> (int \<times> bool) list \<Rightarrow> int \<Rightarrow> int" where
  "add_soft_branch sr (G # Gs) ((s, e_flag) # rx) metric =
     add_soft_branch sr Gs rx
       (if e_flag then metric
        else let e = parity5_masked (sr AND G) in metric + (1 - s * (1 - 2 * int e)))"
| "add_soft_branch sr _ _ metric = metric"

definition bnch_visit :: "nat list \<Rightarrow> (int \<times> bool) list \<Rightarrow> int list \<Rightarrow> nat \<times> bool \<Rightarrow> column \<Rightarrow> column" where
  "bnch_visit Gs rx pm = (\<lambda>(old_state, inp) (new_pm, tb_state, tb_input).
     if SINF \<le> pm ! old_state then (new_pm, tb_state, tb_input)
     else
       let sr = shift_in old_state inp;
           new_state = sr AND 0xF;
           metric = add_soft_branch sr Gs rx (pm ! old_state)
       in if metric < new_pm ! new_state
          then (new_pm[new_state := metric], tb_state[new_state := old_state],
                tb_input[new_state := inp])
          else (new_pm, tb_state, tb_input))"

definition bnch_stage :: "nat list \<Rightarrow> (int \<times> bool) list \<Rightarrow> int list \<Rightarrow> column" where
  "bnch_stage Gs rx pm =
     fold (bnch_visit Gs rx pm) loop_pairs (replicate 16 SINF, replicate 16 0, replicate 16 False)"

definition etsi_viterbi_decode_r14_soft :: "int list \<Rightarrow> bool list \<Rightarrow> bits" where
  "etsi_viterbi_decode_r14_soft soft_mother is_erasure =
     (let (pm, rows) = forward_from ((replicate 16 SINF)[0 := 0]) (bnch_stage [0x13, 0x1D, 0x17, 0x1B])
        (rx_groups 4 (zip soft_mother is_erasure))
      in traceback rows 0 [])"

subsection \<open>Metrics related by a strictly monotone map\<close>

text \<open>A decoder whose unreachable states are recognised (\<open>gone\<close>) and whose comparison is the image of
  the hard decoder's under a map \<open>f n\<close> of the metrics, \<open>n\<close> being what the received positions so
  far have added.\<close>

locale metric_map =
  fixes gone :: "int \<Rightarrow> bool" and better :: "int \<Rightarrow> int \<Rightarrow> bool" and inf :: int and f :: "int \<Rightarrow> int \<Rightarrow> int"
  assumes gone_inf: "gone inf"
    and not_gone: "0 \<le> h \<Longrightarrow> h < VINF \<Longrightarrow> 0 \<le> n \<Longrightarrow> n < VINF \<Longrightarrow> \<not> gone (f n h)"
    and better_inf: "0 \<le> h \<Longrightarrow> h < VINF \<Longrightarrow> 0 \<le> n \<Longrightarrow> n < VINF \<Longrightarrow> better (f n h) inf"
    and better_iff: "better (f n a) (f n b) \<longleftrightarrow> a < b"
begin

definition svisit :: "(nat \<Rightarrow> bool \<Rightarrow> int) \<Rightarrow> int list \<Rightarrow> nat \<times> bool \<Rightarrow> column \<Rightarrow> column" where
  "svisit sc pm = (\<lambda>(st, b) (npm, ts, ti).
     if gone (pm ! st) then (npm, ts, ti)
     else if better (pm ! st + sc st b) (npm ! next_state st b)
     then (npm[next_state st b := pm ! st + sc st b], ts[next_state st b := st], ti[next_state st b := b])
     else (npm, ts, ti))"

definition sim :: "int \<Rightarrow> int \<Rightarrow> int list \<Rightarrow> int list \<Rightarrow> bool" where
  "sim n M hp sp \<longleftrightarrow> length hp = 16 \<and> length sp = 16 \<and>
     (\<forall>k<16. hp ! k = VINF \<and> sp ! k = inf \<or> 0 \<le> hp ! k \<and> hp ! k \<le> M \<and> sp ! k = f n (hp ! k))"

definition csim :: "int \<Rightarrow> int \<Rightarrow> column \<Rightarrow> column \<Rightarrow> bool" where
  "csim n M h s \<longleftrightarrow> sim n M (fst h) (fst s) \<and> snd s = snd h \<and> length (fst (snd h)) = 16 \<and> length (snd (snd h)) = 16"

lemma visit_sim:
  assumes "sim n M hp sp" "csim n' M' h s" "st < 16" "0 \<le> c" "M + c \<le> M'" "M' < VINF" "0 \<le> n" "n < VINF" "0 \<le> n'" "n' < VINF"
    and shift: "\<And>h. f n h + sc = f n' (h + c)" and M: "M < VINF"
  shows "csim n' M'
    (case h of (npm, ts, ti) \<Rightarrow> if VINF \<le> hp ! st then (npm, ts, ti)
     else if hp ! st + c < npm ! next_state st b
     then (npm[next_state st b := hp ! st + c], ts[next_state st b := st], ti[next_state st b := b])
     else (npm, ts, ti))
    (case s of (npm, ts, ti) \<Rightarrow> if gone (sp ! st) then (npm, ts, ti)
     else if better (sp ! st + sc) (npm ! next_state st b)
     then (npm[next_state st b := sp ! st + sc], ts[next_state st b := st], ti[next_state st b := b])
     else (npm, ts, ti))"
proof -
  obtain hn ts ti where h: "h = (hn, ts, ti)" by (cases h)
  obtain sn where s: "s = (sn, ts, ti)" using assms(2) h by (cases s) (simp add: csim_def)
  have sn: "sim n' M' hn sn" and len: "length ts = 16" "length ti = 16" using assms(2) by (simp_all add: csim_def h s)
  let ?k = "next_state st b"
  have k: "?k < 16" by simp
  consider (dead) "hp ! st = VINF" "sp ! st = inf" | (live) "0 \<le> hp ! st" "hp ! st \<le> M" "sp ! st = f n (hp ! st)"
    using assms(1,3) by (auto simp: sim_def)
  then show ?thesis
  proof cases
    case dead
    then show ?thesis using assms(2) gone_inf by (simp add: h s)
  next
    case live
    then have lt: "\<not> VINF \<le> hp ! st" and ng: "\<not> gone (sp ! st)" using M not_gone assms(7,8) by auto
    let ?m = "hp ! st + c"
    have m: "0 \<le> ?m" "?m \<le> M'" "?m < VINF" "sp ! st + sc = f n' ?m" using live assms(4-6) shift by auto
    have cmp: "better (sp ! st + sc) (sn ! ?k) \<longleftrightarrow> ?m < hn ! ?k"
    proof -
      have "hn ! ?k = VINF \<and> sn ! ?k = inf \<or> sn ! ?k = f n' (hn ! ?k)" using sn k unfolding sim_def by blast
      then show ?thesis unfolding m(4) using m better_inf [OF m(1,3) assms(9,10)] better_iff by auto
    qed
    have "sim n' M' (hn[?k := ?m]) (sn[?k := sp ! st + sc])"
      using sn m k unfolding sim_def by (simp add: nth_list_update)
    then show ?thesis
      using assms(2) lt ng cmp len unfolding h s csim_def by simp
  qed
qed

lemma stage_sim:
  assumes "sim n M hp sp" "\<And>st b. 0 \<le> cost rx st b" "\<And>st b. M + cost rx st b \<le> M'" "M' < VINF"
    "0 \<le> n" "n < VINF" "0 \<le> n'" "n' < VINF" "M < VINF"
    and shift: "\<And>h st b. f n h + sc st b = f n' (h + cost rx st b)"
  shows "csim n' M' (gstage cost rx hp) (fold (svisit sc sp) loop_pairs (replicate 16 inf, replicate 16 0, replicate 16 False))"
proof -
  have step: "csim n' M' (gvisit (cost rx) hp p h) (svisit sc sp p s)" if "csim n' M' h s" "fst p < 16" for p h s
  proof -
    obtain st b where p: "p = (st, b)" by (cases p)
    show ?thesis
      using visit_sim [OF assms(1) that(1) _ assms(2) [of st b] assms(3) assms(4-8) shift [of _ st b] assms(9), where b = b] that(2)
      by (cases h; cases s) (simp add: p gvisit_def svisit_def)
  qed
  have "csim n' M' (fold (gvisit (cost rx) hp) ps h) (fold (svisit sc sp) ps s)"
    if "csim n' M' h s" "\<forall>p \<in> set ps. fst p < 16" for ps h s
    using that
  proof (induction ps arbitrary: h s)
    case (Cons p ps)
    then show ?case using step [of h s p] Cons.IH [of "gvisit (cost rx) hp p h" "svisit sc sp p s"] by simp
  qed simp
  moreover have "csim n' M' (replicate 16 VINF, replicate 16 0, replicate 16 False) (replicate 16 inf, replicate 16 0, replicate 16 False)"
    by (simp add: csim_def sim_def)
  moreover have "\<forall>p \<in> set loop_pairs. fst p < 16" by (auto simp: set_loop_pairs)
  ultimately show ?thesis unfolding gstage_def by blast
qed

text \<open>Whole blocks: \<open>cnt\<close> is what a received group adds to \<open>n\<close>, at most \<open>B\<close> like its costs.\<close>

lemma forward_sim:
  fixes cnt :: "'rx \<Rightarrow> int"
  assumes "\<And>rx. rx \<in> set rxs \<Longrightarrow> 0 \<le> cnt rx \<and> cnt rx \<le> B"
    and shift: "\<And>n h st b rx. rx \<in> set rxs \<Longrightarrow> f n h + sc rx st b = f (n + cnt rx) (h + cost rx st b)"
    and cost: "\<And>rx st b. 0 \<le> cost rx st b" "\<And>rx st b. cost rx st b \<le> B" and f0: "f 0 0 = 0"
    and "B * int (length rxs) < VINF"
  shows "let (hp, hr) = forward (gstage cost) rxs;
        (sp, sr) = forward_from ((replicate 16 inf)[0 := 0])
          (\<lambda>rx pm. fold (svisit (sc rx) pm) loop_pairs (replicate 16 inf, replicate 16 0, replicate 16 False)) rxs
      in sim (sum_list (map cnt rxs)) (B * int (length rxs)) hp sp \<and> sr = hr"
  using assms(1,2,6)
proof (induction rxs rule: rev_induct)
  case Nil
  then show ?case using f0 by (simp add: forward_def forward_from_def init_pm_def sim_def nth_list_update)
next
  case (snoc rx rxs)
  let ?st = "\<lambda>rx pm. fold (svisit (sc rx) pm) loop_pairs (replicate 16 inf, replicate 16 0, replicate 16 False)"
  let ?init = "(replicate 16 inf)[0 := 0]"
  let ?n = "sum_list (map cnt rxs)" and ?M = "B * int (length rxs)"
  have B0: "0 \<le> B" using cost order_trans by blast
  have lt: "?M + B < VINF" using snoc.prems(3) by (simp add: algebra_simps)
  obtain hp hr where h: "forward (gstage cost) rxs = (hp, hr)" by fastforce
  obtain sp sr where s: "forward_from ?init ?st rxs = (sp, sr)" by fastforce
  have IH: "sim ?n ?M hp sp" "sr = hr"
    using snoc.IH snoc.prems(1,2) h s lt B0 by simp_all
  have n: "0 \<le> ?n \<and> ?n \<le> ?M"
    using snoc.prems(1)
  proof (induction rxs)
    case (Cons r rs)
    have r: "0 \<le> cnt r" "cnt r \<le> B" using Cons.prems by simp_all
    have "0 \<le> sum_list (map cnt rs) \<and> sum_list (map cnt rs) \<le> B * int (length rs)"
      using Cons.prems by (intro Cons.IH) simp
    with r show ?case by (simp add: algebra_simps)
  qed simp
  have c: "0 \<le> cnt rx" "cnt rx \<le> B" using snoc.prems(1) by auto
  obtain hn hts hti where hs: "gstage cost rx hp = (hn, hts, hti)" by (metis prod_cases3)
  obtain sn sts sti where ss: "?st rx sp = (sn, sts, sti)" by (metis prod_cases3)
  have "csim (?n + cnt rx) (?M + B) (gstage cost rx hp) (?st rx sp)"
    by (rule stage_sim [OF IH(1)]) (use n c lt B0 cost snoc.prems(2) in auto)
  then show ?case
    using h s hs ss IH(2) by (simp add: forward_def forward_from_def csim_def Let_def algebra_simps)
qed

text \<open>So both make the same decisions.\<close>

lemma same_decisions:
  fixes cnt :: "'rx \<Rightarrow> int"
  assumes "\<And>rx. rx \<in> set rxs \<Longrightarrow> 0 \<le> cnt rx \<and> cnt rx \<le> B"
    and "\<And>n h st b rx. rx \<in> set rxs \<Longrightarrow> f n h + sc rx st b = f (n + cnt rx) (h + cost rx st b)"
    and "\<And>rx st b. 0 \<le> cost rx st b" "\<And>rx st b. cost rx st b \<le> B" and "f 0 0 = 0"
    and "B * int (length rxs) < VINF"
  shows "snd (forward_from ((replicate 16 inf)[0 := 0])
      (\<lambda>rx pm. fold (svisit (sc rx) pm) loop_pairs (replicate 16 inf, replicate 16 0, replicate 16 False)) rxs) =
    snd (forward (gstage cost) rxs)"
  using forward_sim [OF assms] by (simp add: Let_def case_prod_beta)

end

subsection \<open>Hard values\<close>

definition soft_of :: "bool \<Rightarrow> int" where
  "soft_of b = (if b then - 1 else 1)"

fun soft_opt :: "bool option \<Rightarrow> int" where
  "soft_opt None = 0"
| "soft_opt (Some b) = soft_of b"

definition present :: "bool option list \<Rightarrow> int" where
  "present rx = int (length (filter (\<lambda>r. r \<noteq> None) rx))"

interpretation dl: metric_map "\<lambda>x. x \<le> - SINF" "(>)" "- SINF" "\<lambda>n h. n - 2 * h"
  by unfold_locales (auto simp: SINF_def VINF_def)

interpretation bn: metric_map "\<lambda>x. SINF \<le> x" "(<)" SINF "\<lambda>n h. 2 * h"
  by unfold_locales (auto simp: SINF_def VINF_def)

text \<open>The branch sums of the two decoders on hard values, in terms of the hard branch cost.\<close>

lemma soft_of_sign: "soft_of x * (1 - 2 * int p) = 1 - 2 * of_bool ((p = 1) \<noteq> x)" if "p < 2"
proof -
  have "p = 0 \<or> p = 1" using that by auto
  then show ?thesis by (auto simp: soft_of_def)
qed

lemma parity5_masked_less: "parity5_masked x < 2"
  by (simp add: parity5_masked_def Let_def and_one_eq)

lemma exp_sign_eq: "exp_sign st b g = 1 - 2 * int (parity5_masked (shift_in st b AND g))"
proof -
  have "exp_sign st b g = 1 - 2 * int (parity5 (shift_in st b AND g))"
    by (simp add: exp_sign_def parity5_def Let_def)
  then show ?thesis by (simp add: parity5_masked_eq [OF shift_in_and_less])
qed

lemma soft_term: "soft_opt r * exp_sign st b G = of_bool (r \<noteq> None) - 2 * pos_cost (shift_in st b) G r"
  by (cases r) (simp_all add: exp_sign_eq pos_cost_def soft_of_sign parity5_masked_less)

lemma bcost_pos: "bcost (G # Gs) (r # rx) st b = pos_cost (shift_in st b) G r + bcost Gs rx st b"
  unfolding bcost_def add_branch_Cons by (subst add_branch_acc) simp

lemma four_groups:
  assumes "length rx = 4" obtains a b c d where "rx = [a, b, c, d]"
  using assms by (auto simp: length_Suc_conv eval_nat_numeral)

lemma dl_visit_hard:
  assumes "length rx = 4"
  shows "dl_visit etsi_gens (map soft_opt rx) = dl.svisit (\<lambda>st b. present rx - 2 * bcost etsi_gens rx st b)"
proof -
  obtain w x y z where rx: "rx = [w, x, y, z]" using assms by (rule four_groups)
  have "dl_metric etsi_gens (map soft_opt rx) m st b = m + (present rx - 2 * bcost etsi_gens rx st b)" for m st b
    by (simp add: dl_metric_def soft_term bcost_pos rx etsi_gens_def present_def)
  then show ?thesis
    by (simp add: fun_eq_iff dl_visit_def dl.svisit_def Let_def next_state_def [symmetric])
qed

lemma add_soft_hard:
  "length rx = length Gs \<Longrightarrow>
   add_soft_branch (shift_in st b) Gs (map (\<lambda>r. (soft_opt r, r = None)) rx) m = m + 2 * bcost Gs rx st b"
proof (induction rx Gs arbitrary: m rule: list_induct2)
  case (Cons r rx G Gs)
  show ?case
    using soft_of_sign [OF parity5_masked_less]
    by (cases r) (simp_all add: Cons.IH bcost_pos pos_cost_def Let_def)
qed simp

lemma bnch_visit_hard:
  assumes "length rx = length Gs"
  shows "bnch_visit Gs (map (\<lambda>r. (soft_opt r, r = None)) rx) = bn.svisit (\<lambda>st b. 2 * bcost Gs rx st b)"
  by (simp add: fun_eq_iff bnch_visit_def bn.svisit_def add_soft_hard [OF assms] Let_def next_state_def [symmetric])

lemma rx_groups_map: "rx_groups n (map g xs) = map (map g) (rx_groups n xs)"
proof -
  have "map (\<lambda>m. map g xs ! (n * i + m)) [0..<n] = map g (map (\<lambda>m. xs ! (n * i + m)) [0..<n])"
    if "i < length xs div n" for i
  proof -
    have "n * i + m < length xs" if "m < n" for m
    proof -
      have "n * i + m < n * Suc i" using that by simp
      also have "\<dots> \<le> n * (length xs div n)" using \<open>i < length xs div n\<close> by (intro mult_le_mono) auto
      also have "\<dots> \<le> length xs" by simp
      finally show ?thesis .
    qed
    then show ?thesis by simp
  qed
  then show ?thesis by (simp add: rx_groups_def)
qed

lemma rx_groups_length: "rx \<in> set (rx_groups n xs) \<Longrightarrow> length rx = n"
  by (auto simp: rx_groups_def)

lemma forward_from_cong:
  "(\<And>rx pm. rx \<in> set rxs \<Longrightarrow> st (g rx) pm = st' rx pm) \<Longrightarrow> forward_from i st (map g rxs) = forward_from i st' rxs"
proof -
  assume a: "\<And>rx pm. rx \<in> set rxs \<Longrightarrow> st (g rx) pm = st' rx pm"
  show ?thesis unfolding forward_from_def foldl_map by (rule foldl_cong) (simp_all add: a split_def)
qed

lemma viterbi_dl_hard:
  assumes "length coded < 10 ^ 9"
  shows "viterbi_r14_soft (map soft_opt coded) = viterbi_r14 coded"
proof -
  let ?sc = "\<lambda>rx st b. present rx - 2 * bcost etsi_gens rx st b"
  let ?st = "\<lambda>rx pm. fold (dl.svisit (?sc rx) pm) loop_pairs (replicate 16 (- SINF), replicate 16 0, replicate 16 False)"
  have len: "4 * int (length (rx_groups 4 coded)) < VINF"
    using assms by (simp add: VINF_def)
  have gs: "0 \<le> bcost etsi_gens rx st b" "bcost etsi_gens rx st b \<le> 4" for rx st b
    using bcost_bounds [of etsi_gens rx st b] by (simp_all add: etsi_gens_def)
  have cnt: "0 \<le> present rx \<and> present rx \<le> 4" if "rx \<in> set (rx_groups 4 coded)" for rx
    using rx_groups_length [OF that] length_filter_le [of "\<lambda>r. r \<noteq> None" rx] by (simp add: present_def)
  have eq: "forward_from i (dl_stage etsi_gens) (rx_groups 4 (map soft_opt coded)) = forward_from i ?st (rx_groups 4 coded)" for i
    unfolding rx_groups_map
    by (rule forward_from_cong) (simp add: dl_stage_def dl_visit_hard [OF rx_groups_length])
  have "snd (forward_from ((replicate 16 (- SINF))[0 := 0]) ?st (rx_groups 4 coded)) =
      snd (forward (acs_stage etsi_gens) (rx_groups 4 coded))"
    unfolding acs_stage_gstage by (rule dl.same_decisions [OF cnt _ gs _ len]) simp_all
  then show ?thesis
    unfolding viterbi_r14_soft_def viterbi_r14_soft_numba_def eq viterbi_r14_run by (simp add: case_prod_beta)
qed

lemma viterbi_bnch_hard:
  assumes "length coded < 10 ^ 9"
  shows "etsi_viterbi_decode_r14_soft (map soft_opt coded) (map (\<lambda>r. r = None) coded) = viterbi_r14 coded"
proof -
  let ?g = "\<lambda>r. (soft_opt r, r = None)" and ?sc = "\<lambda>rx st b. 2 * bcost etsi_gens rx st b"
  let ?st = "\<lambda>rx pm. fold (bn.svisit (?sc rx) pm) loop_pairs (replicate 16 SINF, replicate 16 0, replicate 16 False)"
  have len: "4 * int (length (rx_groups 4 coded)) < VINF"
    using assms by (simp add: VINF_def)
  have gs: "0 \<le> bcost etsi_gens rx st b" "bcost etsi_gens rx st b \<le> 4" for rx st b
    using bcost_bounds [of etsi_gens rx st b] by (simp_all add: etsi_gens_def)
  have z: "zip (map soft_opt coded) (map (\<lambda>r. r = None) coded) = map ?g coded"
    by (simp add: zip_map_map zip_same_conv_map)
  have eq: "forward_from i (bnch_stage etsi_gens) (rx_groups 4 (map ?g coded)) = forward_from i ?st (rx_groups 4 coded)" for i
    unfolding rx_groups_map
    by (rule forward_from_cong) (simp add: bnch_stage_def bnch_visit_hard rx_groups_length etsi_gens_def)
  have "snd (forward_from ((replicate 16 SINF)[0 := 0]) ?st (rx_groups 4 coded)) =
      snd (forward (acs_stage etsi_gens) (rx_groups 4 coded))"
    unfolding acs_stage_gstage by (rule bn.same_decisions [OF _ _ gs _ len, where cnt = "\<lambda>_. 0"]) simp_all
  then show ?thesis
    unfolding etsi_viterbi_decode_r14_soft_def z viterbi_r14_run etsi_gens_def [symmetric] eq by (simp add: case_prod_beta)
qed

subsection \<open>The stages before the decoder\<close>

fun map_res :: "('a \<Rightarrow> 'b) \<Rightarrow> 'a res \<Rightarrow> 'b res" where
  "map_res g (Inl e) = Inl e"
| "map_res g (Inr x) = Inr (g x)"

lemma bind_map_res: "bind_res (map_res g r) k = bind_res r (\<lambda>x. k (g x))"
  by (cases r) simp_all

lemma gather_map_res: "gather (map g xs) ks = map_res (map g) (gather xs ks)"
  by (auto simp: gather_def)

lemma depuncture_soft_hard:
  "depuncture_r23_soft (map soft_of bits) n = map_res (map soft_opt) (depuncture_r23 bits n)"
proof -
  have "map soft_opt (fold (\<lambda>j out. out[depuncture_k j - 1 := Some (bits ! (j - 1))]) js out) =
      fold (\<lambda>j out. out[depuncture_k j - 1 := map soft_of bits ! (j - 1)]) js (map soft_opt out)"
    if "\<forall>j \<in> set js. 1 \<le> j \<and> j \<le> length bits" for js out
    using that by (induction js arbitrary: out) (auto simp: map_update)
  from this [of "[1..<Suc (length bits)]" "replicate n None"] show ?thesis
    by (auto simp: depuncture_r23_soft_def depuncture_r23_def simp del: upt_Suc)
qed

lemma depuncture_bnch_soft_hard:
  "etsi_depuncture_r23_bnch_soft (map soft_of bits) =
   map_res (\<lambda>m. (map soft_opt m, map (\<lambda>r. r = None) m)) (etsi_depuncture_r23_bnch bits)"
proof -
  have "fold (\<lambda>j (out, is_erasure).
      (out[depuncture_k j - 1 := map soft_of bits ! (j - 1)], is_erasure[depuncture_k j - 1 := False])) js
      (map soft_opt out, map (\<lambda>r. r = None) out) =
    (let m = fold (\<lambda>j out. out[depuncture_k j - 1 := Some (bits ! (j - 1))]) js out
     in (map soft_opt m, map (\<lambda>r. r = None) m))"
    if "\<forall>j \<in> set js. 1 \<le> j \<and> j \<le> length bits" for js out
    using that
  proof (induction js arbitrary: out)
    case (Cons j js)
    then show ?case using Cons.IH [of "out[depuncture_k j - 1 := Some (bits ! (j - 1))]"] by (auto simp: map_update)
  qed simp
  from this [of "[1..<Suc (length bits)]" "replicate ((length bits div 3) * 8) None"]
  show ?thesis
    by (auto simp: etsi_depuncture_r23_bnch_soft_def etsi_depuncture_r23_bnch_def Let_def simp del: upt_Suc)
qed

lemma length_gather: "gather xs ks = Inr ys \<Longrightarrow> length ys = length ks"
  by (auto simp: gather_def split: if_splits)

lemma length_depuncture: "depuncture_r23 bits n = Inr m \<Longrightarrow> length m = n"
  by (auto simp: depuncture_r23_def fold_update_length split: if_splits)

lemma descramble_soft_hard: "descramble_soft (map soft_of bits) init (length bits) = Inr (map soft_of (descramble_hard bits init (length bits)))"
proof -
  have "map2 (\<lambda>s b. s * (1 - 2 * of_bool b)) (map soft_of xs) ys = map soft_of (xor_bits xs ys)" for xs ys
    by (induction xs ys rule: list_induct2') (simp_all add: soft_of_def)
  then show ?thesis by (simp add: descramble_soft_def descramble_hard_def)
qed

lemma decode_channel_soft_hard:
  assumes "K < 10 ^ 8"
  shows "decode_channel_soft (map soft_of bits) K a n = decode_channel bits K a n"
proof -
  have v: "viterbi_r14_soft (map soft_opt m) = viterbi_r14 m"
    if "depuncture_r23 ys ((K div 3) * 8) = Inr m" for ys :: bits and m
    using length_depuncture [OF that] assms by (intro viterbi_dl_hard) simp
  show ?thesis
  proof (cases "deinterleave_perm bits K a")
    case (Inr ys)
    then have g: "gather bits (map (\<lambda>i. let k = 1 + (a * i) mod K in k - 1) [1..<Suc K]) = Inr ys"
      by (simp add: deinterleave_perm_def)
    then have "length ys = K" using length_gather [OF g] by simp
    then show ?thesis
      using v [of ys] unfolding decode_channel_soft_def decode_channel_def gather_map_res g Inr
      by (cases "depuncture_r23 ys ((K div 3) * 8)") (simp_all add: depuncture_soft_hard Let_def)
  qed (simp add: decode_channel_soft_def decode_channel_def gather_map_res deinterleave_perm_def)
qed

lemma descramble_bnch_hard:
  "descramble_soft_bnch (map soft_of bits) init (length bits) = Inr (map soft_of (descramble_hard bits init (length bits)))"
proof -
  let ?scr = "scrambler_seq init (length bits)"
  have len: "length (fold (\<lambda>i out. if ?scr ! i then out[i := - (out ! i)] else out) js out) = length out" for js and out :: "int list"
    by (induction js arbitrary: out) simp_all
  have nth: "fold (\<lambda>i out. if ?scr ! i then out[i := - (out ! i)] else out) [0..<n] out ! k =
      (if k < n \<and> ?scr ! k then - (out ! k) else out ! k)" if "k < length out" "n \<le> length out" for n k and out :: "int list"
    using that by (induction n) (auto simp: len nth_list_update less_Suc_eq)
  have "fold (\<lambda>i out. if ?scr ! i then out[i := - (out ! i)] else out) [0..<length bits] (map soft_of bits) =
      map soft_of (xor_bits bits ?scr)"
    by (rule nth_equalityI) (auto simp: len nth soft_of_def)
  then show ?thesis by (simp add: descramble_soft_bnch_def descramble_hard_def scrambler_seq_sb_eq Let_def)
qed

lemma soft_bnch_chain:
  "bind_res (descramble_soft_bnch (map soft_of bits) init (length bits)) (\<lambda>s.
   bind_res (etsi_deinterleave_bnch_soft s) (\<lambda>d.
   bind_res (etsi_depuncture_r23_bnch_soft d) (\<lambda>(m, e). Inr (etsi_viterbi_decode_r14_soft m e)))) =
   bind_res (etsi_deinterleave_bnch (descramble_hard bits init (length bits))) (\<lambda>d.
   bind_res (etsi_depuncture_r23_bnch d) (\<lambda>m. Inr (etsi_viterbi_decode_r14_with_erasures m)))"
proof -
  let ?b = "descramble_hard bits init (length bits)"
  show ?thesis
  proof (cases "etsi_deinterleave_bnch ?b")
    case (Inr ys)
    then have "length ys = 216"
      unfolding etsi_deinterleave_bnch_def Let_def by (auto dest!: length_gather simp del: upt_Suc)
    then have v: "etsi_viterbi_decode_r14_soft (map soft_opt m) (map (\<lambda>r. r = None) m) = etsi_viterbi_decode_r14_with_erasures m"
      if "etsi_depuncture_r23_bnch ys = Inr m" for m
      using that viterbi_bnch_hard [of m]
      by (auto simp: etsi_depuncture_r23_bnch_def Let_def fold_update_length etsi_viterbi_decode_r14_with_erasures_def
          viterbi_r14_def etsi_gens_def split: if_splits simp del: upt_Suc)
    have "etsi_deinterleave_bnch_soft (map soft_of ?b) = map_res (map soft_of) (etsi_deinterleave_bnch ?b)"
      by (simp add: etsi_deinterleave_bnch_soft_def etsi_deinterleave_bnch_def Let_def gather_map_res del: upt_Suc)
    then show ?thesis using v
      by (cases "etsi_depuncture_r23_bnch ys") (simp_all add: descramble_bnch_hard Inr depuncture_bnch_soft_hard)
  next
    case (Inl e)
    have "etsi_deinterleave_bnch_soft (map soft_of ?b) = map_res (map soft_of) (etsi_deinterleave_bnch ?b)"
      by (simp add: etsi_deinterleave_bnch_soft_def etsi_deinterleave_bnch_def Let_def gather_map_res del: upt_Suc)
    then show ?thesis by (simp add: descramble_bnch_hard Inl)
  qed
qed

subsection \<open>Properties\<close>

text \<open>C11. The soft-decision receiver refines the hard one: fed with hard values (1 for a 0, -1 for a 1),
  descrambling gives the hard values of the descrambled bits, and the soft channel decoder, which
  maximises a correlation, returns for every block, interleaver and information length exactly what
  the hard decoder returns - the CRC verdict, the information bits, the decoded bits, the errors, and
  the same choice at every tie of the trellis.\<close>

theorem soft_channel_equals_hard:
  assumes "K < 10 ^ 8"
  shows "decode_channel_soft (map soft_of bits) K a n = decode_channel bits K a n \<and>
    descramble_soft (map soft_of bits) init (length bits) =
      Inr (map soft_of (descramble_hard bits init (length bits)))"
  by (simp add: decode_channel_soft_hard [OF assms] descramble_soft_hard)

theorem soft_channel_equals_hard_witness:
  "decode_channel_soft (map soft_of (replicate 3 False)) 3 1 2 = decode_channel (replicate 3 False) 3 1 2"
proof -
  have "3 < (10::nat) ^ 8" by simp
  from soft_channel_equals_hard [OF this, of "replicate 3 False" 1 2 0] show ?thesis by blast
qed

text \<open>The soft path of the BNCH decoder, which minimises a cost over the positions not marked erased,
  likewise returns exactly what its hard path returns: descrambled, deinterleaved, depunctured and
  decoded, on every block of hard values and with the same errors on short blocks.\<close>

theorem soft_bnch_equals_hard:
  "bind_res (descramble_soft_bnch (map soft_of bits) init (length bits)) (\<lambda>s.
   bind_res (etsi_deinterleave_bnch_soft s) (\<lambda>d.
   bind_res (etsi_depuncture_r23_bnch_soft d) (\<lambda>(m, e). Inr (etsi_viterbi_decode_r14_soft m e)))) =
   bind_res (etsi_deinterleave_bnch (descramble_hard bits init (length bits))) (\<lambda>d.
   bind_res (etsi_depuncture_r23_bnch d) (\<lambda>m. Inr (etsi_viterbi_decode_r14_with_erasures m)))"
  by (rule soft_bnch_chain)

end
