(* ===== verification/SoftMargin.thy ===== *)
theory SoftMargin
  imports SoftViterbi
begin

text \<open>
  What the soft decoder of \<open>scripts/decode_dl.py\<close> gains over the hard one: amplitudes.  The decoder minimises the
  total amplitude of the positions that disagree with a path; so a block is recovered whatever the
  amplitudes of its good positions are, and positions of a fade that are weaker than all others
  may have any sign, or none.
\<close>

subsection \<open>The decoder minimises the disagreeing amplitude\<close>

definition amp_cost :: "int list \<Rightarrow> nat \<Rightarrow> bool \<Rightarrow> nat \<Rightarrow> int" where
  "amp_cost r st b j = (if (r ! j < 0) \<noteq> (exp_sign st b (etsi_gens ! j) < 0) then \<bar>r ! j\<bar> else 0)"

definition soft_cost :: "int list \<Rightarrow> nat \<Rightarrow> bool \<Rightarrow> int" where
  "soft_cost r st b = amp_cost r st b 0 + amp_cost r st b 1 + amp_cost r st b 2 + amp_cost r st b 3"

definition amp_sum :: "int list \<Rightarrow> int" where
  "amp_sum r = \<bar>r ! 0\<bar> + \<bar>r ! 1\<bar> + \<bar>r ! 2\<bar> + \<bar>r ! 3\<bar>"

text \<open>Costs of groups within the amplitude bound; the interpretation needs a bound on all groups.\<close>

definition bounded_cost :: "int \<Rightarrow> int list \<Rightarrow> nat \<Rightarrow> bool \<Rightarrow> int" where
  "bounded_cost B r st b = (if amp_sum r \<le> B then soft_cost r st b else 0)"

lemma exp_sign_cases: "exp_sign st b g = 1 \<or> exp_sign st b g = - 1"
  using parity5_masked_less [of "shift_in st b AND g"] by (auto simp: exp_sign_eq less_2_cases_iff)

lemma amp_term: "r ! j * exp_sign st b (etsi_gens ! j) = \<bar>r ! j\<bar> - 2 * amp_cost r st b j"
  using exp_sign_cases [of st b "etsi_gens ! j"] by (auto simp: amp_cost_def)

lemma amp_cost_bounds: "0 \<le> amp_cost r st b j" "amp_cost r st b j \<le> \<bar>r ! j\<bar>"
  by (simp_all add: amp_cost_def)

lemma soft_cost_bounds: "0 \<le> soft_cost r st b" "soft_cost r st b \<le> amp_sum r"
  using amp_cost_bounds [of r st b 0] amp_cost_bounds [of r st b 1] amp_cost_bounds [of r st b 2]
    amp_cost_bounds [of r st b 3] by (simp_all add: soft_cost_def amp_sum_def)

lemma bounded_cost_bounds: "0 \<le> B \<Longrightarrow> 0 \<le> bounded_cost B r st b" "0 \<le> B \<Longrightarrow> bounded_cost B r st b \<le> B"
  using soft_cost_bounds [of r st b] by (auto simp: bounded_cost_def)

lemma dl_metric_cost: "dl_metric etsi_gens r m st b = m + (amp_sum r - 2 * soft_cost r st b)"
  using amp_term [of r 0 st b] amp_term [of r 1 st b] amp_term [of r 2 st b] amp_term [of r 3 st b]
  by (simp add: dl_metric_def amp_sum_def soft_cost_def)

lemma dl_visit_cost: "dl_visit etsi_gens r pm = dl.svisit (\<lambda>st b. amp_sum r - 2 * soft_cost r st b) pm"
  by (simp add: fun_eq_iff dl_visit_def dl.svisit_def dl_metric_cost Let_def next_state_def [symmetric])

definition amplitude :: "int \<Rightarrow> int list \<Rightarrow> bool" where
  "amplitude A ys \<longleftrightarrow> 0 \<le> A \<and> (\<forall>y \<in> set ys. \<bar>y\<bar> \<le> A)"

lemma group_in:
  "r \<in> set (rx_groups 4 ys) \<Longrightarrow> length r = 4 \<and> set r \<subseteq> set ys"
proof -
  assume "r \<in> set (rx_groups 4 ys)"
  then obtain i where r: "r = map (\<lambda>m. ys ! (4 * i + m)) [0..<4]" and i: "i < length ys div 4"
    by (auto simp: rx_groups_def simp del: map_eq_conv)
  have "4 * i + m < length ys" if "m < 4" for m using i that by linarith
  then show ?thesis by (auto simp: r)
qed

lemma group_amp: "amplitude A ys \<Longrightarrow> r \<in> set (rx_groups 4 ys) \<Longrightarrow> 0 \<le> amp_sum r \<and> amp_sum r \<le> 4 * A"
proof -
  assume a: "amplitude A ys" "r \<in> set (rx_groups 4 ys)"
  then have "\<bar>r ! j\<bar> \<le> A" if "j < 4" for j
    using that group_in [OF a(2)] by (metis amplitude_def nth_mem subsetD)
  from this [of 0] this [of 1] this [of 2] this [of 3] show ?thesis by (simp add: amp_sum_def)
qed

lemma path_cost_cong:
  "(\<And>r st b. r \<in> set rxs \<Longrightarrow> c r st b = d r st b) \<Longrightarrow> path_cost c st us rxs = path_cost d st us rxs"
  by (induction c st us rxs rule: path_cost.induct) simp_all

lemma forward_stage_cong:
  "(\<And>rx pm. rx \<in> set rxs \<Longrightarrow> st rx pm = st' rx pm) \<Longrightarrow> forward_from i st rxs = forward_from i st' rxs"
  unfolding forward_from_def by (rule foldl_cong) (simp_all add: split_def)

text \<open>The correlation the code maximises is the total amplitude less twice the disagreeing one.\<close>

lemma viterbi_soft_best:
  assumes "amplitude A ys" "4 * A * int (length ys div 4) < VINF"
  defines "v \<equiv> viterbi_r14_soft ys"
  shows "length v = length ys div 4 \<and> run 0 v = 0 \<and>
    (\<forall>vs. length vs = length ys div 4 \<and> run 0 vs = 0 \<longrightarrow>
       path_cost soft_cost 0 v (rx_groups 4 ys) \<le> path_cost soft_cost 0 vs (rx_groups 4 ys))"
proof -
  let ?g = "rx_groups 4 ys" and ?B = "4 * A" and ?c = "bounded_cost (4 * A)"
  let ?st = "\<lambda>sc rx pm. fold (dl.svisit (sc rx) pm) loop_pairs (replicate 16 (- SINF), replicate 16 0, replicate 16 False)"
  let ?sc = "\<lambda>c rx st b. amp_sum rx - 2 * c rx st b"
  have B: "0 \<le> ?B" using assms(1) by (simp add: amplitude_def)
  note cb = bounded_cost_bounds [OF B]
  have len: "?B * int (length ?g) < VINF" using assms(2) by simp
  have amp: "0 \<le> amp_sum r \<and> amp_sum r \<le> ?B" if "r \<in> set ?g" for r using group_amp [OF assms(1) that] .
  have eq: "?c r st b = soft_cost r st b" if "r \<in> set ?g" for r st b
    using amp [OF that] by (simp add: bounded_cost_def)
  have "forward_from ((replicate 16 (- SINF))[0 := 0]) (dl_stage etsi_gens) ?g =
      forward_from ((replicate 16 (- SINF))[0 := 0]) (?st (?sc ?c)) ?g"
    by (rule forward_stage_cong) (simp add: dl_stage_def dl_visit_cost eq)
  moreover have "snd (forward_from ((replicate 16 (- SINF))[0 := 0]) (?st (?sc ?c)) ?g) = snd (forward (gstage ?c) ?g)"
    by (rule dl.same_decisions [OF amp _ cb _ len]) simp_all
  ultimately have v: "v = traceback (snd (forward (gstage ?c) ?g)) 0 []"
    by (simp add: v_def viterbi_r14_soft_def viterbi_r14_soft_numba_def case_prod_beta)
  have "path_cost ?c 0 us ?g = path_cost soft_cost 0 us ?g" for us
    by (rule path_cost_cong) (rule eq)
  then show ?thesis
    using acs_decoder.traceback_optimal [of "gstage ?c" ?c ?B, OF gstage_decoder [of ?c, OF cb] len] unfolding v by simp
qed

subsection \<open>Punctured blocks\<close>

text \<open>The amplitude of the positions that disagree with a path.\<close>

fun wdist :: "int list \<Rightarrow> bits \<Rightarrow> int" where
  "wdist (y # ys) (c # cs) = (if (y < 0) \<noteq> c then \<bar>y\<bar> else 0) + wdist ys cs"
| "wdist _ _ = 0"

definition soft0 :: "int option \<Rightarrow> int" where
  "soft0 r = (case r of None \<Rightarrow> 0 | Some y \<Rightarrow> y)"

lemma depuncture_r23_soft_eq: "depuncture_r23_soft ys n = map_res (map soft0) (depuncture_r23 ys n)"
proof -
  have "map soft0 (fold (\<lambda>j out. out[depuncture_k j - 1 := Some (ys ! (j - 1))]) js out) =
      fold (\<lambda>j out. out[depuncture_k j - 1 := ys ! (j - 1)]) js (map soft0 out)" for js out
    by (induction js arbitrary: out) (simp_all add: map_update soft0_def)
  from this [of "[1..<Suc (length ys)]" "replicate n None"] show ?thesis
    by (auto simp: depuncture_r23_soft_def depuncture_r23_def soft0_def simp del: upt_Suc)
qed

lemma amp_cost_g_out:
  "amp_cost r st b 0 = (if (r ! 0 < 0) \<noteq> g_out 0x13 st b then \<bar>r ! 0\<bar> else 0)"
  "amp_cost r st b 1 = (if (r ! 1 < 0) \<noteq> g_out 0x1D st b then \<bar>r ! 1\<bar> else 0)"
proof -
  have "exp_sign st b g < 0 \<longleftrightarrow> g_out g st b" for g
    using parity5_masked_less [of "shift_in st b AND g"]
    by (auto simp: exp_sign_eq g_out_def parity5_masked_eq [OF shift_in_and_less] less_2_cases_iff)
  then show "amp_cost r st b 0 = (if (r ! 0 < 0) \<noteq> g_out 0x13 st b then \<bar>r ! 0\<bar> else 0)"
    "amp_cost r st b 1 = (if (r ! 1 < 0) \<noteq> g_out 0x1D st b then \<bar>r ! 1\<bar> else 0)"
    by (simp_all add: amp_cost_def etsi_gens_def)
qed

lemma path_cost_wdist:
  "length us = 2 * k \<Longrightarrow> length ys = 3 * k \<Longrightarrow>
   path_cost soft_cost st us (rx_groups 4 (map soft0 (depunct8 ys))) = wdist ys (code_path st True us)"
proof (induction k arbitrary: us ys st)
  case (Suc k)
  from Suc.prems(1) obtain u v us' where us: "us = u # v # us'" "length us' = 2 * k"
    by (cases us; cases "tl us") auto
  from Suc.prems(2) obtain a b c ys' where ys: "ys = a # b # c # ys'" "length ys' = 3 * k"
    by (cases ys; cases "tl ys"; cases "tl (tl ys)") auto
  have g: "rx_groups 4 (map soft0 (depunct8 (a # b # c # ys'))) =
      [a, b, 0, 0] # [c, 0, 0, 0] # rx_groups 4 (map soft0 (depunct8 ys'))"
    unfolding rx_groups_map rx_groups_depunct8 by (simp add: soft0_def rx_groups_map)
  have z: "amp_cost r st b j = 0" if "r ! j = 0" for r st b j using that by (simp add: amp_cost_def)
  have "soft_cost [x, y, 0, 0] st w = (if (x < 0) \<noteq> g_out 0x13 st w then \<bar>x\<bar> else 0)
      + (if (y < 0) \<noteq> g_out 0x1D st w then \<bar>y\<bar> else 0)" for x y st w
    by (simp add: soft_cost_def amp_cost_g_out z del: One_nat_def)
  then show ?case
    using Suc.IH [OF us(2) ys(2)] unfolding us(1) ys(1) g by simp
qed (simp add: rx_groups_Nil)

text \<open>A received block: outside the faded positions \<open>e\<close> the sign is that of the sent bit and the amplitude at
  least \<open>m\<close>; in the fade the sign is arbitrary and the amplitude at most \<open>m\<close>.\<close>

definition received :: "int \<Rightarrow> bits \<Rightarrow> bits \<Rightarrow> int list \<Rightarrow> bool" where
  "received m e bs ys \<longleftrightarrow> 0 < m \<and> length ys = length bs \<and> length e = length bs \<and>
     (\<forall>i < length bs. if e ! i then \<bar>ys ! i\<bar> \<le> m else m \<le> \<bar>ys ! i\<bar> \<and> (ys ! i < 0 \<longleftrightarrow> bs ! i))"

lemma received_Cons:
  "received m (x # e) (b # bs) (y # ys) \<longleftrightarrow>
     (if x then \<bar>y\<bar> \<le> m else m \<le> \<bar>y\<bar> \<and> (y < 0 \<longleftrightarrow> b)) \<and> received m e bs ys"
  by (auto simp: received_def All_less_Suc2)

lemma wdist_gain:
  "length c = length c' \<Longrightarrow> length c' = length e \<Longrightarrow> length e = length ys \<Longrightarrow> received m e c ys \<Longrightarrow>
   wdist ys c + m * gain (xor_bits c c') e \<le> wdist ys c'"
proof (induction c c' e ys rule: list_induct4)
  case (Cons b bs b' bs' x e y ys)
  then have "wdist ys bs + m * gain (xor_bits bs bs') e \<le> wdist ys bs'"
    and y: "if x then \<bar>y\<bar> \<le> m else m \<le> \<bar>y\<bar> \<and> (y < 0 \<longleftrightarrow> b)"
    by (simp_all add: received_Cons)
  then show ?case by (cases "b = b'"; cases x; cases b; cases "y < 0") (auto simp: algebra_simps)
qed simp

lemma viterbi_soft_corrects:
  assumes "length us = 2 * k" "run 0 us = 0" "received m e (code_path 0 True us) ys" "spaced t e" "t < 11"
    and "amplitude A ys" "8 * A * int k < VINF"
  shows "viterbi_r14_soft (map soft0 (depunct8 ys)) = us"
proof (rule ccontr)
  let ?d = "map soft0 (depunct8 ys)" and ?v = "viterbi_r14_soft (map soft0 (depunct8 ys))"
  let ?c = "code_path 0 True us"
  assume neq: "?v \<noteq> us"
  have lc: "length ?c = 3 * k" using assms(1) by (simp add: length_code_path)
  then have ly: "length ys = 3 * k" and le: "length e = 3 * k" and m: "0 < m" using assms(3) by (simp_all add: received_def)
  have ld: "length ?d = 8 * k" using ly by simp
  have "set (depunct8 ys) \<subseteq> insert None (Some ` set ys)"
    by (induction ys rule: depunct8.induct) auto
  then have amp: "amplitude A ?d" using assms(6) by (auto simp: amplitude_def soft0_def)
  have v: "length ?v = 2 * k" "run 0 ?v = 0"
    "path_cost soft_cost 0 ?v (rx_groups 4 ?d) \<le> path_cost soft_cost 0 us (rx_groups 4 ?d)"
    using viterbi_soft_best [OF amp] assms(1,2,7) ld by auto
  have lv: "length (code_path 0 True ?v) = 3 * k" using v(1) by (simp add: length_code_path)
  have "xor_bits us ?v \<noteq> replicate (2 * k) False" and rw: "run 0 (xor_bits us ?v) = 0"
    using path_run_xor [of us ?v 0 0] assms(1,2) v neq by (auto simp: list_eq_iff_nth_eq)
  then have w: "True \<in> set (xor_bits us ?v)"
    using assms(1) v(1) neq by (auto simp: in_set_conv_nth list_eq_iff_nth_eq)
  have path: "code_path 0 True (xor_bits us ?v) = xor_bits ?c (code_path 0 True ?v)"
    using code_path_xor [of us ?v 0 0 True] assms(1) v(1) by simp
  have "2 \<le> gain (xor_bits ?c (code_path 0 True ?v)) e"
    using divergence [OF rw w assms(4,5), of True] path lc lv le by simp
  moreover have "wdist ys ?c + m * gain (xor_bits ?c (code_path 0 True ?v)) e \<le> wdist ys (code_path 0 True ?v)"
    by (rule wdist_gain) (use lc lv le ly assms(3) in simp_all)
  moreover have "wdist ys (code_path 0 True ?v) \<le> wdist ys ?c"
    using v(3) path_cost_wdist [OF v(1) ly] path_cost_wdist [OF assms(1) ly] by simp
  ultimately have "m * gain (xor_bits ?c (code_path 0 True ?v)) e \<le> 0" "2 \<le> gain (xor_bits ?c (code_path 0 True ?v)) e"
    by simp_all
  then show False using m by (simp add: mult_le_0_iff)
qed


subsection \<open>Whole blocks\<close>

context signalling_channel
begin

text \<open>The air block \<open>t5\<close> received with the amplitudes \<open>s\<close>, faded in a burst.\<close>

lemma decode_faded:
  assumes "length info = info_len" "good_seed init" "burst 10 e"
    and "encode info init = Inr t5" "received m e t5 s" "amplitude A s" "8 * A * int N < 10 ^ 9"
  shows "bind_res (descramble_soft s init N) (\<lambda>d. decode_channel_soft d N a info_len) =
    Inr (True, info, crc16 info @ [False, False, False, False])"
proof -
  let ?us = "crc16 info @ [False, False, False, False]"
  let ?c = "code_path 0 True ?us"
  define k where "k = (info_len + 20) div 2"
  have k: "info_len + 20 = 2 * k" "N = 3 * k" using even_len shape by (auto simp: k_def)
  have us: "length ?us = 2 * k" using assms(1) k by simp
  then have c: "length ?c = N" using k by (simp add: length_code_path)
  from dil_ilv [OF c] obtain y where y: "ilv ?c = Inr y" "length y = N"
    "deinterleave_perm y N a = Inr ?c" by blast
  have t5: "t5 = dl_ks.mask_with init y" using encode_eq [OF assms(1,2)] y(1) assms(4) by simp
  have lt: "length t5 = N" using y by (simp add: t5 dl_ks.mask_length)
  have ls: "length s = N" "length e = N" and m: "0 < m" using assms(5) lt by (simp_all add: received_def)
  define d where "d = map2 (\<lambda>s b. s * (1 - 2 * of_bool b)) s (scrambler_seq init N)"
  have ld: "length d = N" using ls by (simp add: d_def)
  have ds: "descramble_soft s init N = Inr d" using ls by (simp add: descramble_soft_def d_def)
  have yd: "y = xor_bits t5 (scrambler_seq init N)"
    using descramble_hard_mask [OF lt, of init] by (simp add: descramble_hard_def t5 dl_ks.mask_mask)
  have rd: "received m e y d"
    unfolding received_def
  proof (intro conjI allI impI)
    fix i assume i: "i < length y"
    then have n: "i < N" using y(2) by simp
    have di: "d ! i = s ! i * (1 - 2 * of_bool (scrambler_seq init N ! i))" using n ls by (simp add: d_def)
    have yi: "y ! i = (t5 ! i \<noteq> scrambler_seq init N ! i)" using n lt by (simp add: yd)
    have "if e ! i then \<bar>s ! i\<bar> \<le> m else m \<le> \<bar>s ! i\<bar> \<and> (s ! i < 0 \<longleftrightarrow> t5 ! i)"
      using assms(5) n lt by (simp add: received_def)
    then show "if e ! i then \<bar>d ! i\<bar> \<le> m else m \<le> \<bar>d ! i\<bar> \<and> (d ! i < 0 \<longleftrightarrow> y ! i)"
      using m unfolding di yi by (cases "scrambler_seq init N ! i") auto
  qed (use m ld ls y(2) in simp_all)
  let ?p = "\<lambda>xs. map (\<lambda>i. xs ! mult_pos N a i) [0..<N]"
  have pos: "mult_pos N a i < N" if "i < N" for i using that pos_less by simp
  have yc: "?c = ?p y" using y(2,3) by (simp add: deinterleave_perm_eq)
  have rp: "received m (?p e) ?c (?p d)"
    unfolding yc using rd pos y(2) by (simp add: received_def)
  have g: "gather d (map (\<lambda>i. let k = 1 + (a * i) mod N in k - 1) [1..<Suc N]) = Inr (?p d)"
    using deinterleave_perm_eq [OF ld] by (simp add: deinterleave_perm_def)
  have amp: "amplitude A (?p d)"
  proof -
    have "\<bar>d ! j\<bar> \<le> A" if "j < N" for j
      using assms(6) that ls nth_mem [of j s] by (cases "scrambler_seq init N ! j") (auto simp: amplitude_def d_def)
    then show ?thesis using assms(6) pos by (auto simp: amplitude_def)
  qed
  have dp: "depuncture_r23_soft (?p d) (8 * k) = Inr (map soft0 (depunct8 (?p d)))"
    using depuncture_r23_eq [of "?p d" k] k by (simp add: depuncture_r23_soft_eq)
  have "8 * A * int k < VINF"
  proof -
    have "0 \<le> A" using assms(6) by (simp add: amplitude_def)
    then have "8 * A * int k \<le> 8 * A * int N" using k by (intro mult_left_mono) simp_all
    then show ?thesis using assms(7) by (simp add: VINF_def)
  qed
  then have "viterbi_r14_soft (map soft0 (depunct8 (?p d))) = ?us"
    using viterbi_soft_corrects [OF us tail_run rp apart_spaced [OF burst_apart [OF spread ls(2) assms(3)]] _ amp]
    by simp
  moreover have "N div 3 * 8 = 8 * k" using k by simp
  moreover have "take (info_len + 16) ?us = crc16 info" "take info_len (crc16 info) = info"
    using assms(1) by (simp, metis take_crc16)
  ultimately show ?thesis
    unfolding ds decode_channel_soft_def bind_res_simps g
    by (simp only: bind_res_simps Let_def dp crc16_accepted)
qed

end


text \<open>C18. The soft decoder recovers a faded block: a block of SCH/F, SCH/HD or SCH/HU is decoded with a good CRC
  to what was sent, for any cell seed and any amplitudes, when outside a fade of up to 10 air
  symbol bits the signs are right; in the fade every sign may be wrong, as long as no amplitude
  there exceeds the weakest one outside (zeros included).\<close>

theorem soft_decoder_recovers_fades:
  assumes "received m e t5 s" "burst 10 e" "amplitude A s" "A < 10 ^ 5"
  shows "(length info = 268 \<and> nonzero_seed seed \<and> encode_sch_f info seed = Inr t5 \<longrightarrow>
      bind_res (descramble_soft s seed 432) (\<lambda>d. decode_channel_soft d 432 103 268) =
        Inr (True, info, crc16 info @ [False, False, False, False])) \<and>
    (length info = 124 \<and> nonzero_seed seed \<and> encode_sch_hd info seed = Inr t5 \<longrightarrow>
      bind_res (descramble_soft s seed 216) (\<lambda>d. decode_channel_soft d 216 101 124) =
        Inr (True, info, crc16 info @ [False, False, False, False])) \<and>
    (length info = 92 \<and> encode_sch_hu info seed = Inr t5 \<longrightarrow>
      bind_res (descramble_soft s seed 168) (\<lambda>d. decode_channel_soft d 168 13 92) =
        Inr (True, info, crc16 info @ [False, False, False, False]))"
  using assms sch_f.decode_faded [OF _ _ assms(2) _ assms(1,3), of info seed]
    sch_hd.decode_faded [OF _ _ assms(2) _ assms(1,3), of info seed]
    sch_hu.decode_faded [OF _ _ assms(2) _ assms(1,3), of info seed]
  by simp

text \<open>An SCH/HU block with ten bits of the air lost, the others received with amplitudes between 3 and 7.\<close>

theorem soft_decoder_recovers_fades_witness:
  "\<exists>t5. encode_sch_hu (replicate 92 True) 7 = Inr t5 \<and>
    (let s = map (\<lambda>i. if i < 10 then 0 else (if t5 ! i then - 1 else 1) * (3 + int (i mod 5))) [0..<168]
     in bind_res (descramble_soft s 7 168) (\<lambda>d. decode_channel_soft d 168 13 92) =
       Inr (True, replicate 92 True, crc16 (replicate 92 True) @ [False, False, False, False]))"
proof -
  have l: "length (replicate 92 True) = 92" by simp
  obtain t5 where t5: "encode_sch_hu (replicate 92 True) 7 = Inr t5" "length t5 = 168"
    using sch_hu.decode_clean [OF l] by blast
  let ?e = "map (\<lambda>i. i < 10) [0..<168]"
  let ?s = "map (\<lambda>i. if i < 10 then 0 else (if t5 ! i then - 1 else 1) * (3 + int (i mod 5))) [0..<168]"
  have "received 3 ?e t5 ?s" using t5(2) by (auto simp: received_def)
  moreover have "burst 10 ?e" by (auto simp: burst_def)
  moreover have "int (i mod 5) \<le> 4" for i :: nat
  proof -
    have "i mod 5 < 5" by simp
    then show ?thesis by linarith
  qed
  then have "amplitude 7 ?s" by (auto simp: amplitude_def abs_mult)
  ultimately show ?thesis
    using t5(1) soft_decoder_recovers_fades [of 3 ?e t5 ?s 7 "replicate 92 True" 7] by (auto simp: Let_def)
qed

end
