(* ===== verification/PyBlock.thy ===== *)
theory PyBlock
  imports PyData
begin

text \<open>
  Statement sequences of the PDU parsers.

  The parsers of \<open>scripts/decode_dl.py\<close> and \<open>scripts/decode_ul.py\<close> are straight-line code over a
  position \<open>pos\<close> in a bit list and a dictionary under construction: guarded early returns
  (\<open>if pos + n > len(bits): return r\<close>), reads that advance (\<open>r[k] = extract_bits(bits, pos, n);
  pos += n\<close>), and conditional blocks.  A statement maps a state to the next state, to a return or
  to an exception; \<open>block\<close> runs a list of them.

  The locale \<open>pdu_parser\<close> is the contract the callers rely on: a parser never raises and leaves
  the position inside the bits.  The rules \<open>safe_rules\<close> prove it statement by statement: \<open>safe m ss\<close>
  says that with at least \<open>m\<close> bits left \<open>ss\<close> neither raises nor runs past the end.
\<close>

datatype 's outcome = Next 's | Return 's | Raise pyerr

record pst =
  pbits :: bits
  ppos :: nat
  pdict :: dict

type_synonym stmt = "pst \<Rightarrow> pst outcome"

fun block :: "('s \<Rightarrow> 's outcome) list \<Rightarrow> 's \<Rightarrow> 's outcome" where
  "block [] s = Next s"
| "block (c # cs) s =
     (case c s of Next s' \<Rightarrow> block cs s' | Return s' \<Rightarrow> Return s' | Raise e \<Rightarrow> Raise e)"

text \<open>\<open>if pos + n > len(bits): return r\<close>\<close>

definition need :: "nat \<Rightarrow> stmt" where
  "need n s = (if length (pbits s) < ppos s + n then Return s else Next s)"

text \<open>\<open>v = extract_bits(bits, pos, n); pos += n\<close>, then the rest with \<open>v\<close>\<close>

definition read :: "nat \<Rightarrow> (int \<Rightarrow> stmt list) \<Rightarrow> stmt" where
  "read n k s =
     (case extract_bits (pbits s) (ppos s) n of
        Inl e \<Rightarrow> Raise e
      | Inr v \<Rightarrow> block (k v) (s\<lparr>ppos := ppos s + n\<rparr>))"

text \<open>\<open>v = extract_bits(bits, pos, n)\<close> without advancing\<close>

definition peek :: "nat \<Rightarrow> (int \<Rightarrow> stmt list) \<Rightarrow> stmt" where
  "peek n k s =
     (case extract_bits (pbits s) (ppos s) n of Inl e \<Rightarrow> Raise e | Inr v \<Rightarrow> block (k v) s)"

definition advance_pos :: "nat \<Rightarrow> stmt" where
  "advance_pos n s = Next (s\<lparr>ppos := ppos s + n\<rparr>)"

text \<open>\<open>r[k] = v\<close>\<close>

definition put :: "string \<Rightarrow> pyval \<Rightarrow> stmt" where
  "put k v s = Next (s\<lparr>pdict := dset k v (pdict s)\<rparr>)"

text \<open>\<open>r[k] = extract_bits(bits, pos, n); pos += n\<close>\<close>

definition take_as :: "string \<Rightarrow> nat \<Rightarrow> stmt" where
  "take_as k n s =
     (case extract_bits (pbits s) (ppos s) n of
        Inl e \<Rightarrow> Raise e
      | Inr v \<Rightarrow> Next (s\<lparr>ppos := ppos s + n, pdict := dset k (VInt v) (pdict s)\<rparr>))"

text \<open>\<open>if pos + n <= len(bits): ...\<close>\<close>

definition when_fits :: "nat \<Rightarrow> stmt list \<Rightarrow> stmt" where
  "when_fits n cs s = (if ppos s + n \<le> length (pbits s) then block cs s else Next s)"

definition do_when :: "bool \<Rightarrow> ('s \<Rightarrow> 's outcome) list \<Rightarrow> 's \<Rightarrow> 's outcome" where
  "do_when b cs s = (if b then block cs s else Next s)"

definition branch :: "bool \<Rightarrow> ('s \<Rightarrow> 's outcome) list \<Rightarrow> ('s \<Rightarrow> 's outcome) list \<Rightarrow> 's \<Rightarrow> 's outcome" where
  "branch b cs ds s = (if b then block cs s else block ds s)"

text \<open>\<open>if b and pos + n <= len(bits): ... else: ...\<close>\<close>

definition branch_fits :: "bool \<Rightarrow> nat \<Rightarrow> stmt list \<Rightarrow> stmt list \<Rightarrow> stmt" where
  "branch_fits b n cs ds s =
     (if b \<and> ppos s + n \<le> length (pbits s) then block cs s else block ds s)"

text \<open>\<open>r[k] = pos\<close>\<close>

definition put_pos :: "string \<Rightarrow> stmt" where
  "put_pos k s = Next (s\<lparr>pdict := dset k (VInt (int (ppos s))) (pdict s)\<rparr>)"

text \<open>\<open>r[k], pos = f(bits, pos)\<close> and \<open>r[k] = f(bits, pos)\<close>\<close>

definition call_as :: "string \<Rightarrow> (bits \<Rightarrow> nat \<Rightarrow> (dict \<times> nat) res) \<Rightarrow> stmt" where
  "call_as k f s =
     (case f (pbits s) (ppos s) of
        Inl e \<Rightarrow> Raise e
      | Inr (d, p) \<Rightarrow> Next (s\<lparr>ppos := p, pdict := dset k (VDict d) (pdict s)\<rparr>))"

definition call_val :: "string \<Rightarrow> (bits \<Rightarrow> nat \<Rightarrow> pyval res) \<Rightarrow> stmt" where
  "call_val k f s =
     (case f (pbits s) (ppos s) of
        Inl e \<Rightarrow> Raise e
      | Inr v \<Rightarrow> Next (s\<lparr>pdict := dset k v (pdict s)\<rparr>))"

text \<open>\<open>r.update(f(bits, pos))\<close>\<close>

definition call_update :: "(bits \<Rightarrow> nat \<Rightarrow> dict res) \<Rightarrow> stmt" where
  "call_update f s =
     (case f (pbits s) (ppos s) of
        Inl e \<Rightarrow> Raise e
      | Inr d \<Rightarrow> Next (s\<lparr>pdict := dupdate (pdict s) d\<rparr>))"

definition return_now :: "'s \<Rightarrow> 's outcome" where
  "return_now s = Return s"

text \<open>A whole function body, started with an empty or given dictionary.\<close>

definition run_body :: "stmt list \<Rightarrow> bits \<Rightarrow> nat \<Rightarrow> dict \<Rightarrow> (dict \<times> nat) res" where
  "run_body cs bits pos d =
     (case block cs \<lparr>pbits = bits, ppos = pos, pdict = d\<rparr> of
        Next s \<Rightarrow> Inr (pdict s, ppos s)
      | Return s \<Rightarrow> Inr (pdict s, ppos s)
      | Raise e \<Rightarrow> Inl e)"

definition fst_res :: "('a \<times> 'b) res \<Rightarrow> 'a res" where
  "fst_res m = (case m of Inl e \<Rightarrow> Inl e | Inr (x, y) \<Rightarrow> Inr x)"

lemma fst_res_simps [simp]: "fst_res (Inl e) = Inl e" "fst_res (Inr (x, y)) = Inr x"
  by (simp_all add: fst_res_def)

subsection \<open>Never raising, never past the end\<close>

text \<open>Where a dictionary records the start of the payload, it lies inside the bits.\<close>

definition entry_ok :: "bits \<Rightarrow> string \<times> pyval \<Rightarrow> bool" where
  "entry_ok bits e \<longleftrightarrow>
     (fst e = ''payload_start'' \<longrightarrow> (\<exists>p. snd e = VInt (int p) \<and> p \<le> length bits))"

definition ps_ok :: "bits \<Rightarrow> dict \<Rightarrow> bool" where
  "ps_ok bits d \<longleftrightarrow> list_all (entry_ok bits) d"

lemma list_all_dset: "P (k, v) \<Longrightarrow> list_all P d \<Longrightarrow> list_all P (dset k v d)"
proof (induction d)
  case (Cons e d)
  then show ?case by (cases e) simp
qed simp

lemma list_all_dupdate: "list_all P e \<Longrightarrow> list_all P d \<Longrightarrow> list_all P (dupdate d e)"
proof (induction e arbitrary: d)
  case (Cons p e)
  then show ?case by (cases p) (simp add: dupdate_def list_all_dset)
qed (simp add: dupdate_def)

lemma entry_ok_other: "k \<noteq> ''payload_start'' \<Longrightarrow> entry_ok bits (k, v)"
  by (simp add: entry_ok_def)

lemma entry_ok_pos: "p \<le> length bits \<Longrightarrow> entry_ok bits (k, VInt (int p))"
  by (simp add: entry_ok_def)

lemma ps_ok_dset: "k \<noteq> ''payload_start'' \<Longrightarrow> ps_ok bits d \<Longrightarrow> ps_ok bits (dset k v d)"
  unfolding ps_ok_def by (intro list_all_dset entry_ok_other)

lemma ps_ok_dset_pos: "p \<le> length bits \<Longrightarrow> ps_ok bits d \<Longrightarrow> ps_ok bits (dset k (VInt (int p)) d)"
  unfolding ps_ok_def by (intro list_all_dset entry_ok_pos)

lemma ps_ok_Nil: "ps_ok bits []"
  by (simp add: ps_ok_def)

lemma ps_ok_dupdate: "ps_ok bits e \<Longrightarrow> ps_ok bits d \<Longrightarrow> ps_ok bits (dupdate d e)"
  unfolding ps_ok_def by (rule list_all_dupdate)

lemma ps_okD: "ps_ok bits d \<Longrightarrow> dget d ''payload_start'' = Some v \<Longrightarrow> \<exists>p. v = VInt (int p) \<and> p \<le> length bits"
  using map_of_SomeD [of d "''payload_start''" v]
  by (fastforce simp: ps_ok_def dget_def list_all_iff entry_ok_def)

definition moves :: "pst \<Rightarrow> pst \<Rightarrow> bool" where
  "moves s s' \<longleftrightarrow> pbits s' = pbits s \<and> ppos s' \<le> length (pbits s) \<and> ppos s \<le> ppos s' \<and>
     (ps_ok (pbits s) (pdict s) \<longrightarrow> ps_ok (pbits s) (pdict s'))"

definition fine :: "pst \<Rightarrow> pst outcome \<Rightarrow> bool" where
  "fine s o' = (case o' of Next s' \<Rightarrow> moves s s' | Return s' \<Rightarrow> moves s s' | Raise e \<Rightarrow> False)"

lemma fine_simps [simp]:
  "fine s (Next s') = moves s s'" "fine s (Return s') = moves s s'" "fine s (Raise e) = False"
  by (simp_all add: fine_def)

lemma moves_refl: "ppos s \<le> length (pbits s) \<Longrightarrow> moves s s"
  by (simp add: moves_def)

lemma moves_trans: "moves s s' \<Longrightarrow> moves s' s'' \<Longrightarrow> moves s s''"
  by (auto simp: moves_def)

definition safe :: "nat \<Rightarrow> stmt list \<Rightarrow> bool" where
  "safe m cs \<longleftrightarrow> (\<forall>s. ppos s + m \<le> length (pbits s) \<longrightarrow> fine s (block cs s))"

lemma block_append:
  "block (cs @ ds) s =
   (case block cs s of Next s' \<Rightarrow> block ds s' | Return s' \<Rightarrow> Return s' | Raise e \<Rightarrow> Raise e)"
  by (induction cs arbitrary: s) (auto split: outcome.split)

text \<open>A statement that ends with at least \<open>m'\<close> bits left when it starts with at least \<open>m\<close>.\<close>

definition step_ok :: "nat \<Rightarrow> nat \<Rightarrow> stmt \<Rightarrow> bool" where
  "step_ok m m' c \<longleftrightarrow> (\<forall>s. ppos s + m \<le> length (pbits s) \<longrightarrow> fine s (c s) \<and>
     (\<forall>s'. c s = Next s' \<longrightarrow> ppos s' + m' \<le> length (pbits s)))"

lemma fine_trans: "moves s s' \<Longrightarrow> fine s' o' \<Longrightarrow> fine s o'"
  by (cases o') (auto intro: moves_trans)

lemma safe_Nil: "safe m []"
  by (simp add: safe_def moves_refl)

lemma safe_Cons: "step_ok m m' c \<Longrightarrow> safe m' cs \<Longrightarrow> safe m (c # cs)"
  unfolding safe_def step_ok_def
proof (intro allI impI)
  fix s :: pst
  assume c: "\<forall>s. ppos s + m \<le> length (pbits s) \<longrightarrow> fine s (c s) \<and>
     (\<forall>s'. c s = Next s' \<longrightarrow> ppos s' + m' \<le> length (pbits s))"
    and cs: "\<forall>s. ppos s + m' \<le> length (pbits s) \<longrightarrow> fine s (block cs s)"
    and s: "ppos s + m \<le> length (pbits s)"
  show "fine s (block (c # cs) s)"
  proof (cases "c s")
    case (Next s')
    then have f: "moves s s'" and p: "ppos s' + m' \<le> length (pbits s)"
      using c s by (metis fine_simps(1))+
    then have "pbits s' = pbits s" by (simp add: moves_def)
    then have "fine s' (block cs s')" using cs p by simp
    then show ?thesis using Next fine_trans [OF f] by simp
  next
    case (Return s')
    then have "moves s s'" using c s by (metis fine_simps(2))
    then show ?thesis using Return by simp
  next
    case (Raise e)
    then show ?thesis using c s by (metis fine_simps(3))
  qed
qed

lemma step_need: "step_ok m (max m n) (need n)"
  by (auto simp: step_ok_def need_def moves_def)

lemma step_take_as: "k \<noteq> ''payload_start'' \<Longrightarrow> n \<le> m \<Longrightarrow> step_ok m (m - n) (take_as k n)"
  by (auto simp: step_ok_def take_as_def moves_def extract_bits_eq ps_ok_dset)

lemma step_put: "k \<noteq> ''payload_start'' \<Longrightarrow> step_ok m m (put k v)"
  by (auto simp: step_ok_def put_def moves_def ps_ok_dset)

lemma step_put_pos: "step_ok m m (put_pos k)"
  by (auto simp: step_ok_def put_pos_def moves_def ps_ok_dset_pos)

lemma step_advance: "n \<le> m \<Longrightarrow> step_ok m (m - n) (advance_pos n)"
  by (auto simp: step_ok_def advance_pos_def moves_def)

lemma step_return: "step_ok m m' return_now"
  by (auto simp: step_ok_def return_now_def moves_def)

lemma step_okI:
  assumes "\<And>s. ppos s + m \<le> length (pbits s) \<Longrightarrow> fine s (c s)"
  shows "step_ok m 0 c"
  unfolding step_ok_def
proof (intro allI impI conjI)
  fix s :: pst assume s: "ppos s + m \<le> length (pbits s)"
  then show f: "fine s (c s)" by (rule assms)
  fix s' assume "c s = Next s'"
  with f show "ppos s' + 0 \<le> length (pbits s)" by (simp add: moves_def)
qed

lemma safeD: "safe m cs \<Longrightarrow> ppos s + m \<le> length (pbits s) \<Longrightarrow> fine s (block cs s)"
  by (simp add: safe_def)

lemma fine_self: "ppos s + m \<le> length (pbits s) \<Longrightarrow> moves s s"
  by (simp add: moves_refl)

lemma step_when: "(b \<Longrightarrow> safe m cs) \<Longrightarrow> step_ok m 0 (do_when b cs)"
  by (rule step_okI) (auto simp: do_when_def intro: safeD fine_self)

lemma step_branch: "(b \<Longrightarrow> safe m cs) \<Longrightarrow> (\<not> b \<Longrightarrow> safe m ds) \<Longrightarrow> step_ok m 0 (branch b cs ds)"
  by (rule step_okI) (auto simp: branch_def intro: safeD)

lemma step_when_fits: "safe (max m n) cs \<Longrightarrow> step_ok m 0 (when_fits n cs)"
  by (rule step_okI) (auto simp: when_fits_def intro: safeD fine_self)

lemma step_branch_fits:
  "(b \<Longrightarrow> safe (max m n) cs) \<Longrightarrow> safe m ds \<Longrightarrow> step_ok m 0 (branch_fits b n cs ds)"
  by (rule step_okI) (auto simp: branch_fits_def intro: safeD)

lemma step_read:
  assumes "n \<le> m" "\<And>v. 0 \<le> v \<Longrightarrow> v < 2 ^ n \<Longrightarrow> safe (m - n) (k v)"
  shows "step_ok m 0 (read n k)"
proof (rule step_okI)
  fix s :: pst assume s: "ppos s + m \<le> length (pbits s)"
  let ?v = "bits_val (take n (drop (ppos s) (pbits s)))"
  have e: "extract_bits (pbits s) (ppos s) n = Inr ?v" using s assms(1) by (simp add: extract_bits_eq)
  have "safe (m - n) (k ?v)" using extract_bits_bounds [OF e] by (auto intro: assms(2))
  moreover have "ppos (s\<lparr>ppos := ppos s + n\<rparr>) + (m - n) \<le> length (pbits (s\<lparr>ppos := ppos s + n\<rparr>))"
    using s assms(1) by simp
  ultimately have "fine (s\<lparr>ppos := ppos s + n\<rparr>) (block (k ?v) (s\<lparr>ppos := ppos s + n\<rparr>))"
    unfolding safe_def by blast
  moreover have "moves s (s\<lparr>ppos := ppos s + n\<rparr>)" using s assms(1) by (simp add: moves_def)
  ultimately have "fine s (block (k ?v) (s\<lparr>ppos := ppos s + n\<rparr>))"
    by (rule fine_trans [rotated])
  then show "fine s (read n k s)" by (simp add: read_def e)
qed

lemma step_peek:
  assumes "n \<le> m" "\<And>v. 0 \<le> v \<Longrightarrow> v < 2 ^ n \<Longrightarrow> safe m (k v)"
  shows "step_ok m 0 (peek n k)"
proof (rule step_okI)
  fix s :: pst assume s: "ppos s + m \<le> length (pbits s)"
  let ?v = "bits_val (take n (drop (ppos s) (pbits s)))"
  have e: "extract_bits (pbits s) (ppos s) n = Inr ?v" using s assms(1) by (simp add: extract_bits_eq)
  have "safe m (k ?v)" using extract_bits_bounds [OF e] by (auto intro: assms(2))
  then have "fine s (block (k ?v) s)" using s unfolding safe_def by blast
  then show "fine s (peek n k s)" by (simp add: peek_def e)
qed

subsection \<open>The interface of a PDU parser\<close>

locale pdu_parser =
  fixes parse :: "bits \<Rightarrow> nat \<Rightarrow> (dict \<times> nat) res"
  assumes parse_total: "pos \<le> length bits \<Longrightarrow>
    \<exists>d pos'. parse bits pos = Inr (d, pos') \<and> pos \<le> pos' \<and> pos' \<le> length bits \<and> ps_ok bits d"
begin

lemma never_raises: "pos \<le> length bits \<Longrightarrow> parse bits pos \<noteq> Inl e"
  using parse_total by fastforce

lemma step_call_as: "k \<noteq> ''payload_start'' \<Longrightarrow> step_ok m 0 (call_as k parse)"
proof (rule step_okI)
  fix s :: pst assume k: "k \<noteq> ''payload_start''" and "ppos s + m \<le> length (pbits s)"
  then obtain d p where "parse (pbits s) (ppos s) = Inr (d, p)" "ppos s \<le> p" "p \<le> length (pbits s)"
    using parse_total [of "ppos s" "pbits s"] by fastforce
  then show "fine s (call_as k parse s)" using k by (simp add: call_as_def moves_def ps_ok_dset)
qed

lemma step_call_update: "step_ok m m (call_update (\<lambda>bits pos. fst_res (parse bits pos)))"
  unfolding step_ok_def
proof (intro allI impI)
  fix s :: pst assume "ppos s + m \<le> length (pbits s)"
  moreover from this obtain d p where "parse (pbits s) (ppos s) = Inr (d, p)" "ps_ok (pbits s) d"
    using parse_total [of "ppos s" "pbits s"] by fastforce
  ultimately show "fine s (call_update (\<lambda>bits pos. fst_res (parse bits pos)) s) \<and>
      (\<forall>s'. call_update (\<lambda>bits pos. fst_res (parse bits pos)) s = Next s' \<longrightarrow> ppos s' + m \<le> length (pbits s))"
    by (auto simp: call_update_def moves_def ps_ok_dupdate)
qed

lemma call_dict_total:
  "pos \<le> length bits \<Longrightarrow> \<exists>v. bind_res (fst_res (parse bits pos)) (\<lambda>d. Inr (VDict d)) = Inr v"
  using parse_total [of pos bits] by fastforce

end

text \<open>A value computed by another function, stored under a key.\<close>

lemma step_call_total:
  assumes "k \<noteq> ''payload_start''" "\<And>bits pos. pos \<le> length bits \<Longrightarrow> \<exists>v. f bits pos = Inr v"
  shows "step_ok m m (call_val k f)"
  unfolding step_ok_def
proof (intro allI impI)
  fix s :: pst assume "ppos s + m \<le> length (pbits s)"
  moreover from this obtain v where "f (pbits s) (ppos s) = Inr v"
    using assms(2) [of "ppos s" "pbits s"] by fastforce
  ultimately show "fine s (call_val k f s) \<and>
      (\<forall>s'. call_val k f s = Next s' \<longrightarrow> ppos s' + m \<le> length (pbits s))"
    using assms(1) by (auto simp: call_val_def moves_def ps_ok_dset)
qed

lemma pdu_parser_body:
  "safe 0 cs \<Longrightarrow> pdu_parser (\<lambda>bits pos. run_body cs bits pos [])"
proof
  fix pos :: nat and bits :: bits
  let ?s = "\<lparr>pbits = bits, ppos = pos, pdict = []\<rparr>"
  assume s: "safe 0 cs" and p: "pos \<le> length bits"
  have "fine ?s (block cs ?s)" using s p unfolding safe_def by simp
  then show "\<exists>d' pos'. run_body cs bits pos [] = Inr (d', pos') \<and> pos \<le> pos' \<and>
      pos' \<le> length bits \<and> ps_ok bits d'"
    by (cases "block cs ?s") (auto simp: run_body_def moves_def ps_ok_Nil)
qed

lemmas safe_rules = safe_Nil safe_Cons [OF step_need] safe_Cons [OF step_take_as] safe_Cons [OF step_put]
  safe_Cons [OF step_put_pos] safe_Cons [OF step_advance] safe_Cons [OF step_return]
  safe_Cons [OF step_when] safe_Cons [OF step_branch] safe_Cons [OF step_when_fits] safe_Cons [OF step_branch_fits]
  safe_Cons [OF step_read] safe_Cons [OF step_peek]

subsection \<open>Keys a body leaves alone\<close>

definition leaves :: "string \<Rightarrow> stmt list \<Rightarrow> bool" where
  "leaves key cs \<longleftrightarrow> (\<forall>s s'. block cs s = Next s' \<or> block cs s = Return s' \<longrightarrow>
     dget (pdict s') key = dget (pdict s) key)"

definition step_leaves :: "string \<Rightarrow> stmt \<Rightarrow> bool" where
  "step_leaves key c \<longleftrightarrow> (\<forall>s s'. c s = Next s' \<or> c s = Return s' \<longrightarrow>
     dget (pdict s') key = dget (pdict s) key)"

lemma leaves_Nil: "leaves key []"
  by (simp add: leaves_def)

lemma leaves_Cons: "step_leaves key c \<Longrightarrow> leaves key cs \<Longrightarrow> leaves key (c # cs)"
  unfolding leaves_def step_leaves_def
proof (intro allI impI)
  fix s s' :: pst
  assume c: "\<forall>s s'. c s = Next s' \<or> c s = Return s' \<longrightarrow> dget (pdict s') key = dget (pdict s) key"
    and cs: "\<forall>s s'. block cs s = Next s' \<or> block cs s = Return s' \<longrightarrow> dget (pdict s') key = dget (pdict s) key"
    and b: "block (c # cs) s = Next s' \<or> block (c # cs) s = Return s'"
  show "dget (pdict s') key = dget (pdict s) key"
  proof (cases "c s")
    case (Next t)
    then have "dget (pdict t) key = dget (pdict s) key" using c by blast
    moreover have "dget (pdict s') key = dget (pdict t) key" using b Next cs by auto
    ultimately show ?thesis by simp
  next
    case (Return t)
    then show ?thesis using b c by simp
  next
    case (Raise e)
    then show ?thesis using b by simp
  qed
qed

lemma leaves_need: "step_leaves key (need n)"
  by (simp add: step_leaves_def need_def)

lemma leaves_put: "k \<noteq> key \<Longrightarrow> step_leaves key (put k v)"
  by (auto simp: step_leaves_def put_def)

lemma leaves_put_pos: "k \<noteq> key \<Longrightarrow> step_leaves key (put_pos k)"
  by (auto simp: step_leaves_def put_pos_def)

lemma leaves_take_as: "k \<noteq> key \<Longrightarrow> step_leaves key (take_as k n)"
  by (auto simp: step_leaves_def take_as_def split: sum.splits)

lemma leaves_do_when: "leaves key cs \<Longrightarrow> step_leaves key (do_when b cs)"
  by (auto simp: step_leaves_def do_when_def leaves_def)

lemma leaves_when_fits: "leaves key cs \<Longrightarrow> step_leaves key (when_fits n cs)"
  by (auto simp: step_leaves_def when_fits_def leaves_def)

lemma leaves_branch: "leaves key cs \<Longrightarrow> leaves key ds \<Longrightarrow> step_leaves key (branch b cs ds)"
  by (auto simp: step_leaves_def branch_def leaves_def)

lemma leaves_read: "(\<And>v. leaves key (k v)) \<Longrightarrow> step_leaves key (read n k)"
  unfolding step_leaves_def read_def leaves_def by (auto split: sum.splits)

lemma leaves_call_val: "k \<noteq> key \<Longrightarrow> step_leaves key (call_val k f)"
  by (auto simp: step_leaves_def call_val_def split: sum.splits)

lemmas leaves_rules = leaves_Nil leaves_Cons leaves_need leaves_put leaves_put_pos leaves_take_as
  leaves_do_when leaves_when_fits leaves_branch leaves_read leaves_call_val

text \<open>Rules that evaluate a body on a concrete layout.\<close>

lemma take_as_run:
  "ppos s + n \<le> length (pbits s) \<Longrightarrow>
   take_as k n s = Next (s\<lparr>ppos := ppos s + n,
     pdict := dset k (VInt (bits_val (take n (drop (ppos s) (pbits s))))) (pdict s)\<rparr>)"
  by (simp add: take_as_def extract_bits_eq)

lemma read_run:
  "ppos s + n \<le> length (pbits s) \<Longrightarrow>
   read n k s = block (k (bits_val (take n (drop (ppos s) (pbits s))))) (s\<lparr>ppos := ppos s + n\<rparr>)"
  by (simp add: read_def extract_bits_eq)

lemma peek_run:
  "ppos s + n \<le> length (pbits s) \<Longrightarrow>
   peek n k s = block (k (bits_val (take n (drop (ppos s) (pbits s))))) s"
  by (simp add: peek_def extract_bits_eq)

lemmas stmt_simps = need_def put_def put_pos_def do_when_def branch_def when_fits_def branch_fits_def advance_pos_def
  return_now_def call_as_def call_val_def call_update_def take_as_run read_run peek_run

end
