(* ===== verification/MacParse.thy ===== *)
theory MacParse
  imports PyBlock
begin

unbundle bit_operations_syntax

text \<open>
  The downlink MAC PDU parser of \<open>scripts/decode_dl.py\<close>: \<open>parse_mac_pdu\<close> and the parsers of its four
  PDU types, the channel allocation element, the SYSINFO and ACCESS-DEFINE broadcasts and the
  helpers \<open>frequency_calc\<close> and \<open>_length_indicator_meaning\<close>.

  Each function is a statement list with the guards in the code's order.  Every parser is an
  instance of \<open>pdu_parser\<close>: it is total on every bit string and never reads past the end.
\<close>

definition frequency_calc :: "int \<Rightarrow> int \<Rightarrow> int \<Rightarrow> int" where
  "frequency_calc carrier band offset =
     (let freq = band * 100000000 + carrier * 25000
      in if offset = 1 then freq + 6250
         else if offset = 2 then freq - 6250
         else if offset = 3 then freq + 12500
         else freq)"

definition length_indicator_meaning :: "int \<Rightarrow> string" where
  "length_indicator_meaning li =
     (if li = 0 then ''NULL PDU (no TM-SDU)''
      else if 1 \<le> li \<and> li \<le> 62 then str_int li @ '' octets''
      else if li = 63 then ''second half-slot stolen''
      else ''?'')"

definition ADDR_NAMES :: "(int \<times> string) list" where
  "ADDR_NAMES = [(0, ''NULL''), (1, ''SSI''), (2, ''Event Label''), (3, ''USSI''),
     (4, ''SMI''), (5, ''SSI+Event''), (6, ''SSI+Usage''), (7, ''SMI+Event'')]"

definition parse_channel_allocation :: "bits \<Rightarrow> nat \<Rightarrow> (dict \<times> nat) res" where
  "parse_channel_allocation bits pos = run_body
     [need 2,
      read 2 (\<lambda>alloc_type.
      [put ''allocation_type'' (VInt alloc_type),
       put ''allocation_type_name''
         (name_of [(0, ''Replace''), (1, ''Add''), (2, ''Keep''), (3, ''Reserved'')] ''?'' alloc_type),
       need 4, take_as ''timeslot_assigned'' 4,
       need 2,
       read 2 (\<lambda>updn.
       [put ''uplink_downlink_assigned'' (VInt updn),
        put ''uplink_downlink_assigned_name''
          (name_of [(0, ''UL+DL''), (1, ''DL only''), (2, ''UL only''), (3, ''Reserved'')] ''?'' updn),
        need 1, take_as ''clch_permission'' 1,
        need 1, take_as ''cell_change_flag'' 1,
        need 12, take_as ''carrier_number'' 12,
        need 1,
        read 1 (\<lambda>ext_flag.
        [put ''extended_carrier_flag'' (VInt ext_flag),
         do_when (ext_flag = 1)
           [when_fits 10
             [take_as ''frequency_band'' 4, take_as ''offset'' 2, take_as ''duplex_spacing'' 3,
              take_as ''reverse_operation'' 1]],
         need 2,
         read 2 (\<lambda>monitoring_pattern.
         [put ''monitoring_pattern'' (VInt monitoring_pattern),
          do_when (monitoring_pattern = 0)
            [when_fits 2 [take_as ''frame18_monitoring_pattern'' 2]]])])])])] bits pos []"

definition parse_mac_u_signal :: "bits \<Rightarrow> nat \<Rightarrow> (dict \<times> nat) res" where
  "parse_mac_u_signal bits pos = run_body
     [need 1, take_as ''fill_bit'' 1,
      need 2, take_as ''encryption_mode'' 2,
      need 6,
      read 6 (\<lambda>li.
      [put ''length_indicator'' (VInt li),
       put ''length_indicator_meaning'' (VStr (length_indicator_meaning li)),
       need 3,
       read 3 (\<lambda>addr_type.
       [put ''address_type'' (VInt addr_type),
        put ''address_type_name'' (name_of ADDR_NAMES ''?'' addr_type),
        branch_fits (addr_type = 1 \<or> addr_type = 3) 24 [take_as ''SSI'' 24]
          [do_when (addr_type = 2) [when_fits 10 [take_as ''event_label'' 10]]],
        put_pos ''payload_start''])])] bits pos []"

text \<open>The address field of a MAC-RESOURCE, by its type.\<close>

definition mac_address :: "int \<Rightarrow> stmt" where
  "mac_address addr_type =
     branch (addr_type = 0) [put ''address'' (VStr ''NULL (filler PDU)'')]
     [branch (addr_type = 1) [when_fits 24 [take_as ''SSI'' 24]]
     [branch (addr_type = 2) [when_fits 10 [take_as ''event_label'' 10]]
     [branch (addr_type = 3) [when_fits 24 [take_as ''USSI'' 24]]
     [branch (addr_type = 4) [when_fits 48 [take_as ''SMI'' 48]]
     [branch (addr_type = 5)
        [when_fits 24 [take_as ''SSI'' 24], when_fits 10 [take_as ''event_label'' 10]]
     [branch (addr_type = 6)
        [when_fits 24 [take_as ''SSI'' 24], when_fits 6 [take_as ''usage_marker'' 6]]
     [do_when (addr_type = 7)
        [when_fits 48 [take_as ''SMI'' 48], when_fits 10 [take_as ''event_label'' 10]]]]]]]]]"

text \<open>The three flags after a non-null address and their optional elements.\<close>

definition mac_flags :: "stmt list" where
  "mac_flags =
     [read 1 (\<lambda>pwr_flag.
      [put ''power_control_flag'' (VInt pwr_flag),
       do_when (pwr_flag = 1) [when_fits 4 [take_as ''power_control_element'' 4]],
       when_fits 1
         [read 1 (\<lambda>slot_grant_flag.
          [put ''slot_granting_flag'' (VInt slot_grant_flag),
           do_when (slot_grant_flag = 1) [when_fits 8 [take_as ''slot_granting'' 8]]])],
       when_fits 1
         [read 1 (\<lambda>chan_alloc_flag.
          [put ''channel_allocation_flag'' (VInt chan_alloc_flag),
           do_when (chan_alloc_flag = 1)
             [call_as ''channel_allocation'' parse_channel_allocation]])]])]"

definition parse_mac_resource :: "bits \<Rightarrow> nat \<Rightarrow> (dict \<times> nat) res" where
  "parse_mac_resource bits pos = run_body
     [need 1,
      read 1 (\<lambda>fill_bit.
      [put ''fill_bit'' (VInt fill_bit),
       need 1, take_as ''position_of_grant'' 1,
       need 2, take_as ''encryption_mode'' 2,
       need 1, take_as ''random_access_flag'' 1,
       need 6,
       read 6 (\<lambda>length_indicator.
       [put ''length_indicator'' (VInt length_indicator),
        put ''length_indicator_meaning'' (VStr (length_indicator_meaning length_indicator)),
        need 3,
        read 3 (\<lambda>addr_type.
        [put ''address_type'' (VInt addr_type),
         put ''address_type_name'' (name_of ADDR_NAMES ''?'' addr_type),
         mac_address addr_type,
         do_when (fill_bit = 1 \<and> addr_type = 0) [put ''is_null_pdu'' (VBool True)],
         do_when (addr_type \<noteq> 0) [when_fits 1 mac_flags],
         put_pos ''payload_start''])])])] bits pos []"

definition parse_mac_frag_end :: "bits \<Rightarrow> nat \<Rightarrow> (dict \<times> nat) res" where
  "parse_mac_frag_end bits pos = run_body
     [need 1,
      read 1 (\<lambda>sub_type.
      [put ''sub_type'' (VStr (if sub_type \<noteq> 0 then ''MAC-END'' else ''MAC-FRAG'')),
       need 1, take_as ''fill_bit'' 1,
       put_pos ''payload_start''])] bits pos []"

definition parse_access_define :: "bits \<Rightarrow> nat \<Rightarrow> (dict \<times> nat) res" where
  "parse_access_define bits pos = run_body
     [need 1, take_as ''common_or_assigned'' 1,
      need 2, take_as ''access_code'' 2,
      need 4, take_as ''imm'' 4,
      need 4, take_as ''wt'' 4,
      need 4, take_as ''nu'' 4,
      need 1, take_as ''frame_length_factor'' 1,
      need 4, take_as ''timeslot_pointer'' 4,
      need 3, take_as ''min_pdu_priority'' 3,
      need 1,
      read 1 (\<lambda>opt_flag.
      [put ''optional_field_flag'' (VInt opt_flag),
       do_when (opt_flag = 1)
         [when_fits 4
           [read 4 (\<lambda>opt_type.
            [put ''optional_field_type'' (VInt opt_type),
             branch_fits (opt_type = 0) 16 [take_as ''subscriber_class'' 16]
               [do_when (opt_type = 1) [when_fits 24 [take_as ''GSSI'' 24]]]])]]])] bits pos []"

definition parse_sysinfo_type2 :: "bits \<Rightarrow> nat \<Rightarrow> (dict \<times> nat) res" where
  "parse_sysinfo_type2 bits pos = run_body
     [need 12,
      read 12 (\<lambda>main_carrier.
      [put ''Main_Carrier'' (VInt main_carrier),
       need 4,
       read 4 (\<lambda>frequency_band.
       [put ''Frequency_Band'' (VInt frequency_band),
        need 2,
        read 2 (\<lambda>offset.
        [put ''Offset'' (VInt offset),
         need 3, take_as ''Duplex_Spacing'' 3,
         need 1, take_as ''Reverse_Operation'' 1,
         put ''DL_Frequency_Hz'' (VInt (frequency_calc main_carrier frequency_band offset)),
         need 2, take_as ''Num_SC'' 2,
         need 3, take_as ''MS_TXPwr_Max'' 3,
         need 4, take_as ''RXLevel_Access_Min'' 4,
         need 4, take_as ''Access_Parameter'' 4,
         need 4, take_as ''Radio_DL_Timeout'' 4,
         need 1,
         read 1 (\<lambda>hyper_cipher.
         [put ''Hyper_Cipher_Flag'' (VInt hyper_cipher),
          need 16,
          branch (hyper_cipher = 0) [take_as ''Hyperframe'' 16] [take_as ''CCK_ID'' 16],
          need 2, take_as ''Optional_Field'' 2,
          need 20, take_as ''Optional_Field_Value'' 20,
          need 14, take_as ''Location_Area'' 14])])])])] bits pos []"

definition parse_mac_broadcast :: "bits \<Rightarrow> nat \<Rightarrow> (dict \<times> nat) res" where
  "parse_mac_broadcast bits pos = run_body
     [need 2,
      read 2 (\<lambda>sub_type.
      [put ''sub_type'' (VInt sub_type),
       put ''sub_type_name''
         (name_of [(0, ''SYSINFO''), (1, ''ACCESS-DEFINE''), (2, ''SYSINFO+ACCESS-DEFINE''),
                   (3, ''Reserved'')] ''?'' sub_type),
       branch (sub_type = 0) [call_as ''sysinfo'' parse_sysinfo_type2]
       [branch (sub_type = 1) [call_as ''access_define'' parse_access_define]
       [do_when (sub_type = 2)
          [call_as ''sysinfo'' parse_sysinfo_type2, call_as ''access_define'' parse_access_define]]],
       put_pos ''payload_start''])] bits pos []"

definition MAC_PDU_NAMES :: "(int \<times> string) list" where
  "MAC_PDU_NAMES = [(0, ''MAC-RESOURCE''), (1, ''MAC-FRAG/END''), (2, ''MAC-BROADCAST''), (3, ''MAC-U-SIGNAL'')]"

definition mac_pdu_body :: "stmt list" where
  "mac_pdu_body =
     [read 2 (\<lambda>pdu_type.
      [put ''type'' (VInt pdu_type),
       put ''type_name'' (name_of MAC_PDU_NAMES ''?'' pdu_type),
       branch (pdu_type = 0) [call_update (\<lambda>bits pos. fst_res (parse_mac_resource bits pos))]
       [branch (pdu_type = 1) [call_update (\<lambda>bits pos. fst_res (parse_mac_frag_end bits pos))]
       [branch (pdu_type = 2) [call_update (\<lambda>bits pos. fst_res (parse_mac_broadcast bits pos))]
       [do_when (pdu_type = 3) [call_update (\<lambda>bits pos. fst_res (parse_mac_u_signal bits pos))]]]]])]"

definition parse_mac_pdu :: "bits \<Rightarrow> dict res" where
  "parse_mac_pdu bits =
     (if length bits < 4 then Inr [(''type'', VStr ''TOO_SHORT'')]
      else fst_res (run_body mac_pdu_body bits 0 []))"

subsection \<open>Totality\<close>

interpretation chan_alloc: pdu_parser parse_channel_allocation
  unfolding parse_channel_allocation_def by (rule pdu_parser_body) (rule safe_rules | simp)+

interpretation u_signal: pdu_parser parse_mac_u_signal
  unfolding parse_mac_u_signal_def by (rule pdu_parser_body) (rule safe_rules | simp)+

interpretation frag_end: pdu_parser parse_mac_frag_end
  unfolding parse_mac_frag_end_def by (rule pdu_parser_body) (rule safe_rules | simp)+

interpretation access_define: pdu_parser parse_access_define
  unfolding parse_access_define_def by (rule pdu_parser_body) (rule safe_rules | simp)+

interpretation sysinfo: pdu_parser parse_sysinfo_type2
  unfolding parse_sysinfo_type2_def by (rule pdu_parser_body) (rule safe_rules | simp)+

lemma step_mac_address: "step_ok m 0 (mac_address addr_type)"
  unfolding mac_address_def
  by (rule step_branch; (rule safe_rules | simp)+)

lemmas broadcast_rules = safe_rules safe_Cons [OF step_mac_address]
  safe_Cons [OF chan_alloc.step_call_as] safe_Cons [OF sysinfo.step_call_as]
  safe_Cons [OF access_define.step_call_as]

interpretation mac_resource: pdu_parser parse_mac_resource
  unfolding parse_mac_resource_def mac_flags_def
  by (rule pdu_parser_body) (rule broadcast_rules | simp)+

interpretation mac_broadcast: pdu_parser parse_mac_broadcast
  unfolding parse_mac_broadcast_def
  by (rule pdu_parser_body) (rule broadcast_rules | simp)+

lemma parse_mac_pdu_body:
  assumes "4 \<le> length bits"
  obtains d where "parse_mac_pdu bits = Inr d" "ps_ok bits d"
proof -
  let ?s = "\<lparr>pbits = bits, ppos = 0, pdict = []\<rparr>"
  have "safe 2 mac_pdu_body"
    unfolding mac_pdu_body_def
    by (rule safe_rules safe_Cons [OF mac_resource.step_call_update] safe_Cons [OF frag_end.step_call_update]
        safe_Cons [OF mac_broadcast.step_call_update] safe_Cons [OF u_signal.step_call_update] | simp)+
  from safeD [OF this, of ?s] assms show thesis
    by (cases "block mac_pdu_body ?s")
      (auto intro!: that simp: parse_mac_pdu_def run_body_def moves_def ps_ok_Nil)
qed

lemma bits_val_1 [simp]: "bits_val [b] = of_bool b"
  by (simp add: bits_val_Cons)

lemma to_bits_1: "to_bits (Suc 0) v = [odd v]"
  by (simp add: to_bits_def bit_0)

subsection \<open>Properties\<close>

text \<open>C0. The MAC parser is total: on every bit string, however short or malformed, \<open>parse_mac_pdu\<close>
  returns a dictionary (no IndexError), and a recorded payload start lies inside the bits.\<close>

theorem parse_mac_pdu_total:
  "\<exists>d. parse_mac_pdu bits = Inr d \<and>
     (\<forall>v. dget d ''payload_start'' = Some v \<longrightarrow> (\<exists>p. v = VInt (int p) \<and> p \<le> length bits))"
proof (cases "4 \<le> length bits")
  case True
  then show ?thesis using parse_mac_pdu_body ps_okD by metis
qed (simp add: parse_mac_pdu_def)

theorem parse_mac_pdu_total_witness: "\<exists>d. parse_mac_pdu [False, True, False] = Inr d"
  using parse_mac_pdu_total [of "[False, True, False]"] by blast

text \<open>The LLC boundary of an addressed MAC-RESOURCE: for every header with an SSI and no channel
  allocation, whatever its other fields, the parser recovers SSI and length indicator and places
  the payload after the 40-bit base, the three mandatory flags and the optional elements whose
  flags are set.\<close>

theorem mac_resource_boundary:
  fixes pc sg :: "bits"
  assumes "0 \<le> li" "li < 64" "0 \<le> ssi" "ssi < 2 ^ 24" "length pc = (if p then 4 else 0)"
    and "length sg = (if g then 8 else 0)"
  shows "\<exists>d. parse_mac_pdu ([False, False] @ [fill, pog] @ [e1, e0] @ [ra] @ to_bits 6 li @ to_bits 3 1 @
        to_bits 24 ssi @ [p] @ pc @ [g] @ sg @ [False] @ sdu) = Inr d \<and>
      dget d ''SSI'' = Some (VInt ssi) \<and> dget d ''length_indicator'' = Some (VInt li) \<and>
      dget d ''type_name'' = Some (VStr ''MAC-RESOURCE'') \<and>
      dget d ''payload_start'' = Some (VInt (43 + (if p then 4 else 0) + (if g then 8 else 0)))"
proof -
  have v: "bits_val (to_bits 6 li) = li" "bits_val (to_bits 24 ssi) = ssi" "bits_val (to_bits 3 1) = 1"
    using assms by (simp_all add: bits_val_to_bits_id)
  show ?thesis
    using assms(5,6)
    by (cases p; cases g)
      (simp_all add: parse_mac_pdu_def mac_pdu_body_def run_body_def parse_mac_resource_def
        mac_flags_def mac_address_def stmt_simps v bits_val_Cons dupdate_def
        MAC_PDU_NAMES_def)
qed

theorem mac_resource_boundary_witness:
  "\<exists>d. parse_mac_pdu ([False, False] @ [False, False] @ [False, False] @ [False] @ to_bits 6 9 @ to_bits 3 1 @
        to_bits 24 2600001 @ [False] @ [] @ [False] @ [] @ [False] @ []) = Inr d \<and>
      dget d ''SSI'' = Some (VInt 2600001) \<and> dget d ''payload_start'' = Some (VInt 43)"
proof -
  have "(0::int) \<le> 9" "(9::int) < 64" "(0::int) \<le> 2600001" "(2600001::int) < 2 ^ 24"
    "length ([]::bits) = (if False then 4 else 0)" "length ([]::bits) = (if False then 8 else 0)" by simp_all
  from mac_resource_boundary [OF this, of False False False False False "[]"] show ?thesis by auto
qed

text \<open>The D-MLE-SYSINFO layout: from the 92 bits that carry a given carrier, band, offset,
  hyperframe (or CCK identifier, by the flag) and location area the parser consumes exactly 92,
  returns those fields and the downlink frequency computed from the first three; with fewer bits
  it returns early without raising.\<close>

theorem sysinfo_fixed_length:
  assumes "0 \<le> c" "c < 2 ^ 12" "0 \<le> b" "b < 2 ^ 4" "0 \<le> f" "f < 2 ^ 2" "length mid = 21"
    and "0 \<le> hf" "hf < 2 ^ 16" "length opt = 22" "0 \<le> la" "la < 2 ^ 14"
  shows "(\<exists>d. parse_sysinfo_type2 (pre @ to_bits 12 c @ to_bits 4 b @ to_bits 2 f @ mid @ [h] @
        to_bits 16 hf @ opt @ to_bits 14 la @ rest) (length pre) = Inr (d, length pre + 92) \<and>
      dget d ''DL_Frequency_Hz'' = Some (VInt (frequency_calc c b f)) \<and>
      dget d (if h then ''CCK_ID'' else ''Hyperframe'') = Some (VInt hf) \<and>
      dget d (if h then ''Hyperframe'' else ''CCK_ID'') = None \<and>
      dget d ''Location_Area'' = Some (VInt la)) \<and>
    (pos \<le> length bits \<and> length bits < pos + 92 \<longrightarrow>
      (\<exists>d pos'. parse_sysinfo_type2 bits pos = Inr (d, pos') \<and> pos' \<le> length bits))"
proof (intro conjI impI)
  have v: "bits_val (to_bits 12 c) = c" "bits_val (to_bits 4 b) = b" "bits_val (to_bits 2 f) = f"
    "bits_val (to_bits 16 hf) = hf" "bits_val (to_bits 14 la) = la"
    using assms by (simp_all add: bits_val_to_bits_id)
  show "\<exists>d. parse_sysinfo_type2 (pre @ to_bits 12 c @ to_bits 4 b @ to_bits 2 f @ mid @ [h] @
        to_bits 16 hf @ opt @ to_bits 14 la @ rest) (length pre) = Inr (d, length pre + 92) \<and>
      dget d ''DL_Frequency_Hz'' = Some (VInt (frequency_calc c b f)) \<and>
      dget d (if h then ''CCK_ID'' else ''Hyperframe'') = Some (VInt hf) \<and>
      dget d (if h then ''Hyperframe'' else ''CCK_ID'') = None \<and>
      dget d ''Location_Area'' = Some (VInt la)"
    using assms(7,10)
    by (cases h) (simp_all add: parse_sysinfo_type2_def run_body_def stmt_simps v)
next
  assume "pos \<le> length bits \<and> length bits < pos + 92"
  then show "\<exists>d pos'. parse_sysinfo_type2 bits pos = Inr (d, pos') \<and> pos' \<le> length bits"
    using sysinfo.parse_total [of pos bits] by blast
qed

theorem sysinfo_fixed_length_witness:
  "\<exists>d. parse_sysinfo_type2 ([] @ to_bits 12 1521 @ to_bits 4 4 @ to_bits 2 0 @ replicate 21 False @ [False] @
      to_bits 16 0 @ replicate 22 False @ to_bits 14 1 @ []) (length ([]::bits)) = Inr (d, length ([]::bits) + 92) \<and>
     dget d ''Location_Area'' = Some (VInt 1)"
proof -
  have "(0::int) \<le> 1521" "(1521::int) < 2 ^ 12" "(0::int) \<le> 4" "(4::int) < 2 ^ 4" "(0::int) \<le> 0" "(0::int) < 2 ^ 2"
    "length (replicate 21 False) = 21" "(0::int) \<le> 0" "(0::int) < 2 ^ 16" "length (replicate 22 False) = 22"
    "(0::int) \<le> 1" "(1::int) < 2 ^ 14" by simp_all
  from sysinfo_fixed_length [OF this, of "[]" False "[]" 0 "[]"] show ?thesis by blast
qed

end
