(* ===== verification/LlcMle.thy ===== *)
theory LlcMle
  imports MacParse Crc
begin

text \<open>
  The layers above the MAC in \<open>scripts/decode_dl.py\<close>: the LLC header with its optional CRC-32
  (\<open>parse_llc\<close>), the MLE discriminator (\<open>parse_mle\<close>), the mobility management bodies
  (\<open>parse_mm_pdu\<close>) and MM carried directly over the LLC (\<open>parse_direct_mm\<close>).

  \<open>parse_mle\<close> calls \<open>tetra_cmce.parse_cmce_dl\<close> and \<open>tetra_mm.parse_mm_dl\<close> when these modules can be
  imported; they are not in the repository and are parameters here: \<open>None\<close> is the \<open>ImportError\<close>
  branch, \<open>Some f\<close> a parser that may itself raise.
\<close>

type_synonym ext_parser = "(bits \<Rightarrow> nat \<Rightarrow> pyval res) option"

text \<open>\<open>try: from m import f; r[k] = f(bits, pos); except ImportError: pass\<close>\<close>

definition try_ext :: "string \<Rightarrow> ext_parser \<Rightarrow> stmt" where
  "try_ext k ext s = (case ext of None \<Rightarrow> Next s | Some f \<Rightarrow> call_val k f s)"

definition ext_total :: "ext_parser \<Rightarrow> bool" where
  "ext_total ext \<longleftrightarrow>
     (\<forall>f bits pos. ext = Some f \<longrightarrow> pos \<le> length bits \<longrightarrow> (\<exists>v. f bits pos = Inr v))"

definition name_or_unknown :: "(int \<times> string) list \<Rightarrow> int \<Rightarrow> pyval" where
  "name_or_unknown names v = name_of names (unknown_name v) v"

definition LLC_PDU_NAMES :: "(int \<times> string) list" where
  "LLC_PDU_NAMES = [(0, ''BL-ADATA''), (1, ''BL-DATA''), (2, ''BL-UDATA''), (3, ''BL-ACK''),
     (4, ''BL-ADATA+FCS''), (5, ''BL-DATA+FCS''), (6, ''BL-UDATA+FCS''), (7, ''BL-ACK+FCS''),
     (8, ''AL-SETUP''), (9, ''AL-DATA/AR/FINAL''), (10, ''AL-UDATA/UFINAL''),
     (11, ''AL-ACK/RNR''), (12, ''AL-RECONNECT''), (13, ''SUPP-LLC''),
     (14, ''L2SigPdu''), (15, ''AL-DISC'')]"

text \<open>The frame check, over the PDU from its header to the end of the bits.\<close>

definition fcs_step :: "nat \<Rightarrow> bool \<Rightarrow> stmt" where
  "fcs_step header_start has_fcs s =
     (if has_fcs \<and> 32 \<le> int (length (pbits s)) - int header_start
      then put ''fcs_ok'' (VBool (crc32_check_llc (drop header_start (pbits s)))) s
      else Next s)"

definition seq_bit :: "string \<Rightarrow> stmt" where
  "seq_bit k = when_fits 1 [take_as k 1]"

definition llc_header :: "int \<Rightarrow> stmt" where
  "llc_header pdu_type =
     branch (pdu_type = 2) [put_pos ''payload_start'']
     [branch (pdu_type = 0) [seq_bit ''nr'', seq_bit ''ns'', put_pos ''payload_start'']
     [branch (pdu_type = 1) [seq_bit ''ns'', put_pos ''payload_start'']
     [branch (pdu_type = 3) [seq_bit ''nr'', put_pos ''payload_start'']
     [branch (pdu_type = 14) [put_pos ''payload_start'', put ''direct_mm'' (VBool True)]
     [do_when (pdu_type \<in> {4, 5, 6, 7})
       [branch (pdu_type = 4) [seq_bit ''nr'', seq_bit ''ns'']
        [branch (pdu_type = 5) [seq_bit ''ns'']
        [do_when (pdu_type = 7) [seq_bit ''nr'']]],
        put_pos ''payload_start'', put ''has_fcs'' (VBool True)]]]]]]"

definition llc_body :: "nat \<Rightarrow> stmt list" where
  "llc_body header_start =
     [read 4 (\<lambda>pdu_type.
      [put ''llc_type'' (VInt pdu_type),
       put ''llc_type_name'' (name_or_unknown LLC_PDU_NAMES pdu_type),
       llc_header pdu_type,
       fcs_step header_start (pdu_type \<in> {4, 5, 6, 7})])]"

definition parse_llc :: "bits \<Rightarrow> nat \<Rightarrow> dict res" where
  "parse_llc bits pos =
     (if length bits < pos + 4 then Inr [(''llc_type'', VStr ''TOO_SHORT'')]
      else fst_res (run_body (llc_body pos) bits pos []))"

definition MLE_PDU_NAMES :: "(int \<times> string) list" where
  "MLE_PDU_NAMES = [(0, ''Reserved''), (1, ''MM''), (2, ''CMCE''), (3, ''Reserved''),
     (4, ''SNDCP''), (5, ''MLE''), (6, ''TETRA-Mgmt''), (7, ''Testing'')]"

definition CMCE_NAMES :: "(int \<times> string) list" where
  "CMCE_NAMES = [(0, ''D-ALERT''), (1, ''D-CALL-PROCEEDING''), (2, ''D-CONNECT''), (3, ''D-CONNECT-ACK''),
     (4, ''D-DISCONNECT''), (5, ''D-INFO''), (6, ''D-RELEASE''), (7, ''D-SETUP''),
     (8, ''D-STATUS''), (9, ''D-TX-CEASED''), (10, ''D-TX-CONTINUE''), (11, ''D-TX-GRANTED''),
     (12, ''D-TX-WAIT''), (13, ''D-TX-INTERRUPT''), (14, ''D-CALL-RESTORE''),
     (15, ''D-SDS-DATA''), (16, ''D-FACILITY''), (31, ''NOT-SUPPORTED'')]"

definition MM_NAMES :: "(int \<times> string) list" where
  "MM_NAMES = [(0, ''D-OTAR''), (1, ''D-AUTH''), (2, ''D-CK-CHG-DEMAND''), (3, ''D-DISABLE''),
     (4, ''D-ENABLE''), (5, ''D-LOC-UPD-ACCEPT''), (6, ''D-LOC-UPD-CMD''),
     (7, ''D-LOC-UPD-REJ''), (8, ''Reserved''), (9, ''D-LOC-UPD-PROC''),
     (10, ''D-ATTACH-DETACH-GRP-ID''), (11, ''D-ATTACH-DETACH-GRP-ID-ACK''),
     (12, ''D-MM-STATUS'')]"

definition LOC_UPD_ACCEPT_NAMES :: "(int \<times> string) list" where
  "LOC_UPD_ACCEPT_NAMES = [(0, ''Roaming''), (1, ''Migrating''), (2, ''Periodic''),
     (3, ''ITSI-Attach''), (4, ''Call-Restoration'')]"

text \<open>A presence flag and, where it is set and the element fits, the element.\<close>

definition optional_element :: "string \<Rightarrow> string \<Rightarrow> nat \<Rightarrow> stmt" where
  "optional_element flag k n =
     when_fits 1
       [read 1 (\<lambda>p. [put flag (VInt p), do_when (p = 1) [when_fits n [take_as k n]]])]"

definition loc_upd_accept_body :: "stmt list" where
  "loc_upd_accept_body =
     [need 3,
      read 3 (\<lambda>upd_type.
      [put ''location_update_accept_type'' (VInt upd_type),
       put ''location_update_accept_type_name'' (name_or_unknown LOC_UPD_ACCEPT_NAMES upd_type),
       need 1,
       read 1 (\<lambda>o_bit.
       [put ''optional_fields_present'' (VInt o_bit),
        do_when (o_bit = 1)
          [optional_element ''ssi_present'' ''ssi'' 24,
           optional_element ''address_extension_present'' ''address_extension'' 24,
           optional_element ''subscriber_class_present'' ''subscriber_class'' 16,
           optional_element ''energy_saving_info_present'' ''energy_saving_info'' 14,
           optional_element ''frame18_scch_info_present'' ''frame18_scch_info'' 6,
           when_fits 1
             [read 1 (\<lambda>more.
              [put ''more_optional_bits'' (VInt more),
               do_when (more = 1)
                 [when_fits 15 [take_as ''type3_field_id'' 4, take_as ''type3_payload_len'' 11]]])]],
        put_pos ''payload_end''])])]"

definition loc_upd_type_body :: "(int \<times> string) list \<Rightarrow> stmt" where
  "loc_upd_type_body names =
     when_fits 3
       [read 3 (\<lambda>upd_type.
        [put ''location_update_type'' (VInt upd_type),
         put ''location_update_type_name'' (name_or_unknown names upd_type)])]"

definition parse_mm_pdu :: "bits \<Rightarrow> nat \<Rightarrow> int \<Rightarrow> dict res" where
  "parse_mm_pdu bits pos mm_type = fst_res (run_body
     [branch (mm_type = 5) loc_upd_accept_body
     [branch (mm_type = 9) [loc_upd_type_body LOC_UPD_ACCEPT_NAMES, put_pos ''payload_end'']
     [branch (mm_type = 7) [when_fits 5 [take_as ''reject_cause'' 5], put_pos ''payload_end'']
     [branch (mm_type = 11)
        [seq_bit ''group_identity_accept_reject'', seq_bit ''optional_fields_present'', put_pos ''payload_end'']
     [branch (mm_type = 10)
        [seq_bit ''detach_all_flag'', seq_bit ''group_identity_report'', put_pos ''payload_end'']
     [do_when (mm_type = 12)
        [when_fits 5 [take_as ''status_value'' 5], put_pos ''payload_end'']]]]]]] bits pos [])"

text \<open>\<open>r['mm'] = parse_mm_pdu(bits, pos, mm_type)\<close>\<close>

definition as_dict :: "dict res \<Rightarrow> pyval res" where
  "as_dict m = bind_res m (\<lambda>d. Inr (VDict d))"

definition MLE_PRIM :: "(int \<times> string) list" where
  "MLE_PRIM = [(0, ''D-NEW-CELL''), (1, ''D-PREPARE''), (2, ''D-NWRK-BROADCAST''),
     (4, ''D-RESTORE-ACK''), (5, ''D-RESTORE-FAIL'')]"

definition mle_body :: "ext_parser \<Rightarrow> ext_parser \<Rightarrow> stmt list" where
  "mle_body cmce_dl mm_dl =
     [read 3 (\<lambda>disc.
      [put ''mle_disc'' (VInt disc),
       put ''mle_disc_name'' (name_of MLE_PDU_NAMES ''?'' disc),
       branch (disc = 2)
         [when_fits 5
           [peek 5 (\<lambda>cmce_type.
            [put ''cmce_type'' (VInt cmce_type),
             put ''cmce_name'' (name_or_unknown CMCE_NAMES cmce_type),
             try_ext ''cmce'' cmce_dl,
             advance_pos 5])]]
       [branch (disc = 1)
         [when_fits 4
           [peek 4 (\<lambda>mm_type.
            [put ''mm_type'' (VInt mm_type),
             put ''mm_name'' (name_or_unknown MM_NAMES mm_type),
             try_ext ''mm_full'' mm_dl,
             advance_pos 4,
             call_val ''mm'' (\<lambda>bits pos. as_dict (parse_mm_pdu bits pos mm_type))])]]
       [do_when (disc = 5)
         [when_fits 3
           [read 3 (\<lambda>mle_type.
            [put ''mle_prim'' (VInt mle_type),
             put ''mle_prim_name'' (name_or_unknown MLE_PRIM mle_type)])]]]],
       put_pos ''payload_start''])]"

definition parse_mle :: "ext_parser \<Rightarrow> ext_parser \<Rightarrow> bits \<Rightarrow> nat \<Rightarrow> dict res" where
  "parse_mle cmce_dl mm_dl bits pos =
     (if length bits < pos + 3 then Inr [(''mle_type'', VStr ''TOO_SHORT'')]
      else fst_res (run_body (mle_body cmce_dl mm_dl) bits pos []))"

definition parse_direct_mm :: "bits \<Rightarrow> nat \<Rightarrow> dict res" where
  "parse_direct_mm bits pos = fst_res (run_body
     [need 4,
      read 4 (\<lambda>mm_type.
      [put ''mm_type'' (VInt mm_type),
       put ''mm_name'' (name_or_unknown MM_NAMES mm_type),
       call_val ''mm'' (\<lambda>bits pos. as_dict (parse_mm_pdu bits pos mm_type)),
       put_pos ''payload_start''])] bits pos [])"

subsection \<open>Totality\<close>

lemma step_try_ext:
  "k \<noteq> ''payload_start'' \<Longrightarrow> ext_total ext \<Longrightarrow> step_ok m m (try_ext k ext)"
proof (cases ext)
  case None
  then show ?thesis by (auto simp: try_ext_def step_ok_def moves_def)
next
  case (Some f)
  assume "k \<noteq> ''payload_start''" "ext_total ext"
  then have "step_ok m m (call_val k f)"
    using Some by (intro step_call_total) (auto simp: ext_total_def)
  moreover have "try_ext k ext = call_val k f" by (auto simp: try_ext_def Some)
  ultimately show ?thesis by simp
qed

lemma step_fcs: "step_ok m m (fcs_step h b)"
  by (auto simp: step_ok_def fcs_step_def put_def moves_def ps_ok_dset)

lemma step_seq_bit: "k \<noteq> ''payload_start'' \<Longrightarrow> step_ok m 0 (seq_bit k)"
  unfolding seq_bit_def by (rule step_when_fits) (rule safe_rules | simp)+

lemma step_optional_element:
  "flag \<noteq> ''payload_start'' \<Longrightarrow> k \<noteq> ''payload_start'' \<Longrightarrow> step_ok m 0 (optional_element flag k n)"
  unfolding optional_element_def by (rule step_when_fits) (rule safe_rules | simp)+

lemma step_loc_upd_type: "step_ok m 0 (loc_upd_type_body names)"
  unfolding loc_upd_type_body_def by (rule step_when_fits) (rule safe_rules | simp)+

lemma step_llc_header: "step_ok m 0 (llc_header t)"
  unfolding llc_header_def
  by (rule step_branch; (rule safe_rules safe_Cons [OF step_seq_bit] | simp)+)

lemma safe_run_body:
  assumes "safe m cs" "pos + m \<le> length bits"
  shows "\<exists>d pos'. run_body cs bits pos [] = Inr (d, pos') \<and> pos \<le> pos' \<and> pos' \<le> length bits \<and> ps_ok bits d"
proof -
  let ?s = "\<lparr>pbits = bits, ppos = pos, pdict = []\<rparr>"
  have "fine ?s (block cs ?s)" using safeD [OF assms(1), of ?s] assms(2) by simp
  then show ?thesis
    by (cases "block cs ?s") (auto simp: run_body_def moves_def ps_ok_Nil)
qed

lemma safe_run_fst:
  "safe m cs \<Longrightarrow> pos + m \<le> length bits \<Longrightarrow> \<exists>d. fst_res (run_body cs bits pos []) = Inr d \<and> ps_ok bits d"
  using safe_run_body [of m cs pos bits] by fastforce

lemmas mm_rules = safe_rules safe_Cons [OF step_seq_bit] safe_Cons [OF step_optional_element]
  safe_Cons [OF step_loc_upd_type]

lemma safe_loc_upd_accept: "safe m loc_upd_accept_body"
  unfolding loc_upd_accept_body_def by (rule mm_rules | simp)+

lemma parse_mm_pdu_total: "pos \<le> length bits \<Longrightarrow> \<exists>d. parse_mm_pdu bits pos t = Inr d \<and> ps_ok bits d"
  unfolding parse_mm_pdu_def
  by (rule safe_run_fst [where m = 0]) (rule mm_rules safe_loc_upd_accept | simp)+

lemma step_mm: "step_ok m m (call_val ''mm'' (\<lambda>bits pos. as_dict (parse_mm_pdu bits pos t)))"
proof (rule step_call_total)
  fix bits pos assume "pos \<le> length (bits :: bits)"
  then obtain d where "parse_mm_pdu bits pos t = Inr d" using parse_mm_pdu_total by blast
  then show "\<exists>v. as_dict (parse_mm_pdu bits pos t) = Inr v" by (simp add: as_dict_def)
qed simp

lemma safe_mle_body: "ext_total cmce_dl \<Longrightarrow> ext_total mm_dl \<Longrightarrow> safe 3 (mle_body cmce_dl mm_dl)"
  unfolding mle_body_def
  by (rule safe_rules safe_Cons [OF step_try_ext] safe_Cons [OF step_mm] | simp)+

lemma safe_llc_body: "safe 4 (llc_body h)"
  unfolding llc_body_def
  by (rule safe_rules safe_Cons [OF step_llc_header] safe_Cons [OF step_fcs] | simp)+

lemma ps_ok_single: "k \<noteq> ''payload_start'' \<Longrightarrow> ps_ok bits [(k, v)]"
  by (simp add: ps_ok_def entry_ok_other)

lemma parse_llc_ok: "\<exists>d. parse_llc bits pos = Inr d \<and> ps_ok bits d"
proof (cases "pos + 4 \<le> length bits")
  case True
  then show ?thesis using safe_run_fst [OF safe_llc_body, of pos bits pos] by (simp add: parse_llc_def)
qed (simp add: parse_llc_def ps_ok_single)

lemma parse_mle_ok:
  assumes "ext_total cmce_dl" "ext_total mm_dl"
  shows "\<exists>d. parse_mle cmce_dl mm_dl bits pos = Inr d \<and> ps_ok bits d"
proof (cases "pos + 3 \<le> length bits")
  case True
  then show ?thesis
    using safe_run_fst [OF safe_mle_body [OF assms], of pos bits] by (simp add: parse_mle_def)
qed (simp add: parse_mle_def ps_ok_single)

lemma parse_direct_mm_ok: "pos \<le> length bits \<Longrightarrow> \<exists>d. parse_direct_mm bits pos = Inr d \<and> ps_ok bits d"
  unfolding parse_direct_mm_def
  by (rule safe_run_fst [where m = 0]) (rule safe_rules safe_Cons [OF step_mm] | simp)+

text \<open>A registration answer as a base station sends it: LLC BL-DATA, MLE, then the MM body with SSI and
  subscriber class.\<close>

definition loc_upd_accept_pdu :: "bool \<Rightarrow> int \<Rightarrow> int \<Rightarrow> int \<Rightarrow> bits" where
  "loc_upd_accept_pdu ns t ssi c =
     to_bits 4 1 @ [ns] @ to_bits 3 1 @ to_bits 4 5 @ to_bits 3 t @ [True] @ [True] @ to_bits 24 ssi @
     [False] @ [True] @ to_bits 16 c @ [False] @ [False] @ [False]"

subsection \<open>Properties\<close>

text \<open>The layers above the MAC are total: on every bit string and at every position inside it the
  LLC, MLE and MM parsers return a dictionary, provided the optional field-level parsers do, and a
  recorded payload start lies inside the bits, so the next layer starts where there are bits.\<close>

theorem upper_layers_total:
  assumes "ext_total cmce_dl" "ext_total mm_dl" "pos \<le> length bits"
  shows "(\<exists>d. parse_llc bits pos = Inr d \<and>
      (\<forall>v. dget d ''payload_start'' = Some v \<longrightarrow> (\<exists>p. v = VInt (int p) \<and> p \<le> length bits))) \<and>
    (\<exists>d. parse_mle cmce_dl mm_dl bits pos = Inr d \<and>
      (\<forall>v. dget d ''payload_start'' = Some v \<longrightarrow> (\<exists>p. v = VInt (int p) \<and> p \<le> length bits))) \<and>
    (\<exists>d. parse_direct_mm bits pos = Inr d) \<and> (\<exists>d. parse_mm_pdu bits pos t = Inr d)"
  using parse_llc_ok [of bits pos] parse_mle_ok [OF assms(1,2), of bits pos]
    parse_direct_mm_ok [OF assms(3)] parse_mm_pdu_total [OF assms(3)] ps_okD
  by blast

theorem upper_layers_total_witness:
  "\<exists>d. parse_mle None (Some (\<lambda>bits pos. Inr (VInt 7))) [False, False, True, True, False] 0 = Inr d"
proof -
  have "ext_total None" "ext_total (Some (\<lambda>bits pos. Inr (VInt 7)))" "0 \<le> length [False, False, True, True, False]"
    by (simp_all add: ext_total_def)
  from upper_layers_total [OF this, of 0] show ?thesis by blast
qed

text \<open>The LLC frame check: for the four PDU types with an FCS, wherever the PDU starts, the parser
  records \<open>fcs_ok\<close> as true exactly when the last 32 bits are the complemented CRC-32 register over
  header and payload, and the payload starts after the sequence bits of the type.\<close>

theorem llc_fcs_checked:
  assumes "t \<in> {4, 5, 6, 7}" "length f = 32" "2 \<le> length payload"
  shows "\<exists>d. parse_llc (pre @ to_bits 4 t @ payload @ f) (length pre) = Inr d \<and>
    dget d ''llc_type'' = Some (VInt t) \<and>
    dget d ''fcs_ok'' =
      Some (VBool (f = map (bit (NOT (foldl crc_step32 0xFFFFFFFF (to_bits 4 t @ payload)))) [0..<32])) \<and>
    dget d ''payload_start'' =
      Some (VInt (int (length pre) + 4 + (if t = 4 then 2 else if t = 6 then 0 else 1)))"
proof -
  have v: "bits_val (to_bits 4 t) = t" using assms by (intro bits_val_to_bits_id) auto
  have c: "crc32_check_llc (to_bits 4 t @ payload @ f) =
      (f = map (bit (NOT (foldl crc_step32 0xFFFFFFFF (to_bits 4 t @ payload)))) [0..<32])"
    using crc32_accepts_iff [OF assms(2), of "to_bits 4 t @ payload"] by simp
  have "\<exists>d. parse_llc (pre @ to_bits 4 t @ payload @ f) (length pre) = Inr d \<and>
      dget d ''llc_type'' = Some (VInt t) \<and>
      dget d ''fcs_ok'' = Some (VBool (crc32_check_llc (to_bits 4 t @ payload @ f))) \<and>
      dget d ''payload_start'' =
        Some (VInt (int (length pre) + 4 + (if t = 4 then 2 else if t = 6 then 0 else 1)))"
    using assms
    by (auto simp: parse_llc_def llc_body_def run_body_def llc_header_def fcs_step_def
        seq_bit_def stmt_simps v name_or_unknown_def LLC_PDU_NAMES_def)
  then show ?thesis unfolding c .
qed

theorem llc_fcs_checked_witness:
  "\<exists>d ok. parse_llc ([] @ to_bits 4 5 @ [True, False] @ replicate 32 False) (length ([]::bits)) = Inr d \<and>
     dget d ''fcs_ok'' = Some (VBool ok) \<and> dget d ''payload_start'' = Some (VInt 5)"
proof -
  have "(5::int) \<in> {4, 5, 6, 7}" "length (replicate 32 False) = 32" "2 \<le> length [True, False]" by simp_all
  from llc_fcs_checked [OF this, of "[]"] show ?thesis by fastforce
qed

text \<open>The registration answer: a D-LOCATION UPDATE ACCEPT over LLC basic data and MLE with the SSI and
  the subscriber class is parsed back field by field, through all three layers.\<close>

theorem loc_upd_accept_parsed:
  assumes "0 \<le> t" "t < 8" "0 \<le> ssi" "ssi < 2 ^ 24" "0 \<le> c" "c < 2 ^ 16"
    and b: "b = loc_upd_accept_pdu ns t ssi c"
  shows "\<exists>llc mle mm. parse_llc b 0 = Inr llc \<and> dget llc ''payload_start'' = Some (VInt 5) \<and>
    parse_mle None None b 5 = Inr mle \<and> dget mle ''mm_name'' = Some (VStr ''D-LOC-UPD-ACCEPT'') \<and>
    dget mle ''mm'' = Some (VDict mm) \<and> dget mm ''location_update_accept_type'' = Some (VInt t) \<and>
    dget mm ''ssi'' = Some (VInt ssi) \<and> dget mm ''subscriber_class'' = Some (VInt c) \<and>
    dget mm ''address_extension'' = None \<and> dget mm ''payload_end'' = Some (VInt (int (length b)))"
proof -
  have v: "bits_val (to_bits 3 t) = t" "bits_val (to_bits 24 ssi) = ssi" "bits_val (to_bits 16 c) = c"
    "bits_val (to_bits 4 1) = 1" "bits_val (to_bits 3 1) = 1" "bits_val (to_bits 4 5) = 5"
    using assms(1-6) by (simp_all add: bits_val_to_bits_id)
  have llc: "\<exists>llc. parse_llc b 0 = Inr llc \<and> dget llc ''payload_start'' = Some (VInt 5)"
    unfolding b loc_upd_accept_pdu_def
    by (simp add: parse_llc_def llc_body_def run_body_def llc_header_def fcs_step_def
        seq_bit_def stmt_simps v name_or_unknown_def LLC_PDU_NAMES_def)
  have mm: "\<exists>mm. parse_mm_pdu b 12 5 = Inr mm \<and> dget mm ''location_update_accept_type'' = Some (VInt t) \<and>
    dget mm ''ssi'' = Some (VInt ssi) \<and> dget mm ''subscriber_class'' = Some (VInt c) \<and>
    dget mm ''address_extension'' = None \<and> dget mm ''payload_end'' = Some (VInt (int (length b)))"
    unfolding b loc_upd_accept_pdu_def
    by (simp add: parse_mm_pdu_def run_body_def loc_upd_accept_body_def optional_element_def stmt_simps v)
  then obtain mm where m: "parse_mm_pdu b 12 5 = Inr mm" "dget mm ''location_update_accept_type'' = Some (VInt t)"
    "dget mm ''ssi'' = Some (VInt ssi)" "dget mm ''subscriber_class'' = Some (VInt c)"
    "dget mm ''address_extension'' = None" "dget mm ''payload_end'' = Some (VInt (int (length b)))" by blast
  have "take 3 (drop 5 b) = to_bits 3 1" "take 4 (drop 8 b) = to_bits 4 5" "12 \<le> length b"
    by (simp_all add: b loc_upd_accept_pdu_def)
  then have "\<exists>mle. parse_mle None None b 5 = Inr mle \<and> dget mle ''mm_name'' = Some (VStr ''D-LOC-UPD-ACCEPT'') \<and>
      dget mle ''mm'' = Some (VDict mm)"
    by (simp add: parse_mle_def mle_body_def run_body_def stmt_simps v try_ext_def as_dict_def m(1)
        name_or_unknown_def MM_NAMES_def)
  with llc m show ?thesis by blast
qed

theorem loc_upd_accept_parsed_witness:
  "\<exists>llc. parse_llc (loc_upd_accept_pdu True 3 2600001 12) 0 = Inr llc \<and>
     dget llc ''payload_start'' = Some (VInt 5)"
proof -
  have "(0::int) \<le> 3" "(3::int) < 8" "(0::int) \<le> 2600001" "(2600001::int) < 2 ^ 24" "(0::int) \<le> 12" "(12::int) < 2 ^ 16"
    by simp_all
  from loc_upd_accept_parsed [OF this refl] show ?thesis by blast
qed

end
