(* ===== verification/UlParse.thy ===== *)
theory UlParse
  imports LlcMle
begin

text \<open>
  The uplink parser of \<open>scripts/decode_ul.py\<close>: MAC-ACCESS with its optional length or reservation
  field (\<open>parse_mac_access\<close>), the uplink MLE and MM bodies (\<open>parse_ul_mle\<close>, \<open>parse_ul_mm\<close>,
  \<open>parse_ul_direct_mm\<close>), the one-line rendering \<open>bits_to_hex\<close>.

  The field-level modules \<open>tetra_mm\<close> and \<open>tetra_cmce\<close> are parameters as in \<open>LlcMle\<close>; importing
  \<open>tetra_cmce\<close> for the uplink yields a parser and the table \<open>CMCE_UL\<close>.
\<close>

definition UL_MLE_PDU_NAMES :: "(int \<times> string) list" where
  "UL_MLE_PDU_NAMES = [(0, ''Reserved''), (1, ''MM''), (2, ''CMCE''), (3, ''Reserved''),
     (4, ''SNDCP''), (5, ''MLE''), (6, ''TETRA-Mgmt''), (7, ''Testing'')]"

definition UL_CMCE_NAMES :: "(int \<times> string) list" where
  "UL_CMCE_NAMES = [(0, ''U-ALERT''), (2, ''U-CONNECT''), (4, ''U-DISCONNECT''), (5, ''U-INFO''),
     (6, ''U-RELEASE''), (7, ''U-SETUP''), (8, ''U-STATUS''), (9, ''U-TX-CEASED''),
     (10, ''U-TX-DEMAND''), (11, ''U-CALL-RESTORE'')]"

definition UL_MM_NAMES :: "(int \<times> string) list" where
  "UL_MM_NAMES = [(0, ''U-AUTHENTICATION''), (1, ''U-ITSI-DETACH''), (2, ''U-LOC-UPD-DEMAND''),
     (3, ''U-MM-STATUS''), (4, ''U-CK-CHG-RESULT''), (5, ''U-OTAR''), (6, ''U-INFO-PROVIDE''),
     (7, ''U-ATTACH-DETACH-GRP-ID''), (8, ''U-ATTACH-DETACH-GRP-ID-ACK''), (9, ''U-TEI-PROVIDE''),
     (10, ''Reserved''), (11, ''U-DISABLE-STATUS''), (12, ''Reserved''), (13, ''Reserved''),
     (14, ''Reserved''), (15, ''MM-PDU-FUNC-NOT-SUPPORTED'')]"

definition UL_LOC_UPD_TYPE_NAMES :: "(int \<times> string) list" where
  "UL_LOC_UPD_TYPE_NAMES = [(0, ''Roaming''), (1, ''Migrating''), (2, ''Periodic''),
     (3, ''ITSI-Attach''), (4, ''Call-Restoration'')]"

definition itsi_detach_body :: "stmt list" where
  "itsi_detach_body =
     [when_fits 1
       [read 1 (\<lambda>obit.
        [put ''optional_fields_present'' (VInt obit),
         do_when (obit = 1) [optional_element ''address_extension_present'' ''address_extension'' 24]])],
      put_pos ''payload_end'']"

definition loc_upd_demand_body :: "stmt list" where
  "loc_upd_demand_body =
     [loc_upd_type_body UL_LOC_UPD_TYPE_NAMES,
      seq_bit ''request_to_append_la'',
      seq_bit ''cipher_control'',
      when_fits 1
        [read 1 (\<lambda>o_bit.
         [put ''optional_fields_present'' (VInt o_bit),
          do_when (o_bit = 1)
            [optional_element ''class_of_ms_present'' ''class_of_ms'' 24,
             optional_element ''energy_saving_mode_present'' ''energy_saving_mode'' 3,
             optional_element ''la_information_present'' ''location_area'' 14,
             optional_element ''ssi_present'' ''ssi'' 24,
             optional_element ''address_extension_present'' ''address_extension'' 24,
             seq_bit ''more_optional_bits'']])],
      put_pos ''payload_end'']"

definition parse_ul_mm :: "bits \<Rightarrow> nat \<Rightarrow> int \<Rightarrow> dict res" where
  "parse_ul_mm bits pos mm_type = fst_res (run_body
     [branch (mm_type = 1) itsi_detach_body
     [branch (mm_type = 2) loc_upd_demand_body
     [branch (mm_type = 7)
        [seq_bit ''group_identity_report'', seq_bit ''attach_detach_mode'', put_pos ''payload_end'']
     [do_when (mm_type = 3)
        [when_fits 5 [take_as ''status_value'' 5], put_pos ''payload_end'']]]]] bits pos [])"

type_synonym ext_cmce_ul = "((int \<times> string) list \<times> (bits \<Rightarrow> nat \<Rightarrow> pyval res)) option"

definition cmce_ul_total :: "ext_cmce_ul \<Rightarrow> bool" where
  "cmce_ul_total ext \<longleftrightarrow> ext_total (map_option snd ext)"

text \<open>\<open>r['cmce_name'] = _CMCE_UL.get(cmce_type, r['cmce_name'])\<close> when the module is there\<close>

definition try_cmce_ul :: "int \<Rightarrow> ext_cmce_ul \<Rightarrow> stmt list" where
  "try_cmce_ul cmce_type ext =
     (case ext of None \<Rightarrow> []
      | Some (names, f) \<Rightarrow>
          [put ''cmce_name'' (name_of names
             (case map_of UL_CMCE_NAMES cmce_type of None \<Rightarrow> unknown_name cmce_type | Some n \<Rightarrow> n) cmce_type),
           call_val ''cmce'' f])"

definition ul_mle_body :: "ext_cmce_ul \<Rightarrow> ext_parser \<Rightarrow> stmt list" where
  "ul_mle_body cmce_ul mm_ul =
     [read 3 (\<lambda>disc.
      [put ''mle_disc'' (VInt disc),
       put ''mle_disc_name'' (name_of UL_MLE_PDU_NAMES ''?'' disc),
       branch_fits (disc = 1) 4
         [peek 4 (\<lambda>mm_type.
          [put ''mm_type'' (VInt mm_type),
           put ''mm_name'' (name_or_unknown UL_MM_NAMES mm_type),
           try_ext ''mm_full'' mm_ul,
           advance_pos 4,
           call_val ''mm'' (\<lambda>bits pos. as_dict (parse_ul_mm bits pos mm_type))])]
         [branch_fits (disc = 2) 5
           [peek 5 (\<lambda>cmce_type.
            [put ''cmce_type'' (VInt cmce_type),
             put ''cmce_name'' (name_or_unknown UL_CMCE_NAMES cmce_type)]
            @ try_cmce_ul cmce_type cmce_ul @ [advance_pos 5])] []],
       put_pos ''payload_start''])]"

definition parse_ul_mle :: "ext_cmce_ul \<Rightarrow> ext_parser \<Rightarrow> bits \<Rightarrow> nat \<Rightarrow> dict res" where
  "parse_ul_mle cmce_ul mm_ul bits pos =
     (if length bits < pos + 3 then Inr [(''mle_type'', VStr ''TOO_SHORT'')]
      else fst_res (run_body (ul_mle_body cmce_ul mm_ul) bits pos []))"

definition parse_ul_direct_mm :: "ext_parser \<Rightarrow> bits \<Rightarrow> nat \<Rightarrow> dict res" where
  "parse_ul_direct_mm mm_ul bits pos = fst_res (run_body
     [need 4,
      peek 4 (\<lambda>mm_type.
      [put ''mm_type'' (VInt mm_type),
       put ''mm_name'' (name_or_unknown UL_MM_NAMES mm_type),
       try_ext ''mm_full'' mm_ul,
       advance_pos 4,
       call_val ''mm'' (\<lambda>bits pos. as_dict (parse_ul_mm bits pos mm_type)),
       put_pos ''payload_start''])] bits pos [])"

subsection \<open>MAC-ACCESS\<close>

definition ADDR_TYPE_NAMES :: "(int \<times> string) list" where
  "ADDR_TYPE_NAMES = [(0, ''Ssi(ISSI)''), (1, ''EventLabel''), (2, ''Ussi''), (3, ''Smi'')]"

definition access_address :: "int \<Rightarrow> stmt" where
  "access_address addr_type =
     branch (addr_type = 1) [take_as ''event_label'' 10] [take_as ''ssi'' 24]"

definition access_optional :: "stmt list" where
  "access_optional =
     [when_fits 1
       [read 1 (\<lambda>opt_flag.
        [put ''optional_field_flag'' (VInt opt_flag),
         do_when (opt_flag \<noteq> 0)
           [when_fits 1
             [read 1 (\<lambda>lind_or_cap.
              [branch (lind_or_cap = 0)
                 [when_fits 5 [take_as ''length_ind'' 5]]
                 [when_fits 5 [take_as ''frag_flag'' 1, take_as ''reservation_req'' 4]]])]]])]]"

text \<open>The LLC and the MLE above it: the MLE starts where the LLC parser says.\<close>

definition access_mle :: "ext_cmce_ul \<Rightarrow> ext_parser \<Rightarrow> dict \<Rightarrow> stmt" where
  "access_mle cmce_ul mm_ul llc s =
     (case dget_default llc ''payload_start'' VNone of
        VNone \<Rightarrow> Next s
      | VInt p \<Rightarrow>
          (if p + 3 \<le> int (length (pbits s))
           then call_val ''mle'' (\<lambda>bits pos. as_dict (parse_ul_mle cmce_ul mm_ul bits (nat p))) s
           else Next s)
      | _ \<Rightarrow> Raise TypeError)"

definition access_llc :: "ext_cmce_ul \<Rightarrow> ext_parser \<Rightarrow> stmt" where
  "access_llc cmce_ul mm_ul s =
     (case parse_llc (pbits s) (ppos s) of
        Inl e \<Rightarrow> Raise e
      | Inr llc \<Rightarrow> block [put ''llc'' (VDict llc), access_mle cmce_ul mm_ul llc] s)"

text \<open>\<open>d.get(k, '')\<close> used as a string.\<close>

definition get_str :: "dict \<Rightarrow> string \<Rightarrow> string res" where
  "get_str d k = (case dget_default d k (VStr []) of VStr s \<Rightarrow> Inr s | _ \<Rightarrow> Inl AttributeError)"

definition get_dict :: "dict \<Rightarrow> string \<Rightarrow> dict res" where
  "get_dict d k = (case dget_default d k (VDict []) of VDict e \<Rightarrow> Inr e | _ \<Rightarrow> Inl AttributeError)"

definition startswith :: "string \<Rightarrow> string \<Rightarrow> bool" where
  "startswith s p \<longleftrightarrow> take (length p) s = p"

definition decoded_mode :: "dict \<Rightarrow> dict \<Rightarrow> string res" where
  "decoded_mode out direct_mm =
     bind_res (get_dict out ''llc'') (\<lambda>llc.
     bind_res (get_str llc ''llc_type_name'') (\<lambda>llc_name.
     bind_res (get_str direct_mm ''mm_name'') (\<lambda>mm_name.
       Inr (if (startswith llc_name ''Unknown('' \<or> llc_name = []) \<and> startswith mm_name ''U-''
            then ''direct_mm''
            else if dget out ''mle'' \<noteq> None then ''llc_mle'' else ''raw''))))"

definition access_direct :: "ext_parser \<Rightarrow> stmt" where
  "access_direct mm_ul s =
     (case parse_ul_direct_mm mm_ul (pbits s) (ppos s) of
        Inl e \<Rightarrow> Raise e
      | Inr direct_mm \<Rightarrow>
          (let out = dset ''direct_mm'' (VDict direct_mm) (pdict s)
           in case decoded_mode out direct_mm of
                Inl e \<Rightarrow> Raise e
              | Inr m \<Rightarrow> Next (s\<lparr>pdict := dset ''decoded_mode'' (VStr m) out\<rparr>)))"

definition access_layers :: "ext_cmce_ul \<Rightarrow> ext_parser \<Rightarrow> stmt list" where
  "access_layers cmce_ul mm_ul =
     [put_pos ''payload_start'',
      when_fits 4 [access_llc cmce_ul mm_ul],
      when_fits 4 [access_direct mm_ul]]"

text \<open>The body from bit 2 on, for PDU type 0.\<close>

definition access_body :: "ext_cmce_ul \<Rightarrow> ext_parser \<Rightarrow> stmt list" where
  "access_body cmce_ul mm_ul =
     [take_as ''encrypted'' 1,
      read 2 (\<lambda>addr_type.
      [put ''addr_type'' (VInt addr_type),
       put ''addr_type_name'' (name_or_unknown ADDR_TYPE_NAMES addr_type),
       access_address addr_type]
      @ access_optional @ access_layers cmce_ul mm_ul)]"

definition parse_mac_access :: "ext_cmce_ul \<Rightarrow> ext_parser \<Rightarrow> bits option \<Rightarrow> dict option res" where
  "parse_mac_access cmce_ul mm_ul bits92 =
     (case bits92 of None \<Rightarrow> Inr None
      | Some b \<Rightarrow>
          (if length b < 20 then Inr None
           else let out = [(''pdu_type'', VInt (of_bool (b ! 0))), (''fill_bit'', VInt (of_bool (b ! 1)))]
             in if b ! 0 then
                  bind_res (extract_bits b 0 2) (\<lambda>v. Inr (Some (dset ''mac_top_nibble'' (VInt v) out)))
                else bind_res (fst_res (run_body (access_body cmce_ul mm_ul) b 2 out)) (\<lambda>d. Inr (Some d))))"

subsection \<open>Totality of the upper layers\<close>

lemmas ul_rules = safe_rules safe_Cons [OF step_seq_bit] safe_Cons [OF step_optional_element]
  safe_Cons [OF step_loc_upd_type] safe_Cons [OF step_try_ext]

lemma safe_itsi_detach: "safe m itsi_detach_body"
  unfolding itsi_detach_body_def by (rule ul_rules | simp)+

lemma safe_loc_upd_demand: "safe m loc_upd_demand_body"
  unfolding loc_upd_demand_body_def by (rule ul_rules | simp)+

lemma parse_ul_mm_total: "pos \<le> length bits \<Longrightarrow> \<exists>d. parse_ul_mm bits pos t = Inr d \<and> ps_ok bits d"
  unfolding parse_ul_mm_def
  by (rule safe_run_fst [where m = 0]) (rule ul_rules safe_itsi_detach safe_loc_upd_demand | simp)+

lemma step_ul_mm: "step_ok m m (call_val ''mm'' (\<lambda>bits pos. as_dict (parse_ul_mm bits pos t)))"
proof (rule step_call_total)
  fix bits pos assume "pos \<le> length (bits :: bits)"
  then obtain d where "parse_ul_mm bits pos t = Inr d" using parse_ul_mm_total by blast
  then show "\<exists>v. as_dict (parse_ul_mm bits pos t) = Inr v" by (simp add: as_dict_def)
qed simp

lemma safe_try_cmce:
  assumes "cmce_ul_total ext" "safe m cs"
  shows "safe m (try_cmce_ul t ext @ cs)"
proof (cases ext)
  case None
  then show ?thesis using assms by (simp add: try_cmce_ul_def)
next
  case (Some e)
  obtain names f where e: "e = (names, f)" by (cases e)
  have "step_ok m m (call_val ''cmce'' f)"
    using assms(1) by (intro step_call_total) (auto simp: Some e cmce_ul_total_def ext_total_def)
  then show ?thesis
    using assms(2) step_put [of "''cmce_name''" m]
    by (auto simp: try_cmce_ul_def Some e intro!: safe_Cons [of m m])
qed

lemma safe_ul_mle_body:
  "cmce_ul_total cmce_ul \<Longrightarrow> ext_total mm_ul \<Longrightarrow> safe 3 (ul_mle_body cmce_ul mm_ul)"
  unfolding ul_mle_body_def append_Cons append_Nil
  by (rule ul_rules safe_Cons [OF step_ul_mm] safe_try_cmce | simp)+

lemma parse_ul_mle_ok:
  assumes "cmce_ul_total cmce_ul" "ext_total mm_ul"
  shows "\<exists>d. parse_ul_mle cmce_ul mm_ul bits pos = Inr d \<and> ps_ok bits d"
proof (cases "pos + 3 \<le> length bits")
  case True
  then show ?thesis
    using safe_run_fst [OF safe_ul_mle_body [OF assms], of pos bits] by (simp add: parse_ul_mle_def)
qed (simp add: parse_ul_mle_def ps_ok_single)

lemma parse_ul_direct_mm_ok:
  "ext_total mm_ul \<Longrightarrow> pos \<le> length bits \<Longrightarrow> \<exists>d. parse_ul_direct_mm mm_ul bits pos = Inr d \<and> ps_ok bits d"
  unfolding parse_ul_direct_mm_def
  by (rule safe_run_fst [where m = 0]) (rule ul_rules safe_Cons [OF step_ul_mm] | simp)+

subsection \<open>What the layers record\<close>

text \<open>Every LLC type has a name, so the name is never empty and never marked unknown.\<close>

lemma LLC_names: "0 \<le> t \<Longrightarrow> t < 16 \<Longrightarrow> \<exists>n. name_or_unknown LLC_PDU_NAMES t = VStr n \<and> n \<noteq> [] \<and>
    \<not> startswith n ''Unknown(''"
proof -
  assume "0 \<le> t" "t < 16"
  then have "t = 0 \<or> t = 1 \<or> t = 2 \<or> t = 3 \<or> t = 4 \<or> t = 5 \<or> t = 6 \<or> t = 7 \<or>
      t = 8 \<or> t = 9 \<or> t = 10 \<or> t = 11 \<or> t = 12 \<or> t = 13 \<or> t = 14 \<or> t = 15" by presburger
  then show ?thesis by (auto simp: name_or_unknown_def LLC_PDU_NAMES_def startswith_def)
qed

lemma leaves_llc_header: "step_leaves ''llc_type_name'' (llc_header t)"
  unfolding llc_header_def seq_bit_def by (rule leaves_branch; (rule leaves_rules | simp)+)

lemma leaves_fcs: "step_leaves ''llc_type_name'' (fcs_step h b)"
  by (auto simp: step_leaves_def fcs_step_def put_def)

lemma parse_llc_name:
  assumes "pos + 4 \<le> length bits" "parse_llc bits pos = Inr llc"
  shows "\<exists>n. dget llc ''llc_type_name'' = Some (VStr n) \<and> n \<noteq> [] \<and> \<not> startswith n ''Unknown(''"
proof -
  let ?t = "bits_val (take 4 (drop pos bits))"
  let ?rest = "[llc_header ?t, fcs_step pos (?t \<in> {4, 5, 6, 7})]"
  let ?s = "\<lparr>pbits = bits, ppos = pos + 4,
    pdict = dset ''llc_type_name'' (name_or_unknown LLC_PDU_NAMES ?t) (dset ''llc_type'' (VInt ?t) [])\<rparr>"
  have t: "0 \<le> ?t" "?t < 16"
    using bits_val_less [of "take 4 (drop pos bits)"] assms(1) by simp_all
  have run: "block (llc_body pos) \<lparr>pbits = bits, ppos = pos, pdict = []\<rparr> = block ?rest ?s"
    using assms(1) unfolding llc_body_def by (simp add: read_run put_def split: outcome.split)
  have keep: "leaves ''llc_type_name'' ?rest"
    by (intro leaves_Cons leaves_Nil leaves_llc_header leaves_fcs)
  have "fst_res (run_body (llc_body pos) bits pos []) = Inr llc"
    using assms by (simp add: parse_llc_def)
  then obtain s' where "block ?rest ?s = Next s' \<or> block ?rest ?s = Return s'" "llc = pdict s'"
    unfolding run_body_def run by (auto split: outcome.splits)
  then have "dget llc ''llc_type_name'' = dget (pdict ?s) ''llc_type_name''"
    using keep unfolding leaves_def by metis
  then show ?thesis using LLC_names [OF t] by auto
qed

subsection \<open>MAC-ACCESS never raises once its address is there\<close>

lemma dget_default_alt: "dget_default d k v = (case dget d k of None \<Rightarrow> v | Some x \<Rightarrow> x)"
  by (simp add: dget_default_def dget_def)

lemma step_access_mle:
  assumes "cmce_ul_total cmce_ul" "ext_total mm_ul" "ps_ok bits llc"
    and "ppos s \<le> length (pbits s)" "pbits s = bits"
  shows "fine s (access_mle cmce_ul mm_ul llc s)"
proof (cases "dget llc ''payload_start''")
  case None
  then show ?thesis using assms(4) by (simp add: access_mle_def dget_default_alt moves_refl)
next
  case (Some v)
  then obtain p where v: "v = VInt (int p)" using ps_okD [OF assms(3)] by blast
  obtain d where "parse_ul_mle cmce_ul mm_ul bits p = Inr d" using parse_ul_mle_ok assms by blast
  then show ?thesis
    using assms(4,5) Some
    by (simp add: access_mle_def dget_default_alt v call_val_def as_dict_def moves_def ps_ok_dset)
qed

lemma step_access_llc:
  assumes "cmce_ul_total cmce_ul" "ext_total mm_ul"
  shows "step_ok m 0 (access_llc cmce_ul mm_ul)"
proof (rule step_okI)
  fix s :: pst assume s: "ppos s + m \<le> length (pbits s)"
  obtain llc where llc: "parse_llc (pbits s) (ppos s) = Inr llc" "ps_ok (pbits s) llc"
    using parse_llc_ok by blast
  let ?t = "s\<lparr>pdict := dset ''llc'' (VDict llc) (pdict s)\<rparr>"
  have f: "fine ?t (access_mle cmce_ul mm_ul llc ?t)"
    using s by (intro step_access_mle [OF assms llc(2)]) simp_all
  have "access_llc cmce_ul mm_ul s = block [access_mle cmce_ul mm_ul llc] ?t"
    by (simp add: access_llc_def llc(1) put_def)
  moreover have "fine ?t (block [access_mle cmce_ul mm_ul llc] ?t)"
    using f by (cases "access_mle cmce_ul mm_ul llc ?t") simp_all
  moreover have "moves s ?t" using s by (simp add: moves_def ps_ok_dset)
  ultimately show "fine s (access_llc cmce_ul mm_ul s)" using fine_trans by metis
qed

lemma decoded_mode_llc:
  assumes "dget out ''llc'' = Some (VDict llc)" "dget llc ''llc_type_name'' = Some (VStr n)"
    and "n \<noteq> []" "\<not> startswith n ''Unknown(''" "get_str direct_mm ''mm_name'' = Inr m"
  shows "decoded_mode out direct_mm = Inr (if dget out ''mle'' \<noteq> None then ''llc_mle'' else ''raw'')"
  using assms by (simp add: decoded_mode_def get_dict_def get_str_def dget_default_alt)

lemma parse_ul_direct_mm_name:
  assumes "ext_total mm_ul" "pos + 4 \<le> length bits" "parse_ul_direct_mm mm_ul bits pos = Inr d"
  shows "\<exists>m. dget d ''mm_name'' = Some (VStr m)"
proof -
  let ?t = "bits_val (take 4 (drop pos bits))"
  let ?rest = "[try_ext ''mm_full'' mm_ul, advance_pos 4,
    call_val ''mm'' (\<lambda>bits pos. as_dict (parse_ul_mm bits pos ?t)), put_pos ''payload_start'']"
  let ?s = "\<lparr>pbits = bits, ppos = pos,
    pdict = dset ''mm_name'' (name_or_unknown UL_MM_NAMES ?t) (dset ''mm_type'' (VInt ?t) [])\<rparr>"
  let ?body = "[need 4, peek 4 (\<lambda>mm_type.
      [put ''mm_type'' (VInt mm_type), put ''mm_name'' (name_or_unknown UL_MM_NAMES mm_type),
       try_ext ''mm_full'' mm_ul, advance_pos 4,
       call_val ''mm'' (\<lambda>bits pos. as_dict (parse_ul_mm bits pos mm_type)), put_pos ''payload_start''])]"
  have run: "block ?body \<lparr>pbits = bits, ppos = pos, pdict = []\<rparr> = block ?rest ?s"
    using assms(2) by (simp add: need_def peek_run put_def split: outcome.split)
  have "step_leaves ''mm_name'' (try_ext ''mm_full'' mm_ul)"
    by (auto simp: step_leaves_def try_ext_def call_val_def split: option.splits sum.splits)
  moreover have "step_leaves ''mm_name'' (advance_pos 4)"
    by (simp add: step_leaves_def advance_pos_def)
  ultimately have keep: "leaves ''mm_name'' ?rest"
    by (intro leaves_rules) simp_all
  have "fst_res (run_body ?body bits pos []) = Inr d"
    using assms(3) unfolding parse_ul_direct_mm_def .
  then obtain s' where "block ?rest ?s = Next s' \<or> block ?rest ?s = Return s'" "d = pdict s'"
    unfolding run_body_def run by (auto split: outcome.splits)
  then have "dget d ''mm_name'' = dget (pdict ?s) ''mm_name''"
    using keep unfolding leaves_def by metis
  then show ?thesis by (simp add: name_or_unknown_def name_of_def)
qed

text \<open>The LLC entry, with its name, is in place when the decode mode is chosen.\<close>

definition llc_named :: "dict \<Rightarrow> bool" where
  "llc_named out \<longleftrightarrow> (\<exists>llc n. dget out ''llc'' = Some (VDict llc) \<and>
     dget llc ''llc_type_name'' = Some (VStr n) \<and> n \<noteq> [] \<and> \<not> startswith n ''Unknown('')"

lemma access_mle_next:
  assumes "cmce_ul_total cmce_ul" "ext_total mm_ul" "ps_ok (pbits s) llc"
  shows "\<exists>s'. access_mle cmce_ul mm_ul llc s = Next s' \<and> ppos s' = ppos s \<and> pbits s' = pbits s \<and>
    dget (pdict s') ''llc'' = dget (pdict s) ''llc''"
proof (cases "dget llc ''payload_start''")
  case None
  then show ?thesis by (simp add: access_mle_def dget_default_alt)
next
  case (Some v)
  then obtain p where v: "v = VInt (int p)" using ps_okD [OF assms(3)] by blast
  obtain d where "parse_ul_mle cmce_ul mm_ul (pbits s) p = Inr d" using parse_ul_mle_ok assms by blast
  then show ?thesis
    using Some by (simp add: access_mle_def dget_default_alt v call_val_def as_dict_def)
qed

lemma access_llc_next:
  assumes "cmce_ul_total cmce_ul" "ext_total mm_ul" "ppos s + 4 \<le> length (pbits s)"
  shows "\<exists>s'. access_llc cmce_ul mm_ul s = Next s' \<and> ppos s' = ppos s \<and> pbits s' = pbits s \<and>
    llc_named (pdict s')"
proof -
  obtain llc where llc: "parse_llc (pbits s) (ppos s) = Inr llc" "ps_ok (pbits s) llc"
    using parse_llc_ok by blast
  let ?t = "s\<lparr>pdict := dset ''llc'' (VDict llc) (pdict s)\<rparr>"
  obtain s' where s': "access_mle cmce_ul mm_ul llc ?t = Next s'" "ppos s' = ppos s" "pbits s' = pbits s"
    "dget (pdict s') ''llc'' = Some (VDict llc)"
    using access_mle_next [of cmce_ul mm_ul ?t llc] assms llc(2) by auto
  have "access_llc cmce_ul mm_ul s = Next s'"
    by (simp add: access_llc_def llc(1) put_def s'(1))
  then show ?thesis
    using s'(2-4) parse_llc_name [OF assms(3) llc(1)] unfolding llc_named_def by blast
qed

lemma access_direct_next:
  assumes "ext_total mm_ul" "ppos s + 4 \<le> length (pbits s)" "llc_named (pdict s)"
  shows "\<exists>s'. access_direct mm_ul s = Next s' \<and> ppos s' = ppos s \<and> pbits s' = pbits s \<and>
    (ps_ok (pbits s) (pdict s) \<longrightarrow> ps_ok (pbits s) (pdict s')) \<and>
    dget (pdict s') ''decoded_mode'' =
      Some (VStr (if dget (pdict s') ''mle'' \<noteq> None then ''llc_mle'' else ''raw''))"
proof -
  have "ppos s \<le> length (pbits s)" using assms(2) by simp
  from parse_ul_direct_mm_ok [OF assms(1) this] obtain d
    where d: "parse_ul_direct_mm mm_ul (pbits s) (ppos s) = Inr d" by blast
  obtain m where m: "dget d ''mm_name'' = Some (VStr m)"
    using parse_ul_direct_mm_name [OF assms(1,2) d] by blast
  let ?out = "dset ''direct_mm'' (VDict d) (pdict s)"
  obtain llc n where llc: "dget (pdict s) ''llc'' = Some (VDict llc)" "dget llc ''llc_type_name'' = Some (VStr n)"
    "n \<noteq> []" "\<not> startswith n ''Unknown(''" using assms(3) unfolding llc_named_def by blast
  have "decoded_mode ?out d = Inr (if dget ?out ''mle'' \<noteq> None then ''llc_mle'' else ''raw'')"
    by (rule decoded_mode_llc [OF _ llc(2-4)]) (simp_all add: llc(1) get_str_def dget_default_alt m)
  then show ?thesis by (simp add: access_direct_def d Let_def ps_ok_dset)
qed

text \<open>The layers above the address: whether or not there is an LLC header, they do not raise.\<close>

lemma access_layers_next:
  assumes "cmce_ul_total cmce_ul" "ext_total mm_ul" "ppos s \<le> length (pbits s)"
    and "dget (pdict s) ''decoded_mode'' = None"
  shows "\<exists>s'. block (access_layers cmce_ul mm_ul) s = Next s' \<and>
    (case dget (pdict s') ''decoded_mode'' of None \<Rightarrow> length (pbits s) < ppos s + 4
     | Some v \<Rightarrow> v = VStr (if dget (pdict s') ''mle'' \<noteq> None then ''llc_mle'' else ''raw''))"
proof (cases "ppos s + 4 \<le> length (pbits s)")
  case True
  let ?t = "s\<lparr>pdict := dset ''payload_start'' (VInt (int (ppos s))) (pdict s)\<rparr>"
  obtain t' where t': "access_llc cmce_ul mm_ul ?t = Next t'" "ppos t' = ppos s" "pbits t' = pbits s"
    "llc_named (pdict t')" using access_llc_next [OF assms(1,2), of ?t] True by auto
  obtain s' where "access_direct mm_ul t' = Next s'" "dget (pdict s') ''decoded_mode'' =
      Some (VStr (if dget (pdict s') ''mle'' \<noteq> None then ''llc_mle'' else ''raw''))"
    using access_direct_next [OF assms(2), of t'] True t' by auto
  then show ?thesis
    using True t' by (simp add: access_layers_def put_pos_def when_fits_def)
next
  case False
  then show ?thesis
    using assms(4) by (simp add: access_layers_def put_pos_def when_fits_def)
qed

lemma access_optional_next:
  assumes "ppos s \<le> length (pbits s)"
  shows "\<exists>s'. block access_optional s = Next s' \<and> pbits s' = pbits s \<and> ppos s' \<le> length (pbits s) \<and>
    dget (pdict s') ''decoded_mode'' = dget (pdict s) ''decoded_mode''"
  using assms by (simp add: access_optional_def stmt_simps)

definition access_addr_bits :: "bits \<Rightarrow> nat" where
  "access_addr_bits b = (if bits_val (take 2 (drop 3 b)) = 1 then 10 else 24)"

lemma access_body_run:
  assumes "20 \<le> length b"
  shows "block (access_body cmce_ul mm_ul) \<lparr>pbits = b, ppos = 2, pdict = out\<rparr> =
    block (access_address (bits_val (take 2 (drop 3 b))) # access_optional @ access_layers cmce_ul mm_ul)
      \<lparr>pbits = b, ppos = 5, pdict = dset ''addr_type_name'' (name_or_unknown ADDR_TYPE_NAMES (bits_val (take 2 (drop 3 b))))
        (dset ''addr_type'' (VInt (bits_val (take 2 (drop 3 b))))
          (dset ''encrypted'' (VInt (bits_val (take 1 (drop 2 b)))) out))\<rparr>"
  using assms by (simp add: access_body_def take_as_run read_run put_def split: outcome.split)

lemma access_body_result:
  assumes "cmce_ul_total cmce_ul" "ext_total mm_ul" "20 \<le> length b" "dget out ''decoded_mode'' = None"
  shows "if 5 + access_addr_bits b \<le> length b
    then (\<exists>d. fst_res (run_body (access_body cmce_ul mm_ul) b 2 out) = Inr d \<and>
      dget d ''decoded_mode'' \<in> {None, Some (VStr (if dget d ''mle'' \<noteq> None then ''llc_mle'' else ''raw''))})
    else fst_res (run_body (access_body cmce_ul mm_ul) b 2 out) = Inl IndexError"
proof -
  let ?a = "bits_val (take 2 (drop 3 b))"
  let ?d = "dset ''addr_type_name'' (name_or_unknown ADDR_TYPE_NAMES ?a)
    (dset ''addr_type'' (VInt ?a) (dset ''encrypted'' (VInt (bits_val (take 1 (drop 2 b)))) out))"
  let ?s = "\<lparr>pbits = b, ppos = 5, pdict = ?d\<rparr>"
  let ?tail = "access_optional @ access_layers cmce_ul mm_ul"
  note run = access_body_run [OF assms(3), of cmce_ul mm_ul out]
  show ?thesis
  proof (cases "5 + access_addr_bits b \<le> length b")
    case True
    let ?k = "if ?a = 1 then ''event_label'' else ''ssi''"
    let ?t = "\<lparr>pbits = b, ppos = 5 + access_addr_bits b,
      pdict = dset ?k (VInt (bits_val (take (access_addr_bits b) (drop 5 b)))) ?d\<rparr>"
    have "access_address ?a ?s = Next ?t"
      using True by (simp add: access_address_def access_addr_bits_def branch_def take_as_run split: if_splits)
    moreover obtain t' where t': "block access_optional ?t = Next t'" "pbits t' = b" "ppos t' \<le> length b"
      "dget (pdict t') ''decoded_mode'' = None"
      using access_optional_next [of ?t] True assms(4) by auto
    moreover obtain s' where s': "block (access_layers cmce_ul mm_ul) t' = Next s'"
      "case dget (pdict s') ''decoded_mode'' of None \<Rightarrow> length (pbits t') < ppos t' + 4
       | Some v \<Rightarrow> v = VStr (if dget (pdict s') ''mle'' \<noteq> None then ''llc_mle'' else ''raw'')"
      using access_layers_next [OF assms(1,2), of t'] t' by auto
    ultimately have "run_body (access_body cmce_ul mm_ul) b 2 out = Inr (pdict s', ppos s')"
      by (simp add: run_body_def run block_append)
    then show ?thesis
      using True s'(2) by (auto split: option.splits)
  next
    case False
    then have "access_address ?a ?s = Raise IndexError"
      by (simp add: access_address_def access_addr_bits_def branch_def take_as_def extract_bits_eq split: if_splits)
    then show ?thesis using False by (simp add: run_body_def run)
  qed
qed

subsection \<open>Properties\<close>

text \<open>Exactly when MAC-ACCESS parsing raises: with field-level parsers that do not raise,
  \<open>parse_mac_access\<close> returns for every burst except those of 20 to 28 bits with PDU type 0 and a
  24-bit address, where the length guard \<open>len < 20\<close> lets the address read run off the end and the
  function raises IndexError.\<close>

theorem parse_mac_access_raises_iff:
  assumes "cmce_ul_total cmce_ul" "ext_total mm_ul"
  shows "(if 20 \<le> length b \<and> length b < 29 \<and> \<not> b ! 0 \<and> bits_val (take 2 (drop 3 b)) \<noteq> 1
     then parse_mac_access cmce_ul mm_ul (Some b) = Inl IndexError
     else (\<exists>r. parse_mac_access cmce_ul mm_ul (Some b) = Inr r)) \<and>
    parse_mac_access cmce_ul mm_ul None = Inr None"
proof
  let ?out = "[(''pdu_type'', VInt (of_bool (b ! 0))), (''fill_bit'', VInt (of_bool (b ! 1)))]"
  have n: "dget ?out ''decoded_mode'' = None" by simp
  show "if 20 \<le> length b \<and> length b < 29 \<and> \<not> b ! 0 \<and> bits_val (take 2 (drop 3 b)) \<noteq> 1
     then parse_mac_access cmce_ul mm_ul (Some b) = Inl IndexError
     else (\<exists>r. parse_mac_access cmce_ul mm_ul (Some b) = Inr r)"
  proof (cases "20 \<le> length b \<and> \<not> b ! 0")
    case True
    then have l: "20 \<le> length b" by simp
    show ?thesis
      using access_body_result [OF assms l n] True
      by (auto simp: parse_mac_access_def Let_def access_addr_bits_def split: if_splits)
  next
    case False
    then show ?thesis
      by (auto simp: parse_mac_access_def Let_def extract_bits_eq)
  qed
  show "parse_mac_access cmce_ul mm_ul None = Inr None" by (simp add: parse_mac_access_def)
qed

theorem parse_mac_access_raises_iff_witness:
  "parse_mac_access None None (Some (replicate 24 False)) = Inl IndexError"
proof -
  have "cmce_ul_total None" "ext_total None" by (simp_all add: cmce_ul_total_def ext_total_def)
  from parse_mac_access_raises_iff [OF this, of "replicate 24 False"] show ?thesis
    by (simp add: eval_nat_numeral bits_val_Cons)
qed

text \<open>The direct-MM fallback is never chosen: whenever \<open>parse_mac_access\<close> records a decode mode it is
  \<open>llc_mle\<close> if an MLE layer was parsed and \<open>raw\<close> otherwise, because an LLC header is then always
  present and every one of the 16 LLC types has a name.\<close>

theorem direct_mm_never_chosen:
  assumes "cmce_ul_total cmce_ul" "ext_total mm_ul"
    and "parse_mac_access cmce_ul mm_ul (Some b) = Inr (Some d)"
  shows "dget d ''decoded_mode'' \<in> {None, Some (VStr (if dget d ''mle'' \<noteq> None then ''llc_mle'' else ''raw''))} \<and>
    dget d ''decoded_mode'' \<noteq> Some (VStr ''direct_mm'')"
proof -
  let ?out = "[(''pdu_type'', VInt (of_bool (b ! 0))), (''fill_bit'', VInt (of_bool (b ! 1)))]"
  have n: "dget ?out ''decoded_mode'' = None" by simp
  have "dget d ''decoded_mode'' \<in> {None, Some (VStr (if dget d ''mle'' \<noteq> None then ''llc_mle'' else ''raw''))}"
  proof (cases "b ! 0")
    case True
    then show ?thesis
      using assms(3) by (auto simp: parse_mac_access_def Let_def extract_bits_eq split: if_splits)
  next
    case False
    have l: "20 \<le> length b" using assms(3) by (simp add: parse_mac_access_def split: if_splits)
    show ?thesis
      using access_body_result [OF assms(1,2) l n] assms(3) False l
      by (auto simp: parse_mac_access_def Let_def split: if_splits)
  qed
  then show ?thesis by (auto split: if_splits)
qed

theorem direct_mm_never_chosen_witness:
  "\<exists>d. parse_mac_access None None (Some (True # replicate 24 False)) = Inr (Some d) \<and>
     dget d ''decoded_mode'' \<noteq> Some (VStr ''direct_mm'')"
proof -
  have e: "cmce_ul_total None" "ext_total None" by (simp_all add: cmce_ul_total_def ext_total_def)
  have "parse_mac_access None None (Some (True # replicate 24 False)) = Inr (Some
      [(''pdu_type'', VInt 1), (''fill_bit'', VInt 0), (''mac_top_nibble'', VInt 2)])"
    by (simp add: parse_mac_access_def extract_bits_eq eval_nat_numeral bits_val_Cons)
  from direct_mm_never_chosen [OF e this] this show ?thesis by blast
qed

text \<open>An ITSI attach as a terminal sends it on the random access channel: MAC-ACCESS with its SSI, no
  optional field, LLC BL-DATA, MLE, then U-LOCATION UPDATE DEMAND with the terminal's class and no other optional element;
  fill bits follow.\<close>

definition itsi_attach_pdu :: "bool \<Rightarrow> int \<Rightarrow> int \<Rightarrow> int \<Rightarrow> bits \<Rightarrow> bits" where
  "itsi_attach_pdu ns issi t cls rest =
     [False, True, False] @ to_bits 2 0 @ to_bits 24 issi @ [False] @ to_bits 4 1 @ [ns] @ to_bits 3 1 @ to_bits 4 2 @
     to_bits 3 t @ [False, False] @ [True] @ [True] @ to_bits 24 cls @
     [False, False, False, False, False] @ rest"

text \<open>The registration request is parsed back through all four layers: from the bits of an ITSI attach,
  whatever follows them, \<open>parse_mac_access\<close> recovers the ISSI, the update type and the class of the
  terminal, and reports \<open>llc_mle\<close>.\<close>

theorem itsi_attach_parsed:
  assumes "0 \<le> issi" "issi < 2 ^ 24" "0 \<le> t" "t < 8" "0 \<le> cls" "cls < 2 ^ 24"
  shows "\<exists>d mle mm. parse_mac_access None None (Some (itsi_attach_pdu ns issi t cls rest)) = Inr (Some d) \<and>
    dget d ''ssi'' = Some (VInt issi) \<and> dget d ''payload_start'' = Some (VInt 30) \<and>
    dget d ''decoded_mode'' = Some (VStr ''llc_mle'') \<and> dget d ''mle'' = Some (VDict mle) \<and>
    dget mle ''mm_name'' = Some (VStr ''U-LOC-UPD-DEMAND'') \<and> dget mle ''mm'' = Some (VDict mm) \<and>
    dget mm ''location_update_type'' = Some (VInt t) \<and> dget mm ''class_of_ms'' = Some (VInt cls)"
proof -
  define b where "b = itsi_attach_pdu ns issi t cls rest"
  have v: "bits_val (to_bits 24 issi) = issi" "bits_val (to_bits 3 t) = t" "bits_val (to_bits 24 cls) = cls"
    "bits_val (to_bits 2 0) = 0" "bits_val (to_bits 4 1) = 1" "bits_val (to_bits 3 1) = 1" "bits_val (to_bits 4 2) = 2"
    using assms by (simp_all add: bits_val_to_bits_id)
  have pos: "take 1 (drop 2 b) = [False]" "take 2 (drop 3 b) = to_bits 2 0" "take 24 (drop 5 b) = to_bits 24 issi"
    "take 1 (drop 29 b) = [False]" "take 4 (drop 30 b) = to_bits 4 1" "take 1 (drop 34 b) = [ns]"
    "take 3 (drop 35 b) = to_bits 3 1" "take 4 (drop 38 b) = to_bits 4 2" "take 3 (drop 42 b) = to_bits 3 t"
    "take 1 (drop 45 b) = [False]" "take 1 (drop 46 b) = [False]" "take 1 (drop 47 b) = [True]"
    "take 1 (drop 48 b) = [True]" "take 24 (drop 49 b) = to_bits 24 cls" "take 1 (drop 73 b) = [False]" "take 1 (drop 74 b) = [False]"
    "take 1 (drop 75 b) = [False]" "take 1 (drop 76 b) = [False]" "take 1 (drop 77 b) = [False]" "78 \<le> length b" "\<not> b ! 0" "b ! Suc 0"
    by (simp_all add: b_def itsi_attach_pdu_def)
  obtain llc where llc: "parse_llc b 30 = Inr llc" "dget llc ''payload_start'' = Some (VInt 35)"
      "dget llc ''llc_type_name'' = Some (VStr ''BL-DATA'')"
    using pos by (simp add: parse_llc_def llc_body_def run_body_def llc_header_def fcs_step_def
        seq_bit_def stmt_simps v name_or_unknown_def LLC_PDU_NAMES_def)
  obtain mm where mm: "parse_ul_mm b 42 2 = Inr mm" "dget mm ''location_update_type'' = Some (VInt t)"
      "dget mm ''class_of_ms'' = Some (VInt cls)"
    using pos by (simp add: parse_ul_mm_def loc_upd_demand_body_def run_body_def loc_upd_type_body_def
        seq_bit_def optional_element_def stmt_simps v)
  obtain mle where mle: "parse_ul_mle None None b 35 = Inr mle" "dget mle ''mm_name'' = Some (VStr ''U-LOC-UPD-DEMAND'')"
      "dget mle ''mm'' = Some (VDict mm)"
    using pos by (simp add: parse_ul_mle_def ul_mle_body_def run_body_def stmt_simps v try_ext_def
        as_dict_def mm(1) name_or_unknown_def UL_MM_NAMES_def)
  have e: "ext_total None" "30 \<le> length b" "30 + 4 \<le> length b" using pos by (simp_all add: ext_total_def)
  obtain dm m where dm: "parse_ul_direct_mm None b 30 = Inr dm" "dget dm ''mm_name'' = Some (VStr m)"
    using parse_ul_direct_mm_ok [OF e(1,2)] parse_ul_direct_mm_name [OF e(1,3)] by blast
  have mode: "decoded_mode out dm = Inr (if dget out ''mle'' \<noteq> None then ''llc_mle'' else ''raw'')"
    if "dget out ''llc'' = Some (VDict llc)" for out
  proof -
    obtain n where "dget llc ''llc_type_name'' = Some (VStr n)" "n \<noteq> []" "\<not> startswith n ''Unknown(''"
      using parse_llc_name [OF e(3) llc(1)] by blast
    then show ?thesis
      using dm(2) that by (intro decoded_mode_llc) (simp_all add: get_str_def dget_default_alt)
  qed
  show ?thesis unfolding b_def [symmetric]
    using pos by (simp add: parse_mac_access_def access_body_def run_body_def access_address_def
        access_optional_def access_layers_def access_llc_def access_mle_def access_direct_def
        stmt_simps v llc mle dm mode mm dget_default_alt as_dict_def name_or_unknown_def)
qed

theorem itsi_attach_parsed_witness:
  "\<exists>d. parse_mac_access None None (Some (itsi_attach_pdu True 2600001 3 17 (replicate 4 False))) = Inr (Some d) \<and>
     dget d ''ssi'' = Some (VInt 2600001)"
proof -
  have "(0::int) \<le> 2600001" "(2600001::int) < 2 ^ 24" "(0::int) \<le> 3" "(3::int) < 8" "(0::int) \<le> 17" "(17::int) < 2 ^ 24"
    by simp_all
  from itsi_attach_parsed [OF this] show ?thesis by blast
qed

end
