(* ===== verification/UlReceive.thy ===== *)
theory UlReceive
  imports UlParse SoftViterbi
begin

text \<open>
  The receiving side of \<open>scripts/decode_ul.py\<close> above the demodulator: \<open>descramble_soft_etsi\<close>, the
  trial of channel hypotheses (\<open>try_channel_decode\<close>, \<open>try_schhu_decode\<close>) and the search of
  \<open>_decode_one_burst\<close> over timing and frequency corrections.

  Soft values are integers, as in \<open>SoftViterbi\<close>; the halves of a block that the demodulator samples at a point
  of the search grid are its input.
\<close>

subsection \<open>Channel hypotheses\<close>

definition descramble_soft_etsi :: "int list \<Rightarrow> int \<Rightarrow> nat \<Rightarrow> int list res" where
  "descramble_soft_etsi soft_bits init len =
     (if length soft_bits \<noteq> len then Inl ValueError
      else Inr (map2 (\<lambda>s b. s * (1 - 2 * of_bool b)) soft_bits (scrambler_seq init len)))"

definition channel_params :: "string \<Rightarrow> (nat \<times> nat \<times> nat) res" where
  "channel_params channel =
     (if channel = ''schhu'' then Inr (168, 13, 92)
      else if channel = ''schhd'' then Inr (216, 101, 124)
      else if channel = ''schf'' then Inr (432, 103, 268)
      else Inl ValueError)"

definition cat_trim :: "nat \<Rightarrow> int list \<Rightarrow> int list \<Rightarrow> int list" where
  "cat_trim K a b =
     (let s = a @ b in if K \<le> length s then take K s else s @ replicate (K - length s) 0)"

text \<open>The result: CRC verdict, information bits, hard bits and the name of the hypothesis.\<close>

type_synonym channel_result = "bool \<times> bits option \<times> bits option \<times> string option"

definition hypothesis ::
  "string \<Rightarrow> int \<Rightarrow> nat \<Rightarrow> string \<times> int list \<Rightarrow> char \<times> int \<Rightarrow> char \<times> bool \<Rightarrow> (string \<times> int list) res" where
  "hypothesis channel scramb_init K = (\<lambda>(order_name, s) (pol_name, pol) (scr_name, use_scr).
     bind_res (if use_scr then descramble_soft_etsi s scramb_init K else Inr s) (\<lambda>d.
       Inr (channel @ ''_'' @ order_name @ [pol_name, scr_name], map (\<lambda>v. pol * v) d)))"

fun all_res :: "'a res list \<Rightarrow> 'a list res" where
  "all_res [] = Inr []"
| "all_res (r # rs) = bind_res r (\<lambda>x. bind_res (all_res rs) (\<lambda>xs. Inr (x # xs)))"

definition hypotheses ::
  "string \<Rightarrow> int \<Rightarrow> nat \<Rightarrow> int list \<Rightarrow> int list \<Rightarrow> (string \<times> int list) list res" where
  "hypotheses channel scramb_init K blk1 blk2 =
     all_res (concat (map (\<lambda>order. concat (map (\<lambda>pol. map (\<lambda>scr.
         hypothesis channel scramb_init K order pol scr)
       [(CHR ''s'', True), (CHR ''n'', False)])
       [(CHR ''+'', 1), (CHR ''-'', - 1)]))
       [(''12'', cat_trim K blk1 blk2), (''21'', cat_trim K blk2 blk1)]))"

text \<open>The loop over the hypotheses; an exception of the decoder skips the hypothesis.\<close>

fun try_loop :: "nat \<Rightarrow> nat \<Rightarrow> nat \<Rightarrow> (string \<times> int list) list \<Rightarrow> channel_result \<Rightarrow> channel_result" where
  "try_loop K a info [] best = best"
| "try_loop K a info ((name, soft_t5) # hs) best =
     (case decode_channel_soft soft_t5 K a info of
        Inl e \<Rightarrow> try_loop K a info hs best
      | Inr (crc_ok, info_bits, dec) \<Rightarrow>
          (let hard = map (\<lambda>v. v < 0) soft_t5
           in if crc_ok then (True, Some info_bits, Some hard, Some name)
              else try_loop K a info hs
                (if fst (snd best) = None then (crc_ok, Some info_bits, Some hard, Some name) else best)))"

definition no_result :: channel_result where
  "no_result = (False, None, None, None)"

definition try_channel_decode ::
  "int list \<Rightarrow> int list \<Rightarrow> int \<Rightarrow> string \<Rightarrow> channel_result res" where
  "try_channel_decode blk1_soft blk2_soft scramb_init channel =
     bind_res (channel_params channel) (\<lambda>(K, a, info).
       if 2 * length blk1_soft < K then Inr no_result
       else bind_res (hypotheses channel scramb_init K blk1_soft blk2_soft) (\<lambda>hs.
         Inr (try_loop K a info hs no_result)))"

definition try_schhu_decode :: "int list \<Rightarrow> int list \<Rightarrow> int \<Rightarrow> channel_result res" where
  "try_schhu_decode cb1_soft cb2_soft scramb_init =
     bind_res (try_channel_decode cb1_soft cb2_soft scramb_init ''schhu'') (\<lambda>res.
     if fst res then Inr res else
     bind_res (try_channel_decode cb1_soft cb2_soft scramb_init ''schhd'') (\<lambda>res.
     if fst res then Inr res else
     try_channel_decode cb1_soft cb2_soft scramb_init ''schf''))"

text \<open>\<open>_decode_one_burst\<close>: the grid of timing and frequency corrections is tried until a CRC passes.  The
  soft halves a point of the grid gives come from the demodulator and are the input here; a point also
  carries its frequency.  The state is the best result so far with the halves it came from.\<close>

type_synonym 'f grid_state = "channel_result \<times> 'f \<times> (int list \<times> int list) option"

fun cfo_loop ::
  "int \<Rightarrow> ('f \<times> int list \<times> int list) list \<Rightarrow> 'f grid_state \<Rightarrow> 'f grid_state res" where
  "cfo_loop init [] st = Inr st"
| "cfo_loop init ((cfo_try, blk1_cb, blk2_cb) # points) (result, cfo_A, final) =
     bind_res (try_channel_decode blk1_cb blk2_cb init ''schhu'') (\<lambda>r.
       if fst r then Inr (r, cfo_try, Some (blk1_cb, blk2_cb))
       else cfo_loop init points
         (if fst (snd result) = None then (r, cfo_try, Some (blk1_cb, blk2_cb)) else (result, cfo_A, final)))"

fun tim_loop ::
  "int \<Rightarrow> ('f \<times> int list \<times> int list) list list \<Rightarrow> 'f grid_state \<Rightarrow> 'f grid_state res" where
  "tim_loop init [] st = Inr st"
| "tim_loop init (row # rows) st =
     bind_res (cfo_loop init row st) (\<lambda>st'. if fst (fst st') then Inr st' else tim_loop init rows st')"

text \<open>The full-slot path: \<open>nub\<close> is what the second training sequence gave, if it was searched and found.\<close>

definition nub_path ::
  "int \<Rightarrow> (int list \<times> int list) option \<Rightarrow> 'f grid_state \<Rightarrow> 'f grid_state res" where
  "nub_path init nub = (\<lambda>(result, cfo_A, final).
     case nub of None \<Rightarrow> Inr (result, cfo_A, final)
     | Some (b1, b2) \<Rightarrow>
         if fst result then Inr (result, cfo_A, final)
         else bind_res (try_channel_decode b1 b2 init ''schf'') (\<lambda>rf.
           Inr (if fst rf \<or> fst (snd result) = None then (rf, cfo_A, Some (b1, b2)) else (result, cfo_A, final))))"

record ul_result =
  skip :: bool
  crc_ok :: bool
  variant :: "string option"
  info_bits :: "bits option"
  type5_hard :: "bits option"
  t5_onair :: "bits option"

definition burst_result :: "'f grid_state \<Rightarrow> ul_result" where
  "burst_result = (\<lambda>((ok, info, hard, var), cfo_A, final).
     \<lparr>skip = False, crc_ok = ok, variant = Some (case var of None \<Rightarrow> [] | Some v \<Rightarrow> v), info_bits = info,
       type5_hard = hard,
       t5_onair = map_option (\<lambda>(b1, b2). map (\<lambda>v. v < 0) (b1 @ b2)) final\<rparr>)"

definition skipped_burst :: ul_result where
  "skipped_burst = \<lparr>skip = True, crc_ok = False, variant = None, info_bits = None, type5_hard = None, t5_onair = None\<rparr>"

definition decode_one_burst ::
  "int \<Rightarrow> bool \<Rightarrow> 'f \<Rightarrow> ('f \<times> int list \<times> int list) list list \<Rightarrow> (int list \<times> int list) option \<Rightarrow> ul_result res" where
  "decode_one_burst init weak cfo_A0 grid nub =
     (if weak then Inr skipped_burst
      else bind_res (tim_loop init grid (no_result, cfo_A0, None)) (\<lambda>st.
        bind_res (nub_path init nub st) (\<lambda>st. Inr (burst_result st))))"

subsection \<open>A passing hypothesis is found\<close>

lemma descramble_soft_etsi_eq: "descramble_soft_etsi = descramble_soft"
  by (simp add: fun_eq_iff descramble_soft_etsi_def descramble_soft_def)

lemma hard_of_soft: "map (\<lambda>v. v < 0) (map soft_of xs) = xs"
  by (induction xs) (simp_all add: soft_of_def)

text \<open>The list of hypotheses on two blocks that fill the code block.\<close>

definition both_scramblings :: "string \<Rightarrow> int \<Rightarrow> string \<Rightarrow> char \<Rightarrow> int \<Rightarrow> int list \<Rightarrow> (string \<times> int list) list" where
  "both_scramblings channel init order p pol s =
     [(channel @ ''_'' @ order @ [p, CHR ''s''],
        map (\<lambda>v. pol * v) (map2 (\<lambda>s b. s * (1 - 2 * of_bool b)) s (scrambler_seq init (length s)))),
      (channel @ ''_'' @ order @ [p, CHR ''n''], map (\<lambda>v. pol * v) s)]"

lemma length_cat_trim [simp]: "length (cat_trim K a b) = K"
  by (auto simp: cat_trim_def Let_def min_def)

lemma cat_trim_full: "length a + length b = K \<Longrightarrow> cat_trim K a b = a @ b"
  by (simp add: cat_trim_def)

lemma hypotheses_general:
  "hypotheses ch init K b1 b2 = Inr (
    both_scramblings ch init ''12'' (CHR ''+'') 1 (cat_trim K b1 b2) @
    both_scramblings ch init ''12'' (CHR ''-'') (- 1) (cat_trim K b1 b2) @
    both_scramblings ch init ''21'' (CHR ''+'') 1 (cat_trim K b2 b1) @
    both_scramblings ch init ''21'' (CHR ''-'') (- 1) (cat_trim K b2 b1))"
  unfolding hypotheses_def hypothesis_def descramble_soft_etsi_def both_scramblings_def by simp

lemma hypotheses_eq:
  assumes "length b1 + length b2 = K"
  shows "hypotheses ch init K b1 b2 = Inr (
    both_scramblings ch init ''12'' (CHR ''+'') 1 (b1 @ b2) @ both_scramblings ch init ''12'' (CHR ''-'') (- 1) (b1 @ b2) @
    both_scramblings ch init ''21'' (CHR ''+'') 1 (b2 @ b1) @ both_scramblings ch init ''21'' (CHR ''-'') (- 1) (b2 @ b1))"
  using assms by (simp add: hypotheses_general cat_trim_full add.commute)

lemma both_scramblings_soft:
  "(ch @ ''_'' @ order @ [p, CHR ''s''], map soft_of (descramble_hard bits init (length bits)))
   \<in> set (both_scramblings ch init order p pol (map (\<lambda>b. pol * soft_of b) bits))" if "pol = 1 \<or> pol = - 1"
proof -
  have "map2 (\<lambda>s b. s * (1 - 2 * of_bool b)) (map soft_of bits) (scrambler_seq init (length bits)) =
      map soft_of (descramble_hard bits init (length bits))"
    using descramble_soft_hard [of bits init] by (simp add: descramble_soft_def)
  moreover have "map (\<lambda>v. pol * v) (map2 (\<lambda>s b. s * (1 - 2 * of_bool b)) (map (\<lambda>b. pol * soft_of b) bits) scr) =
      map2 (\<lambda>s b. s * (1 - 2 * of_bool b)) (map soft_of bits) scr" for scr
    using that by (auto simp: map2_map_map zip_map1 intro!: nth_equalityI)
  ultimately show ?thesis by (simp add: both_scramblings_def)
qed

lemma signs_soft: "set v \<subseteq> {1, - 1} \<Longrightarrow> map soft_of (map (\<lambda>x. x < 0) v) = v"
  by (induction v) (auto simp: soft_of_def)

lemma both_scramblings_signs:
  assumes "set v \<subseteq> {1, - 1}" "pol = 1 \<or> pol = - 1" "(name, s) \<in> set (both_scramblings ch init order p pol v)"
  shows "set s \<subseteq> {1, - 1}"
proof -
  let ?d = "map2 (\<lambda>x b. x * (1 - 2 * of_bool b)) v (scrambler_seq init (length v))"
  have d: "set ?d \<subseteq> {1, - 1}"
  proof
    fix y assume "y \<in> set ?d"
    then obtain x b where "x \<in> set v" "y = x * (1 - 2 * of_bool b)" by (auto dest: set_zip_leftD)
    then show "y \<in> {1, - 1}" using assms(1) by (cases b) auto
  qed
  have pol: "set (map (\<lambda>x. pol * x) w) \<subseteq> {1, - 1}" if "set w \<subseteq> {1, - 1}" for w
    using that assms(2) by auto
  have "s = map (\<lambda>x. pol * x) ?d \<or> s = map (\<lambda>x. pol * x) v"
    using assms(3) unfolding both_scramblings_def by (simp only: set_simps insert_iff empty_iff prod.inject) blast
  then show ?thesis using pol [OF d] pol [OF assms(1)] by (elim disjE) simp_all
qed

text \<open>A result of the loop with a good CRC comes from one of the hypotheses, and there is one when a
  hypothesis passes.\<close>

lemma try_loop_true:
  assumes "(name, soft) \<in> set hs" "decode_channel_soft soft K a n = Inr (True, info, dec)"
  shows "\<exists>name' soft' info' dec'. (name', soft') \<in> set hs \<and>
    decode_channel_soft soft' K a n = Inr (True, info', dec') \<and>
    try_loop K a n hs best = (True, Some info', Some (map (\<lambda>v. v < 0) soft'), Some name')"
  using assms
proof (induction hs arbitrary: best)
  case (Cons h hs)
  obtain nm sf where h: "h = (nm, sf)" by (cases h)
  show ?case
  proof (cases "\<exists>i d. decode_channel_soft sf K a n = Inr (True, i, d)")
    case True
    then obtain i d where "decode_channel_soft sf K a n = Inr (True, i, d)" by blast
    then show ?thesis
      unfolding h by (intro exI [of _ nm] exI [of _ sf] exI [of _ i] exI [of _ d]) simp
  next
    case False
    then have m: "(name, soft) \<in> set hs" using Cons.prems h by auto
    obtain best' where step: "try_loop K a n (h # hs) best = try_loop K a n hs best'"
    proof (cases "decode_channel_soft sf K a n")
      case (Inr r)
      obtain ok i d where r: "r = (ok, i, d)" by (cases r)
      then have "\<not> ok" using False Inr by auto
      then show ?thesis using Inr r h by (intro that) simp
    qed (use h that in simp)
    obtain nm' sf' i d where *: "(nm', sf') \<in> set hs" "decode_channel_soft sf' K a n = Inr (True, i, d)"
      "try_loop K a n hs best' = (True, Some i, Some (map (\<lambda>v. v < 0) sf'), Some nm')"
      using Cons.IH [OF m Cons.prems(2), of best'] by blast
    then have "(nm', sf') \<in> set (h # hs)" by simp
    with *(2,3) show ?thesis unfolding step by blast
  qed
qed simp

lemma first_hypothesis:
  assumes "channel_params ch = Inr (K, a, n)" "K < 10 ^ 8" "length r = K" "K \<le> 2 * h" "h \<le> K"
    and "decode_channel (descramble_hard r init K) K a n = Inr (True, info, dec)"
  shows "try_channel_decode (map soft_of (take h r)) (map soft_of (drop h r)) init ch =
    Inr (True, Some info, Some (descramble_hard r init K), Some (ch @ ''_12+s''))"
proof -
  have l: "length (map soft_of (take h r)) + length (map soft_of (drop h r)) = K" using assms(3,5) by simp
  have j: "map soft_of (take h r) @ map soft_of (drop h r) = map soft_of r"
    by (simp add: map_append [symmetric] del: map_append)
  have s: "map2 (\<lambda>s b. s * (1 - 2 * of_bool b)) (map soft_of r) (scrambler_seq init (length r)) =
      map soft_of (descramble_hard r init K)"
    using descramble_soft_hard [of r init] assms(3) by (simp add: descramble_soft_def)
  have d: "decode_channel_soft (map soft_of (descramble_hard r init K)) K a n = Inr (True, info, dec)"
    using decode_channel_soft_hard [OF assms(2)] assms(6) by simp
  have "\<not> 2 * length (map soft_of (take h r)) < K" using assms(3-5) by simp
  then show ?thesis
    using assms(1) hypotheses_eq [OF l, of ch init] s d hard_of_soft [of "descramble_hard r init K"]
    by (simp add: try_channel_decode_def both_scramblings_def j Let_def comp_def)
qed

lemma hu_burst_received:
  assumes "length info = 92" "length e = 168" "burst 10 e" "84 \<le> h" "h \<le> 168"
  shows "\<exists>t5. encode_sch_hu info init = Inr t5 \<and> (let r = xor_bits t5 e in
    try_channel_decode (map soft_of (take h r)) (map soft_of (drop h r)) init ''schhu'' =
      Inr (True, Some info, Some (descramble_hard r init 168), Some ''schhu_12+s''))"
proof -
  obtain t5 where t5: "encode_sch_hu info init = Inr t5" "length t5 = 168"
    "decode_channel (descramble_hard (xor_bits t5 e) init 168) 168 13 92 =
     Inr (True, info, crc16 info @ [False, False, False, False])"
    using sch_hu.decode_burst [OF assms(1) TrueI assms(2,3)] by blast
  let ?r = "xor_bits t5 e"
  have "try_channel_decode (map soft_of (take h ?r)) (map soft_of (drop h ?r)) init ''schhu'' =
      Inr (True, Some info, Some (descramble_hard ?r init 168), Some (''schhu'' @ ''_12+s''))"
    using t5 assms by (intro first_hypothesis) (simp_all add: channel_params_def)
  then show ?thesis using t5(1) by simp
qed

text \<open>A random access burst is received: an SCH/HU block for any cell, hit by a burst of up to 10
  flipped air bits and cut into two half bursts anywhere from the middle on, is decoded by the first
  hypothesis, with its information bits, its descrambled bits and the name of the hypothesis.\<close>

theorem ul_burst_received:
  assumes "length info = 92" "length e = 168" "burst 10 e" "84 \<le> h" "h \<le> 168"
  shows "\<exists>t5. encode_sch_hu info init = Inr t5 \<and> (let r = xor_bits t5 e in
    try_schhu_decode (map soft_of (take h r)) (map soft_of (drop h r)) init =
      Inr (True, Some info, Some (descramble_hard r init 168), Some ''schhu_12+s''))"
  using hu_burst_received [OF assms, of init] by (auto simp: try_schhu_decode_def Let_def)

theorem ul_burst_received_witness:
  "\<exists>t5. encode_sch_hu (replicate 92 True) 5 = Inr t5 \<and>
    try_schhu_decode (map soft_of (take 84 t5)) (map soft_of (drop 84 t5)) 5 =
      Inr (True, Some (replicate 92 True), Some (descramble_hard t5 5 168), Some ''schhu_12+s'')"
proof -
  obtain t5 where t5: "encode_sch_hu (replicate 92 True) 5 = Inr t5"
    and r: "let r = xor_bits t5 (replicate 168 False) in
      try_schhu_decode (map soft_of (take 84 r)) (map soft_of (drop 84 r)) 5 =
        Inr (True, Some (replicate 92 True), Some (descramble_hard r 5 168), Some ''schhu_12+s'')"
    using ul_burst_received [of "replicate 92 True" "replicate 168 False" 84 5] by (auto simp: burst_def)
  have "length t5 = 168"
    using sch_hu.decode_clean [of "replicate 92 True" 5] t5 by auto
  then have "xor_bits t5 (replicate 168 False) = t5" by (intro nth_equalityI) simp_all
  with r t5 show ?thesis by (auto simp: Let_def)
qed

text \<open>A normal uplink burst likewise, on SCH/F.\<close>

lemma nub_burst_received:
  assumes "length info = 268" "nonzero_seed init" "length e = 432" "burst 10 e" "216 \<le> h" "h \<le> 432"
  shows "\<exists>t5. encode_sch_f info init = Inr t5 \<and> (let r = xor_bits t5 e in
    try_channel_decode (map soft_of (take h r)) (map soft_of (drop h r)) init ''schf'' =
      Inr (True, Some info, Some (descramble_hard r init 432), Some ''schf_12+s''))"
proof -
  obtain t5 where t5: "encode_sch_f info init = Inr t5" "length t5 = 432"
    "decode_channel (descramble_hard (xor_bits t5 e) init 432) 432 103 268 =
     Inr (True, info, crc16 info @ [False, False, False, False])"
    using sch_f.decode_burst [OF assms(1-4)] by blast
  let ?r = "xor_bits t5 e"
  have "try_channel_decode (map soft_of (take h ?r)) (map soft_of (drop h ?r)) init ''schf'' =
      Inr (True, Some info, Some (descramble_hard ?r init 432), Some (''schf'' @ ''_12+s''))"
    using t5 assms by (intro first_hypothesis) (simp_all add: channel_params_def)
  then show ?thesis using t5(1) by simp
qed

text \<open>Inverted polarity and swapped half bursts are recovered: when the two halves of the received
  block arrive in either order and with either sign, the trial of hypotheses returns a block whose
  CRC is good, and the bits it reports decode to what it returns.\<close>

theorem ul_hypotheses_complete:
  assumes "length info = 92" "length e = 168" "burst 10 e" "pol = 1 \<or> pol = - 1"
    and "encode_sch_hu info init = Inr t5" "r = xor_bits t5 e"
    and "s1 = map (\<lambda>b. pol * soft_of b) (take 84 r)" "s2 = map (\<lambda>b. pol * soft_of b) (drop 84 r)"
    and "(b1, b2) = (s1, s2) \<or> (b1, b2) = (s2, s1)"
  shows "\<exists>info' hard name dec. try_channel_decode b1 b2 init ''schhu'' = Inr (True, Some info', Some hard, Some name) \<and>
    decode_channel hard 168 13 92 = Inr (True, info', dec)"
proof -
  have t5: "length t5 = 168"
    "decode_channel (descramble_hard r init 168) 168 13 92 = Inr (True, info, crc16 info @ [False, False, False, False])"
    using sch_hu.decode_burst [OF assms(1) TrueI assms(2,3), of init] assms(5,6) by auto
  have r: "length r = 168" using t5(1) assms(2,6) by simp
  have l: "length b1 = 84" "length b2 = 84" using r assms(7-9) by auto
  let ?H = "\<lambda>order p pol s. both_scramblings ''schhu'' init order p pol s"
  let ?hs = "?H ''12'' (CHR ''+'') 1 (b1 @ b2) @ ?H ''12'' (CHR ''-'') (- 1) (b1 @ b2) @
    ?H ''21'' (CHR ''+'') 1 (b2 @ b1) @ ?H ''21'' (CHR ''-'') (- 1) (b2 @ b1)"
  have s12: "s1 @ s2 = map (\<lambda>b. pol * soft_of b) r"
    by (simp only: assms(7,8) map_append [symmetric] append_take_drop_id)
  then have cat: "b1 @ b2 = map (\<lambda>b. pol * soft_of b) r \<or> b2 @ b1 = map (\<lambda>b. pol * soft_of b) r"
    using assms(9) by auto
  let ?t = "map soft_of (descramble_hard r init 168)"
  have m: "\<exists>name. (name, ?t) \<in> set ?hs"
    using both_scramblings_soft [of 1 "''schhu''" "''12''" "CHR ''+''" r init]
      both_scramblings_soft [of "- 1" "''schhu''" "''12''" "CHR ''-''" r init]
      both_scramblings_soft [of 1 "''schhu''" "''21''" "CHR ''+''" r init]
      both_scramblings_soft [of "- 1" "''schhu''" "''21''" "CHR ''-''" r init] cat assms(4) r
    by (auto simp: append_eq_append_conv) 
  then obtain name where name: "(name, ?t) \<in> set ?hs" by blast
  have d: "decode_channel_soft ?t 168 13 92 = Inr (True, info, crc16 info @ [False, False, False, False])"
    using decode_channel_soft_hard [of 168 "descramble_hard r init 168" 13 92] t5(2) by simp
  obtain name' soft' info' dec' where res: "(name', soft') \<in> set ?hs"
    "decode_channel_soft soft' 168 13 92 = Inr (True, info', dec')"
    "try_loop 168 13 92 ?hs no_result = (True, Some info', Some (map (\<lambda>v. v < 0) soft'), Some name')"
    using try_loop_true [OF name d, of no_result] by blast
  have "pol * soft_of b \<in> {1, - 1}" for b using assms(4) by (auto simp: soft_of_def)
  then have "set s1 \<subseteq> {1, - 1}" "set s2 \<subseteq> {1, - 1}" unfolding assms(7,8) set_map by blast+
  then have c: "set (b1 @ b2) \<subseteq> {1, - 1}" "set (b2 @ b1) \<subseteq> {1, - 1}" using assms(9) by (elim disjE; simp)+
  have "set soft' \<subseteq> {1, - 1}"
    using res(1) unfolding set_append [of "both_scramblings _ _ _ _ _ _"] Un_iff
    by (elim disjE) (rule both_scramblings_signs [OF c(1), rotated] both_scramblings_signs [OF c(2), rotated], assumption, simp)+
  then have "map soft_of (map (\<lambda>v. v < 0) soft') = soft'" by (rule signs_soft)
  then have "decode_channel (map (\<lambda>v. v < 0) soft') 168 13 92 = Inr (True, info', dec')"
    using res(2) decode_channel_soft_hard [of 168 "map (\<lambda>v. v < 0) soft'" 13 92] by simp
  moreover have "try_channel_decode b1 b2 init ''schhu'' = Inr (try_loop 168 13 92 ?hs no_result)"
    using l hypotheses_eq [of b1 b2 168 "''schhu''" init] by (simp add: try_channel_decode_def channel_params_def)
  ultimately show ?thesis
    by (intro exI [of _ info'] exI [of _ "map (\<lambda>v. v < 0) soft'"] exI [of _ name'] exI [of _ dec'] conjI)
      (simp_all only: res(3))
qed

theorem ul_hypotheses_complete_witness:
  "\<exists>t5 info' hard name. encode_sch_hu (replicate 92 True) 5 = Inr t5 \<and>
    try_channel_decode (map (\<lambda>b. - soft_of b) (drop 84 t5)) (map (\<lambda>b. - soft_of b) (take 84 t5)) 5 ''schhu'' =
      Inr (True, Some info', Some hard, Some name)"
proof -
  obtain t5 where t5: "encode_sch_hu (replicate 92 True) 5 = Inr t5" "length t5 = 168"
    using sch_hu.decode_clean [of "replicate 92 True" 5] by auto
  have "burst 10 (replicate 168 False)" by (simp add: burst_def)
  moreover have "t5 = xor_bits t5 (replicate 168 False)" using t5(2) by (intro nth_equalityI) simp_all
  ultimately have "\<exists>info' hard name dec. try_channel_decode (map (\<lambda>b. - 1 * soft_of b) (drop 84 t5))
      (map (\<lambda>b. - 1 * soft_of b) (take 84 t5)) 5 ''schhu'' = Inr (True, Some info', Some hard, Some name) \<and>
      decode_channel hard 168 13 92 = Inr (True, info', dec)"
    using t5(1) by (intro ul_hypotheses_complete [of "replicate 92 True" "replicate 168 False" "- 1" 5 t5 t5
      "map (\<lambda>b. - 1 * soft_of b) (take 84 t5)" "map (\<lambda>b. - 1 * soft_of b) (drop 84 t5)"]) simp_all
  with t5(1) show ?thesis by auto
qed

subsection \<open>The search over a burst\<close>

definition known_channel :: "string \<Rightarrow> bool" where
  "known_channel ch \<longleftrightarrow> ch \<in> {''schhu'', ''schhd'', ''schf''}"

lemma try_channel_total: "known_channel ch \<Longrightarrow> \<exists>r. try_channel_decode b1 b2 init ch = Inr r"
proof -
  assume "known_channel ch"
  then obtain K a n where "channel_params ch = Inr (K, a, n)"
    by (auto simp: known_channel_def channel_params_def)
  then show ?thesis by (simp add: try_channel_decode_def hypotheses_general del: split_paired_Ex)
qed

lemma known_channels: "known_channel ''schhu''" "known_channel ''schf''"
  by (simp_all add: known_channel_def)

definition passes :: "int \<Rightarrow> string \<Rightarrow> int list \<times> int list \<Rightarrow> bool" where
  "passes init ch = (\<lambda>(b1, b2). case try_channel_decode b1 b2 init ch of Inl e \<Rightarrow> False | Inr r \<Rightarrow> fst r)"

definition point_result :: "int \<Rightarrow> 'f \<times> int list \<times> int list \<Rightarrow> 'f grid_state" where
  "point_result init = (\<lambda>(f, b1, b2).
     (case try_channel_decode b1 b2 init ''schhu'' of Inl e \<Rightarrow> no_result | Inr r \<Rightarrow> r, f, Some (b1, b2)))"

lemma passes_point: "passes init ''schhu'' (snd p) \<Longrightarrow> fst (fst (point_result init p))"
  unfolding passes_def point_result_def by (cases p) (auto split: sum.splits)

lemma find_append: "find P (xs @ ys) = (case find P xs of None \<Rightarrow> find P ys | Some x \<Rightarrow> Some x)"
  by (induction xs) simp_all

lemma find_holds: "find P xs = Some x \<Longrightarrow> P x"
  by (auto simp: find_Some_iff)

lemma cfo_loop_find:
  assumes "\<not> fst (fst st)"
  shows "case find (\<lambda>p. passes init ''schhu'' (snd p)) pts of
      Some p \<Rightarrow> cfo_loop init pts st = Inr (point_result init p)
    | None \<Rightarrow> \<exists>st'. cfo_loop init pts st = Inr st' \<and> \<not> fst (fst st')"
  using assms
proof (induction pts arbitrary: st)
  case (Cons p pts)
  obtain f b1 b2 where p: "p = (f, b1, b2)" by (cases p)
  obtain result cfo_A final where st: "st = (result, cfo_A, final)" by (cases st)
  obtain r where r: "try_channel_decode b1 b2 init ''schhu'' = Inr r"
    using try_channel_total [OF known_channels(1), of b1 b2 init] by blast
  show ?case
  proof (cases "fst r")
    case True
    then show ?thesis by (simp add: p st r passes_def point_result_def)
  next
    case False
    let ?st' = "if fst (snd result) = None then (r, f, Some (b1, b2)) else (result, cfo_A, final)"
    have "\<not> fst (fst ?st')" using False Cons.prems st by simp
    from Cons.IH [OF this] have IH: "case find (\<lambda>p. passes init ''schhu'' (snd p)) pts of
        Some p \<Rightarrow> cfo_loop init pts ?st' = Inr (point_result init p)
      | None \<Rightarrow> \<exists>st'. cfo_loop init pts ?st' = Inr st' \<and> \<not> fst (fst st')" .
    have "find (\<lambda>p. passes init ''schhu'' (snd p)) (p # pts) = find (\<lambda>p. passes init ''schhu'' (snd p)) pts"
      using False by (simp add: p r passes_def)
    moreover have "cfo_loop init (p # pts) st = cfo_loop init pts ?st'"
      using False by (simp add: p st r)
    ultimately show ?thesis using IH by (simp only:)
  qed
qed simp

lemma tim_loop_find:
  assumes "\<not> fst (fst st)"
  shows "case find (\<lambda>p. passes init ''schhu'' (snd p)) (concat grid) of
      Some p \<Rightarrow> tim_loop init grid st = Inr (point_result init p)
    | None \<Rightarrow> \<exists>st'. tim_loop init grid st = Inr st' \<and> \<not> fst (fst st')"
  using assms
proof (induction grid arbitrary: st)
  case (Cons row grid)
  let ?P = "\<lambda>p. passes init ''schhu'' (snd p)"
  show ?case
  proof (cases "find ?P row")
    case None
    then obtain st' where st': "cfo_loop init row st = Inr st'" "\<not> fst (fst st')"
      using cfo_loop_find [OF Cons.prems, of init row] by auto
    have "find ?P (row @ concat grid) = find ?P (concat grid)"
      using None by (simp add: find_append)
    moreover have "tim_loop init (row # grid) st = tim_loop init grid st'" using st' by simp
    ultimately show ?thesis using Cons.IH [OF st'(2)] by (simp only: concat.simps)
  next
    case (Some p)
    then have "fst (fst (point_result init p))" using find_holds [of ?P row p] passes_point by blast
    then show ?thesis
      using Some cfo_loop_find [OF Cons.prems, of init row] by (simp add: find_append)
  qed
qed simp

lemma search_result:
  "case find (\<lambda>p. passes init ''schhu'' (snd p)) (concat grid) of
     Some p \<Rightarrow> decode_one_burst init False (c :: 'f) grid nub = Inr (burst_result (point_result init p))
   | None \<Rightarrow> \<exists>res. decode_one_burst init False c grid nub = Inr res \<and>
       (case nub of None \<Rightarrow> \<not> crc_ok res
        | Some (b1, b2) \<Rightarrow> \<exists>r (f :: 'f). try_channel_decode b1 b2 init ''schf'' = Inr r \<and>
            (if fst r then res = burst_result (r, f, Some (b1, b2)) else \<not> crc_ok res))"
proof -
  let ?f = "find (\<lambda>p. passes init ''schhu'' (snd p)) (concat grid)"
  have start: "\<not> fst (fst (no_result, c, None))" by (simp add: no_result_def)
  show ?thesis
  proof (cases ?f)
    case None
    then obtain st where st: "tim_loop init grid (no_result, c, None) = Inr st" "\<not> fst (fst st)"
      using tim_loop_find [OF start, of init grid] by auto
    obtain ok info hard var cfo final where st_eq: "st = ((ok, info, hard, var), cfo, final)" by (metis prod.exhaust)
    show ?thesis
    proof (cases nub)
      case None
      then show ?thesis
        using st \<open>?f = None\<close> by (simp add: decode_one_burst_def nub_path_def burst_result_def st_eq)
    next
      case (Some b)
      obtain b1 b2 where b: "b = (b1, b2)" by (cases b)
      obtain ok' info' hard' var' where r: "try_channel_decode b1 b2 init ''schf'' = Inr (ok', info', hard', var')"
        using try_channel_total [OF known_channels(2), of b1 b2 init] by (metis prod.exhaust)
      have ok: "\<not> ok" using st(2) by (simp add: st_eq)
      let ?st = "if ok' \<or> info = None then ((ok', info', hard', var'), cfo, Some (b1, b2)) else st"
      have d: "decode_one_burst init False c grid nub = Inr (burst_result ?st)"
        using st(1) ok Some by (simp add: decode_one_burst_def nub_path_def st_eq b r)
      have "\<not> ok' \<Longrightarrow> \<not> crc_ok (burst_result ?st)"
        using ok by (simp add: burst_result_def st_eq)
      then have "if fst (ok', info', hard', var')
          then burst_result ?st = burst_result ((ok', info', hard', var'), cfo, Some (b1, b2)) else \<not> crc_ok (burst_result ?st)"
        by simp
      with r have "\<exists>r (f :: 'f). try_channel_decode b1 b2 init ''schf'' = Inr r \<and>
          (if fst r then burst_result ?st = burst_result (r, f, Some (b1, b2)) else \<not> crc_ok (burst_result ?st))"
        by (intro exI [of _ "(ok', info', hard', var')"] exI [of _ cfo] conjI)
      then show ?thesis unfolding \<open>?f = None\<close> option.case Some b prod.case
        using d [unfolded Some b] by (intro exI [of _ "burst_result ?st"] conjI)
    qed
  next
    case (Some p)
    then have "fst (fst (point_result init p))"
      using find_holds [OF Some] by (intro passes_point) simp
    then have "nub_path init nub (point_result init p) = Inr (point_result init p)"
      by (cases "point_result init p") (simp add: nub_path_def split: option.split)
    then show ?thesis
      using Some tim_loop_find [OF start, of init grid] by (simp add: decode_one_burst_def)
  qed
qed

text \<open>The search over a burst: \<open>_decode_one_burst\<close> never raises, and it reports the first point of the grid
  of timing and frequency corrections whose SCH/HU block has a good CRC, with its soft halves; when there
  is none and the normal training sequence was found, it reports the SCH/F block if its CRC is good, and
  in every other case a failed CRC.\<close>

theorem ul_grid_search:
  "case find (\<lambda>p. passes init ''schhu'' (snd p)) (concat grid) of
     Some p \<Rightarrow> decode_one_burst init False (c :: 'f) grid nub = Inr (burst_result (point_result init p))
   | None \<Rightarrow> \<exists>res. decode_one_burst init False c grid nub = Inr res \<and>
       (case nub of None \<Rightarrow> \<not> crc_ok res
        | Some (b1, b2) \<Rightarrow> \<exists>r (f :: 'f). try_channel_decode b1 b2 init ''schf'' = Inr r \<and>
            (if fst r then res = burst_result (r, f, Some (b1, b2)) else \<not> crc_ok res))"
  by (rule search_result)

end
