(* ===== verification/CicFilters.thy ===== *)
theory CicFilters
  imports Prelude
begin

unbundle bit_operations_syntax

text \<open>
  The fixed-point rate-changing filters of the front ends: the decimator \<open>simulate_cic_fixed\<close> of
  \<open>tb/vectors/gen_rx_frontend_vectors.py\<close> and the interpolator \<open>cic_interpolate\<close> of
  \<open>tb/vectors/gen_tx_frontend_vectors.py\<close>.  Samples are integers; accumulators wrap to the
  register widths as the code writes it (the \<open>int64\<close> sums under the 46-bit mask may be exact ones,
  since 64-bit wrapping agrees with them modulo \<open>2 ^ 46\<close>).

  The abstract specification is a signal, a function from sample numbers to integers, under moving
  sums: both filters compute the exact five-fold moving sum although their integrators overflow,
  the scaled result always fits 16 bits, and a constant input comes out unchanged.
\<close>

subsection \<open>Registers\<close>

definition CIC_R :: nat where "CIC_R = 64"
definition CIC_ORDER :: nat where "CIC_ORDER = 5"
definition CIC_BITS :: nat where "CIC_BITS = 46"
definition CIC_TRUNC :: nat where "CIC_TRUNC = CIC_BITS - 16"

definition CIC_MASK :: int where "CIC_MASK = 2 ^ CIC_BITS - 1"
definition CIC_SIGN :: int where "CIC_SIGN = 2 ^ (CIC_BITS - 1)"

definition wrap46 :: "int \<Rightarrow> int" where
  "wrap46 y = (let y = y AND CIC_MASK in (y XOR CIC_SIGN) - CIC_SIGN)"

definition clamp16 :: "int \<Rightarrow> int" where
  "clamp16 x = min 32767 (max (- 32768) x)"

subsection \<open>Decimator\<close>

fun cumsum_from :: "int \<Rightarrow> int list \<Rightarrow> int list" where
  "cumsum_from acc [] = []"
| "cumsum_from acc (x # xs) = (acc + x) # cumsum_from (acc + x) xs"

definition cumsum :: "int list \<Rightarrow> int list" where
  "cumsum xs = cumsum_from 0 xs"

text \<open>\<open>np.diff(y, prepend=0)\<close>\<close>

fun diff_from :: "int \<Rightarrow> int list \<Rightarrow> int list" where
  "diff_from p [] = []"
| "diff_from p (x # xs) = (x - p) # diff_from x xs"

text \<open>\<open>y[R - 1 :: R]\<close>\<close>

definition every_last :: "nat \<Rightarrow> int list \<Rightarrow> int list" where
  "every_last r y = map (\<lambda>k. y ! (r * k + (r - 1))) [0..<length y div r]"

definition cic_integrate :: "int list \<Rightarrow> int list" where
  "cic_integrate y = map wrap46 (cumsum (0 # butlast y))"

definition cic_comb :: "int list \<Rightarrow> int list" where
  "cic_comb y = map wrap46 (diff_from 0 y)"

definition cic_channel :: "int list \<Rightarrow> int list" where
  "cic_channel x =
     (let y = map wrap46 (cumsum x);
          y = (cic_integrate ^^ (CIC_ORDER - 1)) y;
          y = every_last CIC_R y;
          y = (cic_comb ^^ CIC_ORDER) y;
          y = map (\<lambda>v. drop_bit CIC_TRUNC v) y
      in map clamp16 y)"

definition simulate_cic_fixed :: "int list \<Rightarrow> int list \<Rightarrow> int list \<times> int list" where
  "simulate_cic_fixed i_in q_in = (cic_channel i_in, cic_channel q_in)"

subsection \<open>Interpolator\<close>

text \<open>One differentiator: \<open>s - prev[0]\<close> with \<open>prev\<close> the last \<open>m\<close> samples.\<close>

fun comb_stage :: "int list \<Rightarrow> int list \<Rightarrow> int list" where
  "comb_stage prev [] = []"
| "comb_stage prev (s # ss) = (s - hd prev) # comb_stage (tl prev @ [s]) ss"

definition comb_chain :: "int list \<Rightarrow> nat \<Rightarrow> nat \<Rightarrow> int list res" where
  "comb_chain samples n m =
     (if m = 0 \<and> n \<noteq> 0 \<and> samples \<noteq> [] then Inl IndexError
      else Inr ((comb_stage (replicate m 0) ^^ n) samples))"

definition upsample :: "int list \<Rightarrow> nat \<Rightarrow> int list" where
  "upsample samples r = concat (map (\<lambda>s. s # replicate (r - 1) 0) samples)"

text \<open>\<open>(acc + s) & (MAX_ACC - 1)\<close> and the sign extension, with \<open>MAX_ACC = 2 ^ w\<close>.\<close>

definition wrap_acc :: "nat \<Rightarrow> int \<Rightarrow> int" where
  "wrap_acc w v =
     (let acc = v AND (2 ^ w - 1) in if 2 ^ w div 2 \<le> acc then acc - 2 ^ w else acc)"

fun integrate_stage :: "nat \<Rightarrow> int \<Rightarrow> int list \<Rightarrow> int list" where
  "integrate_stage w acc [] = []"
| "integrate_stage w acc (s # ss) =
     (let acc = wrap_acc w (acc + s) in acc # integrate_stage w acc ss)"

definition integrate_chain :: "nat \<Rightarrow> int list \<Rightarrow> nat \<Rightarrow> int list" where
  "integrate_chain w samples n = (integrate_stage w 0 ^^ n) samples"

definition scale_sat :: "int list \<Rightarrow> nat \<Rightarrow> nat \<Rightarrow> int list" where
  "scale_sat samples shift width =
     (let maxval = 2 ^ (width - 1) - 1; minval = - (2 ^ (width - 1))
      in map (\<lambda>s. let v = drop_bit shift s in max minval (min maxval v)) samples)"

definition cic_interpolate ::
  "(int \<times> int) list \<Rightarrow> nat \<Rightarrow> nat \<Rightarrow> nat \<Rightarrow> nat \<Rightarrow> nat \<Rightarrow> (int \<times> int) list res" where
  "cic_interpolate samples_in R N M shift width =
     (let w = shift + width + 2; i_in = map fst samples_in; q_in = map snd samples_in
      in bind_res (comb_chain i_in N M) (\<lambda>i_comb.
         bind_res (comb_chain q_in N M) (\<lambda>q_comb.
         let i_up = upsample i_comb R;
             q_up = upsample q_comb R;
             i_intg = integrate_chain w i_up N;
             q_intg = integrate_chain w q_up N;
             i_out = scale_sat i_intg shift width;
             q_out = scale_sat q_intg shift width
         in Inr (zip i_out q_out))))"

definition CIC_SHIFT :: nat where "CIC_SHIFT = 24"

definition tx_cic :: "(int \<times> int) list \<Rightarrow> (int \<times> int) list res" where
  "tx_cic samples_in = cic_interpolate samples_in 64 5 1 CIC_SHIFT 16"

text \<open>A line of the stimulus and expectation files: \<open>(i & 0xFFFF) << 16 | (q & 0xFFFF)\<close>.\<close>

definition iq_word :: "int \<Rightarrow> int \<Rightarrow> int" where
  "iq_word i q = push_bit 16 (i AND 0xFFFF) OR (q AND 0xFFFF)"

subsection \<open>Wrapping\<close>

text \<open>The representative of \<open>v\<close> modulo \<open>2 ^ Suc k\<close> between \<open>- 2 ^ k\<close> and \<open>2 ^ k - 1\<close>.\<close>

definition signed_mod :: "nat \<Rightarrow> int \<Rightarrow> int" where
  "signed_mod k v = (v + 2 ^ k) mod 2 ^ Suc k - 2 ^ k"

lemma signed_mod_id: "- (2 ^ k) \<le> v \<Longrightarrow> v < 2 ^ k \<Longrightarrow> signed_mod k v = v"
  by (simp add: signed_mod_def)

lemma signed_mod_cong: "u mod 2 ^ Suc k = v mod 2 ^ Suc k \<Longrightarrow> signed_mod k u = signed_mod k v"
  unfolding signed_mod_def by (metis mod_add_left_eq)

lemma signed_mod_mod [simp]: "signed_mod k v mod 2 ^ Suc k = v mod 2 ^ Suc k"
  unfolding signed_mod_def by (metis add_diff_cancel_right' mod_diff_left_eq)

lemma signed_mod_cases:
  "signed_mod k v =
    (if 2 ^ k \<le> v mod 2 ^ Suc k then v mod 2 ^ Suc k - 2 ^ Suc k else v mod 2 ^ Suc k)"
proof -
  let ?a = "v mod 2 ^ Suc k"
  have a: "0 \<le> ?a" "?a < 2 ^ Suc k" by simp_all
  have eq: "signed_mod k v = signed_mod k ?a" by (rule signed_mod_cong) simp
  show ?thesis
  proof (cases "2 ^ k \<le> ?a")
    case True
    have "signed_mod k ?a = signed_mod k (?a - 2 ^ Suc k)" by (rule signed_mod_cong) simp
    also have "\<dots> = ?a - 2 ^ Suc k"
    proof (rule signed_mod_id)
      show "- (2 ^ k) \<le> ?a - 2 ^ Suc k" using True by simp
      have "?a - 2 ^ Suc k < 0" using a(2) by simp
      also have "(0::int) < 2 ^ k" by simp
      finally show "?a - 2 ^ Suc k < 2 ^ k" .
    qed
    finally show ?thesis using True eq by simp
  next
    case False
    then have "signed_mod k ?a = ?a"
      using a(1) order_trans [of "- (2 ^ k)" 0 ?a] by (intro signed_mod_id) simp_all
    then show ?thesis using False eq by simp
  qed
qed

lemma wrap_acc_eq: "wrap_acc (Suc k) v = signed_mod k v"
  by (simp add: wrap_acc_def Let_def and_mask_mod signed_mod_cases del: power_Suc)
    (simp add: power_Suc)

lemma wrap46_eq: "wrap46 v = signed_mod 45 v"
proof -
  let ?a = "v mod 2 ^ 46"
  have top: "bit ?a 45 \<longleftrightarrow> 2 ^ 45 \<le> ?a"
  proof -
    have "?a div 2 ^ 45 = of_bool (2 ^ 45 \<le> ?a)"
    proof (cases "2 ^ 45 \<le> ?a")
      case True
      have "?a div 2 ^ 45 = (?a - 2 ^ 45) div 2 ^ 45 + 1"
        using div_add_self2 [of "2 ^ 45 :: int" "?a - 2 ^ 45"] by simp
      moreover have "(?a - 2 ^ 45) div 2 ^ 45 = 0"
        using True pos_mod_bound [of "2 ^ 46" v] by (intro div_pos_pos_trivial) simp_all
      ultimately show ?thesis using True by simp
    qed (simp add: div_pos_pos_trivial)
    then show ?thesis by (simp add: bit_iff_odd)
  qed
  have "?a XOR 2 ^ 45 = flip_bit 45 ?a"
    by (simp add: flip_bit_eq_xor push_bit_eq_mult)
  also have "\<dots> = (if bit ?a 45 then ?a - 2 ^ 45 else ?a + 2 ^ 45)"
    by (simp add: flip_bit_eq_if unset_bit_eq set_bit_eq)
  finally have x: "?a XOR 2 ^ 45 = (if bit ?a 45 then ?a - 2 ^ 45 else ?a + 2 ^ 45)" .
  have m: "v AND CIC_MASK = ?a" "CIC_SIGN = 2 ^ 45"
    by (simp_all only: CIC_MASK_def CIC_SIGN_def CIC_BITS_def and_mask_mod) simp
  have "wrap46 v = (if 2 ^ 45 \<le> ?a then ?a - 2 ^ 45 else ?a + 2 ^ 45) - 2 ^ 45"
    by (simp only: wrap46_def Let_def m x top)
  then show ?thesis by (simp add: signed_mod_cases)
qed

subsection \<open>Signals\<close>

type_synonym signal = "nat \<Rightarrow> int"

definition sig :: "int list \<Rightarrow> signal" where
  "sig xs n = (if n < length xs then xs ! n else 0)"

definition delay :: "nat \<Rightarrow> signal \<Rightarrow> signal" where
  "delay j f n = (if j \<le> n then f (n - j) else 0)"

definition run_sum :: "signal \<Rightarrow> signal" where
  "run_sum f n = (\<Sum>i\<le>n. f i)"

definition comb :: "nat \<Rightarrow> signal \<Rightarrow> signal" where
  "comb k f n = f n - delay k f n"

definition box :: "nat \<Rightarrow> signal \<Rightarrow> signal" where
  "box k f n = (\<Sum>j<k. delay j f n)"

lemma delay_0 [simp]: "delay 0 f = f"
  by (simp add: delay_def fun_eq_iff)

lemma delay_delay: "delay i (delay j f) = delay (i + j) f"
  by (auto simp: delay_def fun_eq_iff)

lemma delay_sum: "delay i (\<lambda>n. \<Sum>j\<in>A. g j n) n = (\<Sum>j\<in>A. delay i (g j) n)"
  by (simp add: delay_def)

lemma delay_minus: "delay i (\<lambda>n. f n - g n) n = delay i f n - delay i g n"
  by (simp add: delay_def)

lemma delay_box: "delay i (box k f) = box k (delay i f)"
proof (rule ext)
  fix n
  have "delay i (box k f) n = delay i (\<lambda>n. \<Sum>j<k. delay j f n) n"
    by (simp add: box_def [abs_def])
  also have "\<dots> = box k (delay i f) n"
    by (simp only: delay_sum) (simp add: box_def delay_delay add.commute)
  finally show "delay i (box k f) n = box k (delay i f) n" .
qed

lemma comb_eq: "comb k f = (\<lambda>n. f n - delay k f n)"
  by (simp add: comb_def fun_eq_iff)

lemma delay_comb: "delay i (comb k f) = comb k (delay i f)"
  by (rule ext) (simp only: comb_eq delay_minus delay_delay add.commute)

lemma comb_box: "comb k (box m f) = box m (comb k f)"
proof (rule ext)
  fix n
  have "comb k (box m f) n = box m f n - box m (delay k f) n"
    by (simp add: comb_def delay_box)
  also have "\<dots> = (\<Sum>j<m. delay j f n - delay j (delay k f) n)"
    by (simp add: box_def sum_subtractf)
  also have "\<dots> = box m (comb k f) n"
    by (simp only: box_def comb_eq delay_minus)
  finally show "comb k (box m f) n = box m (comb k f) n" .
qed

text \<open>An integrator followed by a differentiator over \<open>k\<close> samples is a moving sum.\<close>

lemma comb_run_sum: "comb k (run_sum f) = box k f"
proof (rule ext)
  fix n
  have step: "delay m (run_sum f) n = delay m f n + delay (Suc m) (run_sum f) n" for m
  proof (cases "m < n")
    case True
    then have "n - m = Suc (n - Suc m)" by simp
    then have "run_sum f (n - m) = f (n - m) + run_sum f (n - Suc m)"
      by (simp add: run_sum_def)
    then show ?thesis using True by (simp add: delay_def)
  next
    case False
    then show ?thesis by (auto simp: delay_def run_sum_def)
  qed
  show "comb k (run_sum f) n = box k f n"
  proof (induction k)
    case (Suc k)
    then show ?case using step [of k] by (simp add: comb_def box_def)
  qed (simp add: comb_def box_def)
qed

text \<open>A chain of delayed integrators under as many differentiators.\<close>

lemma comb_pow_box: "(comb k ^^ n) (box m f) = box m ((comb k ^^ n) f)"
  by (induction n) (simp_all add: comb_box)

lemma comb_pow_delay: "(comb k ^^ n) (delay i f) = delay i ((comb k ^^ n) f)"
  by (induction n) (simp_all add: delay_comb)

lemma comb_pow_integrators:
  "(comb k ^^ Suc n) (((\<lambda>f. run_sum (delay 1 f)) ^^ n) (run_sum f)) = delay n ((box k ^^ Suc n) f)"
proof (induction n)
  case (Suc n)
  let ?g = "((\<lambda>f. run_sum (delay 1 f)) ^^ n) (run_sum f)"
  have "(comb k ^^ Suc (Suc n)) (run_sum (delay 1 ?g)) = (comb k ^^ Suc n) (box k (delay 1 ?g))"
    by (simp add: funpow_Suc_right comb_run_sum del: funpow.simps)
  also have "\<dots> = box k (delay 1 ((comb k ^^ Suc n) ?g))"
    by (simp only: comb_pow_box comb_pow_delay)
  also have "\<dots> = delay (Suc n) ((box k ^^ Suc (Suc n)) f)"
    by (simp only: Suc.IH delay_delay delay_box [symmetric]) (simp add: delay_box)
  finally show ?case by simp
qed (simp add: comb_run_sum)

text \<open>Bounds: a moving sum over \<open>k\<close> samples has gain \<open>k\<close>.\<close>

definition within :: "int \<Rightarrow> int \<Rightarrow> signal \<Rightarrow> bool" where
  "within lo hi f \<longleftrightarrow> lo \<le> 0 \<and> 0 \<le> hi \<and> (\<forall>n. lo \<le> f n \<and> f n \<le> hi)"

lemma within_delay: "within lo hi f \<Longrightarrow> within lo hi (delay j f)"
  by (simp add: within_def delay_def)

lemma within_box:
  assumes "within lo hi f"
  shows "within (int k * lo) (int k * hi) (box k f)"
proof -
  have d: "lo \<le> delay j f n" "delay j f n \<le> hi" for j n
    using within_delay [OF assms] by (simp_all add: within_def)
  have "(\<Sum>j<k. lo) \<le> box k f n" "box k f n \<le> (\<Sum>j<k. hi)" for n
    unfolding box_def by (intro sum_mono d)+
  moreover have "int k * lo \<le> 0" "0 \<le> int k * hi"
    using assms by (simp_all add: within_def mult_nonneg_nonpos)
  ultimately show ?thesis by (simp add: within_def)
qed

lemma within_box_pow:
  "within lo hi f \<Longrightarrow> within (int k ^ n * lo) (int k ^ n * hi) ((box k ^^ n) f)"
proof (induction n)
  case (Suc n)
  then have "within (int k ^ n * lo) (int k ^ n * hi) ((box k ^^ n) f)" by simp
  from within_box [OF this, of k] show ?case by (simp add: mult.assoc)
qed simp

subsection \<open>Lists that agree with a signal modulo a register\<close>

definition agrees :: "nat \<Rightarrow> int list \<Rightarrow> signal \<Rightarrow> bool" where
  "agrees k ys f \<longleftrightarrow> (\<forall>n<length ys. 2 ^ Suc k dvd ys ! n - f n)"

lemma agrees_sig: "agrees k xs (sig xs)"
  by (simp add: agrees_def sig_def)

lemma signed_mod_dvd: "2 ^ Suc k dvd signed_mod k v - v"
  by (simp only: mod_eq_dvd_iff [symmetric] signed_mod_mod)

lemma agrees_wrap:
  assumes "agrees k ys f"
  shows "agrees k (map (signed_mod k) ys) f"
  unfolding agrees_def
proof (intro allI impI)
  fix n assume "n < length (map (signed_mod k) ys)"
  then have n: "n < length ys" by simp
  then have "2 ^ Suc k dvd (signed_mod k (ys ! n) - ys ! n) + (ys ! n - f n)"
    using assms by (intro dvd_add signed_mod_dvd) (simp add: agrees_def)
  with n show "2 ^ Suc k dvd map (signed_mod k) ys ! n - f n" by simp
qed

lemma agrees_exact:
  assumes "agrees k ys f" "n < length ys" "- (2 ^ k) \<le> f n" "f n < 2 ^ k"
  shows "signed_mod k (ys ! n) = f n"
proof -
  have "signed_mod k (ys ! n) = signed_mod k (f n)"
    using assms(1,2) by (intro signed_mod_cong) (simp only: agrees_def mod_eq_dvd_iff)
  then show ?thesis using assms(3,4) by (simp add: signed_mod_id)
qed

lemma length_cumsum_from [simp]: "length (cumsum_from acc xs) = length xs"
  by (induction xs arbitrary: acc) simp_all

lemma length_cumsum [simp]: "length (cumsum xs) = length xs"
  by (simp add: cumsum_def)

lemma cumsum_eq_Nil [simp]: "cumsum xs = [] \<longleftrightarrow> xs = []"
  by (metis length_0_conv length_cumsum)

lemma nth_cumsum_from: "n < length xs \<Longrightarrow> cumsum_from acc xs ! n = acc + (\<Sum>i\<le>n. xs ! i)"
proof (induction xs arbitrary: acc n)
  case (Cons x xs)
  then show ?case by (cases n) (simp_all add: sum.atMost_Suc_shift del: sum.atMost_Suc)
qed simp

lemma agrees_cumsum:
  assumes "agrees k ys f"
  shows "agrees k (cumsum ys) (run_sum f)"
  unfolding agrees_def
proof (intro allI impI)
  fix n assume "n < length (cumsum ys)"
  then have n: "n < length ys" by simp
  have "2 ^ Suc k dvd (\<Sum>i\<le>n. ys ! i - f i)"
    using assms n by (intro dvd_sum) (simp add: agrees_def)
  with n show "2 ^ Suc k dvd cumsum ys ! n - run_sum f n"
    by (simp add: cumsum_def nth_cumsum_from run_sum_def sum_subtractf)
qed

lemma agrees_shift:
  assumes "agrees k ys f"
  shows "agrees k (0 # butlast ys) (delay 1 f)"
  unfolding agrees_def
proof (intro allI impI)
  fix n assume n: "n < length (0 # butlast ys)"
  show "2 ^ Suc k dvd (0 # butlast ys) ! n - delay 1 f n"
  proof (cases n)
    case (Suc m)
    then have "m < length ys" "m < length (butlast ys)" using n by simp_all
    then show ?thesis using assms Suc by (simp add: agrees_def delay_def nth_butlast)
  qed (simp add: delay_def)
qed

lemma every_last_index: "k < n div r \<Longrightarrow> 0 < r \<Longrightarrow> r * k + (r - 1) < (n::nat)"
proof -
  assume "k < n div r" "0 < r"
  then have "r * Suc k \<le> n" by (metis Suc_leI less_eq_div_iff_mult_less_eq mult.commute)
  then show "r * k + (r - 1) < n" using \<open>0 < r\<close> by simp
qed

lemma agrees_every_last:
  assumes "agrees k ys f" "0 < r"
  shows "agrees k (every_last r ys) (\<lambda>n. f (r * n + (r - 1)))"
  using assms every_last_index [OF _ assms(2), of _ "length ys"]
  by (simp add: agrees_def every_last_def del: One_nat_def)

lemma length_diff_from [simp]: "length (diff_from p ys) = length ys"
  by (induction ys arbitrary: p) simp_all

lemma nth_diff_from:
  "n < length ys \<Longrightarrow> diff_from p ys ! n = ys ! n - (case n of 0 \<Rightarrow> p | Suc m \<Rightarrow> ys ! m)"
proof (induction ys arbitrary: p n)
  case (Cons y ys)
  then show ?case by (cases n) (simp_all split: nat.splits)
qed simp

lemma agrees_diff:
  assumes "agrees k ys f"
  shows "agrees k (diff_from 0 ys) (comb 1 f)"
  unfolding agrees_def
proof (intro allI impI)
  fix n assume "n < length (diff_from 0 ys)"
  then have n: "n < length ys" by simp
  show "2 ^ Suc k dvd diff_from 0 ys ! n - comb 1 f n"
  proof (cases n)
    case 0
    then show ?thesis using assms n by (simp add: agrees_def nth_diff_from comb_def delay_def)
  next
    case (Suc m)
    have "2 ^ Suc k dvd (ys ! n - f n) - (ys ! m - f m)"
      by (rule dvd_diff) (use assms n Suc in \<open>simp_all add: agrees_def\<close>)
    then show ?thesis using n Suc by (simp add: nth_diff_from comb_def delay_def algebra_simps)
  qed
qed

lemma agrees_funpow:
  assumes "agrees k ys f" and "\<And>ys f. agrees k ys f \<Longrightarrow> agrees k (F ys) (G f)"
  shows "agrees k ((F ^^ n) ys) ((G ^^ n) f)"
  using assms by (induction n) simp_all

text \<open>Differences of decimated values are decimated differences.\<close>

lemma comb_decimate:
  assumes "0 < r"
  shows "(comb 1 ^^ n) (\<lambda>k. f (r * k + (r - 1))) = (\<lambda>k. (comb r ^^ n) f (r * k + (r - 1)))"
proof (induction n)
  case (Suc n)
  have "comb 1 (\<lambda>k. g (r * k + (r - 1))) j = comb r g (r * j + (r - 1))" for g j
  proof (cases j)
    case (Suc m)
    then have "r * j + (r - 1) - r = r * m + (r - 1)" "r \<le> r * j + (r - 1)"
      using assms by simp_all
    then show ?thesis using Suc by (simp add: comb_def delay_def del: One_nat_def)
  qed (use assms in \<open>auto simp: comb_def delay_def\<close>)
  then have "comb 1 (\<lambda>k. g (r * k + (r - 1))) = (\<lambda>j. comb r g (r * j + (r - 1)))" for g
    by (rule ext)
  then show ?case by (simp only: funpow.simps o_apply Suc.IH)
qed simp

subsection \<open>The decimator is an exact moving sum\<close>

definition int16 :: "int \<Rightarrow> bool" where
  "int16 v \<longleftrightarrow> - 32768 \<le> v \<and> v \<le> 32767"

text \<open>What the decimator is meant to compute: five moving sums over 64 samples, four samples late,
  at the last sample of every block, divided by their gain \<open>64 ^ 5 = 2 ^ 30\<close>.\<close>

definition cic_spec :: "int list \<Rightarrow> int list" where
  "cic_spec x =
     map (\<lambda>k. drop_bit 30 (delay 4 ((box 64 ^^ 5) (sig x)) (64 * k + 63))) [0..<length x div 64]"

lemma within_sig: "list_all int16 x \<Longrightarrow> within (- 32768) 32767 (sig x)"
  by (auto simp: within_def sig_def int16_def list_all_length)

lemma cic_sum_within:
  assumes "list_all int16 x"
  shows "within (- (2 ^ 45)) (2 ^ 45 - 2 ^ 30) (delay j ((box 64 ^^ 5) (sig x)))"
proof -
  have "within (int 64 ^ 5 * - 32768) (int 64 ^ 5 * 32767) ((box 64 ^^ 5) (sig x))"
    by (rule within_box_pow [OF within_sig [OF assms]])
  from within_delay [OF this] show ?thesis by simp
qed

lemma length_every_last [simp]: "length (every_last r ys) = length ys div r"
  by (simp add: every_last_def)

lemma length_cic_integrate: "ys \<noteq> [] \<Longrightarrow> length (cic_integrate ys) = length ys"
  by (simp add: cic_integrate_def)

lemma length_integrate_pow:
  "ys \<noteq> [] \<Longrightarrow> length ((cic_integrate ^^ n) ys) = length ys"
proof (induction n)
  case (Suc n)
  then have "(cic_integrate ^^ n) ys \<noteq> []" by fastforce
  with Suc show ?case by (simp add: length_cic_integrate)
qed simp

lemma length_comb_pow: "length ((cic_comb ^^ n) ys) = length ys"
  by (induction n) (simp_all add: cic_comb_def)

lemma agrees_integrate: "agrees 45 ys f \<Longrightarrow> agrees 45 (cic_integrate ys) (run_sum (delay 1 f))"
  unfolding cic_integrate_def wrap46_eq [abs_def]
  by (intro agrees_wrap agrees_cumsum agrees_shift)

lemma agrees_comb: "agrees 45 ys f \<Longrightarrow> agrees 45 (cic_comb ys) (comb 1 f)"
  unfolding cic_comb_def wrap46_eq [abs_def] by (intro agrees_wrap agrees_diff)

text \<open>The last differentiator's accumulator holds the exact sum.\<close>

lemma cic_accumulator:
  assumes x: "list_all int16 x" "64 \<le> length x" and k: "k < length x div 64"
  shows "(cic_comb ^^ 5) (every_last 64 ((cic_integrate ^^ 4) (map wrap46 (cumsum x)))) ! k =
    delay 4 ((box 64 ^^ 5) (sig x)) (64 * k + 63)"
proof -
  let ?y = "(cic_integrate ^^ 4) (map wrap46 (cumsum x))"
  let ?f = "((\<lambda>f. run_sum (delay 1 f)) ^^ 4) (run_sum (sig x))"
  have five: "(5::nat) = Suc 4" by simp
  have ne: "map wrap46 (cumsum x) \<noteq> []"
    using x(2) by auto
  have len: "length (every_last 64 ?y) = length x div 64"
    by (simp add: length_integrate_pow [OF ne])
  have "agrees 45 (map wrap46 (cumsum x)) (run_sum (sig x))"
    unfolding wrap46_eq [abs_def] by (intro agrees_wrap agrees_cumsum agrees_sig)
  then have "agrees 45 ?y ?f" by (rule agrees_funpow) (rule agrees_integrate)
  then have "agrees 45 (every_last 64 ?y) (\<lambda>n. ?f (64 * n + (64 - 1)))"
    by (rule agrees_every_last) simp
  then have "agrees 45 ((cic_comb ^^ 4) (every_last 64 ?y))
      ((comb 1 ^^ 4) (\<lambda>n. ?f (64 * n + (64 - 1))))"
    by (rule agrees_funpow) (rule agrees_comb)
  then have ag: "agrees 45 (diff_from 0 ((cic_comb ^^ 4) (every_last 64 ?y)))
      (comb 1 ((comb 1 ^^ 4) (\<lambda>n. ?f (64 * n + (64 - 1)))))"
    by (rule agrees_diff)
  have "comb 1 ((comb 1 ^^ 4) (\<lambda>n. ?f (64 * n + (64 - 1)))) = (comb 1 ^^ 5) (\<lambda>n. ?f (64 * n + (64 - 1)))"
    unfolding five by (simp only: funpow.simps o_apply)
  also have "\<dots> = (\<lambda>n. (comb 64 ^^ 5) ?f (64 * n + (64 - 1)))"
    by (rule comb_decimate) simp
  also have "(comb 64 ^^ 5) ?f = delay 4 ((box 64 ^^ 5) (sig x))"
    unfolding five by (rule comb_pow_integrators)
  finally have spec: "comb 1 ((comb 1 ^^ 4) (\<lambda>n. ?f (64 * n + (64 - 1)))) =
      (\<lambda>n. delay 4 ((box 64 ^^ 5) (sig x)) (64 * n + 63))" by simp
  have "(cic_comb ^^ 5) (every_last 64 ?y) ! k
      = signed_mod 45 (diff_from 0 ((cic_comb ^^ 4) (every_last 64 ?y)) ! k)"
    using k len unfolding five funpow.simps o_apply
    by (simp only: cic_comb_def [of "(cic_comb ^^ 4) _"] wrap46_eq length_comb_pow nth_map
        length_diff_from)
  also have "\<dots> = delay 4 ((box 64 ^^ 5) (sig x)) (64 * k + 63)"
  proof (rule agrees_exact [OF ag [unfolded spec]])
    have b: "- (2 ^ 45) \<le> delay 4 ((box 64 ^^ 5) (sig x)) n"
      "delay 4 ((box 64 ^^ 5) (sig x)) n \<le> 2 ^ 45 - 2 ^ 30" for n
      using cic_sum_within [OF x(1), of 4] by (simp_all add: within_def)
    show "- (2 ^ 45) \<le> delay 4 ((box 64 ^^ 5) (sig x)) (64 * k + 63)" by (rule b)
    show "delay 4 ((box 64 ^^ 5) (sig x)) (64 * k + 63) < 2 ^ 45"
      by (rule le_less_trans [OF b(2)]) simp
  qed (use k len in \<open>simp add: length_comb_pow\<close>)
  finally show ?thesis .
qed

lemma clamp16_id: "int16 v \<Longrightarrow> clamp16 v = v"
  by (simp add: int16_def clamp16_def)

lemma int16_scaled:
  assumes "- (2 ^ 45) \<le> v" "v \<le> 2 ^ 45 - 2 ^ 30"
  shows "int16 (drop_bit 30 v)"
proof -
  have "- (2 ^ 45) div 2 ^ 30 \<le> v div 2 ^ 30" "v div 2 ^ 30 \<le> (2 ^ 45 - 2 ^ 30) div (2 ^ 30 :: int)"
    using assms by (intro zdiv_mono1; simp)+
  then show ?thesis by (simp add: int16_def drop_bit_eq_div)
qed

lemma length_integrate_short: "length ys < 64 \<Longrightarrow> length ((cic_integrate ^^ n) ys) < 64"
  by (induction n) (auto simp: cic_integrate_def)

text \<open>C25. The fixed-point decimator computes the exact five-fold moving sum of its 16-bit input,
  although its five 46-bit integrators overflow, and its output always fits 16 bits: the final
  saturation is never reached.\<close>

theorem cic_channel_exact:
  assumes "list_all int16 x"
  shows "cic_channel x = cic_spec x \<and> list_all int16 (cic_spec x)"
proof
  let ?d = "delay 4 ((box 64 ^^ 5) (sig x))"
  let ?z = "(cic_comb ^^ 5) (every_last 64 ((cic_integrate ^^ 4) (map wrap46 (cumsum x))))"
  have small: "int16 (drop_bit 30 (?d n))" for n
    using cic_sum_within [OF assms, of 4] by (intro int16_scaled) (simp_all add: within_def)
  then show "list_all int16 (cic_spec x)" by (simp add: cic_spec_def list_all_iff)
  have ch: "cic_channel x = map (\<lambda>v. clamp16 (drop_bit 30 v)) ?z"
    by (simp add: cic_channel_def CIC_ORDER_def CIC_R_def CIC_TRUNC_def CIC_BITS_def o_def)
  show "cic_channel x = cic_spec x"
  proof (cases "64 \<le> length x")
    case True
    then have "map wrap46 (cumsum x) \<noteq> []" by auto
    then have len: "length ?z = length x div 64"
      by (simp add: length_comb_pow length_integrate_pow)
    show ?thesis
      unfolding ch
      by (rule nth_equalityI)
        (use len cic_accumulator [OF assms True] small in
          \<open>simp_all add: cic_spec_def clamp16_id\<close>)
  next
    case False
    then have "length ?z = 0"
      using length_integrate_short [of "map wrap46 (cumsum x)" 4] by (simp add: length_comb_pow)
    then show ?thesis using False by (simp add: ch cic_spec_def)
  qed
qed

theorem cic_channel_witness:
  "cic_channel (replicate 128 (- 32768)) = cic_spec (replicate 128 (- 32768)) \<and>
   list_all int16 (cic_spec (replicate 128 (- 32768)))"
  by (rule cic_channel_exact) (simp add: list_all_iff int16_def)

text \<open>Constant input: the sums settle after 319 samples.\<close>

lemma box_settled:
  assumes "\<And>n. n0 \<le> n \<Longrightarrow> n < N \<Longrightarrow> f n = c" "n0 + k \<le> Suc n" "n < N"
  shows "box k f n = int k * c"
proof -
  have "delay j f n = c" if "j < k" for j
    using assms(1) [of "n - j"] assms(2,3) that by (auto simp: delay_def)
  then show ?thesis by (simp add: box_def)
qed

lemma box_pow_settled:
  assumes "\<And>n. n0 \<le> n \<Longrightarrow> n < N \<Longrightarrow> f n = c" "0 < k"
  shows "n0 + m * (k - 1) \<le> n \<Longrightarrow> n < N \<Longrightarrow> (box k ^^ m) f n = int k ^ m * c"
proof (induction m arbitrary: n)
  case (Suc m)
  have "box k ((box k ^^ m) f) n = int k * (int k ^ m * c)"
  proof (rule box_settled [of "n0 + m * (k - 1)" N])
    show "n0 + m * (k - 1) + k \<le> Suc n" using Suc.prems(1) assms(2) by (cases k) simp_all
  qed (use Suc in simp_all)
  then show ?case by simp
qed (simp add: assms(1))

text \<open>DC gain of the decimator: a constant 16-bit input comes out unchanged from the fifth output
  sample on.\<close>

theorem cic_channel_dc:
  assumes "int16 c" "4 \<le> k" "k < n div 64"
  shows "cic_channel (replicate n c) ! k = c"
proof -
  have x: "list_all int16 (replicate n c)" using assms(1) by (simp add: list_all_iff)
  have "64 * k + 63 < n" using assms(3) every_last_index [of k n 64] by simp
  then have "(box 64 ^^ 5) (sig (replicate n c)) (64 * k + 63 - 4) = int 64 ^ 5 * c"
    using assms(2) by (intro box_pow_settled [of 0 n]) (simp_all add: sig_def)
  then show ?thesis
    using assms(2,3) cic_channel_exact [OF x]
    by (simp add: cic_spec_def delay_def drop_bit_eq_div)
qed

subsection \<open>The interpolator is an exact moving sum\<close>

text \<open>Zero insertion, and the hold a moving sum makes of it.\<close>

definition stuff :: "nat \<Rightarrow> signal \<Rightarrow> signal" where
  "stuff r f n = (if r dvd n then f (n div r) else 0)"

definition hold :: "nat \<Rightarrow> signal \<Rightarrow> signal" where
  "hold r f n = f (n div r)"

lemma length_upsample: "0 < r \<Longrightarrow> length (upsample xs r) = r * length xs"
  by (induction xs) (simp_all add: upsample_def)

lemma nth_upsample:
  assumes "0 < r"
  shows "n < r * length xs \<Longrightarrow> upsample xs r ! n = stuff r (sig xs) n"
proof (induction xs arbitrary: n)
  case (Cons x xs)
  show ?case
  proof (cases "n < r")
    case True
    then show ?thesis
      using assms by (cases n) (auto simp: upsample_def stuff_def sig_def nth_append dest: dvd_imp_le)
  next
    case False
    then obtain m where m: "n = r + m" using le_Suc_ex [of r n] by auto
    have "upsample (x # xs) r = (x # replicate (r - 1) 0) @ upsample xs r"
      by (simp add: upsample_def)
    moreover have "length (x # replicate (r - 1) (0::int)) = r" using assms by simp
    ultimately have "upsample (x # xs) r ! n = upsample xs r ! m"
      unfolding m by (metis nth_append_length_plus)
    also have "\<dots> = stuff r (sig xs) m" using Cons by (simp add: m)
    also have "\<dots> = stuff r (sig (x # xs)) n"
      using assms by (simp add: stuff_def sig_def m)
    finally show ?thesis .
  qed
qed simp

lemma comb_stuff: "0 < r \<Longrightarrow> stuff r (comb 1 f) = comb r (stuff r f)"
proof (rule ext)
  fix n assume r: "0 < r"
  show "stuff r (comb 1 f) n = comb r (stuff r f) n"
  proof (cases "r dvd n")
    case True
    then obtain m where m: "n = r * m" by (rule dvdE)
    show ?thesis
    proof (cases m)
      case 0
      then show ?thesis using r by (simp add: m stuff_def comb_def delay_def)
    next
      case (Suc k)
      then have "n - r = r * k" "r \<le> n" by (simp_all add: m)
      then show ?thesis using r Suc by (simp add: m stuff_def comb_def delay_def)
    qed
  next
    case False
    then have "r \<le> n \<Longrightarrow> \<not> r dvd n - r" by (simp add: dvd_minus_self)
    then show ?thesis using False by (simp add: stuff_def comb_def delay_def)
  qed
qed

lemma comb_pow_stuff: "0 < r \<Longrightarrow> stuff r ((comb 1 ^^ n) f) = (comb r ^^ n) (stuff r f)"
  by (induction n) (simp_all add: comb_stuff del: One_nat_def)

lemma box_stuff:
  assumes "0 < r"
  shows "box r (stuff r f) = hold r f"
proof (rule ext)
  fix n
  let ?j = "n mod r"
  have "delay j (stuff r f) n = (if j = ?j then f (n div r) else 0)" if "j < r" for j
  proof (cases "j = ?j")
    case True
    have "n - ?j = r * (n div r)" by (simp add: minus_mod_eq_mult_div)
    then show ?thesis using assms True by (simp add: delay_def stuff_def)
  next
    case False
    have "\<not> r dvd n - j" if "j \<le> n"
    proof
      assume "r dvd n - j"
      then have "n mod r = j mod r" using that by (metis mod_eq_dvd_iff_nat)
      with False \<open>j < r\<close> show False by simp
    qed
    with False show ?thesis by (simp add: delay_def stuff_def)
  qed
  then have "box r (stuff r f) n = (\<Sum>j<r. if j = ?j then f (n div r) else 0)"
    by (simp add: box_def)
  also have "\<dots> = f (n div r)" using assms by simp
  finally show "box r (stuff r f) n = hold r f n" by (simp add: hold_def)
qed

lemma box_pow_stuff: "0 < r \<Longrightarrow> (box r ^^ Suc n) (stuff r f) = (box r ^^ n) (hold r f)"
  by (simp add: funpow_Suc_right box_stuff del: funpow.simps)

text \<open>Differentiators first, integrators last.\<close>

lemma comb_run_sum_commute: "run_sum (comb k f) = comb k (run_sum f)"
proof (rule ext)
  fix n
  show "run_sum (comb k f) n = comb k (run_sum f) n"
  proof (induction n)
    case 0
    show ?case by (simp add: run_sum_def comb_def delay_def)
  next
    case (Suc n)
    have "delay k (run_sum f) (Suc n) = delay k (run_sum f) n + delay k f (Suc n)"
    proof (cases "k \<le> n")
      case True
      then show ?thesis by (simp add: delay_def run_sum_def Suc_diff_le)
    next
      case False
      then show ?thesis by (auto simp: delay_def run_sum_def le_Suc_eq)
    qed
    moreover have "run_sum g (Suc n) = run_sum g n + g (Suc n)" for g by (simp add: run_sum_def)
    ultimately show ?case using Suc.IH by (simp add: comb_def)
  qed
qed

lemma run_sum_comb_pow: "run_sum ((comb k ^^ n) f) = (comb k ^^ n) (run_sum f)"
  by (induction n) (simp_all add: comb_run_sum_commute)

lemma integrators_of_combs: "(run_sum ^^ n) ((comb k ^^ n) f) = (box k ^^ n) f"
proof (induction n arbitrary: f)
  case (Suc n)
  have "(run_sum ^^ Suc n) ((comb k ^^ Suc n) f) = (run_sum ^^ n) ((comb k ^^ n) (comb k (run_sum f)))"
    by (simp only: funpow_Suc_right o_apply run_sum_comb_pow comb_run_sum_commute)
  also have "\<dots> = (box k ^^ n) (box k f)" by (simp only: Suc.IH comb_run_sum)
  finally show ?case by (simp only: funpow_Suc_right o_apply)
qed simp

lemma comb_stage_1: "comb_stage [p] xs = diff_from p xs"
  by (induction xs arbitrary: p) simp_all

lemma diff_from_comb:
  assumes "\<And>i. i < length y \<Longrightarrow> y ! i = g i" "i < length y"
  shows "diff_from 0 y ! i = comb 1 g i"
  using assms by (cases i) (simp_all add: nth_diff_from comb_def delay_def)

lemma comb_stage_pow_sig:
  "length ((comb_stage [0] ^^ n) xs) = length xs \<and>
   (\<forall>i<length xs. (comb_stage [0] ^^ n) xs ! i = (comb 1 ^^ n) (sig xs) i)"
proof (induction n)
  case (Suc n)
  then have "diff_from 0 ((comb_stage [0] ^^ n) xs) ! i = comb 1 ((comb 1 ^^ n) (sig xs)) i"
    if "i < length xs" for i
    using that by (intro diff_from_comb) simp_all
  then show ?case
    using Suc by (simp add: comb_stage_1 [of 0 "(comb_stage [0] ^^ n) xs"] del: One_nat_def)
qed (simp add: sig_def)

lemma length_integrate_stage [simp]: "length (integrate_stage w acc xs) = length xs"
  by (induction xs arbitrary: acc) (simp_all add: Let_def)

lemma integrate_stage_nth:
  "n < length xs \<Longrightarrow> 2 ^ Suc k dvd integrate_stage (Suc k) acc xs ! n - (acc + (\<Sum>i\<le>n. xs ! i))"
proof (induction xs arbitrary: acc n)
  case (Cons x xs)
  let ?a = "wrap_acc (Suc k) (acc + x)"
  have a: "2 ^ Suc k dvd ?a - (acc + x)" unfolding wrap_acc_eq by (rule signed_mod_dvd)
  show ?case
  proof (cases n)
    case 0
    then show ?thesis using a by (simp add: Let_def)
  next
    case (Suc m)
    have "2 ^ Suc k dvd (integrate_stage (Suc k) ?a xs ! m - (?a + (\<Sum>i\<le>m. xs ! i))) + (?a - (acc + x))"
      using Cons.IH [of m ?a] Cons.prems Suc a by (intro dvd_add) simp_all
    then show ?thesis
      by (simp add: Suc Let_def sum.atMost_Suc_shift algebra_simps del: sum.atMost_Suc)
  qed
qed simp

lemma agrees_integrate_stage:
  assumes "agrees k ys f"
  shows "agrees k (integrate_stage (Suc k) 0 ys) (run_sum f)"
  unfolding agrees_def
proof (intro allI impI)
  fix n assume "n < length (integrate_stage (Suc k) 0 ys)"
  then have n: "n < length ys" by simp
  have "2 ^ Suc k dvd (\<Sum>i\<le>n. ys ! i - f i)"
    using assms n by (intro dvd_sum) (simp add: agrees_def)
  then have "2 ^ Suc k dvd (integrate_stage (Suc k) 0 ys ! n - (0 + (\<Sum>i\<le>n. ys ! i))) + (\<Sum>i\<le>n. ys ! i - f i)"
    by (intro dvd_add integrate_stage_nth n)
  then show "2 ^ Suc k dvd integrate_stage (Suc k) 0 ys ! n - run_sum f n"
    by (simp add: run_sum_def sum_subtractf)
qed

text \<open>Every accumulator value is already reduced.\<close>

lemma integrate_stage_reduced:
  "n < length xs \<Longrightarrow> \<exists>v. integrate_stage (Suc k) acc xs ! n = signed_mod k v"
proof (induction xs arbitrary: acc n)
  case (Cons x xs)
  then show ?case by (cases n) (auto simp: Let_def wrap_acc_eq)
qed simp

lemma signed_mod_range: "- (2 ^ k) \<le> signed_mod k v" "signed_mod k v < 2 ^ k"
proof -
  have "0 \<le> (v + 2 ^ k) mod 2 ^ Suc k" "(v + 2 ^ k) mod 2 ^ Suc k < 2 ^ Suc k" by simp_all
  then show "- (2 ^ k) \<le> signed_mod k v" "signed_mod k v < 2 ^ k" by (simp_all add: signed_mod_def)
qed

lemma integrate_chain_exact:
  assumes "agrees k ys f" "0 < n" "i < length ys" "- (2 ^ k) \<le> (run_sum ^^ n) f i"
    "(run_sum ^^ n) f i < 2 ^ k"
  shows "integrate_chain (Suc k) ys n ! i = (run_sum ^^ n) f i"
proof -
  obtain m where m: "n = Suc m" using assms(2) by (cases n) auto
  let ?z = "(integrate_stage (Suc k) 0 ^^ m) ys"
  have len: "length ((integrate_stage (Suc k) 0 ^^ j) ys) = length ys" for j
    by (induction j) simp_all
  have "agrees k ((integrate_stage (Suc k) 0 ^^ n) ys) ((run_sum ^^ n) f)"
    using assms(1) by (rule agrees_funpow) (rule agrees_integrate_stage)
  then have "signed_mod k (integrate_chain (Suc k) ys n ! i) = (run_sum ^^ n) f i"
    unfolding integrate_chain_def using assms(3-5) by (intro agrees_exact) (simp_all add: len)
  moreover have "\<exists>v. integrate_chain (Suc k) ys n ! i = signed_mod k v"
    using integrate_stage_reduced [of i ?z k 0] assms(3) by (simp add: integrate_chain_def m len)
  ultimately show ?thesis using signed_mod_id signed_mod_range by metis
qed

lemma length_integrate_chain [simp]: "length (integrate_chain w ys n) = length ys"
  unfolding integrate_chain_def by (induction n) simp_all

text \<open>What one channel of the interpolator is meant to compute: four moving sums over the held
  input, divided by their gain \<open>64 ^ 4 = 2 ^ 24\<close>.\<close>

definition tx_channel_spec :: "int list \<Rightarrow> int list" where
  "tx_channel_spec x =
     map (\<lambda>n. drop_bit 24 ((box 64 ^^ 4) (hold 64 (sig x)) n)) [0..<64 * length x]"

lemma tx_sum_within:
  assumes "list_all int16 x"
  shows "- (2 ^ 39) \<le> (box 64 ^^ 4) (hold 64 (sig x)) n"
    "(box 64 ^^ 4) (hold 64 (sig x)) n \<le> 2 ^ 39 - 2 ^ 24"
proof -
  have "within (- 32768) 32767 (hold 64 (sig x))"
    using within_sig [OF assms] by (simp add: within_def hold_def)
  from within_box_pow [OF this, of 64 4]
  show "- (2 ^ 39) \<le> (box 64 ^^ 4) (hold 64 (sig x)) n"
    "(box 64 ^^ 4) (hold 64 (sig x)) n \<le> 2 ^ 39 - 2 ^ 24"
    by (simp_all add: within_def)
qed

lemma int16_scaled_24:
  assumes "- (2 ^ 39) \<le> v" "v \<le> 2 ^ 39 - 2 ^ 24"
  shows "int16 (drop_bit 24 v)"
proof -
  have "- (2 ^ 39) div 2 ^ 24 \<le> v div 2 ^ 24" "v div 2 ^ 24 \<le> (2 ^ 39 - 2 ^ 24) div (2 ^ 24 :: int)"
    using assms by (intro zdiv_mono1; simp)+
  then show ?thesis by (simp add: int16_def drop_bit_eq_div)
qed

lemma tx_channel_exact:
  assumes "list_all int16 x"
  shows "scale_sat (integrate_chain 42 (upsample ((comb_stage [0] ^^ 5) x) 64) 5) 24 16 =
    tx_channel_spec x"
proof -
  let ?c = "(comb_stage [0] ^^ 5) x"
  let ?u = "upsample ?c 64"
  let ?s = "(box 64 ^^ 4) (hold 64 (sig x))"
  have c: "length ?c = length x" "\<And>i. sig ?c i = (if i < length x then (comb 1 ^^ 5) (sig x) i else 0)"
    using comb_stage_pow_sig [of 5 x] by (simp_all add: sig_def)
  have lenu: "length ?u = 64 * length x" using c(1) by (simp add: length_upsample)
  have up: "?u ! n = stuff 64 ((comb 1 ^^ 5) (sig x)) n" if "n < 64 * length x" for n
    using nth_upsample [of 64 n ?c] that c by (auto simp: stuff_def)
  have st: "stuff 64 ((comb 1 ^^ 5) (sig x)) = (comb 64 ^^ 5) (stuff 64 (sig x))"
    by (rule comb_pow_stuff) simp
  have five: "(5::nat) = Suc 4" by simp
  have run: "(run_sum ^^ 5) (stuff 64 ((comb 1 ^^ 5) (sig x))) = ?s"
    unfolding st integrators_of_combs unfolding five by (rule box_pow_stuff) simp
  have ag: "agrees 41 ?u (stuff 64 ((comb 1 ^^ 5) (sig x)))"
    using up lenu by (simp add: agrees_def)
  have b: "- (2 ^ 41) \<le> ?s n" "?s n < 2 ^ 41" for n
    by (rule order_trans [OF _ tx_sum_within(1) [OF assms]], simp)
      (rule le_less_trans [OF tx_sum_within(2) [OF assms]], simp)
  have int: "integrate_chain 42 ?u 5 ! n = ?s n" if "n < 64 * length x" for n
    using integrate_chain_exact [OF ag, of 5 n] that lenu b unfolding run by simp
  have sat: "max (- 32768) (min 32767 (drop_bit 24 (?s n))) = drop_bit 24 (?s n)" for n
    using int16_scaled_24 [OF tx_sum_within [OF assms]] by (simp add: int16_def)
  show ?thesis
    by (rule nth_equalityI) (simp_all add: scale_sat_def tx_channel_spec_def lenu int sat)
qed

text \<open>The interpolator with the parameters of the transmitter returns without an exception, 64
  output samples for each input sample, and each channel is the exact moving sum of the held
  input: its wrapping accumulators and its saturation do not show for 16-bit samples.\<close>

theorem tx_cic_exact:
  assumes "list_all (\<lambda>(i, q). int16 i \<and> int16 q) samples"
  shows "tx_cic samples =
    Inr (zip (tx_channel_spec (map fst samples)) (tx_channel_spec (map snd samples)))"
proof -
  have "list_all int16 (map fst samples)" "list_all int16 (map snd samples)"
    using assms by (auto simp: list_all_iff)
  then show ?thesis
    by (simp add: tx_cic_def cic_interpolate_def comb_chain_def CIC_SHIFT_def tx_channel_exact)
qed

theorem tx_cic_witness:
  "tx_cic [(1000, - 32768), (32767, 5)] =
    Inr (zip (tx_channel_spec [1000, 32767]) (tx_channel_spec [- 32768, 5]))"
  using tx_cic_exact [of "[(1000, - 32768), (32767, 5)]"] by (simp add: int16_def)

text \<open>A constant input is transmitted unchanged once the filter has settled, 252 output samples
  after the start; the generator waits 320.\<close>

theorem tx_cic_dc:
  assumes "int16 i" "int16 q" "252 \<le> n" "n < 64 * len"
  shows "\<exists>out. tx_cic (replicate len (i, q)) = Inr out \<and> length out = 64 * len \<and> out ! n = (i, q)"
proof -
  have settled: "tx_channel_spec (replicate len c) ! n = c" for c
  proof -
    have "(box 64 ^^ 4) (hold 64 (sig (replicate len c))) n = int 64 ^ 4 * c"
      using assms(3,4) by (intro box_pow_settled [of 0 "64 * len"]) (auto simp: hold_def sig_def)
    then show ?thesis using assms(4) by (simp add: tx_channel_spec_def drop_bit_eq_div)
  qed
  have len: "length (tx_channel_spec (replicate len c)) = 64 * len" for c
    by (simp add: tx_channel_spec_def)
  have "list_all (\<lambda>(i, q). int16 i \<and> int16 q) (replicate len (i, q))"
    using assms(1,2) by (simp add: list_all_iff)
  from tx_cic_exact [OF this] show ?thesis using assms(4) settled len by simp
qed

end
