(* ===== verification/UlVectors.thy ===== *)
theory UlVectors
  imports SoftMargin UlReceive CicFilters
begin

unbundle bit_operations_syntax

text \<open>
  The test stream of the uplink receiver and its reference receivers: \<open>scripts/gen_ul_demod_tv.py\<close> (symbols of a
  random-access burst, four samples per symbol between pauses, expected bytes), and
  \<open>scripts/check_ul_wav_rtl_emu.py\<close> (slicing of the stream, the demodulator of the RTL in integers, soft
  decoding) with \<open>scripts/check_ul_demod_tv.py\<close> (comparison of signs).

  A line of a file is the number it spells.  The modulator computes sines in floating point: the symbols
  are the input here, and what is asked of them is that every product lies in the quadrant of its
  dibit.
\<close>

definition ETS_X :: "(bool \<times> bool) list" where
  "ETS_X =
    [(True, False), (False, True), (True, True), (False, True), (False, False),
     (False, False), (True, True), (True, False), (True, False), (False, True),
     (True, True), (False, True), (False, False), (False, False), (True, True)]"

definition SPS :: nat where "SPS = 4"
definition FULL_SYMS :: nat where "FULL_SYMS = 2 + 42 + 15 + 42 + 2"
definition FULL_PRE_SMP :: nat where "FULL_PRE_SMP = 400"
definition FULL_POST_SMP :: nat where "FULL_POST_SMP = 1200"
definition FULL_SMP_PER_BURST :: nat where
  "FULL_SMP_PER_BURST = FULL_PRE_SMP + FULL_SYMS * SPS + FULL_POST_SMP"

text \<open>The dibits of \<open>modulate_full_burst\<close>.\<close>

definition full_dibits :: "bits \<Rightarrow> (bool \<times> bool) list res" where
  "full_dibits type5_bits =
     assert_res (length type5_bits = 168)
       (let dibits = replicate 2 (False, False)
              @ map (\<lambda>k. (type5_bits ! (2 * k), type5_bits ! (2 * k + 1))) [0..<42]
              @ ETS_X
              @ map (\<lambda>k. let idx = 84 + 2 * k in (type5_bits ! idx, type5_bits ! (idx + 1))) [0..<42]
              @ replicate 2 (False, False)
        in assert_res (length dibits = FULL_SYMS) (Inr dibits))"

definition word16 :: "int \<Rightarrow> int" where
  "word16 v = v AND 0xFFFF"

definition full_lines :: "(int \<times> int) list \<Rightarrow> int list" where
  "full_lines syms =
     concat (replicate FULL_PRE_SMP [0, 0])
     @ concat (map (\<lambda>(i, q). concat (replicate SPS [word16 i, word16 q])) syms)
     @ concat (replicate FULL_POST_SMP [0, 0])"

definition INFO_HU :: nat where "INFO_HU = 92"

definition expected_record :: "bits \<Rightarrow> int list" where
  "expected_record info =
     1 # map (\<lambda>n. foldl (\<lambda>byte k. push_bit 1 byte OR
                 (if 8 * n + k < INFO_HU then of_bool (info ! (8 * n + k)) else 0)) 0 [0..<8]) [0..<12]"

subsection \<open>The reference receiver\<close>

definition RA_CB_SYMS :: nat where "RA_CB_SYMS = 42"
definition RA_X_SYMS :: nat where "RA_X_SYMS = 15"
definition X_SYM_IDX :: nat where "X_SYM_IDX = 44"
definition SMP_PER_BURST :: nat where "SMP_PER_BURST = 2012"

definition signed16 :: "int \<Rightarrow> int" where
  "signed16 v = (if 0x8000 \<le> v then v - 0x10000 else v)"

text \<open>\<open>xs[start:stop:step]\<close>\<close>

definition np_stride :: "'a list \<Rightarrow> nat \<Rightarrow> nat \<Rightarrow> nat \<Rightarrow> 'a list" where
  "np_stride xs start stop step =
     map (\<lambda>k. xs ! (start + k * step)) [0..<(min stop (length xs) - start + step - 1) div step]"

definition slice_top :: "int \<Rightarrow> int" where
  "slice_top x = max (- 128) (min 127 (drop_bit 25 x))"

definition re_z :: "int \<times> int \<Rightarrow> int \<times> int \<Rightarrow> int" where
  "re_z = (\<lambda>(ip, qp) (ik, qk). ik * ip + qk * qp)"

definition im_z :: "int \<times> int \<Rightarrow> int \<times> int \<Rightarrow> int" where
  "im_z = (\<lambda>(ip, qp) (ik, qk). qk * ip - ik * qp)"

definition rtl_demod :: "(int \<times> int) list \<Rightarrow> int list \<times> int list" where
  "rtl_demod syms =
     (let prev = butlast syms; cur = tl syms
      in (map (\<lambda>(p, c). slice_top (re_z p c)) (zip prev cur), map (\<lambda>(p, c). slice_top (im_z p c)) (zip prev cur)))"

text \<open>The two halves of the soft buffer, imaginary and real parts in turn.\<close>

definition weave :: "int list \<Rightarrow> int list \<Rightarrow> int list" where
  "weave im re = concat (map (\<lambda>(i, r). [i, r]) (zip im re))"

definition emu_burst :: "int \<Rightarrow> (int \<times> int) list \<Rightarrow> (bool \<times> bits \<times> bits) res" where
  "emu_burst scramb_init syms_all =
     (let cb1 = take (1 + RA_CB_SYMS) (drop 1 syms_all);
          cb2 = take (1 + RA_CB_SYMS) (drop (X_SYM_IDX + RA_X_SYMS - 1) syms_all);
          (re1, im1) = rtl_demod cb1;
          (re2, im2) = rtl_demod cb2
      in if length re1 \<noteq> RA_CB_SYMS \<or> length re2 \<noteq> RA_CB_SYMS then Inl ValueError
         else bind_res (descramble_soft_etsi (weave im1 re1 @ weave im2 re2) scramb_init 168) (\<lambda>soft_desc.
           decode_channel_soft soft_desc 168 13 92))"

definition rtl_emu :: "int \<Rightarrow> int list \<Rightarrow> (bool \<times> bits \<times> bits) list res" where
  "rtl_emu scramb_init lines =
     (let vals = map signed16 lines;
          I = np_stride vals 0 (length vals) 2;
          Q = np_stride vals 1 (length vals) 2;
          n_bursts = length I div SMP_PER_BURST
      in all_res (map (\<lambda>b.
           let base = b * SMP_PER_BURST + FULL_PRE_SMP;
               I_sym = np_stride I base (base + FULL_SYMS * SPS) SPS;
               Q_sym = np_stride Q base (base + FULL_SYMS * SPS) SPS
           in emu_burst scramb_init (zip I_sym Q_sym)) [0..<n_bursts]))"

text \<open>\<open>check_ul_demod_tv\<close>: the number of dibits of a burst whose signs are not those expected.  The burst has the two
  halves of \<open>modulate_burst\<close>, 43 symbols each; the products are 32-bit integers.\<close>

definition SYMS_HALF :: nat where "SYMS_HALF = 43"

definition int32 :: "int \<Rightarrow> int" where
  "int32 v = signed_take_bit 31 v"

definition soft_bits :: "bits \<Rightarrow> (int \<times> int) list \<Rightarrow> (bool \<times> bool \<times> bool \<times> bool) list" where
  "soft_bits type5 syms =
     concat (map (\<lambda>half. map (\<lambda>k.
         let h_base = half * SYMS_HALF;
             p = syms ! (h_base + k - 1); c = syms ! (h_base + k);
             bit_base = half * 84 + 2 * (k - 1)
         in (type5 ! bit_base, type5 ! (bit_base + 1), int32 (im_z p c) < 0, int32 (re_z p c) < 0))
       [1..<SYMS_HALF]) [0..<2])"

definition sign_mismatches :: "bits \<Rightarrow> (int \<times> int) list \<Rightarrow> nat" where
  "sign_mismatches type5 syms =
     length (filter (\<lambda>(bm, bl, sim_s, sre_s). bm \<noteq> sim_s \<or> bl \<noteq> sre_s) (soft_bits type5 syms))"

subsection \<open>Slicing the stream\<close>

lemma nth_concat_blocks:
  "\<forall>xs \<in> set xss. length xs = n \<Longrightarrow> b < length xss \<Longrightarrow> j < n \<Longrightarrow> concat xss ! (n * b + j) = xss ! b ! j"
proof (induction xss arbitrary: b)
  case (Cons xs xss)
  then show ?case by (cases b) (simp_all add: nth_append add.assoc)
qed simp

lemma length_concat_blocks: "\<forall>xs \<in> set xss. length xs = n \<Longrightarrow> length (concat xss) = n * length xss"
  by (induction xss) simp_all

lemma signed16_word16: "int16 v \<Longrightarrow> signed16 (word16 v) = v"
proof -
  assume v: "int16 v"
  have "v AND 0xFFFF = v mod 2 ^ 16" using and_mask_mod [of v 16] by simp
  moreover have "v mod 65536 = (if v < 0 then v + 65536 else v)"
    using v mod_pos_pos_trivial [of "v + 65536" 65536] by (simp add: int16_def)
  ultimately show ?thesis using v by (simp add: signed16_def word16_def int16_def)
qed


lemma np_stride_map:
  "start + n * step \<le> length xs \<Longrightarrow> 0 < step \<Longrightarrow>
   np_stride xs start (start + n * step) step = map (\<lambda>k. xs ! (start + k * step)) [0..<n]"
proof -
  assume a: "start + n * step \<le> length xs" "0 < step"
  have "(n * step + step - 1) div step = n"
  proof -
    have "n * step + step - 1 = (step - 1) + n * step" using a(2) by simp
    then show ?thesis using a(2) by (simp only: div_mult_self1) simp
  qed
  then show ?thesis using a(1) by (simp add: np_stride_def min_def)
qed

lemma np_stride_all:
  assumes "length xs = 2 * n" "p < 2"
  shows "np_stride xs p (length xs) 2 = map (\<lambda>k. xs ! (2 * k + p)) [0..<n]"
proof -
  have "(2 * n - p + 2 - 1) div 2 = n" using assms(2) by (cases n; cases p) auto
  then show ?thesis using assms(1) by (simp add: np_stride_def add.commute mult.commute)
qed

definition stream_burst :: "(int \<times> int) list \<Rightarrow> bool" where
  "stream_burst syms \<longleftrightarrow> length syms = FULL_SYMS \<and> (\<forall>(i, q) \<in> set syms. int16 i \<and> int16 q)"

text \<open>The values of a burst: each symbol four times.\<close>

definition hold4 :: "(int \<times> int) list \<Rightarrow> int list" where
  "hold4 syms = concat (map (\<lambda>(i, q). [i, q, i, q, i, q, i, q]) syms)"

lemma burst_values:
  assumes "stream_burst syms"
  shows "map signed16 (full_lines syms) = replicate 800 0 @ hold4 syms @ replicate 2400 0"
proof -
  have z: "concat (replicate n [0, 0]) = replicate (2 * n) (0 :: int)" for n
    by (induction n) simp_all
  have s0: "signed16 0 = 0" by (simp add: signed16_def)
  have "map signed16 (concat (map (\<lambda>(i, q). concat (replicate SPS [word16 i, word16 q])) syms)) = hold4 syms"
    using assms unfolding hold4_def stream_burst_def map_concat
    by (fastforce simp: SPS_def numeral_eq_Suc signed16_word16 intro!: arg_cong [where f = concat])
  then show ?thesis
    by (simp add: full_lines_def z s0 FULL_PRE_SMP_def FULL_POST_SMP_def)
qed

lemma length_hold4: "length (hold4 syms) = 8 * length syms"
  by (induction syms) (auto simp: hold4_def)

lemma hold4_nth:
  assumes "k < length syms"
  shows "hold4 syms ! (8 * k) = fst (syms ! k)" "hold4 syms ! (8 * k + 1) = snd (syms ! k)"
proof -
  let ?g = "\<lambda>(i, q). [i, q, i, q, i, q, i, q :: int]"
  have l: "\<forall>xs \<in> set (map ?g syms). length xs = 8" by auto
  show "hold4 syms ! (8 * k) = fst (syms ! k)" "hold4 syms ! (8 * k + 1) = snd (syms ! k)"
    using nth_concat_blocks [OF l, of k 0] nth_concat_blocks [OF l, of k 1] assms
    unfolding hold4_def by (simp_all add: split_def)
qed

lemma length_values: "stream_burst syms \<Longrightarrow> length (map signed16 (full_lines syms)) = 4024"
  by (simp only: burst_values) (simp add: length_hold4 stream_burst_def FULL_SYMS_def)

lemma values_nth:
  assumes "stream_burst syms" "k < FULL_SYMS"
  shows "map signed16 (full_lines syms) ! (2 * (FULL_PRE_SMP + k * SPS)) = fst (syms ! k)"
    "map signed16 (full_lines syms) ! (2 * (FULL_PRE_SMP + k * SPS) + 1) = snd (syms ! k)"
proof -
  have k: "k < length syms" "8 * k < 8 * length syms" "8 * k + 1 < 8 * length syms"
    using assms by (simp_all add: stream_burst_def)
  have i: "2 * (FULL_PRE_SMP + k * SPS) = 800 + 8 * k" by (simp add: FULL_PRE_SMP_def SPS_def)
  show "map signed16 (full_lines syms) ! (2 * (FULL_PRE_SMP + k * SPS)) = fst (syms ! k)"
    "map signed16 (full_lines syms) ! (2 * (FULL_PRE_SMP + k * SPS) + 1) = snd (syms ! k)"
    unfolding i burst_values [OF assms(1)]
    using hold4_nth [OF k(1)] k by (simp_all add: nth_append length_hold4)
qed

text \<open>The emulator finds the symbols of every burst of the stream.\<close>

lemma rtl_emu_stream:
  assumes "\<forall>syms \<in> set bursts. stream_burst syms"
  shows "rtl_emu init (concat (map full_lines bursts)) = all_res (map (emu_burst init) bursts)"
proof -
  let ?v = "map signed16 (concat (map full_lines bursts))" and ?n = "length bursts"
  let ?blocks = "map (\<lambda>syms. map signed16 (full_lines syms)) bursts"
  have v: "?v = concat ?blocks" by (simp add: map_concat comp_def)
  have l: "\<forall>xs \<in> set ?blocks. length xs = 4024" using assms length_values by auto
  have len: "length ?v = 2 * (2012 * ?n)" unfolding v length_concat_blocks [OF l] by simp
  let ?I = "np_stride ?v 0 (length ?v) 2" and ?Q = "np_stride ?v 1 (length ?v) 2"
  have I: "?I = map (\<lambda>k. ?v ! (2 * k + 0)) [0..<2012 * ?n]" by (rule np_stride_all [OF len]) simp
  have Q: "?Q = map (\<lambda>k. ?v ! (2 * k + 1)) [0..<2012 * ?n]" by (rule np_stride_all [OF len]) simp
  have at: "?v ! (2 * (b * 2012 + j) + p) = map signed16 (full_lines (bursts ! b)) ! (2 * j + p)"
    if "b < ?n" "j < 2012" "p < 2" for b j p
  proof -
    have "2 * (b * 2012 + j) + p = 4024 * b + (2 * j + p)" by simp
    moreover have "2 * j + p < 4024" using that by linarith
    ultimately show ?thesis unfolding v using nth_concat_blocks [OF l, of b "2 * j + p"] that(1) by (simp add: add.assoc)
  qed
  have burst: "(let base = b * SMP_PER_BURST + FULL_PRE_SMP;
             I_sym = np_stride ?I base (base + FULL_SYMS * SPS) SPS;
             Q_sym = np_stride ?Q base (base + FULL_SYMS * SPS) SPS
         in zip I_sym Q_sym) = bursts ! b" if b: "b < ?n" for b
  proof -
    have ok: "stream_burst (bursts ! b)" using assms b by simp
    let ?base = "b * SMP_PER_BURST + FULL_PRE_SMP"
    have fit: "?base + FULL_SYMS * SPS \<le> 2012 * ?n" "0 < SPS"
      using b by (simp_all add: SMP_PER_BURST_def FULL_PRE_SMP_def FULL_SYMS_def SPS_def)
    have idx: "?base + k * SPS < 2012 * ?n" "FULL_PRE_SMP + k * SPS < 2012" if "k < FULL_SYMS" for k
      using that b by (simp_all add: SMP_PER_BURST_def FULL_PRE_SMP_def FULL_SYMS_def SPS_def)
    have base: "?base + k * SPS = b * 2012 + (FULL_PRE_SMP + k * SPS)" for k by (simp add: SMP_PER_BURST_def)
    have at_sym: "?I ! (?base + k * SPS) = fst (bursts ! b ! k)" "?Q ! (?base + k * SPS) = snd (bursts ! b ! k)"
      if k: "k < FULL_SYMS" for k
      using values_nth [OF ok k] idx [OF k] at [OF b idx(2) [OF k], of 0] at [OF b idx(2) [OF k], of 1]
      unfolding I Q base by simp_all
    have stride: "np_stride xs ?base (?base + FULL_SYMS * SPS) SPS = map g [0..<FULL_SYMS]"
      if "length xs = 2012 * ?n" "\<And>k. k < FULL_SYMS \<Longrightarrow> xs ! (?base + k * SPS) = g k" for xs :: "int list" and g
    proof -
      have "np_stride xs ?base (?base + FULL_SYMS * SPS) SPS = map (\<lambda>k. xs ! (?base + k * SPS)) [0..<FULL_SYMS]"
        by (rule np_stride_map) (use fit that(1) in simp_all)
      then show ?thesis using that(2) by simp
    qed
    have lenI: "length ?I = 2012 * ?n" "length ?Q = 2012 * ?n" unfolding I Q by simp_all
    have "np_stride ?I ?base (?base + FULL_SYMS * SPS) SPS = map (\<lambda>k. fst (bursts ! b ! k)) [0..<FULL_SYMS]"
      by (rule stride [OF lenI(1) at_sym(1)])
    moreover have "np_stride ?Q ?base (?base + FULL_SYMS * SPS) SPS = map (\<lambda>k. snd (bursts ! b ! k)) [0..<FULL_SYMS]"
      by (rule stride [OF lenI(2) at_sym(2)])
    moreover have "map (\<lambda>k. fst (bursts ! b ! k)) [0..<FULL_SYMS] = map fst (bursts ! b)"
      "map (\<lambda>k. snd (bursts ! b ! k)) [0..<FULL_SYMS] = map snd (bursts ! b)"
      using ok by (auto simp: stream_burst_def intro!: nth_equalityI)
    ultimately show ?thesis by (simp only: Let_def zip_map_fst_snd)
  qed
  have n: "length ?I div SMP_PER_BURST = ?n" unfolding I SMP_PER_BURST_def by simp
  have "map (\<lambda>b. let base = b * SMP_PER_BURST + FULL_PRE_SMP;
             I_sym = np_stride ?I base (base + FULL_SYMS * SPS) SPS;
             Q_sym = np_stride ?Q base (base + FULL_SYMS * SPS) SPS
         in emu_burst init (zip I_sym Q_sym)) [0..<?n] = map (\<lambda>b. emu_burst init (bursts ! b)) [0..<?n]"
    using burst by (intro map_cong refl) (simp add: Let_def)
  also have "\<dots> = map (emu_burst init) bursts" by (rule nth_equalityI) simp_all
  finally show ?thesis unfolding rtl_emu_def Let_def n [unfolded Let_def] by (simp only: Let_def)
qed


subsection \<open>Soft values of clear symbols\<close>

text \<open>Symbols that follow the dibits: each product with the symbol before it lies in the quadrant of its dibit, a
  positive part being at least one step of the soft values.\<close>

definition clear_step :: "bool \<times> bool \<Rightarrow> int \<times> int \<Rightarrow> int \<times> int \<Rightarrow> bool" where
  "clear_step = (\<lambda>(msb, lsb) p c. (if lsb then re_z p c < 0 else 2 ^ 25 \<le> re_z p c) \<and>
     (if msb then im_z p c < 0 else 2 ^ 25 \<le> im_z p c))"

definition follows :: "(bool \<times> bool) list \<Rightarrow> (int \<times> int) list \<Rightarrow> bool" where
  "follows dibits syms \<longleftrightarrow> stream_burst syms \<and> (\<forall>n < 102. clear_step (dibits ! Suc n) (syms ! n) (syms ! Suc n))"

definition soft_good :: "bool \<Rightarrow> int \<Rightarrow> bool" where
  "soft_good b v \<longleftrightarrow> 1 \<le> \<bar>v\<bar> \<and> \<bar>v\<bar> \<le> 128 \<and> (v < 0 \<longleftrightarrow> b)"

lemma slice_top_good: "(if b then x < 0 else 2 ^ 25 \<le> x) \<Longrightarrow> soft_good b (slice_top x)"
proof (cases b)
  case True
  moreover assume "if b then x < 0 else 2 ^ 25 \<le> x"
  ultimately have "x div 2 ^ 25 < 0" by (simp add: div_neg_pos_less0)
  then show ?thesis using True by (simp add: soft_good_def slice_top_def drop_bit_eq_div)
next
  case False
  moreover assume "if b then x < 0 else 2 ^ 25 \<le> x"
  ultimately have "1 \<le> x div 2 ^ 25" using zdiv_mono1 [of "2 ^ 25" x "2 ^ 25"] by simp
  then have "1 \<le> slice_top x" "slice_top x \<le> 128" unfolding slice_top_def drop_bit_eq_div by linarith+
  then show ?thesis using False by (simp add: soft_good_def)
qed

lemma clear_step_good:
  "clear_step (msb, lsb) p c \<Longrightarrow> soft_good lsb (slice_top (re_z p c)) \<and> soft_good msb (slice_top (im_z p c))"
  using slice_top_good [of lsb "re_z p c"] slice_top_good [of msb "im_z p c"]
  unfolding clear_step_def prod.case by blast

text \<open>The sign check counts no mismatch on clear steps within the amplitude of the generator.\<close>

lemma iq_product_bound:
  assumes "\<bar>a\<bar> \<le> 32767" "\<bar>b\<bar> \<le> 32767"
  shows "\<bar>a * b\<bar> \<le> (32767 * 32767 :: int)"
  unfolding abs_mult using assms by (intro mult_mono) simp_all

lemma int32_small: "- (2 ^ 31) \<le> v \<Longrightarrow> v < 2 ^ 31 \<Longrightarrow> int32 v = v"
  unfolding int32_def by (rule signed_take_bit_int_eq_self) simp_all

lemma product_signs:
  assumes "\<bar>fst p\<bar> \<le> 32767" "\<bar>snd p\<bar> \<le> 32767" "\<bar>fst c\<bar> \<le> 32767" "\<bar>snd c\<bar> \<le> 32767"
  shows "int32 (re_z p c) = re_z p c" "int32 (im_z p c) = im_z p c"
proof -
  have "\<bar>fst c * fst p\<bar> \<le> 32767 * 32767" "\<bar>snd c * snd p\<bar> \<le> 32767 * 32767"
    "\<bar>snd c * fst p\<bar> \<le> 32767 * 32767" "\<bar>fst c * snd p\<bar> \<le> 32767 * 32767"
    using assms by (simp_all only: iq_product_bound)
  then show "int32 (re_z p c) = re_z p c" "int32 (im_z p c) = im_z p c"
    by (auto simp: re_z_def im_z_def case_prod_unfold abs_le_iff intro!: int32_small)
qed

lemma clear_steps_match:
  assumes "\<forall>(i, q) \<in> set syms. \<bar>i\<bar> \<le> 32767 \<and> \<bar>q\<bar> \<le> 32767" "length syms = 86"
    and "\<And>half k. half < 2 \<Longrightarrow> k < 42 \<Longrightarrow> clear_step (t5 ! (half * 84 + 2 * k), t5 ! (half * 84 + 2 * k + 1))
        (syms ! (half * 43 + k)) (syms ! (half * 43 + Suc k))"
  shows "sign_mismatches t5 syms = 0"
proof -
  have b: "\<bar>fst (syms ! n)\<bar> \<le> 32767 \<and> \<bar>snd (syms ! n)\<bar> \<le> 32767" if "n < 86" for n
    using assms(1) nth_mem [of n syms] that assms(2) by fastforce
  have "t5 ! (half * 84 + 2 * k) = (int32 (im_z p c) < 0) \<and> t5 ! (half * 84 + 2 * k + 1) = (int32 (re_z p c) < 0)"
    if h: "half < 2" "k < 42" and pc: "p = syms ! (half * 43 + k)" "c = syms ! (half * 43 + Suc k)" for half k p c
  proof -
    have n: "half * 43 + k < 86" "half * 43 + Suc k < 86" using h by linarith+
    have "int32 (re_z p c) = re_z p c" "int32 (im_z p c) = im_z p c"
      using product_signs [of p c] b [OF n(1)] b [OF n(2)] pc by simp_all
    then show ?thesis using assms(3) [OF h] pc by (auto simp: clear_step_def split: if_splits)
  qed
  note step = this
  have "t5 ! (half * 84 + 2 * (k - 1)) = (int32 (im_z (syms ! (half * 43 + k - 1)) (syms ! (half * 43 + k))) < 0) \<and>
      t5 ! (half * 84 + 2 * (k - 1) + 1) = (int32 (re_z (syms ! (half * 43 + k - 1)) (syms ! (half * 43 + k))) < 0)"
    if "half < 2" "1 \<le> k" "k < 43" for half k
    by (rule step) (use that in auto)
  then show ?thesis
    by (auto simp: sign_mismatches_def soft_bits_def SYMS_HALF_def filter_empty_conv Let_def)
qed

lemma length_weave: "length im = length re \<Longrightarrow> length (weave im re) = 2 * length re"
  by (induction im re rule: list_induct2) (simp_all add: weave_def)

lemma weave_nth:
  "length im = length re \<Longrightarrow> k < length re \<Longrightarrow> weave im re ! (2 * k) = im ! k \<and> weave im re ! (2 * k + 1) = re ! k"
proof (induction im re arbitrary: k rule: list_induct2)
  case (Cons i im r re)
  then show ?case by (cases k) (simp_all add: weave_def)
qed simp

lemma rtl_demod_nth:
  assumes "length syms = Suc n"
  shows "length (fst (rtl_demod syms)) = n" "length (snd (rtl_demod syms)) = n"
    "k < n \<Longrightarrow> fst (rtl_demod syms) ! k = slice_top (re_z (syms ! k) (syms ! Suc k))"
    "k < n \<Longrightarrow> snd (rtl_demod syms) ! k = slice_top (im_z (syms ! k) (syms ! Suc k))"
  using assms by (simp_all add: rtl_demod_def Let_def nth_butlast nth_tl)

text \<open>The soft values of 43 symbols that follow the dibits of 84 bits.\<close>

lemma weave_good:
  assumes "length syms = 43" "\<And>k. k < 42 \<Longrightarrow> clear_step (bs ! (2 * k), bs ! (2 * k + 1)) (syms ! k) (syms ! Suc k)"
  shows "length (weave (snd (rtl_demod syms)) (fst (rtl_demod syms))) = 84"
    "i < 84 \<Longrightarrow> soft_good (bs ! i) (weave (snd (rtl_demod syms)) (fst (rtl_demod syms)) ! i)"
proof -
  have l: "length syms = Suc 42" using assms(1) by simp
  note d = rtl_demod_nth [OF l]
  have e: "length (snd (rtl_demod syms)) = length (fst (rtl_demod syms))" using d(1,2) by simp
  show "length (weave (snd (rtl_demod syms)) (fst (rtl_demod syms))) = 84"
    using length_weave [OF e] d(1) by simp
  assume i: "i < 84"
  define k where "k = i div 2"
  have k: "k < 42" "i = 2 * k \<or> i = 2 * k + 1" using i by (auto simp: k_def)
  have "soft_good (bs ! (2 * k + 1)) (fst (rtl_demod syms) ! k) \<and> soft_good (bs ! (2 * k)) (snd (rtl_demod syms) ! k)"
    using clear_step_good [OF assms(2) [OF k(1)]] d(3,4) [OF k(1)] by simp
  then show "soft_good (bs ! i) (weave (snd (rtl_demod syms)) (fst (rtl_demod syms)) ! i)"
    using weave_nth [OF e, of k] k d(1) by auto
qed

lemma full_dibits_eq:
  assumes "length t5 = 168"
  obtains ds where "full_dibits t5 = Inr ds" "length ds = 103"
    "\<And>k. k < 42 \<Longrightarrow> ds ! (k + 2) = (t5 ! (2 * k), t5 ! (2 * k + 1))"
    "\<And>k. k < 42 \<Longrightarrow> ds ! (k + 59) = (t5 ! (84 + 2 * k), t5 ! (84 + 2 * k + 1))"
proof -
  let ?a = "map (\<lambda>k. (t5 ! (2 * k), t5 ! (2 * k + 1))) [0..<42]"
    and ?b = "map (\<lambda>k. let idx = 84 + 2 * k in (t5 ! idx, t5 ! (idx + 1))) [0..<42]"
  let ?ds = "replicate 2 (False, False) @ ?a @ ETS_X @ ?b @ replicate 2 (False, False)"
  have x: "length ETS_X = 15" by (simp add: ETS_X_def)
  have "?ds ! (k + 2) = (t5 ! (2 * k), t5 ! (2 * k + 1))" if "k < 42" for k
    using that by (simp add: nth_append)
  moreover have "?ds ! (k + 59) = (t5 ! (84 + 2 * k), t5 ! (84 + 2 * k + 1))" if "k < 42" for k
    using that x by (simp add: nth_append)
  moreover have "length ?ds = 103" using x by simp
  moreover have "full_dibits t5 = Inr ?ds"
    unfolding full_dibits_def using assms x by (simp add: FULL_SYMS_def del: upt_Suc)
  ultimately show thesis by (intro that) 
qed

lemma emu_burst_decodes:
  assumes "length info = 92" "encode_sch_hu info seed = Inr t5" "full_dibits t5 = Inr ds" "follows ds syms"
  shows "emu_burst seed syms = Inr (True, info, crc16 info @ [False, False, False, False])"
proof -
  have lt: "length t5 = 168"
    using sch_hu.decode_clean [OF assms(1), of seed] assms(2) by auto
  obtain ds' where d: "full_dibits t5 = Inr ds'" "length ds' = 103"
    "\<And>k. k < 42 \<Longrightarrow> ds' ! (k + 2) = (t5 ! (2 * k), t5 ! (2 * k + 1))"
    "\<And>k. k < 42 \<Longrightarrow> ds' ! (k + 59) = (t5 ! (84 + 2 * k), t5 ! (84 + 2 * k + 1))"
    using full_dibits_eq [OF lt] by blast
  have ds: "ds' = ds" using d(1) assms(3) by simp
  have ls: "length syms = 103" using assms(4) by (simp add: follows_def stream_burst_def FULL_SYMS_def)
  have cl: "clear_step (ds ! Suc n) (syms ! n) (syms ! Suc n)" if "n < 102" for n
    using assms(4) that by (simp add: follows_def)
  define cb1 where "cb1 = take (1 + RA_CB_SYMS) (drop 1 syms)"
  define cb2 where "cb2 = take (1 + RA_CB_SYMS) (drop (X_SYM_IDX + RA_X_SYMS - 1) syms)"
  have l: "length cb1 = 43" "length cb2 = 43"
    using ls by (simp_all add: cb1_def cb2_def RA_CB_SYMS_def X_SYM_IDX_def RA_X_SYMS_def)
  have c1: "clear_step (t5 ! (2 * k), t5 ! (2 * k + 1)) (cb1 ! k) (cb1 ! Suc k)" if "k < 42" for k
    using cl [of "Suc k"] d(3) [OF that] that ls by (simp add: ds cb1_def RA_CB_SYMS_def)
  have c2: "clear_step (drop 84 t5 ! (2 * k), drop 84 t5 ! (2 * k + 1)) (cb2 ! k) (cb2 ! Suc k)" if "k < 42" for k
    using cl [of "k + 58"] d(4) [OF that] that ls lt
    by (simp add: ds cb2_def RA_CB_SYMS_def X_SYM_IDX_def RA_X_SYMS_def add.commute)
  let ?w = "\<lambda>cb. weave (snd (rtl_demod cb)) (fst (rtl_demod cb))"
  define s where "s = ?w cb1 @ ?w cb2"
  note w1 = weave_good [OF l(1), of t5, OF c1] and w2 = weave_good [OF l(2), of "drop 84 t5", OF c2]
  have lens: "length s = 168" using w1(1) w2(1) by (simp add: s_def)
  have good: "soft_good (t5 ! i) (s ! i)" if "i < 168" for i
  proof (cases "i < 84")
    case True
    then show ?thesis using w1 by (simp add: s_def nth_append)
  next
    case False
    then have "84 + (i - 84) = i" "i - 84 < 84" using that by simp_all
    then show ?thesis using w1(1) w2(2) [of "i - 84"] False lt by (simp add: s_def nth_append)
  qed
  have r: "received 1 (replicate 168 False) t5 s"
    using good lens lt by (auto simp: received_def soft_good_def)
  have a: "amplitude 128 s"
    using good lens by (auto simp: amplitude_def in_set_conv_nth soft_good_def)
  have b: "burst 10 (replicate 168 False)" by (simp add: burst_def)
  have dec: "bind_res (descramble_soft s seed 168) (\<lambda>d. decode_channel_soft d 168 13 92) =
      Inr (True, info, crc16 info @ [False, False, False, False])"
    by (rule sch_hu.decode_faded [OF assms(1) TrueI b assms(2) r a]) simp
  have e: "descramble_soft_etsi s seed 168 = descramble_soft s seed 168"
    by (simp add: descramble_soft_etsi_def descramble_soft_def)
  have ln: "length (fst (rtl_demod cb1)) = 42" "length (fst (rtl_demod cb2)) = 42"
    using rtl_demod_nth(1) [of cb1 42] rtl_demod_nth(1) [of cb2 42] l by simp_all
  show ?thesis
    using dec ln unfolding emu_burst_def cb1_def [symmetric] cb2_def [symmetric] Let_def case_prod_beta
    by (simp add: RA_CB_SYMS_def e flip: s_def)
qed

lemma all_res_Inr: "(\<And>x. x \<in> set xs \<Longrightarrow> f x = Inr (g x)) \<Longrightarrow> all_res (map f xs) = Inr (map g xs)"
  by (induction xs) simp_all

text \<open>C14. The test stream of the uplink is decoded: for any number of SCH/HU messages and any cell seed, the stream of
  their bursts, four samples per symbol with the pauses between them, is cut into the same bursts by
  the emulation of the receiver, and each is decoded with a good CRC to its message - whatever the
  symbols are, as long as they fit 16 bits and every product lies in the quadrant of its dibit.\<close>

theorem uplink_stream_decoded:
  assumes "\<forall>(info, syms) \<in> set bursts. length info = 92 \<and>
    (\<exists>t5 ds. encode_sch_hu info seed = Inr t5 \<and> full_dibits t5 = Inr ds \<and> follows ds syms)"
  shows "rtl_emu seed (concat (map (\<lambda>(info, syms). full_lines syms) bursts)) =
    Inr (map (\<lambda>(info, syms). (True, info, crc16 info @ [False, False, False, False])) bursts)"
proof -
  have ok: "\<forall>syms \<in> set (map snd bursts). stream_burst syms"
    using assms by (fastforce simp: follows_def)
  have "rtl_emu seed (concat (map full_lines (map snd bursts))) = all_res (map (emu_burst seed) (map snd bursts))"
    by (rule rtl_emu_stream [OF ok])
  also have "\<dots> = all_res (map (\<lambda>b. emu_burst seed (snd b)) bursts)" by (simp add: comp_def)
  also have "\<dots> = Inr (map (\<lambda>b. (True, fst b, crc16 (fst b) @ [False, False, False, False])) bursts)"
    using assms by (intro all_res_Inr) (fastforce intro: emu_burst_decodes)
  finally show ?thesis unfolding case_prod_unfold by (simp add: comp_def)
qed

text \<open>Symbols that follow any dibits: the eight points of the constellation, the phase advancing with the dibit.\<close>

definition points8 :: "(int \<times> int) list" where
  "points8 = [(12000, 0), (8485, 8485), (0, 12000), (-8485, 8485), (-12000, 0), (-8485, -8485), (0, -12000), (8485, -8485)]"

definition turn8 :: "bool \<times> bool \<Rightarrow> nat" where
  "turn8 = (\<lambda>(msb, lsb). if msb then (if lsb then 5 else 7) else (if lsb then 3 else 1))"

definition phase8 :: "(bool \<times> bool) list \<Rightarrow> nat \<Rightarrow> nat" where
  "phase8 ds n = (\<Sum>k<n. turn8 (ds ! Suc k)) mod 8"

lemma turn8_clear: "\<forall>p \<in> {0, 1, 2, 3, 4, 5, 6, 7}. clear_step d (points8 ! p) (points8 ! ((p + turn8 d) mod 8))"
  by (cases d; cases "fst d"; cases "snd d")
    (simp_all add: clear_step_def points8_def turn8_def re_z_def im_z_def)

lemma points8_follow: "follows ds (map (\<lambda>n. points8 ! phase8 ds n) [0..<103])"
proof -
  have p: "phase8 ds n < 8" "phase8 ds (Suc n) = (phase8 ds n + turn8 (ds ! Suc n)) mod 8" for n
    by (simp_all add: phase8_def mod_simps)
  have "phase8 ds n \<in> {0, 1, 2, 3, 4, 5, 6, 7}" for n using p(1) [of n] by auto
  then have "clear_step (ds ! Suc n) (points8 ! phase8 ds n) (points8 ! phase8 ds (Suc n))" for n
    using turn8_clear [of "ds ! Suc n"] by (simp only: p(2))
  moreover have "points8 ! phase8 ds n \<in> set points8" for n using p(1) [of n] by (intro nth_mem) (simp add: points8_def)
  moreover have "\<forall>(i, q) \<in> set points8. int16 i \<and> int16 q" by (simp add: points8_def int16_def)
  ultimately show ?thesis by (auto simp: follows_def stream_burst_def FULL_SYMS_def)
qed

lemma uplink_stream_decoded_witness:
  "\<exists>syms. rtl_emu 3 (full_lines syms) =
     Inr [(True, replicate 92 True, crc16 (replicate 92 True) @ [False, False, False, False])]"
proof -
  obtain t5 where t5: "encode_sch_hu (replicate 92 True) 3 = Inr t5" "length t5 = 168"
    using sch_hu.decode_clean [of "replicate 92 True" 3] by auto
  obtain ds where ds: "full_dibits t5 = Inr ds" using full_dibits_eq [OF t5(2)] by blast
  have "rtl_emu 3 (concat (map (\<lambda>(info, syms). full_lines syms)
      [(replicate 92 True, map (\<lambda>n. points8 ! phase8 ds n) [0..<103])])) =
    Inr (map (\<lambda>(info, syms). (True, info, crc16 info @ [False, False, False, False]))
      [(replicate 92 True, map (\<lambda>n. points8 ! phase8 ds n) [0..<103])])"
    by (rule uplink_stream_decoded) (use t5 ds points8_follow in auto)
  then show ?thesis by auto
qed

end
