(* ===== verification/UlChains.thy ===== *)
theory UlChains
  imports UlReceive
begin

text \<open>
  Long messages in \<open>main\<close> of \<open>scripts/decode_ul.py\<close>: the blocks of a message (\<open>_schf_frag\<close>), the chains built
  from the results of all bursts, and the report of a chain (\<open>_bits_to_bytes\<close>, \<open>_gsm7\<close>).

  The loop over the results is a step on the finished chains and the chain being built; the properties compare
  it with the list of messages that were sent, whatever else was received between their blocks.
\<close>

subsection \<open>Long messages\<close>

text \<open>\<open>_schf_frag\<close>: the kind of a block (True for END) and its bits.\<close>

definition schf_frag :: "bits option \<Rightarrow> (bool \<times> bits) option" where
  "schf_frag info =
     (case info of None \<Rightarrow> None
      | Some b \<Rightarrow>
          if length b < 11 \<or> of_bool (b ! 0) * 2 + of_bool (b ! 1) \<noteq> (1 :: int) then None
          else if \<not> b ! 2 then Some (False, drop 4 b) else Some (True, drop 10 b))"

record chain =
  ch_ssi :: pyval
  ch_tm :: bits
  ch_nf :: nat

definition start_chain :: "dict \<Rightarrow> bits \<Rightarrow> chain res" where
  "start_chain p info =
     (case dget_default p ''payload_start'' (VInt 0) of
        VInt n \<Rightarrow> Inr \<lparr>ch_ssi = dget_default p ''ssi'' VNone, ch_tm = py_slice info n (int (length info)), ch_nf = 0\<rparr>
      | _ \<Rightarrow> Inl TypeError)"

definition chain_frag :: "chain list \<times> chain option \<Rightarrow> bits \<Rightarrow> chain list \<times> chain option" where
  "chain_frag = (\<lambda>(chains, cur) info.
     case cur of None \<Rightarrow> (chains, cur)
     | Some c \<Rightarrow>
         (case schf_frag (Some info) of None \<Rightarrow> (chains, cur)
          | Some (end_block, bits) \<Rightarrow>
              (let c = c\<lparr>ch_tm := ch_tm c @ bits, ch_nf := ch_nf c + 1\<rparr>
               in if end_block then (chains @ [c], None) else (chains, Some c))))"

definition flush_chain :: "chain list \<times> chain option \<Rightarrow> chain list" where
  "flush_chain = (\<lambda>(chains, cur). case cur of None \<Rightarrow> chains | Some c \<Rightarrow> chains @ [c])"

definition chain_step ::
  "ext_cmce_ul \<Rightarrow> ext_parser \<Rightarrow> ul_result \<Rightarrow> chain list \<times> chain option \<Rightarrow> (chain list \<times> chain option) res" where
  "chain_step cmce_ul mm_ul res st =
     (if skip res \<or> \<not> crc_ok res then Inr st
      else
        let var = (case variant res of None \<Rightarrow> [] | Some v \<Rightarrow> v)
        in case info_bits res of None \<Rightarrow> Inr st
           | Some info \<Rightarrow>
               if startswith var ''schhu''
               then bind_res (parse_mac_access cmce_ul mm_ul (Some info)) (\<lambda>p.
                 case p of None \<Rightarrow> Inr st
                 | Some d \<Rightarrow>
                     if dget d ''frag_flag'' = Some (VInt 1)
                     then bind_res (start_chain d info) (\<lambda>c. Inr (flush_chain st, Some c))
                     else Inr st)
               else if startswith var ''schf'' then Inr (chain_frag st info)
               else Inr st)"

fun chain_loop ::
  "ext_cmce_ul \<Rightarrow> ext_parser \<Rightarrow> ul_result list \<Rightarrow> chain list \<times> chain option \<Rightarrow> chain list res" where
  "chain_loop cmce_ul mm_ul [] st = Inr (flush_chain st)"
| "chain_loop cmce_ul mm_ul (res # results) st =
     bind_res (chain_step cmce_ul mm_ul res st) (chain_loop cmce_ul mm_ul results)"

definition sds_chains :: "ext_cmce_ul \<Rightarrow> ext_parser \<Rightarrow> ul_result list \<Rightarrow> chain list res" where
  "sds_chains cmce_ul mm_ul results = chain_loop cmce_ul mm_ul results ([], None)"

subsection \<open>Text of a message\<close>

text \<open>Groups of \<open>n\<close> bits while a whole group is left.\<close>

function bit_groups :: "nat \<Rightarrow> bits \<Rightarrow> bits list" where
  "bit_groups n bs = (if n = 0 \<or> length bs < n then [] else take n bs # bit_groups n (drop n bs))"
  by auto
termination by (relation "measure (\<lambda>(n, bs). length bs)") auto

declare bit_groups.simps [simp del]

definition bits_to_bytes_ul :: "bits \<Rightarrow> int list" where
  "bits_to_bytes_ul bits = map bits_val (bit_groups 8 bits)"

definition printable :: "int \<Rightarrow> char" where
  "printable v = (if 32 \<le> v \<and> v < 127 then char_of (nat v) else CHR ''.'')"

definition septet :: "bits \<Rightarrow> int" where
  "septet g = sum_list (map (\<lambda>k. push_bit k (of_bool (g ! k))) [0..<7])"

definition gsm7 :: "bits \<Rightarrow> string" where
  "gsm7 bits = map (\<lambda>g. printable (septet g)) (bit_groups 7 bits)"

definition byte_hex :: "int \<Rightarrow> string" where
  "byte_hex b = (let digits = ''0123456789abcdef'' in [digits ! nat (b div 16), digits ! nat (b mod 16)])"

text \<open>What is printed of a chain: SSI, fragments, bits and bytes, then the first characters of its
  hexadecimal, Latin-1 and GSM-7 forms.\<close>

record chain_report =
  rep_ssi :: pyval
  rep_frags :: nat
  rep_bits :: nat
  rep_bytes :: nat
  rep_hex :: string
  rep_l1 :: string
  rep_gsm7 :: string

definition report_chain :: "chain \<Rightarrow> chain_report" where
  "report_chain ch =
     (let bb = bits_to_bytes_ul (ch_tm ch)
      in \<lparr>rep_ssi = ch_ssi ch, rep_frags = ch_nf ch, rep_bits = length (ch_tm ch), rep_bytes = length bb,
          rep_hex = take 120 (concat (map byte_hex bb)), rep_l1 = take 90 (map (printable) bb),
          rep_gsm7 = take 90 (gsm7 (ch_tm ch))\<rparr>)"

subsection \<open>The fields of MAC-ACCESS are kept\<close>

lemma leaves_access_mle: "key \<noteq> ''mle'' \<Longrightarrow> step_leaves key (access_mle cmce_ul mm_ul llc)"
  using leaves_call_val [of "''mle''" key]
  by (auto simp: step_leaves_def access_mle_def split: pyval.splits if_splits)

lemma leaves_access_llc:
  assumes "key \<noteq> ''mle''" "key \<noteq> ''llc''"
  shows "step_leaves key (access_llc cmce_ul mm_ul)"
proof -
  have "leaves key [put ''llc'' (VDict llc), access_mle cmce_ul mm_ul llc]" for llc
    using assms by (intro leaves_Cons leaves_put leaves_access_mle leaves_Nil) auto
  then show ?thesis by (auto simp: step_leaves_def leaves_def access_llc_def split: sum.splits)
qed

lemma leaves_access_direct:
  "key \<noteq> ''direct_mm'' \<Longrightarrow> key \<noteq> ''decoded_mode'' \<Longrightarrow> step_leaves key (access_direct mm_ul)"
  by (auto simp: step_leaves_def access_direct_def Let_def split: sum.splits)

definition upper_keys :: "string set" where
  "upper_keys = {''payload_start'', ''llc'', ''mle'', ''direct_mm'', ''decoded_mode''}"

lemma leaves_layers:
  assumes "key \<notin> upper_keys - {''payload_start''}"
  shows "leaves key (tl (access_layers cmce_ul mm_ul))"
  using assms unfolding access_layers_def list.sel upper_keys_def
  by (intro leaves_Cons leaves_when_fits leaves_access_llc leaves_access_direct leaves_Nil) auto

text \<open>The first block of a long message: MAC-ACCESS with an SSI and a reservation request, its fragmentation
  flag, then what fits of the message.\<close>

definition access_start :: "bool \<Rightarrow> bool \<Rightarrow> int \<Rightarrow> bool \<Rightarrow> int \<Rightarrow> bits \<Rightarrow> bits" where
  "access_start fill enc issi frag rr payload =
     [False, fill, enc] @ to_bits 2 0 @ to_bits 24 issi @ [True, True, frag] @ to_bits 4 rr @ payload"

lemma block_end:
  "(case o' of Next s \<Rightarrow> block [] s | Return s \<Rightarrow> Return s | Raise e \<Rightarrow> Raise e) = o'"
  by (cases o') simp_all

lemma access_start_parsed:
  assumes "cmce_ul_total cmce_ul" "ext_total mm_ul" "0 \<le> issi" "issi < 2 ^ 24"
    and "b = access_start fill enc issi frag rr payload"
  shows "\<exists>d. parse_mac_access cmce_ul mm_ul (Some b) = Inr (Some d) \<and> dget d ''ssi'' = Some (VInt issi) \<and>
    dget d ''frag_flag'' = Some (VInt (of_bool frag)) \<and> dget d ''payload_start'' = Some (VInt 36)"
proof -
  let ?out = "[(''pdu_type'', VInt (of_bool (b ! 0))), (''fill_bit'', VInt (of_bool (b ! 1)))]"
  have v: "bits_val (to_bits 24 issi) = issi" "bits_val (to_bits 2 0) = 0"
    using assms by (simp_all add: bits_val_to_bits_id)
  have pos: "take 1 (drop 2 b) = [enc]" "take 2 (drop 3 b) = to_bits 2 0" "take 24 (drop 5 b) = to_bits 24 issi"
    "take 1 (drop 29 b) = [True]" "take 1 (drop 30 b) = [True]" "take 1 (drop 31 b) = [frag]"
    "36 \<le> length b" "\<not> b ! 0"
    by (simp_all add: assms(5) access_start_def)
  obtain s where s: "block (access_body cmce_ul mm_ul) \<lparr>pbits = b, ppos = 2, pdict = ?out\<rparr> =
      block (access_layers cmce_ul mm_ul) s" "pbits s = b" "ppos s = 36"
      "dget (pdict s) ''ssi'' = Some (VInt issi)" "dget (pdict s) ''frag_flag'' = Some (VInt (of_bool frag))"
      "dget (pdict s) ''decoded_mode'' = None"
    using pos by (simp add: access_body_def access_address_def access_optional_def block_append block_end stmt_simps v bits_val_Cons)
  obtain s' where s': "block (access_layers cmce_ul mm_ul) s = Next s'"
    using access_layers_next [OF assms(1,2), of s] s pos by auto
  let ?t = "s\<lparr>pdict := dset ''payload_start'' (VInt 36) (pdict s)\<rparr>"
  have t: "block (tl (access_layers cmce_ul mm_ul)) ?t = Next s'"
    using s' s(3) by (simp add: access_layers_def put_pos_def)
  have keep: "dget (pdict s') k = dget (pdict ?t) k" if "k \<notin> upper_keys - {''payload_start''}" for k
    using leaves_layers [OF that, of cmce_ul mm_ul] t unfolding leaves_def by blast
  have "parse_mac_access cmce_ul mm_ul (Some b) = Inr (Some (pdict s'))"
    using pos s(1) s' by (simp add: parse_mac_access_def run_body_def)
  then show ?thesis
    using keep [of "''ssi''"] keep [of "''frag_flag''"] keep [of "''payload_start''"] s
    by (simp add: upper_keys_def)
qed

subsection \<open>Messages come back\<close>

text \<open>What the chains see of a result: nothing, or the kind of the block (True for a fragmented MAC-ACCESS)
  with its bits.\<close>

definition seen :: "ext_cmce_ul \<Rightarrow> ext_parser \<Rightarrow> ul_result \<Rightarrow> (bool \<times> bits) option" where
  "seen cmce_ul mm_ul res =
     (if skip res \<or> \<not> crc_ok res then None
      else let var = (case variant res of None \<Rightarrow> [] | Some v \<Rightarrow> v)
        in case info_bits res of None \<Rightarrow> None
           | Some info \<Rightarrow>
               if startswith var ''schhu''
               then (case parse_mac_access cmce_ul mm_ul (Some info) of
                   Inr None \<Rightarrow> None
                 | Inr (Some d) \<Rightarrow> if dget d ''frag_flag'' = Some (VInt 1) then Some (True, info) else None
                 | Inl e \<Rightarrow> Some (True, info))
               else if startswith var ''schf'' \<and> schf_frag (Some info) \<noteq> None then Some (False, info)
               else None)"

text \<open>A long message as its blocks are received: the start, the fragments, the end if it was received, and
  stray fragments after it (only after an end: otherwise they would belong to the message).\<close>

record message =
  m_fill :: bool
  m_enc :: bool
  m_ssi :: int
  m_rr :: int
  m_first :: bits
  m_frags :: "(bool \<times> bits) list"
  m_end :: "(bits \<times> bits) option"
  m_stray :: "bits list"

definition frag_bits :: "bool \<times> bits \<Rightarrow> bits" where
  "frag_bits = (\<lambda>(fill, payload). [False, True, False, fill] @ payload)"

definition end_bits :: "bits \<times> bits \<Rightarrow> bits" where
  "end_bits = (\<lambda>(h, payload). [False, True, True] @ h @ payload)"

definition message_blocks :: "message \<Rightarrow> (bool \<times> bits) list" where
  "message_blocks m =
     (True, access_start (m_fill m) (m_enc m) (m_ssi m) True (m_rr m) (m_first m)) #
     map (\<lambda>f. (False, frag_bits f)) (m_frags m) @
     (case m_end m of None \<Rightarrow> [] | Some e \<Rightarrow> (False, end_bits e) # map (Pair False) (m_stray m))"

definition message_ok :: "message \<Rightarrow> bool" where
  "message_ok m \<longleftrightarrow> 0 \<le> m_ssi m \<and> m_ssi m < 2 ^ 24 \<and> list_all (\<lambda>f. 7 \<le> length (snd f)) (m_frags m) \<and>
     (case m_end m of None \<Rightarrow> True | Some (h, p) \<Rightarrow> length h = 7 \<and> p \<noteq> [])"

definition message_chain :: "message \<Rightarrow> chain" where
  "message_chain m = \<lparr>ch_ssi = VInt (m_ssi m),
     ch_tm = m_first m @ concat (map snd (m_frags m)) @ (case m_end m of None \<Rightarrow> [] | Some e \<Rightarrow> snd e),
     ch_nf = length (m_frags m) + (case m_end m of None \<Rightarrow> 0 | Some e \<Rightarrow> 1)\<rparr>"

text \<open>The loop over what is seen.\<close>

definition seen_step ::
  "ext_cmce_ul \<Rightarrow> ext_parser \<Rightarrow> bool \<times> bits \<Rightarrow> chain list \<times> chain option \<Rightarrow> (chain list \<times> chain option) res" where
  "seen_step cmce_ul mm_ul = (\<lambda>(start, info) st.
     if start
     then bind_res (parse_mac_access cmce_ul mm_ul (Some info)) (\<lambda>p.
       case p of None \<Rightarrow> Inr st
       | Some d \<Rightarrow>
           if dget d ''frag_flag'' = Some (VInt 1)
           then bind_res (start_chain d info) (\<lambda>c. Inr (flush_chain st, Some c)) else Inr st)
     else Inr (chain_frag st info))"

fun seen_loop ::
  "ext_cmce_ul \<Rightarrow> ext_parser \<Rightarrow> (bool \<times> bits) list \<Rightarrow> chain list \<times> chain option \<Rightarrow> (chain list \<times> chain option) res" where
  "seen_loop cmce_ul mm_ul [] st = Inr st"
| "seen_loop cmce_ul mm_ul (b # bs) st =
     bind_res (seen_step cmce_ul mm_ul b st) (seen_loop cmce_ul mm_ul bs)"

lemma bind_res_assoc: "bind_res (bind_res m f) g = bind_res m (\<lambda>x. bind_res (f x) g)"
  by (cases m) simp_all

lemma seen_loop_append:
  "seen_loop cmce_ul mm_ul (bs @ cs) st = bind_res (seen_loop cmce_ul mm_ul bs st) (seen_loop cmce_ul mm_ul cs)"
  by (induction bs arbitrary: st) (auto simp: bind_res_def split: sum.split)

lemma chain_step_seen:
  "chain_step cmce_ul mm_ul res st =
     (case seen cmce_ul mm_ul res of None \<Rightarrow> Inr st | Some b \<Rightarrow> seen_step cmce_ul mm_ul b st)"
proof (cases "skip res \<or> \<not> crc_ok res \<or> info_bits res = None")
  case True
  then show ?thesis by (auto simp: chain_step_def seen_def)
next
  case False
  then obtain info where info: "info_bits res = Some info" "\<not> skip res" "crc_ok res" by auto
  let ?var = "case variant res of None \<Rightarrow> [] | Some v \<Rightarrow> v"
  show ?thesis
  proof (cases "startswith ?var ''schhu''")
    case True
    then show ?thesis
    proof (cases "parse_mac_access cmce_ul mm_ul (Some info)")
      case (Inr p)
      then show ?thesis using info True by (cases p) (simp_all add: chain_step_def seen_def seen_step_def)
    qed (use info in \<open>simp add: chain_step_def seen_def seen_step_def\<close>)
  next
    case other: False
    show ?thesis
    proof (cases "schf_frag (Some info)")
      case None
      then have "chain_frag st info = st" by (cases st) (simp add: chain_frag_def split: option.split)
      then show ?thesis using info other None by (simp add: chain_step_def seen_def)
    next
      case (Some r)
      then show ?thesis using info other by (simp add: chain_step_def seen_def seen_step_def)
    qed
  qed
qed

lemma chain_loop_seen:
  "chain_loop cmce_ul mm_ul results st =
     bind_res (seen_loop cmce_ul mm_ul (List.map_filter (seen cmce_ul mm_ul) results) st) (\<lambda>st. Inr (flush_chain st))"
proof (induction results arbitrary: st)
  case (Cons r results)
  show ?case
  proof (cases "seen cmce_ul mm_ul r")
    case (Some b)
    then show ?thesis
      by (cases "seen_step cmce_ul mm_ul b st") (simp_all add: chain_step_seen Cons.IH)
  qed (simp add: chain_step_seen Cons.IH)
qed simp

lemma chain_frag_idle: "chain_frag (finished, None) info = (finished, None)"
  by (simp add: chain_frag_def)

lemma strays_dropped: "seen_loop cmce_ul mm_ul (map (Pair False) bs) (finished, None) = Inr (finished, None)"
  by (induction bs) (simp_all add: seen_step_def chain_frag_idle)

lemma seen_frags:
  "list_all (\<lambda>f. 7 \<le> length (snd f)) fs \<Longrightarrow>
   seen_loop cmce_ul mm_ul (map (\<lambda>f. (False, frag_bits f)) fs) (finished, Some c) =
     Inr (finished, Some (c\<lparr>ch_tm := ch_tm c @ concat (map snd fs), ch_nf := ch_nf c + length fs\<rparr>))"
  by (induction fs arbitrary: c) (auto simp: seen_step_def chain_frag_def schf_frag_def frag_bits_def Let_def)

lemma seen_end:
  assumes "length h = 7" "p \<noteq> []"
  shows "seen_step cmce_ul mm_ul (False, end_bits (h, p)) (finished, Some c) =
     Inr (finished @ [c\<lparr>ch_tm := ch_tm c @ p, ch_nf := ch_nf c + 1\<rparr>], None)"
  using assms by (simp add: seen_step_def chain_frag_def schf_frag_def end_bits_def Let_def)

lemma seen_start:
  assumes "cmce_ul_total cmce_ul" "ext_total mm_ul" "0 \<le> issi" "issi < 2 ^ 24"
  shows "seen_step cmce_ul mm_ul (True, access_start fill enc issi True rr payload) st =
    Inr (flush_chain st, Some \<lparr>ch_ssi = VInt issi, ch_tm = payload, ch_nf = 0\<rparr>)"
proof -
  let ?b = "access_start fill enc issi True rr payload"
  obtain d where "parse_mac_access cmce_ul mm_ul (Some ?b) = Inr (Some d)" "dget d ''ssi'' = Some (VInt issi)"
    "dget d ''frag_flag'' = Some (VInt 1)" "dget d ''payload_start'' = Some (VInt 36)"
    using access_start_parsed [OF assms refl, of fill enc True rr payload] by auto
  moreover have "py_slice ?b 36 (int (length ?b)) = payload"
    using py_slice_nonneg [of 36 "int (length payload)" ?b] by (simp add: access_start_def)
  ultimately show ?thesis
    by (simp add: seen_step_def start_chain_def dget_default_alt)
qed

text \<open>A state of the loop, up to what \<open>flush_chain\<close> adds.\<close>

lemma seen_message:
  assumes "cmce_ul_total cmce_ul" "ext_total mm_ul" "message_ok m"
  shows "\<exists>st'. seen_loop cmce_ul mm_ul (message_blocks m) st = Inr st' \<and>
    flush_chain st' = flush_chain st @ [message_chain m]"
proof (cases "m_end m")
  case None
  then show ?thesis
    using assms by (simp add: message_blocks_def message_ok_def message_chain_def seen_start seen_frags flush_chain_def)
next
  case (Some e)
  obtain h p where e: "e = (h, p)" by (cases e)
  show ?thesis
    using assms Some
    by (simp add: e message_blocks_def message_ok_def message_chain_def seen_start seen_frags seen_end
      seen_loop_append strays_dropped flush_chain_def)
qed

lemma seen_messages:
  assumes "cmce_ul_total cmce_ul" "ext_total mm_ul" "list_all message_ok ms"
  shows "\<exists>st'. seen_loop cmce_ul mm_ul (concat (map message_blocks ms)) st = Inr st' \<and>
    flush_chain st' = flush_chain st @ map message_chain ms"
  using assms(3)
proof (induction ms arbitrary: st)
  case (Cons m ms)
  obtain st1 where 1: "seen_loop cmce_ul mm_ul (message_blocks m) st = Inr st1"
    "flush_chain st1 = flush_chain st @ [message_chain m]"
    using seen_message [OF assms(1,2), of m st] Cons.prems by (auto simp del: split_paired_Ex)
  obtain st2 where "seen_loop cmce_ul mm_ul (concat (map message_blocks ms)) st1 = Inr st2"
    "flush_chain st2 = flush_chain st1 @ map message_chain ms"
    using Cons.IH [of st1] Cons.prems by auto
  with 1 show ?case by (simp add: seen_loop_append)
qed simp

lemma messages_rejoined:
  assumes "cmce_ul_total cmce_ul" "ext_total mm_ul" "list_all message_ok ms"
    and "List.map_filter (seen cmce_ul mm_ul) results = map (Pair False) strays @ concat (map message_blocks ms)"
  shows "sds_chains cmce_ul mm_ul results = Inr (map message_chain ms)"
proof -
  obtain st where st: "seen_loop cmce_ul mm_ul (concat (map message_blocks ms)) ([], None) = Inr st"
    "flush_chain st = map message_chain ms"
    using seen_messages [OF assms(1-3), of "([], None)"] by (auto simp: flush_chain_def)
  then show ?thesis
    by (simp add: sds_chains_def chain_loop_seen assms(4) seen_loop_append strays_dropped)
qed

text \<open>Long messages are rejoined: whatever is received between their blocks (skipped bursts, failed CRCs,
  unfragmented MAC-ACCESS blocks, other channels) and whatever fragments come before the first start or
  after an end, the chains are exactly the messages, in order, each with its SSI, all its payload and its
  number of fragments; a message whose end is lost is kept as far as it was received.\<close>

theorem ul_messages_rejoined:
  assumes "cmce_ul_total cmce_ul" "ext_total mm_ul" "list_all message_ok ms"
    and "List.map_filter (seen cmce_ul mm_ul) results = map (Pair False) strays @ concat (map message_blocks ms)"
  shows "sds_chains cmce_ul mm_ul results = Inr (map message_chain ms)"
  using assms by (rule messages_rejoined)

theorem ul_messages_rejoined_witness:
  "sds_chains None None
     [skipped_burst,
      \<lparr>skip = False, crc_ok = True, variant = Some ''schf_12+s'', info_bits = Some ([False, True, False] @ replicate 265 True),
        type5_hard = None, t5_onair = None\<rparr>,
      \<lparr>skip = False, crc_ok = True, variant = Some ''schhu_12+s'',
        info_bits = Some (access_start False False 2629608 True 4 (replicate 56 True)), type5_hard = None, t5_onair = None\<rparr>,
      \<lparr>skip = False, crc_ok = True, variant = Some ''schf_12+s'',
        info_bits = Some (end_bits (replicate 7 False, replicate 258 True)), type5_hard = None, t5_onair = None\<rparr>] =
   Inr [\<lparr>ch_ssi = VInt 2629608, ch_tm = replicate 56 True @ replicate 258 True, ch_nf = 1\<rparr>]"
proof -
  let ?m = "\<lparr>m_fill = False, m_enc = False, m_ssi = 2629608, m_rr = 4, m_first = replicate 56 True, m_frags = [],
    m_end = Some (replicate 7 False, replicate 258 True), m_stray = []\<rparr>"
  let ?a = "access_start False False 2629608 True 4 (replicate 56 True)"
  let ?r = "\<lambda>v i. \<lparr>skip = False, crc_ok = True, variant = Some v, info_bits = Some i, type5_hard = None, t5_onair = None\<rparr>"
  have ext: "cmce_ul_total None" "ext_total None" by (simp_all add: cmce_ul_total_def ext_total_def)
  obtain d where "parse_mac_access None None (Some ?a) = Inr (Some d)" "dget d ''frag_flag'' = Some (VInt 1)"
    using access_start_parsed [OF ext _ _ refl, of 2629608 False False True 4 "replicate 56 True"] by auto
  then have s1: "seen None None (?r ''schhu_12+s'' ?a) = Some (True, ?a)"
    by (simp add: seen_def startswith_def)
  have s2: "seen None None (?r ''schf_12+s'' i) = Some (False, i)" if "schf_frag (Some i) \<noteq> None" for i
    using that by (simp add: seen_def startswith_def)
  have f: "schf_frag (Some ([False, True, False] @ replicate 265 True)) \<noteq> None"
    "schf_frag (Some (end_bits (replicate 7 False, replicate 258 True))) \<noteq> None"
    by (simp_all add: schf_frag_def end_bits_def)
  have s0: "seen None None skipped_burst = None" by (simp add: seen_def skipped_burst_def)
  let ?rs = "[skipped_burst, ?r ''schf_12+s'' ([False, True, False] @ replicate 265 True), ?r ''schhu_12+s'' ?a,
    ?r ''schf_12+s'' (end_bits (replicate 7 False, replicate 258 True))]"
  have "List.map_filter (seen None None) ?rs =
      map (Pair False) [[False, True, False] @ replicate 265 True] @ concat (map message_blocks [?m])"
    using s0 s1 s2 [OF f(1)] s2 [OF f(2)] by (simp add: message_blocks_def)
  from ul_messages_rejoined [OF ext _ this] show ?thesis by (simp add: message_ok_def message_chain_def)
qed

subsection \<open>A long message over the air\<close>

definition halves :: "nat \<Rightarrow> bits \<Rightarrow> int list \<times> int list" where
  "halves h r = (map soft_of (take h r), map soft_of (drop h r))"

text \<open>\<open>res\<close> is what the search makes of a burst that carries \<open>info\<close> and was hit by up to 10 flipped bits: an SCH/HU
  block the first point of the grid samples, or an SCH/F block behind a training sequence on whose
  burst no point of the grid finds an SCH/HU block.\<close>

definition on_air :: "int \<Rightarrow> bool \<times> bits \<Rightarrow> ul_result \<Rightarrow> bool" where
  "on_air init = (\<lambda>(start, info) res. \<exists>e t5 (c :: int) grid nub.
     burst 10 e \<and> decode_one_burst init False c grid nub = Inr res \<and>
     (if start
      then length info = 92 \<and> length e = 168 \<and> encode_sch_hu info init = Inr t5 \<and>
        (\<exists>f pts rows. grid = ((f, halves 84 (xor_bits t5 e)) # pts) # rows)
      else length info = 268 \<and> length e = 432 \<and> encode_sch_f info init = Inr t5 \<and>
        nub = Some (halves 216 (xor_bits t5 e)) \<and>
        find (\<lambda>p. passes init ''schhu'' (snd p)) (concat grid) = None))"

lemma on_air_start:
  assumes "on_air init (True, info) res"
  shows "\<not> skip res" "crc_ok res" "variant res = Some ''schhu_12+s''" "info_bits res = Some info"
proof -
  obtain e t5 c grid nub f pts rows where a: "burst 10 e" "decode_one_burst init False (c :: int) grid nub = Inr res"
    "length info = 92" "length e = 168" "encode_sch_hu info init = Inr t5"
    "grid = ((f, halves 84 (xor_bits t5 e)) # pts) # rows"
    using assms unfolding on_air_def by auto
  let ?p = "(f, halves 84 (xor_bits t5 e))"
  have t: "try_channel_decode (fst (snd ?p)) (snd (snd ?p)) init ''schhu'' =
      Inr (True, Some info, Some (descramble_hard (xor_bits t5 e) init 168), Some ''schhu_12+s'')"
    using hu_burst_received [OF a(3,4,1), of 84 init] a(5) by (auto simp: Let_def halves_def)
  then have "find (\<lambda>p. passes init ''schhu'' (snd p)) (concat grid) = Some ?p"
    by (simp add: a(6) passes_def halves_def)
  then have "res = burst_result (point_result init ?p)"
    using search_result [of init c grid nub] a(2) by simp
  then show "\<not> skip res" "crc_ok res" "variant res = Some ''schhu_12+s''" "info_bits res = Some info"
    using t by (simp_all add: point_result_def burst_result_def halves_def)
qed

lemma on_air_frag:
  assumes "on_air init (False, info) res" "nonzero_seed init"
  shows "\<not> skip res" "crc_ok res" "variant res = Some ''schf_12+s''" "info_bits res = Some info"
proof -
  obtain e t5 c grid where a: "burst 10 e" "length info = 268" "length e = 432" "encode_sch_f info init = Inr t5"
    "decode_one_burst init False (c :: int) grid (Some (halves 216 (xor_bits t5 e))) = Inr res"
    "find (\<lambda>p. passes init ''schhu'' (snd p)) (concat grid) = None"
    using assms unfolding on_air_def by auto
  let ?b = "halves 216 (xor_bits t5 e)"
  have t: "try_channel_decode (fst ?b) (snd ?b) init ''schf'' =
      Inr (True, Some info, Some (descramble_hard (xor_bits t5 e) init 432), Some ''schf_12+s'')"
    using nub_burst_received [OF a(2) assms(2) a(3,1), of 216] a(4) by (auto simp: Let_def halves_def)
  then obtain f :: int where "res = burst_result ((True, Some info, Some (descramble_hard (xor_bits t5 e) init 432), Some ''schf_12+s''), f, Some ?b)"
    using search_result [of init c grid "Some ?b"] a(5,6) by (auto simp: halves_def)
  then show "\<not> skip res" "crc_ok res" "variant res = Some ''schf_12+s''" "info_bits res = Some info"
    by (simp_all add: burst_result_def)
qed

text \<open>Blocks the chains take up: a fragmented MAC-ACCESS or a fragment.\<close>

definition block_ok :: "bool \<times> bits \<Rightarrow> bool" where
  "block_ok = (\<lambda>(start, info).
     if start then (\<exists>fill enc issi rr p. 0 \<le> issi \<and> issi < 2 ^ 24 \<and> info = access_start fill enc issi True rr p)
     else schf_frag (Some info) \<noteq> None)"

lemma on_air_seen:
  assumes "cmce_ul_total cmce_ul" "ext_total mm_ul" "nonzero_seed init" "on_air init b res" "block_ok b"
  shows "seen cmce_ul mm_ul res = Some b"
proof (cases b)
  case (Pair start info)
  show ?thesis
  proof (cases start)
    case True
    have "on_air init (True, info) res" using assms(4) Pair True by simp
    note r = on_air_start [OF this]
    obtain fill enc issi rr p where i: "0 \<le> issi" "issi < 2 ^ 24" "info = access_start fill enc issi True rr p"
      using assms(5) by (auto simp: block_ok_def Pair True)
    obtain d where "parse_mac_access cmce_ul mm_ul (Some info) = Inr (Some d)" "dget d ''frag_flag'' = Some (VInt 1)"
      using access_start_parsed [OF assms(1,2) i] by auto
    then show ?thesis using r by (simp add: seen_def startswith_def Pair True)
  next
    case False
    have "on_air init (False, info) res" using assms(4) Pair False by simp
    note r = on_air_frag [OF this assms(3)]
    show ?thesis
      using assms(5) r False by (simp add: seen_def startswith_def Pair block_ok_def)
  qed
qed

lemma message_blocks_ok:
  assumes "message_ok m" "list_all (\<lambda>p. schf_frag (Some p) \<noteq> None) (m_stray m)"
  shows "list_all block_ok (message_blocks m)"
proof -
  have start: "block_ok (True, access_start (m_fill m) (m_enc m) (m_ssi m) True (m_rr m) (m_first m))"
    using assms(1) unfolding block_ok_def message_ok_def by simp blast
  have frags: "list_all block_ok (map (\<lambda>f. (False, frag_bits f)) (m_frags m))"
    using assms(1) by (auto simp: block_ok_def message_ok_def list_all_iff frag_bits_def schf_frag_def)
  have "list_all block_ok (map (Pair False) (m_stray m))"
    using assms(2) by (simp add: block_ok_def list_all_iff)
  moreover have "block_ok (False, end_bits e)" if "m_end m = Some e" for e
    using assms(1) that by (cases e) (simp add: block_ok_def message_ok_def end_bits_def schf_frag_def del: not_None_eq)
  ultimately have "list_all block_ok (case m_end m of None \<Rightarrow> [] | Some e \<Rightarrow> (False, end_bits e) # map (Pair False) (m_stray m))"
    by (simp split: option.split)
  with start frags show ?thesis by (simp add: message_blocks_def)
qed

lemma map_filter_on_air:
  assumes "cmce_ul_total cmce_ul" "ext_total mm_ul" "nonzero_seed init" "list_all block_ok bs"
    and "list_all2 (on_air init) bs results"
  shows "List.map_filter (seen cmce_ul mm_ul) results = bs"
  using assms(5,4)
  by (induction rule: list_all2_induct) (simp_all add: on_air_seen [OF assms(1-3)])

text \<open>C5. A long message crosses the air: its blocks are encoded on SCH/HU and SCH/F for any cell seed that is not
  zero, each is hit by its own burst of up to 10 flipped bits and found by the search over its burst;
  other results in between are ignored as long as the chains see nothing in them.  The chains are exactly
  the messages.\<close>

theorem long_messages_over_the_air:
  assumes "cmce_ul_total cmce_ul" "ext_total mm_ul" "nonzero_seed init"
    and "list_all message_ok ms" "list_all (\<lambda>m. list_all (\<lambda>p. schf_frag (Some p) \<noteq> None) (m_stray m)) ms"
    and "list_all2 (on_air init) (concat (map message_blocks ms)) (filter (\<lambda>res. seen cmce_ul mm_ul res \<noteq> None) results)"
  shows "sds_chains cmce_ul mm_ul results = Inr (map message_chain ms)"
proof -
  have "list_all block_ok (concat (map message_blocks ms))"
    using assms(4,5) message_blocks_ok by (fastforce simp: list_all_iff)
  then have "List.map_filter (seen cmce_ul mm_ul) (filter (\<lambda>res. seen cmce_ul mm_ul res \<noteq> None) results) =
      concat (map message_blocks ms)"
    by (rule map_filter_on_air [OF assms(1-3) _ assms(6)])
  moreover have "List.map_filter f (filter (\<lambda>x. f x \<noteq> None) xs) = List.map_filter f xs" for f :: "ul_result \<Rightarrow> (bool \<times> bits) option" and xs
    by (induction xs) (auto split: option.splits)
  ultimately show ?thesis
    using messages_rejoined [OF assms(1,2,4), of results "[]"] by simp
qed

theorem long_messages_over_the_air_witness:
  "\<exists>t5 t5' res res'. encode_sch_hu (access_start False False 2629608 True 4 (replicate 56 True)) 5 = Inr t5 \<and>
    encode_sch_f (end_bits (replicate 7 False, replicate 258 True)) 5 = Inr t5' \<and>
    decode_one_burst 5 False (0 :: int) [[(0, halves 84 t5)]] None = Inr res \<and>
    decode_one_burst 5 False (0 :: int) [] (Some (halves 216 (xor_bits t5' (replicate 10 True @ replicate 422 False)))) = Inr res' \<and>
    sds_chains None None [res, skipped_burst, res'] =
      Inr [\<lparr>ch_ssi = VInt 2629608, ch_tm = replicate 56 True @ replicate 258 True, ch_nf = 1\<rparr>]"
proof -
  let ?m = "\<lparr>m_fill = False, m_enc = False, m_ssi = 2629608, m_rr = 4, m_first = replicate 56 True, m_frags = [],
    m_end = Some (replicate 7 False, replicate 258 True), m_stray = []\<rparr>"
  let ?info = "access_start False False 2629608 True 4 (replicate 56 True)"
  let ?last = "end_bits (replicate 7 False, replicate 258 True)" and ?e = "replicate 10 True @ replicate 422 False"
  have l: "length ?info = 92" "length ?last = 268" by (simp_all add: access_start_def end_bits_def)
  obtain t5 where t5: "encode_sch_hu ?info 5 = Inr t5" "length t5 = 168"
    using sch_hu.decode_clean [OF l(1)] by blast
  have seed: "nonzero_seed 5" by (simp add: nonzero_seed_def)
  obtain t5' where t5': "encode_sch_f ?last 5 = Inr t5'" "length t5' = 432"
    using sch_f.decode_clean [OF l(2) seed] by blast
  have x: "xor_bits t5 (replicate 168 False) = t5" using t5(2) by (intro nth_equalityI) simp_all
  have b: "burst 10 (replicate 168 False)" by (simp add: burst_def)
  have b': "burst 10 ?e" "length ?e = 432" by (simp_all add: burst_def nth_append exI [of _ 0])
  obtain res where res: "decode_one_burst 5 False (0 :: int) [[(0, halves 84 t5)]] None = Inr res"
    using search_result [of 5 0 "[[(0, halves 84 t5)]]" None] by (auto split: option.splits)
  obtain res' where res': "decode_one_burst 5 False (0 :: int) [] (Some (halves 216 (xor_bits t5' ?e))) = Inr res'"
    using search_result [of 5 0 "[]" "Some (halves 216 (xor_bits t5' ?e))"] by (auto split: option.splits)
  have air: "on_air 5 (True, ?info) res"
    unfolding on_air_def prod.case
    by (intro exI [of _ "replicate 168 False"] exI [of _ t5] exI [of _ "0 :: int"] exI [of _ "[[(0, halves 84 t5)]]"]
      exI [of _ None] conjI b res) (simp add: l t5(1) x)
  have air': "on_air 5 (False, ?last) res'"
    unfolding on_air_def prod.case
    by (intro exI [of _ ?e] exI [of _ t5'] exI [of _ "0 :: int"] exI [of _ "[]"]
      exI [of _ "Some (halves 216 (xor_bits t5' ?e))"] conjI b'(1) res') (simp add: l t5'(1))
  have ext: "cmce_ul_total None" "ext_total None" by (simp_all add: cmce_ul_total_def ext_total_def)
  have ok: "message_ok ?m" by (simp add: message_ok_def)
  have blocks: "message_blocks ?m = [(True, ?info), (False, ?last)]" by (simp add: message_blocks_def)
  have bo: "block_ok (True, ?info)" "block_ok (False, ?last)" using message_blocks_ok [OF ok] by (simp_all add: blocks)
  have s: "seen None None res = Some (True, ?info)" by (rule on_air_seen [OF ext seed air bo(1)])
  have s': "seen None None res' = Some (False, ?last)" by (rule on_air_seen [OF ext seed air' bo(2)])
  have s0: "seen None None skipped_burst = None" by (simp add: seen_def skipped_burst_def)
  have "list_all2 (on_air 5) (concat (map message_blocks [?m])) (filter (\<lambda>res. seen None None res \<noteq> None) [res, skipped_burst, res'])"
    using s s' s0 air air' by (simp add: blocks del: not_None_eq)
  from long_messages_over_the_air [OF ext seed _ _ this] ok res res' t5(1) t5'(1) show ?thesis
    by (simp add: message_chain_def)
qed

subsection \<open>The text of a message\<close>

lemma bit_groups_concat:
  assumes "0 < n" "list_all (\<lambda>g. length g = n) gs" "length pad < n"
  shows "bit_groups n (concat gs @ pad) = gs"
  using assms(2)
proof (induction gs)
  case Nil
  then show ?case using assms(3) by (simp add: bit_groups.simps)
next
  case (Cons g gs)
  then show ?case using assms(1) by (simp add: bit_groups.simps [of n "g @ _"])
qed

lemma bytes_returned:
  assumes "list_all (\<lambda>v. 0 \<le> v \<and> v < 256) vs" "length pad < 8"
  shows "bits_to_bytes_ul (concat (map (to_bits 8) vs) @ pad) = vs"
  using assms by (simp add: bits_to_bytes_ul_def bit_groups_concat list_all_iff bits_val_to_bits_id map_idI)

lemma septet_rev: "length g = 7 \<Longrightarrow> septet g = bits_val (rev g)"
  by (auto simp: numeral_eq_Suc length_Suc_conv septet_def bits_val_Cons)

text \<open>Text packed into septets, least significant bit first, is printed back by \<open>_gsm7\<close>, whatever bits short of
  a septet follow; and octets are read back by \<open>_bits_to_bytes\<close>.\<close>

theorem message_text_returned:
  assumes "list_all (\<lambda>c. 32 \<le> (of_char c :: int) \<and> (of_char c :: int) < 127) text" "length pad < 7"
    and "list_all (\<lambda>v. 0 \<le> v \<and> v < 256) vs" "length pad' < 8"
  shows "gsm7 (concat (map (\<lambda>c. rev (to_bits 7 (of_char c))) text) @ pad) = text \<and>
    bits_to_bytes_ul (concat (map (to_bits 8) vs) @ pad') = vs"
proof
  have "printable (septet (rev (to_bits 7 (of_char c)))) = c" if "32 \<le> (of_char c :: int)" "(of_char c :: int) < 127" for c
    using that by (simp add: septet_rev bits_val_to_bits_id printable_def nat_of_char)
  then show "gsm7 (concat (map (\<lambda>c. rev (to_bits 7 (of_char c))) text) @ pad) = text"
    using assms(1,2) by (simp add: gsm7_def bit_groups_concat list_all_iff comp_def map_idI)
  show "bits_to_bytes_ul (concat (map (to_bits 8) vs) @ pad') = vs"
    by (rule bytes_returned [OF assms(3,4)])
qed

theorem message_text_returned_witness:
  "gsm7 (concat (map (\<lambda>c. rev (to_bits 7 (of_char c))) ''Hi'') @ [True]) = ''Hi'' \<and>
    bits_to_bytes_ul (concat (map (to_bits 8) [0x82, 0x04]) @ []) = [0x82, 0x04]"
  using message_text_returned [of "''Hi''" "[True]" "[0x82, 0x04]" "[]"] by (simp add: of_char_def)

end
