(* ===== verification/BitCursor.thy ===== *)
theory BitCursor
  imports PyBlock
begin

text \<open>
  The bit cursor of \<open>scripts/decode_pdu.py\<close> (class \<open>BitCursor\<close>) and its optional-element readers.

  Unlike the parsers of \<open>decode_dl.py\<close>, a read past the end does not return early: it yields
  \<open>None\<close>, leaves the cursor where it is, and decoding goes on.  \<open>read_bin\<close> always moves the
  cursor, by a length taken from the air, which may be larger than what is left, or negative.
  The cursor position is therefore an integer.
\<close>

record cst =
  cbits :: bits
  cpos :: int
  cout :: dict

type_synonym cstmt = "cst \<Rightarrow> cst outcome"

definition clen :: "cst \<Rightarrow> int" where
  "clen s = int (length (cbits s))"

definition cursor_read :: "nat \<Rightarrow> cst \<Rightarrow> pyval \<times> cst" where
  "cursor_read n s =
     (if clen s < cpos s + int n then (VNone, s)
      else (VInt (bits_val (py_slice (cbits s) (cpos s) (cpos s + int n))), s\<lparr>cpos := cpos s + int n\<rparr>))"

definition cursor_read_bin :: "int \<Rightarrow> cst \<Rightarrow> bits \<times> cst" where
  "cursor_read_bin n s = (py_slice (cbits s) (cpos s) (cpos s + n), s\<lparr>cpos := cpos s + n\<rparr>)"

definition cursor_peek :: "nat \<Rightarrow> cst \<Rightarrow> pyval" where
  "cursor_peek n s =
     (if clen s < cpos s + int n then VNone
      else VInt (bits_val (py_slice (cbits s) (cpos s) (cpos s + int n))))"

definition cursor_remaining :: "cst \<Rightarrow> int" where
  "cursor_remaining s = clen s - cpos s"

subsection \<open>Statements\<close>

text \<open>\<open>out[k] = cur.read(n)\<close>\<close>

definition rd :: "string \<Rightarrow> nat \<Rightarrow> cstmt" where
  "rd k n s = (let (v, s') = cursor_read n s in Next (s'\<lparr>cout := dset k v (cout s')\<rparr>))"

text \<open>\<open>v = cur.read(n)\<close>, then the rest with \<open>v\<close>\<close>

definition rdv :: "nat \<Rightarrow> (pyval \<Rightarrow> cstmt list) \<Rightarrow> cstmt" where
  "rdv n f s = (let (v, s') = cursor_read n s in block (f v) s')"

definition out_put :: "string \<Rightarrow> pyval \<Rightarrow> cstmt" where
  "out_put k v s = Next (s\<lparr>cout := dset k v (cout s)\<rparr>)"

text \<open>A nested dictionary built by its own statements, stored under a key.\<close>

definition out_sub :: "string \<Rightarrow> cstmt list \<Rightarrow> cstmt" where
  "out_sub k cs s =
     (case block cs (s\<lparr>cout := []\<rparr>) of
        Next s' \<Rightarrow> Next (s'\<lparr>cout := dset k (VDict (cout s')) (cout s)\<rparr>)
      | Return s' \<Rightarrow> Next (s'\<lparr>cout := dset k (VDict (cout s')) (cout s)\<rparr>)
      | Raise e \<Rightarrow> Raise e)"

text \<open>\<open>NAMES.get(v, '?')\<close> and \<open>f"?({v})"\<close> of a value that may be \<open>None\<close>\<close>

definition py_str :: "pyval \<Rightarrow> string" where
  "py_str v = (case v of VInt i \<Rightarrow> str_int i | _ \<Rightarrow> ''None'')"

definition py_name :: "(int \<times> string) list \<Rightarrow> string \<Rightarrow> pyval \<Rightarrow> pyval" where
  "py_name names dflt v = (case v of VInt i \<Rightarrow> name_of names dflt i | _ \<Rightarrow> VStr dflt)"

subsection \<open>Optional elements\<close>

definition read_pbit_and_value :: "bool \<Rightarrow> nat \<Rightarrow> cst \<Rightarrow> (pyval \<times> pyval) \<times> cst" where
  "read_pbit_and_value obit nbits s =
     (if \<not> obit then ((VNone, VNone), s)
      else let (p, s1) = cursor_read 1 s
        in if p = VInt 1 then (let (v, s2) = cursor_read nbits s1 in ((p, v), s2))
           else ((p, VNone), s1))"

text \<open>\<open>min(flen, 256)\<close> raises TypeError when \<open>flen\<close> is \<open>None\<close>.\<close>

definition read_type3_if_matches :: "bool \<Rightarrow> int \<Rightarrow> nat \<Rightarrow> cst \<Rightarrow> (dict option \<times> cst) res" where
  "read_type3_if_matches obit expected_id id_bits s =
     (if \<not> obit then Inr (None, s)
      else if cursor_peek 1 s \<noteq> VInt 1 then Inr (None, s)
      else case cursor_peek (1 + id_bits) s of
        VInt id_val \<Rightarrow>
          (if id_val mod 2 ^ id_bits \<noteq> expected_id then Inr (None, s)
           else let (_, s1) = cursor_read 1 s; (fid, s2) = cursor_read id_bits s1;
                    (flen, s3) = cursor_read 11 s2
             in case flen of
                  VInt n \<Rightarrow>
                    (let (data_bits, s4) = cursor_read_bin (min n 256) s3
                     in Inr (Some [(''id'', fid), (''len'', flen), (''data_bin'', VBits data_bits)], s4))
                | _ \<Rightarrow> Inl TypeError)
      | _ \<Rightarrow> Inr (None, s))"

definition read_type4_if_matches :: "bool \<Rightarrow> int \<Rightarrow> nat \<Rightarrow> cst \<Rightarrow> (dict option \<times> cst) res" where
  "read_type4_if_matches obit expected_id id_bits s =
     (if \<not> obit then Inr (None, s)
      else if cursor_peek 1 s \<noteq> VInt 1 then Inr (None, s)
      else case cursor_peek (1 + id_bits) s of
        VInt id_val \<Rightarrow>
          (if id_val mod 2 ^ id_bits \<noteq> expected_id then Inr (None, s)
           else let (_, s1) = cursor_read 1 s; (fid, s2) = cursor_read id_bits s1;
                    (flen, s3) = cursor_read 11 s2; (elems, s4) = cursor_read 6 s3
             in case flen of
                  VInt n \<Rightarrow>
                    (let (data_bits, s5) = cursor_read_bin (min (n - 6) 256) s4
                     in Inr (Some [(''id'', fid), (''len'', flen), (''num_elems'', elems),
                                   (''data_bin'', VBits data_bits)], s5))
                | _ \<Rightarrow> Inl TypeError)
      | _ \<Rightarrow> Inr (None, s))"

text \<open>\<open>p, v = read_pbit_and_value(cur, True, n, ..); out[kp] = p; if v is not None: out[k] = v\<close>\<close>

definition type2 :: "string \<Rightarrow> string \<Rightarrow> nat \<Rightarrow> cstmt" where
  "type2 kp k n s =
     (let ((p, v), s') = read_pbit_and_value True n s;
          d = dset kp p (cout s')
      in Next (s'\<lparr>cout := (if v \<noteq> VNone then dset k v d else d)\<rparr>))"

text \<open>\<open>f = read_type3_if_matches(cur, True, i); if f: out[k] = f\<close>, and the same for type 4\<close>

definition store_element :: "string \<Rightarrow> (cst \<Rightarrow> (dict option \<times> cst) res) \<Rightarrow> cstmt" where
  "store_element k f s =
     (case f s of
        Inl e \<Rightarrow> Raise e
      | Inr (None, s') \<Rightarrow> Next s'
      | Inr (Some d, s') \<Rightarrow> Next (s'\<lparr>cout := dset k (VDict d) (cout s')\<rparr>))"

definition type3 :: "string \<Rightarrow> int \<Rightarrow> cstmt" where
  "type3 k i = store_element k (read_type3_if_matches True i 4)"

definition type4 :: "string \<Rightarrow> int \<Rightarrow> cstmt" where
  "type4 k i = store_element k (read_type4_if_matches True i 4)"

text \<open>\<open>if cur.peek(1) is not None: out['trailing_mbit'] = cur.read(1)\<close>\<close>

definition trailing_mbit :: cstmt where
  "trailing_mbit s = do_when (cursor_peek 1 s \<noteq> VNone) [rd ''trailing_mbit'' 1] s"

subsection \<open>Forward and with TypeError only\<close>

definition cgood :: "cst \<Rightarrow> cst \<Rightarrow> bool" where
  "cgood s s' \<longleftrightarrow> cbits s' = cbits s \<and> cpos s \<le> cpos s'"

definition cfine :: "cst \<Rightarrow> cst outcome \<Rightarrow> bool" where
  "cfine s o' =
     (case o' of Next s' \<Rightarrow> cgood s s' | Return s' \<Rightarrow> cgood s s' | Raise e \<Rightarrow> e = TypeError)"

definition cstep :: "cstmt \<Rightarrow> bool" where
  "cstep c \<longleftrightarrow> (\<forall>s. 0 \<le> cpos s \<longrightarrow> cfine s (c s))"

definition csafe :: "cstmt list \<Rightarrow> bool" where
  "csafe cs \<longleftrightarrow> (\<forall>s. 0 \<le> cpos s \<longrightarrow> cfine s (block cs s))"

lemma cstepI: "(\<And>s. 0 \<le> cpos s \<Longrightarrow> cfine s (c s)) \<Longrightarrow> cstep c"
  by (simp add: cstep_def)

lemma csafeD: "csafe cs \<Longrightarrow> 0 \<le> cpos s \<Longrightarrow> cfine s (block cs s)"
  by (simp add: csafe_def)

lemma cgood_refl [simp]: "cgood s s"
  by (simp add: cgood_def)

lemma cfine_trans: "cgood s s' \<Longrightarrow> cfine s' o' \<Longrightarrow> cfine s o'"
  by (cases o') (auto simp: cfine_def cgood_def)

lemma csafe_Nil: "csafe []"
  by (simp add: csafe_def cfine_def)

lemma csafe_Cons: "cstep c \<Longrightarrow> csafe cs \<Longrightarrow> csafe (c # cs)"
  unfolding csafe_def
proof (intro allI impI)
  fix s :: cst assume c: "cstep c" and cs: "\<forall>s. 0 \<le> cpos s \<longrightarrow> cfine s (block cs s)" and s: "0 \<le> cpos s"
  then have f: "cfine s (c s)" by (simp add: cstep_def)
  show "cfine s (block (c # cs) s)"
  proof (cases "c s")
    case (Next s')
    then have g: "cgood s s'" using f by (simp add: cfine_def)
    then have "cfine s' (block cs s')" using cs s by (simp add: cgood_def)
    then show ?thesis using cfine_trans [OF g] Next by simp
  qed (use f in \<open>simp_all add: cfine_def\<close>)
qed

lemma cursor_read_forward: "cursor_read n s = (v, s') \<Longrightarrow> cgood s s'"
  by (auto simp: cursor_read_def cgood_def split: if_splits)

lemma cursor_read_value: "cursor_read n s = (VInt v, s') \<Longrightarrow> 0 \<le> v \<and> cpos s' = cpos s + int n"
  by (auto simp: cursor_read_def split: if_splits)

lemma cursor_read_pos: "cpos s \<le> cpos (snd (cursor_read n s))"
  by (simp add: cursor_read_def)

lemma cursor_read_bits: "cbits (snd (cursor_read n s)) = cbits s"
  by (simp add: cursor_read_def)

lemma cstep_rd: "cstep (rd k n)"
  by (rule cstepI) (auto simp: rd_def cfine_def cgood_def cursor_read_def)

lemma cstep_rdv: "(\<And>v. csafe (f v)) \<Longrightarrow> cstep (rdv n f)"
proof (rule cstepI)
  fix s :: cst assume f: "\<And>v. csafe (f v)" and s: "0 \<le> cpos s"
  obtain v s' where r: "cursor_read n s = (v, s')" by (cases "cursor_read n s")
  have g: "cgood s s'" by (rule cursor_read_forward [OF r])
  then have "cfine s' (block (f v) s')" using csafeD [OF f] s by (simp add: cgood_def)
  then show "cfine s (rdv n f s)" using cfine_trans [OF g] by (simp add: rdv_def r)
qed

lemma cstep_out_put: "cstep (out_put k v)"
  by (rule cstepI) (simp add: out_put_def cfine_def cgood_def)

lemma cstep_return: "cstep return_now"
  by (rule cstepI) (simp add: return_now_def cfine_def)

lemma cstep_do_when: "csafe cs \<Longrightarrow> cstep (do_when b cs)"
  by (rule cstepI) (auto simp: do_when_def cfine_def dest: csafeD)

lemma cstep_branch: "csafe cs \<Longrightarrow> csafe ds \<Longrightarrow> cstep (branch b cs ds)"
  by (rule cstepI) (auto simp: branch_def dest: csafeD)

lemma cstep_out_sub: "csafe cs \<Longrightarrow> cstep (out_sub k cs)"
proof (rule cstepI)
  fix s :: cst assume "csafe cs" "0 \<le> cpos s"
  then have "cfine (s\<lparr>cout := []\<rparr>) (block cs (s\<lparr>cout := []\<rparr>))" by (intro csafeD) simp_all
  then show "cfine s (out_sub k cs s)"
    by (cases "block cs (s\<lparr>cout := []\<rparr>)") (simp_all add: out_sub_def cfine_def cgood_def)
qed

lemma cstep_type2: "cstep (type2 kp k n)"
proof (rule cstepI)
  fix s :: cst
  obtain p s1 where r: "cursor_read 1 s = (p, s1)" by (cases "cursor_read 1 s")
  obtain v s2 where r2: "cursor_read n s1 = (v, s2)" by (cases "cursor_read n s1")
  show "cfine s (type2 kp k n s)"
    using cursor_read_forward [OF r] cursor_read_forward [OF r2]
    by (auto simp: type2_def read_pbit_and_value_def r [simplified] r2 cfine_def cgood_def Let_def)
qed

text \<open>A matched element header is 16 bits long and its length field is not negative, so an element can
  pull the cursor back by six bits at most and still ends ahead of its start.\<close>

lemma type3_forward:
  "0 \<le> cpos s \<Longrightarrow>
   (case read_type3_if_matches b i 4 s of Inl e \<Rightarrow> e = TypeError | Inr (d, s') \<Rightarrow> cgood s s')"
  by (auto simp: read_type3_if_matches_def cursor_read_def cursor_read_bin_def cgood_def Let_def
      split: pyval.splits)

lemma type4_forward:
  "0 \<le> cpos s \<Longrightarrow>
   (case read_type4_if_matches b i 4 s of Inl e \<Rightarrow> e = TypeError | Inr (d, s') \<Rightarrow> cgood s s')"
  using bits_val_nonneg [of "py_slice (cbits s) (5 + cpos s) (16 + cpos s)"]
  by (auto simp: read_type4_if_matches_def cursor_read_def cursor_read_bin_def cgood_def Let_def min_def
      simp del: bits_val_nonneg split: pyval.splits)

lemma cstep_store:
  assumes "\<And>s. 0 \<le> cpos s \<Longrightarrow> (case f s of Inl e \<Rightarrow> e = TypeError | Inr (d, s') \<Rightarrow> cgood s s')"
  shows "cstep (store_element k f)"
proof (rule cstepI)
  fix s :: cst assume "0 \<le> cpos s"
  from assms [OF this] show "cfine s (store_element k f s)"
    by (auto simp: store_element_def cfine_def cgood_def split: sum.splits option.splits)
qed

lemma cstep_type3: "cstep (type3 k i)"
  unfolding type3_def by (rule cstep_store) (rule type3_forward)

lemma cstep_type4: "cstep (type4 k i)"
  unfolding type4_def by (rule cstep_store) (rule type4_forward)

lemma cstep_trailing: "cstep trailing_mbit"
proof (rule cstepI)
  fix s :: cst assume s: "0 \<le> cpos s"
  have "csafe [rd ''trailing_mbit'' 1]" by (intro csafe_Cons cstep_rd csafe_Nil)
  from csafeD [OF this s] show "cfine s (trailing_mbit s)"
    by (auto simp: trailing_mbit_def do_when_def cfine_def)
qed

lemmas csafe_rules = csafe_Nil csafe_Cons cstep_rd cstep_rdv cstep_out_put cstep_return cstep_do_when
  cstep_branch cstep_out_sub cstep_type2 cstep_type3 cstep_type4 cstep_trailing

subsection \<open>Evaluation\<close>

lemma cursor_read_run:
  "0 \<le> cpos s \<Longrightarrow> cpos s + int n \<le> clen s \<Longrightarrow>
   cursor_read n s = (VInt (bits_val (take n (drop (nat (cpos s)) (cbits s)))), s\<lparr>cpos := cpos s + int n\<rparr>)"
  by (simp add: cursor_read_def py_slice_nonneg)

lemma cursor_read_none: "clen s < cpos s + int n \<Longrightarrow> cursor_read n s = (VNone, s)"
  by (simp add: cursor_read_def)

lemma cursor_peek_run:
  "0 \<le> cpos s \<Longrightarrow> cpos s + int n \<le> clen s \<Longrightarrow>
   cursor_peek n s = VInt (bits_val (take n (drop (nat (cpos s)) (cbits s))))"
  by (simp add: cursor_peek_def py_slice_nonneg)

lemma rd_run:
  "0 \<le> cpos s \<Longrightarrow> cpos s + int n \<le> clen s \<Longrightarrow>
   rd k n s = Next (s\<lparr>cpos := cpos s + int n,
     cout := dset k (VInt (bits_val (take n (drop (nat (cpos s)) (cbits s))))) (cout s)\<rparr>)"
  by (simp add: rd_def cursor_read_run)

lemma rdv_run:
  "0 \<le> cpos s \<Longrightarrow> cpos s + int n \<le> clen s \<Longrightarrow>
   rdv n f s = block (f (VInt (bits_val (take n (drop (nat (cpos s)) (cbits s)))))) (s\<lparr>cpos := cpos s + int n\<rparr>)"
  by (simp add: rdv_def cursor_read_run)

lemmas cursor_simps = rd_run rdv_run out_put_def out_sub_def do_when_def branch_def return_now_def clen_def

end
