(* ===== verification/DecodePdu.thy ===== *)
theory DecodePdu
  imports BitCursor MacParse
begin

text \<open>
  The PDU decoders of \<open>scripts/decode_pdu.py\<close> over the bit cursor: MAC-RESOURCE and MAC-ACCESS, LLC,
  MLE, the bodies of D-CONNECT, D-LOCATION-UPDATE-ACCEPT, U-ITSI-DETACH, U-LOCATION-UPDATE-DEMAND and
  U-SETUP, and \<open>decode_burst\<close>, which chains them.  Printing is left out; the dictionaries returned are
  the code's.
\<close>

subsection \<open>Names\<close>

definition PDU_ADDR_NAMES :: "(int \<times> string) list" where
  "PDU_ADDR_NAMES =
    [(0, ''NULL''), (1, ''SSI''), (2, ''EventLabel''), (3, ''USSI''), (4, ''SMI''), (5, ''SSI+Event''),
     (6, ''SSI+Usage''), (7, ''SMI+Event'')]"

definition PDU_LLC_NAMES :: "(int \<times> string) list" where
  "PDU_LLC_NAMES =
    [(0, ''BL-ADATA''), (1, ''BL-DATA''), (2, ''BL-UDATA''), (3, ''BL-ACK''), (4, ''BL-ADATA+FCS''),
     (5, ''BL-DATA+FCS''), (6, ''BL-UDATA+FCS''), (7, ''BL-ACK+FCS''), (14, ''L2SigPdu'')]"

definition PDU_MLE_DISC_NAMES :: "(int \<times> string) list" where
  "PDU_MLE_DISC_NAMES =
    [(0, ''Reserved''), (1, ''MM''), (2, ''CMCE''), (3, ''Reserved''), (4, ''SNDCP''), (5, ''MLE''),
     (6, ''TETRA-Mgmt''), (7, ''Testing'')]"

definition CMCE_PDU_TYPE_NAMES :: "(int \<times> string) list" where
  "CMCE_PDU_TYPE_NAMES =
    [(0, ''DAlert''), (1, ''DCallProceeding''), (2, ''DConnect''), (3, ''DConnectAcknowledge''),
     (4, ''DDisconnect''), (5, ''DInfo''), (6, ''DRelease''), (7, ''DSetup''), (8, ''DStatus''),
     (9, ''DTxCeased''), (10, ''DTxContinue''), (11, ''DTxGranted''), (12, ''DTxWait''),
     (13, ''DTxInterrupt''), (14, ''DCallRestore''), (15, ''DSdsData''), (16, ''DFacility''),
     (31, ''CmceFunctionNotSupported'')]"

definition MM_PDU_TYPE_NAMES :: "(int \<times> string) list" where
  "MM_PDU_TYPE_NAMES =
    [(0, ''DOtar''), (1, ''DAuthentication''), (2, ''DCkChangeDemand''), (3, ''DDisable''),
     (4, ''DEnable''), (5, ''DLocationUpdateAccept''), (6, ''DLocationUpdateCommand''),
     (7, ''DLocationUpdateReject''), (9, ''DLocationUpdateProceeding''),
     (10, ''DAttachDetachGroupIdentity''), (11, ''DAttachDetachGroupIdentityAck''), (12, ''DMmStatus''),
     (15, ''MmPduFunctionNotSupported'')]"

definition CALL_TIMEOUT_NAMES :: "(int \<times> string) list" where
  "CALL_TIMEOUT_NAMES =
    [(0, ''Infinite''), (1, ''30s''), (2, ''45s''), (3, ''60s''), (4, ''2m''), (5, ''3m''), (6, ''4m''),
     (7, ''5m''), (8, ''6m''), (9, ''8m''), (10, ''10m''), (11, ''12m''), (12, ''15m''), (13, ''20m''),
     (14, ''30m''), (15, ''Reserved'')]"

definition TRANSMISSION_GRANT_NAMES :: "(int \<times> string) list" where
  "TRANSMISSION_GRANT_NAMES =
    [(0, ''Granted''), (1, ''NotGranted''), (2, ''RequestQueued''), (3, ''GrantedToOtherUser'')]"

definition CIRCUIT_MODE_NAMES :: "(int \<times> string) list" where
  "CIRCUIT_MODE_NAMES =
    [(0, ''TchS (Speech 7.2)''), (1, ''TchS-half''), (2, ''TchS-quarter''), (3, ''Tch7.2''),
     (4, ''Tch4.8N=1''), (5, ''Tch4.8N=4''), (6, ''Tch4.8N=8''), (7, ''Tch2.4N=1'')]"

definition COMM_TYPE_NAMES :: "(int \<times> string) list" where
  "COMM_TYPE_NAMES =
    [(0, ''point-to-point''), (1, ''point-to-multipoint''), (2, ''point-to-multipoint acknowledged''),
     (3, ''broadcast'')]"

definition CMCE_TYPE3_ELEM_NAMES :: "(int \<times> string) list" where
  "CMCE_TYPE3_ELEM_NAMES =
    [(1, ''Dtmf''), (2, ''ExtSubscriberNum''), (3, ''Facility''), (4, ''PollResponseAddr''),
     (5, ''TempAddr''), (6, ''DmMsAddr''), (15, ''Proprietary'')]"

definition LOCATION_UPDATE_TYPE_NAMES :: "(int \<times> string) list" where
  "LOCATION_UPDATE_TYPE_NAMES =
    [(0, ''RoamingLocationUpdating''), (1, ''MigratingLocationUpdating''),
     (2, ''PeriodicLocationUpdating''), (3, ''ItsiAttach''), (4, ''ServiceRestorationRoaming''),
     (5, ''ServiceRestorationMigrating''), (6, ''DemandLocationUpdating''), (7, ''DisabledMsUpdating'')]"

definition ENERGY_SAVING_MODE_NAMES :: "(int \<times> string) list" where
  "ENERGY_SAVING_MODE_NAMES =
    [(0, ''StayAlive''), (1, ''Eg1''), (2, ''Eg2''), (3, ''Eg3''), (4, ''Eg4''), (5, ''Eg5''),
     (6, ''Eg6''), (7, ''Eg7'')]"

definition MM_TYPE34_ELEM_NAMES_DL :: "(int \<times> string) list" where
  "MM_TYPE34_ELEM_NAMES_DL =
    [(1, ''DefaultGroupAttachLifetime''), (2, ''NewRegisteredArea''), (3, ''SecurityDownlink''),
     (4, ''GroupReportResponse''), (5, ''GroupIdentityLocationAccept''), (6, ''DmMsAddress''),
     (7, ''GroupIdentityDownlink''), (10, ''AuthenticationDownlink''),
     (12, ''GroupIdentitySecurityRelatedInformation''), (13, ''CellTypeControl''), (15, ''Proprietary'')]"

definition RESERVATION_REQ_NAMES :: "(int \<times> string) list" where
  "RESERVATION_REQ_NAMES =
    [(0, ''NoFurtherRequirement''), (1, ''1ReservedSlot''), (2, ''2ReservedSlots''),
     (3, ''3ReservedSlots''), (4, ''4ReservedSlots''), (5, ''5ReservedSlots''), (6, ''6ReservedSlots''),
     (7, ''7ReservedSlots'')]"

definition UL_CMCE_PDU_NAMES :: "(int \<times> string) list" where
  "UL_CMCE_PDU_NAMES =
    [(0, ''UAlert''), (2, ''UConnect''), (4, ''UDisconnect''), (5, ''UInfo''), (6, ''URelease''),
     (7, ''USetup''), (8, ''UStatus''), (9, ''UTxCeased''), (10, ''UTxDemand''), (14, ''UCallRestore''),
     (15, ''USdsData''), (16, ''UFacility''), (31, ''CmceFunctionNotSupported'')]"

definition PARTY_TYPE_NAMES :: "(int \<times> string) list" where
  "PARTY_TYPE_NAMES =
    [(0, ''SNA''), (1, ''SSI''), (2, ''TSI (SSI+Ext)''), (3, ''Reserved'')]"

definition PDU_UL_MM_NAMES :: "(int \<times> string) list" where
  "PDU_UL_MM_NAMES =
    [(0, ''UAuthentication''), (1, ''UItsiDetach''), (2, ''ULocationUpdateDemand''), (3, ''UMmStatus''),
     (4, ''UCkChangeResult''), (5, ''UOtar''), (6, ''UInformationProvide''),
     (7, ''UAttachDetachGroupIdentity''), (8, ''UAttachDetachGroupIdentityAck''), (9, ''UTeiProvide''),
     (11, ''UDisableStatus''), (15, ''MmPduFunctionNotSupported'')]"

text \<open>The note of a MAC-END-HU; the arrow of the source is its UTF-8 bytes.\<close>

definition mac_end_hu_note :: string where
  "mac_end_hu_note =
     ''mac_pdu_type=1 '' @ [CHR 0xE2, CHR 0x86, CHR 0x92] @ '' MAC-END-HU (different layout)''"

subsection \<open>MAC, LLC and MLE\<close>

definition pdu_channel_allocation :: "cstmt list" where
  "pdu_channel_allocation =
     [rd ''allocation_type'' 2, rd ''timeslot_assigned'' 4, rd ''uplink_downlink_assigned'' 2,
      rd ''clch_permission'' 1, rd ''cell_change_flag'' 1, rd ''carrier_number'' 12,
      rdv 1 (\<lambda>ext.
      [out_put ''extended_carrier_flag'' ext,
       do_when (ext = VInt 1)
         [rd ''frequency_band'' 4, rd ''offset'' 2, rd ''duplex_spacing'' 3, rd ''reverse_operation'' 1],
       rdv 2 (\<lambda>mp.
       [out_put ''monitoring_pattern'' mp,
        do_when (mp = VInt 0) [rd ''frame18_monitoring_pattern'' 2]])])]"

definition pdu_address :: "pyval \<Rightarrow> cstmt" where
  "pdu_address addr_type =
     branch (addr_type = VInt 1 \<or> addr_type = VInt 3) [rd ''ssi'' 24]
     [branch (addr_type = VInt 2) [rd ''event_label'' 10]
     [branch (addr_type = VInt 4) [rd ''smi'' 48]
     [branch (addr_type = VInt 5) [rd ''ssi'' 24, rd ''event_label'' 10]
     [branch (addr_type = VInt 6) [rd ''ssi'' 24, rd ''usage_marker'' 6]
     [do_when (addr_type = VInt 7) [rd ''smi'' 48, rd ''event_label'' 10]]]]]]"

definition pdu_flags :: "cstmt list" where
  "pdu_flags =
     [rdv 1 (\<lambda>pwr.
      [out_put ''power_control_flag'' pwr,
       do_when (pwr = VInt 1) [rd ''power_control_element'' 4],
       rdv 1 (\<lambda>grant.
       [out_put ''slot_granting_flag'' grant,
        do_when (grant = VInt 1) [rd ''slot_granting'' 8],
        rdv 1 (\<lambda>alloc.
        [out_put ''channel_allocation_flag'' alloc,
         do_when (alloc = VInt 1) [out_sub ''channel_allocation'' pdu_channel_allocation]])])])]"

definition decode_mac_resource :: "cstmt list" where
  "decode_mac_resource =
     [rdv 2 (\<lambda>pdu_type.
      [out_put ''pdu_type'' pdu_type,
       do_when (pdu_type \<noteq> VInt 0)
         [out_put ''_ERROR'' (VStr (''Not MAC-RESOURCE (got pdu_type='' @ py_str pdu_type @ '')'')), return_now],
       rd ''fill_bit'' 1, rd ''position_of_grant'' 1, rd ''encryption_mode'' 2, rd ''random_access_flag'' 1,
       rd ''length_indicator'' 6,
       rdv 3 (\<lambda>addr_type.
       [out_put ''address_type'' addr_type,
        out_put ''address_type_name'' (py_name PDU_ADDR_NAMES ''?'' addr_type),
        pdu_address addr_type,
        do_when (addr_type \<noteq> VInt 0) pdu_flags])])]"

definition decode_llc :: "cstmt list" where
  "decode_llc =
     [rdv 4 (\<lambda>t.
      [out_put ''llc_type'' t,
       out_put ''llc_type_name'' (py_name PDU_LLC_NAMES (''?('' @ py_str t @ '')'') t),
       branch (t = VInt 0 \<or> t = VInt 4) [rd ''nr'' 1, rd ''ns'' 1]
       [branch (t = VInt 1 \<or> t = VInt 5) [rd ''ns'' 1]
       [do_when (t = VInt 3 \<or> t = VInt 7) [rd ''nr'' 1]]]])]"

definition decode_mle :: "cstmt list" where
  "decode_mle =
     [rdv 3 (\<lambda>d. [out_put ''discriminator'' d, out_put ''discriminator_name'' (py_name PDU_MLE_DISC_NAMES ''?'' d)])]"

subsection \<open>CMCE D-CONNECT\<close>

text \<open>The basic service information of D-CONNECT and U-SETUP.\<close>

definition basic_service :: "cstmt list" where
  "basic_service =
     [rdv 3 (\<lambda>cmt.
      [out_put ''circuit_mode_type'' cmt,
       out_put ''circuit_mode_type_name'' (py_name CIRCUIT_MODE_NAMES (''?('' @ py_str cmt @ '')'') cmt),
       rd ''encryption_flag'' 1,
       rdv 2 (\<lambda>ct.
       [out_put ''communication_type'' ct,
        out_put ''communication_type_name'' (py_name COMM_TYPE_NAMES ''?'' ct),
        branch (cmt = VInt 0) [rd ''speech_service'' 2] [rd ''slots_per_frame'' 2]])])]"

text \<open>\<open>out = {'_start': cur.pos}; out['pdu_type'] = cur.read(n)\<close>, its name, and the check of the type\<close>

definition body_start :: cstmt where
  "body_start s = Next (s\<lparr>cout := dset ''_start'' (VInt (cpos s)) (cout s)\<rparr>)"

definition typed_body :: "nat \<Rightarrow> int \<Rightarrow> string \<Rightarrow> (int \<times> string) list \<Rightarrow> cstmt list \<Rightarrow> cstmt list" where
  "typed_body n i pdu_name names cs =
     [body_start,
      rdv n (\<lambda>t.
      [out_put ''pdu_type'' t, out_put ''pdu_type_name'' (py_name names ''?'' t),
       do_when (t \<noteq> VInt i)
         [out_put ''_ERROR'' (VStr (''Not '' @ pdu_name @ '' (pdu_type='' @ py_str t @ '')'')), return_now]]
      @ cs)]"

definition decode_d_connect_body :: "cstmt list" where
  "decode_d_connect_body = typed_body 5 2 ''D-CONNECT'' CMCE_PDU_TYPE_NAMES
     [rd ''call_identifier'' 14,
      rdv 4 (\<lambda>t. [out_put ''call_time_out'' t, out_put ''call_time_out_name'' (py_name CALL_TIMEOUT_NAMES ''?'' t)]),
      rd ''hook_method_selection'' 1, rd ''simplex_duplex_selection'' 1,
      rdv 2 (\<lambda>t. [out_put ''transmission_grant'' t,
        out_put ''transmission_grant_name'' (py_name TRANSMISSION_GRANT_NAMES ''?'' t)]),
      rd ''transmission_request_permission'' 1, rd ''call_ownership'' 1,
      rdv 1 (\<lambda>obit.
      [out_put ''obit'' obit,
       do_when (obit = VInt 0) [out_put ''_no_optional_fields'' (VBool True), return_now],
       type2 ''call_priority_pbit'' ''call_priority'' 4,
       rdv 1 (\<lambda>p.
       [out_put ''basic_service_information_pbit'' p,
        do_when (p = VInt 1) [out_sub ''basic_service_information'' basic_service],
        type2 ''temporary_address_pbit'' ''temporary_address'' 24,
        type2 ''notification_indicator_pbit'' ''notification_indicator'' 6,
        type3 ''facility'' 3, type3 ''proprietary'' 15, trailing_mbit])])]"

subsection \<open>MM D-LOCATION-UPDATE-ACCEPT\<close>

text \<open>The group identity location accept element with its own structure.\<close>

definition read_gila_element :: "cst \<Rightarrow> (dict \<times> cst) res" where
  "read_gila_element s =
     (let (_, s1) = cursor_read 1 s; (gid_fid, s2) = cursor_read 4 s1; (gid_flen, s3) = cursor_read 11 s2;
          (gid_elems, s4) = cursor_read 6 s3
      in case gid_flen of
           VInt n \<Rightarrow>
             (let (data, s5) = cursor_read_bin (min (n - 6) 256) s4
              in Inr ([(''id'', gid_fid), (''len'', gid_flen), (''num_elems'', gid_elems),
                       (''data_bin'', VBits data)], s5))
         | _ \<Rightarrow> Inl TypeError)"

definition peek_id_is :: "int \<Rightarrow> cst \<Rightarrow> bool" where
  "peek_id_is i s = (case cursor_peek 5 s of VInt v \<Rightarrow> v mod 16 = i | _ \<Rightarrow> False)"

definition gila_downlink :: cstmt where
  "gila_downlink s =
     (if cursor_peek 1 s = VInt 1
      then block
        [\<lambda>s. if peek_id_is 7 s
             then (case read_gila_element s of
                 Inl e \<Rightarrow> Raise e
               | Inr (d, s') \<Rightarrow> Next (s'\<lparr>cout := dset ''group_identity_downlink'' (VDict d) (cout s')\<rparr>))
             else Next s,
         rd ''trailing_mbit'' 1] s
      else Next s)"

definition gila_parsed :: "cstmt list" where
  "gila_parsed =
     [rd ''group_identity_accept_reject'' 1, rd ''reserved'' 1,
      rdv 1 (\<lambda>obit. [out_put ''obit'' obit, do_when (obit = VInt 1) [gila_downlink]])]"

definition group_identity_location_accept :: cstmt where
  "group_identity_location_accept s =
     (if cursor_peek 1 s = VInt 1 \<and> peek_id_is 5 s
      then let (_, s1) = cursor_read 1 s
        in block
          [rdv 4 (\<lambda>fid. [rdv 11 (\<lambda>flen. [\<lambda>s.
             (case block gila_parsed (s\<lparr>cout := []\<rparr>) of
                Raise e \<Rightarrow> Raise e
              | Return s' \<Rightarrow> Next (s'\<lparr>cout := dset ''group_identity_location_accept''
                  (VDict [(''id'', fid), (''len'', flen), (''parsed'', VDict (cout s'))]) (cout s)\<rparr>)
              | Next s' \<Rightarrow> Next (s'\<lparr>cout := dset ''group_identity_location_accept''
                  (VDict [(''id'', fid), (''len'', flen), (''parsed'', VDict (cout s'))]) (cout s)\<rparr>))])])] s1
      else Next s)"

definition energy_saving :: "cstmt list" where
  "energy_saving =
     [rdv 3 (\<lambda>m. [out_put ''energy_saving_mode'' m,
        out_put ''energy_saving_mode_name'' (py_name ENERGY_SAVING_MODE_NAMES ''?'' m)]),
      rd ''frame_number'' 5, rd ''multiframe_number'' 6]"

definition decode_d_loc_upd_accept_body :: "cstmt list" where
  "decode_d_loc_upd_accept_body = typed_body 4 5 ''D-LOC-UPD-ACCEPT'' MM_PDU_TYPE_NAMES
     [rdv 3 (\<lambda>t. [out_put ''location_update_accept_type'' t,
        out_put ''location_update_accept_type_name'' (py_name LOCATION_UPDATE_TYPE_NAMES ''?'' t)]),
      rdv 1 (\<lambda>obit.
      [out_put ''obit'' obit,
       do_when (obit = VInt 0) [out_put ''_no_optional_fields'' (VBool True), return_now],
       type2 ''ssi_pbit'' ''ssi'' 24,
       type2 ''address_extension_pbit'' ''address_extension'' 24,
       type2 ''subscriber_class_pbit'' ''subscriber_class'' 16,
       rdv 1 (\<lambda>p.
       [out_put ''energy_saving_information_pbit'' p,
        do_when (p = VInt 1) [out_sub ''energy_saving_information'' energy_saving],
        type2 ''scch_info_pbit'' ''scch_information_and_distribution_on_18th_frame'' 6,
        type4 ''new_registered_area'' 2, type3 ''security_downlink'' 3,
        group_identity_location_accept,
        type3 ''default_group_attachment_lifetime'' 1, type3 ''authentication_downlink'' 10,
        type4 ''group_identity_security_related_information'' 12, type3 ''cell_type_control'' 13,
        type3 ''proprietary'' 15, trailing_mbit])])]"

subsection \<open>Uplink: MAC-ACCESS, U-ITSI-DETACH, U-LOCATION-UPDATE-DEMAND, U-SETUP\<close>

definition UL_ADDR_NAMES :: "(int \<times> string) list" where
  "UL_ADDR_NAMES = [(0, ''Ssi(ISSI)''), (1, ''EventLabel''), (2, ''Ussi''), (3, ''Smi'')]"

definition pdu_access_address :: "pyval \<Rightarrow> cstmt" where
  "pdu_access_address addr_type =
     branch (addr_type = VInt 0) [rd ''ssi'' 24]
     [branch (addr_type = VInt 1) [rd ''event_label'' 10]
     [branch (addr_type = VInt 2) [rd ''ussi'' 24]
     [do_when (addr_type = VInt 3) [rd ''smi'' 24]]]]"

definition pdu_access_optional :: "cstmt list" where
  "pdu_access_optional =
     [rdv 1 (\<lambda>flag.
      [out_put ''optional_field_flag'' flag,
       do_when (flag = VInt 1)
         [rdv 1 (\<lambda>lc.
          [out_put ''length_ind_or_cap_req'' lc,
           branch (lc = VInt 0) [rd ''length_ind'' 5]
             [rd ''frag_flag'' 1,
              rdv 4 (\<lambda>rr. [out_put ''reservation_req'' rr,
                out_put ''reservation_req_name'' (py_name RESERVATION_REQ_NAMES ''?'' rr)])]])]])]"

definition decode_mac_access :: "cstmt list" where
  "decode_mac_access =
     [rdv 1 (\<lambda>t.
      [out_put ''mac_pdu_type'' t,
       do_when (t \<noteq> VInt 0)
         [out_put ''_note'' (VStr mac_end_hu_note), return_now],
       rd ''fill_bits'' 1, rd ''encrypted'' 1,
       rdv 2 (\<lambda>addr_type.
       [out_put ''addr_type'' addr_type,
        out_put ''addr_type_name'' (py_name UL_ADDR_NAMES ''?'' addr_type),
        pdu_access_address addr_type]
       @ pdu_access_optional)])]"

definition decode_u_itsi_detach_body :: "cstmt list" where
  "decode_u_itsi_detach_body = typed_body 4 1 ''U-ITSI-DETACH'' PDU_UL_MM_NAMES
     [rdv 1 (\<lambda>obit.
      [out_put ''obit'' obit,
       do_when (obit = VInt 0) [return_now],
       type2 ''address_extension_pbit'' ''address_extension'' 24,
       type3 ''proprietary'' 15, trailing_mbit])]"

text \<open>\<open>out[k] = cur.read_bin(n)\<close>\<close>

definition rd_bin :: "string \<Rightarrow> (cst \<Rightarrow> int) \<Rightarrow> cstmt" where
  "rd_bin k n s = (let (v, s') = cursor_read_bin (n s) s in Next (s'\<lparr>cout := dset k (VBits v) (cout s')\<rparr>))"

text \<open>The energy saving mode of the demand also gets its name.\<close>

definition type2_energy :: cstmt where
  "type2_energy s =
     (let ((p, v), s') = read_pbit_and_value True 3 s;
          d = dset ''energy_saving_mode_pbit'' p (cout s')
      in Next (s'\<lparr>cout := (if v \<noteq> VNone
            then dset ''energy_saving_mode_name'' (py_name ENERGY_SAVING_MODE_NAMES ''?'' v)
                   (dset ''energy_saving_mode'' v d)
            else d)\<rparr>))"

definition decode_u_loc_upd_demand_body :: "cstmt list" where
  "decode_u_loc_upd_demand_body = typed_body 4 2 ''U-LOC-UPD-DEMAND'' PDU_UL_MM_NAMES
     [rdv 3 (\<lambda>t. [out_put ''location_update_type'' t,
        out_put ''location_update_type_name'' (py_name LOCATION_UPDATE_TYPE_NAMES ''?'' t)]),
      rd ''request_to_append_la'' 1,
      rdv 1 (\<lambda>c. [out_put ''cipher_control'' c, do_when (c = VInt 1) [rd ''ciphering_parameters'' 10]]),
      rdv 1 (\<lambda>obit.
      [out_put ''obit'' obit,
       do_when (obit = VInt 0) [return_now],
       rdv 1 (\<lambda>p.
       [out_put ''class_of_ms_pbit'' p,
        do_when (p = VInt 1) [rd_bin ''class_of_ms_raw_24b'' (\<lambda>s. 24)],
        type2_energy,
        type2 ''la_information_pbit'' ''la_information_raw_15b'' 15,
        type2 ''ssi_pbit'' ''ssi'' 24,
        type2 ''address_extension_pbit'' ''address_extension'' 24,
        \<lambda>s. do_when (0 < cursor_remaining s) [rd_bin ''_remaining_bits'' cursor_remaining] s])])]"

definition called_party :: "pyval \<Rightarrow> cstmt" where
  "called_party cpti =
     branch (cpti = VInt 0) [rd ''called_party_short_number_address'' 8]
     [branch (cpti = VInt 1) [rd ''called_party_ssi'' 24]
     [do_when (cpti = VInt 2) [rd ''called_party_ssi'' 24, rd ''called_party_extension'' 24]]]"

definition decode_u_setup_body :: "cstmt list" where
  "decode_u_setup_body = typed_body 5 7 ''U-SETUP'' UL_CMCE_PDU_NAMES
     [rd ''area_selection'' 4, rd ''hook_method_selection'' 1, rd ''simplex_duplex_selection'' 1,
      out_sub ''basic_service_information'' basic_service,
      rd ''request_to_transmit_send_data'' 1, rd ''call_priority'' 4, rd ''clir_control'' 2,
      rdv 2 (\<lambda>cpti.
      [out_put ''called_party_type_identifier'' cpti,
       out_put ''called_party_type_identifier_name'' (py_name PARTY_TYPE_NAMES ''?'' cpti),
       called_party cpti,
       rdv 1 (\<lambda>obit.
       [out_put ''obit'' obit,
        do_when (obit = VInt 0) [return_now],
        type3 ''external_subscriber_number'' 2, type3 ''facility'' 3, type3 ''dm_ms_address'' 6,
        type3 ''proprietary'' 15, trailing_mbit])])]"

subsection \<open>The whole burst\<close>

definition PDU_BODY_DECODERS :: "((string \<times> string) \<times> cstmt list) list" where
  "PDU_BODY_DECODERS =
     [((''CMCE'', ''D-CONNECT''), decode_d_connect_body),
      ((''MM'', ''D-LOC-UPD-ACCEPT''), decode_d_loc_upd_accept_body),
      ((''UL-MM'', ''U-ITSI-DETACH''), decode_u_itsi_detach_body),
      ((''UL-MM'', ''U-LOC-UPD-DEMAND''), decode_u_loc_upd_demand_body),
      ((''UL-CMCE'', ''U-SETUP''), decode_u_setup_body)]"

text \<open>One decoder call with a fresh dictionary: its dictionary and the cursor after it.\<close>

definition run_decoder :: "cstmt list \<Rightarrow> bits \<Rightarrow> int \<Rightarrow> (dict \<times> int) res" where
  "run_decoder cs bits pos =
     (case block cs \<lparr>cbits = bits, cpos = pos, cout = []\<rparr> of
        Next s \<Rightarrow> Inr (cout s, cpos s)
      | Return s \<Rightarrow> Inr (cout s, cpos s)
      | Raise e \<Rightarrow> Inl e)"

text \<open>Hexadecimal digits to bits (no digits give the one bit of \<open>bin(0)\<close>); a string with any other character is a ValueError (Python's \<open>int\<close>
  would also take underscores, blanks and a sign).\<close>

definition hex_val :: "char \<Rightarrow> int option" where
  "hex_val c = (let n = of_char c :: int
     in if 48 \<le> n \<and> n \<le> 57 then Some (n - 48) else if 97 \<le> n \<and> n \<le> 102 then Some (n - 87)
        else if 65 \<le> n \<and> n \<le> 70 then Some (n - 55) else None)"

fun hex_value :: "int \<Rightarrow> string \<Rightarrow> int option" where
  "hex_value v [] = Some v"
| "hex_value v (c # cs) = (case hex_val c of None \<Rightarrow> None | Some d \<Rightarrow> hex_value (v * 16 + d) cs)"

definition strip_0x :: "string \<Rightarrow> string" where
  "strip_0x s = (if take 2 s = ''0x'' \<or> take 2 s = ''0X'' then drop 2 s else s)"

definition hex_to_bits :: "string \<Rightarrow> nat option \<Rightarrow> bits res" where
  "hex_to_bits hex_str nbits =
     (let h = strip_0x hex_str; total_bits = length h * 4
      in case hex_value 0 h of
           None \<Rightarrow> Inl ValueError
         | Some v \<Rightarrow>
             (let bs = (if total_bits = 0 then [False] else to_bits total_bits v)
              in case nbits of
                   None \<Rightarrow> Inr bs
                 | Some n \<Rightarrow> Inr (take n (bs @ replicate (n - length bs) False))))"

definition decode_burst :: "string \<Rightarrow> string \<times> string \<Rightarrow> dict res" where
  "decode_burst info expected_pdu =
     (let nbits_default = (if fst expected_pdu = ''UL-MM'' then 92 else 268);
          is_ul = (fst expected_pdu = ''UL-MM'' \<or> fst expected_pdu = ''UL-CMCE'')
      in bind_res (if list_all (\<lambda>c. c = CHR ''0'' \<or> c = CHR ''1'') info
                   then Inr (map (\<lambda>c. c = CHR ''1'') info) else hex_to_bits info (Some nbits_default)) (\<lambda>bits.
         bind_res (run_decoder (if is_ul then decode_mac_access else decode_mac_resource) bits 0) (\<lambda>(mac, p1).
         bind_res (run_decoder decode_llc bits p1) (\<lambda>(llc, p2).
         bind_res (run_decoder decode_mle bits p2) (\<lambda>(mle, p3).
           case map_of PDU_BODY_DECODERS expected_pdu of
             None \<Rightarrow> Inr [(''mac'', VDict mac), (''llc'', VDict llc), (''mle'', VDict mle)]
           | Some cs \<Rightarrow>
               bind_res (run_decoder cs bits p3) (\<lambda>(body, p4).
                 Inr [(''mac'', VDict mac), (''llc'', VDict llc), (''mle'', VDict mle),
                      (''body'', VDict body), (''final_pos'', VInt p4)]))))))"

subsection \<open>The interface of a cursor decoder\<close>

text \<open>Every decoder called on a cursor inside or past the bits either returns with the cursor no further
  back, or raises TypeError; the bits are never changed.\<close>

locale cursor_decoder =
  fixes dec :: "cstmt list"
  assumes forward: "csafe dec"
begin

lemma run_forward:
  assumes "0 \<le> pos"
  shows "run_decoder dec bits pos = Inl TypeError \<or>
    (\<exists>d p. run_decoder dec bits pos = Inr (d, p) \<and> pos \<le> p)"
proof -
  let ?s = "\<lparr>cbits = bits, cpos = pos, cout = []\<rparr>"
  have "cfine ?s (block dec ?s)" using csafeD [OF forward, of ?s] assms by simp
  then show ?thesis
    by (cases "block dec ?s") (auto simp: run_decoder_def cfine_def cgood_def)
qed

lemma only_type_error: "0 \<le> pos \<Longrightarrow> run_decoder dec bits pos = Inl e \<Longrightarrow> e = TypeError"
  using run_forward [of pos bits] by auto

end

lemma cstep_body_start: "cstep body_start"
  by (rule cstepI) (simp add: body_start_def cfine_def cgood_def)

lemma csafe_typed_body: "csafe cs \<Longrightarrow> csafe (typed_body n i nm names cs)"
  unfolding typed_body_def append_Cons append_Nil
  by (intro csafe_rules cstep_body_start) assumption

lemma read_gila_forward:
  "0 \<le> cpos s \<Longrightarrow> (case read_gila_element s of Inl e \<Rightarrow> e = TypeError | Inr (d, s') \<Rightarrow> cgood s s')"
  using bits_val_nonneg [of "py_slice (cbits s) (5 + cpos s) (16 + cpos s)"]
  by (auto simp: read_gila_element_def cursor_read_def cursor_read_bin_def cgood_def Let_def min_def
      simp del: bits_val_nonneg split: pyval.splits)

lemma cstep_gila_downlink: "cstep gila_downlink"
proof (rule cstepI)
  fix s :: cst assume s: "0 \<le> cpos s"
  have step: "cstep (\<lambda>s. if peek_id_is 7 s
             then (case read_gila_element s of
                 Inl e \<Rightarrow> Raise e
               | Inr (d, s') \<Rightarrow> Next (s'\<lparr>cout := dset ''group_identity_downlink'' (VDict d) (cout s')\<rparr>))
             else Next s)"
  proof (rule cstepI)
    fix s :: cst assume s: "0 \<le> cpos s"
    show "cfine s (if peek_id_is 7 s
             then (case read_gila_element s of
                 Inl e \<Rightarrow> Raise e
               | Inr (d, s') \<Rightarrow> Next (s'\<lparr>cout := dset ''group_identity_downlink'' (VDict d) (cout s')\<rparr>))
             else Next s)"
      using s read_gila_forward [OF s] by (auto simp: cfine_def cgood_def split: sum.splits)
  qed
  show "cfine s (gila_downlink s)"
    using csafeD [OF csafe_Cons [OF step csafe_Cons [OF cstep_rd csafe_Nil]] s]
    by (auto simp: gila_downlink_def cfine_def cgood_def)
qed

lemma csafe_gila: "csafe gila_parsed"
  unfolding gila_parsed_def by (intro csafe_rules cstep_gila_downlink)

lemma cstep_gila: "cstep group_identity_location_accept"
proof (rule cstepI)
  fix s :: cst assume s: "0 \<le> cpos s"
  obtain v s1 where r: "cursor_read 1 s = (v, s1)" by (cases "cursor_read 1 s")
  have g: "cgood s s1" by (rule cursor_read_forward [OF r])
  have inner: "cstep (\<lambda>s. (case block gila_parsed (s\<lparr>cout := []\<rparr>) of
                Raise e \<Rightarrow> Raise e
              | Return s' \<Rightarrow> Next (s'\<lparr>cout := dset ''group_identity_location_accept''
                  (VDict [(''id'', fid), (''len'', flen), (''parsed'', VDict (cout s'))]) (cout s)\<rparr>)
              | Next s' \<Rightarrow> Next (s'\<lparr>cout := dset ''group_identity_location_accept''
                  (VDict [(''id'', fid), (''len'', flen), (''parsed'', VDict (cout s'))]) (cout s)\<rparr>)))" for fid flen
  proof (rule cstepI)
    fix s :: cst assume "0 \<le> cpos s"
    then have "cfine (s\<lparr>cout := []\<rparr>) (block gila_parsed (s\<lparr>cout := []\<rparr>))"
      by (intro csafeD [OF csafe_gila]) simp
    then show "cfine s (case block gila_parsed (s\<lparr>cout := []\<rparr>) of
                Raise e \<Rightarrow> Raise e
              | Return s' \<Rightarrow> Next (s'\<lparr>cout := dset ''group_identity_location_accept''
                  (VDict [(''id'', fid), (''len'', flen), (''parsed'', VDict (cout s'))]) (cout s)\<rparr>)
              | Next s' \<Rightarrow> Next (s'\<lparr>cout := dset ''group_identity_location_accept''
                  (VDict [(''id'', fid), (''len'', flen), (''parsed'', VDict (cout s'))]) (cout s)\<rparr>))"
      by (cases "block gila_parsed (s\<lparr>cout := []\<rparr>)") (simp_all add: cfine_def cgood_def)
  qed
  have "0 \<le> cpos s1" using g s by (simp add: cgood_def)
  from csafeD [OF csafe_Cons [OF cstep_rdv [OF csafe_Cons [OF cstep_rdv [OF csafe_Cons [OF inner csafe_Nil]] csafe_Nil]]
      csafe_Nil] this]
  show "cfine s (group_identity_location_accept s)"
    using cfine_trans [OF g] by (simp add: group_identity_location_accept_def r [simplified] cfine_def)
qed

lemma cstep_type2_energy: "cstep type2_energy"
proof (rule cstepI)
  fix s :: cst
  obtain p s1 where r: "cursor_read 1 s = (p, s1)" by (cases "cursor_read 1 s")
  obtain v s2 where r2: "cursor_read 3 s1 = (v, s2)" by (cases "cursor_read 3 s1")
  show "cfine s (type2_energy s)"
    using cursor_read_forward [OF r] cursor_read_forward [OF r2]
    by (auto simp: type2_energy_def read_pbit_and_value_def r [simplified] r2 cfine_def cgood_def Let_def)
qed

lemma cstep_rd_bin_24: "cstep (rd_bin k (\<lambda>s. 24))"
  by (rule cstepI) (simp add: rd_bin_def cursor_read_bin_def cfine_def cgood_def)

lemma cstep_remaining: "cstep (\<lambda>s. do_when (0 < cursor_remaining s) [rd_bin k cursor_remaining] s)"
  by (rule cstepI) (simp add: do_when_def rd_bin_def cursor_read_bin_def cfine_def cgood_def)

lemma csafe_channel_allocation: "csafe pdu_channel_allocation"
  unfolding pdu_channel_allocation_def by (intro csafe_rules)

lemma csafe_flags: "csafe pdu_flags"
  unfolding pdu_flags_def by (intro csafe_rules csafe_channel_allocation)

lemma csafe_basic_service: "csafe basic_service"
  unfolding basic_service_def by (intro csafe_rules)

lemma csafe_energy_saving: "csafe energy_saving"
  unfolding energy_saving_def by (intro csafe_rules)

lemma cstep_addresses: "cstep (pdu_address t)" "cstep (pdu_access_address t)" "cstep (called_party t)"
  unfolding pdu_address_def pdu_access_address_def called_party_def by (intro csafe_rules)+

lemmas pdu_rules = csafe_rules csafe_typed_body csafe_flags csafe_basic_service csafe_energy_saving
  cstep_addresses cstep_gila cstep_type2_energy cstep_rd_bin_24 cstep_remaining

interpretation mac_res: cursor_decoder decode_mac_resource
  by unfold_locales (unfold decode_mac_resource_def, intro pdu_rules)

interpretation mac_acc: cursor_decoder decode_mac_access
  by unfold_locales (unfold decode_mac_access_def pdu_access_optional_def append_Cons append_Nil, intro pdu_rules)

interpretation llc_dec: cursor_decoder decode_llc
  by unfold_locales (unfold decode_llc_def, intro pdu_rules)

interpretation mle_dec: cursor_decoder decode_mle
  by unfold_locales (unfold decode_mle_def, intro pdu_rules)

interpretation d_connect: cursor_decoder decode_d_connect_body
  by unfold_locales (unfold decode_d_connect_body_def, intro pdu_rules)

interpretation d_loc_upd: cursor_decoder decode_d_loc_upd_accept_body
  by unfold_locales (unfold decode_d_loc_upd_accept_body_def, intro pdu_rules)

interpretation itsi_detach: cursor_decoder decode_u_itsi_detach_body
  by unfold_locales (unfold decode_u_itsi_detach_body_def, intro pdu_rules)

interpretation u_loc_upd: cursor_decoder decode_u_loc_upd_demand_body
  by unfold_locales (unfold decode_u_loc_upd_demand_body_def, intro pdu_rules)

interpretation u_setup: cursor_decoder decode_u_setup_body
  by unfold_locales (unfold decode_u_setup_body_def, intro pdu_rules)

end
