(* ===== verification/UlRecords.thy ===== *)
theory UlRecords
  imports UlVectors UlChains DecodePdu
begin

unbundle bit_operations_syntax

text \<open>
  Records of uplink blocks exchanged with the RTL: the fields of MAC-ACCESS packed into words for its parser's test bench
  (\<open>scripts/gen_ul_mac_exp.py\<close>, which reads the records of \<open>gen_ul_demod_tv.py\<close>), the blocks of a long message for the
  reassembly's test bench (\<open>scripts/gen_schf_reass_tv.py\<close>), and the registers of the board's monitor
  (\<open>scripts/decode_ul_raw.py\<close>).  Reading and writing files and printing are left out.
\<close>

subsection \<open>Words of MAC-ACCESS fields\<close>

definition record_bits :: "int list \<Rightarrow> bits" where
  "record_bits info_bytes = take 92 (concat (map (\<lambda>byte. map (\<lambda>k. drop_bit (7 - k) byte AND 1 = 1) [0..<8]) info_bytes))"

definition get_field :: "dict \<Rightarrow> string \<Rightarrow> int res" where
  "get_field parsed k = (case dget_default parsed k (VInt 0) of VInt v \<Rightarrow> Inr v | _ \<Rightarrow> Inl TypeError)"

definition mac_exp_word :: "dict \<Rightarrow> int res" where
  "mac_exp_word parsed =
     bind_res (get_field parsed ''pdu_type'') (\<lambda>pdu_type.
     bind_res (get_field parsed ''fill_bit'') (\<lambda>fill_bit.
     bind_res (get_field parsed ''encryption_mode'') (\<lambda>encryption_mode.
     bind_res (get_field parsed ''access_ack'') (\<lambda>access_ack.
     bind_res (get_field parsed ''addr_type'') (\<lambda>addr_type.
     bind_res (get_field parsed ''short_ssi_or_event_label'') (\<lambda>short_ssi.
       let val = 0;
           val = val OR push_bit 30 (pdu_type AND 0x3);
           val = val OR push_bit 29 (fill_bit AND 0x1);
           val = val OR push_bit 27 (encryption_mode AND 0x3);
           val = val OR push_bit 26 (access_ack AND 0x1);
           val = val OR push_bit 23 (addr_type AND 0x7);
           val = val OR push_bit 13 (short_ssi AND 0x3FF)
       in Inr val))))))"

definition mac_exp_record :: "ext_cmce_ul \<Rightarrow> ext_parser \<Rightarrow> int list \<Rightarrow> int res" where
  "mac_exp_record cmce_ul mm_ul rec13 =
     (let crc_flag = rec13 ! 0 AND 1
      in if crc_flag = 0 then Inr 0
         else bind_res (parse_mac_access cmce_ul mm_ul (Some (record_bits (drop 1 rec13))))
           (\<lambda>parsed. case parsed of None \<Rightarrow> Inr 0 | Some d \<Rightarrow> mac_exp_word d))"

definition mac_exp :: "ext_cmce_ul \<Rightarrow> ext_parser \<Rightarrow> int list \<Rightarrow> int list res" where
  "mac_exp cmce_ul mm_ul bytes_flat =
     (let n_rec = length bytes_flat div 13
      in all_res (map (\<lambda>r. mac_exp_record cmce_ul mm_ul (take 13 (drop (r * 13) bytes_flat))) [0..<n_rec]))"

subsection \<open>Blocks of a long message\<close>

definition INFO_BLOCK :: nat where "INFO_BLOCK = 268"

definition info_block :: "bits \<Rightarrow> bool \<Rightarrow> int \<Rightarrow> int \<Rightarrow> bits res" where
  "info_block payload is_end fill li =
     (let header = [False, True, is_end, fill AND 1 = 1] @ (if is_end then to_bits 6 li else []);
          start = (if is_end then 10 else 4)
      in if INFO_BLOCK < start + length payload then Inl IndexError
         else assert_res (start + length payload = INFO_BLOCK) (Inr (header @ payload)))"

definition reass_blocks :: "bits list \<Rightarrow> bits \<Rightarrow> bits list res" where
  "reass_blocks payloads end_payload =
     all_res (map (\<lambda>(f, payload). info_block payload False (int f AND 1) 0) (enumerate 0 payloads)
       @ [info_block end_payload True 1 33])"

definition reass_body :: "bits \<Rightarrow> bits list \<Rightarrow> bits \<Rightarrow> bits" where
  "reass_body frag1 payloads end_payload = frag1 @ concat payloads @ end_payload"

subsection \<open>Registers of the monitor\<close>

definition lower_hex :: "char \<Rightarrow> char" where
  "lower_hex c = (let n = of_char c :: nat in if 65 \<le> n \<and> n \<le> 90 then char_of (n + 32) else c)"

text \<open>\<open>int(s, 16)\<close> on digits, with a prefix.\<close>

definition int16_of :: "string \<Rightarrow> int res" where
  "int16_of s = (let h = strip_0x s in if h = [] then Inl ValueError
     else case hex_value 0 h of None \<Rightarrow> Inl ValueError | Some v \<Rightarrow> Inr v)"

definition parse_hex_args :: "string list \<Rightarrow> int list res" where
  "parse_hex_args args =
     (let tok = map (filter (\<lambda>c. c \<noteq> CHR '' '' \<and> c \<noteq> CHR '','' \<and> c \<noteq> CHR ''_'')) args;
          joined = map lower_hex (concat tok);
          joined = dropWhile (\<lambda>c. c = CHR ''0'' \<or> c = CHR ''x'') joined
      in if length joined = 23
         then bind_res (int16_of (take 7 joined)) (\<lambda>r2. bind_res (int16_of (take 8 (drop 7 joined))) (\<lambda>r1.
           bind_res (int16_of (take 8 (drop 15 joined))) (\<lambda>r0. Inr [r2, r1, r0])))
         else if length tok = 3
         then bind_res (int16_of (tok ! 0)) (\<lambda>a. bind_res (int16_of (tok ! 1)) (\<lambda>b. bind_res (int16_of (tok ! 2)) (\<lambda>c. Inr [a, b, c])))
         else Inl ValueError)"

definition raw_to_bits :: "int \<Rightarrow> int \<Rightarrow> int \<Rightarrow> bits" where
  "raw_to_bits r2 r1 r0 =
     (let bs = replicate 92 False;
          bs = fold (\<lambda>i bs. (bs[i := drop_bit i r0 AND 1 = 1])[32 + i := drop_bit i r1 AND 1 = 1]) [0..<32] bs
      in fold (\<lambda>i bs. bs[64 + i := drop_bit i r2 AND 1 = 1]) [0..<28] bs)"

fun field_loop :: "bits \<Rightarrow> nat \<Rightarrow> nat \<Rightarrow> int \<Rightarrow> int res" where
  "field_loop bs start 0 v = Inr v"
| "field_loop bs start (Suc n) v =
     (if start < length bs then field_loop bs (start + 1) n (push_bit 1 v OR of_bool (bs ! start)) else Inl IndexError)"

definition raw_field :: "bits \<Rightarrow> nat \<Rightarrow> nat \<Rightarrow> int res" where
  "raw_field bs start n = field_loop bs start n 0"

definition ADDR_WIDTH :: "int \<Rightarrow> nat" where
  "ADDR_WIDTH addr_type = (case map_of [(0 :: int, 0 :: nat), (1, 24), (2, 10), (3, 24), (4, 48), (5, 34), (6, 30), (7, 58)] addr_type of
     None \<Rightarrow> 10 | Some w \<Rightarrow> w)"

fun raw_fields :: "bits \<Rightarrow> (nat \<times> nat) list \<Rightarrow> int list res" where
  "raw_fields bs [] = Inr []"
| "raw_fields bs ((start, n) # fs) = bind_res (raw_field bs start n) (\<lambda>v. bind_res (raw_fields bs fs) (\<lambda>vs. Inr (v # vs)))"

text \<open>The header, then the five hypotheses on what follows the address (A to E), each the values it prints in order.\<close>

definition raw_layouts :: "nat \<Rightarrow> (nat \<times> nat) list list" where
  "raw_layouts pos =
     [[(pos, 3), (pos + 3, 4), (pos + 7, 3)],
      [(pos, 6), (pos + 6, 3), (pos + 9, 4), (pos + 13, 3)],
      [(pos, 4), (pos + 4, 1), (pos + 5, 1), (pos + 6, 3), (pos + 9, 4), (pos + 13, 3)],
      [(pos, 6), (pos + 6, 4), (pos + 10, 3)],
      [(pos, 4), (pos + 4, 4), (pos + 8, 3)]]"

definition raw_parse :: "int \<Rightarrow> int \<Rightarrow> int \<Rightarrow> (int list \<times> int list list) res" where
  "raw_parse r2 r1 r0 =
     (let bs = raw_to_bits r2 r1 r0
      in bind_res (raw_fields bs [(0, 2), (2, 1), (3, 2), (5, 1), (6, 3)]) (\<lambda>hdr.
         let addr_w = ADDR_WIDTH (last hdr)
         in bind_res (raw_field bs 9 addr_w) (\<lambda>addr_val.
            bind_res (all_res (map (raw_fields bs) (raw_layouts (9 + addr_w)))) (\<lambda>hyps.
              Inr (hdr @ [addr_val], hyps)))))"

subsection \<open>Reading the records\<close>

lemma bit_and_1: "drop_bit n v AND 1 = 1 \<longleftrightarrow> bit v n" for v :: int
  by (simp add: and_one_eq bit_iff_odd_drop_bit odd_iff_mod_2_eq_one)

lemma byte_bits: "map (\<lambda>k. drop_bit (7 - k) byte AND 1 = 1) [0..<8] = to_bits 8 byte"
  by (rule nth_equalityI) (simp_all add: bit_and_1 nth_to_bits)

text \<open>The bytes of an expected record spell its bits, padded by four zeros.\<close>

lemma record_byte:
  "foldl (\<lambda>byte k. push_bit 1 byte OR (if f k then of_bool (g k) else 0)) v ks =
   bits_acc v (map (\<lambda>k. f k \<and> g k) ks)"
proof (induction ks arbitrary: v)
  case (Cons k ks)
  have "push_bit 1 v OR (if f k then of_bool (g k) else 0) = 2 * v + of_bool (f k \<and> g k)"
    using push_or_bit [of v "f k \<and> g k"] by auto
  then show ?case using Cons by simp
qed simp

lemma concat_eights:
  "8 * m \<le> length xs \<Longrightarrow> concat (map (\<lambda>n. map (\<lambda>k. xs ! (8 * n + k)) [0..<8]) [0..<m]) = take (8 * m) xs"
proof (induction m)
  case (Suc m)
  have "map (\<lambda>k. xs ! (8 * m + k)) [0..<8] = take 8 (drop (8 * m) xs)"
    using Suc.prems by (intro nth_equalityI) simp_all
  moreover have "take (8 * Suc m) xs = take (8 * m) xs @ take 8 (drop (8 * m) xs)" by (simp add: add.commute flip: take_add)
  ultimately show ?case using Suc by simp
qed simp

lemma drop_1_Cons: "drop 1 (x # xs) = xs"
  by simp

lemma record_roundtrip:
  assumes "length info = 92"
  shows "record_bits (drop 1 (expected_record info)) = info" "length (expected_record info) = 13" "expected_record info ! 0 = 1"
proof -
  let ?xs = "info @ replicate 4 False"
  have byte: "foldl (\<lambda>byte k. push_bit 1 byte OR (if 8 * n + k < INFO_HU then of_bool (info ! (8 * n + k)) else 0)) 0 [0..<8] =
      bits_val (map (\<lambda>k. ?xs ! (8 * n + k)) [0..<8])" if "n < 12" for n
  proof -
    have "map (\<lambda>k. 8 * n + k < INFO_HU \<and> info ! (8 * n + k)) [0..<8] = map (\<lambda>k. ?xs ! (8 * n + k)) [0..<8]"
      using assms that by (intro map_cong refl) (auto simp: nth_append INFO_HU_def)
    then show ?thesis unfolding record_byte by (simp only: bits_val_def)
  qed
  have bits: "to_bits 8 (bits_val (map (\<lambda>k. ?xs ! (8 * n + k)) [0..<8])) = map (\<lambda>k. ?xs ! (8 * n + k)) [0..<8]" for n
    using to_bits_bits_val [of "map (\<lambda>k. ?xs ! (8 * n + k)) [0..<8]"] by simp
  have "drop 1 (expected_record info) = map (\<lambda>n. bits_val (map (\<lambda>k. ?xs ! (8 * n + k)) [0..<8])) [0..<12]"
    unfolding expected_record_def drop_1_Cons by (rule map_cong [OF refl]) (rule byte, simp)
  then have "map (\<lambda>byte. map (\<lambda>k. drop_bit (7 - k) byte AND 1 = 1) [0..<8]) (drop 1 (expected_record info)) =
      map (\<lambda>n. map (\<lambda>k. ?xs ! (8 * n + k)) [0..<8]) [0..<12]"
    unfolding byte_bits by (simp only: list.map_comp comp_def bits)
  then show "record_bits (drop 1 (expected_record info)) = info"
    unfolding record_bits_def using concat_eights [of 12 ?xs] assms by (simp del: upt_Suc)
qed (simp_all add: expected_record_def)

text \<open>The fields the packing reads: of those that \<open>parse_mac_access\<close> sets, only three.\<close>

lemma leaves_after_address:
  assumes "key \<notin> {''event_label'', ''ssi'', ''optional_field_flag'', ''length_ind'', ''frag_flag'', ''reservation_req''} \<union> upper_keys"
  shows "leaves key (access_address a # access_optional @ access_layers cmce_ul mm_ul)"
proof -
  have l: "leaves key (access_layers cmce_ul mm_ul)"
    using assms leaves_layers [of key cmce_ul mm_ul] unfolding access_layers_def list.sel upper_keys_def
    by (intro leaves_Cons [OF leaves_put_pos]) auto
  show ?thesis
    using assms unfolding access_optional_def access_address_def append_Cons append_Nil
    by (intro leaves_rules l) auto
qed

definition access_keys :: "string set" where
  "access_keys = {''event_label'', ''ssi'', ''optional_field_flag'', ''length_ind'', ''frag_flag'', ''reservation_req''} \<union> upper_keys"

lemma run_body_keeps:
  assumes "block cs \<lparr>pbits = b, ppos = p, pdict = out\<rparr> = block ds s" "leaves key ds" "fst_res (run_body cs b p out) = Inr d"
  shows "dget d key = dget (pdict s) key"
  using assms unfolding leaves_def by (cases "block ds s") (auto simp: run_body_def)

lemma access_body_keeps:
  assumes "cmce_ul_total cmce_ul" "ext_total mm_ul" "29 \<le> length b" "dget out ''decoded_mode'' = None"
  obtains d where "fst_res (run_body (access_body cmce_ul mm_ul) b 2 out) = Inr d"
    "\<And>key. key \<notin> access_keys \<Longrightarrow> dget d key =
      dget (dset ''addr_type_name'' (name_or_unknown ADDR_TYPE_NAMES (bits_val (take 2 (drop 3 b))))
        (dset ''addr_type'' (VInt (bits_val (take 2 (drop 3 b))))
          (dset ''encrypted'' (VInt (bits_val (take 1 (drop 2 b)))) out))) key"
proof -
  have l: "20 \<le> length b" "5 + access_addr_bits b \<le> length b" using assms(3) by (simp_all add: access_addr_bits_def)
  obtain d where d: "fst_res (run_body (access_body cmce_ul mm_ul) b 2 out) = Inr d"
    using access_body_result [OF assms(1,2) l(1) assms(4)] l(2) by auto
  show thesis
  proof (rule that [OF d])
    fix key assume "key \<notin> access_keys"
    then show "dget d key = dget (dset ''addr_type_name'' (name_or_unknown ADDR_TYPE_NAMES (bits_val (take 2 (drop 3 b))))
        (dset ''addr_type'' (VInt (bits_val (take 2 (drop 3 b))))
          (dset ''encrypted'' (VInt (bits_val (take 1 (drop 2 b)))) out))) key"
      using run_body_keeps [OF access_body_run [OF l(1)] leaves_after_address d] by (simp add: access_keys_def)
  qed
qed

lemma access_fields:
  assumes "cmce_ul_total cmce_ul" "ext_total mm_ul" "29 \<le> length b"
  shows "\<exists>d. parse_mac_access cmce_ul mm_ul (Some b) = Inr (Some d) \<and>
    get_field d ''pdu_type'' = Inr (of_bool (b ! 0)) \<and> get_field d ''fill_bit'' = Inr (of_bool (b ! 1)) \<and>
    get_field d ''addr_type'' = Inr (if b ! 0 then 0 else bits_val (take 2 (drop 3 b))) \<and>
    get_field d ''encryption_mode'' = Inr 0 \<and> get_field d ''access_ack'' = Inr 0 \<and> get_field d ''short_ssi_or_event_label'' = Inr 0"
proof (cases "b ! 0")
  case True
  then show ?thesis
    using assms(3) by (simp add: parse_mac_access_def Let_def extract_bits_ok get_field_def dget_default_def)
next
  case False
  define out where "out = [(''pdu_type'', VInt (of_bool (b ! 0))), (''fill_bit'', VInt (of_bool (b ! 1)))]"
  have o: "dget out ''pdu_type'' = Some (VInt 0)" "dget out ''fill_bit'' = Some (VInt (of_bool (b ! 1)))"
    "dget out ''encryption_mode'' = None" "dget out ''access_ack'' = None" "dget out ''short_ssi_or_event_label'' = None"
    "dget out ''decoded_mode'' = None"
    using False by (simp_all add: out_def)
  obtain d where d: "fst_res (run_body (access_body cmce_ul mm_ul) b 2 out) = Inr d"
    "\<And>key. key \<notin> access_keys \<Longrightarrow> dget d key =
      dget (dset ''addr_type_name'' (name_or_unknown ADDR_TYPE_NAMES (bits_val (take 2 (drop 3 b))))
        (dset ''addr_type'' (VInt (bits_val (take 2 (drop 3 b))))
          (dset ''encrypted'' (VInt (bits_val (take 1 (drop 2 b)))) out))) key"
    using access_body_keeps [OF assms o(6)] by blast
  have k: "''pdu_type'' \<notin> access_keys" "''fill_bit'' \<notin> access_keys" "''addr_type'' \<notin> access_keys" "''encryption_mode'' \<notin> access_keys"
    "''access_ack'' \<notin> access_keys" "''short_ssi_or_event_label'' \<notin> access_keys"
    by (simp_all add: access_keys_def upper_keys_def)
  have "parse_mac_access cmce_ul mm_ul (Some b) = Inr (Some d)"
    using d(1) False assms(3) by (simp add: parse_mac_access_def out_def)
  moreover have "get_field d key = (case dget_default (dset ''addr_type'' (VInt (bits_val (take 2 (drop 3 b)))) out) key (VInt 0) of
      VInt v \<Rightarrow> Inr v | _ \<Rightarrow> Inl TypeError)" if "key \<notin> access_keys" "key \<noteq> ''addr_type_name''" "key \<noteq> ''encrypted''" for key
    using that d(2) by (simp add: get_field_def dget_default_alt)
  ultimately show ?thesis using False k o by (simp add: dget_default_alt)
qed

definition mac_word :: "bits \<Rightarrow> int" where
  "mac_word b = (if b ! 0 then 2 ^ 30 else bits_val (take 2 (drop 3 b)) * 2 ^ 23) + of_bool (b ! 1) * 2 ^ 29"

lemma mac_exp_word_fields:
  assumes "get_field d ''pdu_type'' = Inr (of_bool p)" "get_field d ''fill_bit'' = Inr (of_bool f)"
    and "get_field d ''addr_type'' = Inr (if p then 0 else a)" "0 \<le> a" "a < 4"
    and "get_field d ''encryption_mode'' = Inr 0" "get_field d ''access_ack'' = Inr 0" "get_field d ''short_ssi_or_event_label'' = Inr 0"
  shows "mac_exp_word d = Inr ((if p then 2 ^ 30 else a * 2 ^ 23) + of_bool f * 2 ^ 29)"
proof -
  have "a \<in> {0, 1, 2, 3}" using assms(4,5) by auto
  then show ?thesis
    using assms by (cases p; cases f) (auto simp: mac_exp_word_def push_bit_eq_mult)
qed

text \<open>The records of the uplink generator, packed: the word of a block has its PDU type, its fill bit and, in a MAC-ACCESS, its
  two-bit address type; the bits documented for the encryption mode, the acknowledgement and the short address are zero whatever the
  block is, because the parser's dictionary has none of the three names that the packing asks for.\<close>

theorem mac_exp_of_records:
  assumes "cmce_ul_total cmce_ul" "ext_total mm_ul" "\<forall>info \<in> set infos. length info = 92"
  shows "mac_exp cmce_ul mm_ul (concat (map expected_record infos)) = Inr (map mac_word infos)"
proof -
  let ?recs = "map expected_record infos"
  have l: "\<forall>xs \<in> set ?recs. length xs = 13" using assms(3) record_roundtrip(2) by auto
  have len: "length (concat ?recs) div 13 = length infos" unfolding length_concat_blocks [OF l] by simp
  have rec: "mac_exp_record cmce_ul mm_ul (expected_record info) = Inr (mac_word info)" if "info \<in> set infos" for info
  proof -
    have i: "length info = 92" using that assms(3) by simp
    obtain d where d: "parse_mac_access cmce_ul mm_ul (Some info) = Inr (Some d)"
      "get_field d ''pdu_type'' = Inr (of_bool (info ! 0))" "get_field d ''fill_bit'' = Inr (of_bool (info ! 1))"
      "get_field d ''addr_type'' = Inr (if info ! 0 then 0 else bits_val (take 2 (drop 3 info)))"
      "get_field d ''encryption_mode'' = Inr 0" "get_field d ''access_ack'' = Inr 0" "get_field d ''short_ssi_or_event_label'' = Inr 0"
      using access_fields [OF assms(1,2), of info] i by auto
    have "bits_val (take 2 (drop 3 info)) < 2 ^ 2" using bits_val_less [of "take 2 (drop 3 info)"] i by simp
    then have "mac_exp_word d = Inr (mac_word info)"
      using mac_exp_word_fields [OF d(2-4) _ _ d(5-7)] by (simp add: mac_word_def)
    then show ?thesis unfolding mac_exp_record_def record_roundtrip [OF i] Let_def d(1) by simp
  qed
  have blk: "take 13 (drop (r * 13) (concat ?recs)) = expected_record (infos ! r)" if "r < length infos" for r
  proof (rule nth_equalityI)
    have "13 * r + 13 \<le> length (concat ?recs)" unfolding length_concat_blocks [OF l] using that by simp
    then show "length (take 13 (drop (r * 13) (concat ?recs))) = length (expected_record (infos ! r))"
      using that assms(3) record_roundtrip(2) by (simp add: mult.commute)
    fix j assume "j < length (take 13 (drop (r * 13) (concat ?recs)))"
    then have j: "j < 13" by simp
    then show "take 13 (drop (r * 13) (concat ?recs)) ! j = expected_record (infos ! r) ! j"
      using nth_concat_blocks [OF l, of r j] that \<open>13 * r + 13 \<le> length (concat ?recs)\<close> by (simp add: mult.commute)
  qed
  have "mac_exp cmce_ul mm_ul (concat ?recs) = all_res (map (\<lambda>r. Inr (mac_word (infos ! r))) [0..<length infos])"
    unfolding mac_exp_def Let_def len using blk rec by (intro arg_cong [of _ _ all_res] map_cong refl) simp
  also have "\<dots> = Inr (map (\<lambda>r. mac_word (infos ! r)) [0..<length infos])" by (rule all_res_Inr) simp
  also have "map (\<lambda>r. mac_word (infos ! r)) [0..<length infos] = map mac_word infos" by (rule nth_equalityI) simp_all
  finally show ?thesis .
qed

theorem mac_exp_of_records_witness:
  "mac_exp None None (concat (map expected_record [False # True # True # True # False # replicate 87 True])) = Inr [553648128]"
proof -
  have "cmce_ul_total None" "ext_total None" by (simp_all add: cmce_ul_total_def ext_total_def)
  from mac_exp_of_records [OF this, of "[False # True # True # True # False # replicate 87 True]"] show ?thesis
    by (simp add: mac_word_def bits_val_Cons take_Cons')
qed

subsection \<open>The blocks are rejoined\<close>

lemma info_block_frag:
  assumes "length payload = 264"
  shows "\<exists>b. info_block payload False fill li = Inr b \<and> schf_frag (Some b) = Some (False, payload) \<and> length b = 268"
  using assms by (simp add: info_block_def INFO_BLOCK_def schf_frag_def)

lemma info_block_end:
  assumes "length payload = 258"
  shows "\<exists>b. info_block payload True fill li = Inr b \<and> schf_frag (Some b) = Some (True, payload) \<and> length b = 268 \<and>
    bits_val (take 6 (drop 4 b)) = take_bit 6 li \<and> b ! 3 = odd fill"
  using assms by (simp add: info_block_def INFO_BLOCK_def schf_frag_def bits_val_to_bits and_one_eq odd_iff_mod_2_eq_one)

lemma all_res_append: "all_res xs = Inr ys \<Longrightarrow> all_res zs = Inr ws \<Longrightarrow> all_res (xs @ zs) = Inr (ys @ ws)"
  by (induction xs arbitrary: ys) (auto simp: bind_res_def split: sum.splits)

lemma frags_built:
  assumes "\<forall>p \<in> set payloads. length p = 264"
  shows "\<exists>bs. all_res (map (\<lambda>(f, payload). info_block payload False (int f AND 1) 0) (enumerate n payloads)) = Inr bs \<and>
    length bs = length payloads \<and> (\<forall>b \<in> set bs. length b = 268) \<and>
    (\<forall>c. foldl chain_frag (done, Some c) bs =
      (done, Some (c\<lparr>ch_tm := ch_tm c @ concat payloads, ch_nf := ch_nf c + length payloads\<rparr>)))"
  using assms
proof (induction payloads arbitrary: n)
  case (Cons p ps)
  obtain b where b: "info_block p False (int n AND 1) 0 = Inr b" "schf_frag (Some b) = Some (False, p)" "length b = 268"
    using info_block_frag [of p "int n AND 1" 0] Cons.prems by auto
  obtain bs where bs: "all_res (map (\<lambda>(f, payload). info_block payload False (int f AND 1) 0) (enumerate (Suc n) ps)) = Inr bs"
    "length bs = length ps" "\<forall>b \<in> set bs. length b = 268" "\<forall>c. foldl chain_frag (done, Some c) bs =
      (done, Some (c\<lparr>ch_tm := ch_tm c @ concat ps, ch_nf := ch_nf c + length ps\<rparr>))"
    using Cons.IH [of "Suc n"] Cons.prems by auto
  show ?case
    using b bs by (intro exI [of _ "b # bs"]) (simp add: chain_frag_def Let_def)
qed simp

text \<open>The blocks of the reassembly test bench: for any payloads of the right lengths the generator's assertions hold, every block
  has 268 bits, the length indication of the last is 33, and the receiver of \<open>decode_ul\<close>, given the chain that the first
  fragment started, rejoins them to exactly the body of the expected file, whose length is the one printed.\<close>

theorem reassembly_vectors_rejoined:
  assumes "length frag1 = 62" "\<forall>p \<in> set payloads. length p = 264" "length end_payload = 258" "ch_tm c = frag1"
  shows "\<exists>bs. reass_blocks payloads end_payload = Inr bs \<and> length bs = length payloads + 1 \<and> (\<forall>b \<in> set bs. length b = 268) \<and>
    bits_val (take 6 (drop 4 (last bs))) = 33 \<and>
    foldl chain_frag (done, Some c) bs =
      (done @ [c\<lparr>ch_tm := reass_body frag1 payloads end_payload, ch_nf := ch_nf c + length payloads + 1\<rparr>], None) \<and>
    length (reass_body frag1 payloads end_payload) = 62 + length payloads * 264 + 258"
proof -
  obtain bs where bs: "all_res (map (\<lambda>(f, payload). info_block payload False (int f AND 1) 0) (enumerate 0 payloads)) = Inr bs"
    "length bs = length payloads" "\<forall>b \<in> set bs. length b = 268" "\<forall>c. foldl chain_frag (done, Some c) bs =
      (done, Some (c\<lparr>ch_tm := ch_tm c @ concat payloads, ch_nf := ch_nf c + length payloads\<rparr>))"
    using frags_built [OF assms(2), of 0 "done"] by blast
  obtain e where e: "info_block end_payload True 1 33 = Inr e" "schf_frag (Some e) = Some (True, end_payload)" "length e = 268"
    "bits_val (take 6 (drop 4 e)) = take_bit 6 33"
    using info_block_end [OF assms(3), of 1 33] by auto
  have "all_res [info_block end_payload True 1 33] = Inr [e]" by (simp add: e(1))
  from all_res_append [OF bs(1) this] have r: "reass_blocks payloads end_payload = Inr (bs @ [e])" by (simp add: reass_blocks_def)
  have "length (concat payloads) = length payloads * 264"
    using length_concat_blocks [OF assms(2)] by (simp add: mult.commute)
  then show ?thesis
    using r bs(2-4) e(2-4) assms by (intro exI [of _ "bs @ [e]"]) (auto simp: chain_frag_def Let_def reass_body_def)
qed

theorem reassembly_vectors_rejoined_witness:
  "\<exists>bs. reass_blocks [replicate 264 True, replicate 264 False] (replicate 258 True) = Inr bs \<and>
    foldl chain_frag ([], Some \<lparr>ch_ssi = VInt 7, ch_tm = replicate 62 True, ch_nf = 0\<rparr>) bs =
      ([\<lparr>ch_ssi = VInt 7, ch_tm = replicate 62 True @ replicate 264 True @ replicate 264 False @ replicate 258 True, ch_nf = 3\<rparr>], None)"
proof -
  have "\<forall>p \<in> set [replicate 264 True, replicate 264 False]. length p = 264" by simp
  from reassembly_vectors_rejoined [of "replicate 62 True", OF _ this, of "replicate 258 True" "\<lparr>ch_ssi = VInt 7, ch_tm = replicate 62 True, ch_nf = 0\<rparr>" "[]"]
  show ?thesis by (auto simp: reass_body_def)
qed

subsection \<open>The registers of the monitor\<close>

lemma raw_bits_nth:
  "length (raw_to_bits r2 r1 r0) = 92"
  "i < 32 \<Longrightarrow> raw_to_bits r2 r1 r0 ! i = bit r0 i"
  "i < 32 \<Longrightarrow> raw_to_bits r2 r1 r0 ! (32 + i) = bit r1 i"
  "i < 28 \<Longrightarrow> raw_to_bits r2 r1 r0 ! (64 + i) = bit r2 i"
proof -
  let ?f = "\<lambda>i bs. (bs[i := drop_bit i r0 AND 1 = 1])[32 + i := drop_bit i r1 AND 1 = 1]" and ?g = "\<lambda>i bs. bs[64 + i := drop_bit i r2 AND 1 = 1]"
  have f: "length (fold ?f [0..<n] bs) = 92 \<and> (\<forall>i < n. fold ?f [0..<n] bs ! i = bit r0 i \<and> fold ?f [0..<n] bs ! (32 + i) = bit r1 i)"
    if "length bs = 92" "n \<le> 32" for n and bs :: bits
    using that(2) by (induction n) (auto simp: that(1) bit_and_1 nth_list_update less_Suc_eq)
  have g: "length (fold ?g [0..<n] bs) = 92 \<and> (\<forall>i < 64. fold ?g [0..<n] bs ! i = bs ! i) \<and> (\<forall>i < n. fold ?g [0..<n] bs ! (64 + i) = bit r2 i)"
    if "length bs = 92" "n \<le> 28" for n and bs :: bits
    using that(2) by (induction n) (auto simp: that(1) bit_and_1 nth_list_update less_Suc_eq)
  let ?b = "fold ?f [0..<32] (replicate 92 False)"
  have b: "length ?b = 92" "\<forall>i < 32. ?b ! i = bit r0 i \<and> ?b ! (32 + i) = bit r1 i" using f [of "replicate 92 False" 32] by simp_all
  note r = g [OF b(1), of 28, simplified]
  show "length (raw_to_bits r2 r1 r0) = 92" "i < 32 \<Longrightarrow> raw_to_bits r2 r1 r0 ! i = bit r0 i"
    "i < 32 \<Longrightarrow> raw_to_bits r2 r1 r0 ! (32 + i) = bit r1 i" "i < 28 \<Longrightarrow> raw_to_bits r2 r1 r0 ! (64 + i) = bit r2 i"
    unfolding raw_to_bits_def Let_def using r b(2) by (simp_all del: upt_Suc)
qed

lemma field_loop_eq:
  "field_loop bs start n v = (if start + n \<le> length bs \<or> n = 0 then Inr (bits_acc v (take n (drop start bs))) else Inl IndexError)"
proof (induction n arbitrary: start v)
  case (Suc n)
  show ?case
  proof (cases "start < length bs")
    case True
    then have "take (Suc n) (drop start bs) = bs ! start # take n (drop (start + 1) bs)"
      by (simp add: Cons_nth_drop_Suc [symmetric])
    then show ?thesis unfolding field_loop.simps push_or_bit using True Suc.IH by simp
  qed simp
qed simp

lemma raw_field_eq: "start + n \<le> length bs \<Longrightarrow> raw_field bs start n = Inr (bits_val (take n (drop start bs)))"
  by (simp add: raw_field_def field_loop_eq bits_val_def)

lemma raw_fields_eq:
  "\<forall>(start, n) \<in> set fs. start + n \<le> length bs \<Longrightarrow> raw_fields bs fs = Inr (map (\<lambda>(start, n). bits_val (take n (drop start bs))) fs)"
  by (induction fs) (auto simp: raw_field_eq)

lemma addr_width_le: "ADDR_WIDTH t \<le> 58"
  by (simp add: ADDR_WIDTH_def)

text \<open>Any three registers are parsed: the longest address ends at bit 67, and every field of every hypothesis lies inside the 92 bits.  The
  values are those of the bits in the order of the air, bit \<open>i\<close> of the air being bit \<open>i\<close> of the registers.\<close>

theorem raw_parse_total:
  "\<exists>hdr hyps. raw_parse r2 r1 r0 = Inr (hdr, hyps) \<and> length hyps = 5 \<and>
    (let bs = raw_to_bits r2 r1 r0; w = ADDR_WIDTH (bits_val (take 3 (drop 6 bs)))
     in hdr = map (\<lambda>(start, n). bits_val (take n (drop start bs))) [(0, 2), (2, 1), (3, 2), (5, 1), (6, 3), (9, w)] \<and>
        hyps = map (map (\<lambda>(start, n). bits_val (take n (drop start bs)))) (raw_layouts (9 + w)))"
proof -
  let ?bs = "raw_to_bits r2 r1 r0"
  let ?w = "ADDR_WIDTH (bits_val (take 3 (drop 6 ?bs)))"
  have l: "length ?bs = 92" by (rule raw_bits_nth)
  have w: "?w \<le> 58" by (rule addr_width_le)
  have h: "raw_fields ?bs [(0, 2), (2, 1), (3, 2), (5, 1), (6, 3)] =
      Inr (map (\<lambda>(start, n). bits_val (take n (drop start ?bs))) [(0, 2), (2, 1), (3, 2), (5, 1), (6, 3)])"
    by (rule raw_fields_eq) (simp add: l)
  have "raw_fields ?bs fs = Inr (map (\<lambda>(start, n). bits_val (take n (drop start ?bs))) fs)" if "fs \<in> set (raw_layouts (9 + ?w))" for fs
    by (rule raw_fields_eq) (use that w l in \<open>auto simp: raw_layouts_def\<close>)
  then have y: "all_res (map (raw_fields ?bs) (raw_layouts (9 + ?w))) =
      Inr (map (map (\<lambda>(start, n). bits_val (take n (drop start ?bs)))) (raw_layouts (9 + ?w)))"
    by (rule all_res_Inr)
  have a: "raw_field ?bs 9 ?w = Inr (bits_val (take ?w (drop 9 ?bs)))" by (rule raw_field_eq) (use w l in simp)
  have lst: "last (map (\<lambda>(start, n). bits_val (take n (drop start ?bs))) [(0, 2), (2, 1), (3, 2), (5, 1), (6, 3)]) = bits_val (take 3 (drop 6 ?bs))"
    by simp
  have five: "length (raw_layouts pos) = 5" for pos by (simp add: raw_layouts_def)
  show ?thesis
    unfolding raw_parse_def Let_def h bind_res_simps lst a y by (simp add: five)
qed

lemma bit_bits_val_rev: "i < length xs \<Longrightarrow> bit (bits_val (rev xs)) i = xs ! i"
proof -
  assume i: "i < length xs"
  then have "to_bits (length (rev xs)) (bits_val (rev xs)) ! (length xs - 1 - i) = bit (bits_val (rev xs)) i"
    by (simp add: nth_to_bits)
  moreover have "rev xs ! (length xs - 1 - i) = xs ! i" using i by (simp add: rev_nth)
  ultimately show ?thesis by (simp only: to_bits_bits_val)
qed

definition hexv :: "string \<Rightarrow> int" where
  "hexv s = the (hex_value 0 s)"

lemma lower_hex_val: "hex_val (lower_hex c) = hex_val c"
proof (cases "65 \<le> (of_char c :: nat) \<and> (of_char c :: nat) \<le> 90")
  case True
  then have "(of_char (lower_hex c) :: int) = of_char c + 32"
    by (simp add: lower_hex_def flip: of_nat_of_char [where 'a = int])
  moreover have "65 \<le> (of_char c :: int)" "(of_char c :: int) \<le> 90" using True by (simp_all flip: of_nat_of_char [where 'a = int])
  ultimately show ?thesis by (simp add: hex_val_def Let_def)
next
  case False
  then have "lower_hex c = c" unfolding lower_hex_def Let_def by (rule if_not_P)
  then show ?thesis by simp
qed

lemma hex_value_lower: "hex_value v (map lower_hex s) = hex_value v s"
  by (induction s arbitrary: v) (simp_all add: lower_hex_val split: option.split)

lemma hex_value_some: "\<forall>c \<in> set s. hex_val c \<noteq> None \<Longrightarrow> hex_value v s \<noteq> None"
  by (induction s arbitrary: v) auto

lemma int16_hex:
  assumes "s \<noteq> []" "\<forall>c \<in> set s. hex_val c \<noteq> None"
  shows "int16_of s = Inr (hexv s)" "int16_of (map lower_hex s) = Inr (hexv s)"
proof -
  have x: "hex_val (CHR ''x'') = None" "hex_val (CHR ''X'') = None" by (simp_all add: hex_val_def)
  have p: "strip_0x t = t" if "\<forall>c \<in> set t. hex_val c \<noteq> None" for t
  proof -
    have "c \<notin> set (take 2 t)" if "hex_val c = None" for c using that \<open>\<forall>c \<in> set t. hex_val c \<noteq> None\<close> by (meson in_set_takeD)
    then have "CHR ''x'' \<notin> set (take 2 t)" "CHR ''X'' \<notin> set (take 2 t)" using x by blast+
    then have "take 2 t \<noteq> ''0x''" "take 2 t \<noteq> ''0X''" by auto
    then show ?thesis by (simp add: strip_0x_def)
  qed
  have l: "\<forall>c \<in> set (map lower_hex s). hex_val c \<noteq> None" using assms(2) by (simp add: lower_hex_val)
  obtain v where "hex_value 0 s = Some v" using hex_value_some [OF assms(2), of 0] by blast
  then show "int16_of s = Inr (hexv s)" "int16_of (map lower_hex s) = Inr (hexv s)"
    using assms(1) by (simp_all add: int16_of_def Let_def p [OF assms(2)] p [OF l] hex_value_lower hexv_def)
qed

lemma hex_no_separator: "\<forall>c \<in> set s. hex_val c \<noteq> None \<Longrightarrow> filter (\<lambda>c. c \<noteq> CHR '' '' \<and> c \<noteq> CHR '','' \<and> c \<noteq> CHR ''_'') s = s"
  by (rule filter_True) (auto simp: hex_val_def)

text \<open>The three forms the monitor's help names, for a line of 23 digits: three words are always read, also in the log's spelling with
  capitals; the concatenated form is read unless it begins with a zero, when stripping the characters of \<open>0x\<close> from the left
  eats the zero and the line is refused.\<close>

theorem raw_line_parsed:
  assumes "length s = 23" "\<forall>c \<in> set s. hex_val c \<noteq> None"
  shows "parse_hex_args [s] = (if hd s = CHR ''0'' then Inl ValueError else Inr [hexv (take 7 s), hexv (take 8 (drop 7 s)), hexv (drop 15 s)]) \<and>
    parse_hex_args [take 7 s, take 8 (drop 7 s), drop 15 s] = Inr [hexv (take 7 s), hexv (take 8 (drop 7 s)), hexv (drop 15 s)]"
proof -
  let ?z = "\<lambda>c. c = CHR ''0'' \<or> c = CHR ''x''"
  obtain c cs where s: "s = c # cs" using assms(1) by (cases s) auto
  have c: "?z (lower_hex c) \<longleftrightarrow> c = CHR ''0''"
  proof -
    have "hex_val (lower_hex c) \<noteq> None" using assms(2) by (simp add: s lower_hex_val)
    moreover have "hex_val (CHR ''x'') = None" by (simp add: hex_val_def)
    ultimately have "lower_hex c \<noteq> CHR ''x''" by metis
    moreover have "hex_val (CHR ''0'') = Some 0" by (simp add: hex_val_def)
    moreover have "c = CHR ''0''" if "hex_val c = Some 0"
    proof -
      have "(of_char c :: int) = 48" using that by (auto simp: hex_val_def Let_def split: if_splits)
      also have "\<dots> = of_char (CHR ''0'')" by simp
      finally show ?thesis by (simp only: of_char_eq_iff)
    qed
    moreover have "lower_hex (CHR ''0'') = CHR ''0''" by (simp add: lower_hex_def)
    ultimately show ?thesis using lower_hex_val [of c] by metis
  qed
  let ?j = "dropWhile ?z (map lower_hex s)"
  have j: "?j = (if c = CHR ''0'' then dropWhile ?z (map lower_hex cs) else map lower_hex s)" using c by (simp add: s)
  have short: "length (dropWhile ?z (map lower_hex cs)) < 23"
    using length_dropWhile_le [of ?z "map lower_hex cs"] assms(1) by (simp add: s)
  have parts: "take 7 s \<noteq> []" "take 8 (drop 7 s) \<noteq> []" "drop 15 s \<noteq> []" "take 8 (drop 15 s) = drop 15 s" using assms(1) by auto
  have hex: "\<forall>c \<in> set (take 7 s). hex_val c \<noteq> None" "\<forall>c \<in> set (take 8 (drop 7 s)). hex_val c \<noteq> None" "\<forall>c \<in> set (drop 15 s). hex_val c \<noteq> None"
    using assms(2) by (meson in_set_takeD in_set_dropD)+
  have cat: "take 7 s @ take 8 (drop 7 s) @ drop 15 s = s"
    using append_take_drop_id [of 7 s] append_take_drop_id [of 8 "drop 7 s"] by simp
  note i = int16_hex [OF parts(1) hex(1)] int16_hex [OF parts(2) hex(2)] int16_hex [OF parts(3) hex(3)]
  note f = hex_no_separator [OF assms(2)] hex_no_separator [OF hex(1)] hex_no_separator [OF hex(2)] hex_no_separator [OF hex(3)]
  have words: "bind_res (int16_of (take 7 (map lower_hex s))) (\<lambda>r2. bind_res (int16_of (take 8 (drop 7 (map lower_hex s)))) (\<lambda>r1.
      bind_res (int16_of (take 8 (drop 15 (map lower_hex s)))) (\<lambda>r0. Inr [r2, r1, r0]))) =
      Inr [hexv (take 7 s), hexv (take 8 (drop 7 s)), hexv (drop 15 s)]"
    unfolding take_map drop_map parts(4) i by simp
  show ?thesis
  proof (cases "c = CHR ''0''")
    case True
    have j': "?j = dropWhile ?z (map lower_hex cs)" "length ?j \<noteq> 23" using j True short by simp_all
    show ?thesis
      unfolding parse_hex_args_def Let_def list.map f concat.simps append_Nil2 cat if_not_P [OF j'(2)] using i True s by simp
  next
    case False
    have j': "?j = map lower_hex s" "length (map lower_hex s) = 23" using j False assms(1) by simp_all
    show ?thesis
      unfolding parse_hex_args_def Let_def list.map f concat.simps append_Nil2 cat j'(1) if_P [OF j'(2)] words using False s by simp
  qed
qed

text \<open>From the air to the board and back: the registers that the RTL fills with a block are read as the block.\<close>

theorem raw_registers_roundtrip:
  assumes "length b = 92"
  shows "raw_to_bits (bits_val (rev (drop 64 b))) (bits_val (rev (take 32 (drop 32 b)))) (bits_val (rev (take 32 b))) = b"
proof (rule nth_equalityI)
  let ?r = "raw_to_bits (bits_val (rev (drop 64 b))) (bits_val (rev (take 32 (drop 32 b)))) (bits_val (rev (take 32 b)))"
  show l: "length ?r = length b" by (simp add: raw_bits_nth assms)
  fix i assume "i < length ?r"
  then have i: "i < 92" by (simp add: raw_bits_nth)
  then consider "i < 32" | "i = 32 + (i - 32)" "i - 32 < 32" | "i = 64 + (i - 64)" "i - 64 < 28" by linarith
  then show "?r ! i = b ! i"
  proof cases
    case 1
    then show ?thesis by (simp add: raw_bits_nth bit_bits_val_rev assms)
  next
    case 2
    have "?r ! (32 + (i - 32)) = b ! (32 + (i - 32))"
      using 2(2) by (simp only: raw_bits_nth(3)) (simp add: bit_bits_val_rev assms)
    then show ?thesis by (simp only: 2(1) [symmetric])
  next
    case 3
    have "?r ! (64 + (i - 64)) = b ! (64 + (i - 64))"
      using 3(2) by (simp only: raw_bits_nth(4)) (simp add: bit_bits_val_rev assms)
    then show ?thesis by (simp only: 3(1) [symmetric])
  qed
qed

end
