(* ===== verification/VectorViterbi.thy ===== *)
theory VectorViterbi
  imports Viterbi
begin

unbundle bit_operations_syntax

text \<open>
  The generators of the test vectors for the encoder and decoder hardware:
  \<open>tb/vectors/gen_rcpc_encoder_vectors.py\<close> and the encoder, puncturer, soft-decision Viterbi
  decoder and test case \<open>print_tc\<close> of \<open>tb/vectors/gen_viterbi_vectors.py\<close>.

  The shift register keeps its newest bit at the top: a state is a number below 16 whose bit 3 is
  the last input.  Soft values are integers from 0 (strong 0) to 7 (strong 1).  The lemmas show that
  the decoder's traceback, which takes the first predecessor instead of the surviving one, always
  takes an even one; what it returns is the bits of the final state behind zeros, whatever it
  received.
\<close>

subsection \<open>Encoder\<close>

text \<open>\<open>bin(x).count('1')\<close>\<close>

fun ones :: "nat \<Rightarrow> nat" where
  "ones n = (if n = 0 then 0 else n mod 2 + ones (n div 2))"

declare ones.simps [simp del]

type_synonym triplet = "bool \<times> bool \<times> bool"

definition encode_bit :: "nat \<Rightarrow> bool \<Rightarrow> nat \<times> triplet" where
  "encode_bit sr b =
     (let full_sr = push_bit 4 (of_bool b) OR sr;
          g1_out = ones (full_sr AND 0x1B) AND 1;
          g2_out = ones (full_sr AND 0x19) AND 1;
          g3_out = ones (full_sr AND 0x15) AND 1;
          new_sr = drop_bit 1 full_sr
      in (new_sr AND 0xF, g1_out = 1, g2_out = 1, g3_out = 1))"

fun encode_run :: "nat \<Rightarrow> bits \<Rightarrow> triplet list \<times> nat" where
  "encode_run sr [] = ([], sr)"
| "encode_run sr (b # bs) =
     (let (sr, t) = encode_bit sr b; (out, sr) = encode_run sr bs in (t # out, sr))"

definition with_tail :: "bool \<Rightarrow> bits \<Rightarrow> bits" where
  "with_tail tail data_bits = (if tail then data_bits @ replicate 4 False else data_bits)"

definition encode_block :: "bits \<Rightarrow> bool \<Rightarrow> triplet list" where
  "encode_block data_bits tail = fst (encode_run 0 (with_tail tail data_bits))"

definition rcpc_encode_bit :: "nat \<Rightarrow> bool \<Rightarrow> nat \<times> triplet" where
  "rcpc_encode_bit sr b =
     (let full_sr = push_bit 4 (of_bool b) OR sr;
          g1_out = ones (full_sr AND 0x1B) AND 1;
          g2_out = ones (full_sr AND 0x19) AND 1;
          g3_out = ones (full_sr AND 0x15) AND 1;
          new_sr = drop_bit 1 full_sr AND 0xF
      in (new_sr, g1_out = 1, g2_out = 1, g3_out = 1))"

fun rcpc_encode_run :: "nat \<Rightarrow> bits \<Rightarrow> triplet list \<times> nat" where
  "rcpc_encode_run sr [] = ([], sr)"
| "rcpc_encode_run sr (b # bs) =
     (let (sr, t) = rcpc_encode_bit sr b; (out, sr) = rcpc_encode_run sr bs in (t # out, sr))"

definition rcpc_encode_block :: "bits \<Rightarrow> bool \<Rightarrow> triplet list \<times> nat" where
  "rcpc_encode_block data_bits tail = rcpc_encode_run 0 (with_tail tail data_bits)"

definition puncture_rate2_3 :: "triplet list \<Rightarrow> (bool \<times> bool) list" where
  "puncture_rate2_3 triplets = map (\<lambda>(g1, g2, g3). (g1, g2)) triplets"

text \<open>The computed part of \<open>run_tc\<close>: the triplets, the final state, the three-bit numbers
  \<open>(g3 << 2) | (g2 << 1) | g1\<close> it prints and, for the punctured test case, \<open>(g2 << 1) | g1\<close>.\<close>

definition run_tc :: "bits \<Rightarrow> bool \<Rightarrow> bool \<Rightarrow> (triplet list \<times> nat) \<times> nat list \<times> nat list" where
  "run_tc data_bits tail punct =
     (let (triplets, final_sr) = rcpc_encode_block data_bits tail
      in ((triplets, final_sr),
          map (\<lambda>(g1, g2, g3). push_bit 2 (of_bool g3) OR push_bit 1 (of_bool g2) OR of_bool g1)
            triplets,
          if punct
          then map (\<lambda>(g1, g2). push_bit 1 (of_bool g2) OR of_bool g1) (puncture_rate2_3 triplets)
          else []))"

subsection \<open>Puncturing\<close>

fun flat_triplets :: "('a \<times> 'a \<times> 'a) list \<Rightarrow> 'a list" where
  "flat_triplets [] = []"
| "flat_triplets ((a, b, c) # ts) = [a, b, c] @ flat_triplets ts"

text \<open>\<open>zip(rx[0::3], rx[1::3], rx[2::3])\<close>\<close>

fun zip_thirds :: "'a list \<Rightarrow> ('a \<times> 'a \<times> 'a) list" where
  "zip_thirds (a # b # c # xs) = (a, b, c) # zip_thirds xs"
| "zip_thirds _ = []"

text \<open>\<open>pattern[i % len(pattern)]\<close>: an empty pattern divides by zero.\<close>

definition keep_at :: "bits \<Rightarrow> nat \<Rightarrow> bool" where
  "keep_at pattern i = pattern ! (i mod length pattern)"

definition puncture_triplet :: "bits \<Rightarrow> triplet \<Rightarrow> bits" where
  "puncture_triplet pattern = (\<lambda>(g1, g2, g3).
     concat (map (\<lambda>(i, b). if keep_at pattern i then [b] else []) [(0, g1), (1, g2), (2, g3)]))"

definition puncture_tc :: "triplet list \<Rightarrow> bits option \<Rightarrow> bits res" where
  "puncture_tc coded_triplets pattern =
     (case pattern of
        None \<Rightarrow> Inr (flat_triplets coded_triplets)
      | Some p \<Rightarrow>
          if p = [] \<and> coded_triplets \<noteq> [] then Inl ZeroDivisionError
          else Inr (concat (map (puncture_triplet p) coded_triplets)))"

type_synonym softs = "int \<times> int \<times> int"

definition hard_to_soft :: "int \<Rightarrow> int" where
  "hard_to_soft b = (if b \<noteq> 0 then 7 else 0)"

definition next_soft :: "bool \<Rightarrow> int list \<Rightarrow> int \<times> int list" where
  "next_soft keep rx =
     (if keep then (case rx of b # rest \<Rightarrow> (hard_to_soft b, rest) | [] \<Rightarrow> (4, [])) else (4, rx))"

fun depuncture_loop :: "bits \<Rightarrow> nat \<Rightarrow> nat \<Rightarrow> int list \<Rightarrow> softs list" where
  "depuncture_loop pattern i 0 rx = []"
| "depuncture_loop pattern i (Suc n) rx =
     (let (s0, rx) = next_soft (keep_at pattern (i * 3)) rx;
          (s1, rx) = next_soft (keep_at pattern (i * 3 + 1)) rx;
          (s2, rx) = next_soft (keep_at pattern (i * 3 + 2)) rx
      in (s0, s1, s2) # depuncture_loop pattern (i + 1) n rx)"

definition depuncture_tc :: "int list \<Rightarrow> bits option \<Rightarrow> nat \<Rightarrow> softs list res" where
  "depuncture_tc received_bits pattern n_coded =
     (case pattern of
        None \<Rightarrow> Inr (zip_thirds (map hard_to_soft received_bits))
      | Some p \<Rightarrow>
          if p = [] \<and> n_coded \<noteq> 0 then Inl ZeroDivisionError
          else Inr (depuncture_loop p 0 n_coded received_bits))"

definition PUNCT_NONE :: "bits option" where
  "PUNCT_NONE = None"

definition PUNCT_RATE_2_3 :: "bits option" where
  "PUNCT_RATE_2_3 = Some [True, True, False]"

subsection \<open>Decoder\<close>

definition PM_INF :: int where
  "PM_INF = 0xFFFF"

definition exp_soft :: "bool \<Rightarrow> int" where
  "exp_soft e = (if e then 7 else 0)"

definition branch_metric :: "softs \<Rightarrow> triplet \<Rightarrow> int" where
  "branch_metric = (\<lambda>(soft0, soft1, soft2) (exp0, exp1, exp2).
     \<bar>soft0 - exp_soft exp0\<bar> + \<bar>soft1 - exp_soft exp1\<bar> + \<bar>soft2 - exp_soft exp2\<bar>)"

definition vec_visit ::
  "softs \<Rightarrow> int list \<Rightarrow> nat \<times> bool \<Rightarrow> int list \<times> bits \<Rightarrow> int list \<times> bits" where
  "vec_visit soft pm = (\<lambda>(state, inp) (new_pm, row).
     if pm ! state = PM_INF then (new_pm, row)
     else
       let (next_state, e) = encode_bit state inp;
           bm = branch_metric soft e;
           total = pm ! state + bm
       in if total < new_pm ! next_state
          then (new_pm[next_state := total], row[next_state := inp])
          else (new_pm, row))"

text \<open>Python's \<open>min\<close> of a nonempty list, and \<open>list.index\<close>.\<close>

fun py_min :: "int list \<Rightarrow> int" where
  "py_min [] = 0"
| "py_min (p # ps) = foldl min p ps"

definition py_index :: "int list \<Rightarrow> int \<Rightarrow> nat" where
  "py_index ps v = length (takeWhile (\<lambda>p. p \<noteq> v) ps)"

definition vec_stage :: "softs \<Rightarrow> int list \<Rightarrow> int list \<times> bits" where
  "vec_stage soft pm =
     (let (new_pm, row) =
            fold (vec_visit soft pm) loop_pairs (replicate 16 PM_INF, replicate 16 False);
          min_pm = py_min new_pm
      in (map (\<lambda>p. if p \<noteq> PM_INF then p - min_pm else PM_INF) new_pm, row))"

fun vec_forward :: "softs list \<Rightarrow> int list \<Rightarrow> bits list \<Rightarrow> int list \<times> bits list" where
  "vec_forward [] pm survivors = (pm, survivors)"
| "vec_forward (soft # softs) pm survivors =
     (let (pm, row) = vec_stage soft pm in vec_forward softs pm (row # survivors))"

definition first_prev :: "bool \<Rightarrow> nat \<Rightarrow> nat" where
  "first_prev inp state =
     (case find (\<lambda>prev. fst (encode_bit prev inp) = state) [0..<16] of
        Some prev \<Rightarrow> prev | None \<Rightarrow> state)"

text \<open>The rows of \<open>survivors\<close> are visited from the last to the first; \<open>decoded\<close> is appended to
  and reversed at the end.\<close>

fun vec_traceback :: "bits list \<Rightarrow> nat \<Rightarrow> bits \<Rightarrow> bits" where
  "vec_traceback [] state decoded = decoded"
| "vec_traceback (row # rows) state decoded =
     (let inp = row ! state in vec_traceback rows (first_prev inp state) (inp # decoded))"

definition viterbi_decode :: "softs list \<Rightarrow> int \<Rightarrow> bits" where
  "viterbi_decode soft_triplets traceback_depth =
     (let (pm, survivors) = vec_forward soft_triplets ((replicate 16 PM_INF)[0 := 0]) [];
          best_state = py_index pm (py_min pm)
      in vec_traceback survivors best_state [])"

subsection \<open>Test cases\<close>

definition add_soft_noise :: "bits \<Rightarrow> int \<Rightarrow> int list" where
  "add_soft_noise bits snr_level =
     (if snr_level = 0 then map (\<lambda>b. if b then 7 else 0) bits
      else map (\<lambda>b. if snr_level = 1 then (if b then 6 else 1)
                    else if snr_level = 2 then (if b then 5 else 2)
                    else (if b then 4 else 3)) bits)"

text \<open>\<open>print_tc\<close> returns \<open>match\<close>; the decoded data bits, which it prints, come with it.\<close>

definition print_tc :: "bits \<Rightarrow> bits option \<Rightarrow> int \<Rightarrow> int \<Rightarrow> (bool \<times> bits) res" where
  "print_tc data_bits punct snr tb_depth =
     (let coded = encode_block data_bits True;
          n_info_with_tail = length data_bits + 4
      in bind_res (puncture_tc coded punct) (\<lambda>coded_flat.
         let soft = if snr = 0 then map (\<lambda>b. if b then 7 else 0) coded_flat
                    else add_soft_noise coded_flat snr
         in bind_res
              (depuncture_tc
                 (if punct \<noteq> None \<and> punct \<noteq> Some [] then soft else map of_bool coded_flat)
                 punct n_info_with_tail) (\<lambda>soft_triplets.
         let decoded = viterbi_decode soft_triplets tb_depth;
             decoded_data = take (length data_bits) decoded
         in Inr (decoded_data = data_bits, decoded_data))))"

text \<open>One row of the trellis reference table both scripts print.\<close>

definition trellis_table :: "(nat \<times> bool \<times> nat \<times> triplet) list" where
  "trellis_table = map (\<lambda>(s, inp). (s, inp, encode_bit s inp)) loop_pairs"

subsection \<open>The trellis\<close>

definition next_sr :: "nat \<Rightarrow> bool \<Rightarrow> nat" where
  "next_sr st b = st div 2 + 8 * of_bool b"

definition trellis_ok :: "nat \<Rightarrow> bool \<Rightarrow> bool" where
  "trellis_ok st b \<longleftrightarrow> fst (encode_bit st b) = next_sr st b \<and> rcpc_encode_bit st b = encode_bit st b"

lemma trellis_checked: "list_all (\<lambda>(st, b). trellis_ok st b) loop_pairs"
  by code_simp

lemma trellis:
  assumes "st < 16"
  shows "fst (encode_bit st b) = next_sr st b" "rcpc_encode_bit st b = encode_bit st b"
proof -
  have "(st, b) \<in> set loop_pairs" using assms by (simp add: set_loop_pairs)
  then have "trellis_ok st b" using trellis_checked by (fastforce simp: list_all_iff)
  then show "fst (encode_bit st b) = next_sr st b" "rcpc_encode_bit st b = encode_bit st b"
    by (simp_all add: trellis_ok_def)
qed

lemma next_sr_less [simp]: "st < 16 \<Longrightarrow> next_sr st b < 16"
  by (cases b) (simp_all add: next_sr_def)

lemma rcpc_run_eq: "sr < 16 \<Longrightarrow> rcpc_encode_run sr bs = encode_run sr bs"
proof (induction bs arbitrary: sr)
  case (Cons b bs)
  have "fst (encode_bit sr b) < 16" using Cons.prems by (simp add: trellis)
  with Cons show ?case by (simp add: trellis case_prod_unfold Let_def)
qed simp

lemma length_encode_run [simp]: "length (fst (encode_run sr bs)) = length bs"
  by (induction bs arbitrary: sr) (simp_all add: case_prod_unfold Let_def)

lemma encode_run_state: "sr < 16 \<Longrightarrow> snd (encode_run sr bs) = foldl next_sr sr bs"
  by (induction bs arbitrary: sr) (simp_all add: case_prod_unfold Let_def trellis)

lemma foldl_next_sr_less: "sr < 16 \<Longrightarrow> foldl next_sr sr bs < 16"
  by (induction bs arbitrary: sr) simp_all

text \<open>The states from which the start state leads to \<open>st\<close> in \<open>t\<close> steps.\<close>

definition reach :: "nat \<Rightarrow> nat \<Rightarrow> bool" where
  "reach t st \<longleftrightarrow> 2 ^ (4 - t) dvd st"

lemma reach_0: "st < 16 \<Longrightarrow> reach 0 st \<longleftrightarrow> st = 0"
  by (auto simp: reach_def elim: dvdE)

lemma reach_4 [simp]: "4 \<le> t \<Longrightarrow> reach t st"
  by (simp add: reach_def)

lemma reach_prev:
  assumes "reach (Suc t) ns" "ns < 16"
  shows "reach t (2 * (ns mod 8))"
proof (cases "t < 4")
  case True
  then have p: "2 ^ (4 - t) = 2 * (2::nat) ^ (4 - Suc t)"
    by (metis Suc_diff_Suc power_Suc)
  have d: "(2::nat) ^ (4 - Suc t) dvd 8"
    using le_imp_power_dvd [of "4 - Suc t" 3 "2::nat"] by simp
  have "(2::nat) ^ (4 - Suc t) dvd ns mod 8"
    using assms(1) d by (simp add: reach_def dvd_mod)
  then show ?thesis unfolding reach_def p by simp
qed simp

lemma reach_next:
  assumes "reach t st" "st < 16"
  shows "reach (Suc t) (next_sr st b)"
proof (cases "t < 4")
  case True
  then have p: "2 ^ (4 - t) = 2 * (2::nat) ^ (4 - Suc t)"
    by (metis Suc_diff_Suc power_Suc)
  obtain k where k: "st = 2 * (2::nat) ^ (4 - Suc t) * k"
    using assms(1) unfolding reach_def p by (rule dvdE)
  have d: "(2::nat) ^ (4 - Suc t) dvd 8"
    using le_imp_power_dvd [of "4 - Suc t" 3 "2::nat"] by simp
  have "st div 2 = 2 ^ (4 - Suc t) * k" by (simp add: k mult.assoc)
  then show ?thesis using d by (simp add: reach_def next_sr_def)
qed simp

lemma next_sr_prev: "ns < 16 \<Longrightarrow> next_sr (2 * (ns mod 8)) (8 \<le> ns) = ns"
  by (cases "8 \<le> ns") (simp_all add: next_sr_def, presburger)

lemma next_sr_top: "st < 16 \<Longrightarrow> 8 \<le> next_sr st b \<longleftrightarrow> b"
  by (cases b) (simp_all add: next_sr_def)

lemma first_prev_checked:
  "list_all (\<lambda>ns. first_prev (8 \<le> ns) ns = 2 * (ns mod 8)) [0..<16]"
  by code_simp

lemma first_prev_even: "ns < 16 \<Longrightarrow> first_prev (8 \<le> ns) ns = 2 * (ns mod 8)"
  using first_prev_checked by (simp add: list_all_iff)

subsection \<open>The forward pass\<close>

definition soft_ok :: "softs \<Rightarrow> bool" where
  "soft_ok = (\<lambda>(s0, s1, s2). 0 \<le> s0 \<and> s0 \<le> 7 \<and> 0 \<le> s1 \<and> s1 \<le> 7 \<and> 0 \<le> s2 \<and> s2 \<le> 7)"

lemma branch_metric_bounds:
  assumes "soft_ok s"
  shows "0 \<le> branch_metric s e" "branch_metric s e \<le> 21"
  using assms by (auto simp: soft_ok_def branch_metric_def exp_soft_def split: prod.splits if_splits)

text \<open>A fold over a list maintains a property of the set of visited elements.\<close>

lemma fold_visited:
  assumes "\<And>x s D. x \<in> set xs \<Longrightarrow> P D s \<Longrightarrow> P (insert x D) (f x s)" and "P D s"
  shows "P (set xs \<union> D) (fold f xs s)"
  using assms
proof (induction xs arbitrary: D s)
  case (Cons x xs)
  have "P (set xs \<union> insert x D) (fold f xs (f x s))"
    by (rule Cons.IH) (simp_all add: Cons.prems)
  then show ?case by simp
qed simp

text \<open>Entry \<open>ns\<close> of a metric column and its decision after the transitions \<open>D\<close>.\<close>

definition entry_ok :: "nat \<Rightarrow> (nat \<times> bool) set \<Rightarrow> int list \<times> bits \<Rightarrow> nat \<Rightarrow> bool" where
  "entry_ok t D = (\<lambda>(npm, row) ns.
     if \<exists>(st, b) \<in> D. reach t st \<and> next_sr st b = ns
     then 0 \<le> npm ! ns \<and> npm ! ns \<le> 21 * int t + 21 \<and> row ! ns = (8 \<le> ns)
     else npm ! ns = PM_INF)"

definition col_ok :: "nat \<Rightarrow> (nat \<times> bool) set \<Rightarrow> int list \<times> bits \<Rightarrow> bool" where
  "col_ok t D c \<longleftrightarrow> length (fst c) = 16 \<and> length (snd c) = 16 \<and> (\<forall>ns<16. entry_ok t D c ns)"

definition pm_ok :: "nat \<Rightarrow> int list \<Rightarrow> bool" where
  "pm_ok t pm \<longleftrightarrow> length pm = 16 \<and>
     (\<forall>st<16. if reach t st then 0 \<le> pm ! st \<and> pm ! st \<le> 21 * int t else pm ! st = PM_INF)"

lemma entry_hit:
  "\<exists>(st, b) \<in> D. reach t st \<and> next_sr st b = ns \<Longrightarrow>
   entry_ok t D (npm, row) ns \<longleftrightarrow>
     0 \<le> npm ! ns \<and> npm ! ns \<le> 21 * int t + 21 \<and> row ! ns = (8 \<le> ns)"
  by (simp add: entry_ok_def)

lemma vec_visit_col:
  assumes soft: "soft_ok soft" and pm: "pm_ok t pm" and t: "t < 3000"
    and x: "x \<in> set loop_pairs" and c: "col_ok t D c"
  shows "col_ok t (insert x D) (vec_visit soft pm x c)"
proof -
  obtain st b where xe: "x = (st, b)" by (cases x)
  obtain npm row where ce: "c = (npm, row)" by (cases c)
  have st: "st < 16" using x by (simp add: xe set_loop_pairs)
  have len: "length npm = 16" "length row = 16" using c by (simp_all add: col_ok_def ce)
  have ent: "entry_ok t D (npm, row) ns" if "ns < 16" for ns
    using c that by (simp add: col_ok_def ce)
  show ?thesis
  proof (cases "reach t st")
    case False
    then have "pm ! st = PM_INF" using pm st by (simp add: pm_ok_def)
    then have "vec_visit soft pm x c = c" by (simp add: vec_visit_def xe ce)
    moreover have "entry_ok t (insert x D) c = entry_ok t D c"
      using False by (simp add: entry_ok_def xe)
    ultimately show ?thesis using c by (simp add: col_ok_def)
  next
    case True
    define total where "total = pm ! st + branch_metric soft (snd (encode_bit st b))"
    have p: "0 \<le> pm ! st" "pm ! st \<le> 21 * int t" using pm st True by (auto simp: pm_ok_def)
    have tot: "0 \<le> total" "total \<le> 21 * int t + 21"
      using p branch_metric_bounds [OF soft, of "snd (encode_bit st b)"]
      by (simp_all add: total_def)
    have fin: "pm ! st \<noteq> PM_INF" "total < PM_INF" using p tot t by (simp_all add: PM_INF_def)
    have v: "vec_visit soft pm x c =
        (if total < npm ! next_sr st b
         then (npm[next_sr st b := total], row[next_sr st b := b]) else (npm, row))"
      using fin(1) st
      by (simp add: vec_visit_def xe ce total_def case_prod_unfold Let_def trellis)
    have "entry_ok t (insert x D) (vec_visit soft pm x c) ns" if ns: "ns < 16" for ns
    proof (cases "ns = next_sr st b")
      case True
      have here: "\<exists>(st, b) \<in> insert x D. reach t st \<and> next_sr st b = ns"
        using True \<open>reach t st\<close> by (auto simp: xe)
      show ?thesis
      proof (cases "total < npm ! ns")
        case True
        then have upd: "vec_visit soft pm x c = (npm[ns := total], row[ns := b])"
          using v \<open>ns = next_sr st b\<close> by simp
        have "b = (8 \<le> ns)" using next_sr_top [OF st, of b] \<open>ns = next_sr st b\<close> by simp
        then show ?thesis
          unfolding upd entry_hit [OF here] using tot len ns by simp
      next
        case False
        then have "vec_visit soft pm x c = (npm, row)" "npm ! ns \<noteq> PM_INF"
          using v \<open>ns = next_sr st b\<close> fin(2) by simp_all
        then show ?thesis
          using ent [OF ns] here by (auto simp: entry_ok_def split: if_splits)
      qed
    next
      case False
      obtain npm' row' where w: "vec_visit soft pm x c = (npm', row')" by (rule prod.exhaust)
      have "npm' ! ns = npm ! ns" "row' ! ns = row ! ns"
        using v False by (auto simp: w split: if_splits)
      with ent [OF ns] show ?thesis unfolding w using False by (simp add: entry_ok_def xe)
    qed
    then show ?thesis using len by (simp add: col_ok_def v)
  qed
qed

lemma stage_column:
  assumes "soft_ok soft" "pm_ok t pm" "t < 3000"
  shows "col_ok t (set loop_pairs)
    (fold (vec_visit soft pm) loop_pairs (replicate 16 PM_INF, replicate 16 False))"
proof -
  have "col_ok t (set loop_pairs \<union> {})
      (fold (vec_visit soft pm) loop_pairs (replicate 16 PM_INF, replicate 16 False))"
  proof (rule fold_visited [where P = "col_ok t"])
    show "col_ok t {} (replicate 16 PM_INF, replicate 16 False)"
      by (simp add: col_ok_def entry_ok_def)
  qed (rule vec_visit_col [OF assms])
  then show ?thesis by simp
qed

lemma reach_stage:
  assumes "ns < 16"
  shows "(\<exists>(st, b) \<in> set loop_pairs. reach t st \<and> next_sr st b = ns) \<longleftrightarrow> reach (Suc t) ns"
proof
  assume "reach (Suc t) ns"
  then have "reach t (2 * (ns mod 8))" using assms by (rule reach_prev)
  moreover have "(2 * (ns mod 8), 8 \<le> ns) \<in> set loop_pairs" by (simp add: set_loop_pairs)
  ultimately show "\<exists>(st, b) \<in> set loop_pairs. reach t st \<and> next_sr st b = ns"
    using next_sr_prev [OF assms] by fastforce
qed (auto simp: set_loop_pairs reach_next)

lemma foldl_min_le: "foldl min p ps \<le> p \<and> (\<forall>x \<in> set ps. foldl min p ps \<le> x)"
  for p :: int
proof (induction ps arbitrary: p)
  case (Cons q ps)
  show ?case using Cons [of "min p q"] by auto
qed simp

lemma foldl_min_in: "foldl min p ps \<in> insert p (set ps)" for p :: int
proof (induction ps arbitrary: p)
  case (Cons q ps)
  show ?case using Cons [of "min p q"] by (auto simp: min_def split: if_splits)
qed simp

lemma py_min_in: "ps \<noteq> [] \<Longrightarrow> py_min ps \<in> set ps"
  by (cases ps) (use foldl_min_in in auto)

lemma py_min_le: "x \<in> set ps \<Longrightarrow> py_min ps \<le> x"
  by (cases ps) (use foldl_min_le in auto)

lemma py_index_less: "v \<in> set ps \<Longrightarrow> py_index ps v < length ps"
  by (induction ps) (auto simp: py_index_def)

lemma nth_py_index: "v \<in> set ps \<Longrightarrow> ps ! py_index ps v = v"
  by (induction ps) (auto simp: py_index_def)

lemma vec_stage_ok:
  assumes "soft_ok soft" "pm_ok t pm" "t < 3000"
  shows "pm_ok (Suc t) (fst (vec_stage soft pm))"
    and "ns < 16 \<Longrightarrow> reach (Suc t) ns \<Longrightarrow> snd (vec_stage soft pm) ! ns = (8 \<le> ns)"
proof -
  obtain npm row where c:
    "fold (vec_visit soft pm) loop_pairs (replicate 16 PM_INF, replicate 16 False) = (npm, row)"
    by (rule prod.exhaust)
  have col: "col_ok t (set loop_pairs) (npm, row)" using stage_column [OF assms] by (simp add: c)
  have ent: "if reach (Suc t) ns
       then 0 \<le> npm ! ns \<and> npm ! ns \<le> 21 * int t + 21 \<and> row ! ns = (8 \<le> ns)
       else npm ! ns = PM_INF" if "ns < 16" for ns
    using col that by (simp add: col_ok_def entry_ok_def reach_stage)
  have len: "length npm = 16" using col by (simp add: col_ok_def)
  have le: "py_min npm \<le> npm ! ns" if "ns < 16" for ns using that len by (simp add: py_min_le)
  have "py_min npm \<in> set npm" using len by (intro py_min_in) auto
  then obtain k where k: "k < 16" "py_min npm = npm ! k" by (metis in_set_conv_nth len)
  have nonneg: "0 \<le> py_min npm"
    using ent [OF k(1)] by (auto simp: k(2) PM_INF_def split: if_splits)
  have fin: "reach (Suc t) ns \<Longrightarrow> ns < 16 \<Longrightarrow> npm ! ns \<noteq> PM_INF" for ns
    using ent [of ns] assms(3) by (auto simp: PM_INF_def)
  have res: "fst (vec_stage soft pm) = map (\<lambda>p. if p \<noteq> PM_INF then p - py_min npm else PM_INF) npm"
    "snd (vec_stage soft pm) = row"
    by (simp_all add: vec_stage_def c)
  have "if reach (Suc t) st then 0 \<le> fst (vec_stage soft pm) ! st \<and>
        fst (vec_stage soft pm) ! st \<le> 21 * int (Suc t) else fst (vec_stage soft pm) ! st = PM_INF"
    if "st < 16" for st
  proof (cases "reach (Suc t) st")
    case True
    then have "0 \<le> npm ! st - py_min npm" "npm ! st - py_min npm \<le> 21 * int (Suc t)"
      using ent [OF that] le [OF that] nonneg by simp_all
    then show ?thesis using True fin [OF True that] len that by (simp add: res)
  next
    case False
    then show ?thesis using ent [OF that] len that by (simp add: res)
  qed
  moreover have "length (fst (vec_stage soft pm)) = 16" by (simp add: res(1) len)
  ultimately show "pm_ok (Suc t) (fst (vec_stage soft pm))" unfolding pm_ok_def by blast
  show "ns < 16 \<Longrightarrow> reach (Suc t) ns \<Longrightarrow> snd (vec_stage soft pm) ! ns = (8 \<le> ns)"
    using ent [of ns] by (simp add: res(2))
qed

text \<open>Newest row first: the decision of every reachable state is the state's own newest bit.\<close>

fun rows_ok :: "nat \<Rightarrow> bits list \<Rightarrow> bool" where
  "rows_ok t [] \<longleftrightarrow> t = 0"
| "rows_ok t (row # rows) \<longleftrightarrow>
     0 < t \<and> (\<forall>ns<16. reach t ns \<longrightarrow> row ! ns = (8 \<le> ns)) \<and> rows_ok (t - 1) rows"

lemma vec_forward_ok:
  assumes "list_all soft_ok softs" "pm_ok t pm" "rows_ok t rows" "t + length softs \<le> 3000"
  shows "pm_ok (t + length softs) (fst (vec_forward softs pm rows)) \<and>
    rows_ok (t + length softs) (snd (vec_forward softs pm rows))"
  using assms
proof (induction softs arbitrary: t pm rows)
  case (Cons s softs)
  obtain pm' row where st: "vec_stage s pm = (pm', row)" by (rule prod.exhaust)
  have t: "t < 3000" and s: "soft_ok s" using Cons.prems by auto
  have "pm_ok (Suc t) pm'" using vec_stage_ok(1) [OF s Cons.prems(2) t] by (simp add: st)
  moreover have "rows_ok (Suc t) (row # rows)"
    using vec_stage_ok(2) [OF s Cons.prems(2) t] Cons.prems(3) by (simp add: st)
  ultimately show ?case using Cons.IH [of "Suc t" pm' "row # rows"] Cons.prems by (simp add: st)
qed simp

subsection \<open>The traceback\<close>

definition state_bits :: "nat \<Rightarrow> bits" where
  "state_bits st = map (bit st) [0, 1, 2, 3]"

lemma state_bits_prev:
  assumes "ns < 16"
  shows "state_bits (2 * (ns mod 8)) @ [8 \<le> ns] = False # state_bits ns"
proof -
  have "list_all (\<lambda>ns. state_bits (2 * (ns mod 8)) @ [8 \<le> ns] = False # state_bits ns) [0..<16]"
    by code_simp
  then show ?thesis using assms by (simp add: list_all_iff)
qed

lemma length_state_bits [simp]: "length (state_bits st) = 4"
  by (simp add: state_bits_def)

lemma traceback_even:
  assumes "rows_ok t rows" "st < 16" "reach t st"
  shows "vec_traceback rows st dec = replicate (t - 4) False @ drop (4 - t) (state_bits st) @ dec"
  using assms
proof (induction rows arbitrary: t st dec)
  case (Cons row rows)
  then obtain u where t: "t = Suc u" by (cases t) auto
  let ?p = "2 * (st mod 8)"
  have row: "row ! st = (8 \<le> st)" using Cons.prems t by simp
  have r: "reach u ?p" using Cons.prems t by (intro reach_prev) auto
  have "vec_traceback (row # rows) st dec
      = replicate (u - 4) False @ drop (4 - u) (state_bits ?p) @ (8 \<le> st) # dec"
    using Cons.IH [of u ?p] Cons.prems r by (simp add: row first_prev_even t)
  also have "drop (4 - u) (state_bits ?p) @ (8 \<le> st) # dec
      = drop (4 - u) (False # state_bits st) @ dec"
    using arg_cong [OF state_bits_prev [OF Cons.prems(2)], of "\<lambda>l. drop (4 - u) l @ dec"] by simp
  also have "replicate (u - 4) False @ drop (4 - u) (False # state_bits st) @ dec
      = replicate (t - 4) False @ drop (4 - t) (state_bits st) @ dec"
  proof (cases "u < 4")
    case True
    then have "4 - u = Suc (4 - t)" by (simp add: t)
    then show ?thesis using True t by simp
  next
    case False
    then have "t - 4 = Suc (u - 4)" by (simp add: t)
    then show ?thesis using False t by (simp add: replicate_app_Cons_same)
  qed
  finally show ?case .
qed simp

subsection \<open>What the decoder returns\<close>

lemma init_ok: "pm_ok 0 ((replicate 16 PM_INF)[0 := 0])"
  by (simp add: pm_ok_def reach_0 nth_list_update)

lemma pm_ok_min:
  assumes "pm_ok t pm" "21 * int t < PM_INF"
  shows "py_index pm (py_min pm) < 16" "reach t (py_index pm (py_min pm))"
proof -
  have len: "length pm = 16" using assms(1) by (simp add: pm_ok_def)
  have min: "py_min pm \<in> set pm" using len by (intro py_min_in) auto
  show less: "py_index pm (py_min pm) < 16" using py_index_less [OF min] len by simp
  have "reach t 0" by (simp add: reach_def)
  then have "pm ! 0 \<le> 21 * int t" using assms(1) by (auto simp: pm_ok_def)
  moreover have "py_min pm \<le> pm ! 0" using len by (simp add: py_min_le)
  ultimately have "pm ! py_index pm (py_min pm) \<noteq> PM_INF"
    using assms(2) by (simp add: nth_py_index [OF min])
  then show "reach t (py_index pm (py_min pm))"
    using assms(1) less unfolding pm_ok_def by (metis (full_types))
qed

text \<open>The soft-decision reference decoder of \<open>gen_viterbi_vectors.py\<close> ignores what it
  receives but for the choice of one state: for every list of at most 3000 soft triplets its output
  is that state's four bits, behind zeros.  Its survivors record the newest bit of every state,
  which does not tell the two predecessors apart, and the traceback takes the first of them.\<close>

lemma vector_decoder_zeros:
  assumes "list_all soft_ok softs" "length softs \<le> 3000"
  shows "\<exists>st<16. viterbi_decode softs depth =
    replicate (length softs - 4) False @ drop (4 - length softs) (state_bits st)"
proof -
  obtain pm rows where f: "vec_forward softs ((replicate 16 PM_INF)[0 := 0]) [] = (pm, rows)"
    by (rule prod.exhaust)
  have ok: "pm_ok (length softs) pm" "rows_ok (length softs) rows"
    using vec_forward_ok [OF assms(1) init_ok, of "[]"] assms(2) by (simp_all add: f)
  have "21 * int (length softs) < PM_INF" using assms(2) by (simp add: PM_INF_def)
  note best = pm_ok_min [OF ok(1) this]
  have "viterbi_decode softs depth = vec_traceback rows (py_index pm (py_min pm)) []"
    by (simp add: viterbi_decode_def f)
  then show ?thesis using traceback_even [OF ok(2) best] best(1) by auto
qed

lemma next_soft_ok:
  assumes "next_soft k rx = (s, rx')"
  shows "0 \<le> s \<and> s \<le> 7"
  using assms by (auto simp: next_soft_def hard_to_soft_def split: if_splits list.splits)

lemma depuncture_loop_ok:
  "list_all soft_ok (depuncture_loop p i n rx) \<and> length (depuncture_loop p i n rx) = n"
proof (induction n arbitrary: i rx)
  case (Suc n)
  then show ?case
    by (auto simp: soft_ok_def Let_def dest: next_soft_ok split: prod.splits)
qed simp

lemma length_flat_triplets [simp]: "length (flat_triplets ts) = 3 * length ts"
  by (induction ts rule: flat_triplets.induct) simp_all

lemma zip_thirds_ok:
  "list_all soft_ok (zip_thirds (map hard_to_soft xs)) \<and> length (zip_thirds xs) = length xs div 3"
  by (induction xs rule: zip_thirds.induct) (auto simp: soft_ok_def hard_to_soft_def)

lemma length_zip_thirds [simp]: "length (zip_thirds xs) = length xs div 3"
  by (induction xs rule: zip_thirds.induct) simp_all

lemma length_encode_block [simp]:
  "length (encode_block data tail) = length data + (if tail then 4 else 0)"
  by (simp add: encode_block_def with_tail_def)

text \<open>Every test case of the generator with at most 2996 data bits, punctured or not and at every
  noise level, decodes to zeros, so \<open>print_tc\<close> reports a match exactly when all its data bits are
  zero; an empty puncturing pattern is the only way to an exception.\<close>

theorem print_tc_matches_only_zeros:
  assumes "length data \<le> 2996"
  shows "print_tc data punct snr depth =
    (if punct = Some [] then Inl ZeroDivisionError
     else Inr (list_all Not data, replicate (length data) False))"
proof (cases "punct = Some []")
  case True
  have "encode_block data True \<noteq> []" using length_encode_block [of data True] by fastforce
  then show ?thesis by (simp add: print_tc_def puncture_tc_def True)
next
  case False
  have dec: "take (length data) (viterbi_decode softs depth) = replicate (length data) False"
    if s: "list_all soft_ok softs" "length softs = length data + 4" for softs
    using vector_decoder_zeros [OF s(1), of depth] assms s(2) by auto
  have zeros: "replicate (length data) False = data \<longleftrightarrow> list_all Not data"
    by (induction data) auto
  show ?thesis
  proof (cases punct)
    case None
    then show ?thesis
      using zip_thirds_ok [of "map of_bool (flat_triplets (encode_block data True))"]
      by (simp add: print_tc_def puncture_tc_def depuncture_tc_def dec zeros)
  next
    case (Some p)
    then show ?thesis using False
      by (simp add: print_tc_def puncture_tc_def depuncture_tc_def Let_def depuncture_loop_ok dec
          zeros)
  qed
qed

theorem print_tc_witness:
  "print_tc [True, False, True, True, False, False, True, False] PUNCT_NONE 0 20
   = Inr (False, replicate 8 False)"
  using print_tc_matches_only_zeros
    [of "[True, False, True, True, False, False, True, False]" PUNCT_NONE 0 20]
  by (simp add: PUNCT_NONE_def numeral_eq_Suc)

lemma depuncture_nonzero:
  assumes "\<And>b. f b \<noteq> 0"
  shows "depuncture_loop [True, True, False] i (length ts)
      (map f (concat (map (puncture_triplet [True, True, False]) ts))) = replicate (length ts) (7, 7, 4)"
proof (induction ts arbitrary: i)
  case (Cons t ts)
  have keep: "keep_at [True, True, False] (i * 3)" "keep_at [True, True, False] (Suc (i * 3))"
    "\<not> keep_at [True, True, False] (Suc (Suc (i * 3)))"
    "keep_at [True, True, False] 0" "keep_at [True, True, False] (Suc 0)"
    "\<not> keep_at [True, True, False] 2" for i
    by (simp_all add: keep_at_def mod_Suc)
  show ?case
    using Cons [of "Suc i"]
    by (cases t) (simp add: puncture_triplet_def keep next_soft_def hard_to_soft_def assms)
qed simp

text \<open>In a punctured test case every nonzero noise level erases the data: \<open>add_soft_noise\<close> maps a
  zero bit to 1, 2 or 3, \<open>depuncture\<close> reads every nonzero value as a hard one, and what is decoded
  is the same list for all data of one length.\<close>

theorem noisy_punctured_constant:
  assumes "snr \<noteq> 0"
  shows "bind_res (puncture_tc (encode_block data True) PUNCT_RATE_2_3)
      (\<lambda>flat. depuncture_tc (add_soft_noise flat snr) PUNCT_RATE_2_3 (length data + 4)) =
    Inr (replicate (length data + 4) (7, 7, 4))"
proof -
  define f :: "bool \<Rightarrow> int" where
    "f = (\<lambda>b. if snr = 1 then (if b then 6 else 1) else if snr = 2 then (if b then 5 else 2)
              else (if b then 4 else 3))"
  have "add_soft_noise flat snr = map f flat" for flat
    using assms by (simp add: add_soft_noise_def f_def)
  moreover have "f b \<noteq> 0" for b by (simp add: f_def)
  ultimately show ?thesis
    using depuncture_nonzero [of f 0 "encode_block data True"]
    by (simp add: puncture_tc_def depuncture_tc_def PUNCT_RATE_2_3_def)
qed

lemma replicate_eq: "replicate 4 x = [x, x, x, x]"
  by (simp add: numeral_eq_Suc)

text \<open>Both generators encode alike, and four tail zeros return the register to state 0 from any
  data.\<close>

theorem vector_encoders_agree:
  "rcpc_encode_block data tail = (encode_block data tail, snd (rcpc_encode_block data tail)) \<and>
   snd (rcpc_encode_block data True) = 0 \<and>
   length (encode_block data tail) = length data + (if tail then 4 else 0)"
proof -
  have "foldl next_sr (foldl next_sr 0 data) (replicate 4 False) = 0"
    using foldl_next_sr_less [of 0 data]
    by (simp add: next_sr_def replicate_eq div_mult2_eq [symmetric])
  then show ?thesis
    by (simp add: rcpc_encode_block_def encode_block_def rcpc_run_eq encode_run_state with_tail_def
        prod_eq_iff)
qed

theorem noisy_punctured_witness:
  "bind_res (puncture_tc (encode_block [True, False, True] True) PUNCT_RATE_2_3)
      (\<lambda>flat. depuncture_tc (add_soft_noise flat 1) PUNCT_RATE_2_3 7) = Inr (replicate 7 (7, 7, 4))"
  using noisy_punctured_constant [of 1 "[True, False, True]"] by simp

end
