(* ===== verification/RtlViterbi.thy ===== *)
theory RtlViterbi
  imports VectorViterbi Crc Interleaver Scrambler
begin

unbundle bit_operations_syntax

text \<open>
  \<open>scripts/verify_sch_hu_decode.py\<close>: the path of a random access burst through the receiver as the
  RTL computes it (8-bit soft values, descrambling of signs, depuncturing with erasures, an
  add-compare-select decoder with 3-bit soft values, CRC register).

  A state of the decoder is its four-bit register, newest input in bit 3; a branch is known by its
  new state and the lowest bit of its predecessor.  The survivor memory is the list of its columns,
  newest first.

  The lemmas show that the decoder is a nearest-sequence decoder in spite of its 16-bit cap and its
  normalisation.  The code it decodes is not the code of the channel: its branch outputs are those
  of the generators read backwards.
\<close>

subsection \<open>Soft values\<close>

definition to_vit_soft :: "int \<Rightarrow> int" where
  "to_vit_soft signed8 =
     (let top4 = drop_bit 4 signed8; diff = 4 - top4
      in if diff < 0 then 0 else if 7 < diff then 7 else diff)"

definition descramble_signs :: "int list \<Rightarrow> int \<Rightarrow> int list res" where
  "descramble_signs softs scramb_init =
     (if 168 < length softs then Inl IndexError
      else Inr (map (\<lambda>(s, x). if x then - s else s) (zip softs (scrambler_seq scramb_init 168))))"

type_synonym quad = "int \<times> int \<times> int \<times> int"

text \<open>One soft value of the mother code and what is left of the received ones.\<close>

definition next_vit :: "nat \<Rightarrow> int list \<Rightarrow> (int \<times> int list) res" where
  "next_vit mother_pos buf =
     (if mother_pos mod 8 \<in> {0, 1, 4}
      then (case buf of [] \<Rightarrow> Inl IndexError | v # rest \<Rightarrow> Inr (to_vit_soft v, rest))
      else Inr (4, buf))"

fun feed_loop :: "nat \<Rightarrow> nat \<Rightarrow> int list \<Rightarrow> quad list res" where
  "feed_loop stage 0 buf = Inr []"
| "feed_loop stage (Suc n) buf =
     bind_res (next_vit (stage * 4) buf) (\<lambda>(a, buf).
     bind_res (next_vit (stage * 4 + 1) buf) (\<lambda>(b, buf).
     bind_res (next_vit (stage * 4 + 2) buf) (\<lambda>(c, buf).
     bind_res (next_vit (stage * 4 + 3) buf) (\<lambda>(d, buf).
     bind_res (feed_loop (stage + 1) n buf) (\<lambda>quads. Inr ((a, b, c, d) # quads))))))"

definition feed_vit_quads :: "int list \<Rightarrow> quad list res" where
  "feed_vit_quads buf_deint = feed_loop 0 112 buf_deint"

subsection \<open>Decoder\<close>

type_synonym code4 = "bool \<times> bool \<times> bool \<times> bool"

definition gens_p0 :: "code4 list" where
  "gens_p0 =
     map (\<lambda>s. ((drop_bit 3 s XOR s) AND 1 = 1,
               (drop_bit 3 s XOR drop_bit 2 s XOR drop_bit 1 s) AND 1 = 1,
               (drop_bit 3 s XOR drop_bit 1 s XOR s) AND 1 = 1,
               (drop_bit 3 s XOR drop_bit 2 s XOR s) AND 1 = (1 :: nat))) [0..<16]"

definition RTL_INF :: int where
  "RTL_INF = 0xFFFF"

definition rtl_bm0 :: "quad \<Rightarrow> code4 \<Rightarrow> int" where
  "rtl_bm0 = (\<lambda>(s0, s1, s2, s3) (g1, g2, g3, g4).
     (if g1 then 7 - s0 else s0) + (if g2 then 7 - s1 else s1) + (if g3 then 7 - s2 else s2)
     + (if g4 then 7 - s3 else s3))"

definition rtl_acs :: "quad \<Rightarrow> int list \<Rightarrow> nat \<Rightarrow> bool \<times> int" where
  "rtl_acs quad pm st =
     (let bm0 = rtl_bm0 quad (gens_p0 ! st);
          bm1 = 28 - bm0;
          p0 = push_bit 1 (st AND 7);
          p1 = p0 OR 1;
          c0 = pm ! p0 + bm0;
          c1 = pm ! p1 + bm1
      in if c1 < c0 then (True, c1) else (False, c0))"

definition rtl_stage :: "quad \<Rightarrow> int list \<Rightarrow> int list \<times> bool list" where
  "rtl_stage quad pm =
     (let acs = map (rtl_acs quad pm) [0..<16];
          raw = map snd acs;
          mn = py_min raw
      in (map (\<lambda>r. min (r - mn) RTL_INF) raw, map fst acs))"

fun rtl_forward :: "quad list \<Rightarrow> int list \<Rightarrow> bool list list \<Rightarrow> int list \<times> bool list list" where
  "rtl_forward [] pm surv = (pm, surv)"
| "rtl_forward (q # qs) pm surv =
     (let (pm, col) = rtl_stage q pm in rtl_forward qs pm (col # surv))"

fun rtl_traceback :: "bool list list \<Rightarrow> nat \<Rightarrow> bits \<Rightarrow> bits" where
  "rtl_traceback [] st out = out"
| "rtl_traceback (col # surv) st out =
     rtl_traceback surv (push_bit 1 (st AND 7) OR of_bool (col ! st)) (bit st 3 # out)"

definition viterbi_rtl_mirror :: "quad list \<Rightarrow> nat \<Rightarrow> bits res" where
  "viterbi_rtl_mirror quads num_stages =
     (if length quads < num_stages then Inl IndexError
      else
        let (pm, surv) = rtl_forward (take num_stages quads) ((replicate 16 RTL_INF)[0 := 0]) [];
            best = py_index pm (py_min pm);
            out = rtl_traceback surv best []
        in Inr (py_slice out 0 (int num_stages - 4)))"

definition crc16_msb_residue :: "bits \<Rightarrow> 16 word" where
  "crc16_msb_residue bits =
     foldl (\<lambda>crc b. let fb = (bit crc 15 \<noteq> b); crc = push_bit 1 crc
                    in if fb then crc XOR 0x1021 else crc) 0xFFFF bits"

definition bits_to_hex16 :: "bits \<Rightarrow> int res" where
  "bits_to_hex16 bits =
     (if length bits < 16 then Inl IndexError
      else Inr (foldl (\<lambda>v b. push_bit 1 v OR of_bool b) 0 (take 16 bits)))"

text \<open>The RTL path of \<open>main\<close> for the soft values of one burst: information, CRC verdict and residue.
  The hexadecimal form of the first 16 information bits is only printed, but needs them to be there.\<close>

definition rtl_path :: "int list \<Rightarrow> int \<Rightarrow> (bits \<times> bool \<times> 16 word) res" where
  "rtl_path soft scramb_init =
     bind_res (descramble_signs soft scramb_init) (\<lambda>ds.
     bind_res (deinterleave_hu ds) (\<lambda>di.
     bind_res (feed_vit_quads di) (\<lambda>quads.
     bind_res (viterbi_rtl_mirror quads 112) (\<lambda>decoded.
     let info_mirror = take 92 decoded
     in bind_res (bits_to_hex16 info_mirror) (\<lambda>_.
       let crc_residue = crc16_msb_residue decoded
       in Inr (info_mirror, crc_residue = 0x1D0F, crc_residue))))))"

subsection \<open>The decoder picks a nearest sequence\<close>

definition rtl_next :: "nat \<Rightarrow> bool \<Rightarrow> nat" where
  "rtl_next p b = (if b then 8 else 0) + p div 2"

text \<open>The outputs of the branch from \<open>p\<close> with input \<open>b\<close>.\<close>

definition rtl_out :: "nat \<Rightarrow> bool \<Rightarrow> code4" where
  "rtl_out p b =
     (let (g1, g2, g3, g4) = gens_p0 ! rtl_next p b
      in (g1 \<noteq> odd p, g2 \<noteq> odd p, g3 \<noteq> odd p, g4 \<noteq> odd p))"

fun rtl_encode :: "nat \<Rightarrow> bits \<Rightarrow> code4 list" where
  "rtl_encode p [] = []"
| "rtl_encode p (b # bs) = rtl_out p b # rtl_encode (rtl_next p b) bs"

fun quad_dist :: "quad list \<Rightarrow> code4 list \<Rightarrow> int" where
  "quad_dist (q # qs) (e # es) = rtl_bm0 q e + quad_dist qs es"
| "quad_dist _ _ = 0"

definition quad_ok :: "quad \<Rightarrow> bool" where
  "quad_ok = (\<lambda>(a, b, c, d). {a, b, c, d} \<subseteq> {0..7})"

lemma rtl_next_less: "p < 16 \<Longrightarrow> rtl_next p b < 16"
  by (auto simp: rtl_next_def)

lemma run_rtl_less: "p < 16 \<Longrightarrow> foldl rtl_next p us < 16"
  by (induction us arbitrary: p) (simp_all add: rtl_next_less)

lemma rtl_pred:
  "push_bit 1 (st AND 7) = 2 * (st mod 8 :: nat)" "2 * n OR 1 = 2 * n + (1 :: nat)"
  "2 * n OR of_bool b = 2 * n + (of_bool b :: nat)"
proof -
  have "(7 :: nat) = mask 3" by (simp add: mask_eq_exp_minus_1)
  then have "st AND 7 = st mod 8" by (simp only: take_bit_eq_mask [symmetric]) (simp add: take_bit_eq_mod)
  then show "push_bit 1 (st AND 7) = 2 * (st mod 8)" by (simp add: push_bit_eq_mult mult.commute)
  show *: "2 * n OR 1 = 2 * n + 1" by (simp only: or_one_eq) simp
  show "2 * n OR of_bool b = 2 * n + of_bool b" using * by (cases b) simp_all
qed

lemma bit_3: "st < 16 \<Longrightarrow> bit st 3 = (8 \<le> (st :: nat))"
  by (auto simp: bit_iff_odd) presburger+

lemma rtl_next_pred:
  assumes "st < 16"
  shows "rtl_next (2 * (st mod 8) + of_bool b) (bit st 3) = st"
proof -
  have "st mod 8 = (if 8 \<le> st then st - 8 else st)" using assms by (simp add: le_mod_geq)
  then show ?thesis using assms by (simp add: rtl_next_def bit_3)
qed

lemma rtl_pred_next: "p < 16 \<Longrightarrow> p = 2 * (rtl_next p b mod 8) + of_bool (odd p) \<and> bit (rtl_next p b) 3 = b"
  by (cases b) (auto simp: rtl_next_def bit_3 elim!: oddE evenE)

lemma bm0_bounds: "quad_ok q \<Longrightarrow> 0 \<le> rtl_bm0 q e \<and> rtl_bm0 q e \<le> 28"
  by (cases q; cases e) (auto simp: quad_ok_def rtl_bm0_def)

lemma bm0_complement: "rtl_bm0 q (\<not> a, \<not> b, \<not> c, \<not> d) = 28 - rtl_bm0 q (a, b, c, d)"
  by (cases q) (simp add: rtl_bm0_def)

text \<open>The two candidates of a state.\<close>

lemma rtl_candidates:
  assumes "st < 16"
  shows "rtl_acs q pm st =
    (let p = 2 * (st mod 8); b = bit st 3; c0 = pm ! p + rtl_bm0 q (rtl_out p b);
         c1 = pm ! (p + 1) + rtl_bm0 q (rtl_out (p + 1) b)
     in if c1 < c0 then (True, c1) else (False, c0))"
proof -
  let ?p = "2 * (st mod 8)" and ?b = "bit st 3"
  have n: "rtl_next ?p ?b = st" "rtl_next (?p + 1) ?b = st"
    using rtl_next_pred [OF assms, of False] rtl_next_pred [OF assms, of True] by simp_all
  obtain g1 g2 g3 g4 where g: "gens_p0 ! st = (g1, g2, g3, g4)" by (cases "gens_p0 ! st")
  have "rtl_out ?p ?b = (g1, g2, g3, g4)" "rtl_out (?p + 1) ?b = (\<not> g1, \<not> g2, \<not> g3, \<not> g4)"
    by (simp_all only: rtl_out_def n g Let_def prod.case) simp_all
  then show ?thesis
    by (simp only: rtl_acs_def rtl_pred g Let_def bm0_complement)
qed

lemma rtl_choice:
  fixes q pm
  assumes "st < 16"
  defines "r \<equiv> rtl_acs q pm st"
  defines "p \<equiv> 2 * (st mod 8) + of_bool (fst r)"
  shows "snd r = pm ! p + rtl_bm0 q (rtl_out p (bit st 3))"
    and "p' = 2 * (st mod 8) + of_bool c \<Longrightarrow> snd r \<le> pm ! p' + rtl_bm0 q (rtl_out p' (bit st 3))"
  unfolding p_def r_def rtl_candidates [OF assms(1)] Let_def by (cases c; simp)+

lemma rtl_stage_nth:
  fixes q pm
  assumes "st < 16"
  defines "mn \<equiv> py_min (map (\<lambda>st. snd (rtl_acs q pm st)) [0..<16])"
  shows "fst (rtl_stage q pm) ! st = min (snd (rtl_acs q pm st) - mn) RTL_INF"
    and "snd (rtl_stage q pm) ! st = fst (rtl_acs q pm st)"
    and "mn \<le> snd (rtl_acs q pm st)" and "\<exists>s < 16. mn = snd (rtl_acs q pm s)"
proof -
  let ?raw = "map (\<lambda>st. snd (rtl_acs q pm st)) [0..<16]"
  show "fst (rtl_stage q pm) ! st = min (snd (rtl_acs q pm st) - mn) RTL_INF"
    "snd (rtl_stage q pm) ! st = fst (rtl_acs q pm st)"
    using assms(1) by (simp_all add: rtl_stage_def mn_def Let_def comp_def)
  show "mn \<le> snd (rtl_acs q pm st)" using assms(1) by (auto simp: mn_def intro!: py_min_le)
  have "py_min ?raw \<in> set ?raw" by (rule py_min_in) simp
  then show "\<exists>s < 16. mn = snd (rtl_acs q pm s)" by (auto simp: mn_def)
qed

lemma length_rtl_stage: "length (fst (rtl_stage q pm)) = 16"
  by (simp add: rtl_stage_def Let_def)

lemma length_rtl_encode [simp]: "length (rtl_encode p us) = length us"
  by (induction us arbitrary: p) simp_all

lemma rtl_encode_append:
  "rtl_encode p (us @ [b]) = rtl_encode p us @ [rtl_out (foldl rtl_next p us) b]"
  by (induction us arbitrary: p) simp_all

lemma quad_dist_append:
  "length qs = length es \<Longrightarrow> quad_dist (qs @ [q]) (es @ [e]) = quad_dist qs es + rtl_bm0 q e"
  by (induction qs es rule: list_induct2) simp_all

lemma quad_dist_bounds:
  "list_all quad_ok qs \<Longrightarrow> 0 \<le> quad_dist qs es \<and> quad_dist qs es \<le> 28 * int (length qs)"
proof (induction qs es rule: quad_dist.induct)
  case (1 q qs e es)
  then show ?case using bm0_bounds [of q e] by simp
qed simp_all

lemma rtl_traceback_acc: "rtl_traceback surv st out = rtl_traceback surv st [] @ out"
proof (induction surv arbitrary: st out)
  case (Cons col surv)
  show ?case
    using Cons [of "push_bit 1 (st AND 7) OR of_bool (col ! st)" "bit st 3 # out"]
      Cons [of "push_bit 1 (st AND 7) OR of_bool (col ! st)" "[bit st 3]"]
    by simp
qed simp

fun rtl_start :: "bool list list \<Rightarrow> nat \<Rightarrow> nat" where
  "rtl_start [] st = st"
| "rtl_start (col # surv) st = rtl_start surv (2 * (st mod 8) + of_bool (col ! st))"

text \<open>After the quads \<open>qs\<close> the metrics are path costs less \<open>K\<close>: attained by the traced path when it
  starts in state 0, at least the cap less \<open>K\<close> otherwise, and never above the cost of a path
  from state 0.\<close>

definition rtl_inv :: "int \<Rightarrow> quad list \<Rightarrow> int list \<Rightarrow> bool list list \<Rightarrow> bool" where
  "rtl_inv K qs pm surv \<longleftrightarrow> length pm = 16 \<and> 0 \<le> K \<and> (\<forall>st < 16. 0 \<le> pm ! st \<and>
     (let us = rtl_traceback surv st []; p = rtl_start surv st
      in length us = length qs \<and> foldl rtl_next p us = st \<and>
         (if p = 0 then pm ! st = quad_dist qs (rtl_encode 0 us) - K else RTL_INF - K \<le> pm ! st)) \<and>
     (\<forall>us. length us = length qs \<and> foldl rtl_next 0 us = st \<longrightarrow>
        pm ! st \<le> quad_dist qs (rtl_encode 0 us) - K))"

lemma rtl_inv_step:
  assumes "rtl_inv K qs pm surv" "list_all quad_ok (qs @ [q])" "28 * int (length (qs @ [q])) \<le> RTL_INF"
  shows "\<exists>K'. rtl_inv K' (qs @ [q]) (fst (rtl_stage q pm)) (snd (rtl_stage q pm) # surv)"
proof -
  define mn where "mn = py_min (map (\<lambda>st. snd (rtl_acs q pm st)) [0..<16])"
  note stage = rtl_stage_nth [of _ q pm, folded mn_def]
  have q: "0 \<le> rtl_bm0 q e" for e using bm0_bounds assms(2) by auto
  have inv: "0 \<le> K" and pos: "\<And>st. st < 16 \<Longrightarrow> 0 \<le> pm ! st" using assms(1) by (auto simp: rtl_inv_def)
  have p16: "2 * (st mod 8) + of_bool c < (16 :: nat)" for st c
  proof -
    have "st mod 8 < 8" by simp
    then show ?thesis by (cases c; simp)
  qed
  have cand: "0 \<le> snd (rtl_acs q pm st)" if "st < 16" for st
    using rtl_choice(1) [OF that, of q pm] pos [OF p16] q by simp
  have mn0: "0 \<le> mn" using stage(4) [of 0] cand by auto
  have "rtl_inv (K + mn) (qs @ [q]) (fst (rtl_stage q pm)) (snd (rtl_stage q pm) # surv)"
    unfolding rtl_inv_def
  proof (intro conjI allI impI)
    show "length (fst (rtl_stage q pm)) = 16" by (rule length_rtl_stage)
    show "0 \<le> K + mn" using inv mn0 by simp
    fix st :: nat assume st: "st < 16"
    let ?c = "snd (rtl_acs q pm st)" and ?b = "bit st 3"
    define p where "p = 2 * (st mod 8) + of_bool (fst (rtl_acs q pm st))"
    let ?us = "rtl_traceback surv p []" and ?s = "rtl_start surv p"
    have pm': "fst (rtl_stage q pm) ! st = min (?c - mn) RTL_INF" by (rule stage(1) [OF st])
    show "0 \<le> fst (rtl_stage q pm) ! st" using stage(3) [OF st] pm' by (simp add: RTL_INF_def)
    have c: "?c = pm ! p + rtl_bm0 q (rtl_out p ?b)" using rtl_choice(1) [OF st, of q pm] by (simp add: p_def)
    have p: "p < 16" "rtl_next p ?b = st" using p16 rtl_next_pred [OF st] by (simp_all add: p_def)
    have old: "length ?us = length qs" "foldl rtl_next ?s ?us = p"
      "if ?s = 0 then pm ! p = quad_dist qs (rtl_encode 0 ?us) - K else RTL_INF - K \<le> pm ! p"
      using assms(1) p(1) by (auto simp: rtl_inv_def Let_def)
    have tb: "rtl_traceback (snd (rtl_stage q pm) # surv) st [] = ?us @ [?b]"
      "rtl_start (snd (rtl_stage q pm) # surv) st = ?s"
      using rtl_traceback_acc [of surv p "[?b]"] 
      by (simp_all only: rtl_traceback.simps rtl_start.simps rtl_pred stage(2) [OF st] p_def)
    have d: "quad_dist (qs @ [q]) (rtl_encode 0 (?us @ [?b])) = quad_dist qs (rtl_encode 0 ?us) + rtl_bm0 q (rtl_out p ?b)"
      if "?s = 0" using that old(1,2) by (simp add: rtl_encode_append quad_dist_append)
    have le: "quad_dist (qs @ [q]) es \<le> RTL_INF" for es
      using quad_dist_bounds [OF assms(2), of es] assms(3) by simp
    show "let us = rtl_traceback (snd (rtl_stage q pm) # surv) st []; p = rtl_start (snd (rtl_stage q pm) # surv) st
      in length us = length (qs @ [q]) \<and> foldl rtl_next p us = st \<and>
         (if p = 0 then fst (rtl_stage q pm) ! st = quad_dist (qs @ [q]) (rtl_encode 0 us) - (K + mn)
          else RTL_INF - (K + mn) \<le> fst (rtl_stage q pm) ! st)"
      unfolding tb Let_def
    proof (intro conjI)
      show "if ?s = 0 then fst (rtl_stage q pm) ! st = quad_dist (qs @ [q]) (rtl_encode 0 (?us @ [?b])) - (K + mn)
          else RTL_INF - (K + mn) \<le> fst (rtl_stage q pm) ! st"
        using old(3) c d le [of "rtl_encode 0 (?us @ [?b])"] inv mn0 q [of "rtl_out p ?b"] unfolding pm' by auto
    qed (use old(1,2) p(2) in simp_all)
    show "fst (rtl_stage q pm) ! st \<le> quad_dist (qs @ [q]) (rtl_encode 0 us) - (K + mn)"
      if us: "length us = length (qs @ [q]) \<and> foldl rtl_next 0 us = st" for us
    proof -
      from us obtain vs b where vs: "us = vs @ [b]" "length vs = length qs"
        by (cases us rule: rev_cases) auto
      let ?p = "foldl rtl_next 0 vs"
      have p': "?p < 16" by (rule run_rtl_less) simp
      have n: "rtl_next ?p b = st" using us vs by simp
      have pb: "?p = 2 * (st mod 8) + of_bool (odd ?p)" "?b = b" using rtl_pred_next [OF p', of b] unfolding n by auto
      have "?c \<le> pm ! ?p + rtl_bm0 q (rtl_out ?p b)" unfolding pb(2) [symmetric] by (rule rtl_choice(2) [OF st pb(1)])
      moreover have "pm ! ?p \<le> quad_dist qs (rtl_encode 0 vs) - K"
        using assms(1) p' vs(2) by (auto simp: rtl_inv_def)
      ultimately show ?thesis using vs pm' by (simp add: rtl_encode_append quad_dist_append)
    qed
  qed
  then show ?thesis by blast
qed

lemma rtl_inv_init: "rtl_inv 0 [] ((replicate 16 RTL_INF)[0 := 0]) []"
  by (auto simp: rtl_inv_def nth_list_update RTL_INF_def)

lemma rtl_forward_inv:
  assumes "rtl_inv K prefix pm surv" "list_all quad_ok (prefix @ qs)" "28 * int (length (prefix @ qs)) \<le> RTL_INF"
  shows "\<exists>K'. rtl_inv K' (prefix @ qs) (fst (rtl_forward qs pm surv)) (snd (rtl_forward qs pm surv))"
  using assms
proof (induction qs arbitrary: K "prefix" pm surv)
  case (Cons q qs)
  obtain npm col where st: "rtl_stage q pm = (npm, col)" by fastforce
  obtain K' where "rtl_inv K' (prefix @ [q]) npm (col # surv)"
    using rtl_inv_step [OF Cons.prems(1), of q] Cons.prems(2,3) st by auto
  from Cons.IH [OF this] Cons.prems(2,3) show ?case by (simp add: st)
qed auto

lemma rtl_best:
  assumes "list_all quad_ok qs" "28 * int (length qs) < RTL_INF" "rtl_inv K qs pm surv"
  defines "us \<equiv> rtl_traceback surv (py_index pm (py_min pm)) []"
  shows "length us = length qs"
    and "length vs = length qs \<Longrightarrow> quad_dist qs (rtl_encode 0 us) \<le> quad_dist qs (rtl_encode 0 vs)"
proof -
  let ?best = "py_index pm (py_min pm)"
  have l: "length pm = 16" using assms(3) by (simp add: rtl_inv_def)
  then have m: "py_min pm \<in> set pm" by (intro py_min_in) auto
  have best: "?best < 16" "pm ! ?best = py_min pm"
    using py_index_less [OF m] nth_py_index [OF m] l by simp_all
  have inv: "length us = length qs" "if rtl_start surv ?best = 0 then pm ! ?best = quad_dist qs (rtl_encode 0 us) - K
      else RTL_INF - K \<le> pm ! ?best"
    using assms(3) best(1) by (auto simp: rtl_inv_def Let_def us_def)
  show "length us = length qs" by (rule inv)
  have le: "pm ! ?best \<le> quad_dist qs (rtl_encode 0 vs) - K" if "length vs = length qs" for vs
  proof -
    have e: "foldl rtl_next 0 vs < 16" by (rule run_rtl_less) simp
    then have "pm ! ?best \<le> pm ! foldl rtl_next 0 vs" using best(2) l by (simp add: py_min_le)
    also have "\<dots> \<le> quad_dist qs (rtl_encode 0 vs) - K" using assms(3) e that by (auto simp: rtl_inv_def)
    finally show ?thesis .
  qed
  have "rtl_start surv ?best = 0"
    using inv(2) le [of "replicate (length qs) False"] quad_dist_bounds [OF assms(1), of "rtl_encode 0 (replicate (length qs) False)"]
      assms(2) by (auto split: if_splits)
  then show "quad_dist qs (rtl_encode 0 us) \<le> quad_dist qs (rtl_encode 0 vs)" if "length vs = length qs"
    using inv(2) le [OF that] by simp
qed

subsection \<open>The code is that of the reversed generators\<close>

fun encode4 :: "nat \<times> nat \<times> nat \<times> nat \<Rightarrow> nat \<Rightarrow> bits \<Rightarrow> code4 list" where
  "encode4 Gs st [] = []"
| "encode4 (G1, G2, G3, G4) st (b # bs) =
     (g_out G1 st b, g_out G2 st b, g_out G3 st b, g_out G4 st b) # encode4 (G1, G2, G3, G4) (next_state st b) bs"

text \<open>The generators of the channel code, and the same read from the other end.\<close>

definition CHANNEL_GENS :: "nat \<times> nat \<times> nat \<times> nat" where
  "CHANNEL_GENS = (0x13, 0x1D, 0x17, 0x1B)"

definition REVERSED_GENS :: "nat \<times> nat \<times> nat \<times> nat" where
  "REVERSED_GENS = (0x19, 0x17, 0x1D, 0x1B)"

definition flatten4 :: "code4 list \<Rightarrow> bits" where
  "flatten4 cs = concat (map (\<lambda>(a, b, c, d). [a, b, c, d]) cs)"

lemma channel_gens: "flatten4 (encode4 CHANNEL_GENS 0 us) = conv_encode_r14 us"
proof -
  have "flatten4 (encode4 CHANNEL_GENS st us) = conv_encode_loop st us" for st
    by (induction us arbitrary: st) (simp_all add: flatten4_def CHANNEL_GENS_def conv_encode_step)
  then show ?thesis by (simp add: conv_encode_r14_def)
qed

definition rev4 :: "nat \<Rightarrow> nat" where
  "rev4 st = [0, 8, 4, 12, 2, 10, 6, 14, 1, 9, 5, 13, 3, 11, 7, 15] ! st"

lemma rev4_bits:
  assumes "st < 16"
  shows "bit (rev4 st) 0 = bit st 3" "bit (rev4 st) (Suc 0) = bit st 2" "bit (rev4 st) 2 = bit st 1"
    "bit (rev4 st) 3 = bit st 0" "rev4 st < 16"
proof -
  have "list_all (\<lambda>st. odd (rev4 st) = odd (st div 8) \<and> odd (rev4 st div 2) = odd (st div 4) \<and>
      odd (rev4 st div 4) = odd (st div 2) \<and> odd (rev4 st div 8) = odd st \<and> rev4 st < 16) [0..<16]"
    by (simp add: rev4_def upt_rec)
  then have "odd (rev4 st) = odd (st div 8) \<and> odd (rev4 st div 2) = odd (st div 4) \<and>
      odd (rev4 st div 4) = odd (st div 2) \<and> odd (rev4 st div 8) = odd st \<and> rev4 st < 16"
    using assms unfolding list_all_iff by simp
  then show "bit (rev4 st) 0 = bit st 3" "bit (rev4 st) (Suc 0) = bit st 2" "bit (rev4 st) 2 = bit st 1"
    "bit (rev4 st) 3 = bit st 0" "rev4 st < 16"
    by (simp_all add: bit_iff_odd)
qed

lemma gens_p0_nth:
  "s < 16 \<Longrightarrow> gens_p0 ! s =
    (bit s 3 \<noteq> bit s 0, bit s 3 \<noteq> (bit s 2 \<noteq> bit s (Suc 0)), bit s 3 \<noteq> (bit s (Suc 0) \<noteq> bit s 0),
     bit s 3 \<noteq> (bit s 2 \<noteq> bit s 0))"
proof -
  have odd: "x AND 1 = 1 \<longleftrightarrow> bit x 0" for x :: nat by (simp add: and_one_eq bit_0 odd_iff_mod_2_eq_one)
  have "gens_p0 ! s = ((drop_bit 3 s XOR s) AND 1 = 1, (drop_bit 3 s XOR drop_bit 2 s XOR drop_bit 1 s) AND 1 = 1,
      (drop_bit 3 s XOR drop_bit 1 s XOR s) AND 1 = 1, (drop_bit 3 s XOR drop_bit 2 s XOR s) AND 1 = 1)" if "s < 16"
    using that by (simp add: gens_p0_def)
  then show "s < 16 \<Longrightarrow> ?thesis" unfolding odd by (auto simp: bit_xor_iff bit_drop_bit_eq)
qed

lemma gens_p0_table [code]:
  "gens_p0 =
    [(False, False, False, False), (True, False, True, True), (False, True, True, False), (True,
     True, False, True), (False, True, False, True), (True, True, True, False), (False, False, True,
     True), (True, False, False, False), (True, True, True, True), (False, True, False, False),
     (True, False, False, True), (False, False, True, False), (True, False, True, False), (False,
     False, False, True), (True, True, False, False), (False, True, True, True)]"
proof (rule nth_equalityI)
  fix i assume "i < length gens_p0"
  then have "i \<in> set [0..<16]" by (simp add: gens_p0_def)
  then show "gens_p0 ! i =
    [(False, False, False, False), (True, False, True, True), (False, True, True, False), (True,
     True, False, True), (False, True, False, True), (True, True, True, False), (False, False, True,
     True), (True, False, False, False), (True, True, True, True), (False, True, False, False),
     (True, False, False, True), (False, False, True, False), (True, False, True, False), (False,
     False, False, True), (True, True, False, False), (False, True, True, True)] ! i"
    by (simp add: upt_rec) (elim disjE; simp add: gens_p0_nth bit_iff_odd)
qed (simp add: gens_p0_def)

lemma bit_rtl_next:
  assumes "p < 16"
  shows "bit (rtl_next p b) 0 = bit p (Suc 0)" "bit (rtl_next p b) (Suc 0) = bit p 2"
    "bit (rtl_next p b) 2 = bit p 3" "bit (rtl_next p b) 3 = b"
proof -
  have "list_all (\<lambda>p. list_all (\<lambda>b. odd (rtl_next p b) = odd (p div 2) \<and> odd (rtl_next p b div 2) = odd (p div 4) \<and>
      odd (rtl_next p b div 4) = odd (p div 8) \<and> odd (rtl_next p b div 8) = b) [True, False]) [0..<16]"
    by (simp add: rtl_next_def upt_rec)
  then have "odd (rtl_next p b) = odd (p div 2) \<and> odd (rtl_next p b div 2) = odd (p div 4) \<and>
      odd (rtl_next p b div 4) = odd (p div 8) \<and> odd (rtl_next p b div 8) = b"
    using assms unfolding list_all_iff by (cases b) simp_all
  then show "bit (rtl_next p b) 0 = bit p (Suc 0)" "bit (rtl_next p b) (Suc 0) = bit p 2"
    "bit (rtl_next p b) 2 = bit p 3" "bit (rtl_next p b) 3 = b"
    by (simp_all add: bit_iff_odd)
qed

lemma rtl_out_bits:
  assumes "p < 16"
  shows "rtl_out p b =
    (b \<noteq> (bit p (Suc 0) \<noteq> bit p 0), b \<noteq> (bit p 3 \<noteq> (bit p 2 \<noteq> bit p 0)), b \<noteq> (bit p 2 \<noteq> (bit p (Suc 0) \<noteq> bit p 0)),
     b \<noteq> (bit p 3 \<noteq> (bit p (Suc 0) \<noteq> bit p 0)))"
proof -
  have "odd p = bit p 0" by (simp add: bit_0)
  then show ?thesis
    unfolding rtl_out_def gens_p0_nth [OF rtl_next_less [OF assms]] bit_rtl_next [OF assms]
    by (auto simp: bit_rtl_next [OF assms] simp del: bit_0)
qed

lemma reversed_bits:
  "g_out 0x19 st b = (b \<noteq> (bit st 2 \<noteq> bit st 3))" "g_out 0x17 st b = (b \<noteq> (bit st 0 \<noteq> (bit st 1 \<noteq> bit st 3)))"
  "g_out 0x1B st b = (b \<noteq> (bit st 0 \<noteq> (bit st 2 \<noteq> bit st 3)))"
proof -
  have 19: "bit (0x19::nat) 0" "\<not> bit (0x19::nat) 1" "\<not> bit (0x19::nat) 2" "bit (0x19::nat) 3" "bit (0x19::nat) 4"
    and 17: "bit (0x17::nat) 0" "bit (0x17::nat) 1" "bit (0x17::nat) 2" "\<not> bit (0x17::nat) 3" "bit (0x17::nat) 4"
    and 27: "bit (0x1B::nat) 0" "bit (0x1B::nat) 1" "\<not> bit (0x1B::nat) 2" "bit (0x1B::nat) 3" "bit (0x1B::nat) 4"
    by (simp_all add: bit_iff_odd)
  have one: "bit (Suc 0) 0" by (simp add: bit_0)
  show "g_out 0x19 st b = (b \<noteq> (bit st 2 \<noteq> bit st 3))"
    unfolding g_out_def parity5_bits bit_and_iff bit_shift_in by (simp add: 19 one)
  show "g_out 0x17 st b = (b \<noteq> (bit st 0 \<noteq> (bit st 1 \<noteq> bit st 3)))"
    unfolding g_out_def parity5_bits bit_and_iff bit_shift_in by (simp add: 17 one)
  show "g_out 0x1B st b = (b \<noteq> (bit st 0 \<noteq> (bit st 2 \<noteq> bit st 3)))"
    unfolding g_out_def parity5_bits bit_and_iff bit_shift_in by (simp add: 27 one)
qed

lemma rev4_step:
  assumes "st < 16"
  shows "rtl_out (rev4 st) b = hd (encode4 REVERSED_GENS st [b])" "rtl_next (rev4 st) b = rev4 (next_state st b)"
proof -
  show "rtl_out (rev4 st) b = hd (encode4 REVERSED_GENS st [b])"
    using rev4_bits [OF assms]
    by (auto simp: REVERSED_GENS_def rtl_out_bits reversed_bits g_out_bits(2))
  have "list_all (\<lambda>st. list_all (\<lambda>b. rtl_next (rev4 st) b = rev4 ((2 * st + of_bool b) mod 16)) [True, False]) [0..<16]"
    by (simp add: rev4_def upt_rec rtl_next_def)
  then show "rtl_next (rev4 st) b = rev4 (next_state st b)"
    using assms unfolding list_all_iff next_state_eq by (cases b) simp_all
qed

lemma rtl_encode_reversed: "st < 16 \<Longrightarrow> rtl_encode (rev4 st) us = encode4 REVERSED_GENS st us"
proof (induction us arbitrary: st)
  case (Cons b us)
  have "next_state st b < 16" by (simp add: next_state_eq)
  from Cons.IH [OF this] show ?case
    by (simp add: rev4_step [OF Cons.prems]) (simp add: REVERSED_GENS_def)
qed simp

lemma rtl_encode_0: "rtl_encode 0 us = encode4 REVERSED_GENS 0 us"
  using rtl_encode_reversed [of 0 us] by (simp add: rev4_def)

lemma rtl_nearest:
  assumes "list_all quad_ok quads" "n \<le> length quads" "n \<le> 2340"
  shows "\<exists>us. length us = n \<and> viterbi_rtl_mirror quads n = Inr (py_slice us 0 (int n - 4)) \<and>
    (\<forall>vs. length vs = n \<longrightarrow> quad_dist (take n quads) (encode4 REVERSED_GENS 0 us)
       \<le> quad_dist (take n quads) (encode4 REVERSED_GENS 0 vs))"
proof -
  let ?qs = "take n quads"
  have ok: "list_all quad_ok ?qs" "length ?qs = n" using assms(1,2) by (auto simp: list_all_iff dest: in_set_takeD)
  have lt: "28 * int (length ?qs) < RTL_INF" using ok(2) assms(3) by (simp add: RTL_INF_def)
  obtain pm surv where f: "rtl_forward ?qs ((replicate 16 RTL_INF)[0 := 0]) [] = (pm, surv)" by fastforce
  obtain K where "rtl_inv K ?qs pm surv"
    using rtl_forward_inv [OF rtl_inv_init, of ?qs] ok lt f by auto
  note best = rtl_best [OF ok(1) lt this]
  have "viterbi_rtl_mirror quads n =
      Inr (py_slice (rtl_traceback surv (py_index pm (py_min pm)) []) 0 (int n - 4))"
    using assms(2) by (simp add: viterbi_rtl_mirror_def f)
  then show ?thesis using best ok(2) unfolding rtl_encode_0 by auto
qed

text \<open>C38. The decoder is a nearest-sequence decoder, in spite of the cap of its metrics and their
  normalisation: for up to 2340 stages of soft values from 0 to 7 it returns, without its four tail
  bits, an input sequence whose encoding by the reversed generators has the least distance to the
  soft values among all sequences of that length (it need not end in state 0).\<close>

theorem rtl_mirror_nearest:
  assumes "list_all quad_ok quads" "n \<le> length quads" "n \<le> 2340"
  shows "\<exists>us. length us = n \<and> viterbi_rtl_mirror quads n = Inr (py_slice us 0 (int n - 4)) \<and>
    (\<forall>vs. length vs = n \<longrightarrow> quad_dist (take n quads) (encode4 REVERSED_GENS 0 us)
       \<le> quad_dist (take n quads) (encode4 REVERSED_GENS 0 vs))"
  using assms by (rule rtl_nearest)

definition hard_quad :: "code4 \<Rightarrow> quad" where
  "hard_quad = (\<lambda>(a, b, c, d). (exp_soft a, exp_soft b, exp_soft c, exp_soft d))"

lemma hard_quad_dist:
  "0 \<le> rtl_bm0 (hard_quad e) e'" "rtl_bm0 (hard_quad e) e' \<le> 0 \<longleftrightarrow> e = e'"
  by (cases e; cases e'; simp add: hard_quad_def rtl_bm0_def exp_soft_def; fail)+

lemma quad_dist_hard: "0 \<le> quad_dist (map hard_quad cs) ds"
proof (induction cs arbitrary: ds)
  case (Cons c cs)
  then show ?case using hard_quad_dist(1) by (cases ds) (simp_all add: add_nonneg_nonneg)
qed simp

lemma quad_dist_zero:
  "length cs = length ds \<Longrightarrow> quad_dist (map hard_quad cs) ds \<le> 0 \<longleftrightarrow> cs = ds"
proof (induction cs ds rule: list_induct2)
  case (Cons c cs d ds)
  then show ?case
    using hard_quad_dist [of c d] quad_dist_hard [of cs ds] by (auto simp: add_nonpos_nonpos)
qed simp

lemma length_encode4 [simp]: "length (encode4 Gs st us) = length us"
proof -
  obtain a b c d where "Gs = (a, b, c, d)" by (cases Gs)
  then show ?thesis by (induction us arbitrary: st) simp_all
qed

lemma rtl_encode_inj:
  "length us = length vs \<Longrightarrow> rtl_encode p us = rtl_encode p vs \<Longrightarrow> p < 16 \<Longrightarrow> us = vs"
proof (induction us vs arbitrary: p rule: list_induct2)
  case (Cons u us v vs)
  then have "rtl_out p u = rtl_out p v" by simp
  then have "u = v" by (auto simp: rtl_out_bits [OF Cons.prems(2)])
  then show ?case using Cons rtl_next_less by simp
qed simp

lemma hard_quad_ok: "list_all quad_ok (map hard_quad cs)"
  by (auto simp: list_all_iff hard_quad_def quad_ok_def exp_soft_def)

theorem rtl_mirror_nearest_witness:
  "\<exists>us. length us = 5 \<and> viterbi_rtl_mirror (replicate 5 (0, 7, 4, 1)) 5 = Inr (py_slice us 0 1) \<and>
    (\<forall>vs. length vs = 5 \<longrightarrow> quad_dist (replicate 5 (0, 7, 4, 1)) (encode4 REVERSED_GENS 0 us)
       \<le> quad_dist (replicate 5 (0, 7, 4, 1)) (encode4 REVERSED_GENS 0 vs))"
  using rtl_mirror_nearest [of "replicate 5 (0, 7, 4, 1)" 5] by (simp add: list_all_iff quad_ok_def)

lemma two_ones:
  "map hard_quad (encode4 CHANNEL_GENS 0 ([True, True] @ replicate 4 False)) =
   [(7, 7, 7, 7), (0, 7, 0, 0), (7, 7, 0, 7), (0, 0, 7, 7), (7, 0, 7, 0), (7, 7, 7, 7)]"
  by (simp add: replicate_eq CHANNEL_GENS_def)
    (simp add: hard_quad_def exp_soft_def g_out_bits reversed_bits next_state_eq bit_iff_odd)

text \<open>What the decoder undoes is the code of the reversed generators, for all data and without
  errors; it does not undo the channel code: the error-free encoding of two ones (with its four
  tail bits) by the generators of the transmitter decodes to a one and a zero.\<close>

theorem rtl_mirror_reversed_code:
  assumes "length data \<le> 2336"
  shows "viterbi_rtl_mirror (map hard_quad (encode4 REVERSED_GENS 0 (data @ replicate 4 False))) (length data + 4)
     = Inr data \<and>
   viterbi_rtl_mirror (map hard_quad (encode4 CHANNEL_GENS 0 ([True, True] @ replicate 4 False))) 6
     = Inr [True, False]"
proof
  let ?us = "data @ replicate 4 False"
  let ?cs = "encode4 REVERSED_GENS 0 ?us" and ?n = "length data + 4"
  obtain vs where vs: "length vs = ?n" "viterbi_rtl_mirror (map hard_quad ?cs) ?n = Inr (py_slice vs 0 (int ?n - 4))"
    "quad_dist (map hard_quad ?cs) (encode4 REVERSED_GENS 0 vs) \<le> quad_dist (map hard_quad ?cs) ?cs"
    using rtl_nearest [OF hard_quad_ok, of ?n ?cs] assms by (auto simp: take_map)
  have "quad_dist (map hard_quad ?cs) ?cs \<le> 0" by (simp add: quad_dist_zero)
  then have "?cs = encode4 REVERSED_GENS 0 vs"
    using vs(1,3) quad_dist_zero [of ?cs "encode4 REVERSED_GENS 0 vs"] by simp
  then have "?us = vs" using vs(1) rtl_encode_inj [of ?us vs 0] by (simp add: rtl_encode_0)
  then have "py_slice vs 0 (int ?n - 4) = data" using py_slice_nonneg [of 0 "int (length data)" vs] by auto
  then show "viterbi_rtl_mirror (map hard_quad ?cs) ?n = Inr data" using vs(2) by simp
  show "viterbi_rtl_mirror (map hard_quad (encode4 CHANNEL_GENS 0 ([True, True] @ replicate 4 False))) 6
     = Inr [True, False]"
    unfolding two_ones by code_simp
qed

theorem rtl_mirror_reversed_code_witness:
  "viterbi_rtl_mirror (map hard_quad (encode4 REVERSED_GENS 0 [True, True, False, False, False, False])) 6 = Inr [True, True] \<and>
   viterbi_rtl_mirror (map hard_quad (encode4 CHANNEL_GENS 0 [True, True, False, False, False, False])) 6 = Inr [True, False]"
  using rtl_mirror_reversed_code [of "[True, True]"] by (simp add: numeral_eq_Suc)

subsection \<open>The whole path\<close>

lemma crc16_msb_residue_eq: "crc16_msb_residue bs = crc16_reg bs"
proof -
  have "foldl (\<lambda>crc b. let fb = bit crc 15 \<noteq> b; crc = push_bit 1 crc
          in if fb then crc XOR 0x1021 else crc) c bs = foldl crc_step_msb c bs" for c
    by (induction bs arbitrary: c) (simp_all add: crc_step_msb_def Let_def)
  then show ?thesis by (simp add: crc16_msb_residue_def crc16_reg_def)
qed

lemma residue_test: "crc16_msb_residue bs = 0x1D0F \<longleftrightarrow> crc16_check_dll bs"
proof -
  have "word_reverse (0x1D0F :: 16 word) = 0xF0B8" by code_simp
  then show ?thesis
    unfolding crc16_msb_residue_eq crc16_check_dll_def crc_dll_end by (metis word_rev_rev)
qed

lemma to_vit_soft_range: "0 \<le> to_vit_soft s \<and> to_vit_soft s \<le> 7"
  by (simp add: to_vit_soft_def Let_def)

lemma feed_loop_ok:
  "3 * k \<le> length buf \<Longrightarrow> even stage \<Longrightarrow>
   \<exists>quads. feed_loop stage (2 * k) buf = Inr quads \<and> length quads = 2 * k \<and> list_all quad_ok quads"
proof (induction k arbitrary: stage buf)
  case (Suc k)
  then obtain a b c rest where buf: "buf = a # b # c # rest"
    by (cases buf; cases "tl buf"; cases "tl (tl buf)") auto
  obtain i where i: "stage = 2 * i" using Suc.prems(2) by (elim evenE)
  have pos: "(2 * i) * 4 mod 8 = 0" "((2 * i) * 4 + 1) mod 8 = 1" "((2 * i) * 4 + 2) mod 8 = 2"
    "((2 * i) * 4 + 3) mod 8 = 3" "((2 * i + 1) * 4) mod 8 = 4" "((2 * i + 1) * 4 + 1) mod 8 = 5"
    "((2 * i + 1) * 4 + 2) mod 8 = 6" "((2 * i + 1) * 4 + 3) mod 8 = 7" by presburger+
  obtain quads where "feed_loop (2 * i + 1 + 1) (2 * k) rest = Inr quads" "length quads = 2 * k" "list_all quad_ok quads"
    using Suc.IH [of rest "2 * i + 1 + 1"] Suc.prems(1) buf by auto
  moreover have "2 * Suc k = Suc (Suc (2 * k))" by simp
  ultimately show ?case
    unfolding i using to_vit_soft_range
    by (simp only: feed_loop.simps next_vit_def pos buf bind_res_simps) (simp add: quad_ok_def)
qed simp

text \<open>C39. Every burst of 168 soft values, whatever they are, goes through the whole path without an
  exception: its 112 quads hold values from 0 to 7, the decoder returns 108 bits, and the verdict of
  the left-shifting CRC register (residue 0x1D0F) is the residue test of the receiver.\<close>

theorem rtl_path_typed:
  assumes "length soft = 168"
  shows "\<exists>ds di quads decoded. descramble_signs soft init = Inr ds \<and> deinterleave_hu ds = Inr di \<and>
    feed_vit_quads di = Inr quads \<and> length quads = 112 \<and> list_all quad_ok quads \<and>
    viterbi_rtl_mirror quads 112 = Inr decoded \<and> length decoded = 108 \<and>
    rtl_path soft init = Inr (take 92 decoded, crc16_check_dll decoded, crc16_reg decoded)"
proof -
  obtain ds where ds: "descramble_signs soft init = Inr ds" "length ds = 168"
    using assms by (simp add: descramble_signs_def)
  obtain di where di: "deinterleave_hu ds = Inr di" "length di = 168"
    using ds(2) by (simp add: deinterleave_hu_def gather_def)
  obtain quads where q: "feed_vit_quads di = Inr quads" "length quads = 112" "list_all quad_ok quads"
    using feed_loop_ok [of 56 di 0] di(2) by (auto simp: feed_vit_quads_def)
  obtain us where us: "length us = 112" "viterbi_rtl_mirror quads 112 = Inr (py_slice us 0 108)"
    using rtl_nearest [OF q(3), of 112] q(2) by auto
  have "length (py_slice us 0 108) = 108" using py_slice_nonneg [of 0 108 us] us(1) by simp
  then show ?thesis
    using ds di q us(2) residue_test by (auto simp: rtl_path_def crc16_msb_residue_eq bits_to_hex16_def Let_def)
qed

theorem rtl_path_typed_witness:
  "\<exists>info ok res. rtl_path (replicate 168 (- 128)) 5 = Inr (info, ok, res)"
  using rtl_path_typed [of "replicate 168 (- 128)" 5] by auto

end
