(* ===== verification/NetworkTime.thy ===== *)
theory NetworkTime
  imports PyData
begin

text \<open>
  The network time of \<open>scripts/decode_dl.py\<close> (class \<open>NetworkTime\<close>: timeslot, frame and multiframe with
  their wrap-arounds, and the BSCH and BNCH slots), the two BSCH slot computations of
  \<open>scripts/verify_sb1_encoder.py\<close>, and the walk of \<open>scripts/schedule.py\<close> that dates a burst from
  its distance to an anchor.

  The invariant of the clock is its range; the abstract clock is a slot index modulo
  60 * 18 * 4 = 4320, and \<open>advance\<close> adds one to it.
\<close>

record net_time =
  tn :: int
  fn :: int
  mn :: int
  synced :: bool

definition NetworkTime_init :: net_time where
  "NetworkTime_init = \<lparr>tn = 1, fn = 1, mn = 1, synced = False\<rparr>"

definition synchronize :: "int \<Rightarrow> int \<Rightarrow> int \<Rightarrow> net_time \<Rightarrow> net_time" where
  "synchronize air_tn air_fn air_mn s =
     (let t = air_tn + 1; f = air_fn; m = air_mn
      in s\<lparr>tn := (if 5 \<le> t then 4 else if t \<le> 0 then 1 else t),
           fn := (if 19 \<le> f then 18 else if f \<le> 0 then 1 else f),
           mn := (if 61 \<le> m then 60 else if m \<le> 0 then 1 else m),
           synced := True\<rparr>)"

definition advance :: "net_time \<Rightarrow> net_time" where
  "advance s =
     (let s = s\<lparr>tn := tn s + 1\<rparr>;
          s = (if 4 < tn s then s\<lparr>tn := 1, fn := fn s + 1\<rparr> else s);
          s = (if 18 < fn s then s\<lparr>fn := 1, mn := mn s + 1\<rparr> else s);
          s = (if 60 < mn s then s\<lparr>mn := 1\<rparr> else s)
      in s)"

definition is_bsch :: "net_time \<Rightarrow> bool" where
  "is_bsch s \<longleftrightarrow> fn s = 18 \<and> tn s = 4 - (mn s + 1) mod 4"

definition is_bnch :: "net_time \<Rightarrow> bool" where
  "is_bnch s \<longleftrightarrow> fn s = 18 \<and> tn s = 4 - (mn s + 3) mod 4"

text \<open>\<open>f"{v:02d}"\<close> of a non-negative value\<close>

definition pad2 :: "int \<Rightarrow> string" where
  "pad2 v = (let t = str_int v in if length t < 2 then CHR ''0'' # t else t)"

definition time_str :: "net_time \<Rightarrow> string" where
  "time_str s = ''TN='' @ str_int (tn s) @ '' FN='' @ pad2 (fn s) @ '' MN='' @ pad2 (mn s) @
     (if is_bsch s then '' BSCH'' else if is_bnch s then '' BNCH'' else [])"

subsection \<open>The slot of the beacon\<close>

definition sdb_slot_sw :: "int \<Rightarrow> int" where
  "sdb_slot_sw m = (let bsch_tn_1based = 4 - (m + 1) mod 4 in bsch_tn_1based - 1)"

definition sdb_slot_rtl :: "int \<Rightarrow> int option" where
  "sdb_slot_rtl m = map_of [(0, 2), (1, 1), (2, 0), (3, 3)] (take_bit 2 m)"

text \<open>The test of \<open>verify_sb1_encoder.py\<close>: the multiframes in which the two differ.\<close>

definition slot_mismatches :: "int list" where
  "slot_mismatches = filter (\<lambda>m. sdb_slot_rtl m \<noteq> Some (sdb_slot_sw m)) [1..60]"

subsection \<open>Dating a burst from an anchor\<close>

text \<open>\<open>abs_slot_anchor = (anchor_mn-1)*72 + (anchor_fn-1)*4 + anchor_tn\<close>, then \<open>delta\<close> slots on; the
  timeslot is 0-based here.\<close>

definition abs_slot_anchor :: "int \<Rightarrow> int \<Rightarrow> int \<Rightarrow> int" where
  "abs_slot_anchor anchor_mn anchor_fn anchor_tn =
     (anchor_mn - 1) * 18 * 4 + (anchor_fn - 1) * 4 + anchor_tn"

definition walk_slot :: "int \<Rightarrow> int \<Rightarrow> int \<Rightarrow> int \<Rightarrow> int \<times> int \<times> int" where
  "walk_slot anchor_mn anchor_fn anchor_tn delta =
     (let abs_slot = abs_slot_anchor anchor_mn anchor_fn anchor_tn + delta;
          m = (abs_slot div (18 * 4)) mod 60 + 1;
          rem = abs_slot mod (18 * 4);
          f = rem div 4 + 1;
          t = rem mod 4
      in (m, f, t))"

subsection \<open>The clock as a machine\<close>

inductive clock_step :: "net_time \<Rightarrow> net_time \<Rightarrow> bool" where
  sync: "clock_step s (synchronize t f m s)"
| tick: "clock_step s (advance s)"

inductive clock_reachable :: "net_time \<Rightarrow> bool" where
  start: "clock_reachable NetworkTime_init"
| step: "clock_reachable s \<Longrightarrow> clock_step s s' \<Longrightarrow> clock_reachable s'"

definition time_ok :: "net_time \<Rightarrow> bool" where
  "time_ok s \<longleftrightarrow> 1 \<le> tn s \<and> tn s \<le> 4 \<and> 1 \<le> fn s \<and> fn s \<le> 18 \<and> 1 \<le> mn s \<and> mn s \<le> 60"

definition slot_index :: "net_time \<Rightarrow> int" where
  "slot_index s = (mn s - 1) * 72 + (fn s - 1) * 4 + (tn s - 1)"

lemma time_ok_synchronize: "time_ok (synchronize t f m s)"
  by (simp add: time_ok_def synchronize_def Let_def)

lemma time_ok_advance: "time_ok s \<Longrightarrow> time_ok (advance s)"
  by (auto simp: time_ok_def advance_def Let_def)

lemma clock_step_ok: "clock_step s s' \<Longrightarrow> time_ok s \<Longrightarrow> time_ok s'"
  by (induction rule: clock_step.induct) (auto intro: time_ok_synchronize time_ok_advance)

lemma reachable_ok: "clock_reachable s \<Longrightarrow> time_ok s"
proof (induction rule: clock_reachable.induct)
  case start
  show ?case by (simp add: time_ok_def NetworkTime_init_def)
qed (rule clock_step_ok)

lemma slot_index_range: "time_ok s \<Longrightarrow> 0 \<le> slot_index s \<and> slot_index s < 4320"
  by (auto simp: time_ok_def slot_index_def)

lemma slot_index_advance: "time_ok s \<Longrightarrow> slot_index (advance s) = (slot_index s + 1) mod 4320"
proof -
  assume ok: "time_ok s"
  show ?thesis
  proof (cases "tn s = 4 \<and> fn s = 18 \<and> mn s = 60")
    case True
    then show ?thesis by (simp add: slot_index_def advance_def Let_def)
  next
    case False
    have "slot_index (advance s) = slot_index s + 1"
      using ok False by (auto simp: time_ok_def slot_index_def advance_def Let_def)
    moreover have "0 \<le> slot_index (advance s)" "slot_index (advance s) < 4320"
      using slot_index_range [OF time_ok_advance [OF ok]] by auto
    ultimately show ?thesis by simp
  qed
qed

lemma time_ok_run: "time_ok s \<Longrightarrow> time_ok ((advance ^^ n) s)"
  by (induction n) (simp_all add: time_ok_advance)

lemma slot_index_run: "time_ok s \<Longrightarrow> slot_index ((advance ^^ n) s) = (slot_index s + int n) mod 4320"
proof (induction n)
  case 0
  then show ?case using slot_index_range [of s] by simp
next
  case (Suc n)
  then show ?case
    by (simp add: slot_index_advance time_ok_run mod_simps ac_simps)
qed

text \<open>The index determines the time: the walk's arithmetic reads it back.\<close>

lemma index_parts:
  fixes m f t :: int
  assumes "0 \<le> t" "t < 4" "0 \<le> f" "f < 18" "0 \<le> m" "m < 60"
  shows "((m * 72 + f * 4 + t) div 72) mod 60 = m" "((m * 72 + f * 4 + t) mod 72) div 4 = f"
    "((m * 72 + f * 4 + t) mod 72) mod 4 = t"
proof -
  have "(m * 72 + f * 4 + t) div 72 = m" using assms by (intro int_div_pos_eq [of _ _ _ "f * 4 + t"]) auto
  then show "((m * 72 + f * 4 + t) div 72) mod 60 = m" using assms by simp
  have r: "(m * 72 + f * 4 + t) mod 72 = f * 4 + t" using assms by (intro int_mod_pos_eq [of _ _ m]) auto
  show "((m * 72 + f * 4 + t) mod 72) div 4 = f" "((m * 72 + f * 4 + t) mod 72) mod 4 = t"
    unfolding r using assms by presburger+
qed

lemma index_components:
  assumes "time_ok s"
  shows "slot_index s div 72 mod 60 = mn s - 1" "slot_index s mod 72 div 4 = fn s - 1"
    "slot_index s mod 72 mod 4 = tn s - 1"
proof -
  have "0 \<le> tn s - 1" "tn s - 1 < 4" "0 \<le> fn s - 1" "fn s - 1 < 18" "0 \<le> mn s - 1" "mn s - 1 < 60"
    using assms by (simp_all add: time_ok_def)
  from index_parts [OF this]
  show "slot_index s div 72 mod 60 = mn s - 1" "slot_index s mod 72 div 4 = fn s - 1"
    "slot_index s mod 72 mod 4 = tn s - 1"
    unfolding slot_index_def .
qed

lemma walk_of_index:
  assumes "time_ok s" "slot_index s = (abs_slot_anchor m f t + d) mod 4320"
  shows "walk_slot m f t d = (mn s, fn s, tn s - 1)"
proof -
  define a where "a = abs_slot_anchor m f t + d"
  have "a mod 4320 mod 72 = a mod 72" by (rule mod_mod_cancel) simp
  then have r: "a mod 72 = slot_index s mod 72" by (simp only: assms(2) a_def)
  have "a mod 4320 = 72 * (a div 72 mod 60) + a mod 72"
    using zmod_zmult2_eq [of 60 a 72] by simp
  then have "a mod 4320 div 72 = a div 72 mod 60" by simp
  then have q: "a div 72 mod 60 = slot_index s div 72 mod 60" by (simp add: assms(2) a_def)
  have "walk_slot m f t d = (a div 72 mod 60 + 1, a mod 72 div 4 + 1, a mod 72 mod 4)"
    by (simp add: walk_slot_def Let_def a_def)
  then show ?thesis unfolding r q index_components [OF assms(1)] by simp
qed

subsection \<open>The beacon comes round\<close>

text \<open>The index of the beacon slot of multiframe \<open>m\<close>.\<close>

definition bsch_index :: "int \<Rightarrow> int" where
  "bsch_index m = (m - 1) * 72 + 68 + (3 - (m + 1) mod 4)"

lemma is_bsch_index: "time_ok s \<Longrightarrow> slot_index s = bsch_index m \<Longrightarrow> 1 \<le> m \<Longrightarrow> m \<le> 60 \<Longrightarrow> is_bsch s"
proof -
  assume ok: "time_ok s" and i: "slot_index s = bsch_index m" and m: "1 \<le> m" "m \<le> 60"
  let ?t = "3 - (m + 1) mod 4"
  have "0 \<le> ?t" "?t < 4" "0 \<le> (17::int)" "(17::int) < 18" "0 \<le> m - 1" "m - 1 < 60" using m by simp_all
  note p = index_parts [OF this]
  have e: "slot_index s = (m - 1) * 72 + 17 * 4 + ?t" using i by (simp add: bsch_index_def)
  note c = index_components [OF ok, unfolded e p]
  have "mn s = m" "fn s = 18" "tn s = 4 - (m + 1) mod 4" using c by simp_all
  then show ?thesis by (simp add: is_bsch_def)
qed

lemma next_bsch:
  assumes "0 \<le> i" "i < 4320"
  shows "\<exists>k m. 0 \<le> k \<and> k < 75 \<and> 1 \<le> m \<and> m \<le> 60 \<and> (i + k) mod 4320 = bsch_index m"
proof -
  define m where "m = i div 72 + 1"
  have m: "1 \<le> m" "m \<le> 60" using assms by (auto simp: m_def)
  have i: "i = (m - 1) * 72 + i mod 72" by (simp add: m_def)
  have r: "0 \<le> i mod 72" "i mod 72 < 72" by simp_all
  have q: "0 \<le> (m + 1) mod 4" "(m + 1) mod 4 < 4" "0 \<le> (m + 2) mod 4" "(m + 2) mod 4 < 4" by simp_all
  show ?thesis
  proof (cases "i \<le> bsch_index m")
    case True
    have "(i + (bsch_index m - i)) mod 4320 = bsch_index m"
      using m q by (simp add: bsch_index_def)
    moreover have "bsch_index m - i < 75" using i r q by (simp add: bsch_index_def)
    ultimately show ?thesis using True m by (intro exI [of _ "bsch_index m - i"] exI [of _ m]) auto
  next
    case False
    let ?m = "if m = 60 then 1 else m + 1"
    let ?k = "m * 72 + 68 + (3 - (m + 2) mod 4) - i"
    have d: "(m + 2) mod 4 = ((m + 1) mod 4 + 1) mod 4" by presburger
    have k: "0 \<le> ?k" "?k < 75"
      using False i r q unfolding bsch_index_def by (simp_all add: d)
    have "(i + ?k) mod 4320 = bsch_index ?m"
      using m q by (auto simp: bsch_index_def add.commute)
    then show ?thesis using k m by (intro exI [of _ ?k] exI [of _ ?m]) auto
  qed
qed

subsection \<open>Properties\<close>

text \<open>C35. The clock never leaves its range: in every state reachable from the initial one by
  synchronising to any values and by advancing, the timeslot is in 1..4, the frame in 1..18 and the
  multiframe in 1..60, and a slot is never both BSCH and BNCH.\<close>

theorem clock_in_range:
  assumes "clock_reachable s"
  shows "1 \<le> tn s \<and> tn s \<le> 4 \<and> 1 \<le> fn s \<and> fn s \<le> 18 \<and> 1 \<le> mn s \<and> mn s \<le> 60 \<and>
    \<not> (is_bsch s \<and> is_bnch s)"
proof -
  have "4 - (mn s + 1) mod 4 \<noteq> 4 - (mn s + 3) mod 4" by presburger
  then show ?thesis
    using reachable_ok [OF assms] by (auto simp: time_ok_def is_bsch_def is_bnch_def)
qed

theorem clock_in_range_witness: "tn (advance (synchronize 3 18 60 NetworkTime_init)) \<le> 4"
  using clock_in_range [OF clock_reachable.step [OF clock_reachable.step [OF clock_reachable.start clock_step.sync]
    clock_step.tick], of 3 18 60] by blast

text \<open>Advancing refines counting slots: after \<open>n\<close> advances the slot index has grown by \<open>n\<close> modulo 4320,
  and the time is the one \<open>schedule.py\<close> computes for a burst \<open>n\<close> slots after the anchor; walking back
  undoes advancing.\<close>

theorem advance_is_walk:
  assumes "clock_reachable s"
  shows "slot_index ((advance ^^ n) s) = (slot_index s + int n) mod 4320 \<and>
    walk_slot (mn s) (fn s) (tn s - 1) (int n) =
      (mn ((advance ^^ n) s), fn ((advance ^^ n) s), tn ((advance ^^ n) s) - 1) \<and>
    (let s' = (advance ^^ n) s in
      walk_slot (mn s') (fn s') (tn s' - 1) (- int n) = (mn s, fn s, tn s - 1))"
proof -
  have ok: "time_ok s" by (rule reachable_ok [OF assms])
  have i: "slot_index ((advance ^^ n) s) = (slot_index s + int n) mod 4320"
    by (rule slot_index_run [OF ok])
  have a: "abs_slot_anchor (mn r) (fn r) (tn r - 1) = slot_index r" for r
    by (simp add: abs_slot_anchor_def slot_index_def)
  have fwd: "walk_slot (mn s) (fn s) (tn s - 1) (int n) =
      (mn ((advance ^^ n) s), fn ((advance ^^ n) s), tn ((advance ^^ n) s) - 1)"
    by (rule walk_of_index [OF time_ok_run [OF ok]]) (simp add: a i)
  have "slot_index s = (slot_index s + int n + - int n) mod 4320"
    using slot_index_range [OF ok] by simp
  also have "\<dots> = ((slot_index s + int n) mod 4320 + - int n) mod 4320" by (simp add: mod_simps)
  finally have "slot_index s = (slot_index ((advance ^^ n) s) + - int n) mod 4320"
    unfolding i .
  then have "walk_slot (mn ((advance ^^ n) s)) (fn ((advance ^^ n) s)) (tn ((advance ^^ n) s) - 1) (- int n) =
      (mn s, fn s, tn s - 1)"
    by (intro walk_of_index [OF ok]) (simp add: a)
  with i fwd show ?thesis by (simp add: Let_def)
qed

theorem advance_is_walk_witness: "walk_slot 1 1 0 72 = (mn ((advance ^^ 72) NetworkTime_init),
    fn ((advance ^^ 72) NetworkTime_init), tn ((advance ^^ 72) NetworkTime_init) - 1)"
  using advance_is_walk [OF clock_reachable.start, of 72] by (simp add: NetworkTime_init_def Let_def)

text \<open>The beacon always comes round: from every reachable time a BSCH slot is reached within 74
  timeslots of advancing.\<close>

theorem bsch_recurs:
  assumes "clock_reachable s"
  shows "\<exists>k<75. is_bsch ((advance ^^ k) s)"
proof -
  have ok: "time_ok s" by (rule reachable_ok [OF assms])
  obtain k m where k: "0 \<le> k" "k < 75" and m: "1 \<le> m" "m \<le> 60"
    and i: "(slot_index s + k) mod 4320 = bsch_index m"
    using next_bsch [of "slot_index s"] slot_index_range [OF ok] by blast
  have "slot_index ((advance ^^ nat k) s) = bsch_index m"
    using slot_index_run [OF ok, of "nat k"] k i by simp
  then have "is_bsch ((advance ^^ nat k) s)"
    using is_bsch_index [OF time_ok_run [OF ok]] m by blast
  then show ?thesis using k by (intro exI [of _ "nat k"]) simp
qed

theorem bsch_recurs_witness: "\<exists>k<75. is_bsch ((advance ^^ k) NetworkTime_init)"
  using bsch_recurs [OF clock_reachable.start] .

text \<open>The software and the hardware agree on the beacon slot in every multiframe number, not only the
  sixty the script tries: the table lookup never fails, equals the arithmetic, and is the timeslot,
  counted from 0, in which the clock reports a BSCH.\<close>

theorem sdb_slots_agree:
  "sdb_slot_rtl m = Some (sdb_slot_sw m) \<and> slot_mismatches = [] \<and>
   (fn s = 18 \<longrightarrow> (is_bsch s \<longleftrightarrow> sdb_slot_sw (mn s) = tn s - 1))"
proof (intro conjI)
  have all: "sdb_slot_rtl m = Some (sdb_slot_sw m)" for m
  proof -
    have t: "take_bit 2 m = m mod 4" by (simp add: take_bit_eq_mod)
    have "m mod 4 = 0 \<or> m mod 4 = 1 \<or> m mod 4 = 2 \<or> m mod 4 = 3" by presburger
    moreover have "m mod 4 = 0 \<Longrightarrow> (m + 1) mod 4 = 1" "m mod 4 = 1 \<Longrightarrow> (m + 1) mod 4 = 2"
      "m mod 4 = 2 \<Longrightarrow> (m + 1) mod 4 = 3" "m mod 4 = 3 \<Longrightarrow> (m + 1) mod 4 = 0" by presburger+
    ultimately show ?thesis by (auto simp: sdb_slot_rtl_def sdb_slot_sw_def t)
  qed
  then show "sdb_slot_rtl m = Some (sdb_slot_sw m)" "slot_mismatches = []"
    by (simp_all add: slot_mismatches_def)
  show "fn s = 18 \<longrightarrow> (is_bsch s \<longleftrightarrow> sdb_slot_sw (mn s) = tn s - 1)"
    by (auto simp: is_bsch_def sdb_slot_sw_def)
qed

theorem sdb_slots_agree_witness: "is_bsch \<lparr>tn = 1, fn = 18, mn = 2, synced = True\<rparr>"
  using sdb_slots_agree [of 0 "\<lparr>tn = 1, fn = 18, mn = 2, synced = True\<rparr>"] by (simp add: sdb_slot_sw_def)

end
