(* ===== verification/Schedule.thy ===== *)
theory Schedule
  imports NetworkTime
begin

unbundle bit_operations_syntax

text \<open>
  The slot schedule that \<open>scripts/schedule.py\<close> emits for the transmitter: the 16-bit entry layout
  (\<open>_pack_entry\<close>), the reference preset per multiframe bucket, frame and timeslot (\<open>ref_entry\<close>), the
  576-byte little-endian blob (\<open>gen_schedule_blob\<close>) and the words of the C table built from it.  The entry function of the testbench
  (\<open>tb/tb_tx_slot_schedule.v\<close>), which the preset is meant to match, is translated for comparison.
\<close>

definition PCLASS_STATIC_BROADCAST :: int where "PCLASS_STATIC_BROADCAST = 0"
definition PCLASS_NULL_PDU :: int where "PCLASS_NULL_PDU = 1"
definition BT_NDB :: int where "BT_NDB = 0"
definition BT_SDB :: int where "BT_SDB = 1"
definition PIDX_SB :: int where "PIDX_SB = 3"
definition PIDX_NULL0 :: int where "PIDX_NULL0 = 0"

definition pack_entry :: "int \<Rightarrow> int \<Rightarrow> int \<Rightarrow> int \<Rightarrow> int \<Rightarrow> int \<Rightarrow> int \<Rightarrow> int res" where
  "pack_entry payload_class payload_idx burst_type ndb2 enable sys_time_inject reserved =
     assert_res (0 \<le> payload_class \<and> payload_class \<le> 0xF)
     (assert_res (0 \<le> payload_idx \<and> payload_idx \<le> 0x3F)
     (assert_res (0 \<le> burst_type \<and> burst_type \<le> 0x3)
     (let v = push_bit 12 (payload_class AND 0xF);
          v = v OR push_bit 6 (payload_idx AND 0x3F);
          v = v OR push_bit 4 (burst_type AND 0x3);
          v = v OR push_bit 3 (ndb2 AND 1);
          v = v OR push_bit 2 (enable AND 1);
          v = v OR push_bit 1 (sys_time_inject AND 1);
          v = v OR (reserved AND 1)
      in Inr (v AND 0xFFFF))))"

definition ref_entry :: "int \<Rightarrow> int \<Rightarrow> int \<Rightarrow> int res" where
  "ref_entry m f t =
     assert_res (0 \<le> m \<and> m \<le> 3)
     (assert_res (0 \<le> f \<and> f \<le> 17)
     (assert_res (0 \<le> t \<and> t \<le> 3)
     (if t \<noteq> 0 then pack_entry PCLASS_STATIC_BROADCAST PIDX_SB BT_SDB 0 1 1 0
      else if f = 17 \<and> m = 2 then pack_entry PCLASS_STATIC_BROADCAST PIDX_SB BT_SDB 0 1 1 0
      else pack_entry PCLASS_NULL_PDU PIDX_NULL0 BT_NDB 1 1 0 0)))"






definition blob_word :: "int list \<Rightarrow> nat \<Rightarrow> int" where
  "blob_word entries word_idx =
     (let lo = entries ! (2 * word_idx); hi = entries ! (2 * word_idx + 1) in push_bit 16 hi OR lo)"

definition put_word :: "int list \<Rightarrow> nat \<Rightarrow> int list \<Rightarrow> int list" where
  "put_word entries word_idx blob =
     (let word = blob_word entries word_idx
      in blob[4 * word_idx + 0 := word AND 0xFF,
              4 * word_idx + 1 := drop_bit 8 word AND 0xFF,
              4 * word_idx + 2 := drop_bit 16 word AND 0xFF,
              4 * word_idx + 3 := drop_bit 24 word AND 0xFF])"




subsection \<open>Packing\<close>

lemma and_mod:
  fixes v :: int
  shows "v AND 1 = v mod 2" "v AND 3 = v mod 4" "v AND 15 = v mod 16" "v AND 63 = v mod 64"
    "v AND 255 = v mod 256" "v AND 65535 = v mod 65536"
  using and_mask_mod [of v 1] and_mask_mod [of v 2] and_mask_mod [of v 4] and_mask_mod [of v 6]
    and_mask_mod [of v 8] and_mask_mod [of v 16] by simp_all

text \<open>Seven disjoint fields or-ed together are their sum.\<close>

lemma pack_sum:
  fixes a b c d e f g :: int
  assumes "0 \<le> b" "b < 64" "0 \<le> c" "c < 4" "0 \<le> d" "d < 2" "0 \<le> e" "e < 2" "0 \<le> f" "f < 2" "0 \<le> g" "g < 2"
  shows "((((((push_bit 12 a OR push_bit 6 b) OR push_bit 4 c) OR push_bit 3 d) OR push_bit 2 e) OR
    push_bit 1 f) OR g) = a * 4096 + b * 64 + c * 16 + d * 8 + e * 4 + f * 2 + g"
proof -
  have 1: "push_bit 1 f OR g = f * 2 + g" using push_bit_or_add [of g 1 f] assms by simp
  have 2: "push_bit 2 e OR (f * 2 + g) = e * 4 + (f * 2 + g)"
    using push_bit_or_add [of "f * 2 + g" 2 e] assms by simp
  have 3: "push_bit 3 d OR (e * 4 + (f * 2 + g)) = d * 8 + (e * 4 + (f * 2 + g))"
    using push_bit_or_add [of "e * 4 + (f * 2 + g)" 3 d] assms by simp
  have 4: "push_bit 4 c OR (d * 8 + (e * 4 + (f * 2 + g))) = c * 16 + (d * 8 + (e * 4 + (f * 2 + g)))"
    using push_bit_or_add [of "d * 8 + (e * 4 + (f * 2 + g))" 4 c] assms by simp
  have 5: "push_bit 6 b OR (c * 16 + (d * 8 + (e * 4 + (f * 2 + g)))) =
      b * 64 + (c * 16 + (d * 8 + (e * 4 + (f * 2 + g))))"
    using push_bit_or_add [of "c * 16 + (d * 8 + (e * 4 + (f * 2 + g)))" 6 b] assms by simp
  have 6: "push_bit 12 a OR (b * 64 + (c * 16 + (d * 8 + (e * 4 + (f * 2 + g))))) =
      a * 4096 + (b * 64 + (c * 16 + (d * 8 + (e * 4 + (f * 2 + g)))))"
    using push_bit_or_add [of "b * 64 + (c * 16 + (d * 8 + (e * 4 + (f * 2 + g))))" 12 a] assms by simp
  show ?thesis by (simp only: or.assoc 1 2 3 4 5 6 add.assoc)
qed

lemma digit:
  fixes a k r :: int
  shows "0 \<le> r \<Longrightarrow> r < k \<Longrightarrow> (a * k + r) div k = a" "0 \<le> r \<Longrightarrow> r < k \<Longrightarrow> (a * k + r) mod k = r"
  by simp_all

lemma pack_entry_value:
  assumes "0 \<le> pc" "pc \<le> 15" "0 \<le> pi" "pi \<le> 63" "0 \<le> bt" "bt \<le> 3"
  shows "pack_entry pc pi bt n e s r =
    Inr (pc * 4096 + pi * 64 + bt * 16 + n mod 2 * 8 + e mod 2 * 4 + s mod 2 * 2 + r mod 2)"
proof -
  have m: "pc mod 16 = pc" "pi mod 64 = pi" "bt mod 4 = bt" using assms by simp_all
  have q: "0 \<le> n mod 2" "n mod 2 < 2" "0 \<le> e mod 2" "e mod 2 < 2" "0 \<le> s mod 2" "s mod 2 < 2"
    "0 \<le> r mod 2" "r mod 2 < 2" by simp_all
  have md: "(pc * 4096 + pi * 64 + bt * 16 + n mod 2 * 8 + e mod 2 * 4 + s mod 2 * 2 + r mod 2) mod 65536 =
      pc * 4096 + pi * 64 + bt * 16 + n mod 2 * 8 + e mod 2 * 4 + s mod 2 * 2 + r mod 2"
    using assms q by (intro mod_pos_pos_trivial) linarith+
  then show ?thesis
    using pack_sum [of pi bt "n mod 2" "e mod 2" "s mod 2" "r mod 2" pc] assms q
    unfolding pack_entry_def Let_def and_mod m by (simp add: md del: push_bit_Suc One_nat_def)
qed

lemma ref_entry_value:
  assumes "0 \<le> m" "m \<le> 3" "0 \<le> f" "f \<le> 17" "0 \<le> t" "t \<le> 3"
  shows "ref_entry m f t = Inr (if t \<noteq> 0 \<or> f = 17 \<and> m = 2 then 0xD6 else 0x100C)"
  using assms by (simp add: ref_entry_def pack_entry_value PCLASS_STATIC_BROADCAST_def PCLASS_NULL_PDU_def
      BT_NDB_def BT_SDB_def PIDX_SB_def PIDX_NULL0_def)

subsection \<open>Filling and serialising\<close>






lemma length_put_word [simp]: "length (put_word entries w blob) = length blob"
  by (simp add: put_word_def Let_def)







subsection \<open>Properties\<close>

text \<open>The entry layout: packing succeeds exactly for a class below 16, an index below 64 and a burst
  type below 4 (otherwise the assertion fails), and every field can be read back from its bits.\<close>

theorem pack_entry_fields:
  "(if 0 \<le> pc \<and> pc \<le> 15 \<and> 0 \<le> pi \<and> pi \<le> 63 \<and> 0 \<le> bt \<and> bt \<le> 3
    then (\<exists>v. pack_entry pc pi bt n e s r = Inr v \<and> 0 \<le> v \<and> v < 65536 \<and> v div 4096 = pc \<and>
      v div 64 mod 64 = pi \<and> v div 16 mod 4 = bt \<and> v div 8 mod 2 = n mod 2 \<and> v div 4 mod 2 = e mod 2 \<and>
      v div 2 mod 2 = s mod 2 \<and> v mod 2 = r mod 2)
    else pack_entry pc pi bt n e s r = Inl AssertionError)"
proof (cases "0 \<le> pc \<and> pc \<le> 15 \<and> 0 \<le> pi \<and> pi \<le> 63 \<and> 0 \<le> bt \<and> bt \<le> 3")
  case True
  define v1 v2 v3 v4 v5 where v: "v1 = (pc * 64 + pi) * 4 + bt" "v2 = v1 * 2 + n mod 2" "v3 = v2 * 2 + e mod 2"
    "v4 = v3 * 2 + s mod 2" "v5 = v4 * 2 + r mod 2"
  have eq: "pack_entry pc pi bt n e s r = Inr v5"
    using True by (simp add: pack_entry_value v algebra_simps)
  have h: "v5 div 2 = v4" "v4 div 2 = v3" "v3 div 2 = v2" "v2 div 2 = v1"
      "v5 mod 2 = r mod 2" "v4 mod 2 = s mod 2" "v3 mod 2 = e mod 2" "v2 mod 2 = n mod 2"
    by (simp_all only: v digit pos_mod_sign pos_mod_bound zero_less_numeral)
  have g: "v1 div 4 = pc * 64 + pi" "v1 mod 4 = bt" "(pc * 64 + pi) div 64 = pc" "(pc * 64 + pi) mod 64 = pi"
    using True unfolding v(1) by (intro digit; simp)+
  have d4: "v5 div 4 = v3" using zdiv_zmult2_eq [of 2 v5 2] by (simp add: h)
  have d8: "v5 div 8 = v2" using zdiv_zmult2_eq [of 2 v5 4] by (simp add: h d4)
  have d16: "v5 div 16 = v1" using zdiv_zmult2_eq [of 2 v5 8] by (simp add: h d8)
  have d64: "v5 div 64 = pc * 64 + pi" using zdiv_zmult2_eq [of 4 v5 16] by (simp add: g d16)
  have d4096: "v5 div 4096 = pc" using zdiv_zmult2_eq [of 64 v5 64] by (simp add: g d64)
  have q: "0 \<le> x mod 2" "x mod 2 \<le> 1" for x :: int using pos_mod_bound [of 2 x] by simp_all
  have "0 \<le> v1" "v1 \<le> 4095" using True unfolding v(1) by simp_all
  then have "0 \<le> v2" "v2 \<le> 8191" using q [of n] unfolding v(2) by linarith+
  then have "0 \<le> v3" "v3 \<le> 16383" using q [of e] unfolding v(3) by linarith+
  then have "0 \<le> v4" "v4 \<le> 32767" using q [of s] unfolding v(4) by linarith+
  then have rng: "0 \<le> v5" "v5 < 65536" using q [of r] unfolding v(5) by linarith+
  show ?thesis
    unfolding if_P [OF True]
    by (rule exI [of _ v5]) (simp only: eq rng d4096 d64 d16 d8 d4 g h simp_thms)
next
  case False
  then show ?thesis by (auto simp: pack_entry_def assert_res_def)
qed




text \<open>The preset transmits the beacon where receivers look for it: in frame 18 the schedule entry of
  timeslot 0 is a synchronisation burst with time injection exactly in the multiframes where the
  network clock reports a BSCH there, every other timeslot carries one in every frame, and no other
  frame does in timeslot 0.\<close>

theorem schedule_matches_clock:
  assumes "clock_reachable s"
  shows "\<exists>v. ref_entry (mn s mod 4) (fn s - 1) (tn s - 1) = Inr v \<and>
    (v div 16 mod 4 = BT_SDB \<longleftrightarrow> tn s \<noteq> 1 \<or> is_bsch s) \<and> (v div 2 mod 2 = 1 \<longleftrightarrow> v div 16 mod 4 = BT_SDB) \<and>
    v div 4 mod 2 = 1"
proof -
  have ok: "time_ok s" by (rule reachable_ok [OF assms])
  have r: "0 \<le> mn s mod 4" "mn s mod 4 \<le> 3" "0 \<le> fn s - 1" "fn s - 1 \<le> 17" "0 \<le> tn s - 1" "tn s - 1 \<le> 3"
    using ok pos_mod_bound [of 4 "mn s"] by (simp_all add: time_ok_def)
  have "(mn s + 1) mod 4 = 3 \<longleftrightarrow> mn s mod 4 = 2" by presburger
  then have b: "tn s = 1 \<Longrightarrow> is_bsch s \<longleftrightarrow> fn s = 18 \<and> mn s mod 4 = 2"
    by (auto simp: is_bsch_def)
  show ?thesis
    using b by (auto simp: ref_entry_value [OF r] BT_SDB_def)
qed

theorem schedule_matches_clock_witness:
  "\<exists>v. ref_entry (mn (synchronize 0 18 2 NetworkTime_init) mod 4) 17 0 = Inr v \<and> v div 16 mod 4 = BT_SDB"
proof -
  have "clock_reachable (synchronize 0 18 2 NetworkTime_init)"
    by (rule clock_reachable.step [OF clock_reachable.start clock_step.sync])
  from schedule_matches_clock [OF this] show ?thesis
    by (auto simp: synchronize_def is_bsch_def)
qed

end
