(* ===== verification/ReedMuller.thy ===== *)
theory ReedMuller
  imports PyData
begin

unbundle bit_operations_syntax

text \<open>
  The (30,14) code of the access assignment channel: the systematic generator that
  \<open>scripts/decode_dl.py\<close> and \<open>scripts/gen_aach_reference.py\<close> share (\<open>RM_GEN\<close>, \<open>RM_30_14_GEN\<close>), its encoder,
  the brute-force decoder \<open>rm3014_decode\<close> with its early exit and its distance limit, and the other
  code, derived from RM(2,5), with which \<open>tb/vectors/gen_reed_muller_vectors.py\<close> makes vectors.

  The combinatorial core is a search over all combinations of rows that the kernel evaluates
  (\<open>heavy\<close>): every non-zero codeword of either code has weight at least 8.
\<close>

definition RM_GEN :: "int list list" where
  "RM_GEN =
    [[1, 0, 0, 1, 1, 0, 1, 1, 0, 1, 1, 0, 0, 0, 0, 0],
     [0, 0, 1, 0, 1, 1, 0, 1, 1, 1, 1, 0, 0, 0, 0, 0],
     [1, 1, 1, 1, 1, 1, 0, 0, 0, 0, 1, 0, 0, 0, 0, 0],
     [1, 1, 1, 0, 0, 0, 0, 0, 0, 0, 1, 1, 1, 1, 0, 0],
     [1, 0, 0, 1, 1, 0, 0, 0, 0, 0, 1, 1, 1, 0, 1, 0],
     [0, 1, 0, 1, 0, 1, 0, 0, 0, 0, 1, 1, 0, 1, 1, 0],
     [0, 0, 1, 0, 1, 1, 0, 0, 0, 0, 1, 0, 1, 1, 1, 0],
     [1, 1, 1, 1, 1, 1, 1, 1, 1, 1, 0, 1, 1, 1, 1, 1],
     [1, 0, 0, 0, 0, 0, 1, 1, 0, 0, 1, 1, 1, 0, 0, 1],
     [0, 1, 0, 0, 0, 0, 1, 0, 1, 0, 1, 1, 0, 1, 0, 1],
     [0, 0, 1, 0, 0, 0, 0, 1, 1, 0, 1, 0, 1, 1, 0, 1],
     [0, 0, 0, 1, 0, 0, 1, 0, 0, 1, 1, 1, 0, 0, 1, 1],
     [0, 0, 0, 0, 1, 0, 0, 1, 0, 1, 1, 0, 1, 0, 1, 1],
     [0, 0, 0, 0, 0, 1, 0, 0, 1, 1, 1, 0, 0, 1, 1, 1]]"

definition RM_30_14_GEN :: "int list list" where
  "RM_30_14_GEN =
    [[1, 0, 0, 1, 1, 0, 1, 1, 0, 1, 1, 0, 0, 0, 0, 0],
     [0, 0, 1, 0, 1, 1, 0, 1, 1, 1, 1, 0, 0, 0, 0, 0],
     [1, 1, 1, 1, 1, 1, 0, 0, 0, 0, 1, 0, 0, 0, 0, 0],
     [1, 1, 1, 0, 0, 0, 0, 0, 0, 0, 1, 1, 1, 1, 0, 0],
     [1, 0, 0, 1, 1, 0, 0, 0, 0, 0, 1, 1, 1, 0, 1, 0],
     [0, 1, 0, 1, 0, 1, 0, 0, 0, 0, 1, 1, 0, 1, 1, 0],
     [0, 0, 1, 0, 1, 1, 0, 0, 0, 0, 1, 0, 1, 1, 1, 0],
     [1, 1, 1, 1, 1, 1, 1, 1, 1, 1, 0, 1, 1, 1, 1, 1],
     [1, 0, 0, 0, 0, 0, 1, 1, 0, 0, 1, 1, 1, 0, 0, 1],
     [0, 1, 0, 0, 0, 0, 1, 0, 1, 0, 1, 1, 0, 1, 0, 1],
     [0, 0, 1, 0, 0, 0, 0, 1, 1, 0, 1, 0, 1, 1, 0, 1],
     [0, 0, 0, 1, 0, 0, 1, 0, 0, 1, 1, 1, 0, 0, 1, 1],
     [0, 0, 0, 0, 1, 0, 0, 1, 0, 1, 1, 0, 1, 0, 1, 1],
     [0, 0, 0, 0, 0, 1, 0, 0, 1, 1, 1, 0, 0, 1, 1, 1]]"

definition rm_row :: "int list list \<Rightarrow> nat \<Rightarrow> int" where
  "rm_row gen i =
     fold (\<lambda>j val. val OR push_bit (15 - j) (gen ! i ! j)) [0..<16] (push_bit (16 + 13 - i) 1)"

definition build_rm_codewords :: "int list" where
  "build_rm_codewords = map (rm_row RM_GEN) [0..<14]"

definition build_rm_rows :: "int list" where
  "build_rm_rows = map (rm_row RM_30_14_GEN) [0..<14]"

subsection \<open>Encoder\<close>

definition rm_codeword :: "int list \<Rightarrow> int \<Rightarrow> int" where
  "rm_codeword rows info_word =
     fold (\<lambda>i cw. if drop_bit (13 - i) info_word AND 1 \<noteq> 0 then cw XOR rows ! i else cw) [0..<14] 0"

definition rm3014_encode :: "int \<Rightarrow> int res" where
  "rm3014_encode in_word =
     assert_res (0 \<le> in_word \<and> in_word < push_bit 14 1)
       (Inr (rm_codeword build_rm_rows in_word AND (push_bit 30 1 - 1)))"

subsection \<open>Brute-force decoder\<close>

text \<open>\<open>while v != 0: d += v & 1; v >>= 1\<close>; the argument is never negative.\<close>

function popcount :: "int \<Rightarrow> nat" where
  "popcount v = (if v \<le> 0 then 0 else nat (v AND 1) + popcount (drop_bit 1 v))"
  by auto
termination
  by (relation "measure nat") (auto simp: drop_bit_Suc)

fun rm_search :: "int list \<Rightarrow> int \<Rightarrow> int list \<Rightarrow> nat \<Rightarrow> int \<Rightarrow> int \<times> nat" where
  "rm_search rows rx [] best_dist best_info = (best_info, best_dist)"
| "rm_search rows rx (info_word # ws) best_dist best_info =
     (let d = popcount (rx XOR rm_codeword rows info_word)
      in if d < best_dist
         then (if d = 0 then (info_word, d) else rm_search rows rx ws d info_word)
         else rm_search rows rx ws best_dist best_info)"

definition rm3014_decode_jit :: "int \<Rightarrow> int list \<Rightarrow> int \<times> nat" where
  "rm3014_decode_jit rx rows = rm_search rows rx (map int [0..<2 ^ 14]) 31 0"

definition rm3014_decode :: "bits \<Rightarrow> int option \<times> nat" where
  "rm3014_decode bits30 =
     (let rx = foldl (\<lambda>rx b. push_bit 1 rx OR of_bool b) 0 bits30;
          (best_info, best_dist) = rm3014_decode_jit rx build_rm_codewords
      in if 4 < best_dist then (None, best_dist) else (Some best_info, best_dist))"

subsection \<open>The vector generator's code\<close>

definition G_ROWS :: "int list" where
  "G_ROWS = [0x33333333, 0x3C3C3C3C, 0x3FC03FC0, 0x3FFFC000, 0x22222222, 0x28282828, 0x2A802A80,
     0x2AAA8000, 0x30303030, 0x33003300, 0x33330000, 0x3C003C00, 0x3C3C0000, 0x3FC00000]"

definition rm_tv_encode :: "int \<Rightarrow> int" where
  "rm_tv_encode m_int =
     fold (\<lambda>i c. if drop_bit i m_int AND 1 \<noteq> 0 then c XOR G_ROWS ! i else c) [0..<14] 0 AND (push_bit 30 1 - 1)"

fun rm_tv_search :: "int \<Rightarrow> int list \<Rightarrow> nat \<Rightarrow> int \<Rightarrow> int \<times> nat" where
  "rm_tv_search r [] best_dist best_m = (best_m, best_dist)"
| "rm_tv_search r (m # ms) best_dist best_m =
     (let d = popcount (rm_tv_encode m XOR r)
      in if d < best_dist
         then (if d = 0 then (m, d) else rm_tv_search r ms d m)
         else rm_tv_search r ms best_dist best_m)"

definition rm_tv_decode :: "int \<Rightarrow> int \<times> nat" where
  "rm_tv_decode r_int = rm_tv_search r_int (map int [0..<2 ^ 14]) 31 0"

text \<open>The monomials of degree at most two over the 32 points, constant first.\<close>

definition rm25_bases :: "int list list" where
  "rm25_bases =
     [replicate 32 1] @
     map (\<lambda>i. map (\<lambda>pt. drop_bit i pt AND 1) (map int [0..<32])) [0..<5] @
     concat (map (\<lambda>i. map (\<lambda>j. map (\<lambda>pt. (drop_bit i pt AND 1) AND (drop_bit j pt AND 1)) (map int [0..<32]))
       [i + 1..<5]) [0..<5])"

definition build_rm25_row :: "nat \<Rightarrow> int" where
  "build_rm25_row row_idx = sum_list (map (\<lambda>b. push_bit b (rm25_bases ! row_idx ! b)) [0..<32])"

definition rm25_mismatch :: "nat list" where
  "rm25_mismatch =
     filter (\<lambda>i. drop_bit 2 (build_rm25_row (i + 2)) AND (push_bit 30 1 - 1) \<noteq> G_ROWS ! i) [0..<14]"

subsection \<open>Integers as bit lists\<close>

definition weight :: "bits \<Rightarrow> nat" where
  "weight bs = length (filter (\<lambda>b. b) bs)"

lemma weight_simps [simp]: "weight [] = 0" "weight (b # bs) = of_bool b + weight bs"
  by (simp_all add: weight_def)

lemma weight_append: "weight (xs @ ys) = weight xs + weight ys"
  by (simp add: weight_def)

lemma weight_replicate [simp]: "weight (replicate n False) = 0"
  by (simp add: weight_def)

lemma hamming_weight_xor: "length xs = length ys \<Longrightarrow> hamming xs ys = weight (xor_bits xs ys)"
  by (induction xs ys rule: list_induct2) simp_all

lemma popcount_bits_val: "popcount (bits_val bs) = weight bs"
proof (induction bs rule: rev_induct)
  case (snoc b bs)
  have v: "bits_val (bs @ [b]) = 2 * bits_val bs + of_bool b"
    by (simp add: bits_val_append bits_val_Cons)
  have "drop_bit 1 (2 * bits_val bs + of_bool b) = bits_val bs"
    by (simp add: drop_bit_Suc)
  moreover have "(2 * bits_val bs + of_bool b) AND 1 = of_bool b"
    by (simp add: and_one_eq)
  moreover have "bits_val bs = 0 \<Longrightarrow> weight bs = 0"
    using snoc.IH by simp
  moreover have "bits_val bs \<le> 0 \<longleftrightarrow> bits_val bs = 0" using bits_val_nonneg [of bs] by linarith
  moreover have "\<not> 2 * bits_val bs + 1 \<le> 0" using bits_val_nonneg [of bs] by linarith
  ultimately show ?case
    using snoc.IH unfolding v
    by (subst popcount.simps) (cases b; simp add: weight_append del: popcount.simps)
qed simp

declare popcount.simps [simp del]

lemma to_bits_zero: "to_bits n 0 = replicate n False"
  by (rule nth_equalityI) (simp_all add: nth_to_bits)

lemma to_bits_xor: "to_bits n (a XOR b) = xor_bits (to_bits n a) (to_bits n b)"
  by (rule nth_equalityI) (auto simp: nth_to_bits bit_xor_iff)

lemma popcount_xor:
  assumes "0 \<le> a" "a < 2 ^ n" "0 \<le> b" "b < 2 ^ n"
  shows "popcount (a XOR b) = hamming (to_bits n a) (to_bits n b)"
proof -
  have "0 \<le> a XOR b" using assms by simp
  moreover have "a XOR b < 2 ^ n" using assms XOR_upper [of a n b] by simp
  ultimately have "a XOR b = bits_val (to_bits n (a XOR b))" by (simp add: bits_val_to_bits_id)
  then have "popcount (a XOR b) = weight (to_bits n (a XOR b))" by (metis popcount_bits_val)
  then show ?thesis by (simp add: hamming_weight_xor to_bits_xor)
qed

lemma foldl_bits_val: "foldl (\<lambda>rx b. push_bit 1 rx OR of_bool b) 0 bs = bits_val bs"
proof (induction bs rule: rev_induct)
  case (snoc b bs)
  have "push_bit 1 (bits_val bs) OR of_bool b = bits_val bs * 2 + of_bool b"
    using push_bit_or_add [of "of_bool b" 1 "bits_val bs"] by simp
  then show ?case using snoc by (simp add: bits_val_append bits_val_Cons)
qed simp

subsection \<open>Linear combinations of rows\<close>

fun lin :: "nat \<Rightarrow> bits \<Rightarrow> bits list \<Rightarrow> bits" where
  "lin n (u # us) (r # rs) = (if u then xor_bits r (lin n us rs) else lin n us rs)"
| "lin n us rs = replicate n False"

lemma length_lin: "\<forall>r \<in> set rs. length r = n \<Longrightarrow> length (lin n us rs) = n"
  by (induction n us rs rule: lin.induct) auto

lemma xor_bits_assoc: "xor_bits (xor_bits a b) c = xor_bits a (xor_bits b c)"
proof (induction a arbitrary: b c)
  case (Cons x a)
  then show ?case by (cases b; cases c) auto
qed simp

lemma xor_bits_commute: "xor_bits a b = xor_bits b a"
proof (induction a arbitrary: b)
  case (Cons x a)
  then show ?case by (cases b) auto
qed simp

lemma xor_bits_zero: "length a = n \<Longrightarrow> xor_bits a (replicate n False) = a"
  by (rule nth_equalityI) auto

lemma to_bits_fold_xor:
  "length us = length rows \<Longrightarrow>
   to_bits n (fold (\<lambda>(u, r) cw. if u then cw XOR r else cw) (zip us rows) a) =
   xor_bits (to_bits n a) (lin n us (map (to_bits n) rows))"
proof (induction us rows arbitrary: a rule: list_induct2)
  case Nil
  then show ?case by (simp add: xor_bits_zero)
next
  case (Cons u us r rows)
  then show ?case by (simp add: to_bits_xor xor_bits_assoc)
qed

lemma to_bits_rm_codeword:
  assumes "length rows = 14"
  shows "to_bits n (rm_codeword rows w) = lin n (to_bits 14 w) (map (to_bits n) rows)"
proof -
  have z: "zip (to_bits 14 w) rows = map (\<lambda>i. (bit w (13 - i), rows ! i)) [0..<14]"
    using assms by (intro nth_equalityI) (simp_all add: nth_to_bits)
  have b: "(drop_bit k w AND 1 \<noteq> 0) = bit w k" for k
    by (simp add: and_one_eq bit_iff_odd_drop_bit odd_iff_mod_2_eq_one)
  have "rm_codeword rows w =
      fold (\<lambda>(u, r) cw. if u then cw XOR r else cw) (zip (to_bits 14 w) rows) 0"
    by (simp add: rm_codeword_def z fold_map_fun b)
  then show ?thesis
    using to_bits_fold_xor [of "to_bits 14 w" rows n 0] assms
    by (simp add: to_bits_zero xor_bits_zero length_lin xor_bits_commute [of "replicate n False"])
qed

text \<open>Systematic codes: the information bits come first.\<close>

fun ident :: "nat \<Rightarrow> bits list" where
  "ident 0 = []"
| "ident (Suc m) = (True # replicate m False) # map ((#) False) (ident m)"

lemma length_ident [simp]: "length (ident m) = m"
  by (induction m) simp_all

lemma length_ident_row: "r \<in> set (ident m) \<Longrightarrow> length r = m"
  by (induction m arbitrary: r) auto

lemma lin_Cons_False: "length us = length rs \<Longrightarrow> lin (Suc n) us (map ((#) False) rs) = False # lin n us rs"
  by (induction us rs rule: list_induct2) simp_all

lemma lin_ident: "length us = m \<Longrightarrow> lin m us (ident m) = us"
proof (induction us arbitrary: m)
  case (Cons u us)
  then obtain k where "m = Suc k" "length us = k" by (cases m) auto
  then show ?case
    using Cons lin_Cons_False [of us "ident k" k] xor_bits_zero [of us k]
    by (simp add: xor_bits_commute [of "replicate k False"])
qed simp

lemma lin_append:
  assumes "length us = length rs" "length rs = length ss" "\<forall>r \<in> set rs. length r = n" "\<forall>s \<in> set ss. length s = k"
  shows "lin (n + k) us (map2 (@) rs ss) = lin n us rs @ lin k us ss"
  using assms
  by (induction us rs ss rule: list_induct3) (auto simp: replicate_add xor_bits_append length_lin)

definition GB :: "bits list" where
  "GB = map (map (\<lambda>x. x = 1)) RM_GEN"

lemma GB_length: "length GB = 14" "\<forall>r \<in> set GB. length r = 16"
  by (simp_all add: GB_def RM_GEN_def)

lemma generators_equal: "RM_30_14_GEN = RM_GEN"
  by (simp add: RM_30_14_GEN_def RM_GEN_def)

lemma rows_equal: "build_rm_rows = build_rm_codewords"
  by (simp add: build_rm_rows_def build_rm_codewords_def generators_equal)

lemma length_rows [simp]: "length build_rm_codewords = 14"
  by (simp add: build_rm_codewords_def)

lemma row_bits: "map (to_bits 30) build_rm_codewords = map2 (@) (ident 14) GB"
  by code_simp

lemma codeword_systematic: "to_bits 30 (rm_codeword build_rm_codewords w) = to_bits 14 w @ lin 16 (to_bits 14 w) GB"
  using lin_append [of "to_bits 14 w" "ident 14" GB 14 16] GB_length
  by (simp add: to_bits_rm_codeword row_bits length_ident_row lin_ident)

subsection \<open>Every combination of rows is heavy\<close>

fun at_least :: "nat \<Rightarrow> bits \<Rightarrow> bool" where
  "at_least 0 bs = True"
| "at_least (Suc n) [] = False"
| "at_least (Suc n) (b # bs) = (if b then at_least n bs else at_least (Suc n) bs)"

fun heavy :: "nat \<Rightarrow> bits list \<Rightarrow> bits \<Rightarrow> bool" where
  "heavy 0 rs acc = True"
| "heavy (Suc n) [] acc = at_least (Suc n) acc"
| "heavy (Suc n) (r # rs) acc = (heavy (Suc n) rs acc \<and> heavy n rs (xor_bits r acc))"

lemma at_least_weight: "at_least n bs \<Longrightarrow> n \<le> weight bs"
  by (induction n bs rule: at_least.induct) (auto split: if_splits)

lemma heavy_weight:
  assumes "heavy n rs acc" "length us = length rs" "\<forall>r \<in> set rs. length r = length acc"
  shows "n \<le> weight us + weight (xor_bits acc (lin (length acc) us rs))"
  using assms
proof (induction n rs acc arbitrary: us rule: heavy.induct)
  case (2 n acc)
  then show ?case using at_least_weight [of "Suc n" acc] by (simp add: xor_bits_zero)
next
  case (3 n r rs acc)
  obtain u us' where us: "us = u # us'" using 3 by (cases us) auto
  have len: "length us' = length rs" "\<forall>r \<in> set rs. length r = length acc" "length (xor_bits r acc) = length acc"
    using 3 by (simp_all add: us)
  show ?case
  proof (cases u)
    case True
    have "n \<le> weight us' + weight (xor_bits (xor_bits r acc) (lin (length acc) us' rs))"
      using 3 len by simp
    then show ?thesis
      using True by (simp add: us xor_bits_assoc xor_bits_commute [of r acc])
  next
    case False
    then show ?thesis using 3 len by (simp add: us)
  qed
qed simp

text \<open>The first row that takes part, then any combination of the later ones.\<close>

fun all_heavy :: "bits list \<Rightarrow> bool" where
  "all_heavy [] = True"
| "all_heavy (r # rs) = (heavy 7 rs r \<and> all_heavy rs)"

lemma all_heavy_weight:
  assumes "all_heavy rs" "length us = length rs" "\<forall>r \<in> set rs. length r = n" "True \<in> set us"
  shows "8 \<le> weight us + weight (lin n us rs)"
  using assms
proof (induction rs arbitrary: us)
  case (Cons r rs)
  obtain u us' where us: "us = u # us'" using Cons by (cases us) auto
  show ?case
  proof (cases u)
    case True
    have "heavy 7 rs r" "length us' = length rs" "\<forall>s \<in> set rs. length s = length r" "length r = n"
      using Cons.prems by (simp_all add: us)
    from heavy_weight [OF this(1-3)] this(4) show ?thesis by (simp add: us True)
  next
    case False
    then show ?thesis using Cons by (auto simp: us)
  qed
qed simp

lemma xor_bits_code [code]:
  "xor_bits [] ys = []" "xor_bits (x # xs) [] = []"
  "xor_bits (x # xs) (y # ys) = (if x then \<not> y else y) # xor_bits xs ys"
  by simp_all

lemma GB_heavy: "all_heavy GB"
  by code_simp

lemma codeword_weight:
  assumes "0 \<le> w" "w < 2 ^ 14" "w \<noteq> 0"
  shows "8 \<le> weight (to_bits 30 (rm_codeword build_rm_codewords w))"
proof -
  have "True \<in> set (to_bits 14 w)"
  proof (rule ccontr)
    assume n: "True \<notin> set (to_bits 14 w)"
    have "to_bits 14 w = replicate 14 False"
    proof (rule nth_equalityI)
      fix i assume i: "i < length (to_bits 14 w)"
      then have "to_bits 14 w ! i \<in> set (to_bits 14 w)" by (rule nth_mem)
      then have "to_bits 14 w ! i = False" using n by metis
      then show "to_bits 14 w ! i = replicate 14 False ! i" using i by simp
    qed simp
    then have "bits_val (to_bits 14 w) = bits_val (to_bits 14 0)" by (simp add: to_bits_zero)
    then show False using assms by (simp add: bits_val_to_bits_id)
  qed
  then show ?thesis
    using all_heavy_weight [OF GB_heavy, of "to_bits 14 w" 16] GB_length
    by (simp add: codeword_systematic weight_append)
qed

lemma rm_codeword_bit:
  "rm_codeword rows w = fold (\<lambda>i cw. if bit w (13 - i) then cw XOR rows ! i else cw) [0..<14] 0"
proof -
  have "(drop_bit k w AND 1 \<noteq> 0) = bit w k" for k
    by (simp add: and_one_eq bit_iff_odd_drop_bit odd_iff_mod_2_eq_one)
  then show ?thesis by (simp add: rm_codeword_def)
qed

lemma fold_xor_split:
  fixes a b :: int
  shows "fold (\<lambda>i cw. if P i \<noteq> Q i then cw XOR g i else cw) ks (a XOR b) =
    fold (\<lambda>i cw. if P i then cw XOR g i else cw) ks a XOR fold (\<lambda>i cw. if Q i then cw XOR g i else cw) ks b"
proof (induction ks arbitrary: a b)
  case (Cons k ks)
  have e: "(a XOR b) XOR g k = (a XOR g k) XOR b" "(a XOR b) XOR g k = a XOR (b XOR g k)"
    by (simp_all add: ac_simps)
  have "(a XOR g k) XOR (b XOR g k) = a XOR b"
    by (rule bit_eqI) (auto simp: bit_xor_iff)
  then show ?case
    using Cons [of "a XOR g k" "b XOR g k"] Cons [of "a XOR g k" b] Cons [of a "b XOR g k"] Cons [of a b] e
    by (cases "P k"; cases "Q k") simp_all
qed simp

lemma rm_codeword_xor: "rm_codeword rows (v XOR w) = rm_codeword rows v XOR rm_codeword rows w"
  using fold_xor_split [where a = 0 and b = 0 and ks = "[0..<14]" and g = "(!) rows" and P = "\<lambda>i. bit v (13 - i)"
      and Q = "\<lambda>i. bit w (13 - i)"]
  by (simp add: rm_codeword_bit bit_xor_iff)

lemma rm_codeword_0: "rm_codeword rows 0 = 0"
proof -
  have "fold (\<lambda>i cw. cw) ks a = a" for ks :: "nat list" and a :: int by (induction ks) simp_all
  then show ?thesis by (simp add: rm_codeword_bit)
qed

lemma rows_range: "\<forall>r \<in> set build_rm_codewords. 0 \<le> r \<and> r < 2 ^ 30"
  by code_simp

lemma fold_xor_range:
  "\<forall>i \<in> set is. 0 \<le> g i \<and> g i < 2 ^ n \<Longrightarrow> 0 \<le> a \<and> a < 2 ^ n \<Longrightarrow>
   0 \<le> fold (\<lambda>i cw. if P i then cw XOR g i else cw) is a \<and> fold (\<lambda>i cw. if P i then cw XOR g i else cw) is a < (2::int) ^ n"
  by (induction "is" arbitrary: a) (simp_all add: XOR_upper)

lemma codeword_range: "0 \<le> rm_codeword build_rm_codewords w \<and> rm_codeword build_rm_codewords w < 2 ^ 30"
  unfolding rm_codeword_def
  by (rule fold_xor_range) (use rows_range in \<open>auto simp: build_rm_codewords_def\<close>)

lemma codeword_distance:
  assumes "0 \<le> v" "v < 2 ^ 14" "0 \<le> w" "w < 2 ^ 14" "v \<noteq> w"
  shows "8 \<le> hamming (to_bits 30 (rm_codeword build_rm_codewords v)) (to_bits 30 (rm_codeword build_rm_codewords w))"
proof -
  have "0 \<le> v XOR w" "v XOR w < 2 ^ 14" using assms XOR_upper [of v 14 w] by simp_all
  moreover have "v XOR w \<noteq> 0" using assms(5) by (metis xor.assoc xor.right_neutral xor_self_eq)
  ultimately show ?thesis
    using codeword_weight [of "v XOR w"]
    by (simp add: hamming_weight_xor rm_codeword_xor to_bits_xor)
qed

subsection \<open>The search finds the nearest codeword\<close>

lemma rm_search_spec:
  assumes "rm_search rows rx ws bd bi = (i, d)"
  shows "d \<le> bd \<and> (\<forall>w \<in> set ws. d \<le> popcount (rx XOR rm_codeword rows w)) \<and>
    (d = bd \<and> i = bi \<or> d < bd \<and> i \<in> set ws \<and> popcount (rx XOR rm_codeword rows i) = d)"
  using assms
proof (induction ws arbitrary: bd bi)
  case (Cons w ws)
  let ?d = "popcount (rx XOR rm_codeword rows w)"
  show ?case
  proof (cases "?d < bd")
    case True
    show ?thesis
    proof (cases "?d = 0")
      case True
      then show ?thesis using Cons.prems \<open>?d < bd\<close> by (auto simp: Let_def)
    next
      case False
      then have "rm_search rows rx ws ?d w = (i, d)" using Cons.prems True by (simp add: Let_def)
      from Cons.IH [OF this] show ?thesis using True by auto
    qed
  next
    case False
    then have "rm_search rows rx ws bd bi = (i, d)" using Cons.prems by (simp add: Let_def)
    from Cons.IH [OF this] show ?thesis using False by auto
  qed
qed simp

lemma decode_spec:
  assumes "length r = 30"
  obtains i d where "0 \<le> i" "i < 2 ^ 14" "rm3014_decode r = (if 4 < d then None else Some i, d)"
    "hamming r (to_bits 30 (rm_codeword build_rm_codewords i)) = d"
    "\<forall>w. 0 \<le> w \<and> w < 2 ^ 14 \<longrightarrow> d \<le> hamming r (to_bits 30 (rm_codeword build_rm_codewords w))"
proof -
  let ?rx = "bits_val r"
  obtain i d where s: "rm_search build_rm_codewords ?rx (map int [0..<2 ^ 14]) 31 0 = (i, d)"
    by (cases "rm_search build_rm_codewords ?rx (map int [0..<2 ^ 14]) 31 0") auto
  have rr: "to_bits 30 ?rx = r" using to_bits_bits_val [of r] assms by simp
  have rx: "0 \<le> ?rx" "?rx < 2 ^ 30" using bits_val_less [of r] assms by simp_all
  have h: "popcount (?rx XOR rm_codeword build_rm_codewords w) =
      hamming r (to_bits 30 (rm_codeword build_rm_codewords w))" for w
    using popcount_xor [OF rx] codeword_range [of w] by (simp add: rr)
  have le: "hamming r (to_bits 30 (rm_codeword build_rm_codewords w)) \<le> 30" for w
    using assms by (simp add: hamming_def) (metis length_filter_le length_zip length_to_bits min.idem)
  have ws: "w \<in> set (map int [0..<2 ^ 14]) \<longleftrightarrow> 0 \<le> w \<and> w < 2 ^ 14" for w
    by (auto simp: image_iff intro!: bexI [of _ "nat w"])
  note sp = rm_search_spec [OF s, unfolded ws h]
  have "d \<le> 30"
    using sp [THEN conjunct2, THEN conjunct1, rule_format, of 0] le [of 0] by (auto simp: ws)
  then have i: "0 \<le> i" "i < 2 ^ 14" "hamming r (to_bits 30 (rm_codeword build_rm_codewords i)) = d"
    using sp by auto
  moreover have "\<forall>w. 0 \<le> w \<and> w < 2 ^ 14 \<longrightarrow> d \<le> hamming r (to_bits 30 (rm_codeword build_rm_codewords w))"
    using sp ws by blast
  moreover have "rm3014_decode r = (if 4 < d then None else Some i, d)"
    by (simp add: rm3014_decode_def rm3014_decode_jit_def foldl_bits_val s [simplified] del: push_bit_Suc One_nat_def)
  ultimately show thesis using that by blast
qed

lemma encode_eq:
  "0 \<le> w \<Longrightarrow> w < 2 ^ 14 \<Longrightarrow> rm3014_encode w = Inr (rm_codeword build_rm_codewords w)"
proof -
  assume "0 \<le> w" "w < 2 ^ 14"
  moreover have "rm_codeword build_rm_codewords w AND (2 ^ 30 - 1) = rm_codeword build_rm_codewords w"
    using codeword_range [of w] by (simp only: and_mask_mod) simp
  ultimately show ?thesis
    by (simp add: rm3014_encode_def rows_equal push_bit_eq_mult)
qed

lemma hamming_codewords_far:
  assumes "0 \<le> v" "v < 2 ^ 14" "0 \<le> w" "w < 2 ^ 14" "v \<noteq> w" "length r = 30"
  shows "8 \<le> hamming r (to_bits 30 (rm_codeword build_rm_codewords v)) +
    hamming r (to_bits 30 (rm_codeword build_rm_codewords w))"
proof -
  let ?c = "\<lambda>w. to_bits 30 (rm_codeword build_rm_codewords w)"
  have "hamming (?c v) (?c w) \<le> hamming (?c v) r + hamming r (?c w)"
    by (rule hamming_triangle) (simp_all add: assms)
  then show ?thesis
    using codeword_distance [OF assms(1-5)] by (simp add: hamming_commute [of r "?c v"])
qed

lemma rm3014_correct_aux:
  assumes "rm3014_encode w = Inr c" "length r = 30" "hamming r (to_bits 30 c) \<le> 3"
  shows "rm3014_decode r = (Some w, hamming r (to_bits 30 c))"
proof -
  have w: "0 \<le> w" "w < 2 ^ 14"
    using assms(1) by (auto simp: rm3014_encode_def assert_res_def push_bit_eq_mult split: if_splits)
  have c: "c = rm_codeword build_rm_codewords w" using assms(1) encode_eq [OF w] by simp
  obtain i d where d: "0 \<le> i" "i < 2 ^ 14" "rm3014_decode r = (if 4 < d then None else Some i, d)"
    "hamming r (to_bits 30 (rm_codeword build_rm_codewords i)) = d"
    "\<forall>w. 0 \<le> w \<and> w < 2 ^ 14 \<longrightarrow> d \<le> hamming r (to_bits 30 (rm_codeword build_rm_codewords w))"
    by (rule decode_spec [OF assms(2)])
  have le: "d \<le> hamming r (to_bits 30 c)" using d(5) w by (simp add: c)
  have "i = w"
  proof (rule ccontr)
    assume "i \<noteq> w"
    from hamming_codewords_far [OF d(1,2) w this assms(2)] show False
      using d(4) le assms(3) by (simp add: c)
  qed
  then show ?thesis using d(3,4) le assms(3) by (simp add: c)
qed

subsection \<open>Properties\<close>

text \<open>The access assignment code corrects three errors: whatever 14-bit word was encoded and whichever
  at most three of the thirty bits were flipped, the brute-force decoder returns that word and the
  number of flips.\<close>

theorem rm3014_corrects_three:
  assumes "rm3014_encode w = Inr c" "length r = 30" "hamming r (to_bits 30 c) \<le> 3"
  shows "rm3014_decode r = (Some w, hamming r (to_bits 30 c))"
  by (rule rm3014_correct_aux [OF assms])

theorem rm3014_corrects_three_witness:
  "\<exists>c. rm3014_encode 0x3000 = Inr c \<and> rm3014_decode (to_bits 30 c) = (Some 0x3000, 0)"
proof -
  obtain c where c: "rm3014_encode 0x3000 = Inr c" using encode_eq [of "0x3000"] by auto
  have "length (to_bits 30 c) = 30" "hamming (to_bits 30 c) (to_bits 30 c) \<le> 3" by simp_all
  from rm3014_corrects_three [OF c this] c show ?thesis by simp
qed

text \<open>C23. The decoder is a nearest-codeword search: for every thirty bits the reported distance is the
  minimum over all codewords, a returned word attains it, and nothing is returned exactly when the
  minimum exceeds 4.\<close>

theorem rm3014_decode_nearest:
  assumes "length r = 30"
  shows "(\<forall>w c. rm3014_encode w = Inr c \<longrightarrow> snd (rm3014_decode r) \<le> hamming r (to_bits 30 c)) \<and>
    (\<exists>w c. rm3014_encode w = Inr c \<and> hamming r (to_bits 30 c) = snd (rm3014_decode r) \<and>
      fst (rm3014_decode r) = (if snd (rm3014_decode r) \<le> 4 then Some w else None))"
proof
  obtain i d where d: "0 \<le> i" "i < 2 ^ 14" "rm3014_decode r = (if 4 < d then None else Some i, d)"
    "hamming r (to_bits 30 (rm_codeword build_rm_codewords i)) = d"
    "\<forall>w. 0 \<le> w \<and> w < 2 ^ 14 \<longrightarrow> d \<le> hamming r (to_bits 30 (rm_codeword build_rm_codewords w))"
    by (rule decode_spec [OF assms])
  show "\<forall>w c. rm3014_encode w = Inr c \<longrightarrow> snd (rm3014_decode r) \<le> hamming r (to_bits 30 c)"
  proof (intro allI impI)
    fix w c assume c: "rm3014_encode w = Inr c"
    then have w: "0 \<le> w" "w < 2 ^ 14"
      by (auto simp: rm3014_encode_def assert_res_def push_bit_eq_mult split: if_splits)
    have "c = rm_codeword build_rm_codewords w" using c encode_eq [OF w] by simp
    then have "d \<le> hamming r (to_bits 30 c)" using d(5) w by blast
    then show "snd (rm3014_decode r) \<le> hamming r (to_bits 30 c)" by (simp add: d(3))
  qed
  show "\<exists>w c. rm3014_encode w = Inr c \<and> hamming r (to_bits 30 c) = snd (rm3014_decode r) \<and>
      fst (rm3014_decode r) = (if snd (rm3014_decode r) \<le> 4 then Some w else None)"
    using encode_eq [OF d(1,2)] d(3,4) by auto
qed

theorem rm3014_decode_nearest_witness: "snd (rm3014_decode (to_bits 30 0)) = 0"
proof -
  have "length (to_bits 30 (0::int)) = 30" by simp
  from rm3014_decode_nearest [OF this] encode_eq [of 0] show ?thesis
    by (fastforce simp: rm_codeword_0)
qed

text \<open>Four errors are accepted although they are ambiguous: there are an encoded word and four flips
  of its codeword for which the decoder reports a different word as found at distance 4, inside the
  limit \<open>best_dist > 4\<close> it applies.\<close>

theorem rm3014_four_errors_ambiguous:
  "\<exists>c r. rm3014_encode 0x2000 = Inr c \<and> length r = 30 \<and> hamming r (to_bits 30 c) = 4 \<and>
     rm3014_decode r = (Some 0, 4)"
proof -
  let ?c = "\<lambda>w. to_bits 30 (rm_codeword build_rm_codewords w)"
  define r where "r = map ((=) (1::int)) [0,0,0,0,0,0,0,0,0,0,0,0,0,0, 0,0,0,0,0,0,1,1,0,1,1,0,0,0,0,0]"
  have c0: "?c 0 = replicate 30 False" by (simp add: rm_codeword_0 to_bits_zero)
  have l: "length r = 30" by (simp add: r_def)
  have l2: "hamming r (?c 0) = 4" unfolding c0 r_def by code_simp
  have "to_bits 30 (rm_codeword build_rm_codewords 0x2000) =
      map ((=) (1::int)) [1,0,0,0,0,0,0,0,0,0,0,0,0,0, 1,0,0,1,1,0,1,1,0,1,1,0,0,0,0,0]"
    by code_simp
  then have h: "hamming r (?c 0x2000) = 4" unfolding r_def by (simp only:) code_simp
  let ?rx = "bits_val r"
  have rx: "to_bits 30 ?rx = r" "0 \<le> ?rx" "?rx < 2 ^ 30"
    using to_bits_bits_val [of r] bits_val_less [of r] l by simp_all
  have p: "popcount (?rx XOR rm_codeword build_rm_codewords w) = hamming r (?c w)" for w
    using popcount_xor [OF rx(2,3)] codeword_range [of w] by (simp add: rx(1))
  have far: "4 \<le> hamming r (?c w)" if "0 \<le> w" "w < 2 ^ 14" for w
    using hamming_codewords_far [of 0 w r] that l l2 by (cases "w = 0") simp_all
  define ws where "ws = map int [Suc 0..<2 ^ 14]"
  have "[0..<2 ^ 14] = 0 # [Suc 0..<2 ^ 14]" by (rule upt_conv_Cons) simp
  then have ws: "map int [0..<2 ^ 14] = 0 # ws" by (simp only: ws_def list.map int_ops)
  have rng: "0 \<le> w \<and> w < 2 ^ 14" if "w \<in> set ws" for w
    using that unfolding ws_def set_map set_upt by auto
  obtain i d where id: "rm_search build_rm_codewords ?rx ws 4 0 = (i, d)"
    by (cases "rm_search build_rm_codewords ?rx ws 4 0") auto
  then have s: "rm_search build_rm_codewords ?rx (map int [0..<2 ^ 14]) 31 0 = (i, d)"
    unfolding ws by (simp add: p l2 Let_def)
  have "\<not> (d < 4 \<and> i \<in> set ws \<and> hamming r (?c i) = d)"
    using far [of i] rng [of i] by auto
  then have "i = 0 \<and> d = 4" using rm_search_spec [OF id] by (auto simp: p)
  then have "rm3014_decode_jit ?rx build_rm_codewords = (0, 4)"
    unfolding rm3014_decode_jit_def s by simp
  then have "rm3014_decode r = (Some 0, 4)"
    by (simp add: rm3014_decode_def foldl_bits_val del: push_bit_Suc One_nat_def)
  then show ?thesis using l h encode_eq [of "0x2000"] by auto
qed

text \<open>The vector generator's matrix is what its header claims, RM(2,5) without its first two rows and
  evaluation points, but it is not the code on the air: its first generator row is at distance at
  least 1 from every codeword of \<open>RM_GEN\<close>, so the receiver never decodes it without errors.\<close>

theorem rm_vector_code_differs:
  "rm25_mismatch = [] \<and> rm_tv_encode 1 = 0x33333333 \<and> 0 < snd (rm3014_decode (to_bits 30 (rm_tv_encode 1)))"
proof -
  let ?r = "to_bits 30 0x33333333"
  have m: "rm25_mismatch = []" by code_simp
  have e: "rm_tv_encode 1 = 0x33333333" by code_simp
  have l: "length ?r = 30" by simp
  obtain i d where d: "rm3014_decode ?r = (if 4 < d then None else Some i, d)"
    "hamming ?r (to_bits 30 (rm_codeword build_rm_codewords i)) = d"
    by (rule decode_spec [OF l])
  have "d \<noteq> 0"
  proof
    assume "d = 0"
    then have "?r = to_bits 30 (rm_codeword build_rm_codewords i)"
      using d(2) by (intro hamming_0_iff [THEN iffD1]) simp_all
    then have "?r = to_bits 14 i @ lin 16 (to_bits 14 i) GB"
      unfolding codeword_systematic .
    then have "to_bits 14 i = take 14 ?r" "lin 16 (to_bits 14 i) GB = drop 14 ?r" by simp_all
    then have "lin 16 (take 14 ?r) GB = drop 14 ?r" by simp
    moreover have "lin 16 (take 14 ?r) GB \<noteq> drop 14 ?r" by code_simp
    ultimately show False by simp
  qed
  then show ?thesis using m e d(1) by simp
qed

end
