(* ===== verification/Aach.thy ===== *)
theory Aach
  imports ReedMuller Scrambler
begin

unbundle bit_operations_syntax

text \<open>
  The access assignment channel: the reference transmitter of \<open>scripts/gen_aach_reference.py\<close>
  (information word, (30,14) code, cell scrambler on a 30-bit integer) and the receiver's parser
  \<open>parse_aach\<close> of \<open>scripts/decode_dl.py\<close>.
\<close>

text \<open>One step of the register: the feedback bit and the next state.\<close>

definition next_lfsr_bit :: "32 word \<Rightarrow> 32 word \<times> 32 word" where
  "next_lfsr_bit lfsr =
     (let ST = (\<lambda>y. drop_bit (32 - y) lfsr AND 1);
          b = (ST 32 XOR ST 26 XOR ST 23 XOR ST 22 XOR ST 16 XOR ST 12 XOR ST 11 XOR ST 10 XOR
               ST 8 XOR ST 7 XOR ST 5 XOR ST 4 XOR ST 2 XOR ST 1) AND 1
      in (b, drop_bit 1 lfsr OR push_bit 31 b))"

text \<open>The loop over the thirty bits; \<open>k\<close> is \<open>29 - i\<close> plus one.\<close>

fun aach_scramble_loop :: "nat \<Rightarrow> 32 word \<Rightarrow> int \<Rightarrow> int \<Rightarrow> int" where
  "aach_scramble_loop 0 lfsr coded30 out = out"
| "aach_scramble_loop (Suc k) lfsr coded30 out =
     (let (b, lfsr') = next_lfsr_bit lfsr;
          src_bit = drop_bit k coded30 AND 1
      in aach_scramble_loop k lfsr' coded30 (out OR push_bit k ((src_bit XOR uint b) AND 1)))"

definition aach_scramble :: "int \<Rightarrow> int \<Rightarrow> int \<Rightarrow> int \<Rightarrow> int" where
  "aach_scramble mcc mnc colour_code coded30 =
     (let lfsr = word_of_int (push_bit 22 (mcc AND 0x3FF) OR push_bit 8 (mnc AND 0x3FFF) OR
                   push_bit 2 (colour_code AND 0x3F) OR 3) :: 32 word;
          lfsr = (if lfsr = 0 then 0xFFFFFFFF else lfsr)
      in aach_scramble_loop 30 lfsr coded30 0)"

definition aach_info_capaloc :: int where
  "aach_info_capaloc = 0x3000"

definition aach_info_dlul_assign :: int where
  "aach_info_dlul_assign =
     (let info = 0;
          info = push_bit 2 info OR (0 AND 3);
          info = push_bit 3 info OR (0 AND 7);
          info = push_bit 3 info OR (1 AND 7);
          info = push_bit 6 info OR (0 AND 0x3F)
      in info AND 0x3FFF)"

definition encode_aach :: "int \<Rightarrow> int \<Rightarrow> int \<Rightarrow> int \<Rightarrow> int res" where
  "encode_aach fn_0based cc mcc mnc =
     (let info = (if fn_0based = 17 then aach_info_dlul_assign else aach_info_capaloc)
      in bind_res (rm3014_encode info) (\<lambda>coded. Inr (aach_scramble mcc mnc cc coded)))"

subsection \<open>The receiver's parser\<close>

definition HEADER_NAMES :: "(int \<times> string) list" where
  "HEADER_NAMES = [(0, ''DL/UL-Assign''), (1, ''PktData''), (2, ''Reserved''), (3, ''CapAlloc'')]"

definition DL_NAMES :: "(int \<times> string) list" where
  "DL_NAMES = [(0, ''Unalloc''), (1, ''Common''), (2, ''Assigned''), (3, ''Reserved''),
     (4, ''Traffic''), (5, ''Traffic''), (6, ''Traffic''), (7, ''Traffic'')]"

definition UL_NAMES :: "(int \<times> string) list" where
  "UL_NAMES = [(0, ''Unalloc''), (1, ''Random''), (2, ''Assigned''), (3, ''Reserved''),
     (4, ''Reserved''), (5, ''Reserved''), (6, ''Reserved''), (7, ''Reserved'')]"

definition parse_aach :: "int \<Rightarrow> dict" where
  "parse_aach info14 =
     (let header = drop_bit 12 info14 AND 3;
          field1 = drop_bit 6 info14 AND 0x3F;
          field2 = info14 AND 0x3F;
          r = [(''header'', VInt header), (''header_name'', name_of HEADER_NAMES ''?'' header),
               (''field1'', VInt field1), (''field2'', VInt field2),
               (''raw'', VStr (''0x'' @ hex_upper 4 info14))]
      in if header \<in> {0, 1} then
           (let dl_usage = drop_bit 3 field1 AND 7;
                ul_usage = field1 AND 7
            in dupdate r
                 [(''dl_usage'', VInt dl_usage), (''dl_name'', name_of DL_NAMES ''?'' dl_usage),
                  (''ul_usage'', VInt ul_usage), (''ul_name'', name_of UL_NAMES ''?'' ul_usage),
                  (''colour_code'', VInt field2)])
         else if header = 3 then dset ''colour_code'' (VInt field2) r
         else r)"

subsection \<open>The integer scrambler is the bit scrambler\<close>

lemma next_lfsr_bit_eq: "next_lfsr_bit lfsr = (lfsr_bit lfsr, lfsr_next lfsr (lfsr_bit lfsr))"
proof -
  have "fst (next_lfsr_bit lfsr) = lfsr_bit lfsr"
    by (simp add: next_lfsr_bit_def lfsr_bit_def Let_def bit.conj_xor_distrib2 xor.assoc and.assoc del: drop_bit_0)
  moreover have "snd (next_lfsr_bit lfsr) = lfsr_next lfsr (fst (next_lfsr_bit lfsr))"
    by (simp only: next_lfsr_bit_def lfsr_next_def Let_def fst_conv snd_conv)
  ultimately show ?thesis by (metis prod.collapse)
qed

lemma lfsr_bit_uint: "uint (lfsr_bit l) = of_bool (lfsr_bit l = 1)"
proof -
  have "lfsr_bit l = of_bool (bit (lfsr_bit l) 0)"
    by (rule bit_word_eqI) (subst bit_lfsr_bit, auto simp: bit_simps)
  then show ?thesis by (cases "bit (lfsr_bit l) 0") simp_all
qed

lemma aach_scramble_loop_bits:
  "aach_scramble_loop k l c out = out OR bits_val (xor_bits (to_bits k c) (scrambler_loop k l))"
proof (induction k arbitrary: l out)
  case (Suc k)
  let ?x = "bit c k \<noteq> (lfsr_bit l = 1)"
  let ?rest = "xor_bits (to_bits k c) (scrambler_loop k (lfsr_next l (lfsr_bit l)))"
  have "drop_bit k c AND 1 = of_bool (bit c k)"
    by (simp add: and_one_eq bit_iff_odd_drop_bit of_bool_odd_eq_mod_2)
  then have b: "(drop_bit k c AND 1 XOR uint (lfsr_bit l)) AND 1 = of_bool ?x"
    by (simp add: lfsr_bit_uint)
  have "bits_val (?x # ?rest) = push_bit k (of_bool ?x) OR bits_val ?rest"
    using push_bit_or_add [of "bits_val ?rest" k "of_bool ?x"] bits_val_less [of ?rest]
    by (simp add: bits_val_Cons)
  moreover have "aach_scramble_loop (Suc k) l c out =
      aach_scramble_loop k (lfsr_next l (lfsr_bit l)) c (out OR push_bit k (of_bool ?x))"
    by (simp only: aach_scramble_loop.simps next_lfsr_bit_eq Let_def prod.case b)
  moreover have "xor_bits (to_bits (Suc k) c) (scrambler_loop (Suc k) l) = ?x # ?rest"
    by (simp add: to_bits_Suc Let_def)
  ultimately show ?case by (simp only: Suc or.assoc)
qed simp

lemma aach_scramble_bits:
  assumes "0 \<le> c" "c < 2 ^ 30"
  shows "to_bits 30 (aach_scramble mcc mnc cc c) = dl_ks.mask_with (make_scramb_code mcc mnc cc) (to_bits 30 c)"
proof -
  let ?s = "make_scramb_code mcc mnc cc"
  have "aach_scramble mcc mnc cc c = bits_val (xor_bits (to_bits 30 c) (scrambler_seq ?s 30))"
    by (simp only: aach_scramble_def Let_def make_scramb_code_def [symmetric] make_scramb_code_nonzero if_False
        aach_scramble_loop_bits scrambler_seq_nonzero or.left_neutral not_False_eq_True)
  then show ?thesis
    using to_bits_bits_val [of "xor_bits (to_bits 30 c) (scrambler_seq ?s 30)"]
    by (simp add: dl_ks.mask_with_def)
qed

subsection \<open>Properties\<close>

lemma info_words: "aach_info_capaloc = 0x3000" "aach_info_dlul_assign = 0x40"
  by (simp add: aach_info_capaloc_def) (unfold aach_info_dlul_assign_def, code_simp)

lemma aach_received:
  assumes "encode_aach f cc mcc mnc = Inr v" "length e = 30" "weight e \<le> 3"
  shows "rm3014_decode (descramble_hard (xor_bits (to_bits 30 v) e) (make_scramb_code mcc mnc cc) 30) =
    (Some (if f = 17 then 0x40 else 0x3000), weight e)"
proof -
  let ?w = "if f = 17 then aach_info_dlul_assign else aach_info_capaloc"
  let ?s = "make_scramb_code mcc mnc cc"
  have w: "0 \<le> ?w" "?w < 2 ^ 14" by (simp_all add: info_words)
  let ?c = "rm_codeword build_rm_codewords ?w"
  have v: "v = aach_scramble mcc mnc cc ?c"
    using assms(1) by (simp only: encode_aach_def Let_def encode_eq [OF w] bind_res_simps sum.inject)
  have m: "to_bits 30 v = dl_ks.mask_with ?s (to_bits 30 ?c)"
    using aach_scramble_bits codeword_range [of ?w] unfolding v by blast
  have "descramble_hard (xor_bits (to_bits 30 v) e) ?s 30 = dl_ks.mask_with ?s (xor_bits (to_bits 30 v) e)"
    by (rule descramble_hard_mask) (simp add: assms(2))
  also have "\<dots> = xor_bits (to_bits 30 ?c) e"
    unfolding m by (subst dl_ks.mask_xor) (simp_all add: assms(2) dl_ks.mask_length dl_ks.mask_mask)
  finally have r: "descramble_hard (xor_bits (to_bits 30 v) e) ?s 30 = xor_bits (to_bits 30 ?c) e" .
  have "xor_bits (xor_bits (to_bits 30 ?c) e) (to_bits 30 ?c) = e"
    by (simp add: xor_bits_commute [of "to_bits 30 ?c" e] xor_bits_cancel assms(2))
  then have h: "hamming (xor_bits (to_bits 30 ?c) e) (to_bits 30 ?c) = weight e"
    by (simp add: hamming_weight_xor assms(2))
  have "rm3014_decode (xor_bits (to_bits 30 ?c) e) = (Some ?w, hamming (xor_bits (to_bits 30 ?c) e) (to_bits 30 ?c))"
    by (rule rm3014_correct_aux [OF encode_eq [OF w]]) (simp_all add: assms h)
  then show ?thesis unfolding r h by (simp add: info_words)
qed

text \<open>C22. The access assignment survives the air: for every cell identity and frame, the word the reference
  transmitter emits, with any three of its thirty bits flipped, is descrambled, decoded and parsed by the
  receiver as capacity allocation in frames 1 to 17 and as a random-access grant in frame 18.\<close>

theorem aach_over_the_air:
  assumes "length e = 30" "weight e \<le> 3"
  shows "\<exists>v info. encode_aach f cc mcc mnc = Inr v \<and>
    rm3014_decode (descramble_hard (xor_bits (to_bits 30 v) e) (make_scramb_code mcc mnc cc) 30) = (Some info, weight e) \<and>
    (if f = 17
     then dget (parse_aach info) ''header_name'' = Some (VStr ''DL/UL-Assign'') \<and>
       dget (parse_aach info) ''dl_name'' = Some (VStr ''Unalloc'') \<and>
       dget (parse_aach info) ''ul_name'' = Some (VStr ''Random'')
     else dget (parse_aach info) ''header_name'' = Some (VStr ''CapAlloc'') \<and>
       dget (parse_aach info) ''dl_name'' = None) \<and>
    dget (parse_aach info) ''colour_code'' = Some (VInt 0)"
proof -
  have r: "0 \<le> aach_info_dlul_assign" "aach_info_dlul_assign < 2 ^ 14" "0 \<le> aach_info_capaloc" "aach_info_capaloc < 2 ^ 14"
    by (simp_all add: info_words)
  obtain v where v: "encode_aach f cc mcc mnc = Inr v"
    using encode_eq [OF r(1,2)] encode_eq [OF r(3,4)] by (cases "f = 17") (auto simp: encode_aach_def)
  have p: "dget (parse_aach 0x3000) ''header_name'' = Some (VStr ''CapAlloc'')" "dget (parse_aach 0x3000) ''dl_name'' = None"
    "dget (parse_aach 0x3000) ''colour_code'' = Some (VInt 0)"
    "dget (parse_aach 0x40) ''header_name'' = Some (VStr ''DL/UL-Assign'')"
    "dget (parse_aach 0x40) ''dl_name'' = Some (VStr ''Unalloc'')" "dget (parse_aach 0x40) ''ul_name'' = Some (VStr ''Random'')"
    "dget (parse_aach 0x40) ''colour_code'' = Some (VInt 0)"
    by (simp_all add: parse_aach_def Let_def HEADER_NAMES_def DL_NAMES_def UL_NAMES_def dupdate_def drop_bit_eq_div)
  show ?thesis
    using v aach_received [OF v assms] p by (cases "f = 17") auto
qed

theorem aach_over_the_air_witness:
  "\<exists>v. encode_aach 17 9 901 9998 = Inr v \<and>
     fst (rm3014_decode (descramble_hard (xor_bits (to_bits 30 v) (True # replicate 29 False))
       (make_scramb_code 901 9998 9) 30)) \<noteq> None"
proof -
  have "length (True # replicate 29 False) = 30" "weight (True # replicate 29 False) \<le> 3" by simp_all
  from aach_over_the_air [OF this, of 17 9 901 9998] show ?thesis by fastforce
qed

end
