(* ===== verification/DlReceive.thy ===== *)
theory DlReceive
  imports SoftViterbi SyncPdu MacParse LlcMle NetworkTime Aach Channel Complex_Main
begin

text \<open>
  What \<open>decode_dl\<close> of \<open>scripts/decode_dl.py\<close> does with one slot of the burst grid: choosing between the
  synchronisation burst and the two normal bursts, decoding their blocks (SB1 and BKN2, SCH/F with the
  stealing fallback, two half slots), the access assignment, and handing the information to the MAC,
  LLC and MLE parsers.

  The demodulator is the input: for each training sequence the correlation and the burst it extracted,
  with the dibits of \<open>demod_pi4dqpsk\<close> and the soft values of \<open>demod_pi4dqpsk_soft\<close>, and the bursts of the
  timing retries in the order the code tries them.  Correlations are rational, the count of bad bursts
  is kept in quarters.  What is printed for a slot is a list of items; the dumps of raw bits are left out.
\<close>

subsection \<open>Burst layouts\<close>

definition SDB_TAIL1 :: nat where "SDB_TAIL1 = 6"
definition SDB_PHADJ1 :: nat where "SDB_PHADJ1 = 1"
definition SDB_FC :: nat where "SDB_FC = 40"
definition SDB_SB1 :: nat where "SDB_SB1 = 60"
definition SDB_STS :: nat where "SDB_STS = 19"
definition SDB_BB :: nat where "SDB_BB = 15"
definition SDB_BKN2 :: nat where "SDB_BKN2 = 108"
definition SDB_OFF_SB1_DL :: nat where "SDB_OFF_SB1_DL = SDB_TAIL1 + SDB_PHADJ1 + SDB_FC"
definition SDB_OFF_STS_DL :: nat where "SDB_OFF_STS_DL = SDB_OFF_SB1_DL + SDB_SB1"
definition SDB_OFF_BB_DL :: nat where "SDB_OFF_BB_DL = SDB_OFF_STS_DL + SDB_STS"
definition SDB_OFF_BKN2_DL :: nat where "SDB_OFF_BKN2_DL = SDB_OFF_BB_DL + SDB_BB"
definition NSB_OFF_SB1_DL :: nat where "NSB_OFF_SB1_DL = 25"
definition NSB_OFF_STS_DL :: nat where "NSB_OFF_STS_DL = 85"
definition NSB_OFF_BB_DL :: nat where "NSB_OFF_BB_DL = 104"
definition NSB_OFF_BKN2_DL :: nat where "NSB_OFF_BKN2_DL = 119"
definition NDB_TAIL1 :: nat where "NDB_TAIL1 = 6"
definition NDB_PHADJ1 :: nat where "NDB_PHADJ1 = 1"
definition NDB_BLK1 :: nat where "NDB_BLK1 = 108"
definition NDB_BB1 :: nat where "NDB_BB1 = 7"
definition NDB_NTS :: nat where "NDB_NTS = 11"
definition NDB_BB2 :: nat where "NDB_BB2 = 8"
definition NDB_BLK2 :: nat where "NDB_BLK2 = 108"
definition NDB_OFF_BLK1 :: nat where "NDB_OFF_BLK1 = NDB_TAIL1 + NDB_PHADJ1"
definition NDB_OFF_BB1 :: nat where "NDB_OFF_BB1 = NDB_OFF_BLK1 + NDB_BLK1"
definition NDB_OFF_NTS :: nat where "NDB_OFF_NTS = NDB_OFF_BB1 + NDB_BB1"
definition NDB_OFF_BB2 :: nat where "NDB_OFF_BB2 = NDB_OFF_NTS + NDB_NTS"
definition NDB_OFF_BLK2 :: nat where "NDB_OFF_BLK2 = NDB_OFF_BB2 + NDB_BB2"

lemmas dl_layout_defs = SDB_TAIL1_def SDB_PHADJ1_def SDB_FC_def SDB_SB1_def SDB_STS_def SDB_BB_def SDB_BKN2_def
  SDB_OFF_SB1_DL_def SDB_OFF_STS_DL_def SDB_OFF_BB_DL_def SDB_OFF_BKN2_DL_def NSB_OFF_SB1_DL_def NSB_OFF_STS_DL_def
  NSB_OFF_BB_DL_def NSB_OFF_BKN2_DL_def NDB_TAIL1_def NDB_PHADJ1_def NDB_BLK1_def NDB_BB1_def NDB_NTS_def NDB_BB2_def
  NDB_BLK2_def NDB_OFF_BLK1_def NDB_OFF_BB1_def NDB_OFF_NTS_def NDB_OFF_BB2_def NDB_OFF_BLK2_def

text \<open>A layout: its name and the offsets of SB1, STS, BB and BKN2.\<close>

record sb_layout =
  l_name :: string
  off_sb1 :: nat
  off_sts :: nat
  off_bb :: nat
  off_bkn2 :: nat

definition LAYOUTS_DL :: "sb_layout list" where
  "LAYOUTS_DL =
     [\<lparr>l_name = ''continuous'', off_sb1 = SDB_OFF_SB1_DL, off_sts = SDB_OFF_STS_DL, off_bb = SDB_OFF_BB_DL, off_bkn2 = SDB_OFF_BKN2_DL\<rparr>,
      \<lparr>l_name = ''non-continuous'', off_sb1 = NSB_OFF_SB1_DL, off_sts = NSB_OFF_STS_DL, off_bb = NSB_OFF_BB_DL, off_bkn2 = NSB_OFF_BKN2_DL\<rparr>]"

subsection \<open>State and input\<close>

record burst_data =
  b_dibits :: "nat list"
  b_soft :: "int list"

record slot_input =
  in_sb :: "burst_data option \<times> rat"
  in_ndb1 :: "burst_data option \<times> rat"
  in_ndb2 :: "burst_data option \<times> rat"
  sb1_retries :: "(burst_data option \<times> rat) list"
  bkn2_retries :: "burst_data option list"
  ndb2_retries :: "int list list option list"

text \<open>The local variables of the loop; \<open>fn_var\<close> is unbound until a beacon of the cell has been read.\<close>

record dl_state =
  scramb :: int
  cell :: "int \<times> int \<times> int"
  clock :: net_time
  fn_var :: "int option"
  n_sb_ok :: nat
  n_sb_fail :: nat
  n_ndb_ok :: nat
  n_ndb_fail :: nat
  n_empty :: nat
  bad_quarters :: nat
  time_counter :: nat

record cell_filter =
  want_mcc :: "int option"
  want_mnc :: "int option"
  want_cc :: "int option"

text \<open>What is printed, in order.\<close>

datatype item =
    Header string net_time rat
  | SbForeign dict
  | SbOk dict net_time
  | SbFail
  | MacItem string dict
  | LlcItem string dict
  | MleItem string dict
  | DirectMmItem string dict
  | AachItem dict nat
  | AachFail nat
  | Stealing string
  | CrcFail string
  | NotGuaranteed
  | BnchItem dict

subsection \<open>Classification\<close>

text \<open>Python's order on strings and on the triples of \<open>max(candidates)\<close>; the names differ, so the bursts are
  never compared.\<close>

fun str_less :: "string \<Rightarrow> string \<Rightarrow> bool" where
  "str_less xs [] = False"
| "str_less [] (y # ys) = True"
| "str_less (x # xs) (y # ys) = (if x = y then str_less xs ys else (of_char x :: nat) < of_char y)"

type_synonym candidate = "rat \<times> string \<times> burst_data"

definition cand_less :: "candidate \<Rightarrow> candidate \<Rightarrow> bool" where
  "cand_less a b \<longleftrightarrow> fst a < fst b \<or> (fst a = fst b \<and> str_less (fst (snd a)) (fst (snd b)))"

fun py_max :: "candidate \<Rightarrow> candidate list \<Rightarrow> candidate" where
  "py_max best [] = best"
| "py_max best (c # cs) = py_max (if cand_less best c then c else best) cs"

definition MIN_SB_CORR :: rat where "MIN_SB_CORR = 1 / 2"
definition MIN_NDB_CORR :: rat where "MIN_NDB_CORR = 2 / 5"

definition candidate_of :: "rat \<Rightarrow> string \<Rightarrow> burst_data option \<times> rat \<Rightarrow> candidate list" where
  "candidate_of lo name = (\<lambda>(syms, corr).
     case syms of None \<Rightarrow> [] | Some b \<Rightarrow> if lo \<le> corr then [(corr, name, b)] else [])"

definition candidates :: "slot_input \<Rightarrow> candidate list" where
  "candidates inp = candidate_of MIN_SB_CORR ''SB'' (in_sb inp) @
     candidate_of MIN_NDB_CORR ''NDB1'' (in_ndb1 inp) @ candidate_of MIN_NDB_CORR ''NDB2'' (in_ndb2 inp)"

definition classify :: "slot_input \<Rightarrow> candidate option" where
  "classify inp = (case candidates inp of [] \<Rightarrow> None | c # cs \<Rightarrow> Some (py_max c cs))"

subsection \<open>Blocks\<close>

text \<open>\<open>xs[i : i + n]\<close>\<close>

definition block_at :: "nat \<Rightarrow> nat \<Rightarrow> 'a list \<Rightarrow> 'a list" where
  "block_at i n xs = take n (drop i xs)"

definition decode_block :: "int list \<Rightarrow> int \<Rightarrow> nat \<Rightarrow> nat \<Rightarrow> nat \<Rightarrow> (bool \<times> bits) res" where
  "decode_block soft init K a info_len =
     bind_res (descramble_soft soft init K) (\<lambda>d.
     bind_res (decode_channel_soft d K a info_len) (\<lambda>(ok, info, _). Inr (ok, info)))"

definition try_sb1_decode :: "sb_layout \<Rightarrow> burst_data \<Rightarrow> (bool \<times> bits option) res" where
  "try_sb1_decode l b =
     (let sb1_s = (int (off_sb1 l) - 1) * 2
      in if sb1_s < 0 \<or> int (length (b_soft b)) < sb1_s + int (SDB_SB1 * 2) then Inr (False, None)
         else bind_res (decode_block (block_at (nat sb1_s) (SDB_SB1 * 2) (b_soft b)) 3 120 11 60)
           (\<lambda>(ok, info). Inr (ok, Some info)))"

text \<open>The retries: the first that passes replaces the burst and the correlation.\<close>

type_synonym sb1_result = "bool \<times> bits option \<times> burst_data \<times> rat"

fun retry_sb1 :: "sb_layout \<Rightarrow> (burst_data option \<times> rat) list \<Rightarrow> sb1_result \<Rightarrow> sb1_result res" where
  "retry_sb1 l [] r = Inr r"
| "retry_sb1 l ((None, _) # rs) r = retry_sb1 l rs r"
| "retry_sb1 l ((Some b, corr) # rs) r =
     bind_res (try_sb1_decode l b) (\<lambda>(ok, info). if ok then Inr (True, info, b, corr) else retry_sb1 l rs r)"

definition decode_sb1 :: "sb_layout \<Rightarrow> slot_input \<Rightarrow> burst_data \<Rightarrow> rat \<Rightarrow> sb1_result res" where
  "decode_sb1 l inp b corr =
     bind_res (try_sb1_decode l b) (\<lambda>(ok, info).
       if ok then Inr (ok, info, b, corr) else retry_sb1 l (sb1_retries inp) (ok, info, b, corr))"

text \<open>\<open>si[k]\<close> of an integer field.\<close>

definition int_field :: "dict \<Rightarrow> string \<Rightarrow> int res" where
  "int_field si k = (case dget si k of Some (VInt v) \<Rightarrow> Inr v | Some _ \<Rightarrow> Inl TypeError | None \<Rightarrow> Inl KeyError)"

definition int_or_0 :: "dict \<Rightarrow> string \<Rightarrow> int" where
  "int_or_0 si k = (case dget_default si k (VInt 0) of VInt v \<Rightarrow> v | _ \<Rightarrow> 0)"

text \<open>Cell identity and scrambling code of a beacon.\<close>

definition adopt_cell :: "dict \<Rightarrow> ((int \<times> int \<times> int) \<times> int) res" where
  "adopt_cell si =
     (if dget_default si ''Mode'' (VStr ''TMO'') = VStr ''TMO''
      then bind_res (int_field si ''MCC'') (\<lambda>mcc. bind_res (int_field si ''MNC'') (\<lambda>mnc. bind_res (int_field si ''ColourCode'') (\<lambda>cc.
        Inr ((mcc, mnc, cc), make_scramb_code mcc mnc cc))))
      else let mnc = int_or_0 si ''MNI'' AND 0x3F
        in bind_res (int_field si ''ColourCode'') (\<lambda>cc.
          Inr ((0, mnc, cc), make_scramb_code_dmo mnc (int_or_0 si ''SourceAddress''))))"

text \<open>\<open>nt.synchronize(*sync_to_air(si))\<close>\<close>

definition sync_clock :: "dict \<Rightarrow> net_time \<Rightarrow> net_time" where
  "sync_clock si nt = synchronize (int_or_0 si ''TimeSlot'') (int_or_0 si ''Frame'') (int_or_0 si ''MultiFrame'') nt"

subsection \<open>The layers above a block\<close>

definition full_stack :: "ext_parser \<Rightarrow> ext_parser \<Rightarrow> string \<Rightarrow> dict \<Rightarrow> bits \<Rightarrow> item list res" where
  "full_stack cmce mm prefix mac info =
     (if dget mac ''type'' = Some (VInt 0) \<and> dget mac ''is_null_pdu'' \<in> {None, Some (VBool False)}
      then (case dget_default mac ''payload_start'' (VInt 0) of
        VInt pstart \<Rightarrow>
          (if pstart + 4 < int (length info)
           then bind_res (parse_llc info (nat pstart)) (\<lambda>llc.
             case dget llc ''payload_start'' of
               None \<Rightarrow> Inr [LlcItem prefix llc]
             | Some (VInt p) \<Rightarrow>
                 (if p + 3 < int (length info)
                  then if dget llc ''llc_type'' = Some (VInt 14)
                    then bind_res (parse_direct_mm info (nat p)) (\<lambda>d. Inr [LlcItem prefix llc, DirectMmItem prefix d])
                    else bind_res (parse_mle cmce mm info (nat p)) (\<lambda>m. Inr [LlcItem prefix llc, MleItem prefix m])
                  else Inr [LlcItem prefix llc])
             | Some _ \<Rightarrow> Inl TypeError)
           else Inr [])
      | _ \<Rightarrow> Inl TypeError)
      else Inr [])"

definition mac_items :: "ext_parser \<Rightarrow> ext_parser \<Rightarrow> string \<Rightarrow> string \<Rightarrow> bits \<Rightarrow> item list res" where
  "mac_items cmce mm prefix stack_prefix info =
     bind_res (parse_mac_pdu info) (\<lambda>mac.
     bind_res (full_stack cmce mm stack_prefix mac info) (\<lambda>items. Inr (MacItem prefix mac # items)))"

definition aach_items :: "bits \<Rightarrow> int \<Rightarrow> item list res" where
  "aach_items bb_bits init =
     (if length bb_bits \<noteq> 30 then Inl ValueError
      else case rm3014_decode (xor_bits bb_bits (scrambler_seq init 30)) of
        (Some aach_info, d) \<Rightarrow> Inr [AachItem (parse_aach aach_info) d]
      | (None, d) \<Rightarrow> Inr [AachFail d])"

subsection \<open>Synchronisation bursts\<close>

text \<open>The second block: retried on the bursts of other timings; a failure counts half a bad burst, and reads the
  frame number of the last beacon of the cell.\<close>

definition bkn2_soft :: "sb_layout \<Rightarrow> burst_data \<Rightarrow> int list" where
  "bkn2_soft l b = block_at ((off_bkn2 l - 1) * 2) (SDB_BKN2 * 2) (b_soft b)"

fun retry_bkn2 :: "sb_layout \<Rightarrow> int \<Rightarrow> burst_data option list \<Rightarrow> bits option res" where
  "retry_bkn2 l init [] = Inr None"
| "retry_bkn2 l init (None # rs) = retry_bkn2 l init rs"
| "retry_bkn2 l init (Some b # rs) =
     bind_res (decode_block (bkn2_soft l b) init 216 101 124) (\<lambda>(ok, info).
       if ok then Inr (Some info) else retry_bkn2 l init rs)"

definition bkn2_step ::
  "ext_parser \<Rightarrow> ext_parser \<Rightarrow> sb_layout \<Rightarrow> slot_input \<Rightarrow> burst_data \<Rightarrow> dict \<Rightarrow> dl_state \<Rightarrow> (item list \<times> dl_state) res" where
  "bkn2_step cmce mm l inp b si st =
     bind_res (decode_block (bkn2_soft l b) (scramb st) 216 101 124) (\<lambda>(ok, info).
     bind_res (if ok then Inr (Some info) else retry_bkn2 l (scramb st) (bkn2_retries inp)) (\<lambda>good.
       case good of
         Some info \<Rightarrow> bind_res (parse_mac_pdu info) (\<lambda>mac. Inr ([MacItem ''  BKN2'' mac], st))
       | None \<Rightarrow>
           (let st = st\<lparr>bad_quarters := bad_quarters st + 2\<rparr>
            in case fn_var st of
                 None \<Rightarrow> Inl UnboundLocalError
               | Some f \<Rightarrow>
                   if f = 18 \<and> dget_default si ''Frame18Ext'' (VInt 0) = VInt 0 then Inr ([NotGuaranteed], st)
                   else Inr ([CrcFail ''  BKN2''], st))))"

text \<open>A beacon of another cell is reported and changes nothing.\<close>

definition sb_identity ::
  "cell_filter \<Rightarrow> dict \<Rightarrow> dl_state \<Rightarrow> (item list \<times> dl_state) res" where
  "sb_identity flt si st =
     (if \<not> cell_matches si (want_mcc flt) (want_mnc flt) (want_cc flt) then Inr ([SbForeign si], st)
      else bind_res (adopt_cell si) (\<lambda>(c, init).
        bind_res (int_field si ''Frame'') (\<lambda>f.
          let nt = sync_clock si (clock st)
          in Inr ([SbOk si nt], st\<lparr>cell := c, scramb := init, fn_var := Some f, clock := nt\<rparr>))))"

text \<open>A slot ends with the clock advanced, except where the code jumps to the next slot before that: \<open>finish\<close> is
  the end of the loop body.\<close>

definition finish :: "dl_state \<Rightarrow> dl_state" where
  "finish st = st\<lparr>time_counter := time_counter st + 1, clock := advance (clock st)\<rparr>"

definition sb_slot ::
  "ext_parser \<Rightarrow> ext_parser \<Rightarrow> cell_filter \<Rightarrow> sb_layout \<Rightarrow> slot_input \<Rightarrow> burst_data \<Rightarrow> rat \<Rightarrow> dl_state \<Rightarrow>
   (item list \<times> dl_state) res" where
  "sb_slot cmce mm flt l inp b0 corr0 st =
     bind_res (decode_sb1 l inp b0 corr0) (\<lambda>(ok, info, b, corr).
     let hdr = Header ''SB'' (clock st) corr
     in if \<not> ok then Inr ([hdr, SbFail],
          finish (st\<lparr>n_sb_fail := n_sb_fail st + 1, bad_quarters := bad_quarters st + 2\<rparr>))
        else
          bind_res (parse_sysinfo_sb (case info of None \<Rightarrow> [] | Some i \<Rightarrow> i)) (\<lambda>si.
          bind_res (sb_identity flt si (st\<lparr>n_sb_ok := n_sb_ok st + 1\<rparr>)) (\<lambda>(it1, st).
          if length (b_soft b) < (off_bkn2 l - 1) * 2 + SDB_BKN2 * 2 then Inr (hdr # it1, st)
          else bind_res (bkn2_step cmce mm l inp b si st) (\<lambda>(it2, st).
          if length (b_dibits b) < off_bb l - 1 + SDB_BB then Inr (hdr # it1 @ it2, st)
          else bind_res (aach_items (dibits_to_bits (block_at (off_bb l - 1) SDB_BB (b_dibits b))) (scramb st)) (\<lambda>it3.
            Inr (hdr # it1 @ it2 @ it3, finish st))))))"

subsection \<open>Normal bursts\<close>

definition blk1 :: "'a list \<Rightarrow> 'a list" where
  "blk1 = block_at ((NDB_OFF_BLK1 - 1) * 2) (NDB_BLK1 * 2)"

definition blk2 :: "'a list \<Rightarrow> 'a list" where
  "blk2 = block_at ((NDB_OFF_BLK2 - 1) * 2) (NDB_BLK2 * 2)"

definition ndb_aach :: "burst_data \<Rightarrow> int \<Rightarrow> item list res" where
  "ndb_aach b init =
     aach_items (dibits_to_bits (block_at (NDB_OFF_BB1 - 1) NDB_BB1 (b_dibits b) @
       block_at (NDB_OFF_BB2 - 1) NDB_BB2 (b_dibits b))) init"

text \<open>SCH/F over both blocks; when its CRC fails, each half is tried as a stolen half slot.\<close>

definition ndb1_blocks ::
  "ext_parser \<Rightarrow> ext_parser \<Rightarrow> burst_data \<Rightarrow> dl_state \<Rightarrow> (item list \<times> dl_state) res" where
  "ndb1_blocks cmce mm b st =
     bind_res (decode_block (blk1 (b_soft b) @ blk2 (b_soft b)) (scramb st) 432 103 268) (\<lambda>(crc_ok, info).
     if crc_ok then
       bind_res (mac_items cmce mm ''  SCH/F'' ''    '' info) (\<lambda>it. Inr (it, st\<lparr>n_ndb_ok := n_ndb_ok st + 1\<rparr>))
     else
       bind_res (decode_block (blk1 (b_soft b)) (scramb st) 216 101 124) (\<lambda>(ok1, info1).
       bind_res (decode_block (blk2 (b_soft b)) (scramb st) 216 101 124) (\<lambda>(ok2, info2).
       if ok1 \<or> ok2 then
         (let half = if ok1 then ''BKN1'' else ''BKN2''
          in bind_res (mac_items cmce mm (''  '' @ half @ '' SCH/HD-FACCH'') ''    '' (if ok1 then info1 else info2))
            (\<lambda>it. Inr (Stealing half # it, st\<lparr>n_ndb_ok := n_ndb_ok st + 1\<rparr>)))
       else Inr ([CrcFail ''  SCH/F''],
         st\<lparr>n_ndb_fail := n_ndb_fail st + 1, bad_quarters := bad_quarters st + 2\<rparr>))))"

definition decode_halves :: "int list \<Rightarrow> int \<Rightarrow> ((bool \<times> bits) \<times> bool \<times> bits) res" where
  "decode_halves sbits init =
     bind_res (decode_block (blk1 sbits) init 216 101 124) (\<lambda>r1.
     bind_res (decode_block (blk2 sbits) init 216 101 124) (\<lambda>r2. Inr (r1, r2)))"

text \<open>The retries fill in a half that has failed so far, and stop when both are good.\<close>

type_synonym halves_result = "(bool \<times> bits) \<times> bool \<times> bits"

fun retry_phases :: "int \<Rightarrow> int list list \<Rightarrow> halves_result \<Rightarrow> (bool \<times> halves_result) res" where
  "retry_phases init [] r = Inr (False, r)"
| "retry_phases init (s # ss) (r1, r2) =
     bind_res (decode_halves s init) (\<lambda>(q1, q2).
       let r1 = (if fst q1 \<and> \<not> fst r1 then q1 else r1);
           r2 = (if fst q2 \<and> \<not> fst r2 then q2 else r2)
       in if fst r1 \<and> fst r2 then Inr (True, r1, r2) else retry_phases init ss (r1, r2))"

fun retry_halves :: "int \<Rightarrow> int list list option list \<Rightarrow> halves_result \<Rightarrow> halves_result res" where
  "retry_halves init [] r = Inr r"
| "retry_halves init (None # ts) r = retry_halves init ts r"
| "retry_halves init (Some ss # ts) r =
     bind_res (retry_phases init ss r) (\<lambda>(d, r). if d then Inr r else retry_halves init ts r)"

definition half1_items ::
  "ext_parser \<Rightarrow> ext_parser \<Rightarrow> bool \<times> bits \<Rightarrow> dl_state \<Rightarrow> (item list \<times> dl_state) res" where
  "half1_items cmce mm r st =
     (if fst r then bind_res (mac_items cmce mm ''  BKN1 SCH/HD'' ''    BKN1 '' (snd r)) (\<lambda>it. Inr (it, st))
      else Inr ([CrcFail ''  BKN1 SCH/HD''], st\<lparr>bad_quarters := bad_quarters st + 1\<rparr>))"

definition half2_items ::
  "ext_parser \<Rightarrow> ext_parser \<Rightarrow> bool \<times> bits \<Rightarrow> dl_state \<Rightarrow> (item list \<times> dl_state) res" where
  "half2_items cmce mm r st =
     (let bkn2_is_bnch = (tn (clock st) = 1 \<and> fn (clock st) = 18);
          bkn2_tag = (if bkn2_is_bnch then ''BKN2 BNCH'' else ''BKN2 SCH/HD'')
      in if fst r then
           if bkn2_is_bnch then bind_res (parse_sysinfo_sb (snd r)) (\<lambda>si. Inr ([BnchItem si], st))
           else bind_res (mac_items cmce mm (''  '' @ bkn2_tag) ''    BKN2 '' (snd r)) (\<lambda>it. Inr (it, st))
         else Inr ([CrcFail (''  '' @ bkn2_tag)], st\<lparr>bad_quarters := bad_quarters st + 1\<rparr>))"

definition ndb2_blocks ::
  "ext_parser \<Rightarrow> ext_parser \<Rightarrow> slot_input \<Rightarrow> burst_data \<Rightarrow> dl_state \<Rightarrow> (item list \<times> dl_state) res" where
  "ndb2_blocks cmce mm inp b st =
     bind_res (decode_halves (b_soft b) (scramb st)) (\<lambda>r.
     bind_res (if fst (fst r) \<and> fst (snd r) then Inr r else retry_halves (scramb st) (ndb2_retries inp) r) (\<lambda>(r1, r2).
     let st = (if fst r1 \<or> fst r2 then st\<lparr>n_ndb_ok := n_ndb_ok st + 1\<rparr> else st\<lparr>n_ndb_fail := n_ndb_fail st + 1\<rparr>)
     in bind_res (half1_items cmce mm r1 st) (\<lambda>(it1, st).
        bind_res (half2_items cmce mm r2 st) (\<lambda>(it2, st). Inr (it1 @ it2, st)))))"

definition ndb_slot ::
  "ext_parser \<Rightarrow> ext_parser \<Rightarrow> slot_input \<Rightarrow> string \<Rightarrow> burst_data \<Rightarrow> rat \<Rightarrow> dl_state \<Rightarrow> (item list \<times> dl_state) res" where
  "ndb_slot cmce mm inp btype b corr st =
     bind_res (ndb_aach b (scramb st)) (\<lambda>it1.
     bind_res (if btype = ''NDB1'' then ndb1_blocks cmce mm b st else ndb2_blocks cmce mm inp b st) (\<lambda>(it2, st').
       Inr (Header btype (clock st) corr # it1 @ it2, finish st')))"

subsection \<open>The loop over the slots\<close>

definition empty_slot :: "dl_state \<Rightarrow> dl_state" where
  "empty_slot st = finish (st\<lparr>n_empty := n_empty st + 1, bad_quarters := bad_quarters st + 4\<rparr>)"

definition slot_step ::
  "ext_parser \<Rightarrow> ext_parser \<Rightarrow> cell_filter \<Rightarrow> sb_layout \<Rightarrow> slot_input \<Rightarrow> dl_state \<Rightarrow> (item list \<times> dl_state) res" where
  "slot_step cmce mm flt l inp st =
     (case classify inp of
        None \<Rightarrow> Inr ([], empty_slot st)
      | Some (corr, btype, b) \<Rightarrow>
          if btype = ''SB'' then sb_slot cmce mm flt l inp b corr st
          else ndb_slot cmce mm inp btype b corr st)"

fun slot_loop ::
  "ext_parser \<Rightarrow> ext_parser \<Rightarrow> cell_filter \<Rightarrow> sb_layout \<Rightarrow> slot_input list \<Rightarrow> dl_state \<Rightarrow> (item list list \<times> dl_state) res" where
  "slot_loop cmce mm flt l [] st = Inr ([], st)"
| "slot_loop cmce mm flt l (inp # inps) st =
     bind_res (slot_step cmce mm flt l inp st) (\<lambda>(it, st).
     bind_res (slot_loop cmce mm flt l inps st) (\<lambda>(its, st). Inr (it # its, st)))"

text \<open>The state after acquisition: the cell and the clock of the beacon that was found.\<close>

definition locked_state :: "dict \<Rightarrow> dl_state res" where
  "locked_state si =
     bind_res (adopt_cell si) (\<lambda>(c, init).
       Inr \<lparr>scramb = init, cell = c, clock = sync_clock si NetworkTime_init, fn_var = None, n_sb_ok = 0, n_sb_fail = 0,
         n_ndb_ok = 0, n_ndb_fail = 0, n_empty = 0, bad_quarters = 0, time_counter = 0\<rparr>)"

text \<open>The counters of the summary.\<close>

definition total_ok :: "dl_state \<Rightarrow> nat" where "total_ok st = n_sb_ok st + n_ndb_ok st"
definition total_fail :: "dl_state \<Rightarrow> nat" where "total_fail st = n_sb_fail st + n_ndb_fail st"

definition final_mer :: "dl_state \<Rightarrow> rat" where
  "final_mer st = 100 * (of_nat (bad_quarters st) / 4) / of_nat (max 1 (time_counter st))"

end
