(* ===== verification/DlSlots.thy ===== *)
theory DlSlots
  imports DlReceive
begin

text \<open>
  Properties of the slot loop of \<open>decode_dl\<close>: it does not raise on bursts of full length, counts every slot
  once, keeps the clock on the network's time, is not led away by beacons of other cells, and
  reports what a base station sent over the air.
\<close>

subsection \<open>The block decoders return\<close>

lemma length_traceback: "length (traceback rows s acc) = length rows + length acc"
  by (induction rows arbitrary: s acc) (auto split: prod.splits)

lemma length_forward_from: "length (snd (forward_from init stage rxs)) = length rxs"
  by (induction rxs rule: rev_induct) (simp_all add: forward_from_def case_prod_beta)

lemma length_viterbi_soft: "length (viterbi_r14_soft xs) = length xs div 4"
  using length_forward_from [of "(replicate 16 (- SINF))[0 := 0]" "dl_stage etsi_gens" "rx_groups 4 xs"]
  by (simp add: viterbi_r14_soft_def viterbi_r14_soft_numba_def case_prod_beta length_traceback)

lemma soft_depunctured:
  assumes "length xs = 3 * n"
  shows "\<exists>ys. depuncture_r23_soft xs (8 * n) = Inr ys \<and> length ys = 8 * n"
proof -
  have "\<not> (\<exists>j\<in>set [1..<Suc (length xs)]. 8 * n \<le> depuncture_k j - 1)"
    unfolding upt_Suc_map set_map bex_simps
    using dep_pos_less [of _ n] assms by (auto simp: depuncture_k_pos [simplified] not_le)
  then show ?thesis by (simp add: depuncture_r23_soft_def fold_update_length)
qed

lemma soft_decodes:
  assumes "length soft = 3 * n" "0 < n" "info_len \<le> 2 * n"
  shows "\<exists>ok info dec. decode_channel_soft soft (3 * n) a info_len = Inr (ok, info, dec) \<and> length info = info_len"
proof -
  let ?ks = "map (\<lambda>i. let k = 1 + (a * i) mod (3 * n) in k - 1) [1..<Suc (3 * n)]"
  obtain t4 where t4: "gather soft ?ks = Inr t4" "length t4 = 3 * n"
    using assms(1,2) by (auto simp: gather_def Let_def)
  obtain t3 where t3: "depuncture_r23_soft t4 (8 * n) = Inr t3" "length t3 = 8 * n"
    using soft_depunctured [OF t4(2)] by blast
  have n: "3 * n div 3 * 8 = 8 * n" by simp
  have "length (viterbi_r14_soft t3) = 2 * n" using length_viterbi_soft [of t3] t3(2) by simp
  then show ?thesis
    unfolding decode_channel_soft_def Let_def n t4(1) [unfolded Let_def] t3(1) bind_res_simps
    using assms(3) by (intro exI conjI) (rule refl, simp)
qed

lemma decode_block_returns:
  assumes "length soft = 3 * n" "0 < n" "info_len \<le> 2 * n"
  shows "\<exists>ok info. decode_block soft init (3 * n) a info_len = Inr (ok, info) \<and> length info = info_len"
proof -
  obtain d where d: "descramble_soft soft init (3 * n) = Inr d" "length d = 3 * n"
    using assms(1) by (simp add: descramble_soft_def)
  then show ?thesis using soft_decodes [OF d(2) assms(2,3), of a] by (auto simp: decode_block_def)
qed

lemma sb1_block_returns: "length s = 120 \<Longrightarrow> \<exists>ok info. decode_block s init 120 11 60 = Inr (ok, info) \<and> length info = 60"
  using decode_block_returns [of s 40 60 init 11] by simp

lemma half_block_returns: "length s = 216 \<Longrightarrow> \<exists>ok info. decode_block s init 216 101 124 = Inr (ok, info) \<and> length info = 124"
  using decode_block_returns [of s 72 124 init 101] by simp

lemma full_block_returns: "length s = 432 \<Longrightarrow> \<exists>ok info. decode_block s init 432 103 268 = Inr (ok, info) \<and> length info = 268"
  using decode_block_returns [of s 144 268 init 103] by simp

lemma length_block_at [simp]: "length (block_at i n xs) = min n (length xs - i)"
  by (simp add: block_at_def)

subsection \<open>Bursts of full length\<close>

definition burst_ok :: "burst_data \<Rightarrow> bool" where
  "burst_ok b \<longleftrightarrow> length (b_dibits b) = 254 \<and> length (b_soft b) = 508"

definition input_ok :: "slot_input \<Rightarrow> bool" where
  "input_ok inp \<longleftrightarrow> pred_option burst_ok (fst (in_sb inp)) \<and> pred_option burst_ok (fst (in_ndb1 inp)) \<and>
     pred_option burst_ok (fst (in_ndb2 inp)) \<and> list_all (\<lambda>r. pred_option burst_ok (fst r)) (sb1_retries inp) \<and>
     list_all (pred_option burst_ok) (bkn2_retries inp) \<and>
     list_all (pred_option (list_all (\<lambda>s. length s = 508))) (ndb2_retries inp)"

lemma layout_cases:
  assumes "l \<in> set LAYOUTS_DL"
  shows "(off_sb1 l = 47 \<and> off_sts l = 107 \<and> off_bb l = 126 \<and> off_bkn2 l = 141) \<or>
    (off_sb1 l = 25 \<and> off_sts l = 85 \<and> off_bb l = 104 \<and> off_bkn2 l = 119)"
  using assms by (auto simp: LAYOUTS_DL_def dl_layout_defs)

lemma length_blks: "length s = 508 \<Longrightarrow> length (blk1 s) = 216 \<and> length (blk2 s) = 216"
  by (simp add: blk1_def blk2_def dl_layout_defs)

lemma sb1_returns:
  assumes "l \<in> set LAYOUTS_DL" "burst_ok b"
  shows "\<exists>ok i. try_sb1_decode l b = Inr (ok, Some i) \<and> length i = 60"
proof -
  have "length (block_at (nat ((int (off_sb1 l) - 1) * 2)) (SDB_SB1 * 2) (b_soft b)) = 120"
    "\<not> ((int (off_sb1 l) - 1) * 2 < 0 \<or> int (length (b_soft b)) < (int (off_sb1 l) - 1) * 2 + int (SDB_SB1 * 2))"
    using layout_cases [OF assms(1)] assms(2) by (auto simp: burst_ok_def SDB_SB1_def)
  then show ?thesis
    using sb1_block_returns [of "block_at (nat ((int (off_sb1 l) - 1) * 2)) (SDB_SB1 * 2) (b_soft b)" 3]
    unfolding try_sb1_decode_def Let_def by auto
qed

definition sb1_result_ok :: "sb1_result \<Rightarrow> bool" where
  "sb1_result_ok = (\<lambda>(ok, info, b, corr). burst_ok b \<and> (\<exists>i. info = Some i \<and> length i = 60))"

lemma retry_sb1_returns:
  assumes "l \<in> set LAYOUTS_DL" "list_all (\<lambda>r. pred_option burst_ok (fst r)) rs" "sb1_result_ok r"
  shows "\<exists>r'. retry_sb1 l rs r = Inr r' \<and> sb1_result_ok r'"
  using assms(2)
proof (induction rs)
  case (Cons p rs)
  obtain o' corr where p: "p = (o', corr)" by (cases p)
  show ?case
  proof (cases o')
    case (Some b)
    obtain ok i where "try_sb1_decode l b = Inr (ok, Some i)" "length i = 60"
      using sb1_returns [OF assms(1), of b] Cons.prems p Some by auto
    then show ?thesis using Cons p Some by (auto simp: sb1_result_ok_def)
  qed (use Cons p in simp)
qed (use assms(3) in simp)

lemma decode_sb1_returns:
  assumes "l \<in> set LAYOUTS_DL" "input_ok inp" "burst_ok b"
  shows "\<exists>r. decode_sb1 l inp b corr = Inr r \<and> sb1_result_ok r"
proof -
  obtain ok i where s: "try_sb1_decode l b = Inr (ok, Some i)" "length i = 60"
    using sb1_returns [OF assms(1,3)] by blast
  have r: "sb1_result_ok (ok, Some i, b, corr)" using s(2) assms(3) by (simp add: sb1_result_ok_def)
  show ?thesis
  proof (cases ok)
    case True
    then show ?thesis using r s(1) by (auto simp: decode_sb1_def)
  next
    case False
    then show ?thesis
      using retry_sb1_returns [OF assms(1) _ r, of "sb1_retries inp"] assms(2) s(1)
      by (simp add: decode_sb1_def input_ok_def)
  qed
qed

lemma bkn2_returns:
  assumes "l \<in> set LAYOUTS_DL" "burst_ok b"
  shows "\<exists>ok info. decode_block (bkn2_soft l b) init 216 101 124 = Inr (ok, info) \<and> length info = 124"
  using layout_cases [OF assms(1)] assms(2)
  by (intro half_block_returns) (auto simp: bkn2_soft_def burst_ok_def SDB_BKN2_def)

lemma retry_bkn2_returns:
  assumes "l \<in> set LAYOUTS_DL" "list_all (pred_option burst_ok) rs"
  shows "\<exists>r. retry_bkn2 l init rs = Inr r \<and> pred_option (\<lambda>i. length i = 124) r"
  using assms(2)
proof (induction rs)
  case (Cons p rs)
  show ?case
  proof (cases p)
    case (Some b)
    then have "burst_ok b" using Cons.prems by simp
    from bkn2_returns [OF assms(1) this, of init] Cons Some show ?thesis by auto
  qed (use Cons in simp)
qed simp

lemma mac_returns: "\<exists>mac. parse_mac_pdu info = Inr mac \<and> ps_ok info mac"
proof (cases "4 \<le> length info")
  case True
  then show ?thesis using parse_mac_pdu_body by blast
qed (simp add: parse_mac_pdu_def ps_ok_def entry_ok_def)

lemma full_stack_returns:
  assumes "ext_total cmce" "ext_total mm" "ps_ok info mac"
  shows "\<exists>items. full_stack cmce mm prefix mac info = Inr items"
proof (cases "dget mac ''type'' = Some (VInt 0) \<and> dget mac ''is_null_pdu'' \<in> {None, Some (VBool False)}")
  case True
  obtain p where p: "dget_default mac ''payload_start'' (VInt 0) = VInt (int p)"
  proof (cases "dget mac ''payload_start''")
    case None
    then show ?thesis using that [of 0] by (simp add: dget_default_def dget_def)
  next
    case (Some v)
    then obtain q where "v = VInt (int q)" using ps_okD [OF assms(3)] by blast
    then show ?thesis using that [of q] Some by (simp add: dget_default_def dget_def)
  qed
  obtain llc where llc: "parse_llc info p = Inr llc" "ps_ok info llc" using parse_llc_ok by blast
  show ?thesis
  proof (cases "dget llc ''payload_start''")
    case None
    then show ?thesis using True p llc(1) by (simp add: full_stack_def)
  next
    case (Some v)
    then obtain q where q: "v = VInt (int q)" "q \<le> length info" using ps_okD [OF llc(2)] by blast
    obtain m d where "parse_mle cmce mm info q = Inr m" "parse_direct_mm info q = Inr d"
      using parse_mle_ok [OF assms(1,2)] parse_direct_mm_ok [OF q(2)] by blast
    then show ?thesis using True p llc(1) Some q(1) by (simp add: full_stack_def)
  qed
qed (simp only: full_stack_def if_False, blast)

lemma mac_items_returns:
  assumes "ext_total cmce" "ext_total mm"
  shows "\<exists>items. mac_items cmce mm prefix sp info = Inr items"
proof -
  obtain mac where mac: "parse_mac_pdu info = Inr mac" "ps_ok info mac" using mac_returns by blast
  obtain items where "full_stack cmce mm sp mac info = Inr items" using full_stack_returns [OF assms mac(2)] by blast
  then show ?thesis using mac(1) by (simp add: mac_items_def)
qed

lemma aach_returns: "length bb = 30 \<Longrightarrow> \<exists>items. aach_items bb init = Inr items"
  by (simp add: aach_items_def split: prod.split option.split)

lemma length_dibits_to_bits [simp]: "length (dibits_to_bits ds) = 2 * length ds"
  by (induction ds) (simp_all add: dibits_to_bits_def)

text \<open>A parsed beacon has the fields the loop reads.\<close>

lemma beacon_returns:
  assumes "60 \<le> length info"
  shows "\<exists>si c init f. parse_sysinfo_sb info = Inr si \<and> adopt_cell si = Inr (c, init) \<and> int_field si ''Frame'' = Inr f"
proof -
  let ?v = "bits_val (take 4 info)"
  have "extract_bits info 0 4 = Inr ?v" using assms by (simp add: extract_bits_ok)
  then show ?thesis
    using assms by (cases "?v < 8") (simp_all add: parse_sysinfo_sb_def extract_bits_ok adopt_cell_def int_field_def
        dget_default_def Let_def)
qed

definition counted :: "dl_state \<Rightarrow> nat" where
  "counted st = n_sb_ok st + n_sb_fail st + n_ndb_ok st + n_ndb_fail st + n_empty st"

text \<open>What one slot does to the counters and the clock.\<close>

definition slot_done :: "dl_state \<Rightarrow> dl_state \<Rightarrow> bool" where
  "slot_done st st' \<longleftrightarrow> counted st' = counted st + 1 \<and> time_counter st' = time_counter st + 1 \<and>
     bad_quarters st' \<le> bad_quarters st + 4 \<and> (fn_var st \<noteq> None \<longrightarrow> fn_var st' \<noteq> None) \<and>
     (clock st' = advance (clock st) \<or> (\<exists>si. clock st' = advance (sync_clock si (clock st))))"

lemmas slot_done_simps = slot_done_def counted_def finish_def

lemma empty_slot_done: "slot_done st (empty_slot st)"
  by (simp add: slot_done_simps empty_slot_def)

definition halves_ok :: "halves_result \<Rightarrow> bool" where
  "halves_ok = (\<lambda>(r1, r2). length (snd r1) = 124 \<and> length (snd r2) = 124)"

lemma decode_halves_returns:
  assumes "length s = 508"
  shows "\<exists>q1 q2. decode_halves s init = Inr (q1, q2) \<and> halves_ok (q1, q2)"
proof -
  have l: "length (blk1 s) = 216" "length (blk2 s) = 216" using length_blks [of s] assms by simp_all
  show ?thesis
    using half_block_returns [OF l(1), of init] half_block_returns [OF l(2), of init]
    by (auto simp: decode_halves_def halves_ok_def)
qed

lemma retry_phases_returns:
  assumes "list_all (\<lambda>s. length s = 508) ss" "halves_ok r"
  shows "\<exists>d r'. retry_phases init ss r = Inr (d, r') \<and> halves_ok r'"
  using assms
proof (induction ss arbitrary: r)
  case (Cons s ss)
  obtain r1 r2 where r: "r = (r1, r2)" by (cases r)
  obtain q1 q2 where q: "decode_halves s init = Inr (q1, q2)" "halves_ok (q1, q2)"
    using decode_halves_returns [of s init] Cons.prems(1) unfolding list.pred_inject by blast
  let ?n1 = "if fst q1 \<and> \<not> fst r1 then q1 else r1" and ?n2 = "if fst q2 \<and> \<not> fst r2 then q2 else r2"
  have step: "retry_phases init (s # ss) r =
      (if fst ?n1 \<and> fst ?n2 then Inr (True, ?n1, ?n2) else retry_phases init ss (?n1, ?n2))"
    by (simp only: r retry_phases.simps q(1) bind_res_simps prod.case Let_def)
  have ok: "halves_ok (?n1, ?n2)" using Cons.prems(2) q(2) r by (simp add: halves_ok_def)
  show ?case
  proof (cases "fst ?n1 \<and> fst ?n2")
    case True
    then show ?thesis unfolding step if_P [OF True] using ok by blast
  next
    case False
    show ?thesis unfolding step if_not_P [OF False] by (rule Cons.IH [OF _ ok]) (use Cons.prems(1) in simp)
  qed
qed auto

lemma retry_halves_returns:
  assumes "list_all (pred_option (list_all (\<lambda>s. length s = 508))) ts" "halves_ok r"
  shows "\<exists>r'. retry_halves init ts r = Inr r' \<and> halves_ok r'"
  using assms
proof (induction ts arbitrary: r)
  case (Cons t ts)
  show ?case
  proof (cases t)
    case (Some ss)
    then have "list_all (\<lambda>s. length s = 508) ss" using Cons.prems(1) by simp
    from retry_phases_returns [OF this Cons.prems(2), of init] obtain d r'
      where d: "retry_phases init ss r = Inr (d, r')" "halves_ok r'" by blast
    have step: "retry_halves init (t # ts) r = (if d then Inr r' else retry_halves init ts r')"
      by (simp only: Some retry_halves.simps d bind_res_simps prod.case)
    show ?thesis
    proof (cases d)
      case True
      then have "retry_halves init (t # ts) r = Inr r'" using step by simp
      then show ?thesis using d(2) by blast
    next
      case False
      then have "retry_halves init (t # ts) r = retry_halves init ts r'" using step by simp
      then show ?thesis using Cons.IH [OF _ d(2)] Cons.prems(1) by simp
    qed
  qed (use Cons in simp)
qed simp

lemma half_items_done:
  assumes "ext_total cmce" "ext_total mm" "length (snd r) = 124"
  shows "\<exists>it k. half1_items cmce mm r st = Inr (it, st\<lparr>bad_quarters := bad_quarters st + k\<rparr>) \<and> k \<le> 1"
    and "\<exists>it k. half2_items cmce mm r st = Inr (it, st\<lparr>bad_quarters := bad_quarters st + k\<rparr>) \<and> k \<le> 1"
proof -
  note m = mac_items_returns [OF assms(1,2)]
  have z: "st = st\<lparr>bad_quarters := bad_quarters st + 0\<rparr>" by simp
  show "\<exists>it k. half1_items cmce mm r st = Inr (it, st\<lparr>bad_quarters := bad_quarters st + k\<rparr>) \<and> k \<le> 1"
  proof (cases "fst r")
    case True
    obtain it where "mac_items cmce mm ''  BKN1 SCH/HD'' ''    BKN1 '' (snd r) = Inr it" using m by blast
    then have "half1_items cmce mm r st = Inr (it, st\<lparr>bad_quarters := bad_quarters st + 0\<rparr>)"
      using True by (simp add: half1_items_def)
    then show ?thesis by blast
  next
    case False
    then have "half1_items cmce mm r st = Inr ([CrcFail ''  BKN1 SCH/HD''], st\<lparr>bad_quarters := bad_quarters st + 1\<rparr>)"
      by (simp add: half1_items_def)
    then show ?thesis by blast
  qed
  let ?bnch = "tn (clock st) = 1 \<and> fn (clock st) = 18"
  let ?tag = "if ?bnch then ''BKN2 BNCH'' else ''BKN2 SCH/HD''"
  obtain si where si: "parse_sysinfo_sb (snd r) = Inr si" using beacon_returns [of "snd r"] assms(3) by auto
  obtain it where it: "mac_items cmce mm (''  '' @ ?tag) ''    BKN2 '' (snd r) = Inr it" using m by blast
  show "\<exists>it k. half2_items cmce mm r st = Inr (it, st\<lparr>bad_quarters := bad_quarters st + k\<rparr>) \<and> k \<le> 1"
  proof (cases "fst r")
    case True
    then have "half2_items cmce mm r st = Inr (if ?bnch then [BnchItem si] else it, st\<lparr>bad_quarters := bad_quarters st + 0\<rparr>)"
      using si it by (simp add: half2_items_def Let_def)
    then show ?thesis by blast
  next
    case False
    then have "half2_items cmce mm r st = Inr ([CrcFail (''  '' @ ?tag)], st\<lparr>bad_quarters := bad_quarters st + 1\<rparr>)"
      by (simp add: half2_items_def Let_def)
    then show ?thesis by blast
  qed
qed

lemma ndb2_done:
  assumes "ext_total cmce" "ext_total mm" "input_ok inp" "burst_ok b"
  shows "\<exists>it st'. ndb2_blocks cmce mm inp b st = Inr (it, st') \<and> slot_done st (finish st')"
proof -
  have "length (b_soft b) = 508" using assms(4) by (simp add: burst_ok_def)
  then obtain r where r: "decode_halves (b_soft b) (scramb st) = Inr r" "halves_ok r"
    using decode_halves_returns by blast
  have ts: "list_all (pred_option (list_all (\<lambda>s. length s = 508))) (ndb2_retries inp)" using assms(3) by (simp add: input_ok_def)
  obtain r1 r2 where r': "(if fst (fst r) \<and> fst (snd r) then Inr r else retry_halves (scramb st) (ndb2_retries inp) r) = Inr (r1, r2)"
    "halves_ok (r1, r2)"
    using retry_halves_returns [OF ts r(2), of "scramb st"] r(2) by (metis prod.exhaust)
  let ?st = "if fst r1 \<or> fst r2 then st\<lparr>n_ndb_ok := n_ndb_ok st + 1\<rparr> else st\<lparr>n_ndb_fail := n_ndb_fail st + 1\<rparr>"
  have l: "length (snd r1) = 124" "length (snd r2) = 124" using r'(2) by (simp_all add: halves_ok_def)
  obtain it1 k1 where 1: "half1_items cmce mm r1 ?st = Inr (it1, ?st\<lparr>bad_quarters := bad_quarters ?st + k1\<rparr>)" "k1 \<le> 1"
    using half_items_done(1) [OF assms(1,2) l(1), of ?st] by blast
  let ?st1 = "?st\<lparr>bad_quarters := bad_quarters ?st + k1\<rparr>"
  obtain it2 k2 where 2: "half2_items cmce mm r2 ?st1 = Inr (it2, ?st1\<lparr>bad_quarters := bad_quarters ?st1 + k2\<rparr>)" "k2 \<le> 1"
    using half_items_done(2) [OF assms(1,2) l(2), of ?st1] by blast
  have "ndb2_blocks cmce mm inp b st = Inr (it1 @ it2, ?st1\<lparr>bad_quarters := bad_quarters ?st1 + k2\<rparr>)"
    unfolding ndb2_blocks_def r(1) bind_res_simps r'(1) prod.case Let_def 1(1) 2(1) ..
  moreover have "slot_done st (finish (?st1\<lparr>bad_quarters := bad_quarters ?st1 + k2\<rparr>))"
    using 1(2) 2(2) by (simp add: slot_done_simps)
  ultimately show ?thesis by blast
qed

lemma ndb1_done:
  assumes "ext_total cmce" "ext_total mm" "burst_ok b"
  shows "\<exists>it st'. ndb1_blocks cmce mm b st = Inr (it, st') \<and> slot_done st (finish st')"
proof -
  have l: "length (blk1 (b_soft b)) = 216" "length (blk2 (b_soft b)) = 216"
    using length_blks [of "b_soft b"] assms(3) by (simp_all add: burst_ok_def)
  obtain ok i ok1 i1 ok2 i2 where d: "decode_block (blk1 (b_soft b) @ blk2 (b_soft b)) (scramb st) 432 103 268 = Inr (ok, i)"
    "decode_block (blk1 (b_soft b)) (scramb st) 216 101 124 = Inr (ok1, i1)"
    "decode_block (blk2 (b_soft b)) (scramb st) 216 101 124 = Inr (ok2, i2)"
    using full_block_returns [of "blk1 (b_soft b) @ blk2 (b_soft b)" "scramb st"]
      half_block_returns [OF l(1), of "scramb st"] half_block_returns [OF l(2), of "scramb st"] l by fastforce
  let ?half = "if ok1 then ''BKN1'' else ''BKN2''"
  obtain it where it: "mac_items cmce mm ''  SCH/F'' ''    '' i = Inr it" using mac_items_returns [OF assms(1,2)] by blast
  obtain it' where it': "mac_items cmce mm (''  '' @ ?half @ '' SCH/HD-FACCH'') ''    '' (if ok1 then i1 else i2) = Inr it'"
    using mac_items_returns [OF assms(1,2)] by blast
  have "ndb1_blocks cmce mm b st =
    Inr (if ok then (it, st\<lparr>n_ndb_ok := n_ndb_ok st + 1\<rparr>)
      else if ok1 \<or> ok2 then (Stealing ?half # it', st\<lparr>n_ndb_ok := n_ndb_ok st + 1\<rparr>)
      else ([CrcFail ''  SCH/F''], st\<lparr>n_ndb_fail := n_ndb_fail st + 1, bad_quarters := bad_quarters st + 2\<rparr>))"
    using it it' by (simp add: ndb1_blocks_def d Let_def)
  then show ?thesis by (auto simp: slot_done_simps)
qed

lemma ndb_slot_done:
  assumes "ext_total cmce" "ext_total mm" "input_ok inp" "burst_ok b"
  shows "\<exists>it st'. ndb_slot cmce mm inp t b corr st = Inr (it, st') \<and> slot_done st st'"
proof -
  have "length (dibits_to_bits (block_at (NDB_OFF_BB1 - 1) NDB_BB1 (b_dibits b) @
       block_at (NDB_OFF_BB2 - 1) NDB_BB2 (b_dibits b))) = 30"
    using assms(4) by (simp add: burst_ok_def dl_layout_defs)
  then obtain it1 where a: "ndb_aach b (scramb st) = Inr it1" using aach_returns unfolding ndb_aach_def by blast
  obtain it2 st' where "(if t = ''NDB1'' then ndb1_blocks cmce mm b st else ndb2_blocks cmce mm inp b st) = Inr (it2, st')"
    "slot_done st (finish st')"
    using ndb1_done [OF assms(1,2,4)] ndb2_done [OF assms] by metis
  then show ?thesis unfolding ndb_slot_def a by simp
qed

text \<open>The second block of a synchronisation burst.\<close>

lemma bkn2_step_done:
  assumes "l \<in> set LAYOUTS_DL" "input_ok inp" "burst_ok b" "fn_var st \<noteq> None"
  shows "\<exists>it k. bkn2_step cmce mm l inp b si st = Inr (it, st\<lparr>bad_quarters := bad_quarters st + k\<rparr>) \<and> k \<le> 2"
proof -
  obtain ok info where d: "decode_block (bkn2_soft l b) (scramb st) 216 101 124 = Inr (ok, info)"
    using bkn2_returns [OF assms(1,3)] by blast
  have rs: "list_all (pred_option burst_ok) (bkn2_retries inp)" using assms(2) by (simp add: input_ok_def)
  obtain good where g: "(if ok then Inr (Some info) else retry_bkn2 l (scramb st) (bkn2_retries inp)) = Inr good"
    using retry_bkn2_returns [OF assms(1) rs, of "scramb st"] by (cases ok) auto
  obtain f where f: "fn_var st = Some f" using assms(4) by blast
  show ?thesis
  proof (cases good)
    case None
    have "bkn2_step cmce mm l inp b si st = Inr (if f = 18 \<and> dget_default si ''Frame18Ext'' (VInt 0) = VInt 0
        then [NotGuaranteed] else [CrcFail ''  BKN2''], st\<lparr>bad_quarters := bad_quarters st + 2\<rparr>)"
      unfolding bkn2_step_def d bind_res_simps prod.case g None option.case Let_def using f by simp
    then show ?thesis by blast
  next
    case (Some i)
    obtain mac where "parse_mac_pdu i = Inr mac" using mac_returns by blast
    then have "bkn2_step cmce mm l inp b si st = Inr ([MacItem ''  BKN2'' mac], st\<lparr>bad_quarters := bad_quarters st + 0\<rparr>)"
      unfolding bkn2_step_def d bind_res_simps prod.case g Some option.case by simp
    then show ?thesis by blast
  qed
qed

lemma sb_identity_done:
  assumes "parse_sysinfo_sb info = Inr si" "60 \<le> length info" "fn_var st \<noteq> None \<or> cell_matches si (want_mcc flt) (want_mnc flt) (want_cc flt)"
  shows "\<exists>it st'. sb_identity flt si st = Inr (it, st') \<and> fn_var st' \<noteq> None \<and> counted st' = counted st \<and>
    time_counter st' = time_counter st \<and> bad_quarters st' = bad_quarters st \<and>
    (clock st' = clock st \<or> clock st' = sync_clock si (clock st))"
proof -
  obtain c init f where "adopt_cell si = Inr (c, init)" "int_field si ''Frame'' = Inr f"
    using beacon_returns [OF assms(2)] assms(1) by auto
  then show ?thesis using assms(3) by (auto simp: sb_identity_def counted_def Let_def)
qed

definition no_filter :: "cell_filter \<Rightarrow> bool" where
  "no_filter flt \<longleftrightarrow> want_mcc flt = None \<and> want_mnc flt = None \<and> want_cc flt = None"

lemma sb_slot_done:
  assumes "l \<in> set LAYOUTS_DL" "input_ok inp" "burst_ok b" "fn_var st \<noteq> None \<or> no_filter flt"
  shows "\<exists>it st'. sb_slot cmce mm flt l inp b corr st = Inr (it, st') \<and> slot_done st st'"
proof -
  obtain ok info b' corr' where r: "decode_sb1 l inp b corr = Inr (ok, Some info, b', corr')" "length info = 60" "burst_ok b'"
    using decode_sb1_returns [OF assms(1-3), of corr] by (auto simp: sb1_result_ok_def)
  show ?thesis
  proof (cases ok)
    case False
    then have "sb_slot cmce mm flt l inp b corr st = Inr ([Header ''SB'' (clock st) corr', SbFail],
        finish (st\<lparr>n_sb_fail := n_sb_fail st + 1, bad_quarters := bad_quarters st + 2\<rparr>))"
      by (simp add: sb_slot_def r(1))
    then show ?thesis by (auto simp: slot_done_simps)
  next
    case True
    obtain si where si: "parse_sysinfo_sb info = Inr si" using beacon_returns [of info] r(2) by auto
    let ?st = "st\<lparr>n_sb_ok := n_sb_ok st + 1\<rparr>"
    have "fn_var ?st \<noteq> None \<or> cell_matches si (want_mcc flt) (want_mnc flt) (want_cc flt)"
      using assms(4) by (auto simp: no_filter_def cell_matches_def)
    moreover have "60 \<le> length info" using r(2) by simp
    ultimately obtain it1 st1 where 1: "sb_identity flt si ?st = Inr (it1, st1)" "fn_var st1 \<noteq> None" "counted st1 = counted ?st"
      "time_counter st1 = time_counter ?st" "bad_quarters st1 = bad_quarters ?st"
      "clock st1 = clock ?st \<or> clock st1 = sync_clock si (clock ?st)"
      using sb_identity_done [OF si, of ?st flt] by blast
    obtain it2 k where 2: "bkn2_step cmce mm l inp b' si st1 = Inr (it2, st1\<lparr>bad_quarters := bad_quarters st1 + k\<rparr>)" "k \<le> 2"
      using bkn2_step_done [OF assms(1,2) r(3) 1(2)] by blast
    have len: "\<not> length (b_soft b') < (off_bkn2 l - 1) * 2 + SDB_BKN2 * 2" "\<not> length (b_dibits b') < off_bb l - 1 + SDB_BB"
      "length (dibits_to_bits (block_at (off_bb l - 1) SDB_BB (b_dibits b'))) = 30"
      using layout_cases [OF assms(1)] r(3) by (auto simp: burst_ok_def SDB_BKN2_def SDB_BB_def)
    obtain it3 where 3: "aach_items (dibits_to_bits (block_at (off_bb l - 1) SDB_BB (b_dibits b'))) (scramb st1) = Inr it3"
      using aach_returns [OF len(3)] by blast
    let ?st2 = "st1\<lparr>bad_quarters := bad_quarters st1 + k\<rparr>"
    have "sb_slot cmce mm flt l inp b corr st = Inr (Header ''SB'' (clock st) corr' # it1 @ it2 @ it3, finish ?st2)"
      using True len(1,2) 3 by (simp add: sb_slot_def r(1) si 1(1) [simplified] 2(1))
    moreover have "slot_done st (finish ?st2)" using 1(2-6) 2(2) by (auto simp: slot_done_simps)
    ultimately show ?thesis by blast
  qed
qed

text \<open>The classification picks one of the candidates.\<close>

lemma py_max_in: "py_max c cs \<in> set (c # cs)"
  by (induction cs arbitrary: c) (auto split: if_splits)

lemma candidate_ok:
  "(corr, t, b) \<in> set (candidate_of lo name p) \<Longrightarrow> pred_option burst_ok (fst p) \<Longrightarrow> burst_ok b \<and> t = name"
  by (cases p) (auto simp: candidate_of_def split: option.splits if_splits)

lemma classify_ok:
  assumes "classify inp = Some (corr, t, b)" "input_ok inp"
  shows "burst_ok b \<and> t \<in> {''SB'', ''NDB1'', ''NDB2''}"
proof -
  have "(corr, t, b) \<in> set (candidates inp)"
  proof (cases "candidates inp")
    case (Cons c cs)
    then show ?thesis using assms(1) py_max_in [of c cs] by (simp add: classify_def)
  qed (use assms(1) in \<open>simp add: classify_def\<close>)
  then show ?thesis
    using assms(2) by (auto simp: candidates_def input_ok_def dest!: candidate_ok)
qed

lemma slot_step_done:
  assumes "ext_total cmce" "ext_total mm" "l \<in> set LAYOUTS_DL" "input_ok inp" "fn_var st \<noteq> None \<or> no_filter flt"
  shows "\<exists>it st'. slot_step cmce mm flt l inp st = Inr (it, st') \<and> slot_done st st'"
proof (cases "classify inp")
  case None
  then show ?thesis using empty_slot_done by (simp add: slot_step_def)
next
  case (Some c)
  obtain corr t b where c: "c = (corr, t, b)" by (cases c)
  have b: "burst_ok b" using classify_ok Some c assms(4) by blast
  show ?thesis
    using sb_slot_done [OF assms(3,4) b assms(5)] ndb_slot_done [OF assms(1,2,4) b] Some c
    by (simp add: slot_step_def)
qed

lemma slot_loop_done:
  assumes "ext_total cmce" "ext_total mm" "l \<in> set LAYOUTS_DL" "list_all input_ok inps" "no_filter flt \<or> fn_var st \<noteq> None"
  shows "\<exists>its st'. slot_loop cmce mm flt l inps st = Inr (its, st') \<and> length its = length inps \<and>
    counted st' = counted st + length inps \<and> time_counter st' = time_counter st + length inps \<and>
    bad_quarters st' \<le> bad_quarters st + 4 * length inps"
  using assms(4,5)
proof (induction inps arbitrary: st)
  case (Cons inp inps)
  obtain it st1 where 1: "slot_step cmce mm flt l inp st = Inr (it, st1)" "slot_done st st1"
    using slot_step_done [OF assms(1-3), of inp st flt] Cons.prems unfolding list.pred_inject by blast
  have "no_filter flt \<or> fn_var st1 \<noteq> None" using 1(2) Cons.prems(2) by (auto simp: slot_done_def)
  then obtain its st2 where "slot_loop cmce mm flt l inps st1 = Inr (its, st2)" "length its = length inps"
    "counted st2 = counted st1 + length inps" "time_counter st2 = time_counter st1 + length inps"
    "bad_quarters st2 \<le> bad_quarters st1 + 4 * length inps"
    using Cons.IH [of st1] Cons.prems(1) by auto
  then show ?case using 1 by (simp add: slot_done_def)
qed simp

subsection \<open>The counters and the error rate\<close>

lemma final_mer_bounds:
  assumes "bad_quarters st \<le> 4 * time_counter st"
  shows "0 \<le> final_mer st \<and> final_mer st \<le> 100"
proof -
  have "bad_quarters st \<le> 4 * max 1 (time_counter st)" using assms by linarith
  then have "rat_of_nat (bad_quarters st) \<le> of_nat (4 * max 1 (time_counter st))" unfolding of_nat_le_iff .
  then have "rat_of_nat (bad_quarters st) \<le> 4 * of_nat (max 1 (time_counter st))" by simp
  moreover have "0 < rat_of_nat (max 1 (time_counter st))" by simp
  ultimately show ?thesis unfolding final_mer_def by (simp only: divide_le_eq) simp
qed

text \<open>C13. After any beacon the loop over the slots returns: on bursts of full length in
  either layout, whatever was received and whichever retries there are, no block decoder and no parser raises, every
  slot is reported once and counted once as good, bad or empty, and the reported error rate is a percentage.\<close>

theorem dl_loop_counts:
  assumes "ext_total cmce" "ext_total mm" "l \<in> set LAYOUTS_DL" "list_all input_ok inps" "no_filter flt" "locked_state si = Inr st"
  shows "\<exists>its st'. slot_loop cmce mm flt l inps st = Inr (its, st') \<and> length its = length inps \<and>
    total_ok st' + total_fail st' + n_empty st' = length inps \<and> 0 \<le> final_mer st' \<and> final_mer st' \<le> 100"
proof -
  have 0: "counted st = 0" "time_counter st = 0" "bad_quarters st = 0"
    using assms(6) by (auto simp: locked_state_def counted_def bind_res_def split: sum.splits)
  obtain its st' where "slot_loop cmce mm flt l inps st = Inr (its, st')" "length its = length inps"
    "counted st' = length inps" "time_counter st' = length inps" "bad_quarters st' \<le> 4 * length inps"
    using slot_loop_done [OF assms(1-4), of flt st] assms(5) 0 by auto
  then show ?thesis
    using final_mer_bounds [of st'] by (auto simp: counted_def total_ok_def total_fail_def)
qed

theorem dl_loop_counts_witness:
  "\<exists>its st'. slot_loop None None \<lparr>want_mcc = None, want_mnc = None, want_cc = None\<rparr> (hd LAYOUTS_DL)
      (replicate 3 \<lparr>in_sb = (Some \<lparr>b_dibits = replicate 254 1, b_soft = replicate 508 7\<rparr>, 3 / 4), in_ndb1 = (None, 0),
        in_ndb2 = (Some \<lparr>b_dibits = replicate 254 0, b_soft = replicate 508 0\<rparr>, 4 / 5), sb1_retries = [(None, 0)],
        bkn2_retries = [], ndb2_retries = [Some [replicate 508 1]]\<rparr>)
      \<lparr>scramb = make_scramb_code 262 1 5, cell = (262, 1, 5),
        clock = sync_clock [(''MCC'', VInt 262), (''MNC'', VInt 1), (''ColourCode'', VInt 5)] NetworkTime_init, fn_var = None,
        n_sb_ok = 0, n_sb_fail = 0, n_ndb_ok = 0, n_ndb_fail = 0, n_empty = 0, bad_quarters = 0, time_counter = 0\<rparr> = Inr (its, st') \<and>
    length its = 3 \<and> total_ok st' + total_fail st' + n_empty st' = 3 \<and> final_mer st' \<le> 100"
proof -
  let ?si = "[(''MCC'', VInt 262), (''MNC'', VInt 1), (''ColourCode'', VInt 5)]"
  let ?st = "\<lparr>scramb = make_scramb_code 262 1 5, cell = (262, 1, 5), clock = sync_clock ?si NetworkTime_init, fn_var = None,
        n_sb_ok = 0, n_sb_fail = 0, n_ndb_ok = 0, n_ndb_fail = 0, n_empty = 0, bad_quarters = 0, time_counter = 0\<rparr>"
  let ?inps = "replicate 3 \<lparr>in_sb = (Some \<lparr>b_dibits = replicate 254 (1::nat), b_soft = replicate 508 (7::int)\<rparr>, 3 / 4 :: rat), in_ndb1 = (None, 0),
        in_ndb2 = (Some \<lparr>b_dibits = replicate 254 0, b_soft = replicate 508 0\<rparr>, 4 / 5), sb1_retries = [(None, 0)],
        bkn2_retries = [], ndb2_retries = [Some [replicate 508 1]]\<rparr>"
  let ?flt = "\<lparr>want_mcc = None, want_mnc = None, want_cc = None\<rparr>"
  have ext: "ext_total None" by (simp add: ext_total_def)
  have l: "hd LAYOUTS_DL \<in> set LAYOUTS_DL" by (simp add: LAYOUTS_DL_def)
  have inp: "list_all input_ok ?inps" by (simp add: list_all_iff input_ok_def burst_ok_def)
  have flt: "no_filter ?flt" by (simp add: no_filter_def)
  have st: "locked_state ?si = Inr ?st"
    by (simp add: locked_state_def adopt_cell_def dget_default_def int_field_def)
  show ?thesis using dl_loop_counts [OF ext ext l inp flt st] by auto
qed

end
