(* ===== verification/DlTracking.thy ===== *)
theory DlTracking
  imports DlSlots
begin

text \<open>
  What the slot loop of \<open>decode_dl\<close> keeps: with a cell filter it stays on the cell it locked to, and from the first
  beacon of the cell on its clock is the network's.  The last part is the slot in which it raises: a beacon
  of another cell before the first one of its own.
\<close>

subsection \<open>Steps that touch neither the lock nor the clock\<close>

lemma bind_res_InrE:
  assumes "bind_res m f = Inr y"
  obtains x where "m = Inr x" "f x = Inr y"
  using assms by (cases m) auto

fun loud :: "item \<Rightarrow> bool" where
  "loud (Header t nt c) = True"
| "loud (SbOk si nt) = True"
| "loud _ = False"

definition quiet :: "item list \<Rightarrow> bool" where
  "quiet its \<longleftrightarrow> list_all (\<lambda>x. \<not> loud x) its"

lemma quiet_simps [simp]: "quiet []" "quiet (x # xs) \<longleftrightarrow> \<not> loud x \<and> quiet xs"
  by (simp_all add: quiet_def)

lemma quiet_append [simp]: "quiet (xs @ ys) \<longleftrightarrow> quiet xs \<and> quiet ys"
  by (simp add: quiet_def)

lemma quiet_not: "quiet its \<Longrightarrow> SbOk si nt \<notin> set its \<and> Header t c r \<notin> set its"
  by (auto simp: quiet_def list_all_iff)

definition same_lock :: "dl_state \<Rightarrow> dl_state \<Rightarrow> bool" where
  "same_lock st st' \<longleftrightarrow> clock st' = clock st \<and> cell st' = cell st \<and> scramb st' = scramb st \<and> fn_var st' = fn_var st"

lemma full_stack_quiet: "full_stack cmce mm prefix mac info = Inr its \<Longrightarrow> quiet its"
  by (auto simp: full_stack_def elim!: bind_res_InrE split: if_splits option.splits pyval.splits)

lemma mac_items_quiet: "mac_items cmce mm prefix sp info = Inr its \<Longrightarrow> quiet its"
  unfolding mac_items_def
  by (elim bind_res_InrE) (use full_stack_quiet in fastforce)

lemma aach_quiet: "aach_items bb init = Inr its \<Longrightarrow> quiet its"
  by (auto simp: aach_items_def split: if_splits prod.splits option.splits)

lemma bkn2_step_frame:
  assumes "bkn2_step cmce mm l inp b si st = Inr (its, st')"
  shows "quiet its \<and> same_lock st st'"
  using assms unfolding bkn2_step_def
  by (elim bind_res_InrE)
    (auto simp: same_lock_def Let_def elim!: bind_res_InrE split: prod.splits option.splits if_splits)

lemma ndb1_frame:
  assumes "ndb1_blocks cmce mm b st = Inr (its, st')"
  shows "quiet its \<and> same_lock st st'"
  using assms unfolding ndb1_blocks_def
  by (auto simp: same_lock_def Let_def elim!: bind_res_InrE split: prod.splits if_splits dest!: mac_items_quiet)

lemma half1_frame: "half1_items cmce mm r st = Inr (its, st') \<Longrightarrow> quiet its \<and> same_lock st st'"
  by (auto simp: half1_items_def same_lock_def elim!: bind_res_InrE split: if_splits dest!: mac_items_quiet)

lemma half2_frame: "half2_items cmce mm r st = Inr (its, st') \<Longrightarrow> quiet its \<and> same_lock st st'"
  by (auto simp: half2_items_def same_lock_def Let_def elim!: bind_res_InrE split: if_splits dest!: mac_items_quiet)

lemma ndb2_frame:
  assumes "ndb2_blocks cmce mm inp b st = Inr (its, st')"
  shows "quiet its \<and> same_lock st st'"
proof -
  obtain r1 r2 it1 st1 it2 st0 where *: "same_lock st st0" "half1_items cmce mm r1 st0 = Inr (it1, st1)"
    "half2_items cmce mm r2 st1 = Inr (it2, st')" "its = it1 @ it2"
  proof -
    obtain r r' where "decode_halves (b_soft b) (scramb st) = Inr r"
      "(case r' of (r1, r2) \<Rightarrow> let st = if fst r1 \<or> fst r2 then st\<lparr>n_ndb_ok := n_ndb_ok st + 1\<rparr> else st\<lparr>n_ndb_fail := n_ndb_fail st + 1\<rparr>
        in bind_res (half1_items cmce mm r1 st) (\<lambda>(it1, st). bind_res (half2_items cmce mm r2 st) (\<lambda>(it2, st). Inr (it1 @ it2, st)))) = Inr (its, st')"
      using assms unfolding ndb2_blocks_def by (elim bind_res_InrE)
    then show thesis
      by (cases r') (auto simp: Let_def same_lock_def elim!: bind_res_InrE intro!: that
        [of "if fst (fst r') \<or> fst (snd r') then st\<lparr>n_ndb_ok := n_ndb_ok st + 1\<rparr> else st\<lparr>n_ndb_fail := n_ndb_fail st + 1\<rparr>"])
  qed
  then show ?thesis using half1_frame [OF *(2)] half2_frame [OF *(3)] by (simp add: same_lock_def)
qed

subsection \<open>What a slot does to the lock and the clock\<close>

text \<open>Every header of the slot shows the clock before the slot; without a beacon of the cell the clock ticks and the
  lock stays, with one the slot adopts its cell and sets the clock to its time before the tick.\<close>

definition slot_frame :: "cell_filter \<Rightarrow> dl_state \<Rightarrow> item list \<Rightarrow> dl_state \<Rightarrow> bool" where
  "slot_frame flt st its st' \<longleftrightarrow> (\<forall>t c r. Header t c r \<in> set its \<longrightarrow> c = clock st) \<and>
     ((\<forall>si nt. SbOk si nt \<notin> set its) \<and> clock st' = advance (clock st) \<and> cell st' = cell st \<and> scramb st' = scramb st \<or>
      (\<exists>si. (\<forall>si' nt. SbOk si' nt \<in> set its \<longleftrightarrow> si' = si \<and> nt = sync_clock si (clock st)) \<and>
        cell_matches si (want_mcc flt) (want_mnc flt) (want_cc flt) \<and> adopt_cell si = Inr (cell st', scramb st') \<and>
        clock st' = advance (sync_clock si (clock st))))"

lemma frame_quiet:
  assumes "quiet its" "same_lock st st'"
  shows "slot_frame flt st (Header t (clock st) r # its) (finish st')"
  using assms quiet_not [OF assms(1)] by (auto simp: slot_frame_def same_lock_def finish_def)

lemma ndb_slot_frame:
  assumes "ndb_slot cmce mm inp t b corr st = Inr (its, st')"
  shows "slot_frame flt st its st'"
proof -
  obtain it1 it2 st0 where *: "ndb_aach b (scramb st) = Inr it1"
    "(if t = ''NDB1'' then ndb1_blocks cmce mm b st else ndb2_blocks cmce mm inp b st) = Inr (it2, st0)"
    "its = Header t (clock st) corr # it1 @ it2" "st' = finish st0"
    using assms unfolding ndb_slot_def by (auto elim!: bind_res_InrE)
  have "quiet (it1 @ it2)" "same_lock st st0"
    using *(1,2) ndb1_frame [of cmce mm b st it2 st0] ndb2_frame [of cmce mm inp b st it2 st0]
    by (auto simp: ndb_aach_def split: if_splits dest!: aach_quiet)
  then show ?thesis using frame_quiet *(3,4) by blast
qed

lemma sb_slot_frame:
  assumes "l \<in> set LAYOUTS_DL" "input_ok inp" "burst_ok b" "sb_slot cmce mm flt l inp b corr st = Inr (its, st')"
  shows "slot_frame flt st its st'"
proof -
  obtain ok info b' corr' where r: "decode_sb1 l inp b corr = Inr (ok, Some info, b', corr')" "burst_ok b'"
    using decode_sb1_returns [OF assms(1-3), of corr] by (auto simp: sb1_result_ok_def)
  show ?thesis
  proof (cases ok)
    case False
    then have "its = [Header ''SB'' (clock st) corr', SbFail]"
      "st' = finish (st\<lparr>n_sb_fail := n_sb_fail st + 1, bad_quarters := bad_quarters st + 2\<rparr>)"
      using assms(4) by (simp_all add: sb_slot_def r(1))
    then show ?thesis
      using frame_quiet [of "[SbFail]" st "st\<lparr>n_sb_fail := n_sb_fail st + 1, bad_quarters := bad_quarters st + 2\<rparr>"]
      by (simp add: same_lock_def)
  next
    case True
    have len: "\<not> length (b_soft b') < (off_bkn2 l - 1) * 2 + SDB_BKN2 * 2" "\<not> length (b_dibits b') < off_bb l - 1 + SDB_BB"
      using layout_cases [OF assms(1)] r(2) by (auto simp: burst_ok_def SDB_BKN2_def SDB_BB_def)
    let ?st = "st\<lparr>n_sb_ok := n_sb_ok st + 1\<rparr>"
    obtain si it1 st1 it2 st2 it3 where *: "sb_identity flt si ?st = Inr (it1, st1)"
      "bkn2_step cmce mm l inp b' si st1 = Inr (it2, st2)"
      "aach_items (dibits_to_bits (block_at (off_bb l - 1) SDB_BB (b_dibits b'))) (scramb st2) = Inr it3"
      "its = Header ''SB'' (clock st) corr' # it1 @ it2 @ it3" "st' = finish st2"
      using assms(4) True len(1,2) by (auto simp: sb_slot_def r(1) elim!: bind_res_InrE)
    have q: "quiet (it2 @ it3)" "same_lock st1 st2" using bkn2_step_frame [OF *(2)] aach_quiet [OF *(3)] by simp_all
    show ?thesis
    proof (cases "cell_matches si (want_mcc flt) (want_mnc flt) (want_cc flt)")
      case False
      then have "it1 = [SbForeign si]" "st1 = ?st" using *(1) by (simp_all add: sb_identity_def)
      then show ?thesis
        using frame_quiet [of "SbForeign si # it2 @ it3" st st2] q *(4,5) by (simp add: same_lock_def)
    next
      case True
      let ?nt = "sync_clock si (clock st)"
      obtain c init f where a: "adopt_cell si = Inr (c, init)" "it1 = [SbOk si ?nt]"
        "st1 = ?st\<lparr>cell := c, scramb := init, fn_var := Some f, clock := ?nt\<rparr>"
        using *(1) True by (auto simp: sb_identity_def Let_def elim!: bind_res_InrE)
      have "\<forall>si' nt. SbOk si' nt \<in> set its \<longleftrightarrow> si' = si \<and> nt = ?nt" "\<forall>t c r. Header t c r \<in> set its \<longrightarrow> c = clock st"
        using quiet_not [OF q(1)] unfolding *(4) a(2) by auto
      moreover have "adopt_cell si = Inr (cell st', scramb st')" "clock st' = advance ?nt"
        using a q(2) *(5) by (simp_all add: same_lock_def finish_def)
      ultimately show ?thesis using True unfolding slot_frame_def by blast
    qed
  qed
qed

lemma slot_step_frame:
  assumes "l \<in> set LAYOUTS_DL" "input_ok inp" "slot_step cmce mm flt l inp st = Inr (its, st')"
  shows "slot_frame flt st its st'"
proof (cases "classify inp")
  case None
  then show ?thesis using assms(3) by (auto simp: slot_step_def slot_frame_def empty_slot_def finish_def)
next
  case (Some c)
  obtain corr t b where c: "c = (corr, t, b)" by (cases c)
  have b: "burst_ok b" using classify_ok Some c assms(2) by blast
  show ?thesis
    using sb_slot_frame [OF assms(1,2) b, of cmce mm flt corr st its st'] ndb_slot_frame [of cmce mm inp t b corr st its st' flt]
      assms(3) Some c by (simp add: slot_step_def split: if_splits)
qed

lemma loop_induct [consumes 2, case_names start slot]:
  assumes "slot_loop cmce mm flt l inps st = Inr (its, st')" "list_all input_ok inps \<and> l \<in> set LAYOUTS_DL"
    and "\<And>st. P [] st st"
    and "\<And>it st st1 its st'. slot_frame flt st it st1 \<Longrightarrow> P its st1 st' \<Longrightarrow> P (it # its) st st'"
  shows "P its st st'"
  using assms(1,2)
proof (induction inps arbitrary: st its)
  case (Cons inp inps)
  obtain it st1 its' where *: "slot_step cmce mm flt l inp st = Inr (it, st1)" "slot_loop cmce mm flt l inps st1 = Inr (its', st')"
    "its = it # its'" using Cons.prems(1) by (auto elim!: bind_res_InrE)
  show ?case unfolding *(3)
    by (rule assms(4) [OF slot_step_frame [OF _ _ *(1)] Cons.IH [OF *(2)]]) (use Cons.prems(2) in auto)
qed (use assms(3) in simp)

subsection \<open>The lock\<close>

lemma matched_cell:
  assumes "cell_matches si (Some m) (Some n) (Some c)"
  shows "adopt_cell si = Inr ((m, n, c), make_scramb_code m n c)"
  using assms by (auto simp: cell_matches_def adopt_cell_def int_field_def dget_default_def dget_def split: if_splits)

lemma lock_kept_core:
  assumes "slot_loop cmce mm \<lparr>want_mcc = Some m, want_mnc = Some n, want_cc = Some c\<rparr> l inps st = Inr (its, st')"
    and "list_all input_ok inps \<and> l \<in> set LAYOUTS_DL"
  shows "(cell st, scramb st) = ((m, n, c), make_scramb_code m n c) \<longrightarrow>
    (cell st', scramb st') = ((m, n, c), make_scramb_code m n c) \<and>
    (\<forall>it\<in>set its. \<forall>si nt. SbOk si nt \<in> set it \<longrightarrow> cell_matches si (Some m) (Some n) (Some c))"
  using assms
proof (induction rule: loop_induct)
  case (slot it st st1 its st')
  have "(cell st, scramb st) = ((m, n, c), make_scramb_code m n c) \<longrightarrow> (cell st1, scramb st1) = ((m, n, c), make_scramb_code m n c)"
    "\<forall>si nt. SbOk si nt \<in> set it \<longrightarrow> cell_matches si (Some m) (Some n) (Some c)"
    using slot(1) matched_cell by (auto simp: slot_frame_def)
  then show ?case using slot(2) by auto
qed simp

text \<open>C9. With a cell filter the receiver is not led away: once it has locked to a beacon of the wanted
  cell, the cell and the scrambling code that descramble every block are that cell's after any number of slots,
  whatever other beacons are received, and every beacon it accepts is one of that cell.\<close>

theorem lock_kept:
  assumes "locked_state si = Inr st" "cell_matches si (Some m) (Some n) (Some c)"
    and "list_all input_ok inps" "l \<in> set LAYOUTS_DL"
    and "slot_loop cmce mm \<lparr>want_mcc = Some m, want_mnc = Some n, want_cc = Some c\<rparr> l inps st = Inr (its, st')"
  shows "cell st' = (m, n, c) \<and> scramb st' = make_scramb_code m n c \<and>
    (\<forall>it\<in>set its. \<forall>si nt. SbOk si nt \<in> set it \<longrightarrow> cell_matches si (Some m) (Some n) (Some c))"
proof -
  have "(cell st, scramb st) = ((m, n, c), make_scramb_code m n c)"
    using assms(1) by (auto simp: locked_state_def matched_cell [OF assms(2)])
  then show ?thesis using lock_kept_core [OF assms(5)] assms(3,4) by blast
qed

subsection \<open>The clock\<close>

text \<open>The network's time in slots: slot \<open>i\<close> of the grid is slot \<open>k + i\<close> of the hyperframe, modulo its 4320 slots.  The
  beacons are true when each one accepted in slot \<open>i\<close> carries that time.\<close>

definition on_time :: "int \<Rightarrow> net_time \<Rightarrow> bool" where
  "on_time k nt \<longleftrightarrow> time_ok nt \<and> slot_index nt = k mod 4320"

fun beacons_true :: "int \<Rightarrow> item list list \<Rightarrow> bool" where
  "beacons_true k [] = True"
| "beacons_true k (it # its) \<longleftrightarrow>
     list_all (\<lambda>x. case x of SbOk si nt \<Rightarrow> slot_index nt = k mod 4320 | _ \<Rightarrow> True) it \<and> beacons_true (k + 1) its"

fun labels_true :: "int \<Rightarrow> item list list \<Rightarrow> bool" where
  "labels_true k [] = True"
| "labels_true k (it # its) \<longleftrightarrow>
     list_all (\<lambda>x. case x of Header t nt c \<Rightarrow> on_time k nt | _ \<Rightarrow> True) it \<and> labels_true (k + 1) its"

lemma on_time_advance: "on_time k nt \<Longrightarrow> on_time (k + 1) (advance nt)"
  by (simp add: on_time_def slot_index_advance time_ok_advance mod_simps)

lemma sync_clock_ok: "time_ok (sync_clock si nt)"
  by (simp add: sync_clock_def time_ok_synchronize)

lemma slot_on_time:
  assumes "slot_frame flt st it st1" "beacons_true k (it # its)"
    and "on_time k (clock st) \<or> (\<exists>si nt. SbOk si nt \<in> set it)"
  shows "on_time (k + 1) (clock st1)"
proof (cases "\<exists>si nt. SbOk si nt \<in> set it")
  case True
  then obtain si where si: "SbOk si (sync_clock si (clock st)) \<in> set it" "clock st1 = advance (sync_clock si (clock st))"
    using assms(1) by (auto simp: slot_frame_def)
  then have "on_time k (sync_clock si (clock st))"
    using assms(2) sync_clock_ok by (force simp: on_time_def list_all_iff)
  then show ?thesis using on_time_advance si(2) by simp
next
  case False
  then show ?thesis using assms(1,3) on_time_advance by (auto simp: slot_frame_def)
qed

lemma slot_labels:
  assumes "slot_frame flt st it st1" "on_time k (clock st)"
  shows "list_all (\<lambda>x. case x of Header t nt c \<Rightarrow> on_time k nt | _ \<Rightarrow> True) it"
  using assms by (auto simp: slot_frame_def list_all_iff split: item.splits)

lemma clock_kept:
  assumes "slot_loop cmce mm flt l inps st = Inr (its, st')" "list_all input_ok inps \<and> l \<in> set LAYOUTS_DL"
  shows "(\<forall>k. beacons_true k its \<longrightarrow> on_time k (clock st) \<longrightarrow> labels_true k its \<and> on_time (k + int (length its)) (clock st')) \<and>
    (\<forall>k pre it post. its = pre @ it # post \<longrightarrow> beacons_true k its \<longrightarrow> (\<exists>si nt. SbOk si nt \<in> set it) \<longrightarrow>
      labels_true (k + int (length pre) + 1) post \<and> on_time (k + int (length its)) (clock st'))"
  using assms
proof (induction rule: loop_induct)
  case (slot it st st1 its st')
  note kept = slot(2) [THEN conjunct1, rule_format]
  show ?case
  proof (intro conjI allI impI)
    fix k assume b: "beacons_true k (it # its)" and t: "on_time k (clock st)"
    have 1: "on_time (k + 1) (clock st1)" using slot_on_time [OF slot(1) b] t by blast
    then show "labels_true k (it # its)" using kept b slot_labels [OF slot(1) t] by simp
    show "on_time (k + int (length (it # its))) (clock st')" using kept [OF _ 1] b by (simp add: add.assoc)
  next
    fix k pre it' post
    assume s: "it # its = pre @ it' # post" and b: "beacons_true k (it # its)" and e: "\<exists>si nt. SbOk si nt \<in> set it'"
    have "labels_true (k + int (length pre) + 1) post \<and> on_time (k + int (length (it # its))) (clock st')"
    proof (cases pre)
      case Nil
      then have 1: "on_time (k + 1) (clock st1)" using slot_on_time [OF slot(1) b] s e by simp
      show ?thesis using kept [OF _ 1] b s Nil by (simp add: add.assoc)
    next
      case (Cons x pre')
      then have i: "its = pre' @ it' # post" "beacons_true (k + 1) its" using s b by simp_all
      have n: "k + int (length pre) + 1 = k + 1 + int (length pre') + 1" "k + int (length (it # its)) = k + 1 + int (length its)"
        using Cons by simp_all
      show ?thesis unfolding n using slot(2) i e by blast
    qed
    then show "labels_true (k + int (length pre) + 1) post" "on_time (k + int (length (it # its))) (clock st')" by simp_all
  qed
qed simp

end
