(* ===== verification/BurstRx.thy ===== *)
theory BurstRx
  imports SoftViterbi SyncPdu
begin

text \<open>
  The synchronisation burst receiver: the burst layouts and the two decoding attempts of
  \<open>scripts/decode_sb.py\<close>, and the BSCH, BNCH and AACH attempts and the BNCH parser of
  \<open>scripts/decode_bnch.py\<close>.  The demodulated dibits (and the soft bits) are arguments: the demodulators
  work on floating-point samples.
\<close>

subsection \<open>Layouts\<close>

definition SDB_TAIL1_LEN :: int where "SDB_TAIL1_LEN = 6"
definition SDB_HC_LEN :: int where "SDB_HC_LEN = 1"
definition SDB_FC_LEN :: int where "SDB_FC_LEN = 40"
definition SDB_SB1_LEN :: int where "SDB_SB1_LEN = 60"
definition SDB_STS_LEN :: int where "SDB_STS_LEN = 19"
definition SDB_BB_LEN :: int where "SDB_BB_LEN = 15"
definition SDB_BKN2_LEN :: int where "SDB_BKN2_LEN = 108"
definition SDB_HD_LEN :: int where "SDB_HD_LEN = 1"
definition SDB_TAIL2_LEN :: int where "SDB_TAIL2_LEN = 5"
definition SB_TOTAL :: int where "SB_TOTAL = 255"

definition SDB_OFF_HC :: int where "SDB_OFF_HC = SDB_TAIL1_LEN"
definition SDB_OFF_FC :: int where "SDB_OFF_FC = SDB_OFF_HC + SDB_HC_LEN"
definition SDB_OFF_SB1 :: int where "SDB_OFF_SB1 = SDB_OFF_FC + SDB_FC_LEN"
definition SDB_OFF_STS :: int where "SDB_OFF_STS = SDB_OFF_SB1 + SDB_SB1_LEN"
definition SDB_OFF_BB :: int where "SDB_OFF_BB = SDB_OFF_STS + SDB_STS_LEN"
definition SDB_OFF_BKN2 :: int where "SDB_OFF_BKN2 = SDB_OFF_BB + SDB_BB_LEN"
definition SDB_OFF_HD :: int where "SDB_OFF_HD = SDB_OFF_BKN2 + SDB_BKN2_LEN"
definition SDB_OFF_TAIL2 :: int where "SDB_OFF_TAIL2 = SDB_OFF_HD + SDB_HD_LEN"

definition NSB_OFF_SB1 :: int where "NSB_OFF_SB1 = 25"
definition NSB_OFF_STS :: int where "NSB_OFF_STS = 85"
definition NSB_OFF_BB :: int where "NSB_OFF_BB = 104"
definition NSB_OFF_BKN2 :: int where "NSB_OFF_BKN2 = 119"

definition BURST_LAYOUTS :: "(string \<times> int \<times> int) list" where
  "BURST_LAYOUTS = [(''SDB (continuous)'', SDB_OFF_SB1, SDB_OFF_STS), (''SB  (non-cont.)'', NSB_OFF_SB1, NSB_OFF_STS)]"

definition LAYOUTS :: "(string \<times> int \<times> int \<times> int \<times> int) list" where
  "LAYOUTS =
     [(''SDB (continuous)'', SDB_OFF_SB1, SDB_OFF_STS, SDB_OFF_BB, SDB_OFF_BKN2),
      (''SB  (non-cont.)'', NSB_OFF_SB1, NSB_OFF_STS, NSB_OFF_BB, NSB_OFF_BKN2)]"

lemmas layout_defs = SDB_TAIL1_LEN_def SDB_HC_LEN_def SDB_FC_LEN_def SDB_SB1_LEN_def SDB_STS_LEN_def SDB_BB_LEN_def
  SDB_BKN2_LEN_def SDB_HD_LEN_def SDB_TAIL2_LEN_def SB_TOTAL_def SDB_OFF_HC_def SDB_OFF_FC_def SDB_OFF_SB1_def
  SDB_OFF_STS_def SDB_OFF_BB_def SDB_OFF_BKN2_def SDB_OFF_HD_def SDB_OFF_TAIL2_def NSB_OFF_SB1_def
  NSB_OFF_STS_def NSB_OFF_BB_def NSB_OFF_BKN2_def

definition STS_DIBITS :: "nat list" where
  "STS_DIBITS = [3, 0, 0, 1, 2, 1, 3, 0, 3, 2, 2, 1, 3, 0, 0, 1, 2, 1, 3]"

subsection \<open>The BSCH attempts of decode_sb\<close>

definition sb1_bits_of :: "bool \<Rightarrow> nat list \<Rightarrow> bits" where
  "sb1_bits_of msb_first ds = concat (map (\<lambda>d. if msb_first then [bit d 1, bit d 0] else [bit d 0, bit d 1]) ds)"

definition crc16_modes :: "bits \<Rightarrow> bool \<times> bool \<times> bool" where
  "crc16_modes bits = (crc16_check bits False, crc16_check bits True, crc16_check_dll_sb bits)"

type_synonym attempt = "bool \<times> dict option \<times> bits option \<times> string option"

definition try_decode_attempt_etsi :: "nat list \<Rightarrow> int \<Rightarrow> bool \<Rightarrow> bool \<Rightarrow> attempt res" where
  "try_decode_attempt_etsi dibits sb1_offset msb_first invert_fcs =
     (let sb1_start = sb1_offset - 1
      in if sb1_start < 0 \<or> int (length dibits) < sb1_start + SDB_SB1_LEN then Inr (False, None, None, None)
         else let sb1_bits = sb1_bits_of msb_first (py_slice dibits sb1_start (sb1_start + SDB_SB1_LEN));
                  type4 = descramble_bsch sb1_bits
           in bind_res (etsi_deinterleave_bsch type4) (\<lambda>type3.
              bind_res (etsi_viterbi_decode_r23 type3) (\<lambda>type2.
              let info_crc = take (60 + 16) type2;
                  (raw, inverted, dll) = crc16_modes info_crc;
                  crc_mode = (if dll then Some ''dll'' else if invert_fcs \<and> inverted then Some ''inverted''
                    else if raw then Some ''raw'' else if inverted then Some ''inverted'' else None);
                  crc_ok = (dll \<or> (if invert_fcs then inverted else raw))
              in bind_res (parse_sysinfo (take 60 info_crc)) (\<lambda>info.
                 Inr (crc_ok, info, Some (take 60 info_crc), crc_mode)))))"

definition try_decode_attempt :: "nat list \<Rightarrow> int \<Rightarrow> bool \<Rightarrow> attempt res" where
  "try_decode_attempt dibits sb1_offset msb_first =
     (let sb1_start = sb1_offset - 1
      in if sb1_start < 0 \<or> int (length dibits) < sb1_start + SDB_SB1_LEN then Inr (False, None, None, None)
         else let sb1_bits = sb1_bits_of msb_first (py_slice dibits sb1_start (sb1_start + SDB_SB1_LEN));
                  type4i = descramble_bsch sb1_bits
           in bind_res (deinterleave_sb type4i 120) (\<lambda>type4.
              bind_res (viterbi_decode_r23 type4) (\<lambda>type3.
              let type2 = take (60 + 16) type3;
                  crc_ok = crc16_check type2 False
              in bind_res (parse_sysinfo (take 60 type2)) (\<lambda>info.
                 Inr (crc_ok, info, Some (take 60 type2), if crc_ok then Some ''raw'' else None)))))"

subsection \<open>The BNCH parser\<close>

text \<open>\<open>r[k] = extract_bits(bits, bp, n); bp += n\<close>, one field after the other.\<close>

fun seq_fields :: "bits \<Rightarrow> nat \<Rightarrow> (string \<times> nat) list \<Rightarrow> dict \<Rightarrow> (dict \<times> nat) res" where
  "seq_fields bits bp [] r = Inr (r, bp)"
| "seq_fields bits bp ((k, n) # fs) r =
     bind_res (extract_bits bits bp n) (\<lambda>v. seq_fields bits (bp + n) fs (dset k (VInt v) r))"

definition SYSINFO_HEAD :: "(string \<times> nat) list" where
  "SYSINFO_HEAD =
     [(''Main_Carrier'', 12), (''Frequency_Band'', 4), (''Offset'', 2), (''Duplex_Spacing'', 3),
      (''Reverse_Operation'', 1), (''NumberOfCommon_SC'', 2), (''MS_TXPwr_Max_Cell'', 3), (''RXLevel_Access_Min'', 4),
      (''Access_Parameter'', 4), (''Radio_DL_Timeout'', 4), (''HF_or_CK_flag'', 1)]"

definition SYSINFO_TAIL :: "(string \<times> nat) list" where
  "SYSINFO_TAIL =
     [(''Optional_field_flag'', 2), (''Optional_field_value'', 20), (''Location_Area'', 14),
      (''Subscriber_Class'', 16), (''Registration_required'', 1), (''De_registration_required'', 1),
      (''Priority_cell'', 1), (''Cell_never_uses_minimum_mode'', 1), (''Migration_supported'', 1),
      (''System_wide_services'', 1), (''TETRA_voice_service'', 1), (''Circuit_mode_data_service'', 1),
      (''Reserved'', 1), (''SNDCP_Service'', 1), (''Air_interface_encryption'', 1), (''Advanced_link_supported'', 1)]"

definition ACCESS_HEAD :: "(string \<times> nat) list" where
  "ACCESS_HEAD = [(''Fill_bit_indication'', 1), (''Encryption_mode'', 2), (''Random_access_flag'', 1)]"

definition ACCESS_TAIL :: "(string \<times> nat) list" where
  "ACCESS_TAIL =
     [(''Access_code'', 4), (''Immediate'', 1), (''Waiting_time'', 4), (''Num_random_access_tx'', 4),
      (''Frame_length_factor'', 1), (''Timeslot_pointer'', 4), (''Min_priority'', 3)]"

definition parse_bnch_sysinfo :: "bits \<Rightarrow> dict res" where
  "parse_bnch_sysinfo bits =
     bind_res (seq_fields bits 4 SYSINFO_HEAD [(''type'', VStr ''SYSINFO'')]) (\<lambda>(r, bp).
     bind_res (seq_fields bits bp
         [(if dget r ''HF_or_CK_flag'' = Some (VInt 0) then ''Hyperframe'' else ''CK_Identifier'', 16)] r) (\<lambda>(r, bp).
     bind_res (seq_fields bits bp SYSINFO_TAIL r) (\<lambda>(r, bp). Inr r)))"

definition parse_bnch_access :: "bits \<Rightarrow> dict res" where
  "parse_bnch_access bits =
     bind_res (seq_fields bits 4 ACCESS_HEAD [(''type'', VStr ''ACCESS_DEFINE'')]) (\<lambda>(r, bp).
     if dget r ''Random_access_flag'' = Some (VInt 0) then Inr r
     else bind_res (seq_fields bits bp ACCESS_TAIL r) (\<lambda>(r, bp). Inr r))"

definition parse_bnch_pdu :: "bits \<Rightarrow> dict option res" where
  "parse_bnch_pdu bits =
     (if length bits < 4 then Inr None
      else bind_res (extract_bits bits 0 2) (\<lambda>mac_pdu_type.
        if mac_pdu_type \<noteq> 2 then Inr (Some [(''type'', VStr ''unknown''), (''mac_pdu_type'', VInt mac_pdu_type)])
        else bind_res (extract_bits bits 2 2) (\<lambda>broadcast_type.
          if broadcast_type = 0 then map_res Some (parse_bnch_sysinfo bits)
          else if broadcast_type = 1 then map_res Some (parse_bnch_access bits)
          else Inr (Some [(''type'', VStr (''broadcast_type_'' @ str_int broadcast_type))]))))"

definition bnch_dl_freq :: "int \<Rightarrow> int \<Rightarrow> int \<Rightarrow> int" where
  "bnch_dl_freq band carrier offset_val =
     (let dl_freq = band * 100000000 + carrier * 25000
      in if offset_val = 1 then dl_freq + 6250 else if offset_val = 2 then dl_freq - 6250
         else if offset_val = 3 then dl_freq + 12500 else dl_freq)"

subsection \<open>The attempts of decode_bnch\<close>

definition try_decode_bsch :: "nat list \<Rightarrow> int \<Rightarrow> int \<Rightarrow> dict option res" where
  "try_decode_bsch dibits sb1_off sts_off =
     (let sb1_start = sb1_off - 1; sb1_dibits = py_slice dibits sb1_start (sb1_start + SDB_SB1_LEN)
      in if int (length sb1_dibits) < SDB_SB1_LEN then Inr None
         else bind_res (etsi_deinterleave_bsch (descramble_bsch (sb1_bits_of True sb1_dibits))) (\<lambda>type3.
              bind_res (etsi_viterbi_decode_r23 type3) (\<lambda>type2.
              let info_crc = take (60 + 16) type2; (raw, inverted, dll) = crc16_modes info_crc
              in if dll \<or> raw \<or> inverted then parse_sysinfo (take 60 info_crc) else Inr None)))"

definition bnch_crc16_check :: "bits \<Rightarrow> bool" where
  "bnch_crc16_check bits140 = (take 16 (drop 124 bits140) = crc16_bits (take 124 bits140))"

text \<open>The soft path; \<open>None\<close> when it does not apply or its CRC fails, and the hard path is tried.\<close>

definition bnch_soft_path :: "int list \<Rightarrow> int \<Rightarrow> int \<Rightarrow> (dict option \<times> string option) option res" where
  "bnch_soft_path soft_bits_all bkn2_start scrambler_init =
     (let sb_start = bkn2_start * 2; sb_end = sb_start + 216
      in if int (length soft_bits_all) < sb_end then Inr None
         else bind_res (descramble_soft_bnch (py_slice soft_bits_all sb_start sb_end) scrambler_init 216) (\<lambda>soft_descr.
              bind_res (etsi_deinterleave_bnch_soft soft_descr) (\<lambda>soft_deint.
              bind_res (etsi_depuncture_r23_bnch_soft soft_deint) (\<lambda>(soft_depunct, is_erasure).
              let decoded = etsi_viterbi_decode_r14_soft soft_depunct is_erasure
              in if crc16_check_dll_sb (take (124 + 16) decoded)
                 then bind_res (parse_bnch_pdu (take 124 decoded)) (\<lambda>pdu. Inr (Some (pdu, Some ''soft'')))
                 else Inr None))))"

definition bnch_hard_path :: "nat list \<Rightarrow> int \<Rightarrow> int \<Rightarrow> (dict option \<times> string option) res" where
  "bnch_hard_path dibits bkn2_start scrambler_init =
     (let bkn2_dibits = py_slice dibits bkn2_start (bkn2_start + SDB_BKN2_LEN)
      in if int (length bkn2_dibits) < SDB_BKN2_LEN then Inr (None, None)
         else let descrambled = xor_bits (sb1_bits_of True bkn2_dibits) (scrambler_seq_sb scrambler_init 216)
           in bind_res (etsi_deinterleave_bnch descrambled) (\<lambda>deinterleaved.
              bind_res (etsi_depuncture_r23_bnch deinterleaved) (\<lambda>depunctured.
              let decoded = etsi_viterbi_decode_r14_with_erasures depunctured
              in if crc16_check_dll_sb (take (124 + 16) decoded)
                 then bind_res (parse_bnch_pdu (take 124 decoded)) (\<lambda>pdu. Inr (pdu, Some ''dll''))
                 else Inr (None, None))))"

definition try_decode_bnch ::
  "nat list \<Rightarrow> int \<Rightarrow> int \<Rightarrow> int list option \<Rightarrow> (dict option \<times> string option) res" where
  "try_decode_bnch dibits bkn2_off scrambler_init soft_bits_all =
     (let bkn2_start = bkn2_off - 1
      in bind_res (case soft_bits_all of
             None \<Rightarrow> Inr None
           | Some soft \<Rightarrow> bnch_soft_path soft bkn2_start scrambler_init) (\<lambda>r.
         case r of
           Some x \<Rightarrow> Inr x
         | None \<Rightarrow> bnch_hard_path dibits bkn2_start scrambler_init))"

definition try_decode_aach :: "nat list \<Rightarrow> int \<Rightarrow> (bits \<times> string) option" where
  "try_decode_aach dibits bb_off =
     (let bb_start = bb_off - 1; bb_dibits = py_slice dibits bb_start (bb_start + SDB_BB_LEN)
      in if int (length bb_dibits) < SDB_BB_LEN then None
         else let bb_bits = sb1_bits_of True bb_dibits
           in Some (bb_bits, map (\<lambda>b. if b then CHR ''1'' else CHR ''0'') bb_bits))"

subsection \<open>Packing dibits\<close>

text \<open>What a modulator sends for a block of bits, two per symbol.\<close>

fun pack_dibits :: "bool \<Rightarrow> bits \<Rightarrow> nat list" where
  "pack_dibits msb_first (a # b # bs) =
     (if msb_first then 2 * of_bool a + of_bool b else of_bool a + 2 * of_bool b) # pack_dibits msb_first bs"
| "pack_dibits msb_first _ = []"

lemma dibit_bits: "bit (2 * of_bool a + of_bool b :: nat) 1 = a" "bit (2 * of_bool a + of_bool b :: nat) 0 = b"
  "bit (of_bool a + 2 * of_bool b :: nat) 1 = b" "bit (of_bool a + 2 * of_bool b :: nat) 0 = a"
  by (simp_all add: bit_iff_odd)

lemma unpack_dibits: "even (length bs) \<Longrightarrow> sb1_bits_of m (pack_dibits m bs) = bs"
proof (induction m bs rule: pack_dibits.induct)
  case (1 m a b bs)
  have "sb1_bits_of m (x # xs) = (if m then [bit x 1, bit x 0] else [bit x 0, bit x 1]) @ sb1_bits_of m xs" for x :: nat and xs
    by (simp add: sb1_bits_of_def)
  then show ?case using 1 by (cases m) (simp_all del: One_nat_def add: dibit_bits)
qed (simp_all add: sb1_bits_of_def)

lemma length_pack_dibits: "length (pack_dibits m bs) = length bs div 2"
  by (induction m bs rule: pack_dibits.induct) simp_all

lemma slice_mid: "py_slice (pre @ ds @ post) (int (length pre)) (int (length pre) + int (length ds)) = ds"
  by (simp add: py_slice_nonneg)

subsection \<open>The chains are the channel decoder\<close>

lemma r14_copy: "etsi_viterbi_decode_r14_with_erasures m = viterbi_r14 m"
  by (simp only: etsi_viterbi_decode_r14_with_erasures_def viterbi_r14_def etsi_gens_def)

lemma bsch_chain:
  assumes "decode_channel t4 120 11 60 = Inr (ok, info, dec)"
  shows "bind_res (etsi_deinterleave_bsch t4) (\<lambda>t3. bind_res (etsi_viterbi_decode_r23 t3) k) = k dec"
proof -
  have d: "etsi_deinterleave_bsch t4 = deinterleave_perm t4 120 11" by (rule deinterleave_copies)
  obtain t3 where t3: "deinterleave_perm t4 120 11 = Inr t3"
    using assms by (cases "deinterleave_perm t4 120 11") (simp_all add: decode_channel_def)
  obtain m where m: "depuncture_r23 t3 (8 * (length t3 div 3)) = Inr m"
    using assms t3 by (cases "depuncture_r23 t3 (8 * (length t3 div 3))") (simp_all add: decode_channel_def mult.commute)
  have "dec = viterbi_r14 m"
    using assms t3 m by (simp add: decode_channel_def Let_def mult.commute)
  then show ?thesis using d t3 m by (simp add: etsi_viterbi_decode_r23_def etsi_depuncture_copies r14_copy)
qed

lemma bnch_chain:
  assumes "decode_channel t4 216 101 124 = Inr (ok, info, dec)"
  shows "bind_res (etsi_deinterleave_bnch t4) (\<lambda>t3. bind_res (etsi_depuncture_r23_bnch t3)
      (\<lambda>m. k (etsi_viterbi_decode_r14_with_erasures m))) = k dec"
proof -
  have d: "etsi_deinterleave_bnch t4 = deinterleave_perm t4 216 101" by (rule deinterleave_copies)
  obtain t3 where t3: "deinterleave_perm t4 216 101 = Inr t3"
    using assms by (cases "deinterleave_perm t4 216 101") (simp_all add: decode_channel_def)
  obtain m where m: "depuncture_r23 t3 (8 * (length t3 div 3)) = Inr m"
    using assms t3 by (cases "depuncture_r23 t3 (8 * (length t3 div 3))") (simp_all add: decode_channel_def mult.commute)
  have "dec = viterbi_r14 m"
    using assms t3 m by (simp add: decode_channel_def Let_def mult.commute)
  then show ?thesis using d t3 m by (simp add: etsi_depuncture_copies r14_copy)
qed

lemma soft_chain:
  assumes "length x = 216" "decode_channel (descramble_hard x code 216) 216 101 124 = Inr (ok, info, dec)"
  shows "bind_res (descramble_soft_bnch (map soft_of x) code 216) (\<lambda>s. bind_res (etsi_deinterleave_bnch_soft s) (\<lambda>d.
      bind_res (etsi_depuncture_r23_bnch_soft d) (\<lambda>(m, e). k (etsi_viterbi_decode_r14_soft m e)))) = k dec"
proof -
  let ?soft = "bind_res (descramble_soft_bnch (map soft_of x) code (length x)) (\<lambda>s. bind_res (etsi_deinterleave_bnch_soft s) (\<lambda>d.
      bind_res (etsi_depuncture_r23_bnch_soft d) (\<lambda>(m, e). Inr (etsi_viterbi_decode_r14_soft m e))))"
  have "bind_res (descramble_soft_bnch (map soft_of x) code 216) (\<lambda>s. bind_res (etsi_deinterleave_bnch_soft s) (\<lambda>d.
      bind_res (etsi_depuncture_r23_bnch_soft d) (\<lambda>(m, e). k (etsi_viterbi_decode_r14_soft m e)))) = bind_res ?soft k"
    unfolding assms(1) by (simp add: bind_res_def split: sum.split prod.split)
  also have "?soft = Inr dec"
    unfolding soft_bnch_chain unfolding assms(1) using bnch_chain [OF assms(2), where k = Inr] by simp
  finally show ?thesis by simp
qed

lemma decoded_ok:
  assumes "length info = n"
  shows "take (n + 16) (crc16 info @ [False, False, False, False]) = crc16 info" "take n (crc16 info) = info"
    "crc16_check_dll_sb (crc16 info)"
proof -
  show "take (n + 16) (crc16 info @ [False, False, False, False]) = crc16 info" using assms by simp
  show "take n (crc16 info) = info" using assms by (simp add: crc16_def)
  show "crc16_check_dll_sb (crc16 info)" by (simp add: crc16_check_dll_sb_eq crc16_accepted)
qed

lemma parse_sysinfo_60:
  "length pdu = 60 \<Longrightarrow> \<exists>info. parse_sysinfo pdu = Inr (Some info) \<and>
     dget info ''ColorCode'' = Some (VInt (bits_val (take 6 (drop 4 pdu)))) \<and>
     dget info ''MCC'' = Some (VInt (bits_val (take 10 (drop 31 pdu)))) \<and>
     dget info ''MNC'' = Some (VInt (bits_val (take 14 (drop 41 pdu))))"
  by (simp add: parse_sysinfo_def extract_bits_ok del: One_nat_def)

lemma bsch_on_air:
  assumes "build_pdu cfg tn fn mn = Inr pdu" "length e = 120" "burst 10 e"
  shows "\<exists>t5. sw_encode_bsch cfg tn fn mn = Inr t5 \<and> length t5 = 120 \<and>
    decode_channel (descramble_bsch (xor_bits t5 e)) 120 11 60 = Inr (True, pdu, crc16 pdu @ [False, False, False, False])"
proof -
  have "length pdu = 60" by (rule length_build_pdu [OF assms(1)])
  from bsch.decode_burst [OF this refl assms(2,3)] obtain t5 where t5: "bsch_type5 pdu = Inr t5" "length t5 = 120"
    "decode_channel (descramble_hard (xor_bits t5 e) 3 120) 120 11 60 = Inr (True, pdu, crc16 pdu @ [False, False, False, False])"
    by blast
  have "descramble_hard (xor_bits t5 e) 3 120 = descramble_bsch (xor_bits t5 e)"
    using t5(2) assms(2) by (simp add: descramble_hard_mask descramble_bsch_mask)
  then show ?thesis using t5 assms(1) by (simp add: sw_encode_bsch_def)
qed

lemma build_pdu_fields:
  assumes "build_pdu cfg tn fn mn = Inr pdu"
  shows "take 6 (drop 4 pdu) = to_bits 6 (colour_code cfg)" "take 10 (drop 31 pdu) = to_bits 10 (cfg_mcc cfg)"
    "take 14 (drop 41 pdu) = to_bits 14 (cfg_mnc cfg)"
  using assms by (auto simp: build_pdu_def Let_def assert_res_def)

text \<open>C12. The beacon is found in the burst: for every configuration and slot, every burst of up to 10
  flipped air bits, either burst layout, either packing of the dibits and whatever else the burst holds,
  the attempt at the layout's offset with that packing reports a good CRC in mode \<open>dll\<close>, the 60 bits of
  the SYNC PDU and the parsed information, whose colour code, MCC and MNC are the configured ones
  reduced to their widths; the BSCH attempt of the BNCH decoder returns the same information.\<close>

theorem beacon_found:
  assumes "(name, off, sts) \<in> set BURST_LAYOUTS" "length e = 120" "burst 10 e" "int (length pre) = off - 1"
  shows "\<exists>t5 pdu info. sw_encode_bsch cfg tn fn mn = Inr t5 \<and> build_pdu cfg tn fn mn = Inr pdu \<and>
    try_decode_attempt_etsi (pre @ pack_dibits m (xor_bits t5 e) @ post) off m inv_fcs =
      Inr (True, Some info, Some pdu, Some ''dll'') \<and>
    try_decode_bsch (pre @ pack_dibits True (xor_bits t5 e) @ post) off sts = Inr (Some info) \<and>
    dget info ''ColorCode'' = Some (VInt (colour_code cfg mod 64)) \<and>
    dget info ''MCC'' = Some (VInt (cfg_mcc cfg mod 1024)) \<and> dget info ''MNC'' = Some (VInt (cfg_mnc cfg mod 16384))"
proof -
  obtain pdu where pdu: "build_pdu cfg tn fn mn = Inr pdu" "length pdu = 60" using build_pdu_total by blast
  obtain t5 where t5: "sw_encode_bsch cfg tn fn mn = Inr t5" "length t5 = 120"
    "decode_channel (descramble_bsch (xor_bits t5 e)) 120 11 60 = Inr (True, pdu, crc16 pdu @ [False, False, False, False])"
    using bsch_on_air [OF pdu(1) assms(2,3)] by blast
  obtain info where info: "parse_sysinfo pdu = Inr (Some info)"
    "dget info ''ColorCode'' = Some (VInt (bits_val (take 6 (drop 4 pdu))))"
    "dget info ''MCC'' = Some (VInt (bits_val (take 10 (drop 31 pdu))))"
    "dget info ''MNC'' = Some (VInt (bits_val (take 14 (drop 41 pdu))))"
    using parse_sysinfo_60 [OF pdu(2)] by blast
  have len: "length (pack_dibits mm (xor_bits t5 e)) = 60" for mm using t5(2) assms(2) by (simp add: length_pack_dibits)
  have sl: "py_slice (pre @ pack_dibits mm (xor_bits t5 e) @ post) (off - 1) (off - 1 + SDB_SB1_LEN) = pack_dibits mm (xor_bits t5 e)" for mm
    using slice_mid [of pre "pack_dibits mm (xor_bits t5 e)" post] len [of mm] assms(4) by (simp add: SDB_SB1_LEN_def)
  have un: "sb1_bits_of mm (pack_dibits mm (xor_bits t5 e)) = xor_bits t5 e" for mm
    using t5(2) assms(2) by (intro unpack_dibits) simp
  have off: "\<not> off - 1 < 0" using assms(4) by linarith
  have fit: "\<not> int (length (pre @ pack_dibits m (xor_bits t5 e) @ post)) < off - 1 + SDB_SB1_LEN"
    using len [of m] assms(4) by (simp add: SDB_SB1_LEN_def)
  note ok = decoded_ok [OF pdu(2)]
  have a: "try_decode_attempt_etsi (pre @ pack_dibits m (xor_bits t5 e) @ post) off m inv_fcs = Inr (True, Some info, Some pdu, Some ''dll'')"
    unfolding try_decode_attempt_etsi_def Let_def sl un bsch_chain [OF t5(3)]
    using off fit ok info(1) by (simp add: crc16_modes_def)
  have b: "try_decode_bsch (pre @ pack_dibits True (xor_bits t5 e) @ post) off sts = Inr (Some info)"
    unfolding try_decode_bsch_def Let_def sl un bsch_chain [OF t5(3)]
    using len [of True] ok info(1) by (simp add: crc16_modes_def SDB_SB1_LEN_def)
  show ?thesis
    using a b t5(1) pdu(1) info(2-4) unfolding build_pdu_fields [OF pdu(1)]
    by (auto simp: bits_val_to_bits take_bit_eq_mod)
qed

theorem beacon_found_witness:
  "\<exists>t5 info. sw_encode_bsch CFG 1 18 3 = Inr t5 \<and>
    try_decode_bsch (replicate 24 0 @ pack_dibits True (xor_bits t5 (replicate 120 False)) @ [1, 2]) 25 85 = Inr (Some info) \<and>
    dget info ''MCC'' = Some (VInt 901)"
proof -
  have l: "(''SB  (non-cont.)'', 25, 85) \<in> set BURST_LAYOUTS" by (simp add: BURST_LAYOUTS_def layout_defs)
  have e: "length (replicate 120 False) = 120" "burst 10 (replicate 120 False)" "int (length (replicate 24 (0::nat))) = 25 - 1"
    by (simp_all add: burst_def)
  from beacon_found [OF l e, of CFG 1 18 3 True "[1, 2]" False] show ?thesis by (auto simp: CFG_def)
qed

text \<open>C17. The BNCH through the air: 124 information bits encoded for a cell and hit by a burst of up to 10
  flipped air bits are decoded by the hard path, for the scrambler code the receiver computes from
  the beacon's MCC, MNC and colour code, to what the parser makes of exactly these bits, with the tag
  \<open>dll\<close>; when soft values of the same bits are given, the soft path returns the same with the tag
  \<open>soft\<close>.\<close>

theorem bnch_decoded:
  assumes "length info = 124" "length e = 216" "burst 10 e" "int (length pre) = off - 1"
    and "parse_bnch_pdu info = Inr pdu" "code = create_scrambler_code mcc mnc cc"
  shows "\<exists>t5. encode_sch_hd info code = Inr t5 \<and>
    try_decode_bnch (pre @ pack_dibits True (xor_bits t5 e) @ post) off code None = Inr (pdu, Some ''dll'') \<and>
    (length spre = 2 * length pre \<longrightarrow>
      try_decode_bnch ds off code (Some (spre @ map soft_of (xor_bits t5 e) @ spost)) = Inr (pdu, Some ''soft''))"
proof -
  have seed: "nonzero_seed code"
  proof -
    have "bit code 0" by (simp add: assms(6) create_scrambler_code_def bit_simps)
    then have "bit (take_bit 32 code) 0" by (simp add: bit_take_bit_iff)
    then have "take_bit 32 code \<noteq> 0" by auto
    then show ?thesis by (simp add: nonzero_seed_def take_bit_eq_mod)
  qed
  obtain t5 where t5: "encode_sch_hd info code = Inr t5" "length t5 = 216"
    "decode_channel (descramble_hard (xor_bits t5 e) code 216) 216 101 124 = Inr (True, info, crc16 info @ [False, False, False, False])"
    using sch_hd.decode_burst [OF assms(1) seed assms(2,3)] by blast
  note ok = decoded_ok [OF assms(1)]
  let ?x = "xor_bits t5 e"
  have lx: "length ?x = 216" using t5(2) assms(2) by simp
  have len: "length (pack_dibits True ?x) = 108" using lx by (simp add: length_pack_dibits)
  have sl: "py_slice (pre @ pack_dibits True ?x @ post) (off - 1) (off - 1 + SDB_BKN2_LEN) = pack_dibits True ?x"
    using slice_mid [of pre "pack_dibits True ?x" post] len assms(4) by (simp add: SDB_BKN2_LEN_def)
  have un: "sb1_bits_of True (pack_dibits True ?x) = ?x" using lx by (intro unpack_dibits) simp
  have d: "xor_bits ?x (scrambler_seq_sb code 216) = descramble_hard ?x code 216"
    by (simp add: descramble_hard_def scrambler_seq_sb_eq)
  have hard: "bnch_hard_path (pre @ pack_dibits True ?x @ post) (off - 1) code = Inr (pdu, Some ''dll'')"
    unfolding bnch_hard_path_def Let_def sl un d
      bnch_chain [OF t5(3), where k = "\<lambda>decoded. if crc16_check_dll_sb (take (124 + 16) decoded)
         then bind_res (parse_bnch_pdu (take 124 decoded)) (\<lambda>pdu. Inr (pdu, Some ''dll'')) else Inr (None, None)"] ok
    using len ok(2,3) assms(1,5) by (simp add: SDB_BKN2_LEN_def)
  have soft: "bnch_soft_path (spre @ map soft_of ?x @ spost) (off - 1) code = Inr (Some (pdu, Some ''soft''))"
    if s: "length spre = 2 * length pre"
  proof -
    have sp: "(off - 1) * 2 = int (length spre)" using s assms(4) by simp
    have slice: "py_slice (spre @ map soft_of ?x @ spost) (int (length spre)) (int (length spre) + 216) = map soft_of ?x"
      using slice_mid [of spre "map soft_of ?x" spost] lx by simp
    show ?thesis
      unfolding bnch_soft_path_def Let_def sp slice
        soft_chain [OF lx t5(3), where k = "\<lambda>decoded. if crc16_check_dll_sb (take (124 + 16) decoded)
         then bind_res (parse_bnch_pdu (take 124 decoded)) (\<lambda>pdu. Inr (Some (pdu, Some ''soft''))) else Inr None"] ok
      using lx ok(2,3) assms(1,5) by simp
  qed
  show ?thesis using t5(1) hard soft by (auto simp: try_decode_bnch_def Let_def)
qed

theorem bnch_decoded_witness:
  "\<exists>t5. encode_sch_hd ([False, False] @ replicate 122 True) (create_scrambler_code 901 9998 49) = Inr t5 \<and>
    try_decode_bnch (replicate 140 0 @ pack_dibits True (xor_bits t5 (replicate 216 False)) @ []) 141
      (create_scrambler_code 901 9998 49) None = Inr (Some [(''type'', VStr ''unknown''), (''mac_pdu_type'', VInt 0)], Some ''dll'')"
proof -
  let ?i = "[False, False] @ replicate 122 True"
  have p: "parse_bnch_pdu ?i = Inr (Some [(''type'', VStr ''unknown''), (''mac_pdu_type'', VInt 0)])"
    by (simp add: parse_bnch_pdu_def extract_bits_eq bits_val_Cons)
  have "length ?i = 124" "length (replicate 216 False) = 216" "burst 10 (replicate 216 False)"
    "int (length (replicate 140 (0::nat))) = 141 - 1" by (simp_all add: burst_def)
  from bnch_decoded [OF this p refl] show ?thesis by blast
qed

subsection \<open>Short blocks\<close>

lemma seq_fields_result:
  "\<forall>(k, n) \<in> set fs. 0 < n \<Longrightarrow>
   (case seq_fields bits bp fs r of
      Inl e \<Rightarrow> e = IndexError \<and> length bits < bp + sum_list (map snd fs)
    | Inr (r', bp') \<Rightarrow> (fs \<noteq> [] \<longrightarrow> bp' \<le> length bits) \<and> bp' = bp + sum_list (map snd fs))"
proof (induction fs arbitrary: bp r)
  case (Cons f fs)
  obtain k n where f: "f = (k, n)" by (cases f)
  then have n: "0 < n" using Cons.prems by auto
  show ?case
  proof (cases "bp + n \<le> length bits")
    case True
    then show ?thesis
      using Cons.IH [of "bp + n" "dset k (VInt (bits_val (take n (drop bp bits)))) r"] Cons.prems
      by (auto simp: f extract_bits_eq split: sum.splits)
  qed (use n in \<open>simp add: f extract_bits_eq\<close>)
qed simp

lemma seq_fields_cases:
  assumes "\<forall>(k, n) \<in> set fs. 0 < n" "fs \<noteq> []"
  shows "(\<exists>r'. seq_fields bits bp fs r = Inr (r', bp + sum_list (map snd fs))) \<and> bp + sum_list (map snd fs) \<le> length bits \<or>
    seq_fields bits bp fs r = Inl IndexError \<and> length bits < bp + sum_list (map snd fs)"
  using seq_fields_result [OF assms(1), of bits bp r] assms(2) by (auto split: sum.splits)

lemma bnch_sysinfo_raises: "parse_bnch_sysinfo bits = Inl e \<longleftrightarrow> e = IndexError \<and> length bits < 124"
proof -
  have s: "sum_list (map snd SYSINFO_HEAD) = 40" "sum_list (map snd SYSINFO_TAIL) = 64"
    "\<forall>(k, n) \<in> set SYSINFO_HEAD. 0 < n" "\<forall>(k, n) \<in> set SYSINFO_TAIL. 0 < n" "SYSINFO_HEAD \<noteq> []" "SYSINFO_TAIL \<noteq> []"
    by (simp_all add: SYSINFO_HEAD_def SYSINFO_TAIL_def)
  let ?r = "[(''type'', VStr ''SYSINFO'')]"
  from seq_fields_cases [OF s(3,5), of bits 4 ?r]
  consider (short) "seq_fields bits 4 SYSINFO_HEAD ?r = Inl IndexError" "length bits < 44"
    | (head) r1 where "seq_fields bits 4 SYSINFO_HEAD ?r = Inr (r1, 44)" unfolding s(1) by auto
  then show ?thesis
  proof cases
    case head
    let ?k = "if dget r1 ''HF_or_CK_flag'' = Some (VInt 0) then ''Hyperframe'' else ''CK_Identifier''"
    from seq_fields_cases [of "[(?k, 16)]" bits 44 r1]
    consider (short) "seq_fields bits 44 [(?k, 16)] r1 = Inl IndexError" "length bits < 60"
      | (mid) r2 where "seq_fields bits 44 [(?k, 16)] r1 = Inr (r2, 60)" by auto
    then show ?thesis
    proof cases
      case mid
      then show ?thesis
        using head seq_fields_cases [OF s(4,6), of bits 60 r2] unfolding s(2)
        by (auto simp: parse_bnch_sysinfo_def)
    qed (use head in \<open>auto simp: parse_bnch_sysinfo_def\<close>)
  qed (auto simp: parse_bnch_sysinfo_def)
qed

lemma bnch_access_raises:
  "parse_bnch_access bits = Inl e \<longleftrightarrow> e = IndexError \<and> (length bits < 8 \<or> bits ! 7 \<and> length bits < 29)"
proof (cases "length bits < 8")
  case True
  have "seq_fields bits 4 ACCESS_HEAD [(''type'', VStr ''ACCESS_DEFINE'')] = Inl IndexError"
    using seq_fields_cases [of ACCESS_HEAD bits 4 "[(''type'', VStr ''ACCESS_DEFINE'')]"] True
    by (simp add: ACCESS_HEAD_def)
  then show ?thesis using True by (auto simp: parse_bnch_access_def)
next
  case False
  have "take 1 (drop 7 bits) = [bits ! 7]" using False by (simp add: take_Suc_conv_app_nth [of 0 "drop 7 bits", simplified])
  then have v: "bits_val (take 1 (drop 7 bits)) = of_bool (bits ! 7)" by (simp add: bits_val_Cons)
  obtain r where h: "seq_fields bits 4 ACCESS_HEAD [(''type'', VStr ''ACCESS_DEFINE'')] = Inr (r, 8)"
      "dget r ''Random_access_flag'' = Some (VInt (of_bool (bits ! 7)))"
    using False v by (simp add: ACCESS_HEAD_def extract_bits_ok del: One_nat_def)
  have s: "sum_list (map snd ACCESS_TAIL) = 21" "\<forall>(k, n) \<in> set ACCESS_TAIL. 0 < n" "ACCESS_TAIL \<noteq> []"
    by (simp_all add: ACCESS_TAIL_def)
  show ?thesis
    using False h seq_fields_cases [OF s(2,3), of bits 8 r] unfolding s(1)
    by (cases "bits ! 7") (auto simp: parse_bnch_access_def)
qed

text \<open>Which blocks the BNCH parser rejects and how: fewer than 4 bits give no PDU; otherwise it raises
  IndexError exactly for a broadcast PDU shorter than its fields, that is a SYSINFO of fewer than 124
  bits, an ACCESS-DEFINE of fewer than 8, or of fewer than 29 when its random access flag is set; no
  other error occurs, and a full block of 124 bits always parses.\<close>

theorem bnch_parse_errors:
  "(parse_bnch_pdu bits = Inr None \<longleftrightarrow> length bits < 4) \<and>
   (parse_bnch_pdu bits = Inl err \<longleftrightarrow>
      err = IndexError \<and> 4 \<le> length bits \<and> bits ! 0 \<and> bits ! 1 = False \<and> bits ! 2 = False \<and>
      (if bits ! 3 then length bits < 8 \<or> bits ! 7 \<and> length bits < 29 else length bits < 124))"
proof (cases "length bits < 4")
  case False
  then obtain a b c d rest where bs: "bits = a # b # c # d # rest"
    by (cases bits; cases "tl bits"; cases "tl (tl bits)"; cases "tl (tl (tl bits))") auto
  have "extract_bits bits 0 2 = Inr (2 * of_bool a + of_bool b)" "extract_bits bits 2 2 = Inr (2 * of_bool c + of_bool d)"
    by (simp_all add: bs extract_bits_eq bits_val_Cons numeral_2_eq_2)
  moreover have "map_res Some x \<noteq> Inr None" "map_res Some x = Inl err \<longleftrightarrow> x = Inl err" for x :: "dict res"
    by (cases x; simp)+
  ultimately show ?thesis
    using False bnch_sysinfo_raises [of bits err] bnch_access_raises [of bits err]
    by (cases a; cases b; cases c; cases d) (simp_all add: parse_bnch_pdu_def bs)
qed (simp add: parse_bnch_pdu_def)

end
