(* ===== verification/DlOverAir.thy ===== *)
theory DlOverAir
  imports DlTracking BurstRx
begin

text \<open>
  The downlink receiver against the transmitter: bursts are put together from what the encoders of the
  generators emit, hit by errors, and given to the slot loop of \<open>decode_dl\<close> as hard values.
\<close>

subsection \<open>Bursts\<close>

text \<open>A burst as the modulator sends it, 508 bits in 254 dibits, and its two shapes: the normal burst around the
  split access assignment, and the synchronisation burst with \<open>p\<close> bits before the first block.\<close>

definition hard_burst :: "bits \<Rightarrow> burst_data" where
  "hard_burst bs = \<lparr>b_dibits = pack_dibits True bs, b_soft = map soft_of bs\<rparr>"

definition normal_burst :: "bits \<Rightarrow> bits \<Rightarrow> bits \<Rightarrow> bits \<Rightarrow> bits" where
  "normal_burst x1 bb nts x2 = replicate 12 False @ x1 @ take 14 bb @ nts @ drop 14 bb @ x2 @ replicate 12 False"

definition sync_burst :: "nat \<Rightarrow> bits \<Rightarrow> bits \<Rightarrow> bits \<Rightarrow> bits \<Rightarrow> bits" where
  "sync_burst p x1 sts bb x2 = replicate p False @ x1 @ sts @ bb @ x2 @ replicate (104 - p) False"

lemma dibits_packed: "even (length bs) \<Longrightarrow> dibits_to_bits (pack_dibits True bs) = bs"
  using unpack_dibits [of bs True] by (simp add: sb1_bits_of_def dibits_to_bits_def)

lemma pack_append: "even (length xs) \<Longrightarrow> pack_dibits True (xs @ ys) = pack_dibits True xs @ pack_dibits True ys"
  by (induction xs rule: induct_list012) simp_all

lemma block_of: "length pre = i \<Longrightarrow> length x = n \<Longrightarrow> block_at i n (pre @ x @ post) = x"
  by (simp add: block_at_def)

lemma block_map: "block_at i n (map f xs) = map f (block_at i n xs)"
  by (simp add: block_at_def take_map drop_map)

lemma block_packed:
  "even (length pre) \<Longrightarrow> even (length x) \<Longrightarrow> length pre = 2 * i \<Longrightarrow> length x = 2 * n \<Longrightarrow>
   block_at i n (pack_dibits True (pre @ x @ post)) = pack_dibits True x"
  by (simp add: pack_append block_of length_pack_dibits)

lemma soft_block: "length pre = i \<Longrightarrow> length x = n \<Longrightarrow> block_at i n (b_soft (hard_burst (pre @ x @ post))) = map soft_of x"
  by (simp only: hard_burst_def burst_data.simps block_map block_of)

lemma burst_ok_hard: "length bs = 508 \<Longrightarrow> burst_ok (hard_burst bs)"
  by (simp add: burst_ok_def hard_burst_def length_pack_dibits)

lemma length_normal_burst:
  "length x1 = 216 \<Longrightarrow> length bb = 30 \<Longrightarrow> length nts = 22 \<Longrightarrow> length x2 = 216 \<Longrightarrow> length (normal_burst x1 bb nts x2) = 508"
  by (simp add: normal_burst_def)

lemma length_sync_burst:
  "p \<le> 104 \<Longrightarrow> length x1 = 120 \<Longrightarrow> length sts = 38 \<Longrightarrow> length bb = 30 \<Longrightarrow> length x2 = 216 \<Longrightarrow> length (sync_burst p x1 sts bb x2) = 508"
  by (simp add: sync_burst_def)

subsection \<open>Reading the fields of a burst\<close>

lemma normal_fields:
  assumes "length x1 = 216" "length bb = 30" "length nts = 22" "length x2 = 216"
  defines "b \<equiv> hard_burst (normal_burst x1 bb nts x2)"
  shows "blk1 (b_soft b) = map soft_of x1" "blk2 (b_soft b) = map soft_of x2"
    and "dibits_to_bits (block_at (NDB_OFF_BB1 - 1) NDB_BB1 (b_dibits b) @ block_at (NDB_OFF_BB2 - 1) NDB_BB2 (b_dibits b)) = bb"
proof -
  let ?q = "replicate 12 False"
  show "blk1 (b_soft b) = map soft_of x1"
    using soft_block [of ?q 12 x1 216 "take 14 bb @ nts @ drop 14 bb @ x2 @ ?q"] assms(1)
    by (simp add: b_def normal_burst_def blk1_def dl_layout_defs)
  show "blk2 (b_soft b) = map soft_of x2"
    using soft_block [of "?q @ x1 @ take 14 bb @ nts @ drop 14 bb" 280 x2 216 ?q] assms(1-4)
    by (simp add: b_def normal_burst_def blk2_def dl_layout_defs)
  have 1: "block_at 114 7 (b_dibits b) = pack_dibits True (take 14 bb)"
    using block_packed [of "?q @ x1" "take 14 bb" 114 7 "nts @ drop 14 bb @ x2 @ ?q"] assms(1-4)
    by (simp add: b_def hard_burst_def normal_burst_def)
  have 2: "block_at 132 8 (b_dibits b) = pack_dibits True (drop 14 bb)"
    using block_packed [of "?q @ x1 @ take 14 bb @ nts" "drop 14 bb" 132 8 "x2 @ ?q"] assms(1-4)
    by (simp add: b_def hard_burst_def normal_burst_def)
  have "block_at 114 7 (b_dibits b) @ block_at 132 8 (b_dibits b) = pack_dibits True bb"
    unfolding 1 2 using assms(2) by (simp flip: pack_append)
  then show "dibits_to_bits (block_at (NDB_OFF_BB1 - 1) NDB_BB1 (b_dibits b) @ block_at (NDB_OFF_BB2 - 1) NDB_BB2 (b_dibits b)) = bb"
    using assms(2) by (simp add: dl_layout_defs dibits_packed)
qed

lemma sync_fields:
  assumes "l \<in> set LAYOUTS_DL" "length x1 = 120" "length sts = 38" "length bb = 30" "length x2 = 216"
  defines "b \<equiv> hard_burst (sync_burst ((off_sb1 l - 1) * 2) x1 sts bb x2)"
  shows "block_at (nat ((int (off_sb1 l) - 1) * 2)) (SDB_SB1 * 2) (b_soft b) = map soft_of x1"
    and "bkn2_soft l b = map soft_of x2"
    and "dibits_to_bits (block_at (off_bb l - 1) SDB_BB (b_dibits b)) = bb"
proof -
  let ?p = "(off_sb1 l - 1) * 2"
  let ?q = "replicate ?p False" and ?r = "replicate (104 - ?p) False"
  have l: "1 \<le> off_sb1 l" "nat ((int (off_sb1 l) - 1) * 2) = ?p" "(off_bb l - 1) = off_sb1 l - 1 + 79" "(off_bkn2 l - 1) * 2 = ?p + 188"
    using layout_cases [OF assms(1)] by auto
  show "block_at (nat ((int (off_sb1 l) - 1) * 2)) (SDB_SB1 * 2) (b_soft b) = map soft_of x1"
    using soft_block [of ?q ?p x1 120 "sts @ bb @ x2 @ ?r"] assms(2)
    unfolding l(2) b_def sync_burst_def SDB_SB1_def by simp
  show "bkn2_soft l b = map soft_of x2"
    using soft_block [of "?q @ x1 @ sts @ bb" "?p + 188" x2 216 ?r] assms(2-5)
    unfolding l(4) bkn2_soft_def b_def sync_burst_def SDB_BKN2_def by simp
  have "block_at (off_sb1 l - 1 + 79) 15 (b_dibits b) = pack_dibits True bb"
    using block_packed [of "?q @ x1 @ sts" bb "off_sb1 l - 1 + 79" 15 "x2 @ ?r"] assms(2-5)
    by (simp add: b_def hard_burst_def sync_burst_def)
  then show "dibits_to_bits (block_at (off_bb l - 1) SDB_BB (b_dibits b)) = bb"
    unfolding l(3) SDB_BB_def using dibits_packed [of bb] assms(4) by simp
qed

subsection \<open>Decoding what was sent\<close>

lemma decode_block_hard:
  assumes "length r = K" "K < 10 ^ 8" "decode_channel (descramble_hard r init K) K a n = Inr (ok, info, dec)"
  shows "decode_block (map soft_of r) init K a n = Inr (ok, info)"
proof -
  have "descramble_soft (map soft_of r) init K = Inr (map soft_of (descramble_hard r init K))"
    using descramble_soft_hard [of r init] assms(1) by simp
  then show ?thesis using decode_channel_soft_hard [OF assms(2)] assms(3) by (simp add: decode_block_def)
qed

lemma schf_block:
  assumes "length info = 268" "nonzero_seed init" "length e = 432" "burst 10 e" "encode_sch_f info init = Inr t5"
  shows "length t5 = 432 \<and> decode_block (map soft_of (xor_bits t5 e)) init 432 103 268 = Inr (True, info)"
proof -
  have t5: "length t5 = 432" "decode_channel (descramble_hard (xor_bits t5 e) init 432) 432 103 268 =
      Inr (True, info, crc16 info @ [False, False, False, False])"
    using sch_f.decode_burst [OF assms(1-4)] assms(5) by auto
  then show ?thesis using decode_block_hard [OF _ _ t5(2)] assms(3) by simp
qed

lemma half_block:
  assumes "length info = 124" "nonzero_seed init" "length e = 216" "burst 10 e" "encode_sch_hd info init = Inr t5"
  shows "length t5 = 216 \<and> decode_block (map soft_of (xor_bits t5 e)) init 216 101 124 = Inr (True, info)"
proof -
  have t5: "length t5 = 216" "decode_channel (descramble_hard (xor_bits t5 e) init 216) 216 101 124 =
      Inr (True, info, crc16 info @ [False, False, False, False])"
    using sch_hd.decode_burst [OF assms(1-4)] assms(5) by auto
  then show ?thesis using decode_block_hard [OF _ _ t5(2)] assms(3) by simp
qed

lemma sync_block:
  assumes "build_pdu cfg t f m = Inr pdu" "length e = 120" "burst 10 e" "sw_encode_bsch cfg t f m = Inr t5"
  shows "length t5 = 120 \<and> decode_block (map soft_of (xor_bits t5 e)) 3 120 11 60 = Inr (True, pdu)"
proof -
  have t5: "length t5 = 120" "decode_channel (descramble_hard (xor_bits t5 e) 3 120) 120 11 60 =
      Inr (True, pdu, crc16 pdu @ [False, False, False, False])"
    using bsch.decode_burst [OF length_build_pdu [OF assms(1)] refl assms(2,3)] assms(1,4)
    by (auto simp: sw_encode_bsch_def)
  then show ?thesis using decode_block_hard [OF _ _ t5(2)] assms(2) by simp
qed

lemma cell_seed: "nonzero_seed (make_scramb_code mcc mnc cc)"
  using make_scramb_code_range [of mcc mnc cc] by (auto simp: nonzero_seed_def)

lemma aach_block:
  assumes "encode_aach f cc mcc mnc = Inr v" "length e = 30" "weight e \<le> 3"
  shows "aach_items (xor_bits (to_bits 30 v) e) (make_scramb_code mcc mnc cc) =
    Inr [AachItem (parse_aach (if f = 17 then 0x40 else 0x3000)) (weight e)]"
  using aach_received [OF assms] assms(2) by (simp add: aach_items_def descramble_hard_def)

lemma half1_sch:
  "mac_items cmce mm ''  BKN1 SCH/HD'' ''    BKN1 '' info = Inr its \<Longrightarrow> half1_items cmce mm (True, info) st = Inr (its, st)"
  by (simp add: half1_items_def)

lemma half2_sch:
  "\<not> (tn (clock st) = 1 \<and> fn (clock st) = 18) \<Longrightarrow> mac_items cmce mm ''  BKN2 SCH/HD'' ''    BKN2 '' info = Inr its \<Longrightarrow>
   half2_items cmce mm (True, info) st = Inr (its, st)"
  unfolding half2_items_def Let_def by (simp only: if_False fst_conv snd_conv if_True append.simps bind_res_simps)

lemma half2_bnch:
  "tn (clock st) = 1 \<and> fn (clock st) = 18 \<Longrightarrow> parse_sysinfo_sb info = Inr si \<Longrightarrow>
   half2_items cmce mm (True, info) st = Inr ([BnchItem si], st)"
  by (simp add: half2_items_def)

lemma ndb2_both:
  assumes "decode_halves (b_soft b) (scramb st) = Inr ((True, i1), True, i2)"
    and "half1_items cmce mm (True, i1) (st\<lparr>n_ndb_ok := n_ndb_ok st + 1\<rparr>) = Inr (it1, st1)"
    and "half2_items cmce mm (True, i2) st1 = Inr (it2, st2)"
  shows "ndb2_blocks cmce mm inp b st = Inr (it1 @ it2, st2)"
  using assms by (simp add: ndb2_blocks_def)

subsection \<open>Slots\<close>

text \<open>C7. A normal burst over the air: whatever 268 information bits the base station sends on SCH/F with
  either of the two access assignments of the reference transmitter (\<open>encode_aach\<close>), and with up to 10 consecutive bits of the block and any three of the assignment flipped, a
  receiver that holds the cell's code reports the decoded assignment and what the MAC, LLC and MLE parsers make of exactly
  these bits, counts the burst as good and moves one slot on.\<close>

theorem normal_burst_reported:
  assumes "length info = 268" "encode_sch_f info (make_scramb_code mcc mnc cc) = Inr t5" "length e = 432" "burst 10 e"
    and "encode_aach f cc mcc mnc = Inr v" "length e' = 30" "weight e' \<le> 3" "length nts = 22"
    and "classify inp = Some (corr, ''NDB1'', hard_burst (normal_burst (take 216 (xor_bits t5 e)) (xor_bits (to_bits 30 v) e') nts
      (drop 216 (xor_bits t5 e))))"
    and "scramb st = make_scramb_code mcc mnc cc" "mac_items cmce mm ''  SCH/F'' ''    '' info = Inr its"
  shows "slot_step cmce mm flt l inp st =
    Inr (Header ''NDB1'' (clock st) corr # AachItem (parse_aach (if f = 17 then 0x40 else 0x3000)) (weight e') # its,
      finish (st\<lparr>n_ndb_ok := n_ndb_ok st + 1\<rparr>))"
proof -
  note d = schf_block [OF assms(1) cell_seed assms(3,4,2)]
  let ?x = "xor_bits t5 e" and ?bb = "xor_bits (to_bits 30 v) e'"
  have len: "length (take 216 ?x) = 216" "length ?bb = 30" "length (drop 216 ?x) = 216" using d assms(3,6) by simp_all
  note fields = normal_fields [OF len(1,2) assms(8) len(3)]
  let ?b = "hard_burst (normal_burst (take 216 ?x) ?bb nts (drop 216 ?x))"
  have "blk1 (b_soft ?b) @ blk2 (b_soft ?b) = map soft_of ?x" unfolding fields(1,2) by (simp flip: map_append)
  then have 1: "ndb1_blocks cmce mm ?b st = Inr (its, st\<lparr>n_ndb_ok := n_ndb_ok st + 1\<rparr>)"
    using d assms(10,11) by (simp add: ndb1_blocks_def)
  have 2: "ndb_aach ?b (scramb st) = Inr [AachItem (parse_aach (if f = 17 then 0x40 else 0x3000)) (weight e')]"
    unfolding ndb_aach_def fields(3) assms(10) by (rule aach_block [OF assms(5-7)])
  show ?thesis by (simp add: slot_step_def assms(9) ndb_slot_def 1 2)
qed

text \<open>Two half slots over the air: each block of the burst carries its own 124 bits, and each is reported as what the parsers
  make of exactly its bits, in every slot but the first of frame 18.\<close>

theorem half_slots_reported:
  assumes "length info1 = 124" "encode_sch_hd info1 (make_scramb_code mcc mnc cc) = Inr x1" "length e1 = 216" "burst 10 e1"
    and "length info2 = 124" "encode_sch_hd info2 (make_scramb_code mcc mnc cc) = Inr x2" "length e2 = 216" "burst 10 e2"
    and "encode_aach f cc mcc mnc = Inr v" "length e' = 30" "weight e' \<le> 3" "length nts = 22"
    and "classify inp = Some (corr, ''NDB2'', hard_burst (normal_burst (xor_bits x1 e1) (xor_bits (to_bits 30 v) e') nts (xor_bits x2 e2)))"
    and "scramb st = make_scramb_code mcc mnc cc" "\<not> (tn (clock st) = 1 \<and> fn (clock st) = 18)"
    and "mac_items cmce mm ''  BKN1 SCH/HD'' ''    BKN1 '' info1 = Inr its1" "mac_items cmce mm ''  BKN2 SCH/HD'' ''    BKN2 '' info2 = Inr its2"
  shows "slot_step cmce mm flt l inp st =
    Inr (Header ''NDB2'' (clock st) corr # AachItem (parse_aach (if f = 17 then 0x40 else 0x3000)) (weight e') # its1 @ its2,
      finish (st\<lparr>n_ndb_ok := n_ndb_ok st + 1\<rparr>))"
proof -
  note d1 = half_block [OF assms(1) cell_seed assms(3,4,2)] and d2 = half_block [OF assms(5) cell_seed assms(7,8,6)]
  let ?bb = "xor_bits (to_bits 30 v) e'"
  have len: "length (xor_bits x1 e1) = 216" "length ?bb = 30" "length (xor_bits x2 e2) = 216"
    using d1 d2 assms(3,7,10) by simp_all
  note fields = normal_fields [OF len(1,2) assms(12) len(3)]
  let ?b = "hard_burst (normal_burst (xor_bits x1 e1) ?bb nts (xor_bits x2 e2))"
  have h: "decode_halves (b_soft ?b) (scramb st) = Inr ((True, info1), True, info2)"
    unfolding decode_halves_def fields(1,2) assms(14) using d1 d2 by simp
  have 1: "ndb2_blocks cmce mm inp ?b st = Inr (its1 @ its2, st\<lparr>n_ndb_ok := n_ndb_ok st + 1\<rparr>)"
    by (rule ndb2_both [OF h half1_sch [OF assms(16)] half2_sch [OF _ assms(17)]]) (use assms(15) in simp)
  have 2: "ndb_aach ?b (scramb st) = Inr [AachItem (parse_aach (if f = 17 then 0x40 else 0x3000)) (weight e')]"
    unfolding ndb_aach_def fields(3) assms(14) by (rule aach_block [OF assms(9-11)])
  show ?thesis by (simp add: slot_step_def assms(13) ndb_slot_def 1 2)
qed

text \<open>In the first slot of frame 18 the second half slot is never parsed as a MAC PDU: its bits, which the base
  station broadcasts as SYSINFO, are read with the field layout of the SYNC PDU of the first block, whatever
  they are; and only in every fourth multiframe is that slot the BNCH slot of the clock.\<close>

theorem bnch_slot_misread:
  assumes "length info1 = 124" "encode_sch_hd info1 (make_scramb_code mcc mnc cc) = Inr x1" "length e1 = 216" "burst 10 e1"
    and "length info2 = 124" "encode_sch_hd info2 (make_scramb_code mcc mnc cc) = Inr x2" "length e2 = 216" "burst 10 e2"
    and "encode_aach f cc mcc mnc = Inr v" "length e' = 30" "weight e' \<le> 3" "length nts = 22"
    and "classify inp = Some (corr, ''NDB2'', hard_burst (normal_burst (xor_bits x1 e1) (xor_bits (to_bits 30 v) e') nts (xor_bits x2 e2)))"
    and "scramb st = make_scramb_code mcc mnc cc" "tn (clock st) = 1 \<and> fn (clock st) = 18"
    and "mac_items cmce mm ''  BKN1 SCH/HD'' ''    BKN1 '' info1 = Inr its1"
  shows "(\<exists>si. parse_sysinfo_sb info2 = Inr si \<and> slot_step cmce mm flt l inp st =
      Inr (Header ''NDB2'' (clock st) corr # AachItem (parse_aach (if f = 17 then 0x40 else 0x3000)) (weight e') # its1 @ [BnchItem si],
        finish (st\<lparr>n_ndb_ok := n_ndb_ok st + 1\<rparr>))) \<and>
    (is_bnch (clock st) \<longleftrightarrow> mn (clock st) mod 4 = 0)"
proof -
  note d1 = half_block [OF assms(1) cell_seed assms(3,4,2)] and d2 = half_block [OF assms(5) cell_seed assms(7,8,6)]
  let ?bb = "xor_bits (to_bits 30 v) e'"
  have len: "length (xor_bits x1 e1) = 216" "length ?bb = 30" "length (xor_bits x2 e2) = 216"
    using d1 d2 assms(3,7,10) by simp_all
  note fields = normal_fields [OF len(1,2) assms(12) len(3)]
  let ?b = "hard_burst (normal_burst (xor_bits x1 e1) ?bb nts (xor_bits x2 e2))"
  have h: "decode_halves (b_soft ?b) (scramb st) = Inr ((True, info1), True, info2)"
    unfolding decode_halves_def fields(1,2) assms(14) using d1 d2 by simp
  obtain si where si: "parse_sysinfo_sb info2 = Inr si" using beacon_returns [of info2] assms(5) by auto
  have 1: "ndb2_blocks cmce mm inp ?b st = Inr (its1 @ [BnchItem si], st\<lparr>n_ndb_ok := n_ndb_ok st + 1\<rparr>)"
    by (rule ndb2_both [OF h half1_sch [OF assms(16)] half2_bnch [OF _ si]]) (use assms(15) in simp)
  have 2: "ndb_aach ?b (scramb st) = Inr [AachItem (parse_aach (if f = 17 then 0x40 else 0x3000)) (weight e')]"
    unfolding ndb_aach_def fields(3) assms(14) by (rule aach_block [OF assms(9-11)])
  have 3: "is_bnch (clock st) \<longleftrightarrow> mn (clock st) mod 4 = 0" using assms(15) unfolding is_bnch_def by presburger
  show ?thesis using si 3 by (simp add: slot_step_def assms(13) ndb_slot_def 1 2)
qed

text \<open>The first block of a synchronisation burst, whatever the others hold.\<close>

lemma sync_beacon:
  assumes "0 \<le> system_code cfg" "system_code cfg < 8" "0 \<le> colour_code cfg" "colour_code cfg < 64"
    and "0 \<le> t" "t < 4" "1 \<le> f" "f \<le> 18" "1 \<le> m" "m \<le> 60"
    and "0 \<le> cfg_mcc cfg" "cfg_mcc cfg < 1024" "0 \<le> cfg_mnc cfg" "cfg_mnc cfg < 16384"
    and "sw_encode_bsch cfg t f m = Inr s5" "length e1 = 120" "burst 10 e1"
    and "length sts = 38" "length bb = 30" "length x2 = 216" "l \<in> set LAYOUTS_DL"
  defines "b \<equiv> hard_burst (sync_burst ((off_sb1 l - 1) * 2) (xor_bits s5 e1) sts bb x2)"
  shows "burst_ok b \<and> bkn2_soft l b = map soft_of x2 \<and>
    dibits_to_bits (block_at (off_bb l - 1) SDB_BB (b_dibits b)) = bb \<and>
    \<not> length (b_soft b) < (off_bkn2 l - 1) * 2 + SDB_BKN2 * 2 \<and> \<not> length (b_dibits b) < off_bb l - 1 + SDB_BB \<and>
    (\<exists>pdu si. decode_sb1 l inp b corr = Inr (True, Some pdu, b, corr) \<and> parse_sysinfo_sb pdu = Inr si \<and>
      dget si ''Mode'' = Some (VStr ''TMO'') \<and> dget si ''ColourCode'' = Some (VInt (colour_code cfg)) \<and>
      dget si ''MCC'' = Some (VInt (cfg_mcc cfg)) \<and> dget si ''MNC'' = Some (VInt (cfg_mnc cfg)) \<and>
      int_field si ''Frame'' = Inr f \<and> (\<forall>nt. sync_clock si nt = synchronize t f m nt))"
proof -
  have f: "f < 32" "m < 64" "0 \<le> f" "0 \<le> m" using assms by auto
  obtain pdu si where pdu: "build_pdu cfg t f m = Inr pdu" "length pdu = 60" "parse_sysinfo_sb pdu = Inr si"
    "dget si ''Mode'' = Some (VStr ''TMO'')" "dget si ''ColourCode'' = Some (VInt (colour_code cfg))"
    "dget si ''MCC'' = Some (VInt (cfg_mcc cfg))" "dget si ''MNC'' = Some (VInt (cfg_mnc cfg))"
    "sync_to_air si = (VInt t, VInt f, VInt m)"
    using sync_pdu_roundtrip [OF assms(1-6) f(3,1,4,2) assms(11-14)] by blast
  have time: "dget_default si ''TimeSlot'' (VInt 0) = VInt t" "dget_default si ''Frame'' (VInt 0) = VInt f"
    "dget_default si ''MultiFrame'' (VInt 0) = VInt m" using pdu(8) by (simp_all add: sync_to_air_def)
  have clk: "\<forall>nt. sync_clock si nt = synchronize t f m nt" using time by (simp add: sync_clock_def int_or_0_def)
  have "dget si ''Frame'' = Some (VInt f)"
    using pdu(3) time(2) beacon_returns [of pdu] pdu(2)
    by (auto simp: dget_default_def dget_def int_field_def split: option.splits pyval.splits)
  then have frame: "int_field si ''Frame'' = Inr f" by (simp add: int_field_def)
  note sb = sync_block [OF pdu(1) assms(16,17,15)]
  have len: "length (xor_bits s5 e1) = 120" using sb assms(16) by simp
  note fields = sync_fields [OF assms(21) len assms(18-20), folded b_def]
  have bok: "burst_ok b"
    unfolding b_def by (rule burst_ok_hard, rule length_sync_burst) (use layout_cases [OF assms(21)] len assms(18-20) in auto)
  have "try_sb1_decode l b = Inr (True, Some pdu)"
    using layout_cases [OF assms(21)] bok sb
    unfolding try_sb1_decode_def Let_def fields(1) by (auto simp: burst_ok_def SDB_SB1_def)
  then have "decode_sb1 l inp b corr = Inr (True, Some pdu, b, corr)" by (simp add: decode_sb1_def)
  moreover have "\<not> length (b_soft b) < (off_bkn2 l - 1) * 2 + SDB_BKN2 * 2" "\<not> length (b_dibits b) < off_bb l - 1 + SDB_BB"
    using layout_cases [OF assms(21)] bok by (auto simp: burst_ok_def SDB_BKN2_def SDB_BB_def)
  ultimately show ?thesis using pdu(3-7) bok fields(2,3) frame clk by blast
qed

lemma sync_slot:
  assumes "0 \<le> system_code cfg" "system_code cfg < 8" "0 \<le> colour_code cfg" "colour_code cfg < 64"
    and "0 \<le> t" "t < 4" "1 \<le> f" "f \<le> 18" "1 \<le> m" "m \<le> 60"
    and "0 \<le> cfg_mcc cfg" "cfg_mcc cfg < 1024" "0 \<le> cfg_mnc cfg" "cfg_mnc cfg < 16384"
    and "want_mcc flt \<in> {None, Some (cfg_mcc cfg)}" "want_mnc flt \<in> {None, Some (cfg_mnc cfg)}" "want_cc flt \<in> {None, Some (colour_code cfg)}"
    and "sw_encode_bsch cfg t f m = Inr s5" "length e1 = 120" "burst 10 e1"
    and "length info = 124" "encode_sch_hd info (make_scramb_code (cfg_mcc cfg) (cfg_mnc cfg) (colour_code cfg)) = Inr x2"
      "length e2 = 216" "burst 10 e2"
    and "encode_aach g (colour_code cfg) (cfg_mcc cfg) (cfg_mnc cfg) = Inr v" "length e' = 30" "weight e' \<le> 3" "length sts = 38"
    and "l \<in> set LAYOUTS_DL"
    and "classify inp = Some (corr, ''SB'', hard_burst (sync_burst ((off_sb1 l - 1) * 2) (xor_bits s5 e1) sts (xor_bits (to_bits 30 v) e')
      (xor_bits x2 e2)))"
  shows "\<exists>si mac. parse_mac_pdu info = Inr mac \<and> slot_step cmce mm flt l inp st =
    Inr ([Header ''SB'' (clock st) corr, SbOk si (synchronize t f m (clock st)), MacItem ''  BKN2'' mac,
        AachItem (parse_aach (if g = 17 then 0x40 else 0x3000)) (weight e')],
      finish (st\<lparr>n_sb_ok := n_sb_ok st + 1, cell := (cfg_mcc cfg, cfg_mnc cfg, colour_code cfg),
        scramb := make_scramb_code (cfg_mcc cfg) (cfg_mnc cfg) (colour_code cfg), fn_var := Some f,
        clock := synchronize t f m (clock st)\<rparr>))"
proof -
  let ?init = "make_scramb_code (cfg_mcc cfg) (cfg_mnc cfg) (colour_code cfg)"
  have len: "length (xor_bits (to_bits 30 v) e') = 30" "length (xor_bits x2 e2) = 216"
    using half_block [OF assms(21) cell_seed assms(23,24,22)] assms(23,26) by simp_all
  let ?b = "hard_burst (sync_burst ((off_sb1 l - 1) * 2) (xor_bits s5 e1) sts (xor_bits (to_bits 30 v) e') (xor_bits x2 e2))"
  note beacon = sync_beacon [OF assms(1-14,18-20,28) len assms(29), of inp corr]
  note fields = beacon [THEN conjunct2, THEN conjunct1] beacon [THEN conjunct2, THEN conjunct2, THEN conjunct1]
  note fit = beacon [THEN conjunct2, THEN conjunct2, THEN conjunct2, THEN conjunct1]
    beacon [THEN conjunct2, THEN conjunct2, THEN conjunct2, THEN conjunct2, THEN conjunct1]
  from beacon obtain pdu si where 1: "decode_sb1 l inp ?b corr = Inr (True, Some pdu, ?b, corr)" and pdu: "parse_sysinfo_sb pdu = Inr si"
    "dget si ''Mode'' = Some (VStr ''TMO'')" "dget si ''ColourCode'' = Some (VInt (colour_code cfg))"
    "dget si ''MCC'' = Some (VInt (cfg_mcc cfg))" "dget si ''MNC'' = Some (VInt (cfg_mnc cfg))"
    and frame: "int_field si ''Frame'' = Inr f" and clk: "\<And>nt. sync_clock si nt = synchronize t f m nt" by blast
  have "want_mcc flt = None \<or> dget si ''MCC'' = map_option VInt (want_mcc flt)"
    using assms(15) pdu(4) by (elim insertE emptyE) simp_all
  moreover have "want_mnc flt = None \<or> dget si ''MNC'' = map_option VInt (want_mnc flt)"
    using assms(16) pdu(5) by (elim insertE emptyE) simp_all
  moreover have "want_cc flt = None \<or> dget si ''ColourCode'' = map_option VInt (want_cc flt)"
    using assms(17) pdu(3) by (elim insertE emptyE) simp_all
  ultimately have cell: "cell_matches si (want_mcc flt) (want_mnc flt) (want_cc flt)"
    unfolding cell_matches_def pdu(2) by (elim disjE) simp_all
  have adopt: "adopt_cell si = Inr ((cfg_mcc cfg, cfg_mnc cfg, colour_code cfg), ?init)"
    by (rule matched_cell) (use pdu(2-5) in \<open>simp add: cell_matches_def\<close>)
  let ?st = "st\<lparr>n_sb_ok := n_sb_ok st + 1, cell := (cfg_mcc cfg, cfg_mnc cfg, colour_code cfg), scramb := ?init, fn_var := Some f,
      clock := synchronize t f m (clock st)\<rparr>"
  have 2: "sb_identity flt si (st\<lparr>n_sb_ok := n_sb_ok st + 1\<rparr>) = Inr ([SbOk si (synchronize t f m (clock st))], ?st)"
    using cell by (simp add: sb_identity_def adopt frame clk Let_def)
  obtain mac where mac: "parse_mac_pdu info = Inr mac" using mac_returns by blast
  have 3: "bkn2_step cmce mm l inp ?b si ?st = Inr ([MacItem ''  BKN2'' mac], ?st)"
    unfolding bkn2_step_def fields(1) using half_block [OF assms(21) cell_seed assms(23,24,22)] mac by simp
  have 4: "aach_items (dibits_to_bits (block_at (off_bb l - 1) SDB_BB (b_dibits ?b))) (scramb ?st) =
      Inr [AachItem (parse_aach (if g = 17 then 0x40 else 0x3000)) (weight e')]"
    unfolding fields(2) using aach_block [OF assms(25-27)] by simp
  have "sb_slot cmce mm flt l inp ?b corr st = Inr ([Header ''SB'' (clock st) corr, SbOk si (synchronize t f m (clock st)),
      MacItem ''  BKN2'' mac, AachItem (parse_aach (if g = 17 then 0x40 else 0x3000)) (weight e')], finish ?st)"
    unfolding sb_slot_def 1 bind_res_simps prod.case Let_def option.case pdu(1) 2 3 if_not_P [OF fit(1)] if_not_P [OF fit(2)] 4
    by simp
  then show ?thesis using mac by (simp add: slot_step_def assms(30))
qed


lemma quiet_air: "spaced 0 (replicate n False)"
  by (induction n) simp_all

text \<open>Any 140 bits, with a right or a wrong checksum, can be on the air.\<close>

lemma any_block:
  assumes "length us = 140"
  shows "\<exists>x. length x = 216 \<and> decode_block (map soft_of x) init 216 101 124 = Inr (crc16_check_dll us, take 124 us)"
proof -
  let ?us = "us @ [False, False, False, False]"
  let ?c = "code_path 0 True ?us"
  have c: "length ?c = 216" using assms by (simp add: length_code_path)
  obtain y where y: "interleave_sch_hd ?c = Inr y" "length y = 216" "deinterleave_perm y 216 101 = Inr ?c"
    using hd_ilv.dil_ilv [OF c] by blast
  let ?x = "dl_ks.mask_with init y"
  have d: "descramble_hard ?x init 216 = y"
    using y(2) by (simp add: descramble_hard_mask dl_ks.mask_length dl_ks.mask_mask)
  have n: "xor_bits ?c (replicate 216 False) = ?c" using c by (intro nth_equalityI) simp_all
  have dep: "depuncture_r23 ?c (8 * 72) = Inr (depunct8 ?c)" by (rule depuncture_r23_eq) (simp only: c)
  have "viterbi_r14 (depunct8 (xor_bits ?c (replicate 216 False))) = ?us"
    by (rule viterbi_corrects [where k = 72 and t = 0, OF _ sch_hd.tail_run]) (use assms quiet_air in simp_all)
  then have v: "viterbi_r14 (depunct8 ?c) = ?us" unfolding n .
  have "decode_channel (descramble_hard ?x init 216) 216 101 124 = Inr (crc16_check_dll us, take 124 us, ?us)"
    using assms unfolding decode_channel_def d y(3) bind_res_simps Let_def c
    by (simp add: dep [simplified] v)
  then have "decode_block (map soft_of ?x) init 216 101 124 = Inr (crc16_check_dll us, take 124 us)"
    by (intro decode_block_hard) (simp_all add: y(2) dl_ks.mask_length)
  then show ?thesis using y(2) by (intro exI [of _ ?x]) (simp add: dl_ks.mask_length)
qed

subsection \<open>A beacon of another cell\<close>

text \<open>C15. With a cell filter, a beacon of another cell received before the first beacon of the wanted cell ends the
  run: the slot raises \<open>UnboundLocalError\<close> exactly when its second block passes with the wanted cell's code neither in the
  burst nor in a retry, because the failure branch reads the frame number that only a beacon of the wanted cell sets.\<close>

theorem foreign_beacon_raises:
  assumes "0 \<le> system_code cfg" "system_code cfg < 8" "0 \<le> colour_code cfg" "colour_code cfg < 64"
    and "0 \<le> t" "t < 4" "1 \<le> f" "f \<le> 18" "1 \<le> m" "m \<le> 60"
    and "0 \<le> cfg_mcc cfg" "cfg_mcc cfg < 1024" "0 \<le> cfg_mnc cfg" "cfg_mnc cfg < 16384"
    and "(wm, wn, wc) \<noteq> (cfg_mcc cfg, cfg_mnc cfg, colour_code cfg)"
    and "sw_encode_bsch cfg t f m = Inr s5" "length e1 = 120" "burst 10 e1"
    and "length sts = 38" "length bb = 30" "length x2 = 216" "l \<in> set LAYOUTS_DL" "fn_var st = None" "input_ok inp"
    and "classify inp = Some (corr, ''SB'', hard_burst (sync_burst ((off_sb1 l - 1) * 2) (xor_bits s5 e1) sts bb x2))"
  shows "slot_step cmce mm \<lparr>want_mcc = Some wm, want_mnc = Some wn, want_cc = Some wc\<rparr> l inp st = Inl UnboundLocalError \<longleftrightarrow>
    (\<exists>i. decode_block (map soft_of x2) (scramb st) 216 101 124 = Inr (False, i)) \<and>
    retry_bkn2 l (scramb st) (bkn2_retries inp) = Inr None"
proof -
  let ?b = "hard_burst (sync_burst ((off_sb1 l - 1) * 2) (xor_bits s5 e1) sts bb x2)"
  let ?flt = "\<lparr>want_mcc = Some wm, want_mnc = Some wn, want_cc = Some wc\<rparr>"
  note beacon = sync_beacon [OF assms(1-14,16-22), of inp corr]
  note fields = beacon [THEN conjunct2, THEN conjunct1] beacon [THEN conjunct2, THEN conjunct2, THEN conjunct1]
  note fit = beacon [THEN conjunct2, THEN conjunct2, THEN conjunct2, THEN conjunct1]
    beacon [THEN conjunct2, THEN conjunct2, THEN conjunct2, THEN conjunct2, THEN conjunct1]
  from beacon obtain pdu si where 1: "decode_sb1 l inp ?b corr = Inr (True, Some pdu, ?b, corr)" and pdu: "parse_sysinfo_sb pdu = Inr si"
    "dget si ''Mode'' = Some (VStr ''TMO'')" "dget si ''ColourCode'' = Some (VInt (colour_code cfg))"
    "dget si ''MCC'' = Some (VInt (cfg_mcc cfg))" "dget si ''MNC'' = Some (VInt (cfg_mnc cfg))" by blast
  let ?st = "st\<lparr>n_sb_ok := n_sb_ok st + 1\<rparr>"
  have "\<not> cell_matches si (Some wm) (Some wn) (Some wc)" using assms(15) pdu(2-5) by (auto simp: cell_matches_def)
  then have 2: "sb_identity ?flt si ?st = Inr ([SbForeign si], ?st)" by (simp add: sb_identity_def)
  obtain it3 where 4: "aach_items (dibits_to_bits (block_at (off_bb l - 1) SDB_BB (b_dibits ?b))) (scramb st) = Inr it3"
    unfolding fields(2) using aach_returns [OF assms(20)] by blast
  have step: "slot_step cmce mm ?flt l inp st = bind_res (bkn2_step cmce mm l inp ?b si ?st) (\<lambda>(it2, st').
      bind_res (aach_items (dibits_to_bits (block_at (off_bb l - 1) SDB_BB (b_dibits ?b))) (scramb st')) (\<lambda>it3.
        Inr (Header ''SB'' (clock st) corr # SbForeign si # it2 @ it3, finish st')))"
    unfolding slot_step_def assms(25) option.case prod.case sb_slot_def 1 bind_res_simps Let_def pdu(1) 2 if_not_P [OF fit(1)]
      if_not_P [OF fit(2)] by simp
  have rs: "list_all (pred_option burst_ok) (bkn2_retries inp)" using assms(24) by (simp add: input_ok_def)
  obtain ok i where d: "decode_block (map soft_of x2) (scramb st) 216 101 124 = Inr (ok, i)"
    using half_block_returns [of "map soft_of x2" "scramb st"] assms(21) by auto
  obtain r where r: "retry_bkn2 l (scramb st) (bkn2_retries inp) = Inr r" using retry_bkn2_returns [OF assms(22) rs] by blast
  have same: "scramb ?st = scramb st" "fn_var (?st\<lparr>bad_quarters := bad_quarters ?st + 2\<rparr>) = None" using assms(23) by simp_all
  show ?thesis
  proof (cases "ok \<or> r \<noteq> None")
    case True
    then obtain i' where g: "(if ok then Inr (Some i) else Inr r) = (Inr (Some i') :: bits option res)" by (cases ok) auto
    obtain mac where mac: "parse_mac_pdu i' = Inr mac" using mac_returns by blast
    have "bkn2_step cmce mm l inp ?b si ?st = Inr ([MacItem ''  BKN2'' mac], ?st)"
      unfolding bkn2_step_def same(1) fields(1) d r bind_res_simps prod.case g option.case mac ..
    then show ?thesis using step 4 True d r by auto
  next
    case False
    then have g: "(if ok then Inr (Some i) else Inr r) = (Inr None :: bits option res)" by simp
    have "bkn2_step cmce mm l inp ?b si ?st = Inl UnboundLocalError"
      unfolding bkn2_step_def same(1) fields(1) d r bind_res_simps prod.case g option.case Let_def same(2) ..
    then show ?thesis using step False d r by auto
  qed
qed

subsection \<open>The clock follows the network\<close>

text \<open>C10. The receiver's clock is the network's: when every accepted beacon carries the network's time for its slot,
  every slot after the first of them is labelled with the network's timeslot, frame and multiframe, through
  slots that are empty, fail or hold beacons of other cells, and the final time is that of the slot after the last, whatever
  time the receiver started with.\<close>

theorem clock_follows_network:
  assumes "slot_loop cmce mm flt l inps st = Inr (its, st')" "list_all input_ok inps" "l \<in> set LAYOUTS_DL"
    and "beacons_true k its" "its = pre @ it # post" "SbOk si nt \<in> set it"
  shows "labels_true (k + int (length pre) + 1) post \<and> on_time (k + int (length its)) (clock st')"
  using clock_kept [OF assms(1)] assms(2-6) by blast

subsection \<open>Instances\<close>

definition slot_of :: "string \<Rightarrow> burst_data \<Rightarrow> slot_input" where
  "slot_of name b = \<lparr>in_sb = (if name = ''SB'' then Some b else None, 1), in_ndb1 = (if name = ''NDB1'' then Some b else None, 1),
     in_ndb2 = (if name = ''NDB2'' then Some b else None, 1), sb1_retries = [], bkn2_retries = [], ndb2_retries = []\<rparr>"

lemma classify_slot_of:
  "classify (slot_of ''SB'' b) = Some (1, ''SB'', b)" "classify (slot_of ''NDB1'' b) = Some (1, ''NDB1'', b)"
  "classify (slot_of ''NDB2'' b) = Some (1, ''NDB2'', b)"
  by (simp_all add: classify_def candidates_def candidate_of_def slot_of_def MIN_SB_CORR_def MIN_NDB_CORR_def)

definition empty_input :: slot_input where
  "empty_input = \<lparr>in_sb = (None, 0), in_ndb1 = (None, 0), in_ndb2 = (None, 0), sb1_retries = [], bkn2_retries = [], ndb2_retries = []\<rparr>"

definition fresh :: "int \<Rightarrow> int \<Rightarrow> int \<Rightarrow> dl_state" where
  "fresh m n c = \<lparr>scramb = make_scramb_code m n c, cell = (m, n, c), clock = NetworkTime_init, fn_var = None, n_sb_ok = 0, n_sb_fail = 0,
     n_ndb_ok = 0, n_ndb_fail = 0, n_empty = 0, bad_quarters = 0, time_counter = 0\<rparr>"

lemma input_ok_slot_of: "length bs = 508 \<Longrightarrow> input_ok (slot_of name (hard_burst bs))"
  by (simp add: input_ok_def slot_of_def burst_ok_hard)

lemma no_errors: "length (replicate n False) = n" "burst 10 (replicate n False)" "weight (replicate 30 False) \<le> 3"
  by (simp_all add: burst_def)

lemma encoders_return:
  "\<exists>t5. encode_sch_f (replicate 268 False) (make_scramb_code m n c) = Inr t5"
  "\<exists>t5. encode_sch_hd (replicate 124 False) (make_scramb_code m n c) = Inr t5"
  "\<exists>t5. sw_encode_bsch CFG 0 18 3 = Inr t5"
  "\<exists>v. encode_aach f c m n = Inr v"
proof -
  show "\<exists>t5. encode_sch_f (replicate 268 False) (make_scramb_code m n c) = Inr t5"
    using sch_f.decode_clean [of "replicate 268 False", OF _ cell_seed [of m n c]] by auto
  show "\<exists>t5. encode_sch_hd (replicate 124 False) (make_scramb_code m n c) = Inr t5"
    using sch_hd.decode_clean [of "replicate 124 False", OF _ cell_seed [of m n c]] by auto
  obtain pdu where pdu: "build_pdu CFG 0 18 3 = Inr pdu" "length pdu = 60" using build_pdu_total by blast
  then show "\<exists>t5. sw_encode_bsch CFG 0 18 3 = Inr t5"
    using bsch.decode_clean [OF pdu(2) refl] by (auto simp: sw_encode_bsch_def)
  have r: "0 \<le> aach_info_dlul_assign" "aach_info_dlul_assign < 2 ^ 14" "0 \<le> aach_info_capaloc" "aach_info_capaloc < 2 ^ 14"
    by (simp_all add: info_words)
  show "\<exists>v. encode_aach f c m n = Inr v"
    using encode_eq [OF r(1,2)] encode_eq [OF r(3,4)] by (cases "f = 17") (auto simp: encode_aach_def)
qed

text \<open>An error-free beacon of the configured cell, with an all-zero second block.\<close>

definition clean_beacon :: "bits \<Rightarrow> int \<Rightarrow> bits \<Rightarrow> slot_input" where
  "clean_beacon s5 v x2 = slot_of ''SB'' (hard_burst (sync_burst ((off_sb1 (hd LAYOUTS_DL) - 1) * 2)
     (xor_bits s5 (replicate 120 False)) (replicate 38 True) (xor_bits (to_bits 30 v) (replicate 30 False))
     (xor_bits x2 (replicate 216 False))))"

lemma first_layout: "hd LAYOUTS_DL \<in> set LAYOUTS_DL"
  by (simp add: LAYOUTS_DL_def)

lemma clean_beacon_ok:
  assumes "sw_encode_bsch CFG 0 18 3 = Inr s5" "encode_sch_hd (replicate 124 False) (make_scramb_code 901 9998 49) = Inr x2"
  shows "input_ok (clean_beacon s5 v x2)"
proof -
  obtain pdu where pdu: "build_pdu CFG 0 18 3 = Inr pdu" using build_pdu_total by blast
  have "length s5 = 120" "length x2 = 216"
    using sync_block [OF pdu no_errors(1,2) assms(1)] half_block [OF no_errors(1) cell_seed no_errors(1,2) assms(2)] by simp_all
  then show ?thesis
    unfolding clean_beacon_def
    by (intro input_ok_slot_of length_sync_burst) (use layout_cases [OF first_layout] in auto)
qed

lemma clean_beacon_slot:
  assumes "sw_encode_bsch CFG 0 18 3 = Inr s5" "encode_sch_hd (replicate 124 False) (make_scramb_code 901 9998 49) = Inr x2"
    "encode_aach 17 49 901 9998 = Inr v"
    "want_mcc flt \<in> {None, Some 901}" "want_mnc flt \<in> {None, Some 9998}" "want_cc flt \<in> {None, Some 49}"
  shows "\<exists>si its. slot_step cmce mm flt (hd LAYOUTS_DL) (clean_beacon s5 v x2) st =
    Inr (Header ''SB'' (clock st) 1 # SbOk si (synchronize 0 18 3 (clock st)) # its,
      finish (st\<lparr>n_sb_ok := n_sb_ok st + 1, cell := (901, 9998, 49), scramb := make_scramb_code 901 9998 49, fn_var := Some 18,
        clock := synchronize 0 18 3 (clock st)\<rparr>)) \<and>
    (\<forall>si' nt. SbOk si' nt \<in> set its \<longrightarrow> False)"
proof -
  have cfg: "system_code CFG = 2" "colour_code CFG = 49" "cfg_mcc CFG = 901" "cfg_mnc CFG = 9998" by (simp_all add: CFG_def)
  have len: "length (replicate 38 True) = 38" by simp
  have "\<exists>si mac. parse_mac_pdu (replicate 124 False) = Inr mac \<and> slot_step cmce mm flt (hd LAYOUTS_DL) (clean_beacon s5 v x2) st =
    Inr ([Header ''SB'' (clock st) 1, SbOk si (synchronize 0 18 3 (clock st)), MacItem ''  BKN2'' mac,
        AachItem (parse_aach (if (17::int) = 17 then 0x40 else 0x3000)) (weight (replicate 30 False))],
      finish (st\<lparr>n_sb_ok := n_sb_ok st + 1, cell := (cfg_mcc CFG, cfg_mnc CFG, colour_code CFG),
        scramb := make_scramb_code (cfg_mcc CFG) (cfg_mnc CFG) (colour_code CFG), fn_var := Some 18,
        clock := synchronize 0 18 3 (clock st)\<rparr>))"
    by (rule sync_slot [where ?s5.0 = s5 and ?x2.0 = x2 and v = v and sts = "replicate 38 True"])
      (use assms no_errors first_layout in \<open>simp_all add: cfg clean_beacon_def classify_slot_of\<close>)
  then show ?thesis unfolding cfg by fastforce
qed


theorem lock_kept_witness:
  "\<exists>inp its st'. slot_loop None None \<lparr>want_mcc = Some 901, want_mnc = Some 9998, want_cc = Some 49\<rparr> (hd LAYOUTS_DL) [inp, empty_input]
      ((fresh 901 9998 49)\<lparr>clock := sync_clock [(''MCC'', VInt 901), (''MNC'', VInt 9998), (''ColourCode'', VInt 49), (''Mode'', VStr ''TMO'')]
        NetworkTime_init\<rparr>) = Inr (its, st') \<and>
    (\<exists>si nt. SbOk si nt \<in> set (hd its)) \<and> cell st' = (901, 9998, 49) \<and> scramb st' = make_scramb_code 901 9998 49"
proof -
  let ?flt = "\<lparr>want_mcc = Some 901, want_mnc = Some 9998, want_cc = Some 49\<rparr>"
  let ?si = "[(''MCC'', VInt 901), (''MNC'', VInt 9998), (''ColourCode'', VInt 49), (''Mode'', VStr ''TMO'')]"
  let ?st = "(fresh 901 9998 49)\<lparr>clock := sync_clock ?si NetworkTime_init\<rparr>"
  obtain s5 x2 v where e: "sw_encode_bsch CFG 0 18 3 = Inr s5"
    "encode_sch_hd (replicate 124 False) (make_scramb_code 901 9998 49) = Inr x2" "encode_aach 17 49 901 9998 = Inr v"
    using encoders_return(2) [of 901 9998 49] encoders_return(3) encoders_return(4) [of 17 49 901 9998] by blast
  have flt: "want_mcc ?flt \<in> {None, Some 901}" "want_mnc ?flt \<in> {None, Some 9998}" "want_cc ?flt \<in> {None, Some 49}" by simp_all
  obtain si its st1 where step: "slot_step None None ?flt (hd LAYOUTS_DL) (clean_beacon s5 v x2) ?st =
      Inr (Header ''SB'' (clock ?st) 1 # SbOk si (synchronize 0 18 3 (clock ?st)) # its, st1)"
    using clean_beacon_slot [OF e flt, of None None ?st] by blast
  have "slot_step None None ?flt (hd LAYOUTS_DL) empty_input st1 = Inr ([], empty_slot st1)"
    by (simp add: slot_step_def classify_def candidates_def candidate_of_def empty_input_def)
  then have loop: "slot_loop None None ?flt (hd LAYOUTS_DL) [clean_beacon s5 v x2, empty_input] ?st =
      Inr ([Header ''SB'' (clock ?st) 1 # SbOk si (synchronize 0 18 3 (clock ?st)) # its, []], empty_slot st1)"
    by (simp add: step)
  have st: "locked_state ?si = Inr ?st"
    by (simp add: locked_state_def adopt_cell_def dget_default_def int_field_def fresh_def)
  have inp: "list_all input_ok [clean_beacon s5 v x2, empty_input]"
    using clean_beacon_ok [OF e(1,2)] by (simp add: input_ok_def empty_input_def)
  have m: "cell_matches ?si (Some 901) (Some 9998) (Some 49)" by (simp add: cell_matches_def)
  from lock_kept [OF st m inp first_layout loop] loop show ?thesis by fastforce
qed

theorem clock_follows_network_witness:
  "\<exists>inp its st'. slot_loop None None \<lparr>want_mcc = None, want_mnc = None, want_cc = None\<rparr> (hd LAYOUTS_DL) [inp, empty_input] (fresh 1 2 3) =
      Inr (its, st') \<and> on_time (slot_index (synchronize 0 18 3 NetworkTime_init) + 2) (clock st')"
proof -
  let ?flt = "\<lparr>want_mcc = None, want_mnc = None, want_cc = None\<rparr>"
  let ?st = "fresh 1 2 3" and ?nt = "synchronize 0 18 3 NetworkTime_init"
  obtain s5 x2 v where e: "sw_encode_bsch CFG 0 18 3 = Inr s5"
    "encode_sch_hd (replicate 124 False) (make_scramb_code 901 9998 49) = Inr x2" "encode_aach 17 49 901 9998 = Inr v"
    using encoders_return(2) [of 901 9998 49] encoders_return(3) encoders_return(4) [of 17 49 901 9998] by blast
  have flt: "want_mcc ?flt \<in> {None, Some 901}" "want_mnc ?flt \<in> {None, Some 9998}" "want_cc ?flt \<in> {None, Some 49}" by simp_all
  have clk: "clock ?st = NetworkTime_init" by (simp add: fresh_def)
  obtain si its st1 where step: "slot_step None None ?flt (hd LAYOUTS_DL) (clean_beacon s5 v x2) ?st =
      Inr (Header ''SB'' (clock ?st) 1 # SbOk si ?nt # its, st1)" "\<forall>si' nt. SbOk si' nt \<in> set its \<longrightarrow> False"
    using clean_beacon_slot [OF e flt, of None None ?st] unfolding clk by blast
  let ?it = "Header ''SB'' (clock ?st) 1 # SbOk si ?nt # its"
  have "slot_step None None ?flt (hd LAYOUTS_DL) empty_input st1 = Inr ([], empty_slot st1)"
    by (simp add: slot_step_def classify_def candidates_def candidate_of_def empty_input_def)
  then have loop: "slot_loop None None ?flt (hd LAYOUTS_DL) [clean_beacon s5 v x2, empty_input] ?st = Inr ([?it, []], empty_slot st1)"
    by (simp add: step(1))
  have inp: "list_all input_ok [clean_beacon s5 v x2, empty_input]"
    using clean_beacon_ok [OF e(1,2)] by (simp add: input_ok_def empty_input_def)
  have idx: "slot_index ?nt mod 4320 = slot_index ?nt" using slot_index_range [OF time_ok_synchronize] by simp
  have b: "beacons_true (slot_index ?nt) [?it, []]"
    using step(2) idx by (auto simp: list_all_iff split: item.splits)
  have s: "[?it, []] = [] @ ?it # [[]]" by simp
  from clock_follows_network [OF loop inp first_layout b s] loop show ?thesis by fastforce
qed

theorem normal_burst_reported_witness:
  "\<exists>b its. slot_step None None \<lparr>want_mcc = None, want_mnc = None, want_cc = None\<rparr> (hd LAYOUTS_DL) (slot_of ''NDB1'' b) (fresh 262 1 5) =
    Inr (Header ''NDB1'' NetworkTime_init 1 # AachItem (parse_aach 0x3000) 0 # its, finish ((fresh 262 1 5)\<lparr>n_ndb_ok := 1\<rparr>))"
proof -
  have ext: "ext_total None" by (simp add: ext_total_def)
  obtain its where its: "mac_items None None ''  SCH/F'' ''    '' (replicate 268 False) = Inr its"
    using mac_items_returns [OF ext ext] by blast
  obtain t5 v where e: "encode_sch_f (replicate 268 False) (make_scramb_code 262 1 5) = Inr t5" "encode_aach 3 5 262 1 = Inr v"
    using encoders_return(1) [of 262 1 5] encoders_return(4) [of 3 5 262 1] by blast
  have st: "scramb (fresh 262 1 5) = make_scramb_code 262 1 5" by (simp add: fresh_def)
  note r = normal_burst_reported [OF no_errors(1) e(1) no_errors(1,2) e(2) no_errors(1,3) no_errors(1) classify_slot_of(2) st its,
      of "\<lparr>want_mcc = None, want_mnc = None, want_cc = None\<rparr>" "hd LAYOUTS_DL"]
  have "weight (replicate 30 False) = 0" "clock (fresh 262 1 5) = NetworkTime_init" "n_ndb_ok (fresh 262 1 5) + 1 = 1"
    by (simp_all add: fresh_def)
  then show ?thesis using r by fastforce
qed

theorem half_slots_reported_witness:
  "\<exists>b its. slot_step None None \<lparr>want_mcc = None, want_mnc = None, want_cc = None\<rparr> (hd LAYOUTS_DL) (slot_of ''NDB2'' b) (fresh 262 1 5) =
    Inr (Header ''NDB2'' NetworkTime_init 1 # AachItem (parse_aach 0x3000) 0 # its, finish ((fresh 262 1 5)\<lparr>n_ndb_ok := 1\<rparr>))"
proof -
  have ext: "ext_total None" by (simp add: ext_total_def)
  obtain its1 its2 where its: "mac_items None None ''  BKN1 SCH/HD'' ''    BKN1 '' (replicate 124 False) = Inr its1"
    "mac_items None None ''  BKN2 SCH/HD'' ''    BKN2 '' (replicate 124 False) = Inr its2"
    using mac_items_returns [OF ext ext] by blast
  obtain t5 v where e: "encode_sch_hd (replicate 124 False) (make_scramb_code 262 1 5) = Inr t5" "encode_aach 3 5 262 1 = Inr v"
    using encoders_return(2) [of 262 1 5] encoders_return(4) [of 3 5 262 1] by blast
  have st: "scramb (fresh 262 1 5) = make_scramb_code 262 1 5" "\<not> (tn (clock (fresh 262 1 5)) = 1 \<and> fn (clock (fresh 262 1 5)) = 18)"
    by (simp_all add: fresh_def NetworkTime_init_def)
  note r = half_slots_reported [OF no_errors(1) e(1) no_errors(1,2) no_errors(1) e(1) no_errors(1,2) e(2) no_errors(1,3) no_errors(1)
      classify_slot_of(3) st its, of "\<lparr>want_mcc = None, want_mnc = None, want_cc = None\<rparr>" "hd LAYOUTS_DL"]
  have "weight (replicate 30 False) = 0" "clock (fresh 262 1 5) = NetworkTime_init" "n_ndb_ok (fresh 262 1 5) + 1 = 1"
    by (simp_all add: fresh_def)
  then show ?thesis using r by fastforce
qed

theorem bnch_slot_misread_witness:
  "\<exists>b its si. slot_step None None \<lparr>want_mcc = None, want_mnc = None, want_cc = None\<rparr> (hd LAYOUTS_DL) (slot_of ''NDB2'' b)
      ((fresh 262 1 5)\<lparr>clock := synchronize 0 18 3 NetworkTime_init\<rparr>) =
    Inr (Header ''NDB2'' (synchronize 0 18 3 NetworkTime_init) 1 # AachItem (parse_aach 0x3000) 0 # its @ [BnchItem si],
      finish ((fresh 262 1 5)\<lparr>clock := synchronize 0 18 3 NetworkTime_init, n_ndb_ok := 1\<rparr>)) \<and>
    \<not> is_bnch (synchronize 0 18 3 NetworkTime_init)"
proof -
  let ?st = "(fresh 262 1 5)\<lparr>clock := synchronize 0 18 3 NetworkTime_init\<rparr>"
  have ext: "ext_total None" by (simp add: ext_total_def)
  obtain its1 where its: "mac_items None None ''  BKN1 SCH/HD'' ''    BKN1 '' (replicate 124 False) = Inr its1"
    using mac_items_returns [OF ext ext] by blast
  obtain t5 v where e: "encode_sch_hd (replicate 124 False) (make_scramb_code 262 1 5) = Inr t5" "encode_aach 3 5 262 1 = Inr v"
    using encoders_return(2) [of 262 1 5] encoders_return(4) [of 3 5 262 1] by blast
  have st: "scramb ?st = make_scramb_code 262 1 5" "tn (clock ?st) = 1 \<and> fn (clock ?st) = 18"
    by (simp_all add: fresh_def NetworkTime_init_def synchronize_def)
  note r = bnch_slot_misread [OF no_errors(1) e(1) no_errors(1,2) no_errors(1) e(1) no_errors(1,2) e(2) no_errors(1,3) no_errors(1)
      classify_slot_of(3) st its, of "\<lparr>want_mcc = None, want_mnc = None, want_cc = None\<rparr>" "hd LAYOUTS_DL"]
  have "weight (replicate 30 False) = 0" "clock ?st = synchronize 0 18 3 NetworkTime_init" "n_ndb_ok ?st + 1 = 1"
    "mn (synchronize 0 18 3 NetworkTime_init) = 3"
    by (simp_all add: fresh_def synchronize_def)
  then show ?thesis using r by fastforce
qed

theorem foreign_beacon_raises_witness:
  "\<exists>b. slot_step None None \<lparr>want_mcc = Some 262, want_mnc = Some 1, want_cc = Some 5\<rparr> (hd LAYOUTS_DL) (slot_of ''SB'' b) (fresh 262 1 5) =
    Inl UnboundLocalError"
proof -
  have cfg: "system_code CFG = 2" "colour_code CFG = 49" "cfg_mcc CFG = 901" "cfg_mnc CFG = 9998" by (simp_all add: CFG_def)
  obtain s5 where s5: "sw_encode_bsch CFG 0 18 3 = Inr s5" using encoders_return(3) by blast
  have us: "length (replicate 140 False) = 140" by simp
  have bad: "\<not> crc16_check_dll (replicate 140 False)" by code_simp
  obtain x2 where x2: "length x2 = 216"
    "decode_block (map soft_of x2) (scramb (fresh 262 1 5)) 216 101 124 = Inr (False, take 124 (replicate 140 False))"
    using any_block [OF us, of "scramb (fresh 262 1 5)"] bad by auto
  let ?b = "hard_burst (sync_burst ((off_sb1 (hd LAYOUTS_DL) - 1) * 2) (xor_bits s5 (replicate 120 False)) (replicate 38 True) (replicate 30 False) x2)"
  obtain pdu where pdu: "build_pdu CFG 0 18 3 = Inr pdu" using build_pdu_total by blast
  have len: "length s5 = 120" using sync_block [OF pdu no_errors(1,2) s5] by simp
  have inp: "input_ok (slot_of ''SB'' ?b)"
    by (intro input_ok_slot_of length_sync_burst) (use len x2(1) layout_cases [OF first_layout] in auto)
  have r: "bkn2_retries (slot_of ''SB'' ?b) = []" by (simp add: slot_of_def)
  have "slot_step None None \<lparr>want_mcc = Some 262, want_mnc = Some 1, want_cc = Some 5\<rparr> (hd LAYOUTS_DL) (slot_of ''SB'' ?b) (fresh 262 1 5) = Inl UnboundLocalError \<longleftrightarrow>
    (\<exists>i. decode_block (map soft_of x2) (scramb (fresh 262 1 5)) 216 101 124 = Inr (False, i)) \<and>
    retry_bkn2 (hd LAYOUTS_DL) (scramb (fresh 262 1 5)) (bkn2_retries (slot_of ''SB'' ?b)) = Inr None"
    by (rule foreign_beacon_raises [OF _ _ _ _ _ _ _ _ _ _ _ _ _ _ _ s5 no_errors(1,2) _ _ x2(1) first_layout _ inp classify_slot_of(1)])
      (simp_all add: cfg fresh_def)
  then show ?thesis unfolding r x2(2) by auto
qed

end
