(* ===== verification/DlAcquire.thy ===== *)
theory DlAcquire
  imports DlOverAir
begin

text \<open>
  Cell acquisition and the burst grid of \<open>decode_dl\<close> (\<open>scripts/decode_dl.py\<close>): the peaks of the
  correlator are thinned out, tried in the order of their strength in both layouts until the first
  block of one decodes to a beacon the filter admits, and the grid of slots is laid through the peak that did.

  The correlator's peaks, the dibits extracted at a peak in a layout (\<open>None\<close> where the burst leaves the recording) and the
  refined position are arguments; positions are rational.
\<close>

subsection \<open>The peaks\<close>

type_synonym peak = "int \<times> rat"

definition sort_peaks :: "peak list \<Rightarrow> peak list" where
  "sort_peaks ps = sort_key (\<lambda>p. - snd p) ps"

fun dedup :: "nat \<Rightarrow> int \<Rightarrow> peak list \<Rightarrow> peak list \<Rightarrow> peak list" where
  "dedup limit half kept [] = kept"
| "dedup limit half kept ((off, c) # ps) =
     (let kept = (if list_all (\<lambda>(po, _). half \<le> \<bar>off - po\<bar>) kept then kept @ [(off, c)] else kept)
      in if limit \<le> length kept then kept else dedup limit half kept ps)"

definition deduped :: "rat \<Rightarrow> peak list \<Rightarrow> peak list" where
  "deduped burst_spacing sts_peaks = dedup 50 \<lfloor>burst_spacing / 2\<rfloor> [] (sort_peaks sts_peaks)"

subsection \<open>Acquisition\<close>

record lock =
  lk_layout :: sb_layout
  lk_cell :: "int \<times> int \<times> int"
  lk_scramb :: int
  lk_si :: dict
  lk_peak :: int

type_synonym extractor = "int \<Rightarrow> sb_layout \<Rightarrow> nat list option"

fun try_layouts :: "extractor \<Rightarrow> cell_filter \<Rightarrow> int \<Rightarrow> sb_layout list \<Rightarrow> lock option res" where
  "try_layouts ext flt off [] = Inr None"
| "try_layouts ext flt off (l # ls) =
     (case ext off l of
        None \<Rightarrow> try_layouts ext flt off ls
      | Some db \<Rightarrow>
          let sb1_s = int (off_sb1 l) - 1
          in if sb1_s < 0 \<or> int (length db) < sb1_s + int SDB_SB1 then try_layouts ext flt off ls
             else bind_res (decode_channel (descramble_hard (dibits_to_bits (block_at (nat sb1_s) SDB_SB1 db)) 3 120) 120 11 60)
               (\<lambda>(ok, info, _).
                  if ok then
                    bind_res (parse_sysinfo_sb info) (\<lambda>si.
                      if \<not> cell_matches si (want_mcc flt) (want_mnc flt) (want_cc flt) then try_layouts ext flt off ls
                      else bind_res (adopt_cell si) (\<lambda>(c, init).
                        Inr (Some \<lparr>lk_layout = l, lk_cell = c, lk_scramb = init, lk_si = si, lk_peak = off\<rparr>)))
                  else try_layouts ext flt off ls))"

fun try_peaks :: "extractor \<Rightarrow> cell_filter \<Rightarrow> peak list \<Rightarrow> lock option res" where
  "try_peaks ext flt [] = Inr None"
| "try_peaks ext flt ((off, c) # ps) =
     bind_res (try_layouts ext flt off LAYOUTS_DL) (\<lambda>r. case r of Some lk \<Rightarrow> Inr (Some lk) | None \<Rightarrow> try_peaks ext flt ps)"

text \<open>The report reads the first candidate before any is tried.\<close>

definition acquire :: "extractor \<Rightarrow> cell_filter \<Rightarrow> rat \<Rightarrow> peak list \<Rightarrow> lock option res" where
  "acquire ext flt burst_spacing sts_peaks =
     (case deduped burst_spacing sts_peaks of [] \<Rightarrow> Inl IndexError | p # ps \<Rightarrow> try_peaks ext flt (p # ps))"

subsection \<open>The grid\<close>

text \<open>Back to the first slot of the recording, then up to its end or the wanted number of bursts.\<close>

partial_function (option) walk_back :: "rat \<Rightarrow> rat \<Rightarrow> rat option" where
  "walk_back burst_spacing pos =
     (if 0 \<le> pos - burst_spacing then walk_back burst_spacing (pos - burst_spacing) else Some pos)"

fun grid_up :: "nat \<Rightarrow> rat \<Rightarrow> rat \<Rightarrow> rat \<Rightarrow> rat list" where
  "grid_up 0 burst_spacing limit pos = []"
| "grid_up (Suc k) burst_spacing limit pos =
     (if pos < limit then pos # grid_up k burst_spacing limit (pos + burst_spacing) else [])"

definition sts_grid :: "rat \<Rightarrow> rat \<Rightarrow> nat \<Rightarrow> rat \<Rightarrow> rat list option" where
  "sts_grid burst_spacing limit max_bursts sts_pos_anchor =
     map_option (grid_up max_bursts burst_spacing limit) (walk_back burst_spacing sts_pos_anchor)"

subsection \<open>Thinning keeps the strongest peaks apart\<close>

definition far :: "int \<Rightarrow> peak \<Rightarrow> peak \<Rightarrow> bool" where
  "far half p q \<longleftrightarrow> half \<le> \<bar>fst q - fst p\<bar>"

lemma dedup_step:
  "dedup limit half kept (p # ps) =
    (let kept = (if \<forall>q\<in>set kept. far half q p then kept @ [p] else kept) in if limit \<le> length kept then kept else dedup limit half kept ps)"
  by (cases p) (simp add: far_def list_all_iff case_prod_beta)

lemma dedup_spec:
  assumes "sorted_wrt (far half) kept" "length kept < limit" "sorted_wrt (\<lambda>p q. snd q \<le> snd p) (kept @ ps)"
  shows "sorted_wrt (far half) (dedup limit half kept ps) \<and> length (dedup limit half kept ps) \<le> limit \<and>
    set kept \<subseteq> set (dedup limit half kept ps) \<and> set (dedup limit half kept ps) \<subseteq> set (kept @ ps) \<and>
    sorted_wrt (\<lambda>p q. snd q \<le> snd p) (dedup limit half kept ps) \<and>
    (length (dedup limit half kept ps) < limit \<longrightarrow>
      (\<forall>p\<in>set ps. p \<in> set (dedup limit half kept ps) \<or> (\<exists>q\<in>set (dedup limit half kept ps). \<not> far half q p \<and> snd p \<le> snd q)))"
  using assms
proof (induction ps arbitrary: kept)
  case Nil
  then show ?case by simp
next
  case (Cons p ps)
  define K where "K = (if \<forall>q\<in>set kept. far half q p then kept @ [p] else kept)"
  have k: "sorted_wrt (far half) K" "length K \<le> limit" "sorted_wrt (\<lambda>p q. snd q \<le> snd p) (K @ ps)"
    using Cons.prems by (auto simp: sorted_wrt_append K_def)
  have near: "p \<in> set K \<or> (\<exists>q\<in>set K. \<not> far half q p \<and> snd p \<le> snd q)"
    using Cons.prems(3) by (auto simp: sorted_wrt_append K_def)
  have step: "dedup limit half kept (p # ps) = (if limit \<le> length K then K else dedup limit half K ps)"
    by (simp only: dedup_step Let_def K_def)
  have sub: "set kept \<subseteq> set K" "set K \<subseteq> insert p (set kept)" by (auto simp: K_def)
  show ?case
  proof (cases "limit \<le> length K")
    case True
    have "sorted_wrt (\<lambda>p q. snd q \<le> snd p) K" using k(3) unfolding sorted_wrt_append by blast
    then show ?thesis unfolding step if_P [OF True] using k sub True by auto
  next
    case False
    then have "length K < limit" by simp
    note ih = Cons.IH [OF k(1) this k(3)]
    show ?thesis
      unfolding step if_not_P [OF False]
    proof (intro conjI impI ballI)
      fix x assume x: "length (dedup limit half K ps) < limit" "x \<in> set (p # ps)"
      show "x \<in> set (dedup limit half K ps) \<or> (\<exists>q\<in>set (dedup limit half K ps). \<not> far half q x \<and> snd x \<le> snd q)"
      proof (cases "x \<in> set ps")
        case True
        then show ?thesis using ih x(1) by blast
      next
        case False
        then have "x = p" using x(2) by simp
        then show ?thesis using near ih by blast
      qed
    qed (use ih sub in auto)
  qed
qed

lemma sort_peaks_sorted: "sorted_wrt (\<lambda>p q. snd q \<le> snd p) (sort_peaks ps)"
proof -
  have "sorted (map (\<lambda>p. - snd p) (sort_peaks ps))" by (simp add: sort_peaks_def)
  then show ?thesis by (simp add: sorted_map)
qed

text \<open>The candidates of acquisition: at most fifty peaks, all of them found, in the order of their strength and
  any two at least half a burst apart; and when fewer than fifty are kept, every other peak lies closer than that
  to one that is at least as strong.\<close>

theorem deduped_candidates:
  "sorted_wrt (far \<lfloor>sp / 2\<rfloor>) (deduped sp ps) \<and> length (deduped sp ps) \<le> 50 \<and> set (deduped sp ps) \<subseteq> set ps \<and>
   sorted_wrt (\<lambda>p q. snd q \<le> snd p) (deduped sp ps) \<and>
   (length (deduped sp ps) < 50 \<longrightarrow>
     (\<forall>p\<in>set ps. p \<in> set (deduped sp ps) \<or> (\<exists>q\<in>set (deduped sp ps). \<not> far \<lfloor>sp / 2\<rfloor> q p \<and> snd p \<le> snd q)))"
  using dedup_spec [of "\<lfloor>sp / 2\<rfloor>" "[]" 50 "sort_peaks ps"] sort_peaks_sorted [of ps]
  by (auto simp: deduped_def sort_peaks_def)

lemma deduped_Nil: "deduped sp ps = [] \<longleftrightarrow> ps = []"
proof -
  have "set kept \<subseteq> set (dedup 50 half kept qs)" for half kept qs
    by (induction "50 :: nat" half kept qs rule: dedup.induct) (auto simp: Let_def)
  moreover have "dedup 50 half [] (q # qs) = (if 50 \<le> length [q] then [q] else dedup 50 half [q] qs)" for half q and qs :: "peak list"
    by (simp add: dedup_step)
  ultimately have "dedup 50 half [] (q # qs) \<noteq> []" for half q and qs :: "peak list"
    by (metis empty_subsetI list.set_intros(1) list.simps(15) subset_empty set_empty empty_not_insert length_Cons)
  moreover have "sort_peaks ps = [] \<longleftrightarrow> ps = []"
    by (metis length_0_conv length_sort sort_peaks_def)
  ultimately show ?thesis by (cases "sort_peaks ps") (auto simp: deduped_def)
qed

subsection \<open>Acquisition returns and locks\<close>

lemma bsch_block_total:
  assumes "length bs = 120"
  shows "\<exists>ok info dec. decode_channel bs 120 11 60 = Inr (ok, info, dec) \<and> length info = 60"
  using soft_decodes [of "map soft_of bs" 40 60 11] decode_channel_soft_hard [of 120 bs 11 60] assms by simp

lemma try_layouts_total:
  assumes "set ls \<subseteq> set LAYOUTS_DL"
  shows "\<exists>r. try_layouts ext flt off ls = Inr r"
  using assms
proof (induction ls)
  case (Cons l ls)
  then obtain r where r: "try_layouts ext flt off ls = Inr r" by auto
  show ?case
  proof (cases "\<exists>db. ext off l = Some db \<and> \<not> (int (off_sb1 l) - 1 < 0 \<or> int (length db) < int (off_sb1 l) - 1 + int SDB_SB1)")
    case True
    then obtain db where db: "ext off l = Some db" "\<not> (int (off_sb1 l) - 1 < 0 \<or> int (length db) < int (off_sb1 l) - 1 + int SDB_SB1)"
      by blast
    let ?bs = "descramble_hard (dibits_to_bits (block_at (nat (int (off_sb1 l) - 1)) SDB_SB1 db)) 3 120"
    have "60 \<le> length db - nat (int (off_sb1 l) - 1)" using db(2) unfolding SDB_SB1_def by linarith
    then have "length ?bs = 120" by (simp add: descramble_hard_def SDB_SB1_def min_absorb1)
    then obtain ok info dec where d: "decode_channel ?bs 120 11 60 = Inr (ok, info, dec)" "length info = 60"
      using bsch_block_total by blast
    then obtain si c init where "parse_sysinfo_sb info = Inr si" "adopt_cell si = Inr (c, init)" using beacon_returns [of info] by auto
    then show ?thesis using r d(1) unfolding try_layouts.simps db(1) option.case Let_def if_not_P [OF db(2)] by auto
  next
    case False
    then show ?thesis using r by (auto simp: Let_def split: option.split)
  qed
qed simp

lemma try_peaks_total: "\<exists>r. try_peaks ext flt ps = Inr r"
proof (induction ps)
  case (Cons p ps)
  obtain r where "try_layouts ext flt (fst p) LAYOUTS_DL = Inr r" using try_layouts_total by blast
  then show ?case using Cons by (cases p) (auto split: option.split)
qed simp

text \<open>Acquisition raises in exactly one case: \<open>IndexError\<close> on a recording in which the correlator found no
  peak, where the report reads the first candidate; in every other case it locks or says that it did not.\<close>

theorem acquire_raises_iff: "acquire ext flt sp ps = Inl e \<longleftrightarrow> e = IndexError \<and> ps = []"
proof (cases "deduped sp ps")
  case Nil
  then show ?thesis using deduped_Nil [of sp ps] by (auto simp: acquire_def)
next
  case (Cons p qs)
  then have "ps \<noteq> []" using deduped_Nil [of sp ps] by auto
  moreover obtain r where "try_peaks ext flt (p # qs) = Inr r" using try_peaks_total by blast
  ultimately show ?thesis by (simp add: acquire_def Cons)
qed

definition good_lock :: "extractor \<Rightarrow> cell_filter \<Rightarrow> lock \<Rightarrow> bool" where
  "good_lock ext flt lk \<longleftrightarrow> lk_layout lk \<in> set LAYOUTS_DL \<and> ext (lk_peak lk) (lk_layout lk) \<noteq> None \<and>
     cell_matches (lk_si lk) (want_mcc flt) (want_mnc flt) (want_cc flt) \<and>
     adopt_cell (lk_si lk) = Inr (lk_cell lk, lk_scramb lk)"

lemma try_layouts_good:
  assumes "try_layouts ext flt off ls = Inr (Some lk)" "set ls \<subseteq> set LAYOUTS_DL"
  shows "good_lock ext flt lk \<and> lk_peak lk = off"
  using assms
proof (induction ls)
  case (Cons l ls)
  then show ?case
    by (auto simp: Let_def good_lock_def elim!: bind_res_InrE split: option.splits if_splits prod.splits)
qed simp

lemma try_peaks_good:
  "try_peaks ext flt ps = Inr (Some lk) \<Longrightarrow> good_lock ext flt lk \<and> lk_peak lk \<in> fst ` set ps"
proof (induction ps)
  case (Cons p ps)
  obtain off c where p: "p = (off, c)" by (cases p)
  show ?case
    using Cons try_layouts_good [of ext flt off LAYOUTS_DL lk] unfolding p
    by (auto elim!: bind_res_InrE split: option.splits)
qed simp

lemma try_layouts_beacon:
  assumes "ext off l = Some db" "int (off_sb1 l) - 1 \<ge> 0" "int (off_sb1 l) - 1 + int SDB_SB1 \<le> int (length db)"
    and "decode_channel (descramble_hard (dibits_to_bits (block_at (nat (int (off_sb1 l) - 1)) SDB_SB1 db)) 3 120) 120 11 60 = Inr (True, info, dec)"
    and "parse_sysinfo_sb info = Inr si" "cell_matches si (want_mcc flt) (want_mnc flt) (want_cc flt)" "adopt_cell si = Inr x"
    and "l \<in> set ls" "set ls \<subseteq> set LAYOUTS_DL"
  shows "try_layouts ext flt off ls \<noteq> Inr None"
  using assms(8,9)
proof (induction ls)
  case (Cons k ls)
  show ?case
  proof (cases "k = l")
    case True
    have n: "\<not> (int (off_sb1 l) - 1 < 0 \<or> int (length db) < int (off_sb1 l) - 1 + int SDB_SB1)" using assms(2,3) by simp
    obtain c init where x: "x = (c, init)" by (cases x)
    show ?thesis
      unfolding True try_layouts.simps assms(1) option.case Let_def if_not_P [OF n] assms(4) bind_res_simps prod.case if_True assms(5)
      using assms(6,7) x by simp
  next
    case False
    then have rest: "try_layouts ext flt off ls \<noteq> Inr None" using Cons by simp
    obtain r where r: "try_layouts ext flt off (k # ls) = Inr r" using try_layouts_total [of "k # ls" ext flt off] Cons.prems(2) by blast
    show ?thesis
    proof
      assume "try_layouts ext flt off (k # ls) = Inr None"
      then show False using rest
        by (auto simp: Let_def elim!: bind_res_InrE split: option.splits if_splits prod.splits)
    qed
  qed
qed simp

lemma try_peaks_found:
  assumes "(off, c) \<in> set ps" "try_layouts ext flt off LAYOUTS_DL \<noteq> Inr None"
  shows "try_peaks ext flt ps \<noteq> Inr None"
  using assms(1)
proof (induction ps)
  case (Cons p ps)
  obtain o' c' where p: "p = (o', c')" by (cases p)
  show ?case using Cons assms(2) unfolding p by (auto elim!: bind_res_InrE split: option.splits)
qed simp

text \<open>C8. The wanted cell is found: when at some candidate, in some layout, the extracted dibits carry the wanted cell's beacon,
  with up to 10 consecutive bits of the block flipped and whatever else they hold, acquisition under a full cell filter locks
  to that cell, with its scrambling code and the state the slot loop starts from - whatever beacons of other cells
  and broken bursts the stronger peaks are.\<close>

theorem wanted_cell_acquired:
  assumes "0 \<le> system_code cfg" "system_code cfg < 8" "0 \<le> colour_code cfg" "colour_code cfg < 64"
    and "0 \<le> t" "t < 4" "0 \<le> f" "f < 32" "0 \<le> m" "m < 64"
    and "0 \<le> cfg_mcc cfg" "cfg_mcc cfg < 1024" "0 \<le> cfg_mnc cfg" "cfg_mnc cfg < 16384"
    and "sw_encode_bsch cfg t f m = Inr s5" "length e = 120" "burst 10 e"
    and "(off, c) \<in> set (deduped sp ps)" "l \<in> set LAYOUTS_DL" "ext off l = Some (pre @ pack_dibits True (xor_bits s5 e) @ post)"
    and "length pre = off_sb1 l - 1"
  shows "\<exists>lk st. acquire ext \<lparr>want_mcc = Some (cfg_mcc cfg), want_mnc = Some (cfg_mnc cfg), want_cc = Some (colour_code cfg)\<rparr> sp ps =
      Inr (Some lk) \<and> lk_cell lk = (cfg_mcc cfg, cfg_mnc cfg, colour_code cfg) \<and>
    lk_scramb lk = make_scramb_code (cfg_mcc cfg) (cfg_mnc cfg) (colour_code cfg) \<and>
    lk_peak lk \<in> fst ` set (deduped sp ps) \<and> locked_state (lk_si lk) = Inr st \<and> cell st = lk_cell lk \<and> scramb st = lk_scramb lk"
proof -
  let ?flt = "\<lparr>want_mcc = Some (cfg_mcc cfg), want_mnc = Some (cfg_mnc cfg), want_cc = Some (colour_code cfg)\<rparr>"
  obtain pdu si where pdu: "build_pdu cfg t f m = Inr pdu" "length pdu = 60" "parse_sysinfo_sb pdu = Inr si"
    "cell_matches si (Some (cfg_mcc cfg)) (Some (cfg_mnc cfg)) (Some (colour_code cfg))"
    using sync_pdu_roundtrip [OF assms(1-14)] by blast
  have t5: "length s5 = 120" "decode_channel (descramble_hard (xor_bits s5 e) 3 120) 120 11 60 =
      Inr (True, pdu, crc16 pdu @ [False, False, False, False])"
    using bsch.decode_burst [OF pdu(2) refl assms(16,17)] pdu(1) assms(15) by (auto simp: sw_encode_bsch_def)
  let ?x = "xor_bits s5 e"
  have lx: "length ?x = 120" "even (length ?x)" using t5(1) assms(16) by simp_all
  have l: "nat (int (off_sb1 l) - 1) = length pre" "int (off_sb1 l) - 1 \<ge> 0" "int (off_sb1 l) - 1 = int (length pre)"
    using layout_cases [OF assms(19)] assms(21) by auto
  have "block_at (length pre) 60 (pre @ pack_dibits True ?x @ post) = pack_dibits True ?x"
    using lx by (intro block_of) (simp_all add: length_pack_dibits)
  then have d: "decode_channel (descramble_hard (dibits_to_bits (block_at (nat (int (off_sb1 l) - 1)) SDB_SB1 (pre @ pack_dibits True ?x @ post))) 3 120) 120 11 60 =
      Inr (True, pdu, crc16 pdu @ [False, False, False, False])"
    unfolding l(1) SDB_SB1_def using t5(2) dibits_packed [OF lx(2)] by simp
  have fit: "int (off_sb1 l) - 1 + int SDB_SB1 \<le> int (length (pre @ pack_dibits True ?x @ post))"
    unfolding l(3) using lx by (simp add: length_pack_dibits SDB_SB1_def)
  have "try_layouts ext ?flt off LAYOUTS_DL \<noteq> Inr None"
    by (rule try_layouts_beacon [where ext = ext and off = off and l = l and flt = "?flt", OF assms(20) l(2) fit d pdu(3) _ _ assms(19)]) (use pdu(4) matched_cell [OF pdu(4)] in simp_all)
  then have "try_peaks ext ?flt (deduped sp ps) \<noteq> Inr None" by (rule try_peaks_found [OF assms(18)])
  moreover obtain r where r: "try_peaks ext ?flt (deduped sp ps) = Inr r" using try_peaks_total by blast
  ultimately obtain lk where lk: "try_peaks ext ?flt (deduped sp ps) = Inr (Some lk)" by (cases r) auto
  have acq: "acquire ext ?flt sp ps = Inr (Some lk)"
    using lk assms(18) by (cases "deduped sp ps") (auto simp: acquire_def)
  have good: "good_lock ext ?flt lk" "lk_peak lk \<in> fst ` set (deduped sp ps)" using try_peaks_good [OF lk] by blast+
  have a: "adopt_cell (lk_si lk) = Inr ((cfg_mcc cfg, cfg_mnc cfg, colour_code cfg), make_scramb_code (cfg_mcc cfg) (cfg_mnc cfg) (colour_code cfg))"
    using good(1) matched_cell [of "lk_si lk"] by (simp add: good_lock_def)
  then show ?thesis using acq good by (auto simp: good_lock_def locked_state_def)
qed

theorem wanted_cell_acquired_witness:
  "\<exists>db lk st. acquire (\<lambda>off l. if off = 700 then Some db else if off = 100 then Some [1, 2] else None)
      \<lparr>want_mcc = Some 901, want_mnc = Some 9998, want_cc = Some 49\<rparr> 1000 [(100, 1), (700, 1 / 2), (2000, 3 / 4)] = Inr (Some lk) \<and>
    locked_state (lk_si lk) = Inr st \<and> cell st = (901, 9998, 49)"
proof -
  have cfg: "system_code CFG = 2" "colour_code CFG = 49" "cfg_mcc CFG = 901" "cfg_mnc CFG = 9998" by (simp_all add: CFG_def)
  obtain s5 where s5: "sw_encode_bsch CFG 0 18 3 = Inr s5" using encoders_return(3) by blast
  let ?db = "replicate 24 0 @ pack_dibits True (xor_bits s5 (replicate 120 False)) @ []"
  let ?ext = "\<lambda>(off :: int) (l :: sb_layout). if off = 700 then Some ?db else if off = 100 then Some [1, 2] else None"
  let ?ps = "[(100, 1), (700, 1 / 2), (2000, 3 / 4)]"
  have p: "(700, 1 / 2) \<in> set (deduped 1000 ?ps)"
    by (simp add: deduped_def sort_peaks_def)
  have l: "LAYOUTS_DL ! 1 \<in> set LAYOUTS_DL" "length (replicate 24 (0::nat)) = off_sb1 (LAYOUTS_DL ! 1) - 1"
    by (simp_all add: LAYOUTS_DL_def dl_layout_defs)
  have e: "?ext 700 (LAYOUTS_DL ! 1) = Some ?db" by simp
  have "\<exists>lk st. acquire ?ext \<lparr>want_mcc = Some (cfg_mcc CFG), want_mnc = Some (cfg_mnc CFG), want_cc = Some (colour_code CFG)\<rparr> 1000 ?ps =
      Inr (Some lk) \<and> lk_cell lk = (cfg_mcc CFG, cfg_mnc CFG, colour_code CFG) \<and>
    lk_scramb lk = make_scramb_code (cfg_mcc CFG) (cfg_mnc CFG) (colour_code CFG) \<and>
    lk_peak lk \<in> fst ` set (deduped 1000 ?ps) \<and> locked_state (lk_si lk) = Inr st \<and> cell st = lk_cell lk \<and> scramb st = lk_scramb lk"
    by (rule wanted_cell_acquired [where ext = ?ext and off = 700 and l = "LAYOUTS_DL ! 1" and pre = "replicate 24 0" and post = "[]",
        OF _ _ _ _ _ _ _ _ _ _ _ _ _ _ s5 no_errors(1,2) p l(1) e l(2)]) (simp_all add: cfg)
  then show ?thesis unfolding cfg by fastforce
qed

subsection \<open>The grid\<close>

lemma walk_back_steps:
  assumes "0 < sp" "0 \<le> pos"
  shows "walk_back sp pos = Some (pos - of_int \<lfloor>pos / sp\<rfloor> * sp)"
proof -
  have "walk_back sp pos = Some (pos - of_nat n * sp)" if "nat \<lfloor>pos / sp\<rfloor> = n" "0 \<le> pos" for n pos
    using that
  proof (induction n arbitrary: pos)
    case 0
    then have "pos / sp < 1" using assms(1) by (simp add: floor_less_iff nat_eq_iff2)
    then have "pos < sp" using assms(1) by (simp add: divide_less_eq)
    then show ?case by (simp add: walk_back.simps [of sp pos])
  next
    case (Suc n)
    then have f: "\<lfloor>pos / sp\<rfloor> = int n + 1" by linarith
    then have "1 \<le> pos / sp" by linarith
    then have le: "0 \<le> pos - sp" using assms(1) by (simp add: le_divide_eq)
    have "(pos - sp) / sp = pos / sp - 1" using assms(1) by (simp add: diff_divide_distrib)
    then have "nat \<lfloor>(pos - sp) / sp\<rfloor> = n" using f by simp
    from Suc.IH [OF this le] show ?case using le by (simp add: walk_back.simps [of sp pos] algebra_simps)
  qed
  moreover have "of_int \<lfloor>pos / sp\<rfloor> = (of_nat (nat \<lfloor>pos / sp\<rfloor>) :: rat)" using assms by simp
  ultimately show ?thesis using assms(2) by metis
qed

lemma grid_up_nth:
  "i < length (grid_up k sp limit pos) \<Longrightarrow> grid_up k sp limit pos ! i = pos + of_nat i * sp"
  by (induction k sp limit pos arbitrary: i rule: grid_up.induct)
    (auto simp: nth_Cons' algebra_simps of_nat_diff split: if_splits)

lemma grid_up_length:
  assumes "0 < sp"
  shows "i < length (grid_up k sp limit pos) \<longleftrightarrow> i < k \<and> pos + of_nat i * sp < limit"
  using assms
proof (induction k sp limit pos arbitrary: i rule: grid_up.induct)
  case (2 k sp limit pos)
  show ?case
  proof (cases "pos < limit")
    case True
    then show ?thesis using 2 by (cases i) (simp_all add: algebra_simps)
  next
    case False
    moreover have "0 \<le> of_nat i * sp" using 2(2) by simp
    ultimately have "\<not> pos + of_nat i * sp < limit" by linarith
    then show ?thesis using False by simp
  qed
qed simp

text \<open>C40. The grid of slots is found: with a positive spacing the walk back ends, at the offset of the anchor within a spacing, and the
  grid consists of the positions one spacing apart from there on, as many as are wanted or lie before the limit; the
  anchor itself is slot number \<open>anchor div spacing\<close> of it.  (With a spacing of zero the walk does not end.)\<close>

theorem grid_complete:
  assumes "0 < sp" "0 \<le> anchor"
  shows "\<exists>p0 ps. 0 \<le> p0 \<and> p0 < sp \<and> anchor = p0 + of_int \<lfloor>anchor / sp\<rfloor> * sp \<and> sts_grid sp limit n anchor = Some ps \<and>
    (\<forall>i. i < length ps \<longleftrightarrow> i < n \<and> p0 + of_nat i * sp < limit) \<and> (\<forall>i < length ps. ps ! i = p0 + of_nat i * sp)"
proof -
  let ?p0 = "anchor - of_int \<lfloor>anchor / sp\<rfloor> * sp"
  have "of_int \<lfloor>anchor / sp\<rfloor> * sp \<le> anchor" using assms(1) by (simp add: pos_le_divide_eq [symmetric])
  moreover have "anchor < (of_int \<lfloor>anchor / sp\<rfloor> + 1) * sp" using assms(1) floor_less_iff [of "anchor / sp" "\<lfloor>anchor / sp\<rfloor> + 1"] by (simp add: pos_divide_less_eq [symmetric])
  ultimately have "0 \<le> ?p0" "?p0 < sp" by (simp_all add: algebra_simps)
  moreover have "sts_grid sp limit n anchor = Some (grid_up n sp limit ?p0)"
    by (simp add: sts_grid_def walk_back_steps [OF assms])
  ultimately show ?thesis
    using grid_up_nth grid_up_length [OF assms(1)] by (intro exI [of _ ?p0] exI [of _ "grid_up n sp limit ?p0"]) auto
qed

theorem grid_complete_witness:
  "\<exists>ps. sts_grid 2040 100000 200 5000 = Some ps \<and> ps ! 2 = 5000"
proof -
  have "(0::rat) < 2040" "(0::rat) \<le> 5000" by simp_all
  from grid_complete [OF this, of 100000 200] obtain p0 ps where p: "5000 = p0 + of_int \<lfloor>5000 / 2040 :: rat\<rfloor> * 2040" "p0 < 2040"
    "sts_grid 2040 100000 200 5000 = Some ps" "\<forall>i. i < length ps \<longleftrightarrow> i < 200 \<and> p0 + of_nat i * 2040 < 100000"
    "\<forall>i < length ps. ps ! i = p0 + of_nat i * 2040" by blast
  have "\<lfloor>5000 / 2040 :: rat\<rfloor> = 2" by (simp add: floor_eq_iff)
  then have "p0 = 920" using p(1) by simp
  moreover from this have "2 < length ps" using p(4) by simp
  ultimately show ?thesis using p(3,5) by simp
qed

subsection \<open>The labels before the first beacon\<close>

text \<open>The clock starts at the time of the beacon that was acquired, but the grid starts at the first slot of the recording: when that
  beacon is slot \<open>k\<close> of the grid, the first slot is labelled with its time, which is right only if \<open>k\<close> is a multiple of
  the hyperframe of 4320 slots.\<close>

theorem first_label_late:
  assumes "locked_state si = Inr st" "on_time (T + int k) (sync_clock si NetworkTime_init)"
    and "slot_loop cmce mm flt l (inp # inps) st = Inr (it # its, st')" "input_ok inp" "l \<in> set LAYOUTS_DL" "Header b c r \<in> set it"
  shows "c = sync_clock si NetworkTime_init \<and> (on_time T c \<longleftrightarrow> 4320 dvd k)"
proof -
  have st: "clock st = sync_clock si NetworkTime_init" using assms(1) by (auto simp: locked_state_def elim!: bind_res_InrE)
  obtain st1 where "slot_step cmce mm flt l inp st = Inr (it, st1)" using assms(3) by (auto elim!: bind_res_InrE)
  then have "slot_frame flt st it st1" by (rule slot_step_frame [OF assms(5,4)])
  then have c: "c = sync_clock si NetworkTime_init" using assms(6) st by (auto simp: slot_frame_def)
  have "(T + int k) mod 4320 = T mod 4320 \<longleftrightarrow> 4320 dvd int k" by (metis add.right_neutral add_diff_cancel_left' mod_eq_dvd_iff)
  then have "on_time T c \<longleftrightarrow> 4320 dvd int k" using assms(2) by (auto simp: on_time_def c)
  then show ?thesis using c int_dvd_int_iff [of 4320 k] by simp
qed

end
