(* ===== verification/ScheduleScan.thy ===== *)
theory ScheduleScan
  imports Schedule DlAcquire
begin

text \<open>
  The survey of a recording in \<open>analyze\<close> of \<open>scripts/schedule.py\<close>: the lock to a beacon, the grid through it, the
  slot, frame and multiframe of every burst by walking from the anchor, its class from the three training
  sequence correlations, and the table of classes per frame and timeslot with its totals.

  The correlator's peaks, the dibits and refined position of a burst extracted at a peak, and the correlations at a
  grid position are arguments; positions and correlations are rational.  The lines printed and the CSV file are
  left out.
\<close>

subsection \<open>Lock\<close>

definition scan_peaks :: "rat \<Rightarrow> peak list \<Rightarrow> peak list" where
  "scan_peaks burst_spacing peaks = dedup 30 \<lfloor>burst_spacing / 2\<rfloor> [] (sort_peaks peaks)"

record anchor =
  a_layout :: string
  a_sts_pos :: rat
  a_fn :: int
  a_tn :: int
  a_mn :: int

definition SCAN_LAYOUTS :: "(string \<times> nat \<times> nat) list" where
  "SCAN_LAYOUTS = [(''non-continuous'', NSB_OFF_SB1_DL, NSB_OFF_STS_DL), (''continuous'', SDB_OFF_SB1_DL, SDB_OFF_STS_DL)]"

type_synonym scan_extractor = "int \<Rightarrow> nat \<Rightarrow> (nat list \<times> rat) option"

text \<open>The fields of the beacon that the lock and its message read.\<close>

definition anchor_of :: "string \<Rightarrow> rat \<Rightarrow> dict \<Rightarrow> anchor res" where
  "anchor_of lname ts_pos si =
     bind_res (int_field si ''Frame'') (\<lambda>f.
     bind_res (int_field si ''TimeSlot'') (\<lambda>t.
     bind_res (int_field si ''MultiFrame'') (\<lambda>m.
     bind_res (int_field si ''MCC'') (\<lambda>_.
     bind_res (int_field si ''MNC'') (\<lambda>_.
     bind_res (int_field si ''ColourCode'') (\<lambda>_.
     Inr \<lparr>a_layout = lname, a_sts_pos = ts_pos, a_fn = f, a_tn = t, a_mn = m\<rparr>))))))"

fun scan_layouts :: "scan_extractor \<Rightarrow> int \<Rightarrow> (string \<times> nat \<times> nat) list \<Rightarrow> anchor option res" where
  "scan_layouts ext sts_off [] = Inr None"
| "scan_layouts ext sts_off ((lname, l_sb1, l_sts) # ls) =
     (case ext sts_off l_sts of
        None \<Rightarrow> scan_layouts ext sts_off ls
      | Some (db, ts_pos) \<Rightarrow>
          let s = int l_sb1 - 1
          in if s < 0 \<or> int (length db) < s + int SDB_SB1 then scan_layouts ext sts_off ls
             else bind_res (decode_channel (descramble_hard (dibits_to_bits (block_at (nat s) SDB_SB1 db)) 3 120) 120 11 60)
               (\<lambda>(ok, info, _).
                  if ok then bind_res (parse_sysinfo_sb info) (\<lambda>si. bind_res (anchor_of lname ts_pos si) (\<lambda>a. Inr (Some a)))
                  else scan_layouts ext sts_off ls))"

fun scan_lock :: "scan_extractor \<Rightarrow> peak list \<Rightarrow> anchor option res" where
  "scan_lock ext [] = Inr None"
| "scan_lock ext ((sts_off, c) # ps) =
     bind_res (scan_layouts ext sts_off SCAN_LAYOUTS) (\<lambda>r. case r of Some a \<Rightarrow> Inr (Some a) | None \<Rightarrow> scan_lock ext ps)"

subsection \<open>The grid and its labels\<close>

partial_function (option) walk_up :: "rat \<Rightarrow> rat \<Rightarrow> rat \<Rightarrow> rat list option" where
  "walk_up burst_spacing limit pos =
     (if pos < limit then Option.bind (walk_up burst_spacing limit (pos + burst_spacing)) (\<lambda>ps. Some (pos # ps)) else Some [])"

definition scan_grid :: "rat \<Rightarrow> rat \<Rightarrow> rat \<Rightarrow> rat list option" where
  "scan_grid burst_spacing limit anchor_sts_pos =
     Option.bind (walk_back burst_spacing anchor_sts_pos) (walk_up burst_spacing limit)"

text \<open>Python's \<open>round\<close>: ties go to the even integer.\<close>

definition py_round :: "rat \<Rightarrow> int" where
  "py_round x = (let f = \<lfloor>x\<rfloor>; d = x - of_int f in if d < 1 / 2 \<or> d = 1 / 2 \<and> even f then f else f + 1)"

definition anchor_idx :: "rat \<Rightarrow> rat list \<Rightarrow> rat \<Rightarrow> int res" where
  "anchor_idx burst_spacing grid anchor_sts_pos =
     (case grid of [] \<Rightarrow> Inl IndexError | g # _ \<Rightarrow> Inr (py_round ((anchor_sts_pos - g) / burst_spacing)))"

datatype burst_class = SB_burst | NDB1_burst | NDB2_burst | Empty_burst

definition scan_class :: "rat \<Rightarrow> rat \<Rightarrow> rat \<times> rat \<times> rat \<Rightarrow> burst_class" where
  "scan_class sb_thresh nts_thresh = (\<lambda>(s_c, n1_c, n2_c).
     let best_nts = max n1_c n2_c
     in if best_nts \<le> s_c \<and> sb_thresh \<le> s_c then SB_burst
        else if nts_thresh \<le> best_nts then (if n2_c \<le> n1_c then NDB1_burst else NDB2_burst)
        else Empty_burst)"

record scan_row =
  r_bi :: nat
  r_fn :: int
  r_tn :: int
  r_mn :: int
  r_cls :: burst_class
  r_corr :: "rat \<times> rat \<times> rat"

definition scan_row_of :: "(rat \<Rightarrow> rat \<times> rat \<times> rat) \<Rightarrow> rat \<Rightarrow> rat \<Rightarrow> anchor \<Rightarrow> int \<Rightarrow> nat \<Rightarrow> rat \<Rightarrow> scan_row" where
  "scan_row_of corr sb_thresh nts_thresh a idx bi gpos =
     (let delta = int bi - idx;
          (m, f, t) = walk_slot (a_mn a) (a_fn a) (a_tn a) delta
      in \<lparr>r_bi = bi, r_fn = f, r_tn = t, r_mn = m, r_cls = scan_class sb_thresh nts_thresh (corr gpos), r_corr = corr gpos\<rparr>)"

definition scan_rows ::
  "(rat \<Rightarrow> rat \<times> rat \<times> rat) \<Rightarrow> rat \<Rightarrow> rat \<Rightarrow> rat \<Rightarrow> anchor \<Rightarrow> rat list \<Rightarrow> scan_row list res" where
  "scan_rows corr sb_thresh nts_thresh burst_spacing a grid =
     bind_res (anchor_idx burst_spacing grid (a_sts_pos a)) (\<lambda>idx.
       Inr (map (\<lambda>(bi, gpos). scan_row_of corr sb_thresh nts_thresh a idx bi gpos) (enumerate 0 grid)))"

subsection \<open>The table\<close>

definition tbl_count :: "scan_row list \<Rightarrow> int \<times> int \<Rightarrow> burst_class \<Rightarrow> nat" where
  "tbl_count rows k cls = length (filter (\<lambda>r. (r_fn r, r_tn r) = k \<and> r_cls r = cls) rows)"

definition schedule_cells :: "scan_row list \<Rightarrow> (nat \<times> nat \<times> nat \<times> nat) list list" where
  "schedule_cells rows =
     map (\<lambda>f. map (\<lambda>t. let c = tbl_count rows (f, t)
            in (c SB_burst, c NDB1_burst, c NDB2_burst, c Empty_burst)) [0..3]) [1..18]"

definition scan_total :: "scan_row list \<Rightarrow> burst_class \<Rightarrow> nat" where
  "scan_total rows cls = sum_list (map (\<lambda>k. tbl_count rows k cls) (remdups (map (\<lambda>r. (r_fn r, r_tn r)) rows)))"

text \<open>The survey: \<open>None\<close> where it stops with a message (no peak, no lock), the rows otherwise; the outer option is
  the end of the grid walk.\<close>

definition analyze ::
  "scan_extractor \<Rightarrow> (string \<Rightarrow> rat \<Rightarrow> rat \<times> rat \<times> rat) \<Rightarrow> rat \<Rightarrow> rat \<Rightarrow> rat \<Rightarrow> rat \<Rightarrow> peak list \<Rightarrow>
   scan_row list option res option" where
  "analyze ext corr sb_thresh nts_thresh burst_spacing limit peaks =
     (case scan_lock ext (scan_peaks burst_spacing peaks) of
        Inl e \<Rightarrow> Some (Inl e)
      | Inr None \<Rightarrow> Some (Inr None)
      | Inr (Some a) \<Rightarrow>
          map_option (\<lambda>grid. bind_res (scan_rows (corr (a_layout a)) sb_thresh nts_thresh burst_spacing a grid) (\<lambda>rows. Inr (Some rows)))
            (scan_grid burst_spacing limit (a_sts_pos a)))"

subsection \<open>The lock\<close>

text \<open>The candidates are thinned out as in \<open>decode_dl\<close>, to thirty.\<close>

lemma scan_candidates:
  "sorted_wrt (far \<lfloor>sp / 2\<rfloor>) (scan_peaks sp ps) \<and> length (scan_peaks sp ps) \<le> 30 \<and> set (scan_peaks sp ps) \<subseteq> set ps \<and>
   sorted_wrt (\<lambda>p q. snd q \<le> snd p) (scan_peaks sp ps)"
  using dedup_spec [of "\<lfloor>sp / 2\<rfloor>" "[]" 30 "sort_peaks ps"] sort_peaks_sorted [of ps]
  by (auto simp: scan_peaks_def sort_peaks_def)

lemma anchor_of_beacon:
  assumes "60 \<le> length info" "parse_sysinfo_sb info = Inr si"
  shows "anchor_of lname pos si =
    (if bits_val (take 4 info) < 8
     then Inr \<lparr>a_layout = lname, a_sts_pos = pos, a_fn = bits_val (take 5 (drop 12 info)),
       a_tn = bits_val (take 2 (drop 10 info)), a_mn = bits_val (take 6 (drop 17 info))\<rparr>
     else Inl KeyError)"
proof -
  have "extract_bits info 0 4 = Inr (bits_val (take 4 info))" using assms(1) by (simp add: extract_bits_ok)
  then show ?thesis
    using assms by (cases "bits_val (take 4 info) < 8")
      (auto simp: parse_sysinfo_sb_def extract_bits_ok anchor_of_def int_field_def)
qed

text \<open>A layout either does not decode and the next one is tried, or it decodes and decides.\<close>

lemma scan_layouts_cases:
  assumes "set ls \<subseteq> set SCAN_LAYOUTS" "l = (lname, l_sb1, l_sts)" "l \<in> set SCAN_LAYOUTS"
  shows "scan_layouts ext off (l # ls) = scan_layouts ext off ls \<or>
    (\<exists>db pos info dec si. ext off l_sts = Some (db, pos) \<and>
      decode_channel (descramble_hard (dibits_to_bits (block_at (l_sb1 - 1) SDB_SB1 db)) 3 120) 120 11 60 = Inr (True, info, dec) \<and>
      60 \<le> length info \<and> parse_sysinfo_sb info = Inr si \<and>
      scan_layouts ext off (l # ls) = bind_res (anchor_of lname pos si) (\<lambda>a. Inr (Some a)))"
proof (cases "\<exists>db pos. ext off l_sts = Some (db, pos) \<and> \<not> (int l_sb1 - 1 < 0 \<or> int (length db) < int l_sb1 - 1 + int SDB_SB1)")
  case True
  then obtain db pos where db: "ext off l_sts = Some (db, pos)"
    "\<not> (int l_sb1 - 1 < 0 \<or> int (length db) < int l_sb1 - 1 + int SDB_SB1)" by blast
  have i: "nat (int l_sb1 - 1) = l_sb1 - 1" by simp
  let ?bs = "descramble_hard (dibits_to_bits (block_at (l_sb1 - 1) SDB_SB1 db)) 3 120"
  have "60 \<le> length db - (l_sb1 - 1)" using db(2) unfolding SDB_SB1_def by linarith
  then have "length ?bs = 120" by (simp add: descramble_hard_def SDB_SB1_def min_absorb1)
  then obtain ok info dec where d: "decode_channel ?bs 120 11 60 = Inr (ok, info, dec)" "length info = 60"
    using bsch_block_total by blast
  obtain si where si: "parse_sysinfo_sb info = Inr si" using beacon_returns [of info] d(2) by auto
  have "scan_layouts ext off (l # ls) =
      (if ok then bind_res (anchor_of lname pos si) (\<lambda>a. Inr (Some a)) else scan_layouts ext off ls)"
    unfolding assms(2) scan_layouts.simps db(1) option.case prod.case Let_def if_not_P [OF db(2)] i d(1) bind_res_simps si
    by simp
  then show ?thesis using db(1) d si by (cases ok) auto
next
  case False
  then show ?thesis unfolding assms(2) scan_layouts.simps by (auto simp: Let_def split: option.split prod.split)
qed

text \<open>The lock raises in one case only: a block with a good CRC whose system code is that of direct mode.\<close>

definition dmo_block :: "scan_extractor \<Rightarrow> int \<Rightarrow> bool" where
  "dmo_block ext off \<longleftrightarrow> (\<exists>(lname, l_sb1, l_sts) \<in> set SCAN_LAYOUTS. \<exists>db pos info dec.
     ext off l_sts = Some (db, pos) \<and>
     decode_channel (descramble_hard (dibits_to_bits (block_at (l_sb1 - 1) SDB_SB1 db)) 3 120) 120 11 60 = Inr (True, info, dec) \<and>
     8 \<le> bits_val (take 4 info))"

lemma scan_layouts_error:
  assumes "set ls \<subseteq> set SCAN_LAYOUTS" "scan_layouts ext off ls = Inl e"
  shows "e = KeyError \<and> dmo_block ext off"
  using assms
proof (induction ls)
  case (Cons l ls)
  obtain lname l_sb1 l_sts where l: "l = (lname, l_sb1, l_sts)" by (cases l)
  have s: "set ls \<subseteq> set SCAN_LAYOUTS" "l \<in> set SCAN_LAYOUTS" using Cons.prems(1) by auto
  from scan_layouts_cases [OF s(1) l s(2), of ext off] show ?case
  proof
    assume "scan_layouts ext off (l # ls) = scan_layouts ext off ls"
    then show ?thesis using Cons s by simp
  next
    assume "\<exists>db pos info dec si. ext off l_sts = Some (db, pos) \<and>
      decode_channel (descramble_hard (dibits_to_bits (block_at (l_sb1 - 1) SDB_SB1 db)) 3 120) 120 11 60 = Inr (True, info, dec) \<and>
      60 \<le> length info \<and> parse_sysinfo_sb info = Inr si \<and>
      scan_layouts ext off (l # ls) = bind_res (anchor_of lname pos si) (\<lambda>a. Inr (Some a))"
    then obtain db pos info dec si where d: "ext off l_sts = Some (db, pos)"
      "decode_channel (descramble_hard (dibits_to_bits (block_at (l_sb1 - 1) SDB_SB1 db)) 3 120) 120 11 60 = Inr (True, info, dec)"
      "60 \<le> length info" "parse_sysinfo_sb info = Inr si"
      "scan_layouts ext off (l # ls) = bind_res (anchor_of lname pos si) (\<lambda>a. Inr (Some a))" by blast
    have "e = KeyError \<and> 8 \<le> bits_val (take 4 info)"
      using Cons.prems(2) d(5) anchor_of_beacon [OF d(3,4), of lname pos] by (auto split: if_splits)
    then show ?thesis unfolding dmo_block_def using s(2) d(1,2) unfolding l by blast
  qed
qed simp

theorem scan_lock_error:
  assumes "scan_lock ext ps = Inl e"
  shows "e = KeyError \<and> (\<exists>(off, c) \<in> set ps. dmo_block ext off)"
  using assms
proof (induction ps)
  case (Cons p ps)
  obtain off c where p: "p = (off, c)" by (cases p)
  show ?case
  proof (cases "scan_layouts ext off SCAN_LAYOUTS")
    case (Inl e')
    then show ?thesis using Cons.prems scan_layouts_error [of SCAN_LAYOUTS ext off e'] by (auto simp: p)
  next
    case (Inr r)
    then have "scan_lock ext ps = Inl e" using Cons.prems by (auto simp: p split: option.splits)
    then show ?thesis using Cons.IH by auto
  qed
qed simp

text \<open>A block on the air in the first layout of a peak decides there, with up to ten bits flipped.\<close>

lemma scan_layouts_block:
  assumes "length info = 60" "bsch_type5 info = Inr t5" "length e = 120" "burst 10 e"
    and "ext off NSB_OFF_STS_DL = Some (pre @ pack_dibits True (xor_bits t5 e) @ post, pos)" "length pre = NSB_OFF_SB1_DL - 1"
    and "parse_sysinfo_sb info = Inr si"
  shows "scan_layouts ext off SCAN_LAYOUTS = bind_res (anchor_of ''non-continuous'' pos si) (\<lambda>a. Inr (Some a))"
proof -
  have t5: "length t5 = 120" "decode_channel (descramble_hard (xor_bits t5 e) 3 120) 120 11 60 =
      Inr (True, info, crc16 info @ [False, False, False, False])"
    using bsch.decode_burst [OF assms(1) refl assms(3,4)] assms(2) by auto
  let ?x = "xor_bits t5 e" and ?db = "pre @ pack_dibits True (xor_bits t5 e) @ post"
  have lx: "length ?x = 120" "even (length ?x)" using t5(1) assms(3) by simp_all
  have l1: "1 \<le> NSB_OFF_SB1_DL" by (simp add: dl_layout_defs)
  have n: "\<not> (int NSB_OFF_SB1_DL - 1 < 0 \<or> int (length ?db) < int NSB_OFF_SB1_DL - 1 + int SDB_SB1)"
    using lx l1 assms(6) by (simp add: length_pack_dibits SDB_SB1_def)
  have i: "nat (int NSB_OFF_SB1_DL - 1) = length pre" using assms(6) l1 by simp
  have "block_at (length pre) 60 ?db = pack_dibits True ?x"
    using lx by (intro block_of) (simp_all add: length_pack_dibits)
  then have d: "decode_channel (descramble_hard (dibits_to_bits (block_at (length pre) SDB_SB1 ?db)) 3 120) 120 11 60 =
      Inr (True, info, crc16 info @ [False, False, False, False])"
    unfolding SDB_SB1_def using t5(2) dibits_packed [OF lx(2)] by simp
  show ?thesis
    unfolding SCAN_LAYOUTS_def scan_layouts.simps assms(5) option.case prod.case Let_def if_not_P [OF n] i d bind_res_simps assms(7)
    by simp
qed

text \<open>And it does raise there: a direct-mode beacon at the strongest peak ends the survey with \<open>KeyError\<close>.\<close>

theorem dmo_beacon_aborts:
  assumes "length info = 60" "8 \<le> bits_val (take 4 info)" "bsch_type5 info = Inr t5" "length e = 120" "burst 10 e"
    and "scan_peaks sp ps = (off, c) # rest"
    and "ext off NSB_OFF_STS_DL = Some (pre @ pack_dibits True (xor_bits t5 e) @ post, pos)" "length pre = NSB_OFF_SB1_DL - 1"
  shows "analyze ext corr sbt ntt sp limit ps = Some (Inl KeyError)"
proof -
  have l: "60 \<le> length info" using assms(1) by simp
  obtain si where si: "parse_sysinfo_sb info = Inr si" using beacon_returns [OF l] by blast
  show ?thesis
    using scan_layouts_block [where ext = ext and off = off, OF assms(1,3-5,7,8) si] anchor_of_beacon [OF l si] assms(2)
    by (simp add: analyze_def assms(6))
qed

subsection \<open>The grid\<close>




lemma enumerate_nth_map: "i < length xs \<Longrightarrow> map (\<lambda>(n, x). f n x) (enumerate 0 xs) ! i = f i (xs ! i)"
  by (simp add: nth_enumerate_eq)




subsection \<open>The table counts every burst once\<close>

lemma sum_list_indicator:
  "distinct ks \<Longrightarrow> sum_list (map (\<lambda>k. if y = k then 1 else 0) ks) = (if y \<in> set ks then 1 else 0 :: nat)"
  by (induction ks) auto

lemma count_by_key:
  assumes "distinct ks" "\<forall>x \<in> set xs. f x \<in> set ks"
  shows "sum_list (map (\<lambda>k. length (filter (\<lambda>x. f x = k) xs)) ks) = length xs"
  using assms(2)
proof (induction xs)
  case (Cons x xs)
  have "sum_list (map (\<lambda>k. if f x = k then 1 else 0) ks) = (1 :: nat)"
    using Cons.prems sum_list_indicator [OF assms(1), of "f x"] by simp
  moreover have "length (filter (\<lambda>x. f x = k) (x # xs)) = (if f x = k then 1 else 0) + length (filter (\<lambda>x. f x = k) xs)" for k
    by simp
  ultimately show ?case using Cons by (simp only: sum_list_addf) simp
qed simp

lemma class_split:
  "length (filter (\<lambda>r. P r \<and> r_cls r = SB_burst) rows) + length (filter (\<lambda>r. P r \<and> r_cls r = NDB1_burst) rows) +
   length (filter (\<lambda>r. P r \<and> r_cls r = NDB2_burst) rows) + length (filter (\<lambda>r. P r \<and> r_cls r = Empty_burst) rows) =
   length (filter P rows)"
proof (induction rows)
  case (Cons r rows)
  then show ?case by (cases "r_cls r") auto
qed simp

lemma scan_total_eq: "scan_total rows cls = length (filter (\<lambda>r. r_cls r = cls) rows)"
proof -
  let ?rs = "filter (\<lambda>r. r_cls r = cls) rows" and ?ks = "remdups (map (\<lambda>r. (r_fn r, r_tn r)) rows)"
  have "tbl_count rows k cls = length (filter (\<lambda>r. (r_fn r, r_tn r) = k) ?rs)" for k
    by (simp add: tbl_count_def conj_commute)
  then show ?thesis
    unfolding scan_total_def using count_by_key [of ?ks ?rs "\<lambda>r. (r_fn r, r_tn r)"] by auto
qed

text \<open>Every burst of the survey is counted in exactly one cell of the table and under one class: the cells of a recording whose rows
  carry network times add up to the number of bursts, and so do the four totals, each of which is the number of
  bursts of its class.\<close>

theorem schedule_table_adds_up:
  assumes "\<forall>r \<in> set rows. 1 \<le> r_fn r \<and> r_fn r \<le> 18 \<and> 0 \<le> r_tn r \<and> r_tn r \<le> 3"
  shows "sum_list (map (\<lambda>(a, b, c, d). a + b + c + d) (concat (schedule_cells rows))) = length rows \<and>
    scan_total rows SB_burst + scan_total rows NDB1_burst + scan_total rows NDB2_burst + scan_total rows Empty_burst = length rows \<and>
    (\<forall>cls. scan_total rows cls = length (filter (\<lambda>r. r_cls r = cls) rows)) \<and>
    (\<forall>f t. 1 \<le> f \<and> f \<le> 18 \<and> 0 \<le> t \<and> t \<le> 3 \<longrightarrow>
      schedule_cells rows ! nat (f - 1) ! nat t =
        (tbl_count rows (f, t) SB_burst, tbl_count rows (f, t) NDB1_burst, tbl_count rows (f, t) NDB2_burst, tbl_count rows (f, t) Empty_burst))"
proof (intro conjI allI impI)
  let ?key = "\<lambda>r :: scan_row. (r_fn r, r_tn r)" and ?ks = "List.product [1..18] [0..3 :: int]"
  have key: "tbl_count rows k SB_burst + tbl_count rows k NDB1_burst + tbl_count rows k NDB2_burst + tbl_count rows k Empty_burst =
      length (filter (\<lambda>r. ?key r = k) rows)" for k
    unfolding tbl_count_def by (rule class_split)
  have "concat (schedule_cells rows) = map (\<lambda>k. (tbl_count rows k SB_burst, tbl_count rows k NDB1_burst,
      tbl_count rows k NDB2_burst, tbl_count rows k Empty_burst)) ?ks"
    by (simp add: schedule_cells_def Let_def map_concat comp_def product_concat_map)
  then have "map (\<lambda>(a, b, c, d). a + b + c + d) (concat (schedule_cells rows)) = map (\<lambda>k. length (filter (\<lambda>r. ?key r = k) rows)) ?ks"
    by (simp only: list.map_comp comp_def prod.case key)
  moreover have "distinct ?ks" "\<forall>r \<in> set rows. ?key r \<in> set ?ks"
    using assms by (auto simp: distinct_product)
  ultimately show "sum_list (map (\<lambda>(a, b, c, d). a + b + c + d) (concat (schedule_cells rows))) = length rows"
    using count_by_key [of ?ks rows ?key] by simp
next
  show "scan_total rows SB_burst + scan_total rows NDB1_burst + scan_total rows NDB2_burst + scan_total rows Empty_burst = length rows"
    using class_split [of "\<lambda>_. True" rows] by (simp add: scan_total_eq)
next
  fix cls show "scan_total rows cls = length (filter (\<lambda>r. r_cls r = cls) rows)" by (rule scan_total_eq)
next
  fix f t :: int assume ft: "1 \<le> f \<and> f \<le> 18 \<and> 0 \<le> t \<and> t \<le> 3"
  then have "nat (f - 1) < length [1..18]" "[1..18] ! nat (f - 1) = f" "nat t < length [0..3]" "[0..3] ! nat t = t"
    using nth_upto [of 1 "nat (f - 1)" 18] nth_upto [of 0 "nat t" 3] by (simp_all add: nat_less_iff del: upto_rec_numeral)
  then show "schedule_cells rows ! nat (f - 1) ! nat t =
        (tbl_count rows (f, t) SB_burst, tbl_count rows (f, t) NDB1_burst, tbl_count rows (f, t) NDB2_burst, tbl_count rows (f, t) Empty_burst)"
    by (simp add: schedule_cells_def Let_def del: upto_rec_numeral)
qed

end
