(* ===== verification/RefLog.thy ===== *)
theory RefLog
  imports NetworkTime Complex_Main
begin

text \<open>
  The log reader \<open>scripts/parse_reference_decode.py\<close>: the events of the downlink log (\<open>parse_dl\<close>) and of the
  uplink log (\<open>parse_ul\<close>), the time line it lays through the downlink slots (\<open>detect_dl_anchor\<close>, \<open>build_dl_time\<close>), the search
  for downlink reactions and grants near an uplink burst (\<open>build_action_reaction\<close>) and the counts of the inventory.

  A line is given by what the regular expressions of the script find in it, in the order the code asks; text is cut no
  further.  Times are rational.
\<close>

subsection \<open>Events of the downlink log\<close>

record header =
  h_idx :: int
  h_type :: string
  h_tn :: int
  h_fn :: int
  h_mn :: int
  h_suffix :: "string option"
  h_corr :: rat
  h_aach :: "(string \<times> string \<times> string option \<times> int option) option"
  h_dump :: "(string \<times> string) option"

text \<open>\<open>DL_HDR\<close> with what is found in its tail (kind and rest of \<open>DL_INLINE_AACH\<close>, then \<open>raw=\<close> and \<open>dist=\<close> in the rest, and a dump),
  and the other expressions.\<close>

record dl_line =
  m_hdr :: "header option"
  m_raw :: "(string \<times> string) option"
  m_sb1 :: "(int \<times> int \<times> int \<times> int \<times> int \<times> int) option"
  m_schf :: "(string \<times> string \<times> string option \<times> int option) option"
  m_schhd :: "(int \<times> string \<times> string option) option"
  m_bcast :: "(string option \<times> string) option"
  m_llc :: "string option"
  m_mle :: "(string \<times> string option) option"
  m_cmce :: "string option"
  m_mm :: "string option"
  m_carrier :: "string option"

datatype mac_entry =
    SchF (pdu: string) (addr_of: string) (id_of: "string option") (li: "int option")
  | SchHd int string "string option"
  | Bcast "string option" string

record dl_event =
  e_idx :: int
  e_type :: string
  e_tn :: int
  e_fn :: int
  e_mn :: int
  e_suffix :: "string option"
  e_corr :: rat
  e_aach_kind :: "string option"
  e_aach_raw :: "string option"
  e_aach_dist :: "int option"
  e_aach_extra :: "string option"
  e_dumps :: "string \<Rightarrow> string option"
  e_crc_ok :: "bool option"
  e_cell :: "(int \<times> int \<times> int) option"
  e_air :: "(int \<times> int \<times> int) option"
  e_mac :: "mac_entry list"
  e_llc :: "string list"
  e_mle :: "(string \<times> string) list"
  e_cmce :: "string list"
  e_mm :: "string list"
  e_sysinfo :: "string option"

definition DUMP_KEYS :: "string list" where
  "DUMP_KEYS = [''sb_dibits'', ''sb1_info_60b'', ''sb1_t5_onair_120b'', ''sb1_t4_descr_120b'', ''sb1_t3_deint_120b'',
     ''type5_onair_432b'', ''info_268b'', ''info_hex'', ''scramb_code'', ''bkn1_onair_216b'', ''bkn2_onair_216b'',
     ''bkn1_info_124b'', ''bkn2_info_124b'', ''bb_raw_30b'', ''bb_descr_30b'', ''aach_info_14b'']"

definition new_dl_event :: "header \<Rightarrow> dl_event" where
  "new_dl_event m = \<lparr>e_idx = h_idx m, e_type = h_type m, e_tn = h_tn m, e_fn = h_fn m, e_mn = h_mn m, e_suffix = h_suffix m,
     e_corr = h_corr m, e_aach_kind = None, e_aach_raw = None, e_aach_dist = None, e_aach_extra = None, e_dumps = (\<lambda>k. None),
     e_crc_ok = None, e_cell = None, e_air = None, e_mac = [], e_llc = [], e_mle = [], e_cmce = [], e_mm = [], e_sysinfo = None\<rparr>"

definition header_event :: "header \<Rightarrow> dl_event" where
  "header_event m =
     (let cur = new_dl_event m;
          cur = (case h_aach m of None \<Rightarrow> cur
            | Some (kind, rest, raw, dst) \<Rightarrow>
                let cur = cur\<lparr>e_aach_kind := Some kind, e_aach_extra := Some rest\<rparr>;
                    cur = (case raw of None \<Rightarrow> cur | Some r \<Rightarrow> cur\<lparr>e_aach_raw := Some (''0x'' @ r)\<rparr>)
                in (case dst of None \<Rightarrow> cur | Some d \<Rightarrow> cur\<lparr>e_aach_dist := Some d\<rparr>))
      in case h_dump m of None \<Rightarrow> cur
        | Some (key, val) \<Rightarrow> if key = ''sb_dibits'' then cur\<lparr>e_dumps := (e_dumps cur)(key \<mapsto> val)\<rparr> else cur)"

text \<open>The expressions are tried in this order; the first that matches decides.\<close>

fun first_some :: "'a option list \<Rightarrow> 'a option" where
  "first_some [] = None"
| "first_some (None # xs) = first_some xs"
| "first_some (Some x # xs) = Some x"

definition line_effects :: "dl_line \<Rightarrow> dl_event \<Rightarrow> dl_event option list" where
  "line_effects m cur =
     [map_option (\<lambda>(key, val). if key \<in> set DUMP_KEYS then cur\<lparr>e_dumps := (e_dumps cur)(key \<mapsto> val)\<rparr> else cur) (m_raw m),
      map_option (\<lambda>(mcc, mnc, cc, air). cur\<lparr>e_crc_ok := Some True, e_cell := Some (mcc, mnc, cc), e_air := Some air\<rparr>) (m_sb1 m),
      map_option (\<lambda>(p, a, i, l). cur\<lparr>e_mac := e_mac cur @ [SchF p a i l]\<rparr>) (m_schf m),
      map_option (\<lambda>(b, p, r). cur\<lparr>e_mac := e_mac cur @ [SchHd b p r]\<rparr>) (m_schhd m),
      map_option (\<lambda>(b, s). cur\<lparr>e_mac := e_mac cur @ [Bcast b s]\<rparr>) (m_bcast m),
      map_option (\<lambda>s. cur\<lparr>e_llc := e_llc cur @ [s]\<rparr>) (m_llc m),
      map_option (\<lambda>(d, msg). cur\<lparr>e_mle := e_mle cur @ [(d, case msg of None \<Rightarrow> [] | Some s \<Rightarrow> s)]\<rparr>) (m_mle m),
      map_option (\<lambda>s. cur\<lparr>e_cmce := e_cmce cur @ [s]\<rparr>) (m_cmce m),
      map_option (\<lambda>s. cur\<lparr>e_mm := e_mm cur @ [s]\<rparr>) (m_mm m),
      map_option (\<lambda>s. cur\<lparr>e_sysinfo := Some s\<rparr>) (m_carrier m)]"

definition absorb :: "dl_line \<Rightarrow> dl_event \<Rightarrow> dl_event" where
  "absorb m cur = (case first_some (line_effects m cur) of None \<Rightarrow> cur | Some e \<Rightarrow> e)"

fun dl_lines :: "dl_line list \<Rightarrow> dl_event list \<times> dl_event option \<Rightarrow> dl_event list \<times> dl_event option" where
  "dl_lines [] s = s"
| "dl_lines (w # ws) (events, cur) =
     (case m_hdr w of
        Some m \<Rightarrow> dl_lines ws (case cur of None \<Rightarrow> events | Some e \<Rightarrow> events @ [e], Some (header_event m))
      | None \<Rightarrow> (case cur of None \<Rightarrow> dl_lines ws (events, None) | Some e \<Rightarrow> dl_lines ws (events, Some (absorb w e))))"

definition parse_dl :: "dl_line list \<Rightarrow> dl_event list" where
  "parse_dl ws = (case dl_lines ws ([], None) of (events, None) \<Rightarrow> events | (events, Some e) \<Rightarrow> events @ [e])"

subsection \<open>Events of the uplink log\<close>

record ul_event =
  u_idx :: int
  u_time :: rat
  u_corr :: rat
  u_phase :: "(rat \<times> rat) option"
  u_flag :: "string option"
  u_crc :: string
  u_head :: "string option"
  u_bits92 :: "string option"
  u_parsed :: "pyval option"
  u_skip_reason :: "string option"
  u_dumps :: "string \<Rightarrow> string option"

text \<open>\<open>UL_ROW\<close> (index, time, correlation, the two phases, CRC, flag and PDU), \<open>UL_SKIP_ROW\<close> (index, time, correlation, reason), \<open>UL_HU_DUMP\<close>, then those of the second pass; a \<open>parsed\<close>
  line carries the value read back from it.\<close>

record ul_line =
  w_row :: "(int \<times> rat \<times> rat \<times> rat \<times> rat \<times> string \<times> string \<times> string) option"
  w_skip :: "(int \<times> rat \<times> rat \<times> string) option"
  w_dump :: "(string \<times> string) option"
  w_pdu :: bool
  w_bits92 :: "string option"
  w_parsed :: "pyval option"

definition HU_KEYS :: "(string \<times> string) list" where
  "HU_KEYS = [(''type5_onair'', ''type5_onair_168b''), (''type4_descr'', ''type4_descr_168b''), (''info'', ''info_92b_dump''),
     (''scramb_code'', ''scramb_code''), (''variant'', ''variant'')]"

fun ul_rows :: "ul_line list \<Rightarrow> ul_event list \<Rightarrow> ul_event list" where
  "ul_rows [] events = events"
| "ul_rows (w # ws) events =
     (case w_row w of
        Some (i, t, cx, a, b, crc, flag, hex) \<Rightarrow> ul_rows ws (events @
          [\<lparr>u_idx = i, u_time = t, u_corr = cx, u_phase = Some (a, b), u_flag = Some flag, u_crc = crc, u_head = Some hex, u_bits92 = None, u_parsed = None, u_skip_reason = None, u_dumps = (\<lambda>k. None)\<rparr>])
      | None \<Rightarrow>
      case w_skip w of
        Some (i, t, cx, r) \<Rightarrow> ul_rows ws (events @
          [\<lparr>u_idx = i, u_time = t, u_corr = cx, u_phase = None, u_flag = None, u_crc = ''SKIP'', u_head = None, u_bits92 = None, u_parsed = None, u_skip_reason = Some r, u_dumps = (\<lambda>k. None)\<rparr>])
      | None \<Rightarrow>
      case w_dump w of
        Some (key, val) \<Rightarrow>
          ul_rows ws (if events = [] then [] else
            case map_of HU_KEYS key of
              None \<Rightarrow> events
            | Some k \<Rightarrow> butlast events @ [(last events)\<lparr>u_dumps := (u_dumps (last events))(k \<mapsto> val)\<rparr>])
      | None \<Rightarrow> ul_rows ws events)"

text \<open>The second pass: the iterator over the CRC-OK events is the list of their positions; the events are updated in place.\<close>

definition ok_positions :: "ul_event list \<Rightarrow> nat list" where
  "ok_positions events = filter (\<lambda>i. u_crc (events ! i) = ''OK'') [0..<length events]"

fun ul_pdus :: "ul_line list \<Rightarrow> nat list \<Rightarrow> nat option \<Rightarrow> ul_event list \<Rightarrow> ul_event list" where
  "ul_pdus [] it cur events = events"
| "ul_pdus (w # ws) it cur events =
     (if w_pdu w then (case it of [] \<Rightarrow> ul_pdus ws [] None events | p # ps \<Rightarrow> ul_pdus ws ps (Some p) events)
      else case cur of
        None \<Rightarrow> ul_pdus ws it cur events
      | Some p \<Rightarrow>
          (case w_bits92 w of
             Some v \<Rightarrow> ul_pdus ws it cur (events[p := (events ! p)\<lparr>u_bits92 := Some v\<rparr>])
           | None \<Rightarrow>
           case w_parsed w of
             Some v \<Rightarrow> ul_pdus ws it cur (events[p := (events ! p)\<lparr>u_parsed := Some v\<rparr>])
           | None \<Rightarrow> ul_pdus ws it cur events))"

definition parse_ul :: "ul_line list \<Rightarrow> ul_event list" where
  "parse_ul ws = (let events = ul_rows ws [] in ul_pdus ws (ok_positions events) None events)"

subsection \<open>The time line\<close>

definition SLOT_S :: rat where "SLOT_S = 14167 / 1000000"
definition SLOTS_MF :: int where "SLOTS_MF = 18 * 4"
definition SLOTS_HF :: int where "SLOTS_HF = 60 * SLOTS_MF"

definition slot_id :: "dl_event \<Rightarrow> int" where
  "slot_id ev = (e_mn ev - 1) * SLOTS_MF + (e_fn ev - 1) * 4 + (e_tn ev - 1)"

definition detect_dl_anchor :: "dl_event list \<Rightarrow> nat" where
  "detect_dl_anchor dl =
     (if length dl < 2 then 0
      else let delta_fwd = (slot_id (dl ! 1) - slot_id (dl ! 0)) mod SLOTS_HF
        in if e_type (dl ! 0) = ''SB'' \<and> SLOTS_HF div 4 < delta_fwd then 1 else 0)"

fun unwrap :: "dl_event list \<Rightarrow> int \<Rightarrow> int \<Rightarrow> int list" where
  "unwrap [] wrap prev = []"
| "unwrap (ev # evs) wrap prev =
     (let s = slot_id ev; sa = s + wrap * SLOTS_HF
      in if sa < prev - SLOTS_HF div 2
         then let wrap = wrap + 1; sa = s + wrap * SLOTS_HF in sa # unwrap evs wrap sa
         else sa # unwrap evs wrap sa)"

definition abs_slots :: "dl_event list \<Rightarrow> int option list" where
  "abs_slots dl =
     (let anchor = detect_dl_anchor dl; s0 = slot_id (dl ! anchor)
      in replicate anchor None @ Some s0 # map Some (unwrap (drop (Suc anchor) dl) 0 s0))"

definition pos_of_idx :: "dl_event list \<Rightarrow> int \<Rightarrow> nat option" where
  "pos_of_idx dl = map_of (rev (zip (map e_idx dl) [0..<length dl]))"

definition build_dl_time :: "dl_event list \<Rightarrow> (int \<Rightarrow> rat option) \<times> nat" where
  "build_dl_time dl =
     (if dl = [] then (\<lambda>_. None, 0)
      else let anchor = detect_dl_anchor dl; s_ref = slot_id (dl ! anchor)
        in (\<lambda>arg. case pos_of_idx dl arg of
              None \<Rightarrow> None
            | Some i \<Rightarrow> (case abs_slots dl ! i of None \<Rightarrow> None | Some s \<Rightarrow> Some (of_int (s - s_ref) * SLOT_S)), anchor))"

subsection \<open>Reactions and counts\<close>

definition is_addressed :: "dl_event \<Rightarrow> bool" where
  "is_addressed ev \<longleftrightarrow> e_type ev = ''NDB1'' \<and>
     list_ex (\<lambda>m. case m of SchF p a i l \<Rightarrow> a \<noteq> [] \<and> a \<noteq> ''NULL'' | _ \<Rightarrow> False) (e_mac ev)"

definition is_broadcast :: "dl_event \<Rightarrow> bool" where
  "is_broadcast ev \<longleftrightarrow> list_ex (\<lambda>m. case m of SchF p a i l \<Rightarrow> i = Some ''16777215'' | _ \<Rightarrow> False) (e_mac ev)"

definition addr_label :: "mac_entry \<Rightarrow> string list" where
  "addr_label m =
     (case m of
        SchF p a i l \<Rightarrow> [p, ''(SCH/F)''] @ (if a = [] then [] else [''addr='' @ a]) @
          (case i of None \<Rightarrow> [] | Some x \<Rightarrow> if x = [] then [] else [''ID='' @ x]) @
          (case l of None \<Rightarrow> [] | Some n \<Rightarrow> [''LI='' @ str_int n])
      | SchHd b p r \<Rightarrow> [p, ''(SCH/HD)''] @ (case r of None \<Rightarrow> [] | Some x \<Rightarrow> if x = [] then [] else [x]) @ [''BKN'' @ str_int b]
      | Bcast b s \<Rightarrow> [''?'', ''(BCAST)''] @ (if s = [] then [] else [''sub='' @ s]) @ (case b of None \<Rightarrow> [] | Some x \<Rightarrow> [''BKN'' @ x]))"

definition dl_sig :: "dl_event list \<Rightarrow> dl_event list" where
  "dl_sig dl = filter (\<lambda>d. is_addressed d \<and> \<not> is_broadcast d) dl"

text \<open>The bursts whose time lies in the window around the target, nearest first (a stable sort).\<close>

definition in_window :: "(int \<Rightarrow> rat option) \<Rightarrow> rat \<Rightarrow> rat \<Rightarrow> dl_event list \<Rightarrow> (dl_event \<times> rat \<times> rat) list" where
  "in_window dl_time target window_s ds =
     sort_key (\<lambda>(d, t, dt). \<bar>dt\<bar>)
       (concat (map (\<lambda>d. case dl_time (e_idx d) of None \<Rightarrow> []
          | Some t \<Rightarrow> let dt = t - target in if - window_s \<le> dt \<and> dt \<le> window_s then [(d, t, dt)] else []) ds))"

definition CORR_WINDOW_S :: rat where "CORR_WINDOW_S = 3"

definition find_dl_responses :: "(int \<Rightarrow> rat option) \<Rightarrow> rat \<Rightarrow> dl_event list \<Rightarrow> rat \<Rightarrow> (dl_event \<times> rat \<times> rat) list" where
  "find_dl_responses dl_time offset dl ul_t = in_window dl_time (ul_t - offset) CORR_WINDOW_S (dl_sig dl)"

definition find_aach_grants :: "(int \<Rightarrow> rat option) \<Rightarrow> rat \<Rightarrow> dl_event list \<Rightarrow> rat \<Rightarrow> (dl_event \<times> rat \<times> rat) list" where
  "find_aach_grants dl_time offset dl ul_t =
     take 3 (in_window dl_time (ul_t - offset) (1 / 5)
       (filter (\<lambda>d. e_aach_kind d \<in> {Some ''DL/UL-Assign'', Some ''CapAlloc''}) dl))"

text \<open>The offset between the recordings: the first good uplink burst, by preference one with the PDU of a location update, and the first addressed
  downlink burst, by preference one that answers it.\<close>

fun starts_with :: "string \<Rightarrow> string \<Rightarrow> bool" where
  "starts_with [] s = True"
| "starts_with (p # ps) [] = False"
| "starts_with (p # ps) (c # s) \<longleftrightarrow> p = c \<and> starts_with ps s"

fun contains :: "string \<Rightarrow> string \<Rightarrow> bool" where
  "contains sub [] \<longleftrightarrow> sub = []"
| "contains sub (c # s) \<longleftrightarrow> starts_with sub (c # s) \<or> contains sub s"

definition first_of :: "('a \<Rightarrow> bool) \<Rightarrow> ('a \<Rightarrow> bool) \<Rightarrow> 'a list \<Rightarrow> 'a option" where
  "first_of preferred other xs = (case find preferred xs of Some x \<Rightarrow> Some x | None \<Rightarrow> find other xs)"

definition ul_first :: "ul_event list \<Rightarrow> ul_event option" where
  "ul_first ul = first_of
     (\<lambda>u. u_crc u = ''OK'' \<and> (case u_head u of None \<Rightarrow> False | Some h \<Rightarrow> starts_with ''01 41 7F A7'' h)) (\<lambda>u. u_crc u = ''OK'') ul"

definition dl_first :: "dl_event list \<Rightarrow> dl_event option" where
  "dl_first sig = first_of
     (\<lambda>d. let msg = (case e_mle d of [] \<Rightarrow> [] | m # _ \<Rightarrow> snd m) in contains ''LOC-UPD'' msg \<or> contains ''LOC_UPD'' msg) (\<lambda>d. True) sig"

definition capture_offset :: "(int \<Rightarrow> rat option) \<Rightarrow> dl_event list \<Rightarrow> ul_event list \<Rightarrow> rat" where
  "capture_offset dl_time dl ul =
     (case (ul_first ul, dl_first (dl_sig dl)) of
        (Some u, Some d) \<Rightarrow> (case dl_time (e_idx d) of None \<Rightarrow> 0 | Some t_dl \<Rightarrow> u_time u - t_dl)
      | _ \<Rightarrow> 0)"

text \<open>What is written for the uplink bursts: their grants and reactions, and how many of the bursts not skipped have a reaction.\<close>

definition build_action_reaction ::
  "dl_event list \<Rightarrow> ul_event list \<Rightarrow> (int \<Rightarrow> rat option) \<Rightarrow>
   (ul_event \<times> ((dl_event \<times> rat \<times> rat) list \<times> (dl_event \<times> rat \<times> rat) list) option) list \<times> nat \<times> nat" where
  "build_action_reaction dl ul dl_time =
     (let offset = capture_offset dl_time dl ul;
          row = (\<lambda>u. if u_crc u = ''SKIP'' then (u, None)
            else (u, Some (find_aach_grants dl_time offset dl (u_time u), find_dl_responses dl_time offset dl (u_time u))));
          rows = map row ul
      in (rows, length (filter (\<lambda>(u, r). case r of None \<Rightarrow> False | Some (g, c) \<Rightarrow> c \<noteq> []) rows),
          length (filter (\<lambda>u. u_crc u \<noteq> ''SKIP'') ul)))"

text \<open>\<open>d[k] = d.get(k, 0) + 1\<close> over a list, in insertion order.\<close>

fun bump :: "'k \<Rightarrow> ('k \<times> nat) list \<Rightarrow> ('k \<times> nat) list" where
  "bump k [] = [(k, 1)]"
| "bump k ((j, n) # d) = (if j = k then (j, n + 1) # d else (j, n) # bump k d)"

definition tally :: "'k list \<Rightarrow> ('k \<times> nat) list" where
  "tally ks = fold bump ks []"

definition type_counts :: "dl_event list \<Rightarrow> (string \<times> nat) list" where
  "type_counts dl = tally (map e_type dl)"

definition aach_counts :: "dl_event list \<Rightarrow> ((string \<times> string) \<times> nat) list" where
  "aach_counts dl = tally (concat (map (\<lambda>ev. case e_aach_kind ev of None \<Rightarrow> []
     | Some k \<Rightarrow> if k = [] then [] else [(k, case e_aach_raw ev of None \<Rightarrow> ''n/a'' | Some r \<Rightarrow> if r = [] then ''n/a'' else r)]) dl))"

definition addr_counts :: "dl_event list \<Rightarrow> (string \<times> nat) list" where
  "addr_counts dl = tally (concat (map (\<lambda>ev. concat (map (\<lambda>m. case m of SchF p a i l \<Rightarrow> if a \<noteq> ''NULL'' then [a] else [] | _ \<Rightarrow> []) (e_mac ev))) dl))"

definition bnch_count :: "dl_event list \<Rightarrow> nat" where
  "bnch_count dl = length (filter (\<lambda>ev. e_suffix ev = Some ''BNCH'') dl)"

definition sig_counts :: "dl_event list \<Rightarrow> nat \<times> nat" where
  "sig_counts dl = (length (filter is_addressed dl), length (dl_sig dl))"

definition ul_counts :: "ul_event list \<Rightarrow> nat \<times> nat \<times> nat" where
  "ul_counts ul = (length (filter (\<lambda>u. u_crc u = ''OK'') ul), length (filter (\<lambda>u. u_crc u = ''-'') ul),
     length (filter (\<lambda>u. u_crc u = ''SKIP'') ul))"

text \<open>The tables of the inventory: by name, and by falling count.\<close>

definition by_count :: "('k \<times> nat) list \<Rightarrow> ('k \<times> nat) list" where
  "by_count d = sort_key (\<lambda>(k, n). - int n) d"

subsection \<open>The events are the groups of lines\<close>

lemma dl_lines_append: "dl_lines (xs @ ys) s = dl_lines ys (dl_lines xs s)"
  by (induction xs s rule: dl_lines.induct) (auto split: option.split)

lemma dl_lines_body:
  "list_all (\<lambda>w. m_hdr w = None) body \<Longrightarrow> dl_lines body (events, Some e) = (events, Some (fold absorb body e))"
  by (induction body arbitrary: e) simp_all

lemma dl_lines_before: "list_all (\<lambda>w. m_hdr w = None) body \<Longrightarrow> dl_lines body (events, None) = (events, None)"
  by (induction body) simp_all

definition flush :: "dl_event list \<times> dl_event option \<Rightarrow> dl_event list" where
  "flush s = (case s of (events, None) \<Rightarrow> events | (events, Some e) \<Rightarrow> events @ [e])"

lemma dl_lines_groups:
  "list_all (\<lambda>(h, body). m_hdr h \<noteq> None \<and> list_all (\<lambda>w. m_hdr w = None) body) groups \<Longrightarrow>
   flush (dl_lines (concat (map (\<lambda>(h, body). h # body) groups)) s) =
   flush s @ map (\<lambda>(h, body). fold absorb body (header_event (the (m_hdr h)))) groups"
proof (induction groups arbitrary: s)
  case (Cons g groups)
  obtain h body where g: "g = (h, body)" by (cases g)
  obtain m where m: "m_hdr h = Some m" using Cons.prems g by auto
  obtain events cur where s: "s = (events, cur)" by (cases s)
  have "dl_lines (h # body) s = (flush s, Some (fold absorb body (header_event m)))"
    using Cons.prems g m s by (cases cur) (simp_all add: dl_lines_body flush_def)
  then have "dl_lines (concat (map (\<lambda>(h, body). h # body) (g # groups))) s =
      dl_lines (concat (map (\<lambda>(h, body). h # body) groups)) (flush s, Some (fold absorb body (header_event m)))"
    unfolding g list.map concat.simps prod.case dl_lines_append by simp
  then show ?case using Cons g m by (simp add: flush_def)
qed simp

text \<open>C33. The downlink events are the bursts of the log: lines before the first header are ignored, every header opens one event, and the
  event collects what the lines up to the next header hold, in their order.\<close>

theorem dl_events_are_bursts:
  assumes "list_all (\<lambda>w. m_hdr w = None) pre"
    and "list_all (\<lambda>(h, body). m_hdr h \<noteq> None \<and> list_all (\<lambda>w. m_hdr w = None) body) groups"
  shows "parse_dl (pre @ concat (map (\<lambda>(h, body). h # body) groups)) =
    map (\<lambda>(h, body). fold absorb body (header_event (the (m_hdr h)))) groups"
proof -
  have "parse_dl ws = flush (dl_lines ws ([], None))" for ws by (simp add: parse_dl_def flush_def)
  then show ?thesis
    using dl_lines_groups [OF assms(2), of "([], None)"] dl_lines_before [OF assms(1), of "[]"]
    by (simp add: dl_lines_append flush_def)
qed

definition no_line :: dl_line where
  "no_line = \<lparr>m_hdr = None, m_raw = None, m_sb1 = None, m_schf = None, m_schhd = None, m_bcast = None, m_llc = None, m_mle = None,
     m_cmce = None, m_mm = None, m_carrier = None\<rparr>"

definition ndb1_header :: "int \<Rightarrow> header" where
  "ndb1_header i = \<lparr>h_idx = i, h_type = ''NDB1'', h_tn = 1, h_fn = 2, h_mn = 3, h_suffix = None, h_corr = 1, h_aach = None, h_dump = None\<rparr>"

theorem dl_events_are_bursts_witness:
  "map e_llc (parse_dl ([no_line\<lparr>m_llc := Some ''lost''\<rparr>] @ concat (map (\<lambda>(h, body). h # body)
     [(no_line\<lparr>m_hdr := Some (ndb1_header 0)\<rparr>, [no_line\<lparr>m_llc := Some ''a''\<rparr>, no_line, no_line\<lparr>m_llc := Some ''b''\<rparr>]),
      (no_line\<lparr>m_hdr := Some (ndb1_header 1)\<rparr>, [])]))) = [[''a'', ''b''], []]"
proof -
  let ?pre = "[no_line\<lparr>m_llc := Some ''lost''\<rparr>]"
  let ?gs = "[(no_line\<lparr>m_hdr := Some (ndb1_header 0)\<rparr>, [no_line\<lparr>m_llc := Some ''a''\<rparr>, no_line, no_line\<lparr>m_llc := Some ''b''\<rparr>]),
      (no_line\<lparr>m_hdr := Some (ndb1_header 1)\<rparr>, [])]"
  have "list_all (\<lambda>w. m_hdr w = None) ?pre"
    "list_all (\<lambda>(h, body). m_hdr h \<noteq> None \<and> list_all (\<lambda>w. m_hdr w = None) body) ?gs"
    by (simp_all add: no_line_def)
  from dl_events_are_bursts [OF this] show ?thesis
    by (simp add: no_line_def absorb_def line_effects_def header_event_def new_dl_event_def ndb1_header_def)
qed

subsection \<open>The uplink details\<close>

definition plain :: "ul_line \<Rightarrow> bool" where
  "plain w \<longleftrightarrow> w_row w = None \<and> w_skip w = None \<and> w_dump w = None"

lemma ul_rows_plain: "list_all plain ws \<Longrightarrow> ul_rows ws events = events"
  by (induction ws) (simp_all add: plain_def)

lemma ul_rows_append: "ul_rows (xs @ ys) events = ul_rows ys (ul_rows xs events)"
  by (induction xs events rule: ul_rows.induct) (simp_all split: option.split)

lemma ul_pdus_table: "list_all (\<lambda>w. \<not> w_pdu w) ws \<Longrightarrow> ul_pdus (ws @ xs) it None events = ul_pdus xs it None events"
  by (induction ws) simp_all

definition detail :: "string \<times> pyval \<Rightarrow> ul_line list" where
  "detail d =
     [\<lparr>w_row = None, w_skip = None, w_dump = None, w_pdu = True, w_bits92 = None, w_parsed = None\<rparr>,
      \<lparr>w_row = None, w_skip = None, w_dump = None, w_pdu = False, w_bits92 = Some (fst d), w_parsed = None\<rparr>,
      \<lparr>w_row = None, w_skip = None, w_dump = None, w_pdu = False, w_bits92 = None, w_parsed = Some (snd d)\<rparr>]"

definition attach :: "nat \<times> string \<times> pyval \<Rightarrow> ul_event list \<Rightarrow> ul_event list" where
  "attach = (\<lambda>(p, b, v) events. events[p := (events ! p)\<lparr>u_bits92 := Some b, u_parsed := Some v\<rparr>])"

lemma ul_pdus_details:
  "length it = length ds \<Longrightarrow> list_all (\<lambda>p. p < length events) it \<Longrightarrow>
   ul_pdus (concat (map detail ds)) it cur events = fold attach (zip it ds) events"
proof (induction it ds arbitrary: cur events rule: list_induct2)
  case (Cons p it d ds)
  obtain b v where d: "d = (b, v)" by (cases d)
  have "attach (p, b, v) events = (events[p := (events ! p)\<lparr>u_bits92 := Some b\<rparr>])[p := (events[p := (events ! p)\<lparr>u_bits92 := Some b\<rparr>] ! p)\<lparr>u_parsed := Some v\<rparr>]"
    using Cons.prems by (simp add: attach_def)
  then show ?case using Cons d by (simp add: detail_def attach_def)
qed simp

lemma fold_attach:
  assumes "length it = length ds" "distinct it" "list_all (\<lambda>p. p < length events) it"
  shows "length (fold attach (zip it ds) events) = length events \<and>
    (\<forall>j<length ds. fold attach (zip it ds) events ! (it ! j) =
      (events ! (it ! j))\<lparr>u_bits92 := Some (fst (ds ! j)), u_parsed := Some (snd (ds ! j))\<rparr>) \<and>
    (\<forall>i. i \<notin> set it \<longrightarrow> fold attach (zip it ds) events ! i = events ! i)"
  using assms
proof (induction it ds arbitrary: events rule: list_induct2)
  case (Cons p it d ds)
  let ?e = "attach (p, d) events"
  have le: "length ?e = length events" "\<And>i. i \<noteq> p \<Longrightarrow> ?e ! i = events ! i"
    "?e ! p = (events ! p)\<lparr>u_bits92 := Some (fst d), u_parsed := Some (snd d)\<rparr>"
    using Cons.prems by (auto simp: attach_def case_prod_beta)
  have ih: "length (fold attach (zip it ds) ?e) = length ?e \<and>
    (\<forall>j<length ds. fold attach (zip it ds) ?e ! (it ! j) =
      (?e ! (it ! j))\<lparr>u_bits92 := Some (fst (ds ! j)), u_parsed := Some (snd (ds ! j))\<rparr>) \<and>
    (\<forall>i. i \<notin> set it \<longrightarrow> fold attach (zip it ds) ?e ! i = ?e ! i)"
    by (rule Cons.IH) (use Cons.prems le(1) in auto)
  have p: "p \<notin> set it" using Cons.prems by simp
  have z: "fold attach (zip (p # it) (d # ds)) events = fold attach (zip it ds) ?e" by simp
  show ?case
    unfolding z
  proof (intro conjI allI impI)
    show "length (fold attach (zip it ds) ?e) = length events" using ih le(1) by simp
    fix j assume j: "j < length (d # ds)"
    show "fold attach (zip it ds) ?e ! ((p # it) ! j) =
        (events ! ((p # it) ! j))\<lparr>u_bits92 := Some (fst ((d # ds) ! j)), u_parsed := Some (snd ((d # ds) ! j))\<rparr>"
    proof (cases j)
      case 0
      then show ?thesis using ih p le(3) by simp
    next
      case (Suc k)
      then have "it ! k \<noteq> p" using j p Cons.hyps nth_mem [of k it] by auto
      then show ?thesis using ih j Suc le(2) by simp
    qed
  next
    fix i assume "i \<notin> set (p # it)"
    then show "fold attach (zip it ds) ?e ! i = events ! i" using ih le(2) by simp
  qed
qed simp

text \<open>The details go to their bursts: when the log holds a table and then, for every row with a good CRC in the order of the rows, the
  lines of its PDU, bits and parsed fields, the event of each such row gets exactly its bits and fields, and every
  other event is as the table has it.\<close>

theorem ul_details_attached:
  assumes "list_all (\<lambda>w. \<not> w_pdu w) table" "length ds = length (ok_positions (ul_rows table []))"
  defines "events \<equiv> parse_ul (table @ concat (map detail ds))" and "rows \<equiv> ul_rows table []"
  shows "length events = length rows \<and>
    (\<forall>j<length ds. events ! (ok_positions rows ! j) =
      (rows ! (ok_positions rows ! j))\<lparr>u_bits92 := Some (fst (ds ! j)), u_parsed := Some (snd (ds ! j))\<rparr>) \<and>
    (\<forall>i<length rows. u_crc (rows ! i) \<noteq> ''OK'' \<longrightarrow> events ! i = rows ! i)"
proof -
  have "list_all plain (concat (map detail ds))" by (induction ds) (simp_all add: detail_def plain_def)
  then have r: "ul_rows (table @ concat (map detail ds)) [] = rows" by (simp add: ul_rows_append ul_rows_plain rows_def)
  have it: "distinct (ok_positions rows)" "list_all (\<lambda>p. p < length rows) (ok_positions rows)"
    "\<And>i. i \<in> set (ok_positions rows) \<longleftrightarrow> i < length rows \<and> u_crc (rows ! i) = ''OK''"
    by (auto simp: ok_positions_def list_all_iff)
  have len: "length (ok_positions rows) = length ds" using assms(2) by (simp add: rows_def)
  have "events = fold attach (zip (ok_positions rows) ds) rows"
    unfolding events_def parse_ul_def r Let_def using ul_pdus_table [OF assms(1)] ul_pdus_details [OF len it(2)] by simp
  then show ?thesis using fold_attach [OF len it(1,2)] it(3) by simp
qed

theorem ul_details_attached_witness:
  "map u_bits92 (parse_ul ([\<lparr>w_row = Some (0, 1, 1, 0, 0, ''-'', ''x'', ''00''), w_skip = None, w_dump = None, w_pdu = False, w_bits92 = None, w_parsed = None\<rparr>,
      \<lparr>w_row = Some (1, 2, 1, 0, 0, ''OK'', ''x'', ''01''), w_skip = None, w_dump = None, w_pdu = False, w_bits92 = None, w_parsed = None\<rparr>] @
     concat (map detail [(''0101'', VInt 3)]))) = [None, Some ''0101'']"
proof -
  let ?t = "[\<lparr>w_row = Some (0, 1, 1, 0, 0, ''-'', ''x'', ''00''), w_skip = None, w_dump = None, w_pdu = False, w_bits92 = None, w_parsed = None\<rparr>,
      \<lparr>w_row = Some (1, 2, 1, 0, 0, ''OK'', ''x'', ''01''), w_skip = None, w_dump = None, w_pdu = False, w_bits92 = None, w_parsed = None\<rparr>]"
  have p: "ok_positions (ul_rows ?t []) = [1]" by (simp add: ok_positions_def upt_rec)
  have 1: "list_all (\<lambda>w. \<not> w_pdu w) ?t" by simp
  have 2: "length [(''0101'', VInt 3)] = length (ok_positions (ul_rows ?t []))" unfolding p by simp
  note u = ul_details_attached [OF 1 2, unfolded p]
  have n: "length (parse_ul (?t @ concat (map detail [(''0101'', VInt 3)]))) = 2" using u by simp
  have "map u_bits92 (parse_ul (?t @ concat (map detail [(''0101'', VInt 3)]))) ! 0 = None"
    "map u_bits92 (parse_ul (?t @ concat (map detail [(''0101'', VInt 3)]))) ! 1 = Some ''0101''"
    using u n by simp_all
  then show ?thesis using n by (intro nth_equalityI) (auto simp: less_Suc_eq numeral_2_eq_2)
qed

subsection \<open>The time line is the network's\<close>

lemma slots_values: "SLOTS_MF = 72" "SLOTS_HF = 4320"
  by (simp_all add: SLOTS_MF_def SLOTS_HF_def)

fun gaps_ok :: "int \<Rightarrow> int list \<Rightarrow> bool" where
  "gaps_ok p [] = True"
| "gaps_ok p (t # ts) \<longleftrightarrow> p \<le> t \<and> t < p + 2160 \<and> gaps_ok t ts"

lemma unwrap_true:
  "length evs = length ts \<Longrightarrow> gaps_ok p ts \<Longrightarrow> list_all2 (\<lambda>ev t. slot_id ev = t mod 4320) evs ts \<Longrightarrow>
   unwrap evs (p div 4320 - c) (p - c * 4320) = map (\<lambda>t. t - c * 4320) ts"
proof (induction evs ts arbitrary: p rule: list_induct2)
  case (Cons ev evs t ts)
  have s: "slot_id ev = t mod 4320" and near: "p \<le> t" "t < p + 2160" using Cons.prems by simp_all
  have ih: "unwrap evs (t div 4320 - c) (t - c * 4320) = map (\<lambda>t. t - c * 4320) ts" using Cons by simp
  have sa: "slot_id ev + (q - c) * SLOTS_HF = t - c * 4320 + (q - t div 4320) * 4320" for q
    unfolding s slots_values by (simp add: algebra_simps minus_mult_div_eq_mod [symmetric])
  show ?case
  proof (cases "t div 4320 = p div 4320")
    case True
    then have e: "slot_id ev + (p div 4320 - c) * SLOTS_HF = t - c * 4320" using sa [of "p div 4320"] by simp
    have n: "\<not> t - c * 4320 < p - c * 4320 - SLOTS_HF div 2" using near by (simp add: slots_values)
    show ?thesis unfolding unwrap.simps Let_def e if_not_P [OF n] using ih True by simp
  next
    case False
    moreover have "p div 4320 \<le> t div 4320" using near(1) by (rule zdiv_mono1) simp
    moreover have "t div 4320 \<le> (p + 4320) div 4320" by (rule zdiv_mono1) (use near(2) in simp_all)
    ultimately have d: "t div 4320 = p div 4320 + 1" by simp
    then have e: "slot_id ev + (p div 4320 - c) * SLOTS_HF = t - c * 4320 - 4320"
      "slot_id ev + (p div 4320 - c + 1) * SLOTS_HF = t - c * 4320"
      using sa [of "p div 4320"] sa [of "p div 4320 + 1"] by (simp_all add: algebra_simps)
    have w: "p div 4320 - c + 1 = t div 4320 - c" using d by simp
    have n: "t - c * 4320 - 4320 < p - c * 4320 - SLOTS_HF div 2" using near by (simp add: slots_values)
    show ?thesis unfolding unwrap.simps Let_def e if_P [OF n] unfolding w using ih by simp
  qed
qed simp

lemma anchor_less: "dl \<noteq> [] \<Longrightarrow> detect_dl_anchor dl < length dl"
  by (auto simp: detect_dl_anchor_def Let_def)

lemma pos_of_idx_nth:
  assumes "distinct (map e_idx dl)" "i < length dl"
  shows "pos_of_idx dl (e_idx (dl ! i)) = Some i"
proof -
  let ?z = "zip (map e_idx dl) [0..<length dl]"
  have "distinct (map fst (rev ?z))" using assms(1) by (simp add: rev_map [symmetric])
  moreover have "(e_idx (dl ! i), i) \<in> set (rev ?z)" using assms(2) by (auto simp: set_zip intro!: exI [of _ i])
  ultimately show ?thesis unfolding pos_of_idx_def by (rule map_of_is_SomeI)
qed

lemma abs_slots_nth:
  assumes "dl \<noteq> []" "i < length dl" "\<And>i. detect_dl_anchor dl \<le> i \<Longrightarrow> i < length dl \<Longrightarrow> slot_id (dl ! i) = T i mod 4320"
    and "\<And>i. detect_dl_anchor dl \<le> i \<Longrightarrow> Suc i < length dl \<Longrightarrow> T i \<le> T (Suc i) \<and> T (Suc i) < T i + 2160"
  shows "abs_slots dl ! i = (if i < detect_dl_anchor dl then None else Some (T i - T (detect_dl_anchor dl) div 4320 * 4320))"
proof -
  let ?a = "detect_dl_anchor dl"
  let ?c = "T ?a div 4320"
  have a: "?a < length dl" by (rule anchor_less [OF assms(1)])
  let ?ts = "map T [Suc ?a..<length dl]" and ?evs = "drop (Suc ?a) dl"
  have gaps: "gaps_ok (T k) (map T [Suc k..<length dl])" if "?a \<le> k" "k < length dl" for k
    using that
  proof (induction "length dl - k" arbitrary: k)
    case (Suc n)
    show ?case
    proof (cases "Suc k < length dl")
      case True
      have "gaps_ok (T (Suc k)) (map T [Suc (Suc k)..<length dl])" by (rule Suc.hyps(1)) (use Suc True in auto)
      then show ?thesis using assms(4) [of k] Suc.prems True by (simp add: upt_conv_Cons)
    qed simp
  qed simp
  have s0: "slot_id (dl ! ?a) = T ?a - ?c * 4320" using assms(3) [of ?a] a by (simp add: minus_div_mult_eq_mod)
  have "unwrap ?evs (T ?a div 4320 - ?c) (T ?a - ?c * 4320) = map (\<lambda>t. t - ?c * 4320) ?ts"
    by (rule unwrap_true) (use gaps a assms(3) in \<open>auto simp: list_all2_conv_all_nth nth_drop\<close>)
  then have u: "unwrap ?evs 0 (slot_id (dl ! ?a)) = map (\<lambda>t. t - ?c * 4320) ?ts" unfolding s0 by simp
  have eq: "abs_slots dl = replicate ?a None @ Some (slot_id (dl ! ?a)) # map Some (map (\<lambda>t. t - ?c * 4320) ?ts)"
    by (simp only: abs_slots_def Let_def u)
  consider "i < ?a" | "i = ?a" | "?a < i" by linarith
  then show ?thesis
  proof cases
    case 3
    then have "i - ?a = Suc (i - Suc ?a)" "i - Suc ?a < length ?ts" "Suc ?a + (i - Suc ?a) = i" using assms(2) by simp_all
    then show ?thesis unfolding eq using 3 by (simp add: nth_append)
  qed (use s0 in \<open>simp_all add: eq nth_append\<close>)
qed

text \<open>C32. The time line is the network's: when the bursts from the anchor on carry the labels of the network clock \<open>g i\<close> slots after some
  start, in order and with gaps of less than half a hyperframe, each burst is dated at exactly its number of slots
  after the anchor, across every wrap of the frame, multiframe and hyperframe counters; the burst before the anchor is not dated.\<close>

theorem dl_time_is_network_time:
  assumes "distinct (map e_idx dl)" "time_ok start"
    and "\<And>i. detect_dl_anchor dl \<le> i \<Longrightarrow> i < length dl \<Longrightarrow>
      e_tn (dl ! i) = tn ((advance ^^ g i) start) \<and> e_fn (dl ! i) = fn ((advance ^^ g i) start) \<and> e_mn (dl ! i) = mn ((advance ^^ g i) start)"
    and "\<And>i. detect_dl_anchor dl \<le> i \<Longrightarrow> Suc i < length dl \<Longrightarrow> g i \<le> g (Suc i) \<and> g (Suc i) < g i + 2160"
    and "i < length dl"
  shows "fst (build_dl_time dl) (e_idx (dl ! i)) =
    (if i < detect_dl_anchor dl then None else Some (of_nat (g i - g (detect_dl_anchor dl)) * SLOT_S))"
proof -
  let ?a = "detect_dl_anchor dl"
  define T where "T i = slot_index start + int (g i)" for i
  have ne: "dl \<noteq> []" using assms(5) by auto
  have id: "slot_id (dl ! j) = T j mod 4320" if "?a \<le> j" "j < length dl" for j
  proof -
    have "slot_id (dl ! j) = slot_index ((advance ^^ g j) start)"
      using assms(3) [OF that] by (simp add: slot_id_def slot_index_def slots_values)
    then show ?thesis using slot_index_run [OF assms(2)] by (simp add: T_def)
  qed
  have mono: "g ?a \<le> g j" if "?a \<le> j" "j < length dl" for j
    using that
  proof (induction j)
    case (Suc j)
    show ?case
    proof (cases "?a = Suc j")
      case False
      then have "?a \<le> j" "j < length dl" using Suc.prems by simp_all
      then show ?thesis using Suc.IH assms(4) [of j] Suc.prems by fastforce
    qed simp
  qed simp
  have "abs_slots dl ! i = (if i < ?a then None else Some (T i - T ?a div 4320 * 4320))"
  proof (rule abs_slots_nth [OF ne assms(5) id])
    fix j assume "?a \<le> j" "Suc j < length dl"
    then have "g j \<le> g (Suc j)" "g (Suc j) < g j + 2160" using assms(4) by blast+
    then show "T j \<le> T (Suc j) \<and> T (Suc j) < T j + 2160" unfolding T_def by linarith
  qed
  moreover have "slot_id (dl ! ?a) = T ?a - T ?a div 4320 * 4320"
    using id [of ?a] anchor_less [OF ne] by (simp add: minus_div_mult_eq_mod)
  moreover have "T i - T ?a = int (g i - g ?a)" if "\<not> i < ?a" using mono [of i] that assms(5) by (simp add: T_def)
  ultimately show ?thesis
    using pos_of_idx_nth [OF assms(1,5)] ne by (auto simp: build_dl_time_def Let_def)
qed

definition labelled :: "int \<Rightarrow> net_time \<Rightarrow> dl_event" where
  "labelled i nt = (new_dl_event (ndb1_header i))\<lparr>e_tn := tn nt, e_fn := fn nt, e_mn := mn nt\<rparr>"

theorem dl_time_is_network_time_witness:
  "fst (build_dl_time [labelled 7 \<lparr>tn = 4, fn = 18, mn = 60, synced = True\<rparr>, labelled 9 \<lparr>tn = 2, fn = 1, mn = 1, synced = True\<rparr>]) 9 =
    Some (2 * SLOT_S)"
proof -
  let ?s = "\<lparr>tn = 4, fn = 18, mn = 60, synced = True\<rparr>"
  let ?dl = "[labelled 7 ?s, labelled 9 \<lparr>tn = 2, fn = 1, mn = 1, synced = True\<rparr>]"
  have a: "detect_dl_anchor ?dl = 0"
    by (simp add: detect_dl_anchor_def labelled_def new_dl_event_def ndb1_header_def)
  have two: "(advance ^^ 2) ?s = \<lparr>tn = 2, fn = 1, mn = 1, synced = True\<rparr>"
    by (simp add: numeral_2_eq_2 advance_def Let_def)
  define g :: "nat \<Rightarrow> nat" where "g i = (if i = 0 then 0 else 2)" for i
  have d: "distinct (map e_idx ?dl)" by (simp add: labelled_def new_dl_event_def ndb1_header_def)
  have s: "time_ok ?s" by (simp add: time_ok_def)
  have l: "e_tn (?dl ! i) = tn ((advance ^^ g i) ?s) \<and> e_fn (?dl ! i) = fn ((advance ^^ g i) ?s) \<and> e_mn (?dl ! i) = mn ((advance ^^ g i) ?s)"
    if "detect_dl_anchor ?dl \<le> i" "i < length ?dl" for i
  proof (cases "i = 0")
    case True
    then show ?thesis by (simp add: g_def labelled_def)
  next
    case False
    then have "i = 1" using that(2) by simp
    then show ?thesis using two by (simp add: g_def labelled_def)
  qed
  have n: "g i \<le> g (Suc i) \<and> g (Suc i) < g i + 2160" for i by (simp add: g_def)
  have "fst (build_dl_time ?dl) (e_idx (?dl ! 1)) =
    (if 1 < detect_dl_anchor ?dl then None else Some (of_nat (g 1 - g (detect_dl_anchor ?dl)) * SLOT_S))"
    by (rule dl_time_is_network_time [OF d s l n]) simp_all
  then show ?thesis unfolding a by (simp add: labelled_def new_dl_event_def ndb1_header_def g_def)
qed

subsection \<open>Reactions and grants\<close>

definition in_reach :: "(int \<Rightarrow> rat option) \<Rightarrow> rat \<Rightarrow> rat \<Rightarrow> dl_event list \<Rightarrow> dl_event \<times> rat \<times> rat \<Rightarrow> bool" where
  "in_reach dl_time target window_s ds = (\<lambda>(d, t, dt). d \<in> set ds \<and> dl_time (e_idx d) = Some t \<and> dt = t - target \<and> \<bar>dt\<bar> \<le> window_s)"

lemma set_in_window: "x \<in> set (in_window dl_time target window_s ds) \<longleftrightarrow> in_reach dl_time target window_s ds x"
  by (cases x) (auto simp: in_window_def in_reach_def Let_def abs_le_iff split: option.splits if_splits; fastforce)

lemma sorted_in_window: "sorted (map (\<lambda>(d, t, dt). \<bar>dt\<bar>) (in_window dl_time target window_s ds))"
  by (simp add: in_window_def)

lemma sorted_take_rest:
  fixes f :: "'a \<Rightarrow> 'b :: linorder"
  assumes "sorted (map f xs)" "x \<in> set xs" "x \<notin> set (take n xs)"
  shows "length (take n xs) = n \<and> (\<forall>y\<in>set (take n xs). f y \<le> f x)"
proof -
  have x: "x \<in> set (drop n xs)" using assms(2,3) by (metis UnE append_take_drop_id set_append)
  then have "n < length xs" by (metis drop_all empty_iff empty_set not_le)
  moreover have "sorted (map f (take n xs) @ map f (drop n xs))" using assms(1) by (simp flip: map_append)
  ultimately show ?thesis using x by (auto simp: sorted_append)
qed

definition is_dated :: "(int \<Rightarrow> rat option) \<Rightarrow> rat \<Rightarrow> rat \<Rightarrow> dl_event \<Rightarrow> bool" where
  "is_dated dl_time target window_s d = (case dl_time (e_idx d) of None \<Rightarrow> False | Some t \<Rightarrow> \<bar>t - target\<bar> \<le> window_s)"

lemma length_in_window: "length (in_window dl_time target window_s ds) = length (filter (is_dated dl_time target window_s) ds)"
  by (induction ds) (auto simp: in_window_def is_dated_def Let_def abs_le_iff split: option.splits)

definition is_assignment :: "dl_event \<Rightarrow> bool" where
  "is_assignment d \<longleftrightarrow> e_aach_kind d = Some ''DL/UL-Assign'' \<or> e_aach_kind d = Some ''CapAlloc''"

lemma grants_in_window:
  "find_aach_grants dl_time offset dl u = take 3 (in_window dl_time (u - offset) (1 / 5) (filter is_assignment dl))"
proof -
  have "is_assignment = (\<lambda>d. e_aach_kind d \<in> {Some ''DL/UL-Assign'', Some ''CapAlloc''})"
    by (simp add: is_assignment_def fun_eq_iff)
  then show ?thesis by (simp add: find_aach_grants_def)
qed

text \<open>C34. What is reported for an uplink burst at time \<open>u\<close>: its reactions are exactly the addressed bursts that are not broadcasts and
  lie within three seconds of it on the common time line, each as often as it is in the log, the nearest first.  Every grant is
  a burst with an assignment (\<open>DL/UL-Assign\<close> or \<open>CapAlloc\<close>) that lies within 0.2 seconds and carries its time and distance; the
  grants are ordered nearest first, their number is the number of such bursts or three if there are more, and an assignment
  that is left out gives way to three that are no farther.\<close>

theorem reactions_complete:
  "(\<forall>x. x \<in> set (find_dl_responses dl_time offset dl u) \<longleftrightarrow> in_reach dl_time (u - offset) 3 (filter (\<lambda>d. is_addressed d \<and> \<not> is_broadcast d) dl) x) \<and>
    length (find_dl_responses dl_time offset dl u) =
      length (filter (\<lambda>d. is_addressed d \<and> \<not> is_broadcast d \<and> is_dated dl_time (u - offset) 3 d) dl) \<and>
    sorted (map (\<lambda>(d, t, dt). \<bar>dt\<bar>) (find_dl_responses dl_time offset dl u)) \<and>
    (\<forall>x. x \<in> set (find_aach_grants dl_time offset dl u) \<longrightarrow> in_reach dl_time (u - offset) (1 / 5) (filter is_assignment dl) x) \<and>
    sorted (map (\<lambda>(d, t, dt). \<bar>dt\<bar>) (find_aach_grants dl_time offset dl u)) \<and>
    length (find_aach_grants dl_time offset dl u) =
      min 3 (length (filter (\<lambda>d. is_assignment d \<and> is_dated dl_time (u - offset) (1 / 5) d) dl)) \<and>
    (\<forall>x. in_reach dl_time (u - offset) (1 / 5) (filter is_assignment dl) x \<longrightarrow>
      x \<in> set (find_aach_grants dl_time offset dl u) \<or>
      length (find_aach_grants dl_time offset dl u) = 3 \<and>
      (\<forall>y\<in>set (find_aach_grants dl_time offset dl u). (\<lambda>(d, t, dt). \<bar>dt\<bar>) y \<le> (\<lambda>(d, t, dt). \<bar>dt\<bar>) x))"
proof -
  let ?w = "in_window dl_time (u - offset) (1 / 5) (filter is_assignment dl)"
  let ?r = "find_dl_responses dl_time offset dl u" and ?g = "find_aach_grants dl_time offset dl u"
  have R: "?r = in_window dl_time (u - offset) 3 (filter (\<lambda>d. is_addressed d \<and> \<not> is_broadcast d) dl)"
    by (simp add: find_dl_responses_def CORR_WINDOW_S_def dl_sig_def)
  have G: "?g = take 3 ?w" by (rule grants_in_window)
  have r: "x \<in> set ?r \<longleftrightarrow> in_reach dl_time (u - offset) 3 (filter (\<lambda>d. is_addressed d \<and> \<not> is_broadcast d) dl) x" for x
    unfolding R set_in_window ..
  have n: "length ?r = length (filter (\<lambda>d. is_addressed d \<and> \<not> is_broadcast d \<and> is_dated dl_time (u - offset) 3 d) dl)"
    by (simp add: R length_in_window conj_ac)
  have s: "sorted (map (\<lambda>(d, t, dt). \<bar>dt\<bar>) ?r)" unfolding R by (rule sorted_in_window)
  have gr: "in_reach dl_time (u - offset) (1 / 5) (filter is_assignment dl) x" if "x \<in> set ?g" for x
    using in_set_takeD [OF that [unfolded G]] by (simp add: set_in_window)
  have gs: "sorted (map (\<lambda>(d, t, dt). \<bar>dt\<bar>) ?g)"
    unfolding G by (simp only: take_map [symmetric]) (rule sorted_wrt_take, rule sorted_in_window)
  have gn: "length ?g = min 3 (length (filter (\<lambda>d. is_assignment d \<and> is_dated dl_time (u - offset) (1 / 5) d) dl))"
    by (simp add: G length_in_window conj_ac)
  have g: "x \<in> set ?g \<or> length ?g = 3 \<and> (\<forall>y\<in>set ?g. (\<lambda>(d, t, dt). \<bar>dt\<bar>) y \<le> (\<lambda>(d, t, dt). \<bar>dt\<bar>) x)"
    if "in_reach dl_time (u - offset) (1 / 5) (filter is_assignment dl) x" for x
    using sorted_take_rest [OF sorted_in_window, of x dl_time "u - offset" "1 / 5" "filter is_assignment dl" 3] that
    unfolding G set_in_window by blast
  show ?thesis using r n s gr gs gn g by blast
qed

definition answer_event :: dl_event where
  "answer_event = (new_dl_event (ndb1_header 9))\<lparr>e_mac := [SchF ''MAC-RESOURCE'' ''SSI'' None None]\<rparr>"

definition aach_event :: "int \<Rightarrow> string \<Rightarrow> dl_event" where
  "aach_event i kind = (new_dl_event (ndb1_header i))\<lparr>e_aach_kind := Some kind\<rparr>"

lemma witness_events [simp]:
  "e_idx answer_event = 9" "e_idx (aach_event i kind) = i" "is_addressed answer_event" "\<not> is_broadcast answer_event"
  "\<not> is_addressed (aach_event i kind)" "\<not> is_assignment answer_event"
  "is_assignment (aach_event i kind) \<longleftrightarrow> kind = ''DL/UL-Assign'' \<or> kind = ''CapAlloc''"
  by (simp_all add: answer_event_def aach_event_def is_addressed_def is_broadcast_def is_assignment_def new_dl_event_def ndb1_header_def)

text \<open>An answer, an assignment in its slot, an allocation too far away and an access assignment of another kind.\<close>

definition log_of_witness :: "dl_event list" where
  "log_of_witness = [answer_event, aach_event 8 ''DL/UL-Assign'', aach_event 8 ''Reserved'', aach_event 7 ''CapAlloc'']"

theorem reactions_complete_witness:
  "length (find_dl_responses (\<lambda>i. Some (of_int i)) 2 log_of_witness 10) = 1 \<and>
    find_aach_grants (\<lambda>i. Some (of_int i)) 2 log_of_witness 10 = [(aach_event 8 ''DL/UL-Assign'', 8, 0)]"
proof -
  let ?t = "\<lambda>i. Some (of_int i) :: rat option"
  let ?g = "find_aach_grants ?t 2 log_of_witness 10"
  note rc = reactions_complete [where dl_time = ?t and u = 10 and offset = 2 and dl = log_of_witness]
  have f: "filter (\<lambda>d. is_addressed d \<and> \<not> is_broadcast d \<and> is_dated ?t (10 - 2) 3 d) log_of_witness = [answer_event]"
    "filter (\<lambda>d. is_assignment d \<and> is_dated ?t (10 - 2) (1 / 5) d) log_of_witness = [aach_event 8 ''DL/UL-Assign'']"
    by (simp_all add: log_of_witness_def is_dated_def)
  have x: "x = (aach_event 8 ''DL/UL-Assign'', 8, 0)" if "in_reach ?t (10 - 2) (1 / 5) (filter is_assignment log_of_witness) x" for x
    using that by (auto simp: log_of_witness_def in_reach_def)
  have n: "length ?g = 1" "length (find_dl_responses ?t 2 log_of_witness 10) = 1" using rc f by simp_all
  then obtain y where y: "?g = [y]" by (cases ?g) auto
  then have "y \<in> set ?g" by simp
  with rc x have "y = (aach_event 8 ''DL/UL-Assign'', 8, 0)" by blast
  then show ?thesis using n(2) y by simp
qed

subsection \<open>The inventory\<close>

lemma map_of_bump: "map_of (bump k d) = (map_of d)(k \<mapsto> (case map_of d k of None \<Rightarrow> 1 | Some n \<Rightarrow> n + 1))"
  by (induction k d rule: bump.induct) (auto simp: fun_eq_iff)

lemma sum_bump: "sum_list (map snd (bump k d)) = sum_list (map snd d) + 1"
  by (induction k d rule: bump.induct) simp_all

lemma keys_bump: "fst ` set (bump k d) = insert k (fst ` set d)"
  by (induction k d rule: bump.induct) auto

lemma distinct_bump: "distinct (map fst d) \<Longrightarrow> distinct (map fst (bump k d))"
  by (induction k d rule: bump.induct) (auto simp: keys_bump)

lemma tally_snoc: "tally (ks @ [k]) = bump k (tally ks)"
  by (simp add: tally_def)

lemma tally_spec:
  "map_of (tally ks) k = (if count_list ks k = 0 then None else Some (count_list ks k)) \<and>
   sum_list (map snd (tally ks)) = length ks \<and> distinct (map fst (tally ks))"
proof (induction ks rule: rev_induct)
  case (snoc x ks)
  then show ?case by (cases "k = x") (auto simp: tally_snoc map_of_bump sum_bump distinct_bump split: option.splits if_splits)
qed (simp add: tally_def)

text \<open>The inventory adds up: every burst type is listed once with the number of its bursts, the numbers of all types sum to the number of
  bursts, the addressed bursts are among the NDB1 bursts and those not broadcast among the addressed, and no uplink burst is
  counted twice.\<close>

theorem inventory_adds_up:
  "(\<forall>t. map_of (type_counts dl) t = (let n = length (filter (\<lambda>ev. e_type ev = t) dl) in if n = 0 then None else Some n)) \<and>
   distinct (map fst (type_counts dl)) \<and> sum_list (map snd (type_counts dl)) = length dl \<and>
   snd (sig_counts dl) \<le> fst (sig_counts dl) \<and> fst (sig_counts dl) \<le> length (filter (\<lambda>ev. e_type ev = ''NDB1'') dl) \<and>
   (case ul_counts ul of (ok, fail, skip) \<Rightarrow> ok + fail + skip \<le> length ul)"
proof -
  have c: "count_list (map e_type dl) t = length (filter (\<lambda>ev. e_type ev = t) dl)" for t
    by (induction dl) auto
  have t: "map_of (type_counts dl) t = (let n = length (filter (\<lambda>ev. e_type ev = t) dl) in if n = 0 then None else Some n)" for t
    using tally_spec [of "map e_type dl" t] by (simp only: type_counts_def c Let_def)
  have s: "distinct (map fst (type_counts dl))" "sum_list (map snd (type_counts dl)) = length dl"
    using tally_spec [of "map e_type dl"] by (simp_all add: type_counts_def)
  have "length (filter (\<lambda>d. is_addressed d \<and> \<not> is_broadcast d) ds) \<le> length (filter is_addressed ds)"
    "length (filter is_addressed ds) \<le> length (filter (\<lambda>ev. e_type ev = ''NDB1'') ds)" for ds
    by (induction ds) (auto simp: is_addressed_def)
  then have m: "snd (sig_counts dl) \<le> fst (sig_counts dl)" "fst (sig_counts dl) \<le> length (filter (\<lambda>ev. e_type ev = ''NDB1'') dl)"
    by (simp_all add: sig_counts_def dl_sig_def)
  have "case ul_counts ul of (ok, fail, skip) \<Rightarrow> ok + fail + skip \<le> length ul"
    by (induction ul) (auto simp: ul_counts_def)
  then show ?thesis using t s m by blast
qed

end
