(* ===== verification/AdcVectors.thy ===== *)
theory AdcVectors
  imports Prelude "HOL-Library.Word"
begin

unbundle bit_operations_syntax

text \<open>
  The samples of the radio chip's interface (\<open>tb/vectors/gen_ad9361_vectors.py\<close>): twelve bits over six double-data-rate lanes,
  sign-extended to sixteen, with the self-check of the generator and the words of its file.  The timing
  reference, which is text, and the comments of the file are left out.
\<close>

definition AD9361_ADC_MAX :: int where "AD9361_ADC_MAX = 2047"
definition AD9361_ADC_MIN :: int where "AD9361_ADC_MIN = - 2048"

definition to_12bit_twos_complement :: "int \<Rightarrow> int res" where
  "to_12bit_twos_complement value = assert_res (AD9361_ADC_MIN \<le> value \<and> value \<le> AD9361_ADC_MAX) (Inr (value AND 0xFFF))"

definition sign_extend_12_to_16 :: "int \<Rightarrow> int" where
  "sign_extend_12_to_16 raw12 = (if raw12 AND 0x800 \<noteq> 0 then raw12 OR 0xF000 else raw12 AND 0x0FFF)"

definition to_16bit_twos_complement :: "int \<Rightarrow> int" where
  "to_16bit_twos_complement value = value AND 0xFFFF"

definition ddr_rising_bits :: "int \<Rightarrow> int" where
  "ddr_rising_bits raw12 = drop_bit 6 raw12 AND 0x3F"

definition ddr_falling_bits :: "int \<Rightarrow> int" where
  "ddr_falling_bits raw12 = raw12 AND 0x3F"

definition reconstruct_from_ddr :: "int \<Rightarrow> int \<Rightarrow> int" where
  "reconstruct_from_ddr rising6 falling6 = push_bit 6 (rising6 AND 0x3F) OR (falling6 AND 0x3F)"

definition expected_output_16bit :: "int \<Rightarrow> int" where
  "expected_output_16bit raw12 = to_16bit_twos_complement (sign_extend_12_to_16 raw12)"

definition test_samples :: "(string \<times> int \<times> int) list" where
  "test_samples =
     map (Pair ''NORMAL'') [(707, 707), (- 707, 707), (707, - 707), (- 707, - 707), (100, 200)]
     @ map (Pair ''BOUNDARY'') [(2047, 2047), (- 2048, - 2048), (2047, - 2048), (- 2048, 2047), (1, - 1)]
     @ map (Pair ''STRESS'') [(1024, - 512), (- 512, 1024), (256, - 128), (- 128, 256), (64, - 32)]"

definition verify_ddr_roundtrip :: "int \<Rightarrow> int \<Rightarrow> bool res" where
  "verify_ddr_roundtrip i_val q_val =
     bind_res (to_12bit_twos_complement i_val) (\<lambda>i_raw.
     bind_res (to_12bit_twos_complement q_val) (\<lambda>q_raw.
       let i_reconstructed = reconstruct_from_ddr (ddr_rising_bits i_raw) (ddr_falling_bits i_raw);
           q_reconstructed = reconstruct_from_ddr (ddr_rising_bits q_raw) (ddr_falling_bits q_raw);
           i_out16 = expected_output_16bit i_reconstructed;
           q_out16 = expected_output_16bit q_reconstructed
       in Inr (i_out16 = to_16bit_twos_complement i_val \<and> q_out16 = to_16bit_twos_complement q_val)))"

definition vector_word :: "int \<Rightarrow> int \<Rightarrow> int res" where
  "vector_word i_val q_val =
     bind_res (to_12bit_twos_complement i_val) (\<lambda>i_raw.
     bind_res (to_12bit_twos_complement q_val) (\<lambda>q_raw.
       Inr (push_bit 16 (expected_output_16bit i_raw AND 0xFFFF) OR (expected_output_16bit q_raw AND 0xFFFF))))"

text \<open>The scenario heads and the words of the file, in order.\<close>

fun hex_vectors :: "string option \<Rightarrow> (string \<times> int \<times> int) list \<Rightarrow> (string + int) list res" where
  "hex_vectors current [] = Inr []"
| "hex_vectors current ((scenario, i_val, q_val) # es) =
     bind_res (vector_word i_val q_val) (\<lambda>word.
     bind_res (hex_vectors (Some scenario) es) (\<lambda>lines.
       Inr ((if Some scenario \<noteq> current then [Inl scenario] else []) @ [Inr word] @ lines)))"

subsection \<open>Twelve bits through six lanes\<close>

lemma mask_consts: "(0x3F :: int) = mask 6" "(0xFFF :: int) = mask 12" "(0xFFFF :: int) = mask 16" "(0xF000 :: int) = push_bit 12 (mask 4)"
  "(0x800 :: int) = push_bit 11 1"
  by (simp_all add: mask_eq_exp_minus_1)

lemma take_bit_masks: "v AND 0x3F = take_bit 6 v" "v AND 0xFFF = take_bit 12 v" "v AND 0xFFFF = take_bit 16 v" for v :: int
  unfolding mask_consts by (simp_all only: take_bit_eq_mask)

lemma reconstruct_raw: "reconstruct_from_ddr (ddr_rising_bits v) (ddr_falling_bits v) = take_bit 12 v"
  unfolding reconstruct_from_ddr_def ddr_rising_bits_def ddr_falling_bits_def take_bit_masks
  by (rule bit_eqI) (auto simp: bit_or_iff bit_push_bit_iff bit_take_bit_iff bit_drop_bit_eq)

lemma sign_bit_above: "- 2048 \<le> v \<Longrightarrow> v < 2048 \<Longrightarrow> 11 \<le> n \<Longrightarrow> bit v n = bit v 11" for v :: int
proof -
  assume "- 2048 \<le> v" "v < 2048" and n: "11 \<le> n"
  then have "signed_take_bit 11 v = v" by (intro signed_take_bit_int_eq_self) simp_all
  then have "bit v n = bit (signed_take_bit 11 v) n" by simp
  also have "\<dots> = bit v 11" using n by (simp add: bit_signed_take_bit_iff min_absorb2)
  finally show ?thesis .
qed

lemma expected_raw:
  assumes "- 2048 \<le> v" "v < 2048"
  shows "expected_output_16bit (take_bit 12 v) = take_bit 16 v"
proof (rule bit_eqI)
  fix n
  have s: "take_bit 12 v AND 0x800 \<noteq> 0 \<longleftrightarrow> bit v 11"
    unfolding mask_consts(5) bit_iff_and_push_bit_not_eq_0 [symmetric] by (simp add: bit_take_bit_iff)
  have h: "bit v n = bit v 11" if "11 \<le> n" using sign_bit_above [OF assms that] .
  have "bit (expected_output_16bit (take_bit 12 v)) n \<longleftrightarrow> n < 16 \<and> (if n < 12 then bit v n else bit v 11)"
    unfolding expected_output_16bit_def to_16bit_twos_complement_def sign_extend_12_to_16_def s take_bit_masks
    unfolding mask_consts(4)
    by (auto simp: bit_take_bit_iff bit_or_iff bit_push_bit_iff bit_mask_iff)
  then show "bit (expected_output_16bit (take_bit 12 v)) n = bit (take_bit 16 v) n"
    using h by (auto simp: bit_take_bit_iff not_less)
qed

text \<open>The interface is lossless: the self-check returns true on every pair of samples of the converter and raises on every other; the
  word of the file carries both samples, as sixteen bits and, in the bits the test bench extracts, as twelve.\<close>

theorem ddr_roundtrip_lossless:
  "verify_ddr_roundtrip i q =
     (if - 2048 \<le> i \<and> i \<le> 2047 \<and> - 2048 \<le> q \<and> q \<le> 2047 then Inr True else Inl AssertionError) \<and>
   (- 2048 \<le> i \<and> i \<le> 2047 \<and> - 2048 \<le> q \<and> q \<le> 2047 \<longrightarrow>
     (\<exists>w. vector_word i q = Inr w \<and> w = (i mod 2 ^ 16) * 2 ^ 16 + q mod 2 ^ 16 \<and>
       to_12bit_twos_complement i = Inr (drop_bit 16 w mod 2 ^ 12) \<and> to_12bit_twos_complement q = Inr (w mod 2 ^ 12)))"
proof (intro conjI impI)
  have e: "verify_ddr_roundtrip i q = Inr True" if "- 2048 \<le> i \<and> i \<le> 2047 \<and> - 2048 \<le> q \<and> q \<le> 2047"
    using that by (simp add: verify_ddr_roundtrip_def to_12bit_twos_complement_def AD9361_ADC_MIN_def AD9361_ADC_MAX_def
        take_bit_masks reconstruct_raw expected_raw to_16bit_twos_complement_def Let_def)
  then show "verify_ddr_roundtrip i q =
     (if - 2048 \<le> i \<and> i \<le> 2047 \<and> - 2048 \<le> q \<and> q \<le> 2047 then Inr True else Inl AssertionError)"
    by (auto simp: verify_ddr_roundtrip_def to_12bit_twos_complement_def AD9361_ADC_MIN_def AD9361_ADC_MAX_def assert_res_def)
  assume r: "- 2048 \<le> i \<and> i \<le> 2047 \<and> - 2048 \<le> q \<and> q \<le> 2047"
  let ?w = "push_bit 16 (take_bit 16 i) OR take_bit 16 q"
  have w: "vector_word i q = Inr ?w"
    using r by (simp add: vector_word_def to_12bit_twos_complement_def AD9361_ADC_MIN_def AD9361_ADC_MAX_def take_bit_masks expected_raw)
  have "?w = take_bit 16 i * 2 ^ 16 + take_bit 16 q"
    by (rule push_bit_or_add) (simp, rule take_bit_int_less_exp)
  then have s: "?w = (i mod 2 ^ 16) * 2 ^ 16 + q mod 2 ^ 16" by (simp add: take_bit_eq_mod)
  have "drop_bit 16 ?w mod 2 ^ 12 = take_bit 12 i" "?w mod 2 ^ 12 = take_bit 12 q"
    unfolding take_bit_eq_mod [symmetric]
    by (rule bit_eqI, auto simp: bit_take_bit_iff bit_or_iff bit_push_bit_iff bit_drop_bit_eq)+
  then show "\<exists>w. vector_word i q = Inr w \<and> w = (i mod 2 ^ 16) * 2 ^ 16 + q mod 2 ^ 16 \<and>
       to_12bit_twos_complement i = Inr (drop_bit 16 w mod 2 ^ 12) \<and> to_12bit_twos_complement q = Inr (w mod 2 ^ 12)"
    using w s r by (intro exI [of _ ?w])
      (simp add: to_12bit_twos_complement_def AD9361_ADC_MIN_def AD9361_ADC_MAX_def take_bit_masks)
qed

theorem ddr_roundtrip_lossless_witness:
  "verify_ddr_roundtrip (- 2048) 2047 = Inr True \<and> verify_ddr_roundtrip 2048 0 = Inl AssertionError"
  using ddr_roundtrip_lossless [of "- 2048" 2047] ddr_roundtrip_lossless [of 2048 0] by simp

text \<open>The samples of the script pass, and its file has a word for each and three heads.\<close>

lemma test_samples_pass: "\<forall>(s, i, q) \<in> set test_samples. verify_ddr_roundtrip i q = Inr True"
  by (simp add: test_samples_def ddr_roundtrip_lossless [THEN conjunct1])

end
