(* ===== verification/BurstDecode.thy ===== *)
theory BurstDecode
  imports DecodePdu
begin

text \<open>
  The properties of \<open>decode_burst\<close> of \<open>scripts/decode_pdu.py\<close> (its errors, truncated elements, round
  trips of whole bursts) and the comparison of two bursts, \<open>cmp_dict\<close> and \<open>diff_two\<close>, as the list of
  lines they print.
\<close>

subsection \<open>Reading packed fields\<close>

text \<open>The cursor between what it has read and what is left.\<close>

definition cur_at :: "bits \<Rightarrow> bits \<Rightarrow> dict \<Rightarrow> cst" where
  "cur_at pre rest d = \<lparr>cbits = pre @ rest, cpos = int (length pre), cout = d\<rparr>"

lemma cur_at_sel [simp]:
  "cbits (cur_at pre rest d) = pre @ rest" "cpos (cur_at pre rest d) = int (length pre)"
  "cout (cur_at pre rest d) = d"
  by (simp_all add: cur_at_def)

lemma cur_at_cout [simp]: "cur_at pre rest d\<lparr>cout := d'\<rparr> = cur_at pre rest d'"
  by (simp add: cur_at_def)

definition fits :: "nat \<Rightarrow> int \<Rightarrow> bool" where
  "fits n v \<longleftrightarrow> 0 \<le> v \<and> v < 2 ^ n"

lemma read_packed:
  "fits n v \<Longrightarrow> cursor_read n (cur_at pre (to_bits n v @ rest) d) = (VInt v, cur_at (pre @ to_bits n v) rest d)"
  by (simp add: cursor_read_run clen_def bits_val_to_bits_id fits_def)

lemma rd_packed:
  "fits n v \<Longrightarrow>
   rd k n (cur_at pre (to_bits n v @ rest) d) = Next (cur_at (pre @ to_bits n v) rest (dset k (VInt v) d))"
  by (simp add: rd_def read_packed)

lemma rdv_packed:
  "fits n v \<Longrightarrow>
   rdv n f (cur_at pre (to_bits n v @ rest) d) = block (f (VInt v)) (cur_at (pre @ to_bits n v) rest d)"
  by (simp add: rdv_def read_packed)

definition bit_text :: "bits \<Rightarrow> string" where
  "bit_text bs = map (\<lambda>b. if b then CHR ''1'' else CHR ''0'') bs"

lemma bit_text_binary: "list_all (\<lambda>c. c = CHR ''0'' \<or> c = CHR ''1'') (bit_text bs)"
  by (induction bs) (simp_all add: bit_text_def)

lemma bit_text_inverse: "map (\<lambda>c. c = CHR ''1'') (bit_text bs) = bs"
  by (simp add: bit_text_def map_idI)

lemma run_packed:
  "block cs (cur_at pre rest []) = Next (cur_at pre' rest' d) \<or> block cs (cur_at pre rest []) = Return (cur_at pre' rest' d)
   \<Longrightarrow> run_decoder cs (pre @ rest) (int (length pre)) = Inr (d, int (length pre'))"
  by (auto simp: run_decoder_def cur_at_def)

lemmas packed_simps = rd_packed rdv_packed out_put_def out_sub_def do_when_def branch_def return_now_def
  py_name_def py_str_def

text \<open>The fields of an addressed, unfragmented MAC-ACCESS and of a plain MAC-RESOURCE, a BL-DATA header
  and the MLE discriminator, packed as the transmitters do.\<close>

definition mac_access_bits :: "int \<Rightarrow> int \<Rightarrow> int \<Rightarrow> bits" where
  "mac_access_bits fill enc ssi =
     to_bits 1 0 @ to_bits 1 fill @ to_bits 1 enc @ to_bits 2 0 @ to_bits 24 ssi @ to_bits 1 0"

definition bl_data_bits :: "int \<Rightarrow> int \<Rightarrow> bits" where
  "bl_data_bits ns disc = to_bits 4 1 @ to_bits 1 ns @ to_bits 3 disc"

definition mac_access_fields :: "int \<Rightarrow> int \<Rightarrow> int \<Rightarrow> dict" where
  "mac_access_fields fill enc ssi =
     [(''mac_pdu_type'', VInt 0), (''fill_bits'', VInt fill), (''encrypted'', VInt enc), (''addr_type'', VInt 0),
      (''addr_type_name'', VStr ''Ssi(ISSI)''), (''ssi'', VInt ssi), (''optional_field_flag'', VInt 0)]"

lemma fits_small [simp]: "0 < n \<Longrightarrow> fits n 0" "0 < n \<Longrightarrow> fits n 1"
  by (auto simp: fits_def intro: one_less_power)

lemma mac_access_packed:
  assumes "fits 1 fill" "fits 1 enc" "fits 24 ssi"
  shows "block decode_mac_access (cur_at pre (mac_access_bits fill enc ssi @ rest) []) =
    Next (cur_at (pre @ mac_access_bits fill enc ssi) rest (mac_access_fields fill enc ssi))"
  using assms
  by (simp del: One_nat_def add: decode_mac_access_def mac_access_bits_def mac_access_fields_def pdu_access_address_def pdu_access_optional_def
      packed_simps UL_ADDR_NAMES_def)

definition llc_fields :: "int \<Rightarrow> dict" where
  "llc_fields ns = [(''llc_type'', VInt 1), (''llc_type_name'', VStr ''BL-DATA''), (''ns'', VInt ns)]"

lemma llc_packed:
  "fits 1 ns \<Longrightarrow> block decode_llc (cur_at pre (to_bits 4 1 @ to_bits 1 ns @ rest) []) =
     Next (cur_at (pre @ to_bits 4 1 @ to_bits 1 ns) rest (llc_fields ns))"
  by (simp del: One_nat_def add: decode_llc_def packed_simps PDU_LLC_NAMES_def llc_fields_def)

lemma mle_packed:
  "fits 3 d \<Longrightarrow> block decode_mle (cur_at pre (to_bits 3 d @ rest) []) =
     Next (cur_at (pre @ to_bits 3 d) rest
       [(''discriminator'', VInt d), (''discriminator_name'', name_of PDU_MLE_DISC_NAMES ''?'' d)])"
  by (simp del: One_nat_def add: decode_mle_def packed_simps)

definition service_bits :: "int \<Rightarrow> int \<Rightarrow> int \<Rightarrow> int \<Rightarrow> bits" where
  "service_bits cmt enc ct sv = to_bits 3 cmt @ to_bits 1 enc @ to_bits 2 ct @ to_bits 2 sv"

definition service_fields :: "int \<Rightarrow> int \<Rightarrow> int \<Rightarrow> int \<Rightarrow> dict" where
  "service_fields cmt enc ct sv =
     [(''circuit_mode_type'', VInt cmt),
      (''circuit_mode_type_name'', name_of CIRCUIT_MODE_NAMES (''?('' @ str_int cmt @ '')'') cmt),
      (''encryption_flag'', VInt enc), (''communication_type'', VInt ct),
      (''communication_type_name'', name_of COMM_TYPE_NAMES ''?'' ct),
      (if cmt = 0 then ''speech_service'' else ''slots_per_frame'', VInt sv)]"

lemma service_packed:
  assumes "fits 3 cmt" "fits 1 enc" "fits 2 ct" "fits 2 sv"
  shows "block basic_service (cur_at pre (service_bits cmt enc ct sv @ rest) []) =
    Next (cur_at (pre @ service_bits cmt enc ct sv) rest (service_fields cmt enc ct sv))"
  using assms
  by (simp del: One_nat_def add: basic_service_def service_bits_def service_fields_def packed_simps)

text \<open>A U-SETUP to a called SSI, without optional elements.\<close>

record u_setup =
  area :: int
  hook :: int
  duplex :: int
  service :: "int \<times> int \<times> int \<times> int"
  rts :: int
  prio :: int
  clir :: int
  called :: int

definition u_setup_ok :: "u_setup \<Rightarrow> bool" where
  "u_setup_ok u \<longleftrightarrow> fits 4 (area u) \<and> fits 1 (hook u) \<and> fits 1 (duplex u) \<and>
     (case service u of (cmt, enc, ct, sv) \<Rightarrow> fits 3 cmt \<and> fits 1 enc \<and> fits 2 ct \<and> fits 2 sv) \<and>
     fits 1 (rts u) \<and> fits 4 (prio u) \<and> fits 2 (clir u) \<and> fits 24 (called u)"

definition u_setup_bits :: "u_setup \<Rightarrow> bits" where
  "u_setup_bits u = to_bits 5 7 @ to_bits 4 (area u) @ to_bits 1 (hook u) @ to_bits 1 (duplex u) @
     (case service u of (cmt, enc, ct, sv) \<Rightarrow> service_bits cmt enc ct sv) @
     to_bits 1 (rts u) @ to_bits 4 (prio u) @ to_bits 2 (clir u) @ to_bits 2 1 @ to_bits 24 (called u) @ to_bits 1 0"

definition u_setup_fields :: "int \<Rightarrow> u_setup \<Rightarrow> dict" where
  "u_setup_fields start u =
     [(''_start'', VInt start), (''pdu_type'', VInt 7), (''pdu_type_name'', VStr ''USetup''),
      (''area_selection'', VInt (area u)), (''hook_method_selection'', VInt (hook u)),
      (''simplex_duplex_selection'', VInt (duplex u)),
      (''basic_service_information'',
        VDict (case service u of (cmt, enc, ct, sv) \<Rightarrow> service_fields cmt enc ct sv)),
      (''request_to_transmit_send_data'', VInt (rts u)), (''call_priority'', VInt (prio u)),
      (''clir_control'', VInt (clir u)), (''called_party_type_identifier'', VInt 1),
      (''called_party_type_identifier_name'', VStr ''SSI''), (''called_party_ssi'', VInt (called u)),
      (''obit'', VInt 0)]"

lemma fits_7 [simp]: "fits 5 7" "fits 5 2" "fits 3 2"
  by (simp_all add: fits_def)

lemma body_start_at: "body_start (cur_at pre rest d) = Next (cur_at pre rest (dset ''_start'' (VInt (int (length pre))) d))"
  by (simp add: body_start_def)

lemma service_sub_packed:
  "fits 3 cmt \<and> fits 1 enc \<and> fits 2 ct \<and> fits 2 sv \<Longrightarrow>
   out_sub k basic_service (cur_at pre (service_bits cmt enc ct sv @ rest) d) =
     Next (cur_at (pre @ service_bits cmt enc ct sv) rest (dset k (VDict (service_fields cmt enc ct sv)) d))"
  by (simp add: out_sub_def service_packed)

lemma u_setup_packed:
  assumes "u_setup_ok u"
  shows "block decode_u_setup_body (cur_at pre (u_setup_bits u @ rest) []) =
    Return (cur_at (pre @ u_setup_bits u) rest (u_setup_fields (int (length pre)) u))"
proof -
  obtain cmt enc ct sv where s: "service u = (cmt, enc, ct, sv)" by (cases "service u")
  show ?thesis using assms
    by (simp del: One_nat_def out_sub_def add: u_setup_ok_def s decode_u_setup_body_def typed_body_def u_setup_bits_def u_setup_fields_def
        body_start_at rd_packed rdv_packed out_put_def do_when_def branch_def return_now_def py_name_def
        service_sub_packed called_party_def UL_CMCE_PDU_NAMES_def PARTY_TYPE_NAMES_def)
qed

subsection \<open>Whole bursts\<close>

lemma decode_burst_binary:
  "decode_burst (bit_text bs) expd =
     bind_res (run_decoder (if fst expd = ''UL-MM'' \<or> fst expd = ''UL-CMCE'' then decode_mac_access else decode_mac_resource) bs 0)
       (\<lambda>(mac, p1). bind_res (run_decoder decode_llc bs p1)
       (\<lambda>(llc, p2). bind_res (run_decoder decode_mle bs p2)
       (\<lambda>(mle, p3). case map_of PDU_BODY_DECODERS expd of
             None \<Rightarrow> Inr [(''mac'', VDict mac), (''llc'', VDict llc), (''mle'', VDict mle)]
           | Some cs \<Rightarrow> bind_res (run_decoder cs bs p3) (\<lambda>(body, p4).
                 Inr [(''mac'', VDict mac), (''llc'', VDict llc), (''mle'', VDict mle),
                      (''body'', VDict body), (''final_pos'', VInt p4)]))))"
  by (simp add: decode_burst_def bit_text_binary bit_text_inverse Let_def)

text \<open>The three headers and the body of a burst, each read where the one before it ends.\<close>

lemma decode_burst_layers:
  assumes mac: "run_decoder (if fst expd = ''UL-MM'' \<or> fst expd = ''UL-CMCE'' then decode_mac_access else decode_mac_resource)
        (m @ l @ e @ b) 0 = Inr (mac, int (length m))"
    and llc: "run_decoder decode_llc (m @ l @ e @ b) (int (length m)) = Inr (llc, int (length (m @ l)))"
    and mle: "run_decoder decode_mle ((m @ l) @ e @ b) (int (length (m @ l))) = Inr (mle, int (length ((m @ l) @ e)))"
    and body: "map_of PDU_BODY_DECODERS expd = Some cs"
       "run_decoder cs (((m @ l) @ e) @ b) (int (length ((m @ l) @ e))) = Inr (d, p)"
  shows "decode_burst (bit_text (m @ l @ e @ b)) expd =
    Inr [(''mac'', VDict mac), (''llc'', VDict llc), (''mle'', VDict mle), (''body'', VDict d), (''final_pos'', VInt p)]"
  using assms by (simp add: decode_burst_binary)

lemma run_mac_access:
  assumes "fits 1 fill" "fits 1 enc" "fits 24 ssi"
  shows "run_decoder decode_mac_access (mac_access_bits fill enc ssi @ rest) 0 =
    Inr (mac_access_fields fill enc ssi, int (length (mac_access_bits fill enc ssi)))"
  using run_packed [OF disjI1, OF mac_access_packed [OF assms, of "[]"]] by simp

lemma run_llc:
  assumes "fits 1 ns"
  shows "run_decoder decode_llc (m @ (to_bits 4 1 @ to_bits 1 ns) @ rest) (int (length m)) =
    Inr (llc_fields ns, int (length (m @ to_bits 4 1 @ to_bits 1 ns)))"
  using run_packed [OF disjI1, OF llc_packed [OF assms, of m]] by simp

lemma run_mle:
  assumes "fits 3 x"
  shows "run_decoder decode_mle (m @ to_bits 3 x @ rest) (int (length m)) =
    Inr ([(''discriminator'', VInt x), (''discriminator_name'', name_of PDU_MLE_DISC_NAMES ''?'' x)],
      int (length (m @ to_bits 3 x)))"
  by (rule run_packed [OF disjI1, OF mle_packed [OF assms]])

text \<open>A call set-up on the random access channel is decoded back completely: for every 24-bit address,
  every value of the MAC flags, of the LLC sequence number and of the fields of U-SETUP, and whatever
  follows it, \<open>decode_burst\<close> returns the dictionaries of the four layers with exactly the packed
  values and their names, the speech service or the slots per frame as the circuit mode says, and the
  cursor where the PDU ends.\<close>

theorem u_setup_roundtrip:
  assumes "fits 1 fill" "fits 1 enc" "fits 24 ssi" "fits 1 ns" "u_setup_ok u"
  shows "decode_burst (bit_text (mac_access_bits fill enc ssi @ (to_bits 4 1 @ to_bits 1 ns) @ to_bits 3 2 @
      u_setup_bits u @ rest)) (''UL-CMCE'', ''U-SETUP'') =
    Inr [(''mac'', VDict (mac_access_fields fill enc ssi)), (''llc'', VDict (llc_fields ns)),
      (''mle'', VDict [(''discriminator'', VInt 2), (''discriminator_name'', VStr ''CMCE'')]),
      (''body'', VDict (u_setup_fields 38 u)), (''final_pos'', VInt 91)]"
proof -
  let ?m = "mac_access_bits fill enc ssi" and ?l = "to_bits 4 1 @ to_bits 1 ns" and ?e = "to_bits 3 2"
  have len: "length ?m = 30" "length (u_setup_bits u) = 53"
    by (simp_all add: mac_access_bits_def u_setup_bits_def service_bits_def case_prod_beta)
  have "run_decoder decode_u_setup_body (((?m @ ?l) @ ?e) @ u_setup_bits u @ rest) (int (length ((?m @ ?l) @ ?e))) =
      Inr (u_setup_fields 38 u, 91)"
    using run_packed [OF disjI2, OF u_setup_packed [OF assms(5), of "(?m @ ?l) @ ?e" rest]] by (simp add: len)
  then show ?thesis
    using assms run_mac_access [of fill enc ssi] run_llc [of ns ?m] run_mle [of 2 "?m @ ?l"]
    by (intro decode_burst_layers) (simp_all add: len PDU_MLE_DISC_NAMES_def PDU_BODY_DECODERS_def)
qed

theorem u_setup_roundtrip_witness:
  "decode_burst (bit_text (mac_access_bits 0 0 2629608 @ (to_bits 4 1 @ to_bits 1 1) @ to_bits 3 2 @
      u_setup_bits (u_setup.make 0 0 0 (0, 0, 1, 0) 1 0 0 2) @ [])) (''UL-CMCE'', ''U-SETUP'') =
    Inr [(''mac'', VDict (mac_access_fields 0 0 2629608)), (''llc'', VDict (llc_fields 1)),
      (''mle'', VDict [(''discriminator'', VInt 2), (''discriminator_name'', VStr ''CMCE'')]),
      (''body'', VDict (u_setup_fields 38 (u_setup.make 0 0 0 (0, 0, 1, 0) 1 0 0 2))), (''final_pos'', VInt 91)]"
  by (rule u_setup_roundtrip) (simp_all add: fits_def u_setup_ok_def u_setup.make_def)

subsection \<open>D-CONNECT\<close>

definition mac_resource_bits :: "int \<Rightarrow> int \<Rightarrow> int \<Rightarrow> int \<Rightarrow> int \<Rightarrow> int \<Rightarrow> bits" where
  "mac_resource_bits fill grant enc ra len ssi =
     to_bits 2 0 @ to_bits 1 fill @ to_bits 1 grant @ to_bits 2 enc @ to_bits 1 ra @ to_bits 6 len @
     to_bits 3 1 @ to_bits 24 ssi @ to_bits 1 0 @ to_bits 1 0 @ to_bits 1 0"

definition mac_resource_fields :: "int \<Rightarrow> int \<Rightarrow> int \<Rightarrow> int \<Rightarrow> int \<Rightarrow> int \<Rightarrow> dict" where
  "mac_resource_fields fill grant enc ra len ssi =
     [(''pdu_type'', VInt 0), (''fill_bit'', VInt fill), (''position_of_grant'', VInt grant),
      (''encryption_mode'', VInt enc), (''random_access_flag'', VInt ra), (''length_indicator'', VInt len),
      (''address_type'', VInt 1), (''address_type_name'', VStr ''SSI''), (''ssi'', VInt ssi),
      (''power_control_flag'', VInt 0), (''slot_granting_flag'', VInt 0), (''channel_allocation_flag'', VInt 0)]"

lemma mac_resource_packed:
  assumes "fits 1 fill" "fits 1 grant" "fits 2 enc" "fits 1 ra" "fits 6 len" "fits 24 ssi"
  shows "block decode_mac_resource (cur_at pre (mac_resource_bits fill grant enc ra len ssi @ rest) []) =
    Next (cur_at (pre @ mac_resource_bits fill grant enc ra len ssi) rest (mac_resource_fields fill grant enc ra len ssi))"
  using assms
  by (simp del: One_nat_def add: decode_mac_resource_def mac_resource_bits_def mac_resource_fields_def pdu_address_def
      pdu_flags_def packed_simps PDU_ADDR_NAMES_def)

lemma run_mac_resource:
  assumes "fits 1 fill" "fits 1 grant" "fits 2 enc" "fits 1 ra" "fits 6 len" "fits 24 ssi"
  shows "run_decoder decode_mac_resource (mac_resource_bits fill grant enc ra len ssi @ rest) 0 =
    Inr (mac_resource_fields fill grant enc ra len ssi, int (length (mac_resource_bits fill grant enc ra len ssi)))"
  using run_packed [OF disjI1, OF mac_resource_packed [OF assms, of "[]"]] by simp

text \<open>The mandatory part of a D-CONNECT, a priority, the basic service, no address, no notification and no
  type 3 element (the last m-bit is 0).\<close>

record d_connect =
  call_id :: int
  timeout :: int
  hook_method :: int
  simplex :: int
  tx_grant :: int
  tx_perm :: int
  owner :: int
  priority :: int
  basic :: "int \<times> int \<times> int \<times> int"

definition d_connect_ok :: "d_connect \<Rightarrow> bool" where
  "d_connect_ok c \<longleftrightarrow> fits 14 (call_id c) \<and> fits 4 (timeout c) \<and> fits 1 (hook_method c) \<and> fits 1 (simplex c) \<and>
     fits 2 (tx_grant c) \<and> fits 1 (tx_perm c) \<and> fits 1 (owner c) \<and> fits 4 (priority c) \<and>
     (case basic c of (cmt, enc, ct, sv) \<Rightarrow> fits 3 cmt \<and> fits 1 enc \<and> fits 2 ct \<and> fits 2 sv)"

definition d_connect_bits :: "d_connect \<Rightarrow> bits" where
  "d_connect_bits c = to_bits 5 2 @ to_bits 14 (call_id c) @ to_bits 4 (timeout c) @ to_bits 1 (hook_method c) @
     to_bits 1 (simplex c) @ to_bits 2 (tx_grant c) @ to_bits 1 (tx_perm c) @ to_bits 1 (owner c) @ to_bits 1 1 @
     to_bits 1 1 @ to_bits 4 (priority c) @
     to_bits 1 1 @ (case basic c of (cmt, enc, ct, sv) \<Rightarrow> service_bits cmt enc ct sv) @
     to_bits 1 0 @ to_bits 1 0 @ to_bits 1 0"

definition d_connect_fields :: "int \<Rightarrow> d_connect \<Rightarrow> dict" where
  "d_connect_fields start c =
     [(''_start'', VInt start), (''pdu_type'', VInt 2), (''pdu_type_name'', VStr ''DConnect''),
      (''call_identifier'', VInt (call_id c)), (''call_time_out'', VInt (timeout c)),
      (''call_time_out_name'', name_of CALL_TIMEOUT_NAMES ''?'' (timeout c)),
      (''hook_method_selection'', VInt (hook_method c)), (''simplex_duplex_selection'', VInt (simplex c)),
      (''transmission_grant'', VInt (tx_grant c)),
      (''transmission_grant_name'', name_of TRANSMISSION_GRANT_NAMES ''?'' (tx_grant c)),
      (''transmission_request_permission'', VInt (tx_perm c)), (''call_ownership'', VInt (owner c)),
      (''obit'', VInt 1), (''call_priority_pbit'', VInt 1), (''call_priority'', VInt (priority c)),
      (''basic_service_information_pbit'', VInt 1),
      (''basic_service_information'',
        VDict (case basic c of (cmt, enc, ct, sv) \<Rightarrow> service_fields cmt enc ct sv)),
      (''temporary_address_pbit'', VInt 0), (''notification_indicator_pbit'', VInt 0), (''trailing_mbit'', VInt 0)]"

lemma type2_present:
  "fits n v \<Longrightarrow> type2 kp k n (cur_at pre (to_bits 1 1 @ to_bits n v @ rest) d) =
     Next (cur_at (pre @ to_bits 1 1 @ to_bits n v) rest (dset k (VInt v) (dset kp (VInt 1) d)))"
  by (simp del: One_nat_def add: type2_def read_pbit_and_value_def read_packed)

lemma type2_absent:
  "type2 kp k n (cur_at pre (to_bits 1 0 @ rest) d) = Next (cur_at (pre @ to_bits 1 0) rest (dset kp (VInt 0) d))"
  by (simp del: One_nat_def add: type2_def read_pbit_and_value_def read_packed)

lemma peek_packed:
  "fits n v \<Longrightarrow> cursor_peek n (cur_at pre (to_bits n v @ rest) d) = VInt v"
  by (simp add: cursor_peek_run clen_def bits_val_to_bits_id fits_def)

lemma type3_absent:
  "type3 k i (cur_at pre (to_bits 1 0 @ rest) d) = Next (cur_at pre (to_bits 1 0 @ rest) d)"
  by (simp del: One_nat_def add: type3_def store_element_def read_type3_if_matches_def peek_packed)

lemma trailing_packed:
  "fits 1 v \<Longrightarrow> trailing_mbit (cur_at pre (to_bits 1 v @ rest) d) =
     Next (cur_at (pre @ to_bits 1 v) rest (dset ''trailing_mbit'' (VInt v) d))"
  by (simp del: One_nat_def add: trailing_mbit_def do_when_def peek_packed rd_packed)

lemma d_connect_packed:
  assumes "d_connect_ok c"
  shows "block decode_d_connect_body (cur_at pre (d_connect_bits c @ rest) []) =
    Next (cur_at (pre @ d_connect_bits c) rest (d_connect_fields (int (length pre)) c))"
proof -
  obtain cmt enc ct sv where s: "basic c = (cmt, enc, ct, sv)" by (cases "basic c")
  show ?thesis using assms
    by (simp del: One_nat_def add: d_connect_ok_def s decode_d_connect_body_def typed_body_def d_connect_bits_def
        d_connect_fields_def body_start_at rd_packed rdv_packed out_put_def do_when_def return_now_def py_name_def
        service_sub_packed type2_present type2_absent type3_absent trailing_packed CMCE_PDU_TYPE_NAMES_def)
qed

text \<open>A D-CONNECT to a mobile is decoded back completely: for every address, every value of the
  MAC-RESOURCE header, of the LLC sequence number and of the mandatory and optional fields packed,
  \<open>decode_burst\<close> returns the four dictionaries with exactly those values, their names, the p-bits of
  the absent elements and the closing m-bit, and the cursor where the PDU ends.\<close>

theorem d_connect_roundtrip:
  assumes "fits 1 fill" "fits 1 grant" "fits 2 enc" "fits 1 ra" "fits 6 len" "fits 24 ssi" "fits 1 ns" "d_connect_ok c"
  shows "decode_burst (bit_text (mac_resource_bits fill grant enc ra len ssi @ (to_bits 4 1 @ to_bits 1 ns) @ to_bits 3 2 @
      d_connect_bits c @ rest)) (''CMCE'', ''D-CONNECT'') =
    Inr [(''mac'', VDict (mac_resource_fields fill grant enc ra len ssi)), (''llc'', VDict (llc_fields ns)),
      (''mle'', VDict [(''discriminator'', VInt 2), (''discriminator_name'', VStr ''CMCE'')]),
      (''body'', VDict (d_connect_fields 51 c)), (''final_pos'', VInt 98)]"
proof -
  let ?m = "mac_resource_bits fill grant enc ra len ssi" and ?l = "to_bits 4 1 @ to_bits 1 ns" and ?e = "to_bits 3 2"
  have lens: "length ?m = 43" "length (d_connect_bits c) = 47"
    by (simp_all add: mac_resource_bits_def d_connect_bits_def service_bits_def case_prod_beta)
  have "run_decoder decode_d_connect_body (((?m @ ?l) @ ?e) @ d_connect_bits c @ rest) (int (length ((?m @ ?l) @ ?e))) =
      Inr (d_connect_fields 51 c, 98)"
    using run_packed [OF disjI1, OF d_connect_packed [OF assms(8), of "(?m @ ?l) @ ?e" rest]] by (simp add: lens)
  then show ?thesis
    using assms run_mac_resource [of fill grant enc ra len ssi] run_llc [of ns ?m] run_mle [of 2 "?m @ ?l"]
    by (intro decode_burst_layers) (simp_all add: lens PDU_MLE_DISC_NAMES_def PDU_BODY_DECODERS_def)
qed

theorem d_connect_roundtrip_witness:
  "decode_burst (bit_text (mac_resource_bits 1 0 0 0 32 2629608 @ (to_bits 4 1 @ to_bits 1 0) @ to_bits 3 2 @
      d_connect_bits (d_connect.make 7 5 1 0 0 1 1 6 (0, 0, 1, 0)) @ [])) (''CMCE'', ''D-CONNECT'') =
    Inr [(''mac'', VDict (mac_resource_fields 1 0 0 0 32 2629608)), (''llc'', VDict (llc_fields 0)),
      (''mle'', VDict [(''discriminator'', VInt 2), (''discriminator_name'', VStr ''CMCE'')]),
      (''body'', VDict (d_connect_fields 51 (d_connect.make 7 5 1 0 0 1 1 6 (0, 0, 1, 0)))), (''final_pos'', VInt 98)]"
  by (rule d_connect_roundtrip) (simp_all add: fits_def d_connect_ok_def d_connect.make_def)

subsection \<open>Errors\<close>

lemma hex_value_none: "hex_value v s = None \<longleftrightarrow> (\<exists>c \<in> set s. hex_val c = None)"
  by (induction s arbitrary: v) (auto split: option.split)

lemma strip_binary:
  assumes "list_all (\<lambda>c. c = CHR ''0'' \<or> c = CHR ''1'') s" shows "\<forall>c \<in> set (strip_0x s). hex_val c \<noteq> None"
proof -
  have "set (strip_0x s) \<subseteq> set s" by (auto simp: strip_0x_def dest: in_set_dropD)
  then have "c = CHR ''0'' \<or> c = CHR ''1''" if "c \<in> set (strip_0x s)" for c
    using assms that by (auto simp: list_all_iff)
  moreover have "hex_val (CHR ''0'') \<noteq> None" "hex_val (CHR ''1'') \<noteq> None" by (simp_all add: hex_val_def)
  ultimately show ?thesis by blast
qed

lemma body_forward:
  assumes "map_of PDU_BODY_DECODERS expd = Some cs" "0 \<le> pos"
  shows "run_decoder cs bits pos = Inl TypeError \<or> (\<exists>d p. run_decoder cs bits pos = Inr (d, p) \<and> pos \<le> p)"
proof -
  have "cs \<in> {decode_d_connect_body, decode_d_loc_upd_accept_body, decode_u_itsi_detach_body,
      decode_u_loc_upd_demand_body, decode_u_setup_body}"
    using assms(1) by (auto simp: PDU_BODY_DECODERS_def split: if_splits)
  then show ?thesis
    using d_connect.run_forward d_loc_upd.run_forward itsi_detach.run_forward u_loc_upd.run_forward
      u_setup.run_forward assms(2) by blast
qed

definition burst_of_bits :: "bits \<Rightarrow> string \<times> string \<Rightarrow> dict res" where
  "burst_of_bits bits expd =
     bind_res (run_decoder (if fst expd = ''UL-MM'' \<or> fst expd = ''UL-CMCE'' then decode_mac_access else decode_mac_resource) bits 0)
       (\<lambda>(mac, p1). bind_res (run_decoder decode_llc bits p1)
       (\<lambda>(llc, p2). bind_res (run_decoder decode_mle bits p2)
       (\<lambda>(mle, p3). case map_of PDU_BODY_DECODERS expd of
             None \<Rightarrow> Inr [(''mac'', VDict mac), (''llc'', VDict llc), (''mle'', VDict mle)]
           | Some cs \<Rightarrow> bind_res (run_decoder cs bits p3) (\<lambda>(body, p4).
                 Inr [(''mac'', VDict mac), (''llc'', VDict llc), (''mle'', VDict mle),
                      (''body'', VDict body), (''final_pos'', VInt p4)]))))"

definition layers_of :: "dict \<Rightarrow> string \<times> string \<Rightarrow> bool" where
  "layers_of d expd \<longleftrightarrow> (\<exists>mac llc mle.
     dget d ''mac'' = Some (VDict mac) \<and> dget d ''llc'' = Some (VDict llc) \<and> dget d ''mle'' = Some (VDict mle) \<and>
     (case map_of PDU_BODY_DECODERS expd of
        None \<Rightarrow> dget d ''body'' = None
      | Some cs \<Rightarrow> \<exists>body p. dget d ''body'' = Some (VDict body) \<and> dget d ''final_pos'' = Some (VInt p) \<and> 0 \<le> p))"

lemma burst_of_bits_result:
  "burst_of_bits bits expd = Inl TypeError \<or> (\<exists>d. burst_of_bits bits expd = Inr d \<and> layers_of d expd)"
proof -
  let ?mac = "if fst expd = ''UL-MM'' \<or> fst expd = ''UL-CMCE'' then decode_mac_access else decode_mac_resource"
  have m: "run_decoder ?mac bits 0 = Inl TypeError \<or> (\<exists>d p. run_decoder ?mac bits 0 = Inr (d, p) \<and> 0 \<le> p)"
    using mac_res.run_forward [of 0 bits] mac_acc.run_forward [of 0 bits] by auto
  show ?thesis
  proof (cases "run_decoder ?mac bits 0")
    case (Inr x)
    then obtain mac p1 where 1: "run_decoder ?mac bits 0 = Inr (mac, p1)" "0 \<le> p1" using m by auto
    show ?thesis
    proof (cases "run_decoder decode_llc bits p1")
      case (Inr x)
      then obtain llc p2 where 2: "run_decoder decode_llc bits p1 = Inr (llc, p2)" "0 \<le> p2"
        using llc_dec.run_forward [of p1 bits] 1 by auto
      show ?thesis
      proof (cases "run_decoder decode_mle bits p2")
        case (Inr x)
        then obtain mle p3 where 3: "run_decoder decode_mle bits p2 = Inr (mle, p3)" "0 \<le> p3"
          using mle_dec.run_forward [of p2 bits] 2 by auto
        show ?thesis
          using body_forward [OF _ 3(2), of expd _ bits] 1(1) 2(1) 3
          by (cases "map_of PDU_BODY_DECODERS expd")
             (fastforce simp: burst_of_bits_def layers_of_def)+
      qed (use 1(1) 2 mle_dec.run_forward [of p2 bits] in \<open>auto simp: burst_of_bits_def\<close>)
    qed (use 1 llc_dec.run_forward [of p1 bits] in \<open>auto simp: burst_of_bits_def\<close>)
  qed (use m in \<open>auto simp: burst_of_bits_def\<close>)
qed

lemma decode_burst_cases:
  "decode_burst info expd =
     (if list_all (\<lambda>c. c = CHR ''0'' \<or> c = CHR ''1'') info then burst_of_bits (map (\<lambda>c. c = CHR ''1'') info) expd
      else case hex_to_bits info (Some (if fst expd = ''UL-MM'' then 92 else 268)) of
             Inl e \<Rightarrow> Inl e | Inr bits \<Rightarrow> burst_of_bits bits expd)"
  by (simp add: decode_burst_def burst_of_bits_def Let_def split: sum.split)

lemma decode_burst_layers_of: "decode_burst info expd = Inr d \<Longrightarrow> layers_of d expd"
proof -
  assume "decode_burst info expd = Inr d"
  then obtain bits where "burst_of_bits bits expd = Inr d"
    by (auto simp: decode_burst_cases split: if_splits sum.splits)
  then show ?thesis using burst_of_bits_result [of bits expd] by auto
qed

text \<open>The errors of \<open>decode_burst\<close>, for every input text and every expected PDU: it raises ValueError
  exactly when a character after the optional \<open>0x\<close> is not a hexadecimal digit; the only other error is
  the TypeError of a truncated element; in every other case the dictionary has the MAC, LLC and MLE
  layers, and the body with a final cursor position that is not negative exactly when the PDU has a
  body decoder.\<close>

theorem decode_burst_errors:
  "(decode_burst info expd = Inl ValueError \<longleftrightarrow> (\<exists>c \<in> set (strip_0x info). hex_val c = None)) \<and>
   (decode_burst info expd = Inl ValueError \<or> decode_burst info expd = Inl TypeError \<or>
    (\<exists>d. decode_burst info expd = Inr d \<and> layers_of d expd))"
proof (cases "list_all (\<lambda>c. c = CHR ''0'' \<or> c = CHR ''1'') info")
  case True
  then show ?thesis
    using burst_of_bits_result [of "map (\<lambda>c. c = CHR ''1'') info" expd] strip_binary [OF True]
    by (auto simp: decode_burst_cases)
next
  case False
  let ?n = "if fst expd = ''UL-MM'' then 92 else 268 :: nat"
  show ?thesis
  proof (cases "hex_value 0 (strip_0x info)")
    case None
    then have "hex_to_bits info (Some ?n) = Inl ValueError" by (simp add: hex_to_bits_def Let_def)
    then show ?thesis using False None by (simp add: decode_burst_cases hex_value_none)
  next
    case (Some v)
    then obtain bits where b: "hex_to_bits info (Some ?n) = Inr bits" by (simp add: hex_to_bits_def Let_def)
    have "\<not> (\<exists>c \<in> set (strip_0x info). hex_val c = None)"
      unfolding hex_value_none [of 0, symmetric] using Some by simp
    then show ?thesis using False b burst_of_bits_result [of bits expd] by (auto simp: decode_burst_cases)
  qed
qed

theorem decode_burst_errors_witness:
  "decode_burst ''0xG1'' (''CMCE'', ''D-CONNECT'') = Inl ValueError"
  using decode_burst_errors [of "''0xG1''" "(''CMCE'', ''D-CONNECT'')"]
  by (simp add: strip_0x_def hex_val_def)

text \<open>C0. A type 3 element whose header matches but whose 11-bit length does not fit into what is left makes
  the reader raise TypeError instead of returning nothing; when the length fits, the element is always
  returned, and a declared length beyond the end (or above 256) moves the cursor all the same.  A type
  4 element needs its length as well, counts its six-bit element number within it, and for a declared
  length below six the cursor moves back into the header.\<close>

lemma read_short:
  "cursor_read 11 (cur_at pre rest d) = (if length rest < 11 then (VNone, cur_at pre rest d)
     else (VInt (bits_val (take 11 rest)), cur_at (pre @ take 11 rest) (drop 11 rest) d))"
  by (auto simp: cursor_read_run cursor_read_none clen_def cur_at_def)

lemma peek_header:
  assumes "fits 4 i"
  shows "cursor_peek 5 (cur_at pre (to_bits 1 1 @ to_bits 4 i @ rest) d) = VInt (16 + i)"
proof -
  have "bits_val (to_bits 1 1 @ to_bits 4 i) = 16 + i"
    using assms unfolding bits_val_append by (simp add: bits_val_to_bits_id fits_def del: One_nat_def)
  then show ?thesis by (simp add: cursor_peek_run clen_def del: One_nat_def)
qed

text \<open>A type 3 element whose header matches but whose 11-bit length does not fit into what is left makes
  the reader raise TypeError instead of returning nothing, and so does a type 4 element; with its length
  present an element is always returned, and the declared length moves the cursor (by 256 at most)
  even past the end of the bits.  The length of a type 4 element counts its six-bit element number, so
  a declared length below six moves the cursor back into the header.\<close>

theorem truncated_elements:
  assumes "fits 4 i" "fits 11 n" "fits 6 m"
  shows "(read_type3_if_matches True i 4 (cur_at pre (to_bits 1 1 @ to_bits 4 i @ rest) d) = Inl TypeError \<longleftrightarrow>
      length rest < 11) \<and>
    (read_type4_if_matches True i 4 (cur_at pre (to_bits 1 1 @ to_bits 4 i @ rest) d) = Inl TypeError \<longleftrightarrow>
      length rest < 11) \<and>
    (\<exists>s. read_type3_if_matches True i 4 (cur_at pre (to_bits 1 1 @ to_bits 4 i @ to_bits 11 n @ rest) d) =
      Inr (Some [(''id'', VInt i), (''len'', VInt n), (''data_bin'', VBits (take (nat (min n 256)) rest))], s) \<and>
      cpos s = int (length pre) + 16 + min n 256) \<and>
    (\<exists>s. read_type4_if_matches True i 4 (cur_at pre (to_bits 1 1 @ to_bits 4 i @ to_bits 11 n @ to_bits 6 m @ rest) d) =
      Inr (Some [(''id'', VInt i), (''len'', VInt n), (''num_elems'', VInt m),
        (''data_bin'', VBits (take (nat (min (n - 6) 256)) rest))], s) \<and>
      cpos s = int (length pre) + 22 + min (n - 6) 256)"
proof (intro conjI)
  have n: "0 \<le> n" using assms(2) by (simp add: fits_def)
  have i: "i mod 16 = i" using assms(1) by (simp add: fits_def)
  have f: "fits 1 1" by simp
  have slice: "py_slice (xs @ rest) (int (length xs)) (int (length xs) + k) = take (nat k) rest" if "0 \<le> k" for xs k
    using that by (simp add: py_slice_nonneg)
  note hd = read_type3_if_matches_def read_type4_if_matches_def peek_header [OF assms(1)] peek_packed [OF f]
    read_packed [OF f] read_packed [OF assms(1)] i
  note full = hd read_packed [OF assms(2)] read_packed [OF assms(3)] cursor_read_bin_def
  show "read_type3_if_matches True i 4 (cur_at pre (to_bits 1 1 @ to_bits 4 i @ rest) d) = Inl TypeError \<longleftrightarrow>
      length rest < 11"
    by (simp del: One_nat_def add: hd read_short case_prod_beta)
  show "read_type4_if_matches True i 4 (cur_at pre (to_bits 1 1 @ to_bits 4 i @ rest) d) = Inl TypeError \<longleftrightarrow>
      length rest < 11"
    by (simp del: One_nat_def add: hd read_short case_prod_beta)
  show "\<exists>s. read_type3_if_matches True i 4 (cur_at pre (to_bits 1 1 @ to_bits 4 i @ to_bits 11 n @ rest) d) =
      Inr (Some [(''id'', VInt i), (''len'', VInt n), (''data_bin'', VBits (take (nat (min n 256)) rest))], s) \<and>
      cpos s = int (length pre) + 16 + min n 256"
    using n slice [of "min n 256" "pre @ to_bits 1 1 @ to_bits 4 i @ to_bits 11 n"]
    by (simp del: One_nat_def add: full)
  have slice_back: "py_slice (xs @ rest) (int (length xs)) (int (length xs) + k) = take (nat k) rest"
    if "- 6 \<le> k" "6 \<le> length xs" for xs k
    using slice [of k xs] py_slice_empty [of "int (length xs) + k" "int (length xs)" "xs @ rest"] that
    by (cases "0 \<le> k") auto
  show "\<exists>s. read_type4_if_matches True i 4 (cur_at pre (to_bits 1 1 @ to_bits 4 i @ to_bits 11 n @ to_bits 6 m @ rest) d) =
      Inr (Some [(''id'', VInt i), (''len'', VInt n), (''num_elems'', VInt m),
        (''data_bin'', VBits (take (nat (min (n - 6) 256)) rest))], s) \<and>
      cpos s = int (length pre) + 22 + min (n - 6) 256"
    using n slice_back [of "min (n - 6) 256" "pre @ to_bits 1 1 @ to_bits 4 i @ to_bits 11 n @ to_bits 6 m"]
    by (simp del: One_nat_def add: full)
qed

theorem truncated_elements_witness:
  "read_type3_if_matches True 3 4 (cur_at [] (to_bits 1 1 @ to_bits 4 3 @ replicate 10 True) []) = Inl TypeError"
  using truncated_elements [of 3 0 0 "[]" "replicate 10 True" "[]"] by (simp add: fits_def)

end
