(* ===== verification/BurstDiff.thy ===== *)
theory BurstDiff
  imports BurstDecode
begin

text \<open>
  The comparison of two bursts in \<open>scripts/decode_pdu.py\<close>: \<open>cmp_dict\<close> and \<open>diff_two\<close>, as the list of
  lines they print, and what a comparison without a marked line means.
\<close>

text \<open>Python's \<open>==\<close> on the values of the decoders: a Boolean is the integer 0 or 1, a bit slice is the
  string of its digits, and dictionaries are compared as maps, whatever their order.\<close>

lemma map_of_size: "map_of d k = Some v \<Longrightarrow> size v < size (VDict d)"
proof (induction d)
  case (Cons p d)
  then show ?case by (cases p) (auto split: if_splits)
qed simp

function (sequential) py_eq :: "pyval \<Rightarrow> pyval \<Rightarrow> bool" where
  "py_eq (VDict a) (VDict b) = list_all (\<lambda>k. case map_of a k of
       None \<Rightarrow> False | Some v \<Rightarrow> (case map_of b k of None \<Rightarrow> False | Some w \<Rightarrow> py_eq v w)) (map fst a @ map fst b)"
| "py_eq (VDict a) v = False"
| "py_eq v (VDict a) = False"
| "py_eq (VBool b) (VInt i) = (i = of_bool b)"
| "py_eq (VInt i) (VBool b) = (i = of_bool b)"
| "py_eq (VBits b) (VStr s) = (bit_text b = s)"
| "py_eq (VStr s) (VBits b) = (bit_text b = s)"
| "py_eq v w = (v = w)"
  by pat_completeness auto
termination
  by (relation "measure (\<lambda>(v, w). size v)") (auto dest: map_of_size)

datatype diff_line =
    Nested string string string
  | RefLine string pyval
  | LocLine string pyval
  | Same string string string pyval
  | Differ string string string pyval pyval

definition diff_keys :: "dict \<Rightarrow> dict \<Rightarrow> string list" where
  "diff_keys ref_d loc_d = fold (\<lambda>k keys. if k \<in> set keys then keys else keys @ [k]) (map fst loc_d) (map fst ref_d)"

definition missing :: pyval where
  "missing = VStr ''<missing>''"

fun is_dict :: "pyval \<Rightarrow> bool" where
  "is_dict (VDict d) = True"
| "is_dict v = False"

lemma sub_dict_smaller: "VDict e = dget_default d k missing \<Longrightarrow> size (dget_default d k missing) < size (VDict d)"
  by (rule map_of_size) (auto simp: dget_default_def missing_def split: option.splits)

function cmp_dict :: "string \<Rightarrow> dict \<Rightarrow> dict \<Rightarrow> string \<Rightarrow> diff_line list" where
  "cmp_dict name ref_d loc_d indent =
     concat (map (\<lambda>k.
       let rv = dget_default ref_d k missing; lv = dget_default loc_d k missing
       in if is_dict rv \<or> is_dict lv
          then Nested indent name k #
            (case rv of
               VDict r \<Rightarrow> (case lv of
                   VDict l \<Rightarrow> cmp_dict name r l (indent @ ''  '')
                 | _ \<Rightarrow> [RefLine indent rv, LocLine indent lv])
             | _ \<Rightarrow> [RefLine indent rv, LocLine indent lv])
          else if py_eq rv lv then [Same indent name k rv]
          else [Differ indent name k rv lv]) (diff_keys ref_d loc_d))"
  by pat_completeness auto
termination
  by (relation "measure (\<lambda>(n, r, l, i). size (VDict r))") (auto dest: sub_dict_smaller simp del: pyval.size)

text \<open>The four sections; a PDU without a body decoder leaves no \<open>body\<close> to compare.\<close>

definition as_sub :: "dict \<Rightarrow> string \<Rightarrow> dict res" where
  "as_sub d k = (case dget d k of None \<Rightarrow> Inl KeyError | Some (VDict e) \<Rightarrow> Inr e | Some v \<Rightarrow> Inl AttributeError)"

definition diff_two :: "string \<Rightarrow> string \<Rightarrow> string \<times> string \<Rightarrow> diff_line list res" where
  "diff_two ref_hex loc_hex expected_pdu =
     bind_res (decode_burst ref_hex expected_pdu) (\<lambda>r.
     bind_res (decode_burst loc_hex expected_pdu) (\<lambda>l.
     bind_res (as_sub r ''mac'') (\<lambda>rm. bind_res (as_sub l ''mac'') (\<lambda>lm.
     bind_res (as_sub r ''llc'') (\<lambda>rl. bind_res (as_sub l ''llc'') (\<lambda>ll.
     bind_res (as_sub r ''mle'') (\<lambda>re. bind_res (as_sub l ''mle'') (\<lambda>le.
     bind_res (as_sub r ''body'') (\<lambda>rb. bind_res (as_sub l ''body'') (\<lambda>lb.
       Inr (cmp_dict ''MAC'' rm lm [] @ cmp_dict ''LLC'' rl ll [] @ cmp_dict ''MLE'' re le [] @
            cmp_dict (snd expected_pdu) rb lb [])))))))))))"

fun marked :: "diff_line \<Rightarrow> bool" where
  "marked (RefLine i v) = True"
| "marked (LocLine i v) = True"
| "marked (Differ i n k v w) = True"
| "marked l = False"

subsection \<open>What a comparison shows\<close>

text \<open>No value, at any depth, is the text printed for a missing key.\<close>

function (sequential) clean :: "pyval \<Rightarrow> bool" where
  "clean (VDict d) = list_all (\<lambda>k. case map_of d k of None \<Rightarrow> True | Some v \<Rightarrow> clean v) (map fst d)"
| "clean v = (\<not> py_eq v missing)"
  by pat_completeness auto
termination
  by (relation "measure size") (auto dest: map_of_size)

lemma set_diff_keys: "set (diff_keys a b) = fst ` set a \<union> fst ` set b"
proof -
  have "set (fold (\<lambda>k keys. if k \<in> set keys then keys else keys @ [k]) xs ys) = set ys \<union> set xs" for xs ys :: "string list"
    by (induction xs arbitrary: ys) auto
  then show ?thesis by (simp add: diff_keys_def)
qed

lemma clean_missing: "clean v \<Longrightarrow> \<not> is_dict v \<Longrightarrow> \<not> py_eq v missing \<and> \<not> py_eq missing v"
  by (cases v) (auto simp: missing_def)

lemma py_eq_dict:
  "py_eq (VDict a) (VDict b) \<longleftrightarrow> (\<forall>k \<in> fst ` set a \<union> fst ` set b.
     \<exists>v w. map_of a k = Some v \<and> map_of b k = Some w \<and> py_eq v w)"
proof -
  have "(case map_of a k of None \<Rightarrow> False | Some v \<Rightarrow> (case map_of b k of None \<Rightarrow> False | Some w \<Rightarrow> py_eq v w)) =
      (\<exists>v w. map_of a k = Some v \<and> map_of b k = Some w \<and> py_eq v w)" for k
    by (auto split: option.split)
  then show ?thesis by (simp add: list_all_iff)
qed

lemma py_eq_kinds: "is_dict v \<noteq> is_dict w \<Longrightarrow> \<not> py_eq v w"
  by (cases v; cases w) simp_all

lemma clean_sub: "clean (VDict d) \<Longrightarrow> map_of d k = Some v \<Longrightarrow> clean v"
  using map_of_SomeD [of d k v] by (force simp: list_all_iff split: option.splits)

lemma is_dict_iff: "is_dict v \<longleftrightarrow> (\<exists>d. v = VDict d)"
  by (cases v) simp_all

definition key_lines :: "string \<Rightarrow> dict \<Rightarrow> dict \<Rightarrow> string \<Rightarrow> string \<Rightarrow> diff_line list" where
  "key_lines name ref_d loc_d indent k =
      (let rv = dget_default ref_d k missing; lv = dget_default loc_d k missing
       in if is_dict rv \<or> is_dict lv
          then Nested indent name k #
            (case rv of
               VDict r \<Rightarrow> (case lv of
                   VDict l \<Rightarrow> cmp_dict name r l (indent @ ''  '')
                 | _ \<Rightarrow> [RefLine indent rv, LocLine indent lv])
             | _ \<Rightarrow> [RefLine indent rv, LocLine indent lv])
          else if py_eq rv lv then [Same indent name k rv]
          else [Differ indent name k rv lv])"

lemma cmp_dict_keys: "cmp_dict name a b ind = concat (map (key_lines name a b ind) (diff_keys a b))"
  by (simp add: key_lines_def [abs_def])

lemma one_sided: "is_dict rv \<noteq> is_dict lv \<Longrightarrow>
    (case rv of
               VDict r \<Rightarrow> (case lv of
                   VDict l \<Rightarrow> f r l
                 | _ \<Rightarrow> [RefLine indent rv, LocLine indent lv])
             | _ \<Rightarrow> [RefLine indent rv, LocLine indent lv]) = [RefLine indent rv, LocLine indent lv]"
  by (cases rv; cases lv) simp_all

lemma unmarked_iff_equal:
  "clean (VDict a) \<Longrightarrow> clean (VDict b) \<Longrightarrow>
   (\<exists>l \<in> set (cmp_dict name a b ind). marked l) \<longleftrightarrow> \<not> py_eq (VDict a) (VDict b)"
proof (induction "size (VDict a)" arbitrary: a b ind rule: less_induct)
  case less
  have key: "(\<exists>l \<in> set (key_lines name a b ind k). marked l) \<longleftrightarrow>
      \<not> (\<exists>v w. map_of a k = Some v \<and> map_of b k = Some w \<and> py_eq v w)"
    if k: "k \<in> fst ` set a \<union> fst ` set b" for k
  proof -
    let ?r = "dget_default a k missing" and ?l = "dget_default b k missing"
    have nd: "\<not> is_dict missing" by (simp add: missing_def)
    consider (both) v w where "map_of a k = Some v" "map_of b k = Some w"
      | (ref) v where "map_of a k = Some v" "map_of b k = None"
      | (loc) w where "map_of a k = None" "map_of b k = Some w"
      using k by (cases "map_of a k"; cases "map_of b k") (auto simp: map_of_eq_None_iff)
    then show ?thesis
    proof cases
      case both
      have c: "clean v" "clean w" using both less.prems clean_sub by blast+
      have s: "size v < size (VDict a)" by (rule map_of_size) (rule both)
      consider (dd) d e where "v = VDict d" "w = VDict e" | (mix) "is_dict v \<noteq> is_dict w"
        | (nn) "\<not> is_dict v" "\<not> is_dict w" by (auto simp: is_dict_iff)
      then show ?thesis
      proof cases
        case dd
        have "(\<exists>l \<in> set (cmp_dict name d e (ind @ ''  '')). marked l) \<longleftrightarrow> \<not> py_eq v w"
          using less.hyps [of d e "ind @ ''  ''"] s c unfolding dd by blast
        then show ?thesis using both dd
          by (simp add: key_lines_def dget_default_def del: cmp_dict.simps py_eq.simps)
      next
        case mix
        then show ?thesis using both one_sided [OF mix] py_eq_kinds [OF mix]
          by (auto simp: key_lines_def dget_default_def simp del: cmp_dict.simps py_eq.simps)
      next
        case nn
        then show ?thesis using both
          by (simp add: key_lines_def dget_default_def del: cmp_dict.simps py_eq.simps)
      qed
    next
      case ref
      have "clean v" using ref less.prems clean_sub by blast
      then show ?thesis using ref nd one_sided [of v missing] clean_missing [of v]
        by (cases "is_dict v") (simp_all add: key_lines_def dget_default_def del: cmp_dict.simps py_eq.simps)
    next
      case loc
      have "clean w" using loc less.prems clean_sub by blast
      then show ?thesis using loc nd one_sided [of missing w] clean_missing [of w]
        by (cases "is_dict w") (simp_all add: key_lines_def dget_default_def del: cmp_dict.simps py_eq.simps)
    qed
  qed
  have "(\<exists>l \<in> set (cmp_dict name a b ind). marked l) \<longleftrightarrow>
      (\<exists>k \<in> fst ` set a \<union> fst ` set b. \<exists>l \<in> set (key_lines name a b ind k). marked l)"
    unfolding cmp_dict_keys by (auto simp: set_diff_keys simp del: cmp_dict.simps)
  then show ?case unfolding py_eq_dict using key by blast
qed

text \<open>Two bursts that decode, compared for a PDU with a body decoder, give a list of lines in which no line
  is marked exactly when the four sections of both are equal as Python dictionaries, at every depth
  (no decoded value being the text printed for a missing key); the final cursor positions are not
  compared.  For a PDU without a body decoder the comparison ends in KeyError.\<close>

theorem diff_two_marks_differences:
  assumes "decode_burst r expd = Inr a" "decode_burst l expd = Inr b" "clean (VDict a)" "clean (VDict b)"
  shows "if map_of PDU_BODY_DECODERS expd = None then diff_two r l expd = Inl KeyError
    else \<exists>ls. diff_two r l expd = Inr ls \<and>
      ((\<exists>x \<in> set ls. marked x) \<longleftrightarrow>
       \<not> list_all (\<lambda>k. py_eq (the (dget a k)) (the (dget b k))) [''mac'', ''llc'', ''mle'', ''body''])"
proof -
  have la: "layers_of a expd" "layers_of b expd" by (rule decode_burst_layers_of; fact)+
  obtain am al ae bm bl be where m: "dget a ''mac'' = Some (VDict am)" "dget a ''llc'' = Some (VDict al)"
    "dget a ''mle'' = Some (VDict ae)" "dget b ''mac'' = Some (VDict bm)" "dget b ''llc'' = Some (VDict bl)"
    "dget b ''mle'' = Some (VDict be)" using la by (auto simp: layers_of_def)
  show ?thesis
  proof (cases "map_of PDU_BODY_DECODERS expd")
    case None
    then have "dget a ''body'' = None" using la by (simp add: layers_of_def)
    then show ?thesis using None m assms(1,2) by (simp add: diff_two_def as_sub_def)
  next
    case (Some cs)
    then obtain ab bb where d: "dget a ''body'' = Some (VDict ab)" "dget b ''body'' = Some (VDict bb)"
      using la by (auto simp: layers_of_def)
    have c: "clean (VDict am)" "clean (VDict al)" "clean (VDict ae)" "clean (VDict ab)"
       "clean (VDict bm)" "clean (VDict bl)" "clean (VDict be)" "clean (VDict bb)"
      using m d clean_sub [OF assms(3)] clean_sub [OF assms(4)] unfolding dget_def by blast+
    show ?thesis using Some m d assms(1,2) c unmarked_iff_equal
      by (simp add: diff_two_def as_sub_def bex_Un del: cmp_dict.simps py_eq.simps clean.simps)
  qed
qed

theorem diff_two_marks_differences_witness:
  "\<exists>ls. diff_two ''1'' ''01'' (''CMCE'', ''D-CONNECT'') = Inr ls \<and> (\<exists>x \<in> set ls. marked x)"
proof -
  let ?e = "(''CMCE'', ''D-CONNECT'')"
  define llc mle where "llc = [(''llc_type'', VNone), (''llc_type_name'', VStr ''?(None)'')]"
    and "mle = [(''discriminator'', VNone), (''discriminator_name'', VStr ''?'')]"
  define body where "body s = [(''_start'', VInt s), (''pdu_type'', VNone), (''pdu_type_name'', VStr ''?''),
      (''_ERROR'', VStr ''Not D-CONNECT (pdu_type=None)'')]" for s
  define burst where "burst m s = [(''mac'', VDict m), (''llc'', VDict llc), (''mle'', VDict mle),
      (''body'', VDict (body s)), (''final_pos'', VInt s)]" for m :: dict and s :: int
  let ?a = "burst [(''pdu_type'', VNone), (''_ERROR'', VStr ''Not MAC-RESOURCE (got pdu_type=None)'')] 0"
  let ?b = "burst [(''pdu_type'', VInt 1), (''_ERROR'', VStr ''Not MAC-RESOURCE (got pdu_type=1)'')] 2"
  have 1: "decode_burst ''1'' ?e = Inr ?a" "decode_burst ''01'' ?e = Inr ?b"
    unfolding burst_def llc_def mle_def body_def by code_simp+
  have c: "clean (VDict ?a)" "clean (VDict ?b)"
    by (simp_all add: burst_def llc_def mle_def body_def missing_def)
  have "\<not> py_eq (the (dget ?a ''mac'')) (the (dget ?b ''mac''))" by (simp add: burst_def)
  then show ?thesis
    using diff_two_marks_differences [OF 1 c] by (simp add: PDU_BODY_DECODERS_def del: py_eq.simps)
qed

end
