(* ===== verification/Reassembly.thy ===== *)
theory Reassembly
  imports BurstDecode
begin

text \<open>
  The reassembly of a fragmented uplink PDU in \<open>scripts/reassemble_ul_demand.py\<close>: the headers of the
  MAC-ACCESS and MAC-END-HU bursts are stripped, the fragments joined, and the U-LOCATION-UPDATE-DEMAND in
  them decoded down to the group identities.  The script prints; the model keeps the values it prints
  from the LLC layer on, in order, with their labels (a label may repeat).
\<close>

subsection \<open>Headers\<close>

definition strip_mac_access_header :: "bits \<Rightarrow> (bits option \<times> dict) res" where
  "strip_mac_access_header bits92 =
     bind_res (run_decoder decode_mac_access bits92 0) (\<lambda>(mac, p).
       Inr (if dget_default mac ''mac_pdu_type'' VNone \<noteq> VInt 0 then (None, mac)
            else (Some (drop (nat p) bits92), mac)))"

definition strip_mac_end_hu_header :: "bits \<Rightarrow> (bits \<times> dict) option" where
  "strip_mac_end_hu_header bits92 =
     (let (pdu_type, s1) = cursor_read 1 \<lparr>cbits = bits92, cpos = 0, cout = []\<rparr>
      in if pdu_type \<noteq> VInt 1 then None
         else let (fill_bits, s2) = cursor_read 1 s1; (li_or_cap, s3) = cursor_read 1 s2;
                  (v, s4) = cursor_read 4 s3
           in Some (drop (nat (cpos s4)) bits92,
                [(''pdu_type'', pdu_type), (''fill_bits'', fill_bits), (''length_ind_or_cap_req'', li_or_cap),
                 (if li_or_cap = VInt 0 then ''length_ind'' else ''reservation_req'', v)]))"

subsection \<open>Joining the fragments\<close>

text \<open>\<open>while p.endswith('0'): p = p[:-1]\<close>, then one closing \<open>1\<close> is removed.\<close>

function strip_zeros :: "bits \<Rightarrow> bits" where
  "strip_zeros p = (if p \<noteq> [] \<and> \<not> last p then strip_zeros (butlast p) else p)"
  by pat_completeness auto
termination
  by (relation "measure length") auto

declare strip_zeros.simps [simp del]

definition strip_fill :: "bits \<Rightarrow> bits" where
  "strip_fill p = (let q = strip_zeros p in if q \<noteq> [] \<and> last q then butlast q else q)"

definition trim_continuation :: "bits \<Rightarrow> dict \<Rightarrow> bits" where
  "trim_continuation payload1 mac1 =
     (case dget_default mac1 ''length_ind'' VNone of
        VInt n \<Rightarrow> take (nat (n * 8)) payload1
      | _ \<Rightarrow> payload1)"

text \<open>A first burst that does not begin with the bit 0 of a MAC-ACCESS, and a second one that does not begin with
  the bit 1 of a MAC-END-HU, have no payload, whose length the report asks for: TypeError.\<close>

definition combine_fragments :: "bits \<Rightarrow> bits \<Rightarrow> bits res" where
  "combine_fragments ul0 ul1 =
     bind_res (strip_mac_access_header ul0) (\<lambda>(payload0, mac0).
       case payload0 of
         None \<Rightarrow> Inl TypeError
       | Some p0 \<Rightarrow>
           (case strip_mac_end_hu_header ul1 of
              None \<Rightarrow> Inl TypeError
            | Some (p1, mac1) \<Rightarrow>
                Inr ((if dget_default mac0 ''fill_bits'' VNone = VInt 1 then strip_fill p0 else p0) @
                     trim_continuation p1 mac1)))"

subsection \<open>The printed report\<close>

text \<open>\<open>print(f'{k}: {v}')\<close>; a hexadecimal or binary format of \<open>None\<close> raises TypeError.\<close>

definition pr :: "string \<Rightarrow> pyval \<Rightarrow> cstmt" where
  "pr k v s = Next (s\<lparr>cout := cout s @ [(k, v)]\<rparr>)"

definition pr_fmt :: "string \<Rightarrow> pyval \<Rightarrow> cstmt" where
  "pr_fmt k v s = (if v = VNone then Raise TypeError else pr k v s)"

definition pr_read :: "string \<Rightarrow> nat \<Rightarrow> cstmt" where
  "pr_read k n = rdv n (\<lambda>v. [pr k v])"

definition pr_read_fmt :: "string \<Rightarrow> nat \<Rightarrow> cstmt" where
  "pr_read_fmt k n = rdv n (\<lambda>v. [pr_fmt k v])"

subsection \<open>Group identities\<close>

definition group_identity_uplink :: "cstmt list" where
  "group_identity_uplink =
     [rdv 1 (\<lambda>attach_type.
      [pr ''attach_detach_type'' attach_type,
       branch (attach_type = VInt 0) [pr_read ''class_of_usage'' 3] [pr_read ''detachment_uplink'' 2],
       rdv 2 (\<lambda>addr_type.
       [pr ''addr_type'' addr_type,
        do_when (addr_type = VInt 0 \<or> addr_type = VInt 1) [pr_read_fmt ''GSSI'' 24],
        do_when (addr_type = VInt 1) [pr_read_fmt ''address_extension'' 24],
        do_when (addr_type = VInt 2) [pr_read_fmt ''VGSSI'' 24]])])]"

fun group_identities :: "nat \<Rightarrow> cstmt" where
  "group_identities 0 s = Next s"
| "group_identities (Suc k) s =
     (case block group_identity_uplink s of
        Next s' \<Rightarrow> group_identities k s'
      | Return s' \<Rightarrow> Return s'
      | Raise e \<Rightarrow> Raise e)"

text \<open>\<open>range(count)\<close> of \<open>None\<close> raises TypeError.\<close>

definition identity_list :: "cstmt list" where
  "identity_list =
     [rdv 1 (\<lambda>_. [rdv 4 (\<lambda>eid. [rdv 11 (\<lambda>elen. [rdv 6 (\<lambda>count.
       [pr ''Type4 id'' eid, pr ''Type4 len'' elen, pr ''Type4 count'' count,
        (\<lambda>s. case count of VInt n \<Rightarrow> group_identities (nat n) s | _ \<Rightarrow> Raise TypeError)])])])])]"

definition location_demand :: "cstmt list" where
  "location_demand =
     [pr_read ''group_identity_attach_detach_mode'' 1, pr_read ''reserved'' 1,
      rdv 1 (\<lambda>obit.
      [pr ''obit'' obit,
       do_when (obit = VInt 0) [return_now],
       (\<lambda>s. do_when (cursor_peek 1 s = VInt 1) identity_list s)])]"

text \<open>The inner parser has a cursor of its own and prints into the same report.\<close>

definition parse_group_identity_location_demand :: "bits \<Rightarrow> cstmt" where
  "parse_group_identity_location_demand data_bits s =
     (case block location_demand \<lparr>cbits = data_bits, cpos = 0, cout = cout s\<rparr> of
        Next t \<Rightarrow> Next (s\<lparr>cout := cout t\<rparr>)
      | Return t \<Rightarrow> Next (s\<lparr>cout := cout t\<rparr>)
      | Raise e \<Rightarrow> Raise e)"

subsection \<open>Type 3 elements\<close>

definition read_element :: "cst \<Rightarrow> pyval \<times> pyval \<times> bits \<times> cst" where
  "read_element s =
     (let (_, s1) = cursor_read 1 s; (eid, s2) = cursor_read 4 s1; (elen, s3) = cursor_read 11 s2;
          n = (case elen of VInt l \<Rightarrow> min l (cursor_remaining s3) | _ \<Rightarrow> 0);
          (data, s4) = cursor_read_bin n s3
      in (eid, elen, data, s4))"

lemma read_element_shrinks:
  assumes "(eid, elen, data, s') = read_element s" "16 \<le> cursor_remaining s"
  shows "cursor_remaining s' \<le> cursor_remaining s - 16"
proof -
  let ?l = "bits_val (py_slice (cbits s) (5 + cpos s) (16 + cpos s))"
  have "0 \<le> ?l" by simp
  then have "0 \<le> min ?l (clen s - (16 + cpos s))" using assms(2) by (simp add: cursor_remaining_def)
  moreover have "cursor_remaining s' = cursor_remaining s - 16 - min ?l (clen s - (16 + cpos s))"
    using assms by (auto simp: read_element_def cursor_read_def cursor_read_bin_def cursor_remaining_def clen_def Let_def)
  ultimately show ?thesis by linarith
qed

lemma read_element_less:
  "(eid, elen, data, s') = read_element s \<Longrightarrow> 16 \<le> cursor_remaining s \<Longrightarrow> cursor_remaining s' < cursor_remaining s"
  using read_element_shrinks by fastforce

lemma remaining_cout [simp]: "cursor_remaining (s\<lparr>cout := d\<rparr>) = cursor_remaining s"
  by (simp add: cursor_remaining_def clen_def)

function type3_elements :: cstmt where
  "type3_elements s =
     (if 16 \<le> cursor_remaining s \<and> cursor_peek 1 s \<noteq> VNone \<and> cursor_peek 1 s \<noteq> VInt 0
      then let (eid, elen, data, s') = read_element s
        in case block
            [pr ''Type3 id'' eid, pr ''Type3 len'' elen, pr ''data'' (VBits data),
             do_when (eid = VInt 5 \<or> eid = VInt 2 \<or> eid = VInt 3) [parse_group_identity_location_demand data]] s' of
             Next t \<Rightarrow> type3_elements (s'\<lparr>cout := cout t\<rparr>)
           | Return t \<Rightarrow> Return t
           | Raise e \<Rightarrow> Raise e
      else Next s)"
  by pat_completeness auto
termination
  by (relation "measure (\<lambda>s. nat (cursor_remaining s))")
     (auto dest!: read_element_less)

declare type3_elements.simps [simp del]

text \<open>The same loop with a bound on the tests of its condition.\<close>

fun elements_within :: "nat \<Rightarrow> cst \<Rightarrow> cst outcome option" where
  "elements_within 0 s = None"
| "elements_within (Suc k) s =
     (if 16 \<le> cursor_remaining s \<and> cursor_peek 1 s \<noteq> VNone \<and> cursor_peek 1 s \<noteq> VInt 0
      then let (eid, elen, data, s') = read_element s
        in case block
            [pr ''Type3 id'' eid, pr ''Type3 len'' elen, pr ''data'' (VBits data),
             do_when (eid = VInt 5 \<or> eid = VInt 2 \<or> eid = VInt 3) [parse_group_identity_location_demand data]] s' of
             Next t \<Rightarrow> elements_within k (s'\<lparr>cout := cout t\<rparr>)
           | Return t \<Rightarrow> Some (Return t)
           | Raise e \<Rightarrow> Some (Raise e)
      else Some (Next s))"

text \<open>The loop over the elements of a demand ends, whatever lengths the elements declare: every round uses up
  at least 16 bits, so a demand with less than \<open>16 * (k + 1)\<close> bits left is done after testing the condition
  \<open>k + 1\<close> times, and with more tests the result is the same.\<close>

theorem element_loop_ends:
  assumes "cursor_remaining s < 16 * int (Suc k)"
  shows "elements_within (Suc k) s = Some (type3_elements s)"
  using assms
proof (induction k arbitrary: s)
  case 0
  then show ?case by (simp add: type3_elements.simps)
next
  case (Suc k)
  show ?case
  proof (cases "16 \<le> cursor_remaining s \<and> cursor_peek 1 s \<noteq> VNone \<and> cursor_peek 1 s \<noteq> VInt 0")
    case True
    obtain eid elen data s' where r: "read_element s = (eid, elen, data, s')" by (metis prod.exhaust)
    have "cursor_remaining s' < 16 * int (Suc k)"
      using read_element_shrinks [OF r [symmetric]] True Suc.prems by simp
    then have IH: "elements_within (Suc k) (s'\<lparr>cout := d\<rparr>) = Some (type3_elements (s'\<lparr>cout := d\<rparr>))" for d
      by (intro Suc.IH) simp
    show ?thesis
      unfolding elements_within.simps(2) [of "Suc k"] type3_elements.simps [of s] if_P [OF True] r
      by (simp only: Let_def prod.case IH) (simp split: outcome.split)
  qed (subst type3_elements.simps, auto)
qed

theorem element_loop_ends_witness:
  "elements_within 3 \<lparr>cbits = replicate 40 True, cpos = 0, cout = []\<rparr> =
     Some (type3_elements \<lparr>cbits = replicate 40 True, cpos = 0, cout = []\<rparr>)"
  using element_loop_ends [of "\<lparr>cbits = replicate 40 True, cpos = 0, cout = []\<rparr>" 2]
  by (simp add: cursor_remaining_def clen_def numeral_3_eq_3)

subsection \<open>The whole demand\<close>

definition LOCATION_DEMAND_TYPES :: "string list" where
  "LOCATION_DEMAND_TYPES = [''UAuthentication'', ''UItsiDetach'', ''ULocationUpdateDemand'']"

text \<open>\<open>pdu_type < 3\<close> of \<open>None\<close> raises TypeError.\<close>

definition demand_type :: "pyval \<Rightarrow> cstmt" where
  "demand_type t s =
     (case t of
        VInt i \<Rightarrow> pr ''pdu_type_name'' (VStr (if i < 3 then LOCATION_DEMAND_TYPES ! nat i else ''?'')) s
      | _ \<Rightarrow> Raise TypeError)"

definition opt_value :: "string \<Rightarrow> string \<Rightarrow> nat \<Rightarrow> (string \<Rightarrow> pyval \<Rightarrow> cstmt) \<Rightarrow> cstmt" where
  "opt_value kp k n f = rdv 1 (\<lambda>p. [pr kp p, do_when (p = VInt 1) [rdv n (\<lambda>v. [f k v])]])"

definition trailing_bits :: cstmt where
  "trailing_bits s =
     (if 0 < cursor_remaining s
      then let (rem, s') = cursor_read_bin (cursor_remaining s) s in pr ''Trailing bits'' (VBits rem) s'
      else Next s)"

definition demand_body :: "cstmt list" where
  "demand_body =
     [rdv 4 (\<lambda>t.
      [pr ''pdu_type'' t, demand_type t, do_when (t \<noteq> VInt 2) [return_now],
       rdv 3 (\<lambda>u. [pr ''location_update_type'' u, pr ''name'' (py_name LOCATION_UPDATE_TYPE_NAMES ''?'' u)]),
       pr_read ''request_to_append_la'' 1,
       rdv 1 (\<lambda>c. [pr ''cipher_control'' c, do_when (c = VInt 1) [pr_read ''ciphering_parameters'' 10]]),
       rdv 1 (\<lambda>obit.
       [pr ''obit'' obit,
        do_when (obit = VInt 0) [return_now],
        opt_value ''class_of_ms_pbit'' ''class_of_ms'' 24 pr_fmt,
        opt_value ''energy_saving_mode_pbit'' ''energy_saving_mode'' 3 pr,
        opt_value ''la_information_pbit'' ''la_information'' 15 pr_fmt,
        opt_value ''ssi_pbit'' ''ssi'' 24 pr,
        opt_value ''address_extension_pbit'' ''address_extension'' 24 pr,
        type3_elements, trailing_bits])])]"

text \<open>The LLC and MLE dictionaries are printed first; only an MM discriminator goes on.\<close>

definition layered :: "cstmt list \<Rightarrow> (dict \<Rightarrow> cstmt list) \<Rightarrow> cstmt" where
  "layered cs f s =
     (case block cs (s\<lparr>cout := []\<rparr>) of
        Next t \<Rightarrow> block (f (cout t)) (t\<lparr>cout := cout s @ cout t\<rparr>)
      | Return t \<Rightarrow> block (f (cout t)) (t\<lparr>cout := cout s @ cout t\<rparr>)
      | Raise e \<Rightarrow> Raise e)"

definition decode_combined :: "cstmt list" where
  "decode_combined =
     [layered decode_llc (\<lambda>llc.
      [layered decode_mle (\<lambda>mle.
       [do_when (dget_default mle ''discriminator'' VNone \<noteq> VInt 1) [return_now]] @ demand_body)])]"

definition reassemble_and_decode :: "bits \<Rightarrow> bits \<Rightarrow> dict res" where
  "reassemble_and_decode ul0_info_92b ul1_info_92b =
     bind_res (combine_fragments ul0_info_92b ul1_info_92b) (\<lambda>combined.
       case block decode_combined \<lparr>cbits = combined, cpos = 0, cout = []\<rparr> of
         Next s \<Rightarrow> Inr (cout s)
       | Return s \<Rightarrow> Inr (cout s)
       | Raise e \<Rightarrow> Inl e)"

subsection \<open>Fragments rejoined\<close>

lemma strip_zeros_append: "strip_zeros (p @ True # replicate n False) = p @ [True]"
proof (induction n)
  case (Suc n)
  have "p @ True # replicate (Suc n) False = (p @ True # replicate n False) @ [False]"
    by (simp add: replicate_append_same)
  then show ?case using Suc by (subst strip_zeros.simps) (simp del: append_assoc add: butlast_append)
qed (simp add: strip_zeros.simps)

lemma strip_fill_append: "strip_fill (p @ True # replicate n False) = p"
  by (simp add: strip_fill_def strip_zeros_append)

definition frag_header :: "int \<Rightarrow> int \<Rightarrow> int \<Rightarrow> int \<Rightarrow> bits" where
  "frag_header fill enc ssi rr = to_bits 1 0 @ to_bits 1 fill @ to_bits 1 enc @ to_bits 2 0 @ to_bits 24 ssi @
     to_bits 1 1 @ to_bits 1 1 @ to_bits 1 1 @ to_bits 4 rr"

definition end_header :: "int \<Rightarrow> int \<Rightarrow> bits" where
  "end_header fill n = to_bits 1 1 @ to_bits 1 fill @ to_bits 1 0 @ to_bits 4 n"

lemma strip_frag:
  assumes "fits 1 fill" "fits 1 enc" "fits 24 ssi" "fits 4 rr"
  shows "\<exists>mac. strip_mac_access_header (frag_header fill enc ssi rr @ p) = Inr (Some p, mac) \<and>
    dget_default mac ''fill_bits'' VNone = VInt fill"
proof -
  let ?mac = "[(''mac_pdu_type'', VInt 0), (''fill_bits'', VInt fill), (''encrypted'', VInt enc), (''addr_type'', VInt 0),
      (''addr_type_name'', VStr ''Ssi(ISSI)''), (''ssi'', VInt ssi), (''optional_field_flag'', VInt 1),
      (''length_ind_or_cap_req'', VInt 1), (''frag_flag'', VInt 1), (''reservation_req'', VInt rr),
      (''reservation_req_name'', name_of RESERVATION_REQ_NAMES ''?'' rr)]"
  have "block decode_mac_access (cur_at [] (frag_header fill enc ssi rr @ p) []) =
      Next (cur_at ([] @ frag_header fill enc ssi rr) p ?mac)"
    using assms by (simp del: One_nat_def add: decode_mac_access_def frag_header_def pdu_access_address_def
        pdu_access_optional_def packed_simps UL_ADDR_NAMES_def)
  from run_packed [OF disjI1, OF this]
  have "run_decoder decode_mac_access (frag_header fill enc ssi rr @ p) 0 =
      Inr (?mac, int (length (frag_header fill enc ssi rr)))" by simp
  then show ?thesis by (simp add: strip_mac_access_header_def dget_default_def)
qed

lemma start_at: "\<lparr>cbits = bs, cpos = 0, cout = d\<rparr> = cur_at [] bs d"
  by (simp add: cur_at_def)

lemma strip_end:
  assumes "fits 1 fill" "fits 4 n"
  shows "\<exists>mac. strip_mac_end_hu_header (end_header fill n @ p) = Some (p, mac) \<and>
    dget_default mac ''length_ind'' VNone = VInt n"
  using assms
  by (simp del: One_nat_def add: strip_mac_end_hu_header_def end_header_def start_at read_packed dget_default_def)

lemma combine_packed:
  assumes "fits 1 fill" "fits 1 enc" "fits 24 ssi" "fits 4 rr" "fits 1 fill'" "fits 4 n" "length p1 = 8 * nat n"
  shows "combine_fragments (frag_header fill enc ssi rr @ p0 @ (if fill = 1 then True # replicate k False else []))
      (end_header fill' n @ p1 @ rest) = Inr (p0 @ p1)"
proof -
  have n: "nat (n * 8) = length p1" using assms(6,7) by (simp add: fits_def nat_mult_distrib)
  obtain mac0 where "strip_mac_access_header (frag_header fill enc ssi rr @ p0 @ (if fill = 1 then True # replicate k False else [])) =
      Inr (Some (p0 @ (if fill = 1 then True # replicate k False else [])), mac0)" "dget_default mac0 ''fill_bits'' VNone = VInt fill"
    using strip_frag [OF assms(1-4)] by blast
  moreover obtain mac1 where "strip_mac_end_hu_header (end_header fill' n @ p1 @ rest) = Some (p1 @ rest, mac1)"
      "dget_default mac1 ''length_ind'' VNone = VInt n"
    using strip_end [OF assms(5,6)] by blast
  ultimately show ?thesis
    by (simp add: combine_fragments_def trim_continuation_def n strip_fill_append)
qed

subsection \<open>An ITSI attach with a group\<close>

text \<open>The group identity element of a demand for one group, and the demand around it.\<close>

definition group_bits :: "int \<Rightarrow> int \<Rightarrow> int \<Rightarrow> bits" where
  "group_bits mode usage gssi =
     to_bits 1 mode @ to_bits 1 1 @ to_bits 1 1 @ to_bits 1 1 @ to_bits 4 8 @ to_bits 11 36 @ to_bits 6 1 @
     to_bits 1 0 @ to_bits 3 usage @ to_bits 2 0 @ to_bits 24 gssi @ to_bits 1 0"

definition demand_bits :: "int \<Rightarrow> int \<Rightarrow> int \<Rightarrow> int \<Rightarrow> bits \<Rightarrow> bits" where
  "demand_bits ns lut cls esm g =
     to_bits 4 1 @ to_bits 1 ns @ to_bits 3 1 @ to_bits 4 2 @ to_bits 3 lut @ to_bits 1 0 @ to_bits 1 0 @ to_bits 1 1 @
     to_bits 1 1 @ to_bits 24 cls @ to_bits 1 1 @ to_bits 3 esm @ to_bits 1 0 @ to_bits 1 0 @ to_bits 1 0 @
     to_bits 1 1 @ to_bits 4 3 @ to_bits 11 (int (length g)) @ g"

definition group_report :: "int \<Rightarrow> int \<Rightarrow> int \<Rightarrow> dict" where
  "group_report mode usage gssi =
     [(''group_identity_attach_detach_mode'', VInt mode), (''reserved'', VInt 1), (''obit'', VInt 1),
      (''Type4 id'', VInt 8), (''Type4 len'', VInt 36), (''Type4 count'', VInt 1),
      (''attach_detach_type'', VInt 0), (''class_of_usage'', VInt usage), (''addr_type'', VInt 0),
      (''GSSI'', VInt gssi)]"

definition demand_report :: "int \<Rightarrow> int \<Rightarrow> int \<Rightarrow> int \<Rightarrow> bits \<Rightarrow> dict \<Rightarrow> dict" where
  "demand_report ns lut cls esm g gs =
     [(''llc_type'', VInt 1), (''llc_type_name'', VStr ''BL-DATA''), (''ns'', VInt ns), (''discriminator'', VInt 1),
      (''discriminator_name'', VStr ''MM''), (''pdu_type'', VInt 2), (''pdu_type_name'', VStr ''ULocationUpdateDemand''),
      (''location_update_type'', VInt lut), (''name'', name_of LOCATION_UPDATE_TYPE_NAMES ''?'' lut),
      (''request_to_append_la'', VInt 0), (''cipher_control'', VInt 0), (''obit'', VInt 1),
      (''class_of_ms_pbit'', VInt 1), (''class_of_ms'', VInt cls), (''energy_saving_mode_pbit'', VInt 1),
      (''energy_saving_mode'', VInt esm), (''la_information_pbit'', VInt 0), (''ssi_pbit'', VInt 0),
      (''address_extension_pbit'', VInt 0), (''Type3 id'', VInt 3), (''Type3 len'', VInt (int (length g))),
      (''data'', VBits g)] @ gs"

lemma pr_at: "pr k v (cur_at pre rest d) = Next (cur_at pre rest (d @ [(k, v)]))"
  by (simp add: pr_def)

lemma pr_fmt_at: "pr_fmt k (VInt v) (cur_at pre rest d) = Next (cur_at pre rest (d @ [(k, VInt v)]))"
  by (simp add: pr_fmt_def pr_at)

lemmas report_simps = rdv_packed pr_at pr_fmt_at pr_read_def pr_read_fmt_def do_when_def branch_def return_now_def
  peek_packed py_name_def

lemma group_identity_packed:
  assumes "fits 3 usage" "fits 24 gssi"
  shows "block group_identity_uplink (cur_at pre (to_bits 1 0 @ to_bits 3 usage @ to_bits 2 0 @ to_bits 24 gssi @ rest) d) =
    Next (cur_at (pre @ to_bits 1 0 @ to_bits 3 usage @ to_bits 2 0 @ to_bits 24 gssi) rest
      (d @ [(''attach_detach_type'', VInt 0), (''class_of_usage'', VInt usage), (''addr_type'', VInt 0), (''GSSI'', VInt gssi)]))"
  using assms by (simp del: One_nat_def add: group_identity_uplink_def report_simps)

lemma fits_group [simp]: "fits 4 8" "fits 11 36" "fits 4 2" "fits 4 3"
  by (simp_all add: fits_def)

lemma one_group: "group_identities 1 s = (case block group_identity_uplink s of Next s' \<Rightarrow> Next s' | Return s' \<Rightarrow> Return s' | Raise e \<Rightarrow> Raise e)"
  by (cases "block group_identity_uplink s") simp_all

lemma group_packed:
  assumes "fits 1 mode" "fits 3 usage" "fits 24 gssi"
  shows "parse_group_identity_location_demand (group_bits mode usage gssi) s =
    Next (s\<lparr>cout := cout s @ group_report mode usage gssi\<rparr>)"
proof -
  have "block location_demand (cur_at [] (group_bits mode usage gssi) (cout s)) =
    Next (cur_at (take 55 (group_bits mode usage gssi)) (to_bits 1 0) (cout s @ group_report mode usage gssi))"
    using assms group_identity_packed [OF assms(2,3), where rest = "to_bits 1 0"]
    by (simp del: One_nat_def add: location_demand_def identity_list_def group_bits_def group_report_def report_simps
        one_group)
  then show ?thesis by (simp add: parse_group_identity_location_demand_def start_at)
qed

lemma element_packed:
  assumes "fits 4 i" "length g < 2048"
  shows "read_element (cur_at pre (to_bits 1 1 @ to_bits 4 i @ to_bits 11 (int (length g)) @ g @ rest) d) =
    (VInt i, VInt (int (length g)), g, cur_at (pre @ to_bits 1 1 @ to_bits 4 i @ to_bits 11 (int (length g)) @ g) rest d)"
proof -
  have f: "fits 11 (int (length g))" using assms(2) by (simp add: fits_def)
  have r: "cursor_remaining (cur_at p (g @ rest) d) = int (length g + length rest)" for p
    by (simp add: cursor_remaining_def clen_def)
  have b: "cursor_read_bin (int (length g)) (cur_at p (g @ rest) d) = (g, cur_at (p @ g) rest d)" for p
    by (simp add: cursor_read_bin_def py_slice_nonneg cur_at_def)
  show ?thesis
    by (simp del: One_nat_def add: read_element_def read_packed f assms(1) r b)
qed

lemma elements_end:
  assumes "length rest < 16" shows "type3_elements (cur_at pre rest d) = Next (cur_at pre rest d)"
  using assms by (subst type3_elements.simps) (simp add: cursor_remaining_def clen_def)

lemma group_element_packed:
  assumes "fits 1 mode" "fits 3 usage" "fits 24 gssi" "length rest < 16" "g = group_bits mode usage gssi"
  shows "type3_elements (cur_at pre (to_bits 1 1 @ to_bits 4 3 @ to_bits 11 (int (length g)) @ g @ rest) d) =
    Next (cur_at (pre @ to_bits 1 1 @ to_bits 4 3 @ to_bits 11 (int (length g)) @ g) rest
      (d @ [(''Type3 id'', VInt 3), (''Type3 len'', VInt (int (length g))), (''data'', VBits g)] @ group_report mode usage gssi))"
proof -
  have l: "length (group_bits mode usage gssi) < 2048" by (simp add: group_bits_def)
  have f3: "fits 4 3" by simp
  have r: "16 \<le> cursor_remaining (cur_at pre (to_bits 1 1 @ to_bits 4 3 @ to_bits 11 (int (length g)) @ g @ rest) d)"
    by (simp add: cursor_remaining_def clen_def)
  have f: "fits 1 1" by simp
  show ?thesis
    using r
    by (subst type3_elements.simps)
       (simp del: One_nat_def add: peek_packed [OF f] element_packed [OF f3 l] report_simps assms(5) group_packed assms(1-3) elements_end assms(4))
qed

lemma layered_at:
  "block cs (cur_at pre rest []) = Next (cur_at pre' rest' e) \<Longrightarrow>
   layered cs f (cur_at pre rest d) = block (f e) (cur_at pre' rest' (d @ e))"
  by (simp add: layered_def)

definition trailing_report :: "bits \<Rightarrow> dict" where
  "trailing_report rest = (if rest = [] then [] else [(''Trailing bits'', VBits rest)])"

lemma trailing_at: "trailing_bits (cur_at pre rest d) = Next (cur_at (pre @ rest) [] (d @ trailing_report rest))"
  by (simp add: trailing_report_def trailing_bits_def cursor_remaining_def clen_def cursor_read_bin_def py_slice_nonneg pr_def cur_at_def)

lemma demand_packed:
  assumes "fits 1 ns" "fits 3 lut" "fits 24 cls" "fits 3 esm" "fits 1 mode" "fits 3 usage" "fits 24 gssi"
    "length rest < 16" "g = group_bits mode usage gssi"
  shows "\<exists>pre. block decode_combined (cur_at [] (demand_bits ns lut cls esm g @ rest) []) =
    Next (cur_at pre [] (demand_report ns lut cls esm g (group_report mode usage gssi @ trailing_report rest)))"
proof -
  have l: "length g = 56" by (simp add: assms(9) group_bits_def)
  note el = group_element_packed [OF assms(5-9), unfolded l of_nat_numeral]
  show ?thesis
    using assms(1-4)
    by (intro exI [where x = "demand_bits ns lut cls esm g @ rest"]) (simp del: One_nat_def add: decode_combined_def demand_bits_def demand_report_def l
        layered_at [OF llc_packed] layered_at [OF mle_packed] llc_fields_def PDU_MLE_DISC_NAMES_def dget_default_def
        demand_body_def demand_type_def LOCATION_DEMAND_TYPES_def opt_value_def report_simps el trailing_at)
qed

text \<open>Statements that cannot raise and leave the value of a key alone.\<close>

definition untouched :: "string \<Rightarrow> cstmt \<Rightarrow> bool" where
  "untouched key c \<longleftrightarrow> (\<forall>s. case c s of Raise e \<Rightarrow> False
     | Next s' \<Rightarrow> map_of (cout s') key = map_of (cout s) key
     | Return s' \<Rightarrow> map_of (cout s') key = map_of (cout s) key)"

lemma untouched_Nil: "untouched key (block [])"
  by (simp add: untouched_def)

lemma untouched_Cons: "untouched key c \<Longrightarrow> untouched key (block cs) \<Longrightarrow> untouched key (block (c # cs))"
  by (force simp: untouched_def split: outcome.splits)

lemma untouched_rd: "k \<noteq> key \<Longrightarrow> untouched key (rd k n)"
  by (auto simp: untouched_def rd_def cursor_read_def map_of_dset)

lemma untouched_rdv: "(\<And>v. untouched key (block (f v))) \<Longrightarrow> untouched key (rdv n f)"
  by (force simp: untouched_def rdv_def cursor_read_def split: outcome.splits)

lemma untouched_out_put: "k \<noteq> key \<Longrightarrow> untouched key (out_put k v)"
  by (simp add: untouched_def out_put_def map_of_dset)

lemma untouched_do_when: "untouched key (block cs) \<Longrightarrow> untouched key (do_when b cs)"
  by (simp add: untouched_def do_when_def)

lemma untouched_branch: "untouched key (block cs) \<Longrightarrow> untouched key (block ds) \<Longrightarrow> untouched key (branch b cs ds)"
  by (simp add: untouched_def branch_def)

lemmas untouched_rules = untouched_Nil untouched_Cons untouched_rd untouched_rdv untouched_out_put untouched_do_when untouched_branch

lemma cursor_read_first: "cursor_read 1 (cur_at [] (b # ul) []) = (VInt (of_bool b), cur_at [b] ul [])"
  using read_packed [of 1 "of_bool b" "[]" ul "[]"] by (cases b) (simp_all add: fits_def to_bits_def)

text \<open>The fields of a MAC-ACCESS behind its first bit.\<close>

lemma access_rest:
  obtains cs where "\<And>ul. block decode_mac_access (cur_at [] (False # ul) []) =
      block cs (cur_at [False] ul [(''mac_pdu_type'', VInt 0)])" "untouched ''mac_pdu_type'' (block cs)"
proof
  let ?cs = "[rd ''fill_bits'' 1, rd ''encrypted'' 1, rdv 2 (\<lambda>v. [out_put ''addr_type'' v,
      out_put ''addr_type_name'' (py_name UL_ADDR_NAMES ''?'' v), pdu_access_address v] @ pdu_access_optional)]"
  show "untouched ''mac_pdu_type'' (block ?cs)"
    unfolding pdu_access_address_def pdu_access_optional_def append_Cons append_Nil
    by (intro untouched_rules) simp_all
  show "block decode_mac_access (cur_at [] (False # ul) []) = block ?cs (cur_at [False] ul [(''mac_pdu_type'', VInt 0)])" for ul
    unfolding decode_mac_access_def
    by (simp del: One_nat_def block.simps(2) add: block.simps(2) [of "rdv n f" for n f] block.simps(2) [of "out_put k v" for k v]
        block.simps(2) [of "do_when b ds" for b ds] rdv_def [of 1] cursor_read_first out_put_def [of "''mac_pdu_type''"] do_when_def split: outcome.split)
qed

text \<open>The MAC-ACCESS is told by its first bit alone: 0, with anything behind it.\<close>

lemma strip_access_0: "\<exists>p mac. strip_mac_access_header (False # ul) = Inr (Some p, mac)"
proof -
  obtain cs where b: "block decode_mac_access (cur_at [] (False # ul) []) = block cs (cur_at [False] ul [(''mac_pdu_type'', VInt 0)])"
    and l: "untouched ''mac_pdu_type'' (block cs)" using access_rest by blast
  have c: "cout (cur_at [False] ul [(''mac_pdu_type'', VInt 0)]) = [(''mac_pdu_type'', VInt 0)]" by (simp add: cur_at_def)
  have "\<exists>d p. run_decoder decode_mac_access (False # ul) 0 = Inr (d, p) \<and> map_of d ''mac_pdu_type'' = Some (VInt 0)"
    using spec [OF l [unfolded untouched_def], of "cur_at [False] ul [(''mac_pdu_type'', VInt 0)]", unfolded c]
    by (cases "block cs (cur_at [False] ul [(''mac_pdu_type'', VInt 0)])") (simp_all add: run_decoder_def start_at b)
  then show ?thesis by (auto simp: strip_mac_access_header_def dget_default_def)
qed

lemma strip_access_other:
  assumes "ul = [] \<or> hd ul" shows "\<exists>mac. strip_mac_access_header ul = Inr (None, mac)"
proof (cases ul)
  case Nil
  have "block decode_mac_access (cur_at [] [] []) =
      Return (cur_at [] [] [(''mac_pdu_type'', VNone), (''_note'', VStr mac_end_hu_note)])"
    by (simp add: decode_mac_access_def rdv_def cursor_read_def clen_def cur_at_def out_put_def do_when_def return_now_def)
  from run_packed [OF disjI2, OF this] show ?thesis
    by (simp add: strip_mac_access_header_def dget_default_def Nil)
next
  case (Cons b ul')
  have "block decode_mac_access (cur_at [] (True # ul') []) = 
      Return (cur_at [True] ul' [(''mac_pdu_type'', VInt 1), (''_note'', VStr mac_end_hu_note)])"
    by (simp del: One_nat_def add: decode_mac_access_def rdv_def cursor_read_first out_put_def do_when_def return_now_def)
  from run_packed [OF disjI2, OF this] show ?thesis
    using assms by (simp add: strip_mac_access_header_def dget_default_def Cons)
qed

lemma strip_end_none: "strip_mac_end_hu_header ul = None \<longleftrightarrow> ul = [] \<or> \<not> hd ul"
proof (cases ul)
  case Nil
  then show ?thesis by (simp add: strip_mac_end_hu_header_def cursor_read_def clen_def)
next
  case (Cons b ul')
  then show ?thesis
    by (simp del: One_nat_def add: strip_mac_end_hu_header_def start_at cursor_read_first Let_def split: prod.split)
qed

lemma combine_raises:
  "combine_fragments ul0 ul1 = Inl e \<longleftrightarrow> e = TypeError \<and> (ul0 = [] \<or> hd ul0 \<or> ul1 = [] \<or> \<not> hd ul1)"
proof (cases "ul0 = [] \<or> hd ul0")
  case True
  then show ?thesis using strip_access_other [OF True] by (auto simp: combine_fragments_def)
next
  case False
  then obtain ul where "ul0 = False # ul" by (cases ul0) auto
  then obtain p mac where "strip_mac_access_header ul0 = Inr (Some p, mac)" using strip_access_0 by blast
  then show ?thesis
    using False strip_end_none [of ul1] by (auto simp: combine_fragments_def split: option.split)
qed

text \<open>C27. A PDU split over two bursts of the random access channel is put together again: for every first
  fragment in a MAC-ACCESS with the fragmentation flag (with or without fill bits) and every second
  fragment of the number of octets its MAC-END-HU declares, whatever follows it in the burst, the two
  fragments are joined exactly.  For any two bursts whatever, joining raises exactly when the first does not
  begin with the bit 0 of a MAC-ACCESS or the second does not begin with the bit 1 of a MAC-END-HU, and
  the exception is TypeError.  So the code looks at nothing but those two bits: it does not check that the
  first burst is fragmented, and a MAC-END-HU behind an unfragmented MAC-ACCESS is joined to it as well.\<close>

theorem fragments_rejoined:
  assumes "fits 1 fill" "fits 1 enc" "fits 24 ssi" "fits 4 rr" "fits 1 fill'" "fits 4 n" "length p1 = 8 * nat n"
  shows "combine_fragments (frag_header fill enc ssi rr @ p0 @ (if fill = 1 then True # replicate k False else []))
      (end_header fill' n @ p1 @ rest) = Inr (p0 @ p1) \<and>
    (\<forall>ul0 ul1 e. combine_fragments ul0 ul1 = Inl e \<longleftrightarrow>
      e = TypeError \<and> (ul0 = [] \<or> hd ul0 \<or> ul1 = [] \<or> \<not> hd ul1))"
  using combine_packed [OF assms] combine_raises by simp

theorem fragments_rejoined_witness:
  "combine_fragments (frag_header 1 0 2629608 9 @ [True, False] @ (if (1::int) = 1 then True # replicate 3 False else []))
      (end_header 0 1 @ replicate 8 True @ [False]) = Inr ([True, False] @ replicate 8 True) \<and>
    combine_fragments [True] [True] = Inl TypeError \<and> combine_fragments [False] [False] = Inl TypeError \<and>
    (\<forall>e. combine_fragments (replicate 92 False) (end_header 0 1 @ replicate 85 True) \<noteq> Inl e)"
  using fragments_rejoined [of 1 0 2629608 9 0 1 "replicate 8 True" "[True, False]" 3 "[False]"]
  by (simp add: fits_def end_header_def to_bits_def hd_append)

text \<open>An ITSI attach with one group, fragmented anywhere, is reported completely: for every LLC sequence
  number, update type, class of MS, energy saving mode, attach mode, class of usage and group number,
  and for every split of the demand (and of up to 15 trailing bits) whose second part is whole octets,
  the report lists every field with its value, the group number last, then the trailing bits.\<close>

theorem itsi_attach_group_reported:
  assumes "fits 1 fill" "fits 1 enc" "fits 24 ssi" "fits 4 rr" "fits 1 fill'" "fits 4 n" "length p1 = 8 * nat n"
    and "fits 1 ns" "fits 3 lut" "fits 24 cls" "fits 3 esm" "fits 1 mode" "fits 3 usage" "fits 24 gssi"
    and "length rest < 16" "p0 @ p1 = demand_bits ns lut cls esm (group_bits mode usage gssi) @ rest"
  shows "reassemble_and_decode (frag_header fill enc ssi rr @ p0 @ (if fill = 1 then True # replicate k False else []))
      (end_header fill' n @ p1 @ pad) =
    Inr (demand_report ns lut cls esm (group_bits mode usage gssi) (group_report mode usage gssi @ trailing_report rest))"
  using demand_packed [OF assms(8-15) refl] combine_packed [OF assms(1-7), of p0 k pad]
  by (auto simp: reassemble_and_decode_def assms(16) start_at)

theorem itsi_attach_group_reported_witness:
  "reassemble_and_decode (frag_header 0 0 2629608 0 @ take 42 (demand_bits 0 3 0 1 (group_bits 0 4 3100003)))
      (end_header 1 10 @ drop 42 (demand_bits 0 3 0 1 (group_bits 0 4 3100003)) @ [True]) =
    Inr (demand_report 0 3 0 1 (group_bits 0 4 3100003) (group_report 0 4 3100003))"
proof -
  let ?g = "group_bits 0 4 3100003"
  have "take 42 (demand_bits 0 3 0 1 ?g) @ drop 42 (demand_bits 0 3 0 1 ?g) = demand_bits 0 3 0 1 ?g @ []" by simp
  moreover have "length (demand_bits 0 3 0 1 ?g) = 122" by (simp add: demand_bits_def group_bits_def)
  ultimately show ?thesis
    using itsi_attach_group_reported [of 0 0 2629608 0 1 10 "drop 42 (demand_bits 0 3 0 1 ?g)" 0 3 0 1 0 4 3100003 "[]"
      "take 42 (demand_bits 0 3 0 1 ?g)" 0 "[True]"]
    by (simp add: fits_def trailing_report_def)
qed

end
