(* ===== verification/TchS.thy ===== *)
theory TchS
  imports Scrambler Interleaver DecodePdu
begin

unbundle bit_operations_syntax

text \<open>
  The voice burst decoder \<open>scripts/decode_tch_s.py\<close>: the ACELP position tables, the cell scrambler
  and the block interleaver of the voice channel (its two functions are in \<open>Interleaver\<close>), the
  segments of a frame, and \<open>decode_tch_s_burst\<close> with its hexadecimal dumps.  The note it adds to
  the result is left out.

  The lemmas show that a burst built with the module's own interleaver and scrambler is taken apart
  into the segments it was made of, that the dumps are read back by \<open>hex_to_bits\<close> of
  \<open>scripts/decode_pdu.py\<close>, and which codec bits the class tables cover.
\<close>

subsection \<open>Codec bit positions\<close>

definition ACELP_CLASS0_POSITIONS :: "int list" where
  "ACELP_CLASS0_POSITIONS =
    [35, 36, 37, 38, 39, 40, 41, 42, 33, 47, 48, 56, 61, 62, 63, 65, 66, 67, 68, 69, 70, 74, 75, 83,
     88, 89, 90, 91, 92, 93, 94, 95, 96, 97, 101, 102, 110, 115, 116, 117, 118, 119, 120, 121, 122,
     123, 124, 128, 129, 137]"

definition ACELP_CLASS1_POSITIONS :: "int list" where
  "ACELP_CLASS1_POSITIONS =
    [58, 85, 112, 54, 81, 108, 135, 50, 77, 104, 131, 45, 72, 99, 126, 55, 82, 109, 136, 5, 13, 34,
     8, 16, 17, 22, 23, 24, 25, 26, 6, 14, 7, 15, 60, 87, 114, 46, 73, 100, 127, 44, 71, 98, 125,
     33, 49, 76, 103, 130, 59, 86, 113, 57, 84, 111]"

definition ACELP_CLASS2_POSITIONS :: "int list" where
  "ACELP_CLASS2_POSITIONS =
    [18, 19, 20, 21, 31, 32, 53, 80, 107, 134, 1, 2, 3, 4, 9, 10, 11, 12, 27, 28, 29, 30, 52, 79,
     106, 133, 51, 78, 105, 132]"

text \<open>A range is its first element and the element after its last.\<close>

definition ACELP_FIELDS :: "((int \<times> int) \<times> string) list" where
  "ACELP_FIELDS =
    [((1, 9), ''LSP1[index]''), ((9, 18), ''LSP2[index]''), ((18, 27), ''LSP3[index]''),
     ((27, 31), ''LSP4[index]''), ((31, 38), ''subframe1.pitch_lag''),
     ((38, 43), ''subframe1.fcb_gain''), ((43, 45), ''subframe1.acb_gain''),
     ((45, 68), ''subframe1.fcb_position''), ((68, 73), ''subframe2.pitch_lag''),
     ((73, 78), ''subframe2.fcb_gain''), ((78, 80), ''subframe2.acb_gain''),
     ((80, 103), ''subframe2.fcb_position''), ((103, 110), ''subframe3.pitch_lag''),
     ((110, 115), ''subframe3.fcb_gain''), ((115, 117), ''subframe3.acb_gain''),
     ((117, 130), ''subframe3.fcb_position''), ((130, 138), ''subframe4.packed'')]"

definition acelp_position_to_field :: "int \<Rightarrow> string" where
  "acelp_position_to_field pos =
     (case find (\<lambda>((lo, hi), name). lo \<le> pos \<and> pos < hi) ACELP_FIELDS of
        Some (r, name) \<Rightarrow> name
      | None \<Rightarrow> ''unknown_'' @ str_int pos)"

definition acelp_position_to_class :: "int \<Rightarrow> string" where
  "acelp_position_to_class pos =
     (if pos \<in> set ACELP_CLASS0_POSITIONS then ''Class0''
      else if pos \<in> set ACELP_CLASS1_POSITIONS then ''Class1''
      else if pos \<in> set ACELP_CLASS2_POSITIONS then ''Class2''
      else ''unknown'')"

definition acelp_layout :: "(int \<times> string \<times> string) list" where
  "acelp_layout =
     map (\<lambda>pos. (pos, acelp_position_to_class pos, acelp_position_to_field pos)) [1..137]"

subsection \<open>Scrambler and segments\<close>

definition tch_feedback :: "32 word \<Rightarrow> 32 word" where
  "tch_feedback st =
     (drop_bit 31 st XOR drop_bit 30 st XOR drop_bit 29 st XOR drop_bit 27 st XOR drop_bit 25 st
      XOR drop_bit 0 st) AND 1"

fun tch_scrambler_loop :: "nat \<Rightarrow> 32 word \<Rightarrow> bits" where
  "tch_scrambler_loop 0 st = []"
| "tch_scrambler_loop (Suc n) st =
     (let b = tch_feedback st in (b = 1) # tch_scrambler_loop n (push_bit 1 st OR b))"

definition tch_scrambler_seq :: "int \<Rightarrow> nat \<Rightarrow> bits" where
  "tch_scrambler_seq scramb_init len = tch_scrambler_loop len (word_of_int scramb_init)"

definition descramble_tch_s :: "bits \<Rightarrow> int \<Rightarrow> bits" where
  "descramble_tch_s type5_bits scramb_init =
     xor_bits type5_bits (tch_scrambler_seq scramb_init (length type5_bits))"

definition CLASS0_LEN_T2 :: nat where "CLASS0_LEN_T2 = 51"
definition CLASS1_LEN_T2 :: nat where "CLASS1_LEN_T2 = 112"
definition CLASS2_LEN_T2 :: nat where "CLASS2_LEN_T2 = 45"
definition CRC_LEN_T2 :: nat where "CRC_LEN_T2 = 8"
definition FRAME_T2_LEN :: nat where
  "FRAME_T2_LEN = CLASS0_LEN_T2 + CLASS1_LEN_T2 + CLASS2_LEN_T2 + CRC_LEN_T2"

record 'a tch_frame =
  class0_t2 :: 'a
  class1_t2 :: 'a
  class2_t2 :: 'a
  crc_t2 :: 'a

text \<open>The slice \<open>xs[lo:hi]\<close> with constant bounds.\<close>

definition seg :: "nat \<Rightarrow> nat \<Rightarrow> 'a list \<Rightarrow> 'a list" where
  "seg lo hi xs = take (hi - lo) (drop lo xs)"

definition split_frame_into_classes :: "bits \<Rightarrow> bits tch_frame res" where
  "split_frame_into_classes frame_t2_bits =
     assert_res (length frame_t2_bits = FRAME_T2_LEN)
       (Inr \<lparr>class0_t2 = seg 0 51 frame_t2_bits, class1_t2 = seg 51 163 frame_t2_bits,
             class2_t2 = seg 163 208 frame_t2_bits, crc_t2 = seg 208 216 frame_t2_bits\<rparr>)"

subsection \<open>The burst\<close>

definition nibble :: "bool \<Rightarrow> bool \<Rightarrow> bool \<Rightarrow> bool \<Rightarrow> char" where
  "nibble a b c d =
     hex_digit (push_bit 3 (of_bool a) OR push_bit 2 (of_bool b) OR push_bit 1 (of_bool c)
       OR of_bool d)"

fun nibbles :: "bits \<Rightarrow> string" where
  "nibbles (a # b # c # d # bs) = nibble a b c d # nibbles bs"
| "nibbles _ = []"

definition to_hex :: "bits \<Rightarrow> string" where
  "to_hex arr = nibbles (arr @ replicate ((4 - length arr mod 4) mod 4) False)"

record tch_dump =
  type5_hex :: string
  type4_hex :: string
  type3_hex :: string
  type2_hex :: string
  frame0 :: "string tch_frame"
  frame1 :: "string tch_frame"
  layout :: "(int \<times> string \<times> string) list"

definition hex_frame :: "bits tch_frame \<Rightarrow> string tch_frame" where
  "hex_frame f =
     \<lparr>class0_t2 = to_hex (class0_t2 f), class1_t2 = to_hex (class1_t2 f),
      class2_t2 = to_hex (class2_t2 f), crc_t2 = to_hex (crc_t2 f)\<rparr>"

definition decode_tch_s_burst :: "bits \<Rightarrow> int \<Rightarrow> tch_dump res" where
  "decode_tch_s_burst t5 scramb_init =
     assert_res (length t5 = 432)
       (let t4 = descramble_tch_s t5 scramb_init
        in bind_res (deinterleave_block t4 432 103) (\<lambda>t3.
           let t2 = t3
           in bind_res (split_frame_into_classes (seg 0 216 t2)) (\<lambda>f0.
              bind_res (split_frame_into_classes (seg 216 432 t2)) (\<lambda>f1.
              Inr \<lparr>type5_hex = to_hex t5, type4_hex = to_hex t4, type3_hex = to_hex t3,
                   type2_hex = to_hex t2, frame0 = hex_frame f0, frame1 = hex_frame f1,
                   layout = acelp_layout\<rparr>))))"

subsection \<open>Hexadecimal dumps\<close>

lemma nibble_table:
  "list_all (\<lambda>a. list_all (\<lambda>b. list_all (\<lambda>c. list_all (\<lambda>d.
     hex_val (nibble a b c d) = Some (bits_val [a, b, c, d]))
       [False, True]) [False, True]) [False, True]) [False, True]"
  by code_simp

lemma nibble_digit: "hex_val (nibble a b c d) = Some (bits_val [a, b, c, d])"
  using nibble_table by (cases a; cases b; cases c; cases d) simp_all

lemma nibble_no_x: "CHR ''x'' \<noteq> nibble a b c d" "CHR ''X'' \<noteq> nibble a b c d"
proof -
  have "hex_val (CHR ''x'') = None" "hex_val (CHR ''X'') = None" by code_simp+
  then show "CHR ''x'' \<noteq> nibble a b c d" "CHR ''X'' \<noteq> nibble a b c d"
    by (metis nibble_digit option.distinct(1))+
qed

lemma nibbles_read:
  "4 dvd length bs \<Longrightarrow> hex_value v (nibbles bs) = Some (bits_acc v bs)"
proof (induction bs arbitrary: v rule: nibbles.induct)
  case (1 a b c d bs)
  have dv: "4 dvd length bs" using "1.prems" by simp presburger
  have "bits_acc v (a # b # c # d # bs) = bits_acc (v * 16 + bits_val [a, b, c, d]) bs"
    by (simp add: bits_val_Cons algebra_simps)
  then show ?case using "1.IH" [OF dv] by (simp add: nibble_digit)
qed (simp_all, presburger+)

lemma length_nibbles: "4 dvd length bs \<Longrightarrow> length (nibbles bs) * 4 = length bs"
proof (induction bs rule: nibbles.induct)
  case (1 a b c d bs)
  have "4 dvd length bs" using "1.prems" by simp presburger
  then show ?case using "1.IH" by simp
qed (simp_all, presburger+)

lemma nibbles_no_x: "CHR ''x'' \<notin> set (nibbles bs) \<and> CHR ''X'' \<notin> set (nibbles bs)"
  by (induction bs rule: nibbles.induct) (simp_all add: nibble_no_x)

lemma take_2_neq: "c \<notin> set s \<Longrightarrow> take 2 s \<noteq> [d, c]"
  by (metis in_set_takeD list.set_intros)

lemma strip_0x_nibbles: "strip_0x (nibbles bs) = nibbles bs"
  unfolding strip_0x_def
  using take_2_neq [OF conjunct1 [OF nibbles_no_x]] take_2_neq [OF conjunct2 [OF nibbles_no_x]]
  by (simp only: if_False de_Morgan_disj HOL.simp_thms)

lemma padded_length: "4 dvd length (bs @ replicate ((4 - length bs mod 4) mod 4) False)"
proof -
  have "(n + (4 - n mod 4) mod 4) mod 4 = 0" for n :: nat
  proof -
    have "(n + (4 - n mod 4) mod 4) mod 4 = (n mod 4 + (4 - n mod 4)) mod 4"
      by (simp only: mod_add_left_eq mod_add_right_eq)
    also have "n mod 4 + (4 - n mod 4) = 4"
      using mod_less_divisor [of 4 n] by linarith
    finally show ?thesis by simp
  qed
  then have "4 dvd n + (4 - n mod 4) mod 4" for n :: nat by (simp only: dvd_eq_mod_eq_0)
  then show ?thesis by simp
qed

lemma hex_dump_read_back: "hex_to_bits (to_hex bs) (Some (length bs)) = Inr bs"
proof -
  let ?p = "bs @ replicate ((4 - length bs mod 4) mod 4) False"
  have val: "hex_value 0 (to_hex bs) = Some (bits_val ?p)"
    using nibbles_read [OF padded_length [of bs], of 0] by (simp add: to_hex_def bits_val_def)
  have len: "length (to_hex bs) * 4 = length ?p"
    using length_nibbles [OF padded_length [of bs]] by (simp add: to_hex_def)
  have bits: "to_bits (length ?p) (bits_val ?p) = ?p" by (rule to_bits_bits_val)
  show ?thesis
  proof (cases "bs = []")
    case True
    then show ?thesis by (simp add: hex_to_bits_def to_hex_def strip_0x_def)
  next
    case False
    then have "length ?p \<noteq> 0" by simp
    then show ?thesis
      using val len bits strip_0x_nibbles [of ?p]
      by (simp only: hex_to_bits_def Let_def to_hex_def option.case if_False) simp
  qed
qed

subsection \<open>Segments\<close>

lemma length_tch_loop [simp]: "length (tch_scrambler_loop n st) = n"
  by (induction n arbitrary: st) (simp_all add: Let_def)

lemma tch_feedback_eq: "tch_feedback = cell_bit"
  by (rule ext) (simp add: tch_feedback_def cell_bit_def)

lemma tch_loop_eq: "tch_scrambler_loop n st = cell_scrambler_loop n st"
  by (induction n arbitrary: st) (simp_all add: tch_feedback_eq)

lemma tch_scrambler_eq: "tch_scrambler_seq = cell_scrambler_seq"
  by (intro ext) (simp add: tch_scrambler_seq_def cell_scrambler_seq_def tch_loop_eq)

interpretation tch_ks: keystream tch_scrambler_seq
  by unfold_locales (simp add: tch_scrambler_seq_def)

lemma seg_whole: "seg 0 (length xs) xs = xs"
  by (simp add: seg_def)

lemma seg_append:
  "length xs = k \<Longrightarrow> seg 0 k (xs @ ys) = xs"
  "length xs \<le> lo \<Longrightarrow> seg lo hi (xs @ ys) = seg (lo - length xs) (hi - length xs) ys"
  by (simp_all add: seg_def)

text \<open>The type-2 bits of a frame in the order of \<open>split_frame_into_classes\<close>.\<close>

definition frame_bits :: "bits tch_frame \<Rightarrow> bits" where
  "frame_bits f = class0_t2 f @ class1_t2 f @ class2_t2 f @ crc_t2 f"

definition frame_ok :: "bits tch_frame \<Rightarrow> bool" where
  "frame_ok f \<longleftrightarrow> length (class0_t2 f) = CLASS0_LEN_T2 \<and> length (class1_t2 f) = CLASS1_LEN_T2 \<and>
     length (class2_t2 f) = CLASS2_LEN_T2 \<and> length (crc_t2 f) = CRC_LEN_T2"

lemmas t2_lens = CLASS0_LEN_T2_def CLASS1_LEN_T2_def CLASS2_LEN_T2_def CRC_LEN_T2_def FRAME_T2_LEN_def

lemma length_frame_bits: "frame_ok f \<Longrightarrow> length (frame_bits f) = 216"
  by (simp add: frame_ok_def frame_bits_def t2_lens)

lemma split_frame_bits: "frame_ok f \<Longrightarrow> split_frame_into_classes (frame_bits f) = Inr f"
  by (cases f)
    (simp add: split_frame_into_classes_def frame_ok_def frame_bits_def t2_lens seg_def)

text \<open>C28. A voice burst made of two frames with the module's own interleaver and scrambler is taken
  apart again: the decoder returns without an exception and its dumps hold the type-2 bits and the
  four segments of both frames.\<close>

theorem tch_s_burst_roundtrip:
  assumes "frame_ok f0" "frame_ok f1"
  shows "\<exists>t4 d. interleave_block (frame_bits f0 @ frame_bits f1) 432 103 = Inr t4 \<and>
    decode_tch_s_burst (xor_bits t4 (tch_scrambler_seq init 432)) init = Inr d \<and>
    type4_hex d = to_hex t4 \<and> type2_hex d = to_hex (frame_bits f0 @ frame_bits f1) \<and>
    frame0 d = hex_frame f0 \<and> frame1 d = hex_frame f1 \<and> layout d = acelp_layout"
proof -
  let ?t2 = "frame_bits f0 @ frame_bits f1"
  have "length ?t2 = 432" using assms by (simp add: length_frame_bits)
  then obtain t4 where t4: "interleave_block ?t2 432 103 = Inr t4" "length t4 = 432"
    "deinterleave_block t4 432 103 = Inr ?t2"
    by (rule tch_ilv.dil_ilv)
  have "descramble_tch_s (xor_bits t4 (tch_scrambler_seq init 432)) init = t4"
    using t4(2) tch_ks.mask_mask [of init t4]
    by (simp add: descramble_tch_s_def tch_ks.mask_with_def tch_scrambler_seq_def)
  moreover have "seg 0 216 ?t2 = frame_bits f0" "seg 216 432 ?t2 = frame_bits f1"
    using assms by (simp_all add: seg_def length_frame_bits)
  ultimately show ?thesis
    using t4 assms
    by (simp add: decode_tch_s_burst_def Let_def split_frame_bits tch_scrambler_seq_def)
qed

definition demo_frame :: "bits tch_frame" where
  "demo_frame = \<lparr>class0_t2 = replicate 51 True, class1_t2 = replicate 112 False,
     class2_t2 = replicate 45 True, crc_t2 = replicate 8 False\<rparr>"

theorem tch_s_burst_witness:
  "\<exists>t4 d. interleave_block (frame_bits demo_frame @ frame_bits demo_frame) 432 103 = Inr t4 \<and>
    decode_tch_s_burst (xor_bits t4 (tch_scrambler_seq 0x4183F207 432)) 0x4183F207 = Inr d \<and>
    type4_hex d = to_hex t4 \<and> type2_hex d = to_hex (frame_bits demo_frame @ frame_bits demo_frame) \<and>
    frame0 d = hex_frame demo_frame \<and> frame1 d = hex_frame demo_frame \<and> layout d = acelp_layout"
  by (rule tch_s_burst_roundtrip) (simp_all add: frame_ok_def demo_frame_def t2_lens)

lemma tch_s_burst_length: "length t5 \<noteq> 432 \<Longrightarrow> decode_tch_s_burst t5 init = Inl AssertionError"
  by (simp add: decode_tch_s_burst_def)

text \<open>Every bit list is read back from its hexadecimal dump by the PDU decoder's
  \<open>hex_to_bits\<close>.\<close>

theorem tch_dump_read_back: "hex_to_bits (to_hex bs) (Some (length bs)) = Inr bs"
  by (rule hex_dump_read_back)

text \<open>The layout names 137 codec bits, all inside a field of the frame table, and gives a class to
  all but positions 43 and 64: these are missing from the table of class 0, which has 50 entries
  instead of 51 and lists 33, a bit of class 1, a second time.\<close>

theorem acelp_layout_gaps:
  "length acelp_layout = 137 \<and>
   list_all (\<lambda>(pos, cls, field). (cls = ''unknown'') = (pos = 43 \<or> pos = 64) \<and>
     field \<in> snd ` set ACELP_FIELDS) acelp_layout \<and>
   length ACELP_CLASS0_POSITIONS = 50 \<and>
   set ACELP_CLASS0_POSITIONS \<inter> set ACELP_CLASS1_POSITIONS = {33}"
  unfolding acelp_layout_def by code_simp

end
