(* ===== verification/RrcFilter.thy ===== *)
theory RrcFilter
  imports CicFilters
begin

unbundle bit_operations_syntax

text \<open>
  The root-raised-cosine filters in fixed point: the receiver's matched filter
  \<open>simulate_rrc_fixed\<close> of \<open>tb/vectors/gen_rx_frontend_vectors.py\<close> behind the decimator
  (\<open>add_test\<close>), and the transmitter's polyphase interpolator of
  \<open>tb/vectors/gen_rrc_filter_vectors.py\<close>.

  The receiver's filter is a 33-tap convolution whose accumulator fits 32 bits.  The polyphase
  filter, four sums of nine products per symbol, is the same convolution applied to the symbols
  with three zeros inserted after each.
\<close>

definition RRC_Q14 :: "int list" where
  "RRC_Q14 =
    [17, 109, 78, -78, -209, -121, 210, 535, 468, -181, -1108, -1545, -694, 1696, 4979, 7844, 8978,
     7844, 4979, 1696, -694, -1545, -1108, -181, 468, 535, 210, -121, -209, -78, 78, 109, 17]"

definition RRC_ACC_SHIFT :: nat where "RRC_ACC_SHIFT = 14"

subsection \<open>Receiver\<close>

text \<open>The loop \<open>acc += sr[t] * h[t]\<close>.\<close>

definition mac :: "int list \<Rightarrow> int list \<Rightarrow> int" where
  "mac sr h = foldl (\<lambda>acc (s, c). acc + s * c) 0 (zip sr h)"

fun rrc_loop :: "int list \<Rightarrow> int list \<Rightarrow> int list" where
  "rrc_loop sr [] = []"
| "rrc_loop sr (x # xs) =
     (let sr = x # butlast sr;
          acc = mac sr RRC_Q14;
          out_val = drop_bit RRC_ACC_SHIFT acc
      in clamp16 out_val # rrc_loop sr xs)"

definition rrc_channel :: "int list \<Rightarrow> int list" where
  "rrc_channel x = rrc_loop (replicate 33 0) x"

definition simulate_rrc_fixed :: "int list \<Rightarrow> int list \<Rightarrow> int list \<times> int list" where
  "simulate_rrc_fixed i_in q_in = (rrc_channel i_in, rrc_channel q_in)"

text \<open>\<open>add_test\<close> on samples that are already quantised: the stimulus and the expected outputs.\<close>

definition add_test ::
  "int list \<Rightarrow> int list \<Rightarrow> nat \<Rightarrow> ((int list \<times> int list) \<times> int list \<times> int list) res" where
  "add_test i16 q16 sym_count =
     (let (cic_i, cic_q) = simulate_cic_fixed i16 q16;
          (rrc_i, rrc_q) = simulate_rrc_fixed cic_i cic_q
      in assert_res (sym_count \<le> length rrc_i)
           (Inr ((i16, q16), take sym_count rrc_i, take sym_count rrc_q)))"

subsection \<open>Transmitter\<close>

definition H :: "int list" where
  "H = [17, 109, 78, -78, -209, -121, 210, 535, 468, -181, -1108, -1545, -694, 1696, 4979, 7844,
        8978, 7844, 4979, 1696, -694, -1545, -1108, -181, 468, 535, 210, -121, -209, -78, 78, 109, 17]"

definition SR_DEPTH :: nat where "SR_DEPTH = 9"

definition q14_shift :: "int \<Rightarrow> int" where
  "q14_shift x = drop_bit 14 x"

definition saturate :: "int \<Rightarrow> nat \<Rightarrow> int" where
  "saturate x width =
     (let lo = - (2 ^ (width - 1)); hi = 2 ^ (width - 1) - 1
      in if hi < x then hi else if x < lo then lo else x)"

definition poly_coeff :: "nat \<Rightarrow> nat \<Rightarrow> int" where
  "poly_coeff phase tap = (let h_idx = phase + 4 * tap in if h_idx < length H then H ! h_idx else 0)"

definition polyphase_output :: "int list \<Rightarrow> int list \<Rightarrow> nat \<Rightarrow> int \<times> int" where
  "polyphase_output sr_i sr_q phase =
     (let (acc_i, acc_q) =
            foldl (\<lambda>(acc_i, acc_q) tap.
                (acc_i + poly_coeff phase tap * sr_i ! tap, acc_q + poly_coeff phase tap * sr_q ! tap))
              (0, 0) [0..<SR_DEPTH]
      in (saturate (q14_shift acc_i) 16, saturate (q14_shift acc_q) 16))"

definition process_symbol :: "int list \<Rightarrow> int list \<Rightarrow> (int \<times> int) list" where
  "process_symbol sr_i sr_q = map (polyphase_output sr_i sr_q) [0..<4]"

fun run_filter_loop :: "int list \<Rightarrow> int list \<Rightarrow> (int \<times> int) list \<Rightarrow> (int \<times> int) list" where
  "run_filter_loop sr_i sr_q [] = []"
| "run_filter_loop sr_i sr_q ((s_i, s_q) # ss) =
     (let sr_i = s_i # butlast sr_i; sr_q = s_q # butlast sr_q
      in process_symbol sr_i sr_q @ run_filter_loop sr_i sr_q ss)"

definition run_filter :: "int list \<Rightarrow> int list \<Rightarrow> (int \<times> int) list" where
  "run_filter input_i input_q =
     run_filter_loop (replicate SR_DEPTH 0) (replicate SR_DEPTH 0) (zip input_i input_q)"

subsection \<open>The polyphase filter is the convolution of the stuffed symbols\<close>

lemma saturate_clamp: "saturate v 16 = clamp16 v"
  by (simp add: saturate_def clamp16_def Let_def)

lemma tables_agree: "H = RRC_Q14"
  by (simp add: H_def RRC_Q14_def)

text \<open>The receiver's shift register between two symbols, for the transmitter's register \<open>a\<close>.\<close>

definition spread :: "int list \<Rightarrow> int list" where
  "spread a = concat (map (\<lambda>s. [0, 0, 0, s]) (take 8 a)) @ [0]"

lemma mac_Cons [simp]: "mac (s # sr) (c # h) = s * c + mac sr h"
proof -
  have "foldl (\<lambda>acc (s, c). acc + s * c) a l = a + foldl (\<lambda>acc (s, c). acc + s * c) 0 l"
    for a and l :: "(int \<times> int) list"
  proof (induction l arbitrary: a)
    case (Cons p l)
    obtain x y where p: "p = (x, y)" by (cases p)
    show ?case using Cons [of "a + x * y"] Cons [of "x * y"] by (simp add: p)
  qed simp
  from this [of "s * c" "zip sr h"] show ?thesis by (simp add: mac_def)
qed

lemma mac_Nil [simp]: "mac [] h = 0" "mac sr [] = 0"
  by (simp_all add: mac_def)

lemma upt_9: "[0..<9] = [0, 1, 2, 3, 4, 5, 6, 7, 8]"
  by (simp add: upt_rec)

lemma upt_4: "[0..<4] = [0, 1, 2, 3]"
  by (simp add: upt_rec)

lemma length_9:
  assumes "length (a :: int list) = 9"
  obtains a0 a1 a2 a3 a4 a5 a6 a7 a8 where "a = [a0, a1, a2, a3, a4, a5, a6, a7, a8]"
proof -
  have "\<exists>a0 a1 a2 a3 a4 a5 a6 a7 a8. a = [a0, a1, a2, a3, a4, a5, a6, a7, a8]"
    using assms by (auto simp: numeral_eq_Suc length_Suc_conv)
  then show thesis using that by blast
qed

text \<open>One accumulator of \<open>polyphase_output\<close>.\<close>

definition poly_acc :: "int list \<Rightarrow> nat \<Rightarrow> int" where
  "poly_acc sr phase = foldl (\<lambda>acc tap. acc + poly_coeff phase tap * sr ! tap) 0 [0..<9]"

lemma polyphase_eq:
  "polyphase_output sr_i sr_q phase =
    (clamp16 (drop_bit 14 (poly_acc sr_i phase)), clamp16 (drop_bit 14 (poly_acc sr_q phase)))"
proof -
  have "foldl (\<lambda>(a, b) t. (a + f t, b + g t)) (x, y) l =
      (foldl (\<lambda>a t. a + f t) x l, foldl (\<lambda>b t. b + g t) y l)"
    for f g :: "nat \<Rightarrow> int" and x y l
    by (induction l arbitrary: x y) simp_all
  then show ?thesis
    by (simp add: polyphase_output_def poly_acc_def SR_DEPTH_def saturate_clamp q14_shift_def)
qed

lemma poly_acc_explicit:
  assumes "a = [a0, a1, a2, a3, a4, a5, a6, a7, a8]"
  shows
    "poly_acc a 0 = 17 * a0 - 209 * a1 + 468 * a2 - 694 * a3 + 8978 * a4 - 694 * a5 + 468 * a6
      - 209 * a7 + 17 * a8"
    "poly_acc a 1 = 109 * a0 - 121 * a1 - 181 * a2 + 1696 * a3 + 7844 * a4 - 1545 * a5 + 535 * a6
      - 78 * a7"
    "poly_acc a 2 = 78 * a0 + 210 * a1 - 1108 * a2 + 4979 * a3 + 4979 * a4 - 1108 * a5 + 210 * a6
      + 78 * a7"
    "poly_acc a 3 = - 78 * a0 + 535 * a1 - 1545 * a2 + 7844 * a3 + 1696 * a4 - 181 * a5 - 121 * a6
      + 109 * a7"
  by (simp_all add: assms poly_acc_def upt_9 poly_coeff_def H_def)

text \<open>One symbol: the transmitter's four outputs are the receiver's outputs for the symbol and three
  zeros.\<close>

lemma rrc_symbol:
  assumes "length a = 9"
  shows "rrc_loop (spread a) (s # 0 # 0 # 0 # xs) =
    map (\<lambda>p. clamp16 (drop_bit 14 (poly_acc (s # butlast a) p))) [0..<4]
    @ rrc_loop (spread (s # butlast a)) xs"
proof -
  obtain a0 a1 a2 a3 a4 a5 a6 a7 a8 where a: "a = [a0, a1, a2, a3, a4, a5, a6, a7, a8]"
    using length_9 [OF assms] by blast
  have b: "s # butlast a = [s, a0, a1, a2, a3, a4, a5, a6, a7]" by (simp add: a)
  show ?thesis
    unfolding upt_4 list.map poly_acc_explicit [OF b]
    by (simp add: a spread_def RRC_ACC_SHIFT_def RRC_Q14_def Let_def algebra_simps)
qed

lemma rrc_upsampled:
  "length a = 9 \<Longrightarrow> length b = 9 \<Longrightarrow> length xs = length ys \<Longrightarrow>
   map fst (run_filter_loop a b (zip xs ys)) = rrc_loop (spread a) (upsample xs 4) \<and>
   map snd (run_filter_loop a b (zip xs ys)) = rrc_loop (spread b) (upsample ys 4)"
proof (induction xs ys arbitrary: a b rule: list_induct2')
  case (4 x xs y ys)
  have up: "upsample (z # zs) 4 = z # 0 # 0 # 0 # upsample zs 4" for z zs
    by (simp add: upsample_def numeral_eq_Suc)
  have "length (x # butlast a) = 9" "length (y # butlast b) = 9" using "4.prems" by simp_all
  from "4.IH" [OF this] "4.prems" show ?case
    by (simp add: up rrc_symbol process_symbol_def polyphase_eq Let_def o_def
        del: rrc_loop.simps upt.simps)
qed (simp_all add: upsample_def)

text \<open>The transmitter's polyphase filter is the receiver's matched filter applied to the symbols
  with three zeros inserted after each: all outputs of both channels agree, to the bit and with
  the same saturation.\<close>

theorem polyphase_is_matched_filter:
  assumes "length input_i = length input_q"
  shows "map fst (run_filter input_i input_q) = rrc_channel (upsample input_i 4) \<and>
    map snd (run_filter input_i input_q) = rrc_channel (upsample input_q 4)"
proof -
  have "spread (replicate SR_DEPTH 0) = replicate 33 0"
    by (simp add: spread_def SR_DEPTH_def numeral_eq_Suc)
  then show ?thesis
    using rrc_upsampled [of "replicate SR_DEPTH 0" "replicate SR_DEPTH 0" input_i input_q] assms
    by (simp add: run_filter_def rrc_channel_def SR_DEPTH_def)
qed

theorem polyphase_witness:
  "map fst (run_filter [32767, -5] [0, 9]) = rrc_channel (upsample [32767, -5] 4) \<and>
   map snd (run_filter [32767, -5] [0, 9]) = rrc_channel (upsample [0, 9] 4)"
  by (rule polyphase_is_matched_filter) simp

subsection \<open>The matched filter is a convolution\<close>

lemma length_rrc_loop [simp]: "length (rrc_loop sr xs) = length xs"
  by (induction xs arbitrary: sr) (simp_all add: Let_def)

lemma length_rrc_channel [simp]: "length (rrc_channel xs) = length xs"
  by (simp add: rrc_channel_def)

lemma mac_sum: "length sr = length h \<Longrightarrow> mac sr h = (\<Sum>t<length h. h ! t * sr ! t)"
proof (induction sr h rule: list_induct2)
  case (Cons s sr c h)
  then show ?case by (simp add: sum.lessThan_Suc_shift mult.commute del: sum.lessThan_Suc)
qed simp

text \<open>The register holds the last 33 samples, newest first.\<close>

lemma rrc_loop_nth:
  assumes "length sr = 33" "n < length xs"
  shows "rrc_loop sr xs ! n = clamp16 (drop_bit 14 (mac (take 33 (rev (take (Suc n) xs) @ sr)) RRC_Q14))"
  using assms
proof (induction xs arbitrary: sr n)
  case (Cons x xs)
  have shift: "x # butlast sr = take 33 (x # sr)"
    using Cons.prems(1) by (simp add: butlast_conv_take)
  have window: "take 33 (A @ take 33 B) = take 33 (A @ B)" for A B :: "int list"
    by (simp add: min_def)
  show ?case
  proof (cases n)
    case 0
    then show ?thesis by (simp add: shift RRC_ACC_SHIFT_def Let_def)
  next
    case (Suc m)
    have "rrc_loop sr (x # xs) ! n = rrc_loop (x # butlast sr) xs ! m" by (simp add: Suc Let_def)
    also have "\<dots> = clamp16 (drop_bit 14 (mac (take 33 (rev (take (Suc m) xs) @ x # butlast sr)) RRC_Q14))"
      using Cons.prems Suc by (intro Cons.IH) simp_all
    also have "take 33 (rev (take (Suc m) xs) @ x # butlast sr)
        = take 33 (rev (take (Suc n) (x # xs)) @ sr)"
      using window [of "rev (take (Suc m) xs)" "x # sr"] by (simp only: shift Suc) simp
    finally show ?thesis .
  qed
qed simp

text \<open>The matched filter computes, for every sample, the 33-tap convolution with the coefficient
  table (samples before the first count as zero), scaled by \<open>2 ^ 14\<close> and saturated; for 16-bit
  input its accumulator stays below \<open>2 ^ 31\<close>.\<close>

theorem rrc_channel_convolution:
  assumes "list_all int16 x" "n < length x"
  shows "rrc_channel x ! n =
      clamp16 (drop_bit 14 (\<Sum>t<33. RRC_Q14 ! t * delay t (sig x) n)) \<and>
    \<bar>\<Sum>t<33. RRC_Q14 ! t * delay t (sig x) n\<bar> < 2 ^ 31"
proof -
  let ?w = "take 33 (rev (take (Suc n) x) @ replicate 33 0)"
  let ?d = "\<lambda>t. delay t (sig x) n"
  have len: "length (take (Suc n) x) = Suc n" using assms(2) by simp
  define r where "r = rev (take (Suc n) x)"
  have lr: "length r = Suc n" by (simp only: r_def length_rev len)
  have r: "r ! t = x ! (n - t)" if "t \<le> n" for t
    using that rev_nth [of t "take (Suc n) x"] unfolding len r_def by simp
  have "take 33 (r @ replicate 33 0) ! t = ?d t" if "t < 33" for t
  proof (cases "t \<le> n")
    case True
    then have "n - t < length x" using assms(2) by linarith
    then show ?thesis
      using True that lr r by (simp add: nth_append delay_def sig_def del: take_append)
  next
    case False
    then show ?thesis using that lr by (simp add: nth_append delay_def del: take_append)
  qed
  then have "?w ! t = ?d t" if "t < 33" for t using that by (simp only: r_def)
  moreover have "length RRC_Q14 = 33" by (simp add: RRC_Q14_def)
  ultimately have mac: "mac ?w RRC_Q14 = (\<Sum>t<33. RRC_Q14 ! t * ?d t)"
    by (subst mac_sum) simp_all
  have "rrc_channel x ! n = clamp16 (drop_bit 14 (mac ?w RRC_Q14))"
    unfolding rrc_channel_def by (rule rrc_loop_nth) (use assms in simp_all)
  moreover have "\<bar>\<Sum>t<33. RRC_Q14 ! t * ?d t\<bar> \<le> (\<Sum>t<33. \<bar>RRC_Q14 ! t\<bar> * 32768)"
  proof (rule order_trans [OF sum_abs sum_mono])
    fix t
    have "- 32768 \<le> ?d t" "?d t \<le> 32767"
      using within_delay [OF within_sig [OF assms(1)], of t] by (simp_all add: within_def)
    then have "\<bar>?d t\<bar> \<le> 32768" by (simp add: abs_le_iff)
    then show "\<bar>RRC_Q14 ! t * ?d t\<bar> \<le> \<bar>RRC_Q14 ! t\<bar> * 32768"
      by (simp add: abs_mult mult_left_mono)
  qed
  moreover have "(\<Sum>t<33. \<bar>RRC_Q14 ! t\<bar> * 32768) = 48722 * (32768 :: int)"
    unfolding RRC_Q14_def by code_simp
  ultimately show ?thesis unfolding mac by simp
qed

theorem rrc_channel_convolution_witness:
  "rrc_channel [1000, -1000] ! 1 =
      clamp16 (drop_bit 14 (\<Sum>t<33. RRC_Q14 ! t * delay t (sig [1000, -1000]) 1)) \<and>
    \<bar>\<Sum>t<33. RRC_Q14 ! t * delay t (sig [1000, -1000]) 1\<bar> < 2 ^ 31"
  by (rule rrc_channel_convolution) (simp_all add: int16_def)

subsection \<open>Test cases and files\<close>

text \<open>A test case of the receiver vectors expects the matched filter of the exact decimator output,
  up to the number of symbols asked for; asking for more symbols than the decimator returns is an
  AssertionError.\<close>

theorem add_test_expected:
  assumes "list_all int16 i16" "list_all int16 q16"
  shows "add_test i16 q16 sym_count =
    (if sym_count \<le> length i16 div 64
     then Inr ((i16, q16), take sym_count (rrc_channel (cic_spec i16)),
            take sym_count (rrc_channel (cic_spec q16)))
     else Inl AssertionError)"
proof -
  have "length (cic_spec i16) = length i16 div 64" by (simp add: cic_spec_def)
  then show ?thesis
    using cic_channel_exact [OF assms(1)] cic_channel_exact [OF assms(2)]
    by (simp add: add_test_def simulate_cic_fixed_def simulate_rrc_fixed_def)
qed

text \<open>Both samples are read back from a word of the stimulus files by sign extension.\<close>

lemma iq_word_halves: "iq_word i q = (i mod 2 ^ 16) * 2 ^ 16 + q mod 2 ^ 16"
proof -
  have m: "v AND 0xFFFF = v mod 2 ^ 16" for v :: int
    using and_mask_mod [of v 16] by simp
  have "push_bit 16 (i mod 2 ^ 16) OR (q mod 2 ^ 16) = (i mod 2 ^ 16) * 2 ^ 16 + q mod 2 ^ 16"
    by (rule push_bit_or_add) simp_all
  then show ?thesis unfolding iq_word_def m .
qed

theorem iq_word_roundtrip:
  assumes "int16 i" "int16 q"
  shows "signed_mod 15 (drop_bit 16 (iq_word i q)) = i \<and> signed_mod 15 (iq_word i q) = q"
proof -
  have d: "drop_bit 16 (iq_word i q) = i mod 2 ^ 16"
    by (simp add: iq_word_halves drop_bit_eq_div)
  have "signed_mod 15 (i mod 2 ^ 16) = signed_mod 15 i" by (rule signed_mod_cong) simp
  moreover have "signed_mod 15 (iq_word i q) = signed_mod 15 q"
    by (rule signed_mod_cong) (simp add: iq_word_halves mod_simps)
  moreover have "signed_mod 15 v = v" if "int16 v" for v
    using that by (intro signed_mod_id) (simp_all add: int16_def)
  ultimately show ?thesis using assms unfolding d by simp
qed

end
