(* ===== verification/Loopback.thy ===== *)
theory Loopback
  imports RrcFilter
begin

unbundle bit_operations_syntax

text \<open>
  The simulation of the digital loopback, \<open>scripts/_resolved/sim_loopback.py\<close>: the transmitter's
  filter and interpolator, the receiver's decimator and filter, the timing recovery, the correlation
  with the synchronisation training sequence and the test burst.  The accumulators of the rate changers are
  \<open>np.int64\<close> scalars, here \<open>64 word\<close>; they wrap on long inputs.  The matched filters sum at most 33
  products of 16-bit values, which are exact; the timing recovery computes with Python integers.

  The script writes the filters sample by sample, with arrays of stages.  They are shown to be the
  list transformers of the test-vector generators in \<open>CicFilters\<close> and \<open>RrcFilter\<close>.
\<close>

definition IQ_WIDTH :: nat where "IQ_WIDTH = 16"
definition MAX_VAL :: int where "MAX_VAL = 2 ^ (IQ_WIDTH - 1) - 1"
definition MIN_VAL :: int where "MIN_VAL = - (2 ^ (IQ_WIDTH - 1))"

definition RRC_H :: "int list" where
  "RRC_H =
    [17, 109, 78, -78, -209, -121, 210, 535, 468,
     -181, -1108, -1545, -694, 1696, 4979, 7844, 8978,
     7844, 4979, 1696, -694, -1545, -1108, -181, 468,
     535, 210, -121, -209, -78, 78, 109, 17]"

definition STS_LOOPBACK :: "nat list" where
  "STS_LOOPBACK = [3, 0, 0, 1, 2, 1, 3, 0, 3, 2, 2, 1, 3, 0, 0, 1, 2, 1, 3]"

text \<open>\<open>max(MIN_VAL, min(MAX_VAL, v))\<close>\<close>

definition sat_val :: "int \<Rightarrow> int" where
  "sat_val v = max MIN_VAL (min MAX_VAL v)"

subsection \<open>Matched filters\<close>

definition poly_h :: "int list list" where
  "poly_h = map (\<lambda>phase. map (\<lambda>tap. let idx = phase + tap * 4
                                   in if idx < length RRC_H then RRC_H ! idx else 0) [0..<9]) [0..<4]"

text \<open>\<open>np.sum(h * sr)\<close> of two arrays of one length.\<close>

definition np_dot :: "int list \<Rightarrow> int list \<Rightarrow> int" where
  "np_dot h sr = sum_list (map2 (*) h sr)"

text \<open>\<open>sr = np.roll(sr, 1); sr[0] = x\<close>\<close>

definition roll_in :: "int \<Rightarrow> int list \<Rightarrow> int list" where
  "roll_in x sr = (last sr # butlast sr)[0 := x]"

definition tx_phases :: "int list \<Rightarrow> int list" where
  "tx_phases sr = map (\<lambda>phase. sat_val (drop_bit RRC_ACC_SHIFT (np_dot (poly_h ! phase) sr))) [0..<4]"

fun tx_rrc_loop :: "int list \<Rightarrow> int list \<Rightarrow> int list \<Rightarrow> int list \<Rightarrow> (int list \<times> int list) res" where
  "tx_rrc_loop sr_i sr_q [] ys = Inr ([], [])"
| "tx_rrc_loop sr_i sr_q (x # xs) [] = Inl IndexError"
| "tx_rrc_loop sr_i sr_q (x # xs) (y # ys) =
     (let sr_i = roll_in x sr_i; sr_q = roll_in y sr_q
      in bind_res (tx_rrc_loop sr_i sr_q xs ys) (\<lambda>(i_out, q_out).
           Inr (tx_phases sr_i @ i_out, tx_phases sr_q @ q_out)))"

definition tx_rrc_filter :: "int list \<Rightarrow> int list \<Rightarrow> (int list \<times> int list) res" where
  "tx_rrc_filter i_in q_in = tx_rrc_loop (replicate 9 0) (replicate 9 0) i_in q_in"

text \<open>\<open>sr[1:] = sr[:-1]; sr[0] = x\<close>\<close>

definition push_front :: "int \<Rightarrow> int list \<Rightarrow> int list" where
  "push_front x sr = (hd sr # butlast sr)[0 := x]"

definition rx_tap_sum :: "int list \<Rightarrow> int" where
  "rx_tap_sum sr = sat_val (drop_bit RRC_ACC_SHIFT (np_dot RRC_H sr))"

fun rx_rrc_loop :: "int list \<Rightarrow> int list \<Rightarrow> int list \<Rightarrow> int list \<Rightarrow> (int list \<times> int list) res" where
  "rx_rrc_loop sr_i sr_q [] ys = Inr ([], [])"
| "rx_rrc_loop sr_i sr_q (x # xs) [] = Inl IndexError"
| "rx_rrc_loop sr_i sr_q (x # xs) (y # ys) =
     (let sr_i = push_front x sr_i; sr_q = push_front y sr_q
      in bind_res (rx_rrc_loop sr_i sr_q xs ys) (\<lambda>(i_out, q_out).
           Inr (rx_tap_sum sr_i # i_out, rx_tap_sum sr_q # q_out)))"

definition rx_rrc_filter :: "int list \<Rightarrow> int list \<Rightarrow> (int list \<times> int list) res" where
  "rx_rrc_filter i_in q_in = rx_rrc_loop (replicate 33 0) (replicate 33 0) i_in q_in"

subsection \<open>Rate changers\<close>

type_synonym i64 = "64 word"

text \<open>The loop over the differentiators: the new delays and the last difference.\<close>

fun comb_stages :: "i64 list \<Rightarrow> i64 \<Rightarrow> i64 list \<times> i64" where
  "comb_stages [] c = ([], c)"
| "comb_stages (d # ds) c = (let (ds, out) = comb_stages ds (c - d) in (c # ds, out))"

text \<open>The loop over the integrators: each adds the new value of the one before it.\<close>

fun intg_stages :: "i64 list \<Rightarrow> i64 \<Rightarrow> i64 list" where
  "intg_stages [] inp = []"
| "intg_stages (a # as) inp = (a + inp) # intg_stages as (a + inp)"

fun stuff_loop :: "nat \<Rightarrow> i64 list \<Rightarrow> i64 list \<Rightarrow> i64 list \<times> int list" where
  "stuff_loop shift intg [] = (intg, [])"
| "stuff_loop shift intg (inp # inps) =
     (let intg = intg_stages intg inp;
          oi = sat_val (drop_bit shift (sint (last intg)));
          (intg, outs) = stuff_loop shift intg inps
      in (intg, oi # outs))"

fun tx_cic_loop :: "nat \<Rightarrow> nat \<Rightarrow> i64 list \<Rightarrow> i64 list \<Rightarrow> int list \<Rightarrow> int list" where
  "tx_cic_loop R shift cmb intg [] = []"
| "tx_cic_loop R shift cmb intg (x # xs) =
     (let (cmb, c) = comb_stages cmb (of_int x);
          (intg, outs) = stuff_loop shift intg (map (\<lambda>k. if k = 0 then c else 0) [0..<R])
      in outs @ tx_cic_loop R shift cmb intg xs)"

text \<open>The two channels share the loop but no state; without stages \<open>intg[N - 1]\<close> does not exist.\<close>

definition tx_cic_interp :: "int list \<Rightarrow> int list \<Rightarrow> nat \<Rightarrow> nat \<Rightarrow> nat \<Rightarrow> (int list \<times> int list) res" where
  "tx_cic_interp i_in q_in R N shift =
     (if length q_in < length i_in \<or> N = 0 \<and> R \<noteq> 0 \<and> i_in \<noteq> [] then Inl IndexError
      else Inr (tx_cic_loop R shift (replicate N 0) (replicate N 0) i_in,
                tx_cic_loop R shift (replicate N 0) (replicate N 0) (take (length i_in) q_in)))"

definition CIC_GAIN_SHF :: nat where "CIC_GAIN_SHF = 6"
definition CIC_OUT_LOW :: nat where "CIC_OUT_LOW = CIC_TRUNC - CIC_GAIN_SHF"

definition rx_shift :: "bool \<Rightarrow> nat" where
  "rx_shift loopback = (if loopback then CIC_TRUNC else CIC_OUT_LOW)"

fun rx_cic_loop :: "nat \<Rightarrow> nat \<Rightarrow> nat \<Rightarrow> i64 list \<Rightarrow> i64 list \<Rightarrow> int list \<Rightarrow> int list" where
  "rx_cic_loop R shift dec_cnt cmb intg [] = []"
| "rx_cic_loop R shift dec_cnt cmb intg (x # xs) =
     (let intg = intg_stages intg (of_int x);
          dec_cnt = dec_cnt + 1
      in if dec_cnt = R
         then let (cmb, c) = comb_stages cmb (last intg)
              in sat_val (drop_bit shift (sint c)) # rx_cic_loop R shift 0 cmb intg xs
         else rx_cic_loop R shift dec_cnt cmb intg xs)"

definition rx_cic_decim :: "int list \<Rightarrow> int list \<Rightarrow> nat \<Rightarrow> nat \<Rightarrow> bool \<Rightarrow> (int list \<times> int list) res" where
  "rx_cic_decim i_in q_in R N loopback =
     (if length q_in < length i_in \<or> N = 0 \<and> R \<noteq> 0 \<and> R \<le> length i_in then Inl IndexError
      else Inr (rx_cic_loop R (rx_shift loopback) 0 (replicate N 0) (replicate N 0) i_in,
                rx_cic_loop R (rx_shift loopback) 0 (replicate N 0) (replicate N 0)
                  (take (length i_in) q_in)))"

subsection \<open>The matched filters are those of the test vectors\<close>

lemma sat_val_clamp: "sat_val v = clamp16 v"
  by (simp add: sat_val_def clamp16_def MIN_VAL_def MAX_VAL_def IQ_WIDTH_def)

lemma RRC_H_eq: "RRC_H = RRC_Q14"
  by (simp add: RRC_H_def RRC_Q14_def)

lemma roll_in_eq [simp]: "roll_in x sr = x # butlast sr"
  by (simp add: roll_in_def)

lemma push_front_eq [simp]: "push_front x sr = x # butlast sr"
  by (simp add: push_front_def)

lemma np_dot_mac: "np_dot h sr = mac sr h"
proof (induction h arbitrary: sr)
  case (Cons c h)
  then show ?case by (cases sr) (simp_all add: np_dot_def mult.commute)
qed (simp add: np_dot_def)

lemma tx_phases_eq:
  assumes "length sr = 9"
  shows "tx_phases sr = map (\<lambda>p. clamp16 (drop_bit 14 (poly_acc sr p))) [0..<4]"
proof -
  obtain a0 a1 a2 a3 a4 a5 a6 a7 a8 where a: "sr = [a0, a1, a2, a3, a4, a5, a6, a7, a8]"
    using length_9 [OF assms] by blast
  show ?thesis
    unfolding upt_4 list.map poly_acc_explicit [OF a] tx_phases_def sat_val_clamp
    by (simp add: a np_dot_def poly_h_def upt_9 upt_4 RRC_H_def RRC_ACC_SHIFT_def algebra_simps)
qed

lemma tx_rrc_loop_eq:
  "length a = 9 \<Longrightarrow> length b = 9 \<Longrightarrow> length xs = length ys \<Longrightarrow>
   tx_rrc_loop a b xs ys =
     Inr (map fst (run_filter_loop a b (zip xs ys)), map snd (run_filter_loop a b (zip xs ys)))"
proof (induction xs ys arbitrary: a b rule: list_induct2')
  case (4 x xs y ys)
  have "length (x # butlast a) = 9" "length (y # butlast b) = 9" using "4.prems" by simp_all
  from "4.IH" [OF this] this "4.prems"(3) show ?case
    by (simp add: process_symbol_def polyphase_eq tx_phases_eq Let_def o_def del: upt.simps)
qed simp_all

lemma rx_rrc_loop_eq:
  "length xs = length ys \<Longrightarrow> rx_rrc_loop a b xs ys = Inr (rrc_loop a xs, rrc_loop b ys)"
  by (induction xs ys arbitrary: a b rule: list_induct2)
    (simp_all add: rx_tap_sum_def sat_val_clamp np_dot_mac RRC_H_eq Let_def)

lemma tx_rrc_filter_eq:
  "length i = length q \<Longrightarrow> tx_rrc_filter i q = Inr (map fst (run_filter i q), map snd (run_filter i q))"
  using tx_rrc_loop_eq [of "replicate 9 0" "replicate 9 0" i q]
  by (simp add: tx_rrc_filter_def run_filter_def SR_DEPTH_def)

lemma rx_rrc_filter_eq: "length i = length q \<Longrightarrow> rx_rrc_filter i q = Inr (rrc_channel i, rrc_channel q)"
  by (simp add: rx_rrc_filter_def rx_rrc_loop_eq rrc_channel_def)

text \<open>Both matched filters of the loopback are those of the test vectors: the polyphase transmitter
  filter returns what \<open>run_filter\<close> of \<open>gen_rrc_filter_vectors.py\<close> returns, the receiver filter what
  \<open>simulate_rrc_fixed\<close> of \<open>gen_rx_frontend_vectors.py\<close> returns, and neither raises.\<close>

theorem loopback_rrc_matches_vectors:
  assumes "length i_in = length q_in"
  shows "tx_rrc_filter i_in q_in =
      Inr (map fst (run_filter i_in q_in), map snd (run_filter i_in q_in)) \<and>
    rx_rrc_filter i_in q_in = Inr (simulate_rrc_fixed i_in q_in)"
  using assms by (simp add: tx_rrc_filter_eq rx_rrc_filter_eq simulate_rrc_fixed_def)

theorem loopback_rrc_matches_vectors_witness:
  "tx_rrc_filter [29490, -29490] [0, 5] =
      Inr (map fst (run_filter [29490, -29490] [0, 5]), map snd (run_filter [29490, -29490] [0, 5])) \<and>
    rx_rrc_filter [29490, -29490] [0, 5] = Inr (simulate_rrc_fixed [29490, -29490] [0, 5])"
  by (rule loopback_rrc_matches_vectors) simp


subsection \<open>The stages as sums and differences of a signal\<close>

lemma of_int_run_sum_step:
  "of_int (delay 1 (run_sum g) m) + of_int (g m) = (of_int (run_sum g m) :: i64)"
  by (cases m) (simp_all add: delay_def run_sum_def)

text \<open>The integrators before sample \<open>m\<close> hold the sums up to sample \<open>m - 1\<close>.\<close>

definition intg_at :: "nat \<Rightarrow> signal \<Rightarrow> nat \<Rightarrow> i64 list" where
  "intg_at N g m = map (\<lambda>s. of_int (delay 1 ((run_sum ^^ Suc s) g) m)) [0..<N]"

definition comb_at :: "nat \<Rightarrow> signal \<Rightarrow> nat \<Rightarrow> i64 list" where
  "comb_at N g k = map (\<lambda>s. of_int (delay 1 ((comb 1 ^^ s) g) k)) [0..<N]"

lemma intg_at_0 [simp]: "intg_at N g 0 = replicate N 0"
  by (simp add: intg_at_def delay_def map_replicate_const)

lemma comb_at_0 [simp]: "comb_at N g 0 = replicate N 0"
  by (simp add: comb_at_def delay_def map_replicate_const)

lemma intg_at_Suc: "intg_at N g (Suc m) = map (\<lambda>s. of_int ((run_sum ^^ Suc s) g m)) [0..<N]"
  by (simp add: intg_at_def delay_def)

lemma last_intg_at: "0 < N \<Longrightarrow> last (intg_at N g (Suc m)) = of_int ((run_sum ^^ N) g m)"
  by (cases N) (simp_all add: intg_at_Suc)

lemma upt_Cons_map: "[0..<Suc n] = 0 # map Suc [0..<n]"
  by (simp only: upt_conv_Cons zero_less_Suc map_Suc_upt)

lemma intg_at_step: "intg_stages (intg_at N g m) (of_int (g m)) = intg_at N g (Suc m)"
proof (induction N arbitrary: g)
  case (Suc N)
  have split: "intg_at (Suc N) g m = of_int (delay 1 (run_sum g) m) # intg_at N (run_sum g) m" for m
    by (simp add: intg_at_def upt_Cons_map funpow_swap1 o_def del: upt_Suc)
  have hd: "of_int (delay 1 (run_sum g) (Suc m)) = (of_int (run_sum g m) :: i64)"
    by (simp add: delay_def)
  show ?case
    unfolding split intg_stages.simps of_int_run_sum_step hd Suc.IH ..
qed (simp add: intg_at_def)

lemma comb_at_step:
  "comb_stages (comb_at N g k) (of_int (g k)) = (comb_at N g (Suc k), of_int ((comb 1 ^^ N) g k))"
proof (induction N arbitrary: g)
  case (Suc N)
  have split: "comb_at (Suc N) g k = of_int (delay 1 g k) # comb_at N (comb 1 g) k" for k
    by (simp add: comb_at_def upt_Cons_map funpow_swap1 o_def del: upt_Suc One_nat_def)
  have hd: "delay 1 g (Suc k) = g k" by (simp add: delay_def)
  have "(of_int (g k) :: i64) - of_int (delay 1 g k) = of_int (comb 1 g k)"
    by (simp add: comb_def)
  then show ?case
    unfolding split comb_stages.simps hd
    by (simp add: Suc.IH funpow_swap1 del: One_nat_def)
qed (simp add: comb_at_def)

text \<open>The value an output is cut from: the exact sum, as a signed 64-bit number.\<close>

definition out_val :: "nat \<Rightarrow> int \<Rightarrow> int" where
  "out_val shift v = sat_val (drop_bit shift (sint (of_int v :: i64)))"

lemma out_val_exact:
  assumes "- (2 ^ 63) \<le> v" "v < 2 ^ 63"
  shows "out_val shift v = clamp16 (drop_bit shift v)"
proof -
  have "sint (of_int v :: i64) = signed_take_bit 63 v" by (simp add: sint_sbintrunc')
  also have "\<dots> = v" using assms by (intro signed_take_bit_int_eq_self) simp_all
  finally have "sint (of_int v :: i64) = v" .
  then show ?thesis by (simp add: out_val_def sat_val_clamp)
qed

lemma upt_shift: "[0..<a + b] = [0..<a] @ map (\<lambda>n. n + a) [0..<b]"
proof -
  have "[0..<a + b] = [0..<a] @ [a..<a + b]" by (rule upt_add_eq_append) simp
  moreover have "[a..<a + b] = map (\<lambda>n. n + a) [0..<b]" by (simp only: map_add_upt add.commute)
  ultimately show ?thesis by simp
qed

lemma stuff_loop_eq:
  assumes "0 < N"
  shows "stuff_loop shift (intg_at N g m) (map (\<lambda>k. of_int (g (m + k))) [0..<n]) =
    (intg_at N g (m + n), map (\<lambda>k. out_val shift ((run_sum ^^ N) g (m + k))) [0..<n])"
proof (induction n arbitrary: m)
  case (Suc n)
  show ?case
    using Suc [of "Suc m"] assms
    by (simp add: upt_Cons_map intg_at_step last_intg_at Let_def out_val_def o_def del: upt_Suc)
qed simp

lemma tx_cic_loop_eq:
  assumes "0 < N" "0 < R"
    and f: "\<And>j. j < length xs \<Longrightarrow> f (k + j) = xs ! j"
    and g: "g = stuff R ((comb 1 ^^ N) f)"
  shows "tx_cic_loop R shift (comb_at N f k) (intg_at N g (R * k)) xs =
    map (\<lambda>n. out_val shift ((run_sum ^^ N) g (R * k + n))) [0..<R * length xs]"
  using f
proof (induction xs arbitrary: k)
  case (Cons x xs)
  have x: "x = f k" using Cons.prems [of 0] by simp
  have inp: "(if j = 0 then of_int ((comb 1 ^^ N) f k) else 0) = (of_int (g (R * k + j)) :: i64)"
    if "j < R" for j
  proof -
    have "R dvd R * k + j \<longleftrightarrow> j = 0"
      using that by (simp add: dvd_eq_mod_eq_0)
    then show ?thesis using assms(2) by (simp add: g stuff_def)
  qed
  have inps: "map (\<lambda>j. if j = 0 then of_int ((comb 1 ^^ N) f k) else 0) [0..<R] =
      (map (\<lambda>j. of_int (g (R * k + j))) [0..<R] :: i64 list)"
    using inp by (simp del: One_nat_def)
  have IH: "tx_cic_loop R shift (comb_at N f (Suc k)) (intg_at N g (R * Suc k)) xs =
      map (\<lambda>n. out_val shift ((run_sum ^^ N) g (R * Suc k + n))) [0..<R * length xs]"
    using Cons.prems [of "Suc _"] by (intro Cons.IH) simp
  have m: "R * k + R = R * Suc k" by simp
  have split: "[0..<R * length (x # xs)] = [0..<R] @ map (\<lambda>n. n + R) [0..<R * length xs]"
    using upt_shift [of R "R * length xs"] by (simp only: list.size mult_Suc_right add_Suc_right Nat.add_0_right)
  show ?case
    unfolding split
    unfolding tx_cic_loop.simps x comb_at_step Let_def prod.case inps stuff_loop_eq [OF assms(1)] m IH
    by (simp add: add.assoc add.commute add.left_commute)
qed simp


lemma rx_cic_loop_eq:
  assumes "0 < N" "0 < R"
    and g: "\<And>j. j < length xs \<Longrightarrow> g (R * k + c + j) = xs ! j"
    and "c < R"
    and d: "d = (\<lambda>j. (run_sum ^^ N) g (R * j + (R - 1)))"
  shows "rx_cic_loop R shift c (comb_at N d k) (intg_at N g (R * k + c)) xs =
    map (\<lambda>j. out_val shift ((comb 1 ^^ N) d (k + j))) [0..<(c + length xs) div R]"
  using g \<open>c < R\<close>
proof (induction xs arbitrary: k c)
  case (Cons x xs)
  have x: "of_int x = (of_int (g (R * k + c)) :: i64)" using Cons.prems(1) [of 0] by simp
  show ?case
  proof (cases "c + 1 = R")
    case True
    have last: "last (intg_at N g (Suc (R * k + c))) = of_int (d k)"
      using True assms(1) by (simp add: last_intg_at d flip: True)
    have next': "Suc (R * k + c) = R * Suc k + 0" using True by simp
    have div: "(c + length (x # xs)) div R = Suc ((0 + length xs) div R)"
    proof -
      have "c + length (x # xs) = length xs + R" using True by simp
      show ?thesis unfolding \<open>c + length (x # xs) = length xs + R\<close> using assms(2) by (simp add: div_add_self2)
    qed
    have IH: "rx_cic_loop R shift 0 (comb_at N d (Suc k)) (intg_at N g (R * Suc k + 0)) xs =
        map (\<lambda>j. out_val shift ((comb 1 ^^ N) d (Suc k + j))) [0..<(0 + length xs) div R]"
    proof (rule Cons.IH)
      fix j assume "j < length xs"
      moreover have "R * Suc k + 0 + j = R * k + c + Suc j" using True by simp
      ultimately show "g (R * Suc k + 0 + j) = xs ! j"
        using Cons.prems(1) [of "Suc j"] by (simp only: length_Cons nth_Cons_Suc Suc_less_eq)
    qed (rule assms(2))
    show ?thesis
      unfolding rx_cic_loop.simps x intg_at_step last Let_def comb_at_step prod.case if_P [OF True] div
      unfolding next' IH
      by (simp add: upt_Cons_map out_val_def o_def del: upt_Suc One_nat_def)
  next
    case False
    have IH: "rx_cic_loop R shift (c + 1) (comb_at N d k) (intg_at N g (R * k + (c + 1))) xs =
        map (\<lambda>j. out_val shift ((comb 1 ^^ N) d (k + j))) [0..<(c + 1 + length xs) div R]"
      using Cons.prems(1) [of "Suc _"] Cons.prems(2) False by (intro Cons.IH) simp_all
    have m: "Suc (R * k + c) = R * k + (c + 1)" by simp
    show ?thesis
      unfolding rx_cic_loop.simps x intg_at_step Let_def if_not_P [OF False]
      unfolding m IH by simp
  qed
qed simp

subsection \<open>The rate changers are exact moving sums\<close>

lemma tx_loop_exact:
  assumes "list_all int16 x"
  shows "tx_cic_loop 64 24 (replicate 5 0) (replicate 5 0) x = tx_channel_spec x"
proof -
  let ?f = "sig x" and ?g = "stuff 64 ((comb 1 ^^ 5) (sig x))"
  let ?s = "(box 64 ^^ 4) (hold 64 (sig x))"
  have loop: "tx_cic_loop 64 24 (comb_at 5 ?f 0) (intg_at 5 ?g (64 * 0)) x =
      map (\<lambda>n. out_val 24 ((run_sum ^^ 5) ?g (64 * 0 + n))) [0..<64 * length x]"
    by (rule tx_cic_loop_eq) (simp_all add: sig_def)
  have five: "(5::nat) = Suc 4" by simp
  have st: "?g = (comb 64 ^^ 5) (stuff 64 (sig x))" by (rule comb_pow_stuff) simp
  have run: "(run_sum ^^ 5) ?g = ?s"
    unfolding st integrators_of_combs unfolding five by (rule box_pow_stuff) simp
  have o: "out_val 24 (?s n) = drop_bit 24 (?s n)" for n
  proof -
    note b = tx_sum_within [OF assms, of n]
    have "out_val 24 (?s n) = clamp16 (drop_bit 24 (?s n))"
      by (rule out_val_exact; use b in simp)
    then show ?thesis using int16_scaled_24 [OF b] by (simp add: clamp16_id)
  qed
  show ?thesis using loop unfolding run o by (simp add: tx_channel_spec_def)
qed

text \<open>What the decimator computes: the moving sums at the last sample of every block.\<close>

definition rx_sum :: "int list \<Rightarrow> nat \<Rightarrow> int" where
  "rx_sum x k = (box 64 ^^ 5) (sig x) (64 * k + 63)"

lemma rx_sum_within:
  assumes "list_all int16 x"
  shows "- (2 ^ 45) \<le> rx_sum x k" "rx_sum x k \<le> 2 ^ 45 - 2 ^ 30"
  using cic_sum_within [OF assms, of 0] by (simp_all add: within_def rx_sum_def)

lemma rx_loop_exact:
  assumes "list_all int16 x"
  shows "rx_cic_loop 64 shift 0 (replicate 5 0) (replicate 5 0) x =
    map (\<lambda>k. clamp16 (drop_bit shift (rx_sum x k))) [0..<length x div 64]"
proof -
  let ?d = "\<lambda>j. (run_sum ^^ 5) (sig x) (64 * j + (64 - 1))"
  have loop: "rx_cic_loop 64 shift 0 (comb_at 5 ?d 0) (intg_at 5 (sig x) (64 * 0 + 0)) x =
      map (\<lambda>j. out_val shift ((comb 1 ^^ 5) ?d (0 + j))) [0..<(0 + length x) div 64]"
    by (rule rx_cic_loop_eq) (simp_all add: sig_def)
  have "(comb 1 ^^ 5) ?d = (\<lambda>k. (comb 64 ^^ 5) ((run_sum ^^ 5) (sig x)) (64 * k + (64 - 1)))"
    by (rule comb_decimate) simp
  also have "(comb 64 ^^ 5) ((run_sum ^^ 5) (sig x)) = (box 64 ^^ 5) (sig x)"
  proof -
    have "(comb 64 ^^ 5) ((run_sum ^^ m) f) = (run_sum ^^ m) ((comb 64 ^^ 5) f)" for m f
      by (induction m) (simp_all only: funpow.simps o_apply id_apply run_sum_comb_pow [symmetric])
    then show ?thesis by (simp only: integrators_of_combs)
  qed
  finally have d: "(comb 1 ^^ 5) ?d = rx_sum x" by (simp add: rx_sum_def fun_eq_iff)
  have o: "out_val shift (rx_sum x k) = clamp16 (drop_bit shift (rx_sum x k))" for k
    by (rule out_val_exact; use rx_sum_within [OF assms, of k] in simp)
  show ?thesis using loop unfolding d o by simp
qed


lemma rx_shift_simps [simp]: "rx_shift True = 30" "rx_shift False = 24"
  by (simp_all add: rx_shift_def CIC_OUT_LOW_def CIC_GAIN_SHF_def CIC_TRUNC_def CIC_BITS_def)

lemma clamp_rx_sum: "list_all int16 x \<Longrightarrow> clamp16 (drop_bit 30 (rx_sum x k)) = drop_bit 30 (rx_sum x k)"
  using int16_scaled [OF rx_sum_within [of x k]] by (simp add: clamp16_id)

lemma rx_cic_decim_eq:
  assumes "list_all int16 i" "list_all int16 q" "length i = length q"
  shows "rx_cic_decim i q 64 5 loopback =
    Inr (map (\<lambda>k. clamp16 (drop_bit (rx_shift loopback) (rx_sum i k))) [0..<length i div 64],
         map (\<lambda>k. clamp16 (drop_bit (rx_shift loopback) (rx_sum q k))) [0..<length i div 64])"
  using assms by (simp add: rx_cic_decim_def rx_loop_exact)

text \<open>Interpolator and decimator of the loopback compute exact moving sums of 16-bit samples, although
  their 64-bit accumulators wrap: the interpolator returns what \<open>cic_interpolate\<close> of
  \<open>gen_tx_frontend_vectors.py\<close> returns; the decimator divides the five-fold sum over 64 samples by its gain
  and never saturates with the loopback switch, and multiplies by 64 and saturates without.\<close>

theorem loopback_cic_exact:
  assumes "list_all int16 i" "list_all int16 q" "length i = length q"
  shows "(\<exists>oi oq. tx_cic_interp i q 64 5 24 = Inr (oi, oq) \<and> tx_cic (zip i q) = Inr (zip oi oq) \<and>
      length oi = 64 * length i \<and> length oq = 64 * length i) \<and>
    rx_cic_decim i q 64 5 True =
      Inr (map (\<lambda>k. drop_bit 30 (rx_sum i k)) [0..<length i div 64],
           map (\<lambda>k. drop_bit 30 (rx_sum q k)) [0..<length i div 64]) \<and>
    rx_cic_decim i q 64 5 False =
      Inr (map (\<lambda>k. clamp16 (drop_bit 24 (rx_sum i k))) [0..<length i div 64],
           map (\<lambda>k. clamp16 (drop_bit 24 (rx_sum q k))) [0..<length i div 64])"
proof -
  have "list_all (\<lambda>(i, q). int16 i \<and> int16 q) (zip i q)"
    using assms(1,2) by (auto simp: list_all_iff dest: set_zip_leftD set_zip_rightD)
  from tx_cic_exact [OF this] have tx: "tx_cic (zip i q) = Inr (zip (tx_channel_spec i) (tx_channel_spec q))"
    using assms(3) by simp
  have len: "length (tx_channel_spec x) = 64 * length x" for x by (simp add: tx_channel_spec_def)
  show ?thesis
    using tx assms len by (simp add: tx_cic_interp_def tx_loop_exact rx_cic_decim_eq clamp_rx_sum)
qed

theorem loopback_cic_exact_witness:
  "rx_cic_decim (replicate 640 32767) (replicate 640 (- 32768)) 64 5 True =
      Inr (map (\<lambda>k. drop_bit 30 (rx_sum (replicate 640 32767) k)) [0..<640 div 64],
           map (\<lambda>k. drop_bit 30 (rx_sum (replicate 640 (- 32768)) k)) [0..<640 div 64])"
  using loopback_cic_exact [of "replicate 640 32767" "replicate 640 (- 32768)"]
  by (simp add: list_all_iff int16_def)

text \<open>The decimator of the loopback has no registers between its integrators: it is four samples ahead of the one
  behind the test vectors.\<close>

theorem loopback_decimator_leads:
  assumes "list_all int16 x" "k < length x div 64"
  shows "rx_cic_loop 64 30 0 (replicate 5 0) (replicate 5 0) (replicate 4 0 @ x) ! k = cic_channel x ! k"
proof -
  have l: "list_all int16 (replicate 4 0 @ x)" using assms(1) by (simp add: int16_def list_all_iff)
  have d: "sig (replicate 4 0 @ x) = delay 4 (sig x)"
    by (auto simp: fun_eq_iff sig_def delay_def nth_append)
  have p: "(box 64 ^^ m) (delay 4 f) = delay 4 ((box 64 ^^ m) f)" for m f
    by (induction m) (simp_all add: delay_box)
  have k: "k < length (replicate 4 0 @ x) div 64" using assms(2) by (rule less_le_trans) (simp add: div_le_mono)
  have "rx_cic_loop 64 30 0 (replicate 5 0) (replicate 5 0) (replicate 4 0 @ x) ! k =
      clamp16 (drop_bit 30 (delay 4 ((box 64 ^^ 5) (sig x)) (64 * k + 63)))"
    using k unfolding rx_loop_exact [OF l] rx_sum_def d p by simp
  also have "\<dots> = cic_channel x ! k"
  proof -
    have "clamp16 v = v" if "v \<in> set (cic_spec x)" for v
      using cic_channel_exact [OF assms(1)] that by (auto simp: list_all_iff intro: clamp16_id)
    then show ?thesis
      using assms(2) cic_channel_exact [OF assms(1)] by (auto simp: cic_spec_def)
  qed
  finally show ?thesis .
qed


subsection \<open>Timing recovery\<close>

definition NCO_NOMINAL :: int where "NCO_NOMINAL = push_bit 30 1"
definition NCO_MAX :: int where "NCO_MAX = push_bit 32 1 - 1"
definition KP_SHIFT :: nat where "KP_SHIFT = 8"
definition KI_SHIFT :: nat where "KI_SHIFT = 12"
definition LOCK_THRESH :: int where "LOCK_THRESH = 256"
definition LOCK_COUNT :: nat where "LOCK_COUNT = 144"

record tr_state =
  nco_phase :: int
  nco_freq :: int
  prev_i :: int
  prev_q :: int
  mid_i :: int
  mid_q :: int
  curr_i :: int
  curr_q :: int
  lock_counter :: nat
  locked :: bool
  ted_values :: "int list"
  tr_i :: "int list"
  tr_q :: "int list"

definition tr_init :: tr_state where
  "tr_init = \<lparr>nco_phase = 0, nco_freq = NCO_NOMINAL, prev_i = 0, prev_q = 0, mid_i = 0, mid_q = 0, curr_i = 0, curr_q = 0,
     lock_counter = 0, locked = False, ted_values = [], tr_i = [], tr_q = []\<rparr>"

text \<open>What an overflow does with the sample \<open>(x, y)\<close>: the symbol, the Gardner error, the loop filter, the lock.\<close>

definition tr_ted :: "int \<Rightarrow> int \<Rightarrow> tr_state \<Rightarrow> int" where
  "tr_ted x y s =
     (let ted_i = (curr_i s - x) * mid_i s + (curr_q s - y) * mid_q s in drop_bit 16 ted_i)"

definition tr_symbol :: "int \<Rightarrow> int \<Rightarrow> tr_state \<Rightarrow> tr_state" where
  "tr_symbol x y s =
     (let ted = tr_ted x y s;
          kp_term = drop_bit KP_SHIFT ted;
          ki_term = drop_bit KI_SHIFT ted;
          new_freq = max 0 (min NCO_MAX (nco_freq s + ki_term));
          adj_phase = (nco_phase s + kp_term) AND NCO_MAX;
          cnt = (if \<bar>ted\<bar> < LOCK_THRESH then min (lock_counter s + 1) (LOCK_COUNT + 1) else 0)
      in s\<lparr>prev_i := curr_i s, prev_q := curr_q s, curr_i := x, curr_q := y, tr_i := tr_i s @ [x], tr_q := tr_q s @ [y],
           ted_values := ted_values s @ [ted], nco_freq := new_freq, nco_phase := adj_phase,
           lock_counter := cnt, locked := LOCK_COUNT \<le> cnt\<rparr>)"

definition tr_step :: "int \<Rightarrow> int res \<Rightarrow> tr_state \<Rightarrow> tr_state res" where
  "tr_step x y s =
     (let old_phase = nco_phase s;
          new_phase = (old_phase + nco_freq s) AND NCO_MAX;
          overflow = new_phase < old_phase;
          s = s\<lparr>nco_phase := new_phase\<rparr>;
          msb_curr = drop_bit 31 new_phase AND 1;
          msb_prev = drop_bit 31 old_phase AND 1;
          midpoint = msb_curr \<noteq> msb_prev \<and> \<not> overflow
      in if midpoint then bind_res y (\<lambda>y. Inr (s\<lparr>mid_i := x, mid_q := y\<rparr>))
         else if overflow then bind_res y (\<lambda>y. Inr (tr_symbol x y s))
         else Inr s)"

fun tr_loop :: "int list \<Rightarrow> int list \<Rightarrow> tr_state \<Rightarrow> tr_state res" where
  "tr_loop [] ys s = Inr s"
| "tr_loop (x # xs) ys s =
     bind_res (tr_step x (case ys of [] \<Rightarrow> Inl IndexError | y # _ \<Rightarrow> Inr y) s) (tr_loop xs (tl ys))"

definition timing_recovery :: "int list \<Rightarrow> int list \<Rightarrow> (int list \<times> int list) res" where
  "timing_recovery i_in q_in = bind_res (tr_loop i_in q_in tr_init) (\<lambda>s. Inr (tr_i s, tr_q s))"

text \<open>The loop keeps its oscillator in 32 bits and gives as many symbols as errors, each a sample of the input.\<close>

definition tr_ok :: "(int \<times> int) set \<Rightarrow> tr_state \<Rightarrow> bool" where
  "tr_ok samples s \<longleftrightarrow> 0 \<le> nco_phase s \<and> nco_phase s < 2 ^ 32 \<and> 0 \<le> nco_freq s \<and> nco_freq s < 2 ^ 32 \<and>
     lock_counter s \<le> 145 \<and> (locked s \<longleftrightarrow> 144 \<le> lock_counter s) \<and>
     length (tr_q s) = length (tr_i s) \<and> length (ted_values s) = length (tr_i s) \<and>
     set (zip (tr_i s) (tr_q s)) \<subseteq> samples"

lemma and_NCO_MAX: "v AND NCO_MAX = v mod 2 ^ 32"
  using and_mask_mod [of v 32] by (simp add: NCO_MAX_def push_bit_eq_mult)

lemma tr_ok_init: "tr_ok A tr_init"
  by (simp add: tr_ok_def tr_init_def NCO_NOMINAL_def push_bit_eq_mult)

lemma tr_ok_symbol: "tr_ok A s \<Longrightarrow> (x, y) \<in> A \<Longrightarrow> tr_ok A (tr_symbol x y s)"
  by (auto simp: tr_ok_def tr_symbol_def Let_def and_NCO_MAX LOCK_COUNT_def NCO_MAX_def push_bit_eq_mult)

lemma tr_step_ok:
  assumes "tr_ok A s" "(x, y) \<in> A"
  shows "\<exists>s'. tr_step x (Inr y) s = Inr s' \<and> tr_ok A s' \<and> length (tr_i s') \<le> Suc (length (tr_i s))"
proof -
  have "tr_ok A (s\<lparr>nco_phase := (nco_phase s + nco_freq s) AND NCO_MAX\<rparr>)"
    using assms(1) by (simp add: tr_ok_def and_NCO_MAX)
  from tr_ok_symbol [OF this assms(2)] this show ?thesis
    by (simp add: tr_step_def Let_def) (auto simp: tr_ok_def tr_symbol_def Let_def)
qed

lemma tr_loop_ok:
  "length xs = length ys \<Longrightarrow> tr_ok A s \<Longrightarrow> set (zip xs ys) \<subseteq> A \<Longrightarrow>
   \<exists>s'. tr_loop xs ys s = Inr s' \<and> tr_ok A s' \<and> length (tr_i s') \<le> length (tr_i s) + length xs"
proof (induction xs ys arbitrary: s rule: list_induct2)
  case (Cons x xs y ys)
  from tr_step_ok [of A s x y] Cons.prems obtain s1 where
    s1: "tr_step x (Inr y) s = Inr s1" "tr_ok A s1" "length (tr_i s1) \<le> Suc (length (tr_i s))" by auto
  with Cons.IH [of s1] Cons.prems show ?case by fastforce
qed simp

lemma timing_recovery_runs:
  assumes "length i_in = length q_in"
  shows "\<exists>s. tr_loop i_in q_in tr_init = Inr s \<and> tr_ok (set (zip i_in q_in)) s \<and>
    timing_recovery i_in q_in = Inr (tr_i s, tr_q s) \<and> length (tr_i s) \<le> length i_in"
  using tr_loop_ok [OF assms tr_ok_init subset_refl] by (auto simp: timing_recovery_def tr_init_def)

text \<open>The timing recovery never raises on two channels of one length; its oscillator stays in 32 bits,
  the lock counter in its range, and what it returns are samples of the input, at most one for each.\<close>

theorem timing_recovery_invariant:
  assumes "length i_in = length q_in"
  shows "\<exists>s. tr_loop i_in q_in tr_init = Inr s \<and> tr_ok (set (zip i_in q_in)) s \<and>
    timing_recovery i_in q_in = Inr (tr_i s, tr_q s) \<and> length (tr_i s) \<le> length i_in"
  using assms by (rule timing_recovery_runs)

lemma tr_symbol_simps [simp]:
  "nco_phase (tr_symbol x y s) = (nco_phase s + drop_bit KP_SHIFT (tr_ted x y s)) AND NCO_MAX"
  "nco_freq (tr_symbol x y s) = max 0 (min NCO_MAX (nco_freq s + drop_bit KI_SHIFT (tr_ted x y s)))"
  "tr_i (tr_symbol x y s) = tr_i s @ [x]" "tr_q (tr_symbol x y s) = tr_q s @ [y]"
  by (simp_all add: tr_symbol_def Let_def)


lemma tr_symbol_curr [simp]: "curr_i (tr_symbol x y s) = x" "curr_q (tr_symbol x y s) = y"
  by (simp_all add: tr_symbol_def Let_def)

text \<open>The four samples of a symbol at the nominal frequency: only the last one strobes.\<close>

lemma tr_step_nominal:
  assumes "nco_freq s = 2 ^ 30"
  shows "nco_phase s = 0 \<Longrightarrow> tr_step x (Inr y) s = Inr (s\<lparr>nco_phase := 2 ^ 30\<rparr>)"
    "nco_phase s = 2 ^ 30 \<Longrightarrow> tr_step x (Inr y) s = Inr (s\<lparr>nco_phase := 2 ^ 31, mid_i := x, mid_q := y\<rparr>)"
    "nco_phase s = 2 ^ 31 \<Longrightarrow> tr_step x (Inr y) s = Inr (s\<lparr>nco_phase := 3 * 2 ^ 30\<rparr>)"
    "nco_phase s = 3 * 2 ^ 30 \<Longrightarrow> tr_step x (Inr y) s = Inr (tr_symbol x y (s\<lparr>nco_phase := 0\<rparr>))"
  using assms by (simp_all add: tr_step_def Let_def and_NCO_MAX drop_bit_eq_div)

text \<open>The error of a symbol whose middle sample is \<open>(x1, y1)\<close>, after the symbol \<open>(ci, cq)\<close>.\<close>

definition gardner_err :: "int \<Rightarrow> int \<Rightarrow> int \<Rightarrow> int \<Rightarrow> int \<Rightarrow> int \<Rightarrow> int" where
  "gardner_err ci cq x1 y1 x3 y3 = drop_bit 16 ((ci - x3) * x1 + (cq - y3) * y1)"

fun steady :: "int \<Rightarrow> int \<Rightarrow> int list \<Rightarrow> int list \<Rightarrow> bool" where
  "steady ci cq (x0 # x1 # x2 # x3 # xs) (y0 # y1 # y2 # y3 # ys) \<longleftrightarrow>
     0 \<le> gardner_err ci cq x1 y1 x3 y3 \<and> gardner_err ci cq x1 y1 x3 y3 < 256 \<and> steady x3 y3 xs ys"
| "steady ci cq xs ys \<longleftrightarrow> True"

lemma every_last_4:
  "every_last 4 (x0 # x1 # x2 # x3 # xs) = x3 # every_last 4 xs"
  "every_last 4 [] = []" "every_last 4 [x0] = []" "every_last 4 [x0, x1] = []" "every_last 4 [x0, x1, x2] = []"
proof -
  have len: "length (x0 # x1 # x2 # x3 # xs) div 4 = Suc (length xs div 4)" by simp
  have idx: "4 * Suc k + (4 - 1) = Suc (Suc (Suc (Suc (4 * k + (4 - 1)))))" for k :: nat by simp
  have first: "(x0 # x1 # x2 # x3 # xs) ! (4 * 0 + (4 - 1)) = x3" by (simp add: numeral_3_eq_3)
  show "every_last 4 (x0 # x1 # x2 # x3 # xs) = x3 # every_last 4 xs"
    unfolding every_last_def len upt_Cons_map list.map first
    unfolding map_map o_def idx nth_Cons_Suc ..
qed (simp_all add: every_last_def)

lemma split_four:
  assumes "4 \<le> length xs"
  shows "\<exists>x0 x1 x2 x3 ys. xs = x0 # x1 # x2 # x3 # ys"
proof -
  have hd: "xs ! 0 # drop (Suc 0) xs = xs" using assms by (cases xs) simp_all
  have "xs ! 0 # xs ! 1 # xs ! 2 # xs ! 3 # drop 4 xs = xs"
    using assms hd by (simp add: Cons_nth_drop_Suc numeral_eq_Suc)
  then show ?thesis by metis
qed

lemma short_list:
  assumes "\<not> 4 \<le> length xs"
  obtains "xs = []" | x0 where "xs = [x0]" | x0 x1 where "xs = [x0, x1]" | x0 x1 x2 where "xs = [x0, x1, x2]"
proof -
  have "length xs = 0 \<or> length xs = Suc 0 \<or> length xs = Suc (Suc 0) \<or> length xs = Suc (Suc (Suc 0))"
    using assms by linarith
  then show thesis using that by (auto simp: length_Suc_conv)
qed

lemma tr_loop_steady:
  "steady (curr_i s) (curr_q s) xs ys \<Longrightarrow> length xs = length ys \<Longrightarrow> nco_phase s = 0 \<Longrightarrow> nco_freq s = 2 ^ 30 \<Longrightarrow>
   \<exists>s'. tr_loop xs ys s = Inr s' \<and> tr_i s' = tr_i s @ every_last 4 xs \<and> tr_q s' = tr_q s @ every_last 4 ys"
proof (induction xs arbitrary: ys s rule: length_induct)
  case (1 xs)
  note prems = "1.prems"
  show ?case
  proof (cases "4 \<le> length xs")
    case True
    obtain x0 x1 x2 x3 xs' where xs: "xs = x0 # x1 # x2 # x3 # xs'"
      using split_four [OF True] by blast
    obtain y0 y1 y2 y3 ys' where ys: "ys = y0 # y1 # y2 # y3 # ys'"
      using split_four [of ys] True prems(2) by auto
    let ?s = "tr_symbol x3 y3 (s\<lparr>mid_i := x1, mid_q := y1, nco_phase := 0\<rparr>)"
    let ?t = "gardner_err (curr_i s) (curr_q s) x1 y1 x3 y3"
    have t: "tr_ted x3 y3 (s\<lparr>mid_i := x1, mid_q := y1, nco_phase := 0\<rparr>) = ?t"
      by (simp add: tr_ted_def gardner_err_def)
    have z: "drop_bit KP_SHIFT ?t = 0" "drop_bit KI_SHIFT ?t = 0"
      using prems(1) by (simp_all add: xs ys drop_bit_eq_div KP_SHIFT_def KI_SHIFT_def div_pos_pos_trivial)
    have n: "nco_phase ?s = 0" "nco_freq ?s = 2 ^ 30"
      using prems(4) by (simp_all add: t z and_NCO_MAX NCO_MAX_def push_bit_eq_mult)
    have run: "tr_loop xs ys s = tr_loop xs' ys' ?s"
      using prems(3,4) by (simp add: xs ys tr_step_nominal)
    have IH: "\<exists>s'. tr_loop xs' ys' ?s = Inr s' \<and> tr_i s' = tr_i ?s @ every_last 4 xs' \<and>
        tr_q s' = tr_q ?s @ every_last 4 ys'"
      using "1.IH" [rule_format, of xs' ?s ys'] prems n by (simp add: xs ys)
    then show ?thesis unfolding run by (simp add: xs ys every_last_4)
  next
    case False
    then consider "xs = []" | x0 where "xs = [x0]" | x0 x1 where "xs = [x0, x1]" | x0 x1 x2 where "xs = [x0, x1, x2]"
      by (rule short_list)
    then show ?thesis
    proof cases
      case 1
      then show ?thesis using prems(2) by (simp add: every_last_4)
    next
      case 2
      then obtain y0 where "ys = [y0]" using prems(2) by (cases ys) auto
      with 2 show ?thesis using prems(3,4) by (simp add: every_last_4 tr_step_nominal)
    next
      case 3
      then obtain y0 y1 where "ys = [y0, y1]" using prems(2) by (cases ys; cases "tl ys") auto
      with 3 show ?thesis using prems(3,4) by (simp add: every_last_4 tr_step_nominal)
    next
      case 4
      then obtain y0 y1 y2 where "ys = [y0, y1, y2]"
        using prems(2) by (cases ys; cases "tl ys"; cases "tl (tl ys)") auto
      with 4 show ?thesis using prems(3,4) by (simp add: every_last_4 tr_step_nominal)
    qed
  qed
qed


text \<open>C31. A steady signal is sampled once per symbol: when no Gardner error is negative and all are below 256,
  the loop filter does not move the oscillator and the symbols are every fourth sample.\<close>

theorem timing_recovery_steady:
  assumes "length i_in = length q_in" "steady 0 0 i_in q_in"
  shows "timing_recovery i_in q_in = Inr (every_last 4 i_in, every_last 4 q_in)"
  using tr_loop_steady [of tr_init i_in q_in] assms
  by (auto simp: timing_recovery_def tr_init_def NCO_NOMINAL_def push_bit_eq_mult)

theorem timing_recovery_steady_witness:
  "timing_recovery [0, 0, 0, -1000, 0, 0, 0, 1000] [0, 0, 0, -1000, 0, 0, 0, 1000] = Inr ([-1000, 1000], [-1000, 1000])"
proof -
  have "steady 0 0 [0, 0, 0, -1000, 0, 0, 0, 1000] [0, 0, 0, -1000, 0, 0, 0, 1000]"
    by (simp add: gardner_err_def)
  from timing_recovery_steady [OF _ this] show ?thesis by (simp add: every_last_4)
qed

text \<open>A negative Gardner error strobes twice.  At the nominal frequency the phase is 0 after a strobe, so a
  negative proportional term wraps it to the top of its range: the next sample overflows again and comes
  out as a second symbol.\<close>

theorem negative_error_strobes_twice:
  assumes "nco_freq s = 2 ^ 30" "nco_phase s = 3 * 2 ^ 30" "- (2 ^ 16) \<le> tr_ted x y s" "tr_ted x y s < 0"
  shows "\<exists>s1 s2. tr_step x (Inr y) s = Inr s1 \<and> tr_step x' (Inr y') s1 = Inr s2 \<and>
    tr_i s2 = tr_i s @ [x, x'] \<and> tr_q s2 = tr_q s @ [y, y']"
proof -
  let ?s = "s\<lparr>nco_phase := 0\<rparr>"
  let ?t = "tr_ted x y s"
  have t: "tr_ted x y ?s = ?t" by (simp add: tr_ted_def)
  define kp where "kp = ?t div 2 ^ 8"
  define ki where "ki = ?t div 2 ^ 12"
  have kp: "- 256 \<le> kp" "kp < 0"
    using zdiv_mono1 [OF assms(3), of "2 ^ 8"] assms(4) by (simp_all add: kp_def)
  have ki: "- 16 \<le> ki" "ki < 0"
    using zdiv_mono1 [OF assms(3), of "2 ^ 12"] assms(4) by (simp_all add: ki_def)
  have m: "kp mod 2 ^ 32 = kp + 2 ^ 32"
    using kp by (intro mod_pos_pos_trivial [of "kp + 2 ^ 32" "2 ^ 32", simplified mod_add_self2]) simp_all
  have p1: "nco_phase (tr_symbol x y ?s) = kp + 2 ^ 32"
    using m unfolding kp_def by (simp add: t and_NCO_MAX KP_SHIFT_def drop_bit_eq_div)
  have "nco_freq (tr_symbol x y ?s) = max 0 (min NCO_MAX (2 ^ 30 + ki))"
    using assms(1) unfolding ki_def by (simp add: t KI_SHIFT_def drop_bit_eq_div)
  also have "\<dots> = 2 ^ 30 + ki" using ki by (simp add: NCO_MAX_def push_bit_eq_mult)
  finally have p: "nco_phase (tr_symbol x y ?s) = kp + 2 ^ 32" "nco_freq (tr_symbol x y ?s) = 2 ^ 30 + ki"
    using p1 by simp_all
  have wrap: "(kp + 2 ^ 32 + (2 ^ 30 + ki)) mod 2 ^ 32 = kp + ki + 2 ^ 30"
  proof -
    have "kp + 2 ^ 32 + (2 ^ 30 + ki) = (kp + ki + 2 ^ 30) + 2 ^ 32" by simp
    then show ?thesis using kp ki by (simp only: mod_add_self2) (rule mod_pos_pos_trivial; simp)
  qed
  have over: "kp + ki + 2 ^ 30 < kp + 2 ^ 32" using ki by simp
  have "tr_step x (Inr y) s = Inr (tr_symbol x y ?s)" using assms(1,2) by (rule tr_step_nominal(4))
  moreover have "tr_step x' (Inr y') (tr_symbol x y ?s) =
      Inr (tr_symbol x' y' ((tr_symbol x y ?s)\<lparr>nco_phase := kp + ki + 2 ^ 30\<rparr>))"
    using over unfolding tr_step_def p and_NCO_MAX wrap Let_def by simp
  ultimately show ?thesis by simp
qed


subsection \<open>Ideal timing\<close>

text \<open>\<open>np.arange(start, n, step)\<close> with a positive step, and indexing by it.\<close>

definition arange :: "nat \<Rightarrow> nat \<Rightarrow> nat \<Rightarrow> nat list" where
  "arange start n step = map (\<lambda>k. start + k * step) [0..<(n - start + step - 1) div step]"

definition np_take :: "int list \<Rightarrow> nat list \<Rightarrow> int list res" where
  "np_take xs idx = (if list_all (\<lambda>i. i < length xs) idx then Inr (map ((!) xs) idx) else Inl IndexError)"

definition energy_of :: "int list \<Rightarrow> int list \<Rightarrow> int" where
  "energy_of xs ys = sum_list (map2 (\<lambda>x y. x ^ 2 + y ^ 2) xs ys)"

fun offset_loop :: "int list \<Rightarrow> int list \<Rightarrow> nat \<Rightarrow> nat list \<Rightarrow> int \<Rightarrow> nat \<Rightarrow> nat res" where
  "offset_loop i_in q_in sps [] best_energy best_offset = Inr best_offset"
| "offset_loop i_in q_in sps (offset # offsets) best_energy best_offset =
     (let indices = arange (32 * sps + offset) (length i_in) sps
      in if indices = [] then offset_loop i_in q_in sps offsets best_energy best_offset
         else bind_res (np_take i_in indices) (\<lambda>xs. bind_res (np_take q_in indices) (\<lambda>ys.
           let energy = energy_of xs ys
           in if best_energy < energy then offset_loop i_in q_in sps offsets energy offset
              else offset_loop i_in q_in sps offsets best_energy best_offset)))"

definition timing_recovery_ideal :: "int list \<Rightarrow> int list \<Rightarrow> nat \<Rightarrow> (int list \<times> int list) res" where
  "timing_recovery_ideal i_in q_in sps =
     bind_res (offset_loop i_in q_in sps [0..<sps] (- 1) 0) (\<lambda>best_offset.
       let indices = arange best_offset (length i_in) sps
       in bind_res (np_take i_in indices) (\<lambda>xs. bind_res (np_take q_in indices) (\<lambda>ys. Inr (xs, ys))))"

subsection \<open>Correlation and the test burst\<close>

definition window_corr :: "nat list \<Rightarrow> nat list \<Rightarrow> nat \<Rightarrow> nat" where
  "window_corr dibits sts i = length (filter (\<lambda>(a, b). a = b) (zip (take (length sts) (drop i dibits)) sts))"

fun corr_loop :: "nat list \<Rightarrow> nat list \<Rightarrow> nat list \<Rightarrow> nat \<times> nat \<times> nat list \<Rightarrow> nat \<times> nat \<times> nat list" where
  "corr_loop dibits sts [] r = r"
| "corr_loop dibits sts (i # is) (max_corr, max_pos, all_corr) =
     (let corr = window_corr dibits sts i
      in corr_loop dibits sts is
           (if max_corr < corr then (corr, i, all_corr @ [corr]) else (max_corr, max_pos, all_corr @ [corr])))"

definition sts_correlate :: "nat list \<Rightarrow> nat list \<Rightarrow> nat \<times> nat \<times> nat list" where
  "sts_correlate dibits sts = corr_loop dibits sts [0..<length dibits + 1 - length sts] (0, 0, [])"

definition generate_sdb_burst :: "nat list res" where
  "generate_sdb_burst =
     (let tail1 = replicate 6 3; hc = [0]; fc = replicate 40 2; sb1 = replicate 60 1; sts = STS_LOOPBACK;
          bb = replicate 15 0; bkn2 = replicate 108 3; hd = [0]; tail2 = replicate 5 3;
          burst = tail1 @ hc @ fc @ sb1 @ sts @ bb @ bkn2 @ hd @ tail2
      in assert_res (length burst = 255) (Inr burst))"

text \<open>The integer part of \<open>main\<close> behind the modulator: the bypass and the full path up to the symbols.\<close>

definition bypass_path :: "int list \<Rightarrow> int list \<Rightarrow> (int list \<times> int list) res" where
  "bypass_path mod_i mod_q =
     bind_res (tx_rrc_filter mod_i mod_q) (\<lambda>(rrc_i, rrc_q). timing_recovery rrc_i rrc_q)"

definition full_path :: "int list \<Rightarrow> int list \<Rightarrow> (int list \<times> int list) res" where
  "full_path mod_i mod_q =
     bind_res (tx_rrc_filter mod_i mod_q) (\<lambda>(rrc_i, rrc_q).
     bind_res (tx_cic_interp rrc_i rrc_q 64 5 24) (\<lambda>(cic_tx_i, cic_tx_q).
     bind_res (rx_cic_decim cic_tx_i cic_tx_q 64 5 True) (\<lambda>(cic_rx_i, cic_rx_q).
     bind_res (rx_rrc_filter cic_rx_i cic_rx_q) (\<lambda>(rx_rrc_i, rx_rrc_q). timing_recovery rx_rrc_i rx_rrc_q))))"

subsection \<open>The best offset\<close>

definition offset_energy :: "int list \<Rightarrow> int list \<Rightarrow> nat \<Rightarrow> nat \<Rightarrow> int" where
  "offset_energy i_in q_in sps offset =
     (let idx = arange (32 * sps + offset) (length i_in) sps
      in energy_of (map ((!) i_in) idx) (map ((!) q_in) idx))"

lemma arange_less: "0 < step \<Longrightarrow> i \<in> set (arange start n step) \<Longrightarrow> i < n"
proof -
  assume step: "0 < step" and "i \<in> set (arange start n step)"
  then obtain k where i: "i = start + k * step" and k: "k < (n - start + step - 1) div step"
    by (auto simp: arange_def)
  from k step have "Suc k * step \<le> n - start + step - 1"
    by (metis Suc_leI less_eq_div_iff_mult_less_eq)
  then show "i < n" using step by (simp add: i)
qed

lemma np_take_arange:
  "0 < step \<Longrightarrow> length xs = n \<Longrightarrow> np_take xs (arange start n step) = Inr (map ((!) xs) (arange start n step))"
  using arange_less by (auto simp: np_take_def list_all_iff)

lemma energy_of_nonneg [simp]: "0 \<le> energy_of xs ys"
  unfolding energy_of_def by (rule sum_list_nonneg) auto

lemma arange_Nil_energy: "arange (32 * sps + o') (length i) sps = [] \<Longrightarrow> offset_energy i q sps o' = 0"
  by (simp add: offset_energy_def energy_of_def)

text \<open>The offset found carries the most energy of the offsets tried so far, unless none of them has a sample.\<close>

lemma offset_loop_best:
  "0 < sps \<Longrightarrow> length q = length i \<Longrightarrow>
   \<exists>b. offset_loop i q sps offs e b0 = Inr b \<and> (b = b0 \<or> b \<in> set offs) \<and>
     (\<forall>o' \<in> set offs. arange (32 * sps + o') (length i) sps \<noteq> [] \<longrightarrow>
        offset_energy i q sps o' \<le> max e (offset_energy i q sps b)) \<and>
     (b = b0 \<or> e < offset_energy i q sps b)"
proof (induction offs arbitrary: e b0)
  case (Cons o1 offs)
  let ?e = "offset_energy i q sps o1"
  show ?case
  proof (cases "arange (32 * sps + o1) (length i) sps = []")
    case True
    with Cons.IH [OF Cons.prems, of e b0] show ?thesis by fastforce
  next
    case False
    have step: "offset_loop i q sps (o1 # offs) e b0 =
        (if e < ?e then offset_loop i q sps offs ?e o1 else offset_loop i q sps offs e b0)"
      using False Cons.prems by (simp add: np_take_arange Let_def offset_energy_def)
    show ?thesis
    proof (cases "e < ?e")
      case True
      from Cons.IH [OF Cons.prems, of ?e o1] obtain b where
        b: "offset_loop i q sps offs ?e o1 = Inr b" "b = o1 \<or> b \<in> set offs"
          "\<forall>o' \<in> set offs. arange (32 * sps + o') (length i) sps \<noteq> [] \<longrightarrow>
             offset_energy i q sps o' \<le> max ?e (offset_energy i q sps b)"
          "b = o1 \<or> ?e < offset_energy i q sps b" by auto
      have m: "max ?e (offset_energy i q sps b) = offset_energy i q sps b" using b(4) by auto
      have "e < offset_energy i q sps b" using b(4) True by auto
      with b m True show ?thesis unfolding step by (auto intro: order_trans)
    next
      case False
      with Cons.IH [OF Cons.prems, of e b0] show ?thesis unfolding step by fastforce
    qed
  qed
qed simp


text \<open>The ideal timing recovery samples with one offset below the oversampling, and no other offset carries
  more energy behind the first 32 symbols.\<close>

theorem ideal_offset_is_best:
  assumes "length i_in = length q_in" "0 < sps"
  shows "\<exists>b < sps. timing_recovery_ideal i_in q_in sps =
      Inr (map ((!) i_in) (arange b (length i_in) sps), map ((!) q_in) (arange b (length i_in) sps)) \<and>
    (\<forall>o' < sps. offset_energy i_in q_in sps o' \<le> offset_energy i_in q_in sps b)"
proof -
  from offset_loop_best [OF assms(2) assms(1) [symmetric], of "[0..<sps]" "- 1" 0] obtain b where
    b: "offset_loop i_in q_in sps [0..<sps] (- 1) 0 = Inr b" "b < sps"
      "\<forall>o' < sps. arange (32 * sps + o') (length i_in) sps \<noteq> [] \<longrightarrow>
         offset_energy i_in q_in sps o' \<le> max (- 1) (offset_energy i_in q_in sps b)"
    using assms(2) by auto
  have nn: "0 \<le> offset_energy i_in q_in sps o'" for o' by (simp add: offset_energy_def Let_def)
  have "offset_energy i_in q_in sps o' \<le> offset_energy i_in q_in sps b" if "o' < sps" for o'
    using b(3) that nn [of b] arange_Nil_energy [of sps o' i_in q_in]
    by (cases "arange (32 * sps + o') (length i_in) sps = []") force+
  then show ?thesis
    using b(1,2) assms by (auto simp: timing_recovery_ideal_def np_take_arange Let_def)
qed

theorem ideal_offset_is_best_witness:
  "\<exists>b < 4. timing_recovery_ideal (replicate 200 7) (replicate 200 1) 4 =
      Inr (map ((!) (replicate 200 7)) (arange b 200 4), map ((!) (replicate 200 1)) (arange b 200 4)) \<and>
    (\<forall>o' < 4. offset_energy (replicate 200 7) (replicate 200 1) 4 o' \<le>
       offset_energy (replicate 200 7) (replicate 200 1) 4 b)"
  using ideal_offset_is_best [of "replicate 200 7" "replicate 200 1" 4] by simp

subsection \<open>The correlation is the first maximum\<close>

lemma corr_loop_max:
  "corr_loop d sts ix (m, p, all) = (m', p', all') \<Longrightarrow> sorted ix \<Longrightarrow>
    all' = all @ map (window_corr d sts) ix \<and> m \<le> m' \<and> (\<forall>i \<in> set ix. window_corr d sts i \<le> m') \<and>
    (m' = m \<and> p' = p \<or> m < m' \<and> p' \<in> set ix \<and> window_corr d sts p' = m' \<and>
       (\<forall>i \<in> set ix. i < p' \<longrightarrow> window_corr d sts i < m'))"
proof (induction ix arbitrary: m p all)
  case (Cons i ix)
  let ?w = "window_corr d sts i"
  have s: "sorted ix" "\<And>j. j \<in> set ix \<Longrightarrow> i \<le> j" using Cons.prems(2) by simp_all
  show ?case
  proof (cases "m < ?w")
    case True
    then have "corr_loop d sts ix (?w, i, all @ [?w]) = (m', p', all')" using Cons.prems(1) by (simp add: Let_def)
    note IH = Cons.IH [OF this s(1)]
    show ?thesis
    proof (cases "m' = ?w \<and> p' = i")
      case True
      then show ?thesis using IH \<open>m < ?w\<close> s(2) by (auto dest: leD)
    next
      case False
      then show ?thesis using IH \<open>m < ?w\<close> by auto
    qed
  next
    case False
    then have "corr_loop d sts ix (m, p, all @ [?w]) = (m', p', all')" using Cons.prems(1) by (simp add: Let_def)
    note IH = Cons.IH [OF this s(1)]
    then show ?thesis using False by auto
  qed
qed simp

text \<open>The correlator reports the number of agreeing symbols at every position, and the first position of the
  largest number.\<close>

theorem sts_correlate_first_max:
  assumes "sts_correlate dibits sts = (m, p, all)"
  shows "all = map (window_corr dibits sts) [0..<length dibits + 1 - length sts] \<and>
    (\<forall>i < length all. all ! i \<le> m) \<and>
    (m = 0 \<and> p = 0 \<or> p < length all \<and> all ! p = m \<and> (\<forall>i < p. all ! i < m))"
  using corr_loop_max [OF assms [unfolded sts_correlate_def] sorted_upt] by auto

text \<open>The test burst has 255 symbols, so that its assertion holds; the training sequence is at symbol 107, not at
  127 as the comment in \<open>generate_sdb_burst\<close> says.\<close>

theorem burst_sts_position:
  "case generate_sdb_burst of Inl e \<Rightarrow> False
   | Inr burst \<Rightarrow> length burst = 255 \<and> take 19 (drop 107 burst) = STS_LOOPBACK \<and>
       take 19 (drop 127 burst) \<noteq> STS_LOOPBACK"
  by code_simp

subsection \<open>The whole path\<close>

lemma spread_zero: "spread (replicate 9 0) = replicate 33 0"
  by (simp add: spread_def numeral_eq_Suc)

lemma int16_clamp [simp]: "int16 (clamp16 v)"
  by (simp add: int16_def clamp16_def)

lemma int16_rrc_loop: "list_all int16 (rrc_loop sr xs)"
  by (induction xs arbitrary: sr) (simp_all add: Let_def)

lemma int16_tx_channel: "list_all int16 x \<Longrightarrow> list_all int16 (tx_channel_spec x)"
  using int16_scaled_24 [OF tx_sum_within] by (simp add: tx_channel_spec_def list.pred_set)

text \<open>One channel of the path from the modulator to the timing recovery.\<close>

definition path_channel :: "int list \<Rightarrow> int list" where
  "path_channel x =
     (let tx = tx_channel_spec (rrc_channel (upsample x 4))
      in rrc_channel (map (\<lambda>k. drop_bit 30 (rx_sum tx k)) [0..<4 * length x]))"

text \<open>C26. The whole integer path of the loopback runs without an exception on 16-bit symbols: matched filter,
  interpolator, decimator and matched filter are the exact sums and convolutions one after the
  other, no rate changer saturates, and the timing recovery picks its symbols from their 16-bit samples.\<close>

theorem loopback_path_exact:
  assumes "list_all int16 i" "list_all int16 q" "length i = length q"
  shows "full_path i q = timing_recovery (path_channel i) (path_channel q) \<and>
    bypass_path i q = timing_recovery (rrc_channel (upsample i 4)) (rrc_channel (upsample q 4)) \<and>
    (\<exists>oi oq. full_path i q = Inr (oi, oq) \<and> length oi \<le> 4 * length i \<and>
      set (zip oi oq) \<subseteq> set (zip (path_channel i) (path_channel q)))"
proof -
  let ?i = "rrc_channel (upsample i 4)" and ?q = "rrc_channel (upsample q 4)"
  have tx: "tx_rrc_filter i q = Inr (?i, ?q)"
    using rrc_upsampled [of "replicate 9 0" "replicate 9 0" i q] assms(3)
    by (simp add: tx_rrc_filter_eq run_filter_def SR_DEPTH_def rrc_channel_def spread_zero)
  have len: "length ?i = 4 * length i" "length ?q = 4 * length i"
    using assms(3) length_upsample [of 4] by simp_all
  have "list_all int16 ?i" "list_all int16 ?q" by (simp_all add: rrc_channel_def int16_rrc_loop)
  note s = this
  have cic: "tx_cic_interp ?i ?q 64 5 24 = Inr (tx_channel_spec ?i, tx_channel_spec ?q)"
    using s len by (simp add: tx_cic_interp_def tx_loop_exact)
  have l: "length (tx_channel_spec ?i) = 256 * length i" "length (tx_channel_spec ?q) = 256 * length i"
    using assms(3) by (simp_all add: tx_channel_spec_def length_upsample)
  have rx: "rx_cic_decim (tx_channel_spec ?i) (tx_channel_spec ?q) 64 5 True =
      Inr (map (\<lambda>k. drop_bit 30 (rx_sum (tx_channel_spec ?i) k)) [0..<4 * length i],
           map (\<lambda>k. drop_bit 30 (rx_sum (tx_channel_spec ?q) k)) [0..<4 * length i])"
    using rx_cic_decim_eq [OF int16_tx_channel [OF s(1)] int16_tx_channel [OF s(2)], of True] l
    by (simp add: clamp_rx_sum int16_tx_channel s)
  have full: "full_path i q = timing_recovery (path_channel i) (path_channel q)"
    by (simp add: full_path_def tx cic rx rx_rrc_filter_eq
        path_channel_def Let_def assms(3) del: upt_Suc)
  have "length (path_channel i) = length (path_channel q)" "length (path_channel i) = 4 * length i"
    using assms(3) by (simp_all add: path_channel_def Let_def)
  then show ?thesis
    using full tx timing_recovery_runs [of "path_channel i" "path_channel q"]
    by (auto simp: bypass_path_def tr_ok_def)
qed

theorem loopback_path_exact_witness:
  "full_path [29490, -29490] [0, 5] = timing_recovery (path_channel [29490, -29490]) (path_channel [0, 5])"
  using loopback_path_exact [of "[29490, -29490]" "[0, 5]"] by (simp add: int16_def)

end
