(* ===== verification/Pi4Dqpsk.thy ===== *)
theory Pi4Dqpsk
  imports CicFilters
begin

unbundle bit_operations_syntax

text \<open>
  The modem models behind the test vectors: the pi/4-DQPSK modulator of
  \<open>tb/vectors/gen_pi4dqpsk_mod_vectors.py\<close>, the demodulator with its integer CORDIC of
  \<open>tb/vectors/gen_pi4dqpsk_vectors.py\<close>, and the Gardner timing error detector of
  \<open>tb/vectors/gen_timing_recovery_vectors.py\<close>.

  The modulator's amplitude \<open>round(cos(pi/4) * 32767)\<close> is its value 23170.  Dibits, phase indices
  and samples are integers; the tables are partial functions of their keys (KeyError).
\<close>

subsection \<open>Modulator\<close>

definition AMP_ONE :: int where "AMP_ONE = 32767"
definition AMP_SQ2 :: int where "AMP_SQ2 = 23170"
definition AMP_ZERO :: int where "AMP_ZERO = 0"

definition IQ_TABLE :: "(int \<times> int \<times> int) list" where
  "IQ_TABLE =
    [(0, AMP_ONE, AMP_ZERO), (1, AMP_SQ2, AMP_SQ2), (2, AMP_ZERO, AMP_ONE), (3, - AMP_SQ2, AMP_SQ2),
     (4, - AMP_ONE, AMP_ZERO), (5, - AMP_SQ2, - AMP_SQ2), (6, AMP_ZERO, - AMP_ONE),
     (7, AMP_SQ2, - AMP_SQ2)]"

definition PHASE_INC :: "(int \<times> int) list" where
  "PHASE_INC = [(0, 1), (1, 3), (2, 7), (3, 5)]"

definition lookup_res :: "(int \<times> 'a) list \<Rightarrow> int \<Rightarrow> 'a res" where
  "lookup_res t k = (case map_of t k of None \<Rightarrow> Inl KeyError | Some v \<Rightarrow> Inr v)"

definition modulate_symbol :: "int \<Rightarrow> int \<Rightarrow> (int \<times> int \<times> int) res" where
  "modulate_symbol phase_idx dibit =
     bind_res (lookup_res PHASE_INC dibit) (\<lambda>inc.
       let new_phase = (phase_idx + inc) mod 8
       in bind_res (lookup_res IQ_TABLE new_phase) (\<lambda>(i, q). Inr (new_phase, i, q)))"

fun modulate_block :: "int list \<Rightarrow> int \<Rightarrow> (int \<times> int \<times> int) list res" where
  "modulate_block [] phase = Inr []"
| "modulate_block (d # ds) phase =
     bind_res (modulate_symbol phase d) (\<lambda>(phase, i, q).
       bind_res (modulate_block ds phase) (\<lambda>rest. Inr ((phase, i, q) # rest)))"

subsection \<open>CORDIC and decision\<close>

definition ATAN_TABLE :: "int list" where
  "ATAN_TABLE = [8192, 4836, 2556, 1297, 651, 326, 163, 81, 41, 20, 10, 5, 3, 1, 1, 0]"

definition to_signed :: "int \<Rightarrow> nat \<Rightarrow> int" where
  "to_signed v bits =
     (let v = v AND (2 ^ bits - 1) in if 2 ^ (bits - 1) \<le> v then v - 2 ^ bits else v)"

definition quadrant :: "int \<Rightarrow> int \<Rightarrow> int \<times> int \<times> int" where
  "quadrant x y =
     (if 0 \<le> x then (x, y, 0) else if 0 \<le> y then (y, - x, 16384) else (- y, x, - 16384))"

definition cordic_step :: "nat \<Rightarrow> int \<times> int \<times> int \<Rightarrow> int \<times> int \<times> int" where
  "cordic_step i = (\<lambda>(xc, yc, zc).
     let d = (if 0 \<le> yc then 1 else - 1);
         y_shr = drop_bit i yc;
         x_shr = drop_bit i xc;
         xc_new = xc + d * y_shr;
         yc_new = yc - d * x_shr;
         zc_new = zc + d * ATAN_TABLE ! i
     in (to_signed xc_new 18, to_signed yc_new 18, to_signed zc_new 16))"

definition cordic_phase :: "int \<Rightarrow> int \<Rightarrow> int" where
  "cordic_phase i_val q_val =
     (let x = to_signed i_val 16; y = to_signed q_val 16
      in snd (snd (fold cordic_step [0..<16] (quadrant x y))))"

definition decide_dibit :: "int \<Rightarrow> int" where
  "decide_dibit delta =
     (if 0 \<le> delta \<and> delta < 16384 then 0
      else if 16384 \<le> delta then 1
      else if delta < - 16384 then 3
      else 2)"

text \<open>The dibits and the error count of \<open>process_scenario\<close>; \<open>expected_dibits[idx - 1]\<close> beyond the
  list is an IndexError.\<close>

fun scenario_loop :: "int \<Rightarrow> int list \<Rightarrow> int list \<Rightarrow> (int list \<times> nat) res" where
  "scenario_loop prev [] expected = Inr ([], 0)"
| "scenario_loop prev (ph # phases) expected =
     (let delta = to_signed (ph - prev) 16; dibit = decide_dibit delta
      in case expected of
           [] \<Rightarrow> Inl IndexError
         | e # expected \<Rightarrow>
             bind_res (scenario_loop ph phases expected) (\<lambda>(dibits, errors).
               Inr (dibit # dibits, errors + (if dibit \<noteq> e then 1 else 0))))"

definition process_scenario :: "(int \<times> int) list \<Rightarrow> int list \<Rightarrow> (int list \<times> nat) res" where
  "process_scenario iq_list expected_dibits =
     (case map (\<lambda>(i, q). cordic_phase i q) iq_list of
        [] \<Rightarrow> Inr ([], 0)
      | ph # phases \<Rightarrow> scenario_loop ph phases expected_dibits)"

definition SCENARIO_A_IQ :: "(int \<times> int) list" where
  "SCENARIO_A_IQ =
    [(24576, 0), (17378, 17378), (-24576, 0), (-17378, 17378), (24576, 0), (17378, 17378), (-24576, 0)]"

definition EXPECTED_DIBITS_A :: "int list" where
  "EXPECTED_DIBITS_A = [0, 1, 2, 3, 0, 1]"

definition SCENARIO_B_IQ :: "(int \<times> int) list" where
  "SCENARIO_B_IQ = [(24576, 0), (21299, 12288), (-21299, 12288), (21299, 12288), (21299, -12288)]"

definition EXPECTED_DIBITS_B :: "int list" where
  "EXPECTED_DIBITS_B = [0, 1, 3, 2]"

subsection \<open>Timing error detector\<close>

text \<open>The two shift registers, newest first.\<close>

record ted_state =
  nco_acc :: "32 word"
  regs_i :: "int \<times> int \<times> int \<times> int"
  regs_q :: "int \<times> int \<times> int \<times> int"

definition NCO_STEP :: "32 word" where
  "NCO_STEP = 0x40000000"

definition ted_value :: "int \<times> int \<times> int \<times> int \<Rightarrow> int \<times> int \<times> int \<times> int \<Rightarrow> int \<Rightarrow> int \<Rightarrow> int" where
  "ted_value = (\<lambda>(s0i, s1i, s2i, s3i) (s0q, s1q, s2q, s3q) i_in q_in.
     let i_diff = i_in - s3i;
         q_diff = q_in - s3q;
         prod_i = s1i * i_diff;
         prod_q = s1q * q_diff;
         ted_sum = prod_i + prod_q
     in drop_bit 18 ted_sum)"

definition shift_reg :: "int \<Rightarrow> int \<times> int \<times> int \<times> int \<Rightarrow> int \<times> int \<times> int \<times> int" where
  "shift_reg x = (\<lambda>(s0, s1, s2, s3). (x, s0, s1, s2))"

fun gardner_loop :: "nat \<Rightarrow> ted_state \<Rightarrow> (int \<times> int) list \<Rightarrow> (nat \<times> int) list" where
  "gardner_loop n s [] = []"
| "gardner_loop n s ((i_in, q_in) # samples) =
     (let nco_sum = nco_acc s + NCO_STEP;
          ovf = nco_sum < nco_acc s;
          out = (if ovf then [(n, clamp16 (ted_value (regs_i s) (regs_q s) i_in q_in))] else []);
          s = \<lparr>nco_acc = nco_sum, regs_i = shift_reg i_in (regs_i s),
               regs_q = shift_reg q_in (regs_q s)\<rparr>
      in out @ gardner_loop (n + 1) s samples)"

definition ted_init :: ted_state where
  "ted_init = \<lparr>nco_acc = 0, regs_i = (0, 0, 0, 0), regs_q = (0, 0, 0, 0)\<rparr>"

definition gardner_ted_reference :: "int list \<Rightarrow> int list \<Rightarrow> (nat \<times> int) list res" where
  "gardner_ted_reference i_samp q_samp =
     (if length q_samp < length i_samp then Inl IndexError
      else Inr (gardner_loop 0 ted_init (zip i_samp q_samp)))"

subsection \<open>Modulation is undone\<close>

definition dibits_ok :: "int list \<Rightarrow> bool" where
  "dibits_ok ds \<longleftrightarrow> set ds \<subseteq> {0, 1, 2, 3}"

text \<open>The demodulator's phase of a point of the constellation: a multiple of 8192 up to three
  units.\<close>

definition point_phase :: "int \<Rightarrow> int" where
  "point_phase idx = (case map_of IQ_TABLE idx of None \<Rightarrow> 0 | Some (i, q) \<Rightarrow> cordic_phase i q)"

definition phase_table :: "int list" where
  "phase_table = [-1, 8189, 16385, 24573, -32767, -24579, -16385, -8195]"

lemma point_phases: "map point_phase [0, 1, 2, 3, 4, 5, 6, 7] = phase_table"
  by code_simp

lemma step_phases:
  "list_all (\<lambda>p. list_all (\<lambda>(d, inc).
     decide_dibit (to_signed (phase_table ! nat ((p + inc) mod 8) - phase_table ! nat p) 16) = d)
     PHASE_INC) [0, 1, 2, 3, 4, 5, 6, 7]"
  by code_simp

lemma index_cases:
  assumes "0 \<le> p" "p < (8::int)"
  shows "p \<in> {0, 1, 2, 3, 4, 5, 6, 7}"
  using assms by (simp, presburger)

lemma point_phase_nth:
  assumes "0 \<le> p" "p < 8"
  shows "point_phase p = phase_table ! nat p"
  using index_cases [OF assms] unfolding point_phases [symmetric] by auto

lemma decide_step:
  assumes "0 \<le> p" "p < 8" "(d, inc) \<in> set PHASE_INC"
  shows "decide_dibit (to_signed (point_phase ((p + inc) mod 8) - point_phase p) 16) = d"
proof -
  have "list_all (\<lambda>(d, inc).
      decide_dibit (to_signed (phase_table ! nat ((p + inc) mod 8) - phase_table ! nat p) 16) = d) PHASE_INC"
    using step_phases index_cases [OF assms(1,2)] unfolding list_all_iff by fastforce
  then show ?thesis
    using assms by (auto simp: list_all_iff point_phase_nth)
qed

definition points :: "(int \<times> int \<times> int) list \<Rightarrow> (int \<times> int) list" where
  "points syms = map (\<lambda>(phase, i, q). (i, q)) syms"

lemma table_point:
  assumes "0 \<le> p" "p < 8"
  obtains i q where "lookup_res IQ_TABLE p = Inr (i, q)" "cordic_phase i q = point_phase p"
  using index_cases [OF assms] that
  by (auto simp: lookup_res_def IQ_TABLE_def point_phase_def)

lemma dibit_inc:
  assumes "d \<in> {0, 1, 2, 3}"
  obtains inc where "lookup_res PHASE_INC d = Inr inc" "(d, inc) \<in> set PHASE_INC"
  using assms that by (auto simp: lookup_res_def PHASE_INC_def)

lemma modulated_decides:
  assumes "dibits_ok ds" "0 \<le> p" "p < 8"
  shows "\<exists>syms. modulate_block ds p = Inr syms \<and> length syms = length ds \<and>
    scenario_loop (point_phase p) (map (\<lambda>(i, q). cordic_phase i q) (points syms)) ds = Inr (ds, 0)"
  using assms
proof (induction ds arbitrary: p)
  case (Cons d ds)
  have "d \<in> {0, 1, 2, 3}" using Cons.prems by (simp add: dibits_ok_def)
  then obtain inc where inc: "lookup_res PHASE_INC d = Inr inc" "(d, inc) \<in> set PHASE_INC"
    by (rule dibit_inc)
  let ?n = "(p + inc) mod 8"
  have n: "0 \<le> ?n" "?n < 8" by simp_all
  obtain i q where iq: "lookup_res IQ_TABLE ?n = Inr (i, q)" "cordic_phase i q = point_phase ?n"
    using n by (rule table_point)
  obtain syms where syms: "modulate_block ds ?n = Inr syms" "length syms = length ds"
    "scenario_loop (point_phase ?n) (map (\<lambda>(i, q). cordic_phase i q) (points syms)) ds = Inr (ds, 0)"
    using Cons.IH [of ?n] Cons.prems(1) n by (auto simp: dibits_ok_def)
  have "decide_dibit (to_signed (point_phase ?n - point_phase p) 16) = d"
    by (rule decide_step [OF Cons.prems(2,3) inc(2)])
  then show ?case
    using inc iq syms by (simp add: modulate_symbol_def points_def Let_def del: set_simps)
qed (simp add: points_def)

text \<open>C24. Modulator and demodulator agree: any list of dibits, modulated from any of the eight phases,
  is decided back by the CORDIC demodulator without an error when it starts from the same
  constellation point; no table lookup fails.\<close>

theorem modulation_roundtrip:
  assumes "set ds \<subseteq> {0, 1, 2, 3}" "0 \<le> p" "p < 8"
  shows "\<exists>syms iq. modulate_block ds p = Inr syms \<and> lookup_res IQ_TABLE p = Inr iq \<and>
    process_scenario (iq # points syms) ds = Inr (ds, 0)"
proof -
  obtain i q where "lookup_res IQ_TABLE p = Inr (i, q)" "cordic_phase i q = point_phase p"
    using assms(2,3) by (rule table_point)
  then show ?thesis
    using modulated_decides [of ds p] assms by (fastforce simp: process_scenario_def dibits_ok_def)
qed

theorem modulation_witness:
  "\<exists>syms iq. modulate_block [0, 1, 2, 3, 3] 5 = Inr syms \<and> lookup_res IQ_TABLE 5 = Inr iq \<and>
    process_scenario (iq # points syms) [0, 1, 2, 3, 3] = Inr ([0, 1, 2, 3, 3], 0)"
  by (rule modulation_roundtrip) simp_all

lemma modulate_block_error: "d \<notin> {0, 1, 2, 3} \<Longrightarrow> modulate_block (d # ds) p = Inl KeyError"
  by (simp add: modulate_symbol_def lookup_res_def PHASE_INC_def)

text \<open>The two scenarios of the script decide their expected dibits.\<close>

lemma scenarios_match:
  "process_scenario SCENARIO_A_IQ EXPECTED_DIBITS_A = Inr (EXPECTED_DIBITS_A, 0)"
  "process_scenario SCENARIO_B_IQ EXPECTED_DIBITS_B = Inr (EXPECTED_DIBITS_B, 0)"
  by code_simp+

subsection \<open>Timing error detector\<close>

text \<open>Gardner's formula for a sample, its midpoint two samples before and the previous sample four
  before, scaled by \<open>2 ^ 18\<close>.\<close>

definition gardner_spec :: "int list \<Rightarrow> int list \<Rightarrow> nat \<Rightarrow> int" where
  "gardner_spec xi xq n =
     drop_bit 18 (delay 2 (sig xi) n * (sig xi n - delay 4 (sig xi) n)
       + delay 2 (sig xq) n * (sig xq n - delay 4 (sig xq) n))"

definition window :: "signal \<Rightarrow> nat \<Rightarrow> int \<times> int \<times> int \<times> int" where
  "window f n = (delay 1 f n, delay 2 f n, delay 3 f n, delay 4 f n)"

lemma window_shift: "shift_reg (f n) (window f n) = window f (Suc n)"
  by (auto simp: shift_reg_def window_def delay_def numeral_eq_Suc)

lemma ted_window: "ted_value (window f n) (window g n) (f n) (g n)
    = drop_bit 18 (delay 2 f n * (f n - delay 4 f n) + delay 2 g n * (g n - delay 4 g n))"
  by (simp add: ted_value_def window_def Let_def)

lemma nco_step:
  assumes "acc = of_nat (n mod 4) * NCO_STEP"
  shows "acc + NCO_STEP = of_nat (Suc n mod 4) * NCO_STEP"
    and "acc + NCO_STEP < acc \<longleftrightarrow> n mod 4 = 3"
proof -
  have "n mod 4 = 0 \<or> n mod 4 = 1 \<or> n mod 4 = 2 \<or> n mod 4 = 3" by presburger
  then show "acc + NCO_STEP = of_nat (Suc n mod 4) * NCO_STEP"
    "acc + NCO_STEP < acc \<longleftrightarrow> n mod 4 = 3"
    unfolding assms NCO_STEP_def by (elim disjE; simp add: mod_Suc)+
qed

lemma gardner_loop_spec:
  assumes "length xi = length xq" "zip xi xq = pre @ samples" "length pre = n"
    and "nco_acc s = of_nat (n mod 4) * NCO_STEP"
    and "regs_i s = window (sig xi) n" "regs_q s = window (sig xq) n"
  shows "gardner_loop n s samples =
    map (\<lambda>m. (m, clamp16 (gardner_spec xi xq m))) (filter (\<lambda>m. m mod 4 = 3) [n..<length xi])"
  using assms(2-)
proof (induction samples arbitrary: pre n s)
  case Nil
  then have "length (zip xi xq) = n" by simp
  then show ?case using assms(1) by simp
next
  case (Cons c samples)
  obtain a b where c: "c = (a, b)" by (cases c)
  have "length (zip xi xq) = n + Suc (length samples)" using Cons.prems(1,2) by simp
  then have n: "n < length xi" using assms(1) by simp
  have "zip xi xq ! n = (a, b)" using Cons.prems(1,2) c by (metis nth_append_length)
  then have ab: "a = sig xi n" "b = sig xq n" using n assms(1) by (simp_all add: sig_def)
  have rest: "gardner_loop (Suc n)
      \<lparr>nco_acc = nco_acc s + NCO_STEP, regs_i = shift_reg a (regs_i s),
       regs_q = shift_reg b (regs_q s)\<rparr> samples =
    map (\<lambda>m. (m, clamp16 (gardner_spec xi xq m))) (filter (\<lambda>m. m mod 4 = 3) [Suc n..<length xi])"
    using Cons.prems nco_step(1) [OF Cons.prems(3)]
    by (intro Cons.IH [of "pre @ [c]"]) (simp_all add: ab window_shift)
  show ?case
    using rest n Cons.prems(4,5) nco_step(2) [OF Cons.prems(3)]
    by (simp add: c ab ted_window gardner_spec_def upt_conv_Cons Let_def)
qed

lemma zip_take_length: "zip xs ys = zip xs (take (length xs) ys)"
  by (induction xs ys rule: list_induct2') simp_all

lemma int16_sig: "list_all int16 x \<Longrightarrow> int16 (delay j (sig x) n)"
  using within_delay [OF within_sig, of x j] by (simp add: within_def int16_def)

lemma product_bound:
  assumes "int16 m" "int16 a" "int16 b"
  shows "\<bar>m * (a - b)\<bar> \<le> 32768 * 65535"
proof -
  have "\<bar>m\<bar> \<le> 32768" "\<bar>a - b\<bar> \<le> 65535" using assms by (auto simp: int16_def)
  then show ?thesis unfolding abs_mult by (intro mult_mono) simp_all
qed

lemma gardner_spec_bound:
  assumes "list_all int16 xi" "list_all int16 xq"
  shows "\<bar>gardner_spec xi xq n\<bar> \<le> 16384"
proof -
  let ?e = "\<lambda>x. delay 2 (sig x) n * (sig x n - delay 4 (sig x) n)"
  have e: "\<bar>?e x\<bar> \<le> 32768 * 65535" if "list_all int16 x" for x
    by (intro product_bound int16_sig that) (use int16_sig [OF that, of 0 n] in simp)
  from e [OF assms(1)] e [OF assms(2)] have "- 4294967296 \<le> ?e xi + ?e xq" "?e xi + ?e xq \<le> 4294967296" by linarith+
  then have "- 4294967296 div 2 ^ 18 \<le> (?e xi + ?e xq) div 2 ^ 18"
    "(?e xi + ?e xq) div 2 ^ 18 \<le> 4294967296 div (2 ^ 18 :: int)"
    by (intro zdiv_mono1; simp)+
  then show ?thesis by (simp add: gardner_spec_def drop_bit_eq_div)
qed

text \<open>The 32-bit oscillator of the timing detector overflows exactly at every fourth sample, first
  at sample 3, and the detector's values there are Gardner's formula; for 16-bit samples they are
  at most 16384 in absolute value, so the clipping to 16 bits never acts.  Fewer Q than I samples
  raise IndexError.\<close>

theorem gardner_ted_exact:
  assumes "list_all int16 xi" "list_all int16 xq"
  shows "gardner_ted_reference xi xq =
    (if length xq < length xi then Inl IndexError
     else Inr (map (\<lambda>n. (n, gardner_spec xi (take (length xi) xq) n))
            (filter (\<lambda>n. n mod 4 = 3) [0..<length xi]))) \<and>
    (\<forall>n. \<bar>gardner_spec xi xq n\<bar> \<le> 16384)"
proof -
  have b: "\<forall>n. \<bar>gardner_spec xi xq n\<bar> \<le> 16384" using gardner_spec_bound [OF assms] by blast
  show ?thesis
  proof (cases "length xq < length xi")
    case True
    then show ?thesis using b by (simp add: gardner_ted_reference_def)
  next
    case False
    let ?q = "take (length xi) xq"
    have q: "list_all int16 ?q" using assms(2) by (auto simp: list_all_iff dest: in_set_takeD)
    have z: "zip xi xq = zip xi ?q" by (rule zip_take_length)
    have "clamp16 (gardner_spec xi ?q n) = gardner_spec xi ?q n" for n
      using gardner_spec_bound [OF assms(1) q, of n] by (intro clamp16_id) (simp add: int16_def abs_le_iff)
    moreover have "gardner_loop 0 ted_init (zip xi ?q) =
        map (\<lambda>m. (m, clamp16 (gardner_spec xi ?q m))) (filter (\<lambda>m. m mod 4 = 3) [0..<length xi])"
      by (rule gardner_loop_spec [where pre = "[]"])
        (use False in \<open>simp_all add: ted_init_def window_def delay_def\<close>)
    ultimately show ?thesis using False b z by (simp add: gardner_ted_reference_def)
  qed
qed

theorem gardner_ted_witness:
  "gardner_ted_reference [1, 2, 3, 4] [0, 0, 0, 0] =
    Inr (map (\<lambda>n. (n, gardner_spec [1, 2, 3, 4] [0, 0, 0, 0] n)) [Suc (Suc (Suc 0))])"
  using gardner_ted_exact [of "[1, 2, 3, 4]" "[0, 0, 0, 0]"] by (simp add: int16_def)

end
