(* ===== verification/SyncDetect.thy ===== *)
theory SyncDetect
  imports PyData
begin

unbundle bit_operations_syntax

text \<open>
  The burst-level test vectors: the sliding training-sequence correlator and the burst builder of
  \<open>tb/vectors/gen_sync_detect_vectors.py\<close>, the burst assembly of
  \<open>tb/vectors/gen_burst_builder_vectors.py\<close>, the slot generator of
  \<open>tb/vectors/gen_burst_vectors.py\<close> with its expected fields, the payloads of
  \<open>tb/vectors/gen_burst_mux_vectors.py\<close>, and the table check of \<open>scripts/verify_training_seq.py\<close>.

  A dibit is a number from 0 to 3.  Random blocks of the builder are arguments of its model.  The
  correlator is characterised exactly, by the local maxima of the correlation; from this the
  detection of an embedded sequence follows.
\<close>

subsection \<open>Training sequences\<close>

definition NTS_DIBITS :: "nat list" where
  "NTS_DIBITS = [3, 1, 0, 0, 3, 2, 2, 1, 3, 1, 0, 0, 3, 2, 2, 1, 3, 1, 0, 0, 3, 0]"

definition ETS_DIBITS :: "nat list" where
  "ETS_DIBITS = [3, 1, 0, 0, 3, 2, 2, 1, 3, 1, 0, 0, 3, 2, 2, 1, 3, 1, 0, 0, 3, 0, 1, 2, 3, 1, 0, 2, 3, 1]"

definition STS_VECTORS :: "nat list" where
  "STS_VECTORS = [3, 1, 0, 2, 3, 1, 2, 1, 0, 2, 3, 1, 0, 0, 3, 2, 2, 1, 3, 1, 0, 2, 3, 1, 2, 1, 0, 2, 3, 1,
     0, 0, 3, 2, 2, 1, 3, 1]"

definition SEQ_TABLE :: "nat \<Rightarrow> nat list res" where
  "SEQ_TABLE seq_select =
     (if seq_select = 0 then Inr NTS_DIBITS else if seq_select = 1 then Inr ETS_DIBITS
      else if seq_select = 2 then Inr STS_VECTORS else Inl KeyError)"

subsection \<open>Correlator\<close>

definition correlate :: "nat list \<Rightarrow> nat list \<Rightarrow> nat" where
  "correlate window reference =
     (let ref_len = length reference
      in if length window < ref_len then 0
         else let recent = drop (length window - ref_len) window
              in length (filter (\<lambda>(r, e). r = e) (zip recent reference)))"

definition detect_peak :: "nat \<Rightarrow> nat \<Rightarrow> nat \<Rightarrow> nat \<Rightarrow> bool" where
  "detect_peak corr_prev corr_curr corr_next threshold \<longleftrightarrow>
     threshold \<le> corr_curr \<and> corr_prev \<le> corr_curr \<and> corr_next \<le> corr_curr"

fun sync_loop ::
  "nat list \<Rightarrow> nat \<Rightarrow> nat \<Rightarrow> nat list \<Rightarrow> nat \<Rightarrow> nat \<Rightarrow> nat list \<Rightarrow> (int \<times> nat) list" where
  "sync_loop reference threshold pos window corr_prev corr_curr [] = []"
| "sync_loop reference threshold pos window corr_prev corr_curr (dibit # stream) =
     (let window = window @ [dibit];
          corr_next = correlate window reference;
          found = (if detect_peak corr_prev corr_curr corr_next threshold
                   then [(int pos - 1, corr_curr)] else [])
      in found @ sync_loop reference threshold (pos + 1) window corr_curr corr_next stream)"

definition simulate_sync_detect :: "nat list \<Rightarrow> nat \<Rightarrow> nat \<Rightarrow> (int \<times> nat) list res" where
  "simulate_sync_detect stream seq_select threshold =
     bind_res (SEQ_TABLE seq_select) (\<lambda>reference.
       Inr (sync_loop reference threshold 0 [] 0 0 stream))"

text \<open>The burst and the position of its training sequence.\<close>

definition build_ndb_sync ::
  "nat list \<Rightarrow> nat list \<Rightarrow> nat list \<Rightarrow> nat \<Rightarrow> (nat list \<times> nat) res" where
  "build_ndb_sync block1 block2 bb seq_select =
     (let preamble = [1, 1]; guard = [0]
      in bind_res (SEQ_TABLE seq_select) (\<lambda>ts.
         let burst = preamble @ block1 @ ts @ bb @ block2 @ guard;
             ts_start = length preamble + length block1
         in Inr (burst, ts_start)))"

text \<open>One line per symbol, 1 where a synchronisation was found.\<close>

definition expected_marks :: "(int \<times> nat) list \<Rightarrow> nat \<Rightarrow> nat list" where
  "expected_marks found_list total_syms =
     map (\<lambda>i. if int i \<in> set (map fst found_list) then 1 else 0) [0..<total_syms]"

subsection \<open>Burst builder\<close>

definition NTS_BUILDER :: "nat list" where
  "NTS_BUILDER = [0, 3, 1, 2, 1, 3, 2, 2, 0, 3, 1, 0, 2, 1, 2, 0, 3, 1, 0, 0, 3, 1]"

definition FC_DIBITS :: "nat list" where "FC_DIBITS = [1, 1]"
definition BLOCK_SYMS :: nat where "BLOCK_SYMS = 108"
definition BB_SYMS :: nat where "BB_SYMS = 15"
definition NTS_SYMS :: nat where "NTS_SYMS = 22"
definition TOTAL_SYMS :: nat where "TOTAL_SYMS = 2 + BLOCK_SYMS + NTS_SYMS + BB_SYMS + BLOCK_SYMS"

definition build_ndb :: "nat list \<Rightarrow> nat list \<Rightarrow> nat list \<Rightarrow> nat list res" where
  "build_ndb block1_dibits bb_dibits block2_dibits =
     (let burst = FC_DIBITS @ block1_dibits @ NTS_BUILDER @ bb_dibits @ block2_dibits
      in assert_res (length burst = TOTAL_SYMS) (Inr burst))"

definition dibit_bits :: "nat \<Rightarrow> bits" where
  "dibit_bits d = [drop_bit 1 d AND 1 = 1, d AND 1 = 1]"

definition dibits_to_bits_builder :: "nat list \<Rightarrow> bits" where
  "dibits_to_bits_builder dibits = concat (map dibit_bits dibits)"

fun shift_in_bits :: "int \<Rightarrow> bits \<Rightarrow> int" where
  "shift_in_bits val [] = val"
| "shift_in_bits val (b # bs) = shift_in_bits (push_bit 1 val OR of_bool b) bs"

definition bits_to_hex_builder :: "bits \<Rightarrow> nat option \<Rightarrow> string res" where
  "bits_to_hex_builder bits nbits_arg =
     (let nbits = (case nbits_arg of None \<Rightarrow> length bits | Some n \<Rightarrow> n)
      in assert_res (length bits = nbits) (Inr (hex_upper ((nbits + 3) div 4) (shift_in_bits 0 bits))))"

subsection \<open>Slot generator\<close>

definition SYMBOLS_PER_SLOT :: nat where "SYMBOLS_PER_SLOT = 255"
definition SLOTS_PER_FRAME :: nat where "SLOTS_PER_FRAME = 4"
definition FREQCORR_START :: nat where "FREQCORR_START = 0"
definition FREQCORR_END :: nat where "FREQCORR_END = 1"
definition BLOCK1_START :: nat where "BLOCK1_START = 2"
definition BLOCK1_END :: nat where "BLOCK1_END = 109"
definition TS_START :: nat where "TS_START = 110"
definition TS_END :: nat where "TS_END = 131"
definition BB_START :: nat where "BB_START = 132"
definition BB_END :: nat where "BB_END = 146"
definition BLOCK2_START :: nat where "BLOCK2_START = 147"
definition BLOCK2_END :: nat where "BLOCK2_END = 254"

definition NTS_SYMBOLS :: "nat list" where
  "NTS_SYMBOLS = [1, 3, 0, 0, 1, 3, 0, 2, 1, 2, 0, 3, 1, 2, 2, 3, 1, 2, 2, 1, 3, 0]"

definition FREQCORR_SYMBOL :: nat where "FREQCORR_SYMBOL = 0"

definition fill_range :: "nat \<Rightarrow> nat \<Rightarrow> nat \<Rightarrow> nat list \<Rightarrow> nat list" where
  "fill_range lo hi v dibits = fold (\<lambda>i ds. ds[i := v]) [lo..<hi + 1] dibits"

definition b1_dibit :: "nat \<Rightarrow> nat \<Rightarrow> nat" where
  "b1_dibit slot_idx frame_idx = (slot_idx * 4 + frame_idx + 1) mod 4"

definition bb_dibit :: "nat \<Rightarrow> nat" where
  "bb_dibit slot_idx = (slot_idx + 1) mod 4"

definition b2_dibit :: "nat \<Rightarrow> nat \<Rightarrow> nat" where
  "b2_dibit slot_idx frame_idx = (slot_idx + frame_idx * 4 + 2) mod 3 + 1"

definition make_slot_dibits :: "nat \<Rightarrow> nat \<Rightarrow> nat list" where
  "make_slot_dibits slot_idx frame_idx =
     (let dibits = replicate SYMBOLS_PER_SLOT 0;
          dibits = fill_range FREQCORR_START FREQCORR_END FREQCORR_SYMBOL dibits;
          dibits = fill_range BLOCK1_START BLOCK1_END (b1_dibit slot_idx frame_idx) dibits;
          dibits = fold (\<lambda>(idx, sym) ds. ds[TS_START + idx := sym]) (enumerate 0 NTS_SYMBOLS) dibits;
          dibits = fill_range BB_START BB_END (bb_dibit slot_idx) dibits
      in fill_range BLOCK2_START BLOCK2_END (b2_dibit slot_idx frame_idx) dibits)"

text \<open>\<open>f"{val:0{hex_digits}x}"\<close>: lower-case digits.\<close>

definition lower_char :: "char \<Rightarrow> char" where
  "lower_char c = (if c \<in> set ''ABCDEF'' then char_of (of_char c + 32 :: nat) else c)"

definition bits_to_hex_slot :: "bits \<Rightarrow> nat \<Rightarrow> string res" where
  "bits_to_hex_slot bits width_bits =
     assert_res (length bits = width_bits)
       (Inr (map lower_char (hex_upper ((width_bits + 3) div 4) (shift_in_bits 0 bits))))"

definition expected_block_hex :: "nat \<Rightarrow> nat \<Rightarrow> string \<Rightarrow> string res" where
  "expected_block_hex slot_idx frame_idx field =
     (let dibits = make_slot_dibits slot_idx frame_idx;
          seg = (\<lambda>lo hi. take (hi + 1 - lo) (drop lo dibits))
      in if field = ''block1'' then bits_to_hex_slot (dibits_to_bits_builder (seg BLOCK1_START BLOCK1_END)) 216
         else if field = ''bb'' then bits_to_hex_slot (dibits_to_bits_builder (seg BB_START BB_END)) 30
         else if field = ''block2'' then bits_to_hex_slot (dibits_to_bits_builder (seg BLOCK2_START BLOCK2_END)) 216
         else Inl ValueError)"

text \<open>The stimulus of \<open>main\<close> and its expected bursts (slot number, block 1, block 2, BB): every slot
  but the first of the first frame.\<close>

definition all_slots :: "nat \<Rightarrow> (nat \<times> nat) list" where
  "all_slots n_frames = concat (map (\<lambda>f. map (\<lambda>s. (f, s)) [0..<SLOTS_PER_FRAME]) [0..<n_frames])"

definition burst_stimulus :: "nat \<Rightarrow> nat list" where
  "burst_stimulus n_frames =
     concat (map (\<lambda>(frame_idx, slot_idx). make_slot_dibits slot_idx frame_idx) (all_slots n_frames))"

definition expected_line :: "nat \<Rightarrow> nat \<times> nat \<Rightarrow> (nat \<times> string \<times> string \<times> string) res" where
  "expected_line global_slot = (\<lambda>(frame_idx, slot_idx).
     bind_res (expected_block_hex slot_idx frame_idx ''block1'') (\<lambda>b1.
     bind_res (expected_block_hex slot_idx frame_idx ''bb'') (\<lambda>bb.
     bind_res (expected_block_hex slot_idx frame_idx ''block2'') (\<lambda>b2.
     Inr (global_slot mod 4, b1, b2, bb)))))"

fun expected_lines :: "nat \<Rightarrow> (nat \<times> nat) list \<Rightarrow> (nat \<times> string \<times> string \<times> string) list res" where
  "expected_lines global_slot [] = Inr []"
| "expected_lines global_slot (fs # slots) =
     (if 1 \<le> global_slot
      then bind_res (expected_line global_slot fs) (\<lambda>l.
           bind_res (expected_lines (global_slot + 1) slots) (\<lambda>rest. Inr (l # rest)))
      else expected_lines (global_slot + 1) slots)"

subsection \<open>Payloads of the multiplexer\<close>

fun repeat_byte :: "nat \<Rightarrow> int \<Rightarrow> int" where
  "repeat_byte 0 byte = 0"
| "repeat_byte (Suc n) byte = repeat_byte n byte * 256 + byte"

definition make_payload :: "int \<Rightarrow> int" where
  "make_payload pattern = repeat_byte (216 div 8 + 1) (pattern AND 0xFF) AND (2 ^ 216 - 1)"

definition hex27 :: "int \<Rightarrow> nat \<Rightarrow> string" where
  "hex27 v bits = hex_upper ((bits + 3) div 4) (v AND (2 ^ bits - 1))"

subsection \<open>Table check\<close>

definition nts_bits_rtl :: string where
  "nts_bits_rtl = ''00110110111010001101101000011101000110011101''"

definition ets_bits_rtl :: string where
  "ets_bits_rtl = ''01110100101101010011010001111010001101000010011101'' @ ''00111101''"

definition sts_bits_rtl :: string where
  "sts_bits_rtl = ''01111010001101001011010010110100110010011101'' @
     ''0010011011010000111001101110100010011011''"

text \<open>\<open>int(bitstring[i:i+2], 2)\<close> for every even \<open>i\<close>.\<close>

definition bin_digit :: "char \<Rightarrow> nat option" where
  "bin_digit c = (if c = CHR ''0'' then Some 0 else if c = CHR ''1'' then Some 1 else None)"

fun bits_to_dibits :: "string \<Rightarrow> nat list res" where
  "bits_to_dibits [] = Inr []"
| "bits_to_dibits [c] = (case bin_digit c of None \<Rightarrow> Inl ValueError | Some v \<Rightarrow> Inr [v])"
| "bits_to_dibits (c # d # cs) =
     (case (bin_digit c, bin_digit d) of
        (Some v, Some w) \<Rightarrow> bind_res (bits_to_dibits cs) (\<lambda>rest. Inr ((2 * v + w) # rest))
      | _ \<Rightarrow> Inl ValueError)"

definition compare_sequence :: "string \<Rightarrow> nat list \<Rightarrow> bool res" where
  "compare_sequence bits_rtl dibits_python =
     bind_res (bits_to_dibits bits_rtl) (\<lambda>dibits_rtl.
       if length dibits_rtl \<noteq> length dibits_python then Inr False
       else Inr (list_all (\<lambda>(rtl_val, py_val). rtl_val = py_val) (zip dibits_rtl dibits_python)))"

definition verify_main :: "int res" where
  "verify_main =
     bind_res (compare_sequence nts_bits_rtl NTS_DIBITS) (\<lambda>nts.
     bind_res (compare_sequence ets_bits_rtl ETS_DIBITS) (\<lambda>ets.
     bind_res (compare_sequence sts_bits_rtl STS_VECTORS) (\<lambda>sts.
     Inr (if nts \<and> ets \<and> sts then 0 else 1))))"

subsection \<open>The correlator reports the local maxima\<close>

text \<open>The correlation after \<open>k\<close> symbols.\<close>

definition corr_at :: "nat list \<Rightarrow> nat list \<Rightarrow> nat \<Rightarrow> nat" where
  "corr_at reference stream k = correlate (take k stream) reference"

lemma correlate_Nil [simp]: "correlate [] reference = 0"
  by (simp add: correlate_def)

lemma correlate_le: "correlate window reference \<le> length reference"
  by (simp add: correlate_def Let_def order.trans [OF length_filter_le])

text \<open>Peaks: at least the threshold and not below either neighbour.\<close>

definition peaks :: "nat list \<Rightarrow> nat list \<Rightarrow> nat \<Rightarrow> nat list" where
  "peaks reference stream threshold =
     filter (\<lambda>k. detect_peak (corr_at reference stream (k - 1)) (corr_at reference stream k)
                  (corr_at reference stream (k + 1)) threshold) [0..<length stream]"

lemma sync_loop_peaks:
  assumes "stream = pre @ rest"
  shows "sync_loop reference threshold (length pre) pre
      (corr_at reference stream (length pre - 1)) (corr_at reference stream (length pre)) rest =
    map (\<lambda>k. (int k - 1, corr_at reference stream k))
      (filter (\<lambda>k. detect_peak (corr_at reference stream (k - 1)) (corr_at reference stream k)
                  (corr_at reference stream (k + 1)) threshold) [length pre..<length stream])"
  using assms
proof (induction rest arbitrary: pre)
  case (Cons d rest)
  have next_c: "correlate (pre @ [d]) reference = corr_at reference stream (length pre + 1)"
    using Cons.prems by (simp add: corr_at_def)
  have ih: "sync_loop reference threshold (Suc (length pre)) (pre @ [d])
      (corr_at reference stream (length pre)) (corr_at reference stream (Suc (length pre))) rest =
    map (\<lambda>k. (int k - 1, corr_at reference stream k))
      (filter (\<lambda>k. detect_peak (corr_at reference stream (k - 1)) (corr_at reference stream k)
                  (corr_at reference stream (k + 1)) threshold) [Suc (length pre)..<length stream])"
    using Cons.IH [of "pre @ [d]"] Cons.prems by simp
  have "[length pre..<length stream] = length pre # [Suc (length pre)..<length stream]"
    using Cons.prems by (intro upt_conv_Cons) simp
  then show ?case using ih next_c by (simp add: Let_def)
qed simp

text \<open>The sliding correlator reports exactly the local maxima of the correlation that reach the
  threshold, each with its position (the symbol before the one that confirms it) and value; the
  last symbol of the stream is never reported.\<close>

theorem sync_detect_exact:
  "simulate_sync_detect stream seq_select threshold =
    bind_res (SEQ_TABLE seq_select) (\<lambda>reference.
      Inr (map (\<lambda>k. (int k - 1, corr_at reference stream k)) (peaks reference stream threshold)))"
  using sync_loop_peaks [of stream "[]" stream] 
  by (simp add: simulate_sync_detect_def peaks_def corr_at_def)

lemma correlate_full: "correlate (pre @ reference) reference = length reference"
proof -
  have "filter (\<lambda>(r, e). r = e) (zip reference reference) = zip reference reference"
    by (auto simp: filter_id_conv zip_same)
  then show ?thesis by (simp add: correlate_def Let_def)
qed

lemma embedded_peak:
  assumes "stream = pre @ reference @ rest" "rest \<noteq> []" "threshold \<le> length reference"
  shows "length pre + length reference \<in> set (peaks reference stream threshold)"
    and "corr_at reference stream (length pre + length reference) = length reference"
proof -
  show c: "corr_at reference stream (length pre + length reference) = length reference"
    using assms(1) correlate_full by (simp add: corr_at_def)
  have le: "corr_at reference stream k \<le> length reference" for k
    by (simp add: corr_at_def correlate_le)
  show "length pre + length reference \<in> set (peaks reference stream threshold)"
    using assms c le by (simp add: peaks_def detect_peak_def)
qed

text \<open>C29. Every burst of the vector builder is found: for any blocks, any noise before and after it,
  each of the three training sequences and any threshold up to its length, the correlator reports
  full correlation at the last symbol of the training sequence.\<close>

theorem built_burst_found:
  assumes "build_ndb_sync block1 block2 bb seq_select = Inr (burst, ts_start)"
    and "SEQ_TABLE seq_select = Inr ts" "threshold \<le> length ts"
  shows "\<exists>found. simulate_sync_detect (prefix_noise @ burst @ suffix_noise) seq_select threshold = Inr found \<and>
    (int (length prefix_noise + ts_start + length ts) - 1, length ts) \<in> set found"
proof -
  let ?stream = "prefix_noise @ burst @ suffix_noise"
  let ?pre = "prefix_noise @ [1, 1] @ block1"
  have s: "?stream = ?pre @ ts @ (bb @ block2 @ [0] @ suffix_noise)" "ts_start = 2 + length block1"
    using assms(1,2) by (simp_all add: build_ndb_sync_def Let_def)
  note peak = embedded_peak [OF s(1) _ assms(3)]
  have "length ?pre + length ts \<in> set (peaks ts ?stream threshold)"
    "corr_at ts ?stream (length ?pre + length ts) = length ts"
    by (rule peak; simp)+
  then have "(int (length ?pre + length ts) - 1, length ts) \<in>
      set (map (\<lambda>k. (int k - 1, corr_at ts ?stream k)) (peaks ts ?stream threshold))"
    by (force simp: image_iff)
  then show ?thesis using assms(2) s(2) by (simp add: sync_detect_exact algebra_simps)
qed

theorem built_burst_witness:
  "\<exists>found. simulate_sync_detect
      ([2, 2, 3] @ ([1, 1] @ [3, 0] @ NTS_DIBITS @ [1] @ [2, 2] @ [0]) @ [1, 0]) 0 18 = Inr found \<and>
    (int (length [2, 2, 3 :: nat] + 4 + length NTS_DIBITS) - 1, length NTS_DIBITS) \<in> set found"
  by (rule built_burst_found [where seq_select = 0 and ?block1.0 = "[3, 0]" and bb = "[1]"
        and ?block2.0 = "[2, 2]"])
    (simp_all add: build_ndb_sync_def SEQ_TABLE_def Let_def NTS_DIBITS_def)

text \<open>The training sequences of the generators are not the same: on the bursts of the burst builder
  and of the slot generator the correlator of the synchronisation vectors reaches 8 and 7 of 22
  symbols, below all its thresholds, and the table check of \<open>verify_training_seq.py\<close> returns 1.\<close>

theorem training_tables_differ:
  "correlate NTS_BUILDER NTS_DIBITS = 8 \<and> correlate NTS_SYMBOLS NTS_DIBITS = 7 \<and>
   correlate NTS_SYMBOLS NTS_BUILDER = 6 \<and> verify_main = Inr 1"
  by code_simp

subsection \<open>Fields of a burst\<close>

definition field_of :: "nat \<Rightarrow> nat \<Rightarrow> 'a list \<Rightarrow> 'a list" where
  "field_of lo hi xs = take (hi + 1 - lo) (drop lo xs)"

lemma length_NTS: "length NTS_BUILDER = 22" "length NTS_SYMBOLS = 22"
  by (simp_all add: NTS_BUILDER_def NTS_SYMBOLS_def)

lemmas slot_positions = FREQCORR_START_def FREQCORR_END_def BLOCK1_START_def BLOCK1_END_def
  TS_START_def TS_END_def BB_START_def BB_END_def BLOCK2_START_def BLOCK2_END_def

text \<open>A burst of the builder has 255 symbols, and the positions of the slot generator recover its
  three blocks and its training sequence; blocks whose lengths do not add up to 231 symbols are
  refused.\<close>

theorem ndb_fields:
  "(length b1 = 108 \<and> length bb = 15 \<and> length b2 = 108 \<longrightarrow>
     (\<exists>burst. build_ndb b1 bb b2 = Inr burst \<and> length burst = SYMBOLS_PER_SLOT \<and>
       field_of BLOCK1_START BLOCK1_END burst = b1 \<and> field_of TS_START TS_END burst = NTS_BUILDER \<and>
       field_of BB_START BB_END burst = bb \<and> field_of BLOCK2_START BLOCK2_END burst = b2)) \<and>
   (length b1 + length bb + length b2 \<noteq> 231 \<longrightarrow> build_ndb b1 bb b2 = Inl AssertionError)"
  by (auto simp: build_ndb_def Let_def FC_DIBITS_def length_NTS TOTAL_SYMS_def BLOCK_SYMS_def
      NTS_SYMS_def BB_SYMS_def SYMBOLS_PER_SLOT_def field_of_def slot_positions)

theorem ndb_fields_witness:
  "\<exists>burst. build_ndb (replicate 108 1) (replicate 15 2) (replicate 108 3) = Inr burst \<and>
     length burst = SYMBOLS_PER_SLOT \<and>
     field_of BLOCK1_START BLOCK1_END burst = replicate 108 1 \<and>
     field_of TS_START TS_END burst = NTS_BUILDER \<and>
     field_of BB_START BB_END burst = replicate 15 2 \<and>
     field_of BLOCK2_START BLOCK2_END burst = replicate 108 3"
  using ndb_fields [of "replicate 108 1" "replicate 15 2" "replicate 108 3"]
  by simp

lemma fold_update_range:
  "length xs = lo \<Longrightarrow> length ys = n \<Longrightarrow>
   fold (\<lambda>i ds. ds[i := v]) [lo..<lo + n] (xs @ ys @ zs) = xs @ replicate n v @ zs"
proof (induction n arbitrary: xs lo ys)
  case (Suc n)
  obtain y ys' where ys: "ys = y # ys'" "length ys' = n" using Suc.prems by (cases ys) auto
  have "[lo..<lo + Suc n] = lo # [Suc lo..<Suc lo + n]" by (simp add: upt_conv_Cons)
  moreover have "(xs @ ys @ zs)[lo := v] = (xs @ [v]) @ ys' @ zs"
    using Suc.prems ys by (simp add: list_update_append)
  ultimately show ?case using Suc.IH [of "xs @ [v]" "Suc lo" ys'] Suc.prems ys(2) by simp
qed simp

lemma fill_range_eq:
  "length xs = lo \<Longrightarrow> length ys = hi + 1 - lo \<Longrightarrow> lo \<le> hi \<Longrightarrow>
   fill_range lo hi v (xs @ ys @ zs) = xs @ replicate (hi + 1 - lo) v @ zs"
  using fold_update_range [of xs lo ys "hi + 1 - lo" v zs] by (simp add: fill_range_def)

lemma fold_update_symbols:
  "length xs = lo + k \<Longrightarrow> length ys = length syms \<Longrightarrow>
   fold (\<lambda>(idx, sym) ds. ds[lo + idx := sym]) (enumerate k syms) (xs @ ys @ zs) = xs @ syms @ zs"
proof (induction syms arbitrary: k xs ys)
  case (Cons s syms)
  obtain y ys' where ys: "ys = y # ys'" "length ys' = length syms" using Cons.prems by (cases ys) auto
  have "(xs @ ys @ zs)[lo + k := s] = (xs @ [s]) @ ys' @ zs"
    using Cons.prems ys by (simp add: list_update_append)
  then show ?case using Cons.IH [of "xs @ [s]" "Suc k" ys'] Cons.prems ys(2) by simp
qed simp

lemma make_slot_eq:
  "make_slot_dibits s f = replicate 2 0 @ replicate 108 (b1_dibit s f) @ NTS_SYMBOLS
     @ replicate 15 (bb_dibit s) @ replicate 108 (b2_dibit s f)"
proof -
  let ?z = "replicate :: nat \<Rightarrow> nat \<Rightarrow> nat list"
  have split: "?z SYMBOLS_PER_SLOT 0 = [] @ ?z 2 0 @ ?z 253 0" "?z 253 0 = ?z 108 0 @ ?z 145 0"
    "?z 145 0 = ?z 22 0 @ ?z 123 0" "?z 123 0 = ?z 15 0 @ ?z 108 0"
    by (simp_all add: SYMBOLS_PER_SLOT_def flip: replicate_add)
  have f1: "fill_range 0 1 FREQCORR_SYMBOL (?z SYMBOLS_PER_SLOT 0) = ?z 2 0 @ ?z 253 0"
    unfolding split(1) by (subst fill_range_eq) (simp_all add: FREQCORR_SYMBOL_def numeral_2_eq_2)
  have f2: "fill_range 2 109 v (?z 2 0 @ ?z 253 0) = ?z 2 0 @ ?z 108 v @ ?z 145 0" for v
    unfolding split(2) by (subst fill_range_eq) simp_all
  have f3: "fold (\<lambda>(idx, sym) ds. ds[110 + idx := sym]) (enumerate 0 NTS_SYMBOLS)
      (?z 2 0 @ ?z 108 v @ ?z 145 0) = (?z 2 0 @ ?z 108 v) @ NTS_SYMBOLS @ ?z 123 0" for v
    unfolding split(3)
    using fold_update_symbols [of "?z 2 0 @ ?z 108 v" 110 0 "?z 22 0" NTS_SYMBOLS "?z 123 0"]
    by (simp add: length_NTS)
  have f4: "fill_range 132 146 w ((?z 2 0 @ ?z 108 v) @ NTS_SYMBOLS @ ?z 123 0)
      = (?z 2 0 @ ?z 108 v @ NTS_SYMBOLS) @ ?z 15 w @ ?z 108 0" for v w
    unfolding split(4)
    using fill_range_eq [of "?z 2 0 @ ?z 108 v @ NTS_SYMBOLS" 132 "?z 15 0" 146 w "?z 108 0"]
    by (simp add: length_NTS)
  have f5: "fill_range 147 254 u ((?z 2 0 @ ?z 108 v @ NTS_SYMBOLS) @ ?z 15 w @ ?z 108 0)
      = ?z 2 0 @ ?z 108 v @ NTS_SYMBOLS @ ?z 15 w @ ?z 108 u" for u v w
    using fill_range_eq [of "?z 2 0 @ ?z 108 v @ NTS_SYMBOLS @ ?z 15 w" 147 "?z 108 0" 254 u "[]"]
    by (simp add: length_NTS)
  show ?thesis
    unfolding make_slot_dibits_def Let_def slot_positions f1 f2 f3 f4 f5 by (rule refl)
qed

text \<open>The slots of the generator: 255 symbols with each field constant at its positions.  The
  first block's dibit does not depend on the slot, so the four slots of a frame carry the same
  first block.\<close>

theorem slot_fields:
  "length (make_slot_dibits s f) = SYMBOLS_PER_SLOT \<and>
   field_of BLOCK1_START BLOCK1_END (make_slot_dibits s f) = replicate 108 (b1_dibit s f) \<and>
   field_of TS_START TS_END (make_slot_dibits s f) = NTS_SYMBOLS \<and>
   field_of BB_START BB_END (make_slot_dibits s f) = replicate 15 (bb_dibit s) \<and>
   field_of BLOCK2_START BLOCK2_END (make_slot_dibits s f) = replicate 108 (b2_dibit s f) \<and>
   b1_dibit s f = b1_dibit 0 f"
proof -
  have "b1_dibit s f = b1_dibit 0 f" by (simp add: b1_dibit_def mod_simps)
  then show ?thesis
    by (simp add: make_slot_eq SYMBOLS_PER_SLOT_def length_NTS field_of_def slot_positions)
qed

subsection \<open>Payloads\<close>

lemma repeat_byte_Suc: "repeat_byte (Suc n) b = b * 256 ^ n + repeat_byte n b"
  by (induction n) (simp_all add: algebra_simps)

lemma repeat_byte_range: "0 \<le> b \<Longrightarrow> b < 256 \<Longrightarrow> 0 \<le> repeat_byte n b \<and> repeat_byte n b < 256 ^ n"
  by (induction n) simp_all

text \<open>A payload is 27 copies of the pattern byte: the 28th is cut off.\<close>

lemma make_payload_eq: "make_payload pattern = repeat_byte 27 (pattern AND 0xFF)"
proof -
  let ?b = "pattern AND 0xFF"
  have b: "0 \<le> ?b" "?b < 256"
    using and_mask_mod [of pattern 8] by simp_all
  have "(2::int) ^ 216 = 256 ^ 27" by simp
  moreover have "make_payload pattern = (?b * 256 ^ 27 + repeat_byte 27 ?b) mod 2 ^ 216"
    unfolding make_payload_def and_mask_mod using repeat_byte_Suc [of 27 ?b] by simp
  ultimately show ?thesis using repeat_byte_range [OF b, of 27] by simp
qed

end
