(* ===== verification/Spec2Isabelle.thy ===== *)
theory Spec2Isabelle
  imports Channel UlRecords RtlViterbi ScheduleScan RefLog AdcVectors Aach BurstDiff Reassembly BurstRx TchS Loopback Pi4Dqpsk
    SyncDetect
begin

text \<open>
  A verification of the Python side of a TETRA base-station physical layer: the channel coding, the PDU
  parsers, the network clock and the burst schedule of \<open>src/scripts/\<close>, and the generators of test
  vectors in \<open>src/tb/vectors/\<close>.

  How the program works.  Information bits of a logical channel get a CRC-16 and four tail bits, are
  encoded by a rate-1/4 convolutional code, punctured to rate 2/3, interleaved and scrambled with the
  cell's seed (\<open>gen_sch_f_tv.py\<close>, \<open>gen_sch_hd_tv.py\<close>, \<open>gen_sch_hu_tv.py\<close>, \<open>verify_sb1_encoder.py\<close>);
  \<open>decode_dl.py\<close>, \<open>decode_ul.py\<close>, \<open>decode_sb.py\<close> and \<open>decode_bnch.py\<close> undo this with a hard or a soft
  Viterbi decoder.  The access assignment has a Reed-Muller code of its own.  Decoded blocks are MAC PDUs that carry
  LLC, MLE, MM and CMCE; two families of parsers read them, the guarded ones of \<open>decode_dl.py\<close> and
  \<open>decode_ul.py\<close> and the cursor decoders of \<open>decode_pdu.py\<close>, on which \<open>reassemble_ul_demand.py\<close> builds.
  The clock of \<open>decode_dl.py\<close> names the slots that \<open>schedule.py\<close> fills.  Around the blocks there are loops over recordings:
  \<open>decode_dl.py\<close> locks to a beacon, lays a grid of slots and reports every slot, \<open>schedule.py\<close> surveys the classes of the
  bursts, \<open>decode_ul.py\<close> tries channels and corrections on every burst and rejoins long messages, and
  \<open>parse_reference_decode.py\<close> reads the logs of both and relates them.

  Theories, in the order of the data.
  \<^item> \<open>Prelude\<close>: exceptions as values (\<open>'a res\<close>), MSB-first bit fields, Hamming distance, Python slices, index updates.
    \<open>PyData\<close>: Python dictionaries and values, the field reader \<open>extract_bits\<close>.  \<open>PyBlock\<close>: statement
    blocks with early return, over any state, and the locale \<open>pdu_parser\<close> by which the parsers' totality and bounds are
    derived.  \<open>BitCursor\<close>: class \<open>BitCursor\<close> and the optional elements, with the same kind of rules.
  \<^item> \<open>Scrambler\<close> (locale \<open>keystream\<close>; eight copies and two other generators), \<open>Crc\<close> (locale \<open>crc_register\<close>; both
    register directions, residue test, burst detection, CRC-32), \<open>Interleaver\<close> (locale \<open>block_interleaver\<close>, an
    interpretation per interleaver), \<open>ConvCode\<close>, \<open>CodeDistance\<close> (paths that differ stay apart),
    \<open>Viterbi\<close> (locale \<open>acs_decoder\<close>: any add-compare-select stage with non-negative costs is optimal; interpretations for the
    rate-1/4 and rate-1/3 stages), \<open>SoftViterbi\<close> (locale \<open>metric_map\<close>: a soft decoder whose metrics are a
    strictly monotone image of the hard ones makes the same choices; interpretations for the correlation
    decoder of \<open>decode_dl.py\<close> and the cost decoder of \<open>decode_bnch.py\<close>).
  \<^item> \<open>Channel\<close>: the encoders and \<open>decode_channel\<close>; locale \<open>signalling_channel\<close> with an interpretation for SCH/F,
    SCH/HD, SCH/HU and the BSCH.  \<open>SyncPdu\<close> and \<open>BurstRx\<close>: the beacon, its layouts and the BNCH.
    \<open>ReedMuller\<close>, \<open>Aach\<close>: the access assignment.
  \<^item> \<open>SoftMargin\<close>: what the soft decoder recovers when bits are faded.  \<open>RtlViterbi\<close>: the mirror of the RTL decoder in
    \<open>verify_sch_hu_decode.py\<close>.
  \<^item> the downlink recording: \<open>DlReceive\<close> (one slot of the loop of \<open>decode_dl\<close>: layouts, candidates, retries, the items reported),
    \<open>DlSlots\<close> (counters, totality and errors of a slot), \<open>DlTracking\<close> (cell identity and clock over the slots),
    \<open>DlOverAir\<close> (bursts as sent, with errors, against the report), \<open>DlAcquire\<close> (peaks, lock and grid), \<open>ScheduleScan\<close>
    (the survey of \<open>schedule.py\<close>), \<open>RefLog\<close> (the logs, the time line and the reactions).
  \<^item> the uplink recording: \<open>UlReceive\<close> (channel hypotheses, the search over corrections), \<open>UlChains\<close> (long messages), \<open>UlVectors\<close>
    (the stream of the test bench and the receiver that emulates the RTL), \<open>UlRecords\<close> (words and blocks for the
    test benches, the registers of the monitor).
  \<^item> \<open>MacParse\<close>, \<open>LlcMle\<close>, \<open>UlParse\<close>: the guarded parsers.  \<open>DecodePdu\<close>, \<open>BurstDecode\<close>, \<open>BurstDiff\<close>: the cursor
    decoders (locale \<open>cursor_decoder\<close>, an interpretation per decoder), whole bursts, and their
    comparison.  \<open>Reassembly\<close>: fragments and the group identities in them.
  \<^item> \<open>NetworkTime\<close> and \<open>Schedule\<close>: the clock as a transition system with its invariant, and the schedule blob with
    the comparison of its preset to the entries the Verilog testbench of the transmit schedule expects.
  \<^item> \<open>TchS\<close>: the voice bursts.  \<open>CicFilters\<close> (integer signals as functions of time; a register that wraps agrees with
    the exact sum modulo its width), \<open>RrcFilter\<close>, \<open>Pi4Dqpsk\<close>: the fixed-point models of the front ends, the modulator, the
    CORDIC demodulator and the timing detector.  \<open>Loopback\<close>: the chain of \<open>sim_loopback.py\<close> from the matched filter to the
    timing recovery.  \<open>AdcVectors\<close>: the lanes of the radio chip.  \<open>SyncDetect\<close>: the correlator and the burst builders.
    \<open>VectorViterbi\<close>: the encoder and the reference decoder of the test vectors.
  \<^item> this theory: properties that cross the channel coding and the PDU layers.

  How state corresponds.  An \<open>njit\<close> array loop is a fold over lists of the same length; the two Viterbi columns
  \<open>pm\<close>, \<open>tb_state\<close>, \<open>tb_input\<close> are a \<open>column\<close>; the fields of class \<open>NetworkTime\<close> are the record
  \<open>net_time\<close>; the local variables of the loop of \<open>decode_dl\<close> that live from slot to slot are the record \<open>dl_state\<close>, the bursts
  it demodulates at a slot the record \<open>slot_input\<close>, and a printed report an \<open>item\<close>; a chain of \<open>decode_ul\<close> is the record
  \<open>chain\<close>, a parsed line of a log a \<open>dl_line\<close> or \<open>ul_line\<close> (the match of its regular expression); registers of the
  timing recovery are the record \<open>tr_state\<close>; a parser's local dictionary and position are the state of a block; \<open>self.bits\<close> and
  \<open>self.pos\<close> of a cursor are the record \<open>cst\<close> together with the dictionary being built.  Exceptions are
  \<open>Inl\<close> values; an index read is guarded by the exception the source would raise.  Registers are \<open>16 word\<close>
  and \<open>32 word\<close>; Python integers are \<open>int\<close>.

  What is shown.  Every signalling channel returns the information and a good CRC after any burst of 10 flipped
  bits, and the decoder is maximum-likelihood; the soft decoders agree with the hard one on hard values; the beacon
  and the BNCH are found at every layout; parsers never raise, or raise exactly on the inputs stated;
  whole PDUs are parsed back field by field; a fragmented registration and a call set-up survive
  the way over the air and through the parsers; clock and schedule agree; the fixed-point filters compute the exact
  moving sums and convolutions although their registers wrap, modulator and demodulator are inverse, the
  correlator finds every built burst; the wanted cell is acquired among others, its beacons and normal bursts are reported as
  sent with errors corrected, the lock and the clock follow the network, every slot is counted once, and the log of it
  dates every burst by the network clock; the uplink stream of the test bench is decoded to its messages and long messages
  are rejoined whatever lies between their blocks; the integer loopback is the composition of its exact filters; the reference decoder of the vectors returns zeros only.

  Bounds.  The hard decoder's infinity is \<open>10 ^ 9\<close> and the soft ones' \<open>10 ^ 18\<close> as in the code; a block is shorter than
  \<open>10 ^ 9\<close> positions wherever metrics matter (the longest of the program has 1152).  Reed-Muller decoding searches the
  \<open>2 ^ 14\<close> words the code searches.  Loops that read the length of their data from the air are recursions with a measure
  (\<open>type3_elements\<close>: what is left of the bits).  The walks along the grid are partial functions, shown to end
  where the spacing is positive (\<open>grid_complete\<close>, \<open>scan_grid_complete\<close>); positions and correlations are rational, so that a
  comparison or a floor is exact where the code's floats round.

  Not modelled: file readers and the filters, timing and frequency estimation and demodulation of the recordings' decoders, which
  are floating point (the models of \<open>src/scripts/\<close> start at dibits, peaks or soft values, which are integers or rationals); the matching of
  the regular expressions of the log reader and the texts it writes; the floating-point stimuli
  of the front-end vectors; printing, plots and command lines, except where a printed report is
  the function's only result (\<open>cmp_dict\<close>, \<open>reassemble_and_decode\<close>); the optional modules \<open>tetra_mm\<close> and
  \<open>tetra_cmce\<close>, which are not in the repository and are parameters of \<open>LlcMle\<close> and \<open>UlParse\<close>; the RTL, the C and Rust
  programs.  \<open>int(s, 16)\<close> is modelled on hexadecimal digits only.
\<close>



text \<open>C3. A mobile registers over the air: the demand of an ITSI attach with one group, split over a MAC-ACCESS
  without fill bits and a MAC-END-HU of ten octets with its fill bit set or not, each in a 92-bit block encoded on SCH/HU for
  any cell seed and each hit by its own burst of up to 10 flipped air bits, is received with two good
  CRCs, and from the two received blocks the reassembly reports every field, the group number and the
  trailing bits.\<close>

theorem itsi_attach_over_the_air:
  assumes "fits 1 enc" "fits 24 ssi" "fits 4 rr" "fits 1 fill'"
    and "fits 1 ns" "fits 3 lut" "fits 24 cls" "fits 3 esm" "fits 1 mode" "fits 3 usage" "fits 24 gssi"
    and "length rest = 14" "length pad = 5" "length e0 = 168" "length e1 = 168" "burst 10 e0" "burst 10 e1"
    and "all = demand_bits ns lut cls esm (group_bits mode usage gssi) @ rest"
    and "info0 = frag_header 0 enc ssi rr @ take 56 all" "info1 = end_header fill' 10 @ drop 56 all @ pad"
  shows "\<exists>t0 t1 d0 d1. encode_sch_hu info0 seed = Inr t0 \<and> encode_sch_hu info1 seed = Inr t1 \<and>
    decode_channel (descramble_hard (xor_bits t0 e0) seed 168) 168 13 92 = Inr (True, info0, d0) \<and>
    decode_channel (descramble_hard (xor_bits t1 e1) seed 168) 168 13 92 = Inr (True, info1, d1) \<and>
    reassemble_and_decode info0 info1 =
      Inr (demand_report ns lut cls esm (group_bits mode usage gssi)
        (group_report mode usage gssi @ [(''Trailing bits'', VBits rest)]))"
proof -
  have all: "length all = 136" by (simp add: assms(18) demand_bits_def group_bits_def assms(12))
  have l: "length info0 = 92" "length info1 = 92"
    by (simp_all add: assms(19,20) frag_header_def end_header_def all assms(13))
  have r: "reassemble_and_decode info0 info1 =
      Inr (demand_report ns lut cls esm (group_bits mode usage gssi) (group_report mode usage gssi @ trailing_report rest))"
    using itsi_attach_group_reported [of 0 enc ssi rr fill' 10 "drop 56 all" ns lut cls esm mode usage gssi rest "take 56 all" 0 pad]
      assms(1-12,18) all by (simp add: assms(19,20) fits_def [of 4 10])
  have "rest \<noteq> []" using assms(12) by auto
  then have "trailing_report rest = [(''Trailing bits'', VBits rest)]" by (simp add: trailing_report_def)
  with r sch_hu.decode_burst [OF l(1) TrueI assms(14,16), of seed] sch_hu.decode_burst [OF l(2) TrueI assms(15,17), of seed]
  show ?thesis by auto
qed

theorem itsi_attach_over_the_air_witness:
  "\<exists>info0 info1. reassemble_and_decode info0 info1 =
      Inr (demand_report 0 3 1708128 1 (group_bits 0 4 3100003)
        (group_report 0 4 3100003 @ [(''Trailing bits'', VBits (replicate 14 False))]))"
  using itsi_attach_over_the_air [of 0 2629608 0 1 0 3 1708128 1 0 4 3100003 "replicate 14 False" "replicate 5 False"
      "replicate 168 False" "replicate 168 False", OF _ _ _ _ _ _ _ _ _ _ _ _ _ _ _ _ _ refl refl refl, of 0]
  by (auto simp: fits_def burst_def)

end
